(* ===== verification/Prelude.thy ===== *)
theory Prelude
  imports Main "HOL-Library.Word"
begin

text \<open>
  The vocabulary every component of the development shares: the machine types of the Rust
  sources, results of fallible operations, the slice and iterator operations of the standard
  library that the sources call, and the facts about them that carry the component proofs.

  \<^item> \<open>byte\<close>, \<open>u16\<close>, \<open>u32\<close>, \<open>u64\<close> are words of their width; \<open>usize\<close> lengths and indices are
    \<open>nat\<close> (they index data that is already in memory).
  \<^item> A Rust \<open>String\<close> / \<open>&str\<close> / \<open>Vec<u8>\<close> / \<open>&[u8]\<close> is a list of bytes (\<open>bytes\<close>); a string is its
    UTF-8 encoding. \<open>ascii ''...''\<close> is the byte string of an ASCII literal.
  \<^item> \<open>Result<T, E>\<close> is \<open>'e + 'a\<close> with \<open>Err\<close> and \<open>Ok\<close> for the two injections.
\<close>

named_theorems sat_simps \<open>saturating machine arithmetic, read through unat\<close>
named_theorems slice_simps \<open>slices and iterators of the Rust standard library\<close>

type_synonym byte = "8 word"
type_synonym bytes = "8 word list"
type_synonym u16 = "16 word"
type_synonym u32 = "32 word"
type_synonym u64 = "64 word"

abbreviation Err :: "'e \<Rightarrow> 'e + 'a" where "Err \<equiv> Inl"
abbreviation Ok :: "'a \<Rightarrow> 'e + 'a" where "Ok \<equiv> Inr"

definition ascii :: "string \<Rightarrow> bytes" where
  "ascii s = map of_char s"

lemma ascii_simps [simp]:
  "ascii [] = []"
  "ascii (c # s) = of_char c # ascii s"
  by (simp_all add: ascii_def)

lemma length_ascii [simp]: "length (ascii s) = length s"
  by (simp add: ascii_def)

subsection \<open>Saturating arithmetic on machine words\<close>

definition saturating_add_u32 :: "u32 \<Rightarrow> u32 \<Rightarrow> u32" where
  "saturating_add_u32 a b = (if unat a + unat b < 2 ^ 32 then a + b else - 1)"

lemma unat_saturating_add_u32 [sat_simps]:
  "unat (saturating_add_u32 a b) = min (unat a + unat b) (2 ^ 32 - 1)"
proof (cases "unat a + unat b < 2 ^ 32")
  case True
  then show ?thesis
    by (simp add: saturating_add_u32_def unat_word_ariths)
next
  case False
  then show ?thesis
    by (simp add: saturating_add_u32_def unsigned_minus_1_eq_mask mask_eq_exp_minus_1)
qed

lemma saturating_add_u32_ge: "a \<le> saturating_add_u32 a b"
  using unsigned_less [of a, where ?'a = nat] by (simp add: word_le_nat_alt sat_simps)

lemma saturating_add_u32_pos: "0 < b \<Longrightarrow> 0 < saturating_add_u32 a b"
  by (simp add: word_less_nat_alt sat_simps)

subsection \<open>Iterators\<close>

text \<open>\<open>Iterator::position\<close>: the index of the first element that satisfies the predicate.\<close>

fun position :: "('a \<Rightarrow> bool) \<Rightarrow> 'a list \<Rightarrow> nat option" where
  "position P [] = None"
| "position P (x # xs) = (if P x then Some 0 else map_option Suc (position P xs))"

lemma position_None [slice_simps]: "position P xs = None \<longleftrightarrow> (\<forall>x \<in> set xs. \<not> P x)"
  by (induction xs) auto

lemma position_Some:
  "position P xs = Some i \<longleftrightarrow> i < length xs \<and> P (xs ! i) \<and> (\<forall>j < i. \<not> P (xs ! j))"
proof (induction xs arbitrary: i)
  case Nil
  then show ?case by simp
next
  case (Cons x xs)
  show ?case
  proof (cases i)
    case 0
    then show ?thesis by simp
  next
    case (Suc k)
    then show ?thesis by (auto simp: Cons.IH less_Suc_eq_0_disj)
  qed
qed

lemma position_SomeD:
  assumes "position P xs = Some i"
  shows "i < length xs" "P (xs ! i)" "\<And>j. j < i \<Longrightarrow> \<not> P (xs ! j)"
  using assms by (auto simp: position_Some)

lemma position_append:
  "position P (xs @ ys) =
     (case position P xs of Some i \<Rightarrow> Some i | None \<Rightarrow> map_option (\<lambda>i. i + length xs) (position P ys))"
  by (induction xs) (auto simp: option.map_comp comp_def option.map_ident split: option.splits)

lemma List_find_position:
  "List.find P xs = map_option ((!) xs) (position P xs)"
  by (induction xs) (auto simp: option.map_comp comp_def)

text \<open>\<open>slice::get(a..b)\<close>: the slice, or nothing when it is out of range.\<close>

definition get_range :: "'a list \<Rightarrow> nat \<Rightarrow> nat \<Rightarrow> 'a list option" where
  "get_range xs a b = (if a \<le> b \<and> b \<le> length xs then Some (take (b - a) (drop a xs)) else None)"

definition get_at :: "'a list \<Rightarrow> nat \<Rightarrow> 'a option" where
  "get_at xs i = (if i < length xs then Some (xs ! i) else None)"

lemma get_range_length: "get_range xs a b = Some ys \<Longrightarrow> length ys = b - a"
  by (auto simp: get_range_def split: if_splits)

lemma get_range_nth:
  "get_range xs a b = Some ys \<Longrightarrow> i < length ys \<Longrightarrow> ys ! i = xs ! (a + i)"
  by (auto simp: get_range_def split: if_splits)

lemma get_range_append:
  "get_range xs a b = Some ys \<Longrightarrow> get_range (xs @ zs) a b = Some ys"
  by (auto simp: get_range_def split: if_splits)

lemma get_at_append: "get_at xs i = Some x \<Longrightarrow> get_at (xs @ zs) i = Some x"
  by (auto simp: get_at_def nth_append split: if_splits)

lemma map_sum_Ok: "map_sum id f r = Ok y \<longleftrightarrow> (\<exists>x. r = Ok x \<and> y = f x)"
  by (cases r) auto

end
