(* ===== verification/Strings.thy ===== *)
theory Strings
  imports Prelude "HOL-Library.Monad_Syntax"
begin

text \<open>
  The operations of Rust's \<open>str\<close>, \<open>char\<close> and integer types that the sources use, on the UTF-8 bytes
  of a string: splitting at an ASCII character, the characters of a string, their classes,
  \<open>str::parse\<close> and the formatting of unsigned integers.
\<close>

abbreviation LF :: byte where "LF \<equiv> 10"
abbreviation CR :: byte where "CR \<equiv> 13"
abbreviation SPACE :: byte where "SPACE \<equiv> 32"
abbreviation HASH :: byte where "HASH \<equiv> 35"
abbreviation STAR :: byte where "STAR \<equiv> 42"
abbreviation PLUS :: byte where "PLUS \<equiv> 43"
abbreviation MINUS :: byte where "MINUS \<equiv> 45"
abbreviation DOT :: byte where "DOT \<equiv> 46"
abbreviation SLASH :: byte where "SLASH \<equiv> 47"
abbreviation COLON :: byte where "COLON \<equiv> 58"
abbreviation AT :: byte where "AT \<equiv> 64"
abbreviation LBRACKET :: byte where "LBRACKET \<equiv> 91"
abbreviation RBRACKET :: byte where "RBRACKET \<equiv> 93"

subsection \<open>Splitting\<close>

fun split_once :: "byte \<Rightarrow> bytes \<Rightarrow> (bytes \<times> bytes) option" where
  "split_once c [] = None"
| "split_once c (b # bs) =
     (if b = c then Some ([], bs) else map_option (\<lambda>(l, r). (b # l, r)) (split_once c bs))"

fun rsplit_once :: "byte \<Rightarrow> bytes \<Rightarrow> (bytes \<times> bytes) option" where
  "rsplit_once c [] = None"
| "rsplit_once c (b # bs) =
     (case rsplit_once c bs of
        Some (l, r) \<Rightarrow> Some (b # l, r)
      | None \<Rightarrow> if b = c then Some ([], bs) else None)"

fun strip_prefix :: "bytes \<Rightarrow> bytes \<Rightarrow> bytes option" where
  "strip_prefix [] s = Some s"
| "strip_prefix (p # ps) [] = None"
| "strip_prefix (p # ps) (b # bs) = (if p = b then strip_prefix ps bs else None)"

lemma split_once_None [slice_simps]: "split_once c s = None \<longleftrightarrow> c \<notin> set s"
  by (induction s) auto

lemma split_once_Some [slice_simps]: "split_once c s = Some (l, r) \<longleftrightarrow> s = l @ c # r \<and> c \<notin> set l"
proof (induction s arbitrary: l)
  case (Cons b s)
  then show ?case by (cases l) auto
qed simp

lemma rsplit_once_None [slice_simps]: "rsplit_once c s = None \<longleftrightarrow> c \<notin> set s"
  by (induction s) (auto split: option.splits)

lemma rsplit_once_Some [slice_simps]: "rsplit_once c s = Some (l, r) \<longleftrightarrow> s = l @ c # r \<and> c \<notin> set r"
proof (induction s arbitrary: l)
  case (Cons b s)
  show ?case
  proof (cases "rsplit_once c s")
    case None
    then have "c \<notin> set s" using rsplit_once_None [of c s] by simp
    with None show ?thesis by (cases l) auto
  next
    case (Some p)
    then have "c \<in> set s" using rsplit_once_None [of c s] by auto
    with Some Cons show ?thesis by (cases p; cases l) auto
  qed
qed simp

lemma strip_prefix_Some [slice_simps]: "strip_prefix p s = Some r \<longleftrightarrow> s = p @ r"
  by (induction p s rule: strip_prefix.induct) auto

lemma strip_prefix_None: "strip_prefix p s = None \<longleftrightarrow> (\<forall>r. s \<noteq> p @ r)"
  using strip_prefix_Some [of p s] by (cases "strip_prefix p s") auto

subsection \<open>Characters\<close>

text \<open>
  The code points of a string: the decoder of \<open>core::str\<close>, which trusts the bytes to be valid
  UTF-8 (a type invariant of \<open>str\<close>). A sequence that is cut short cannot occur and ends the list.
\<close>

definition utf8_len :: "byte \<Rightarrow> nat" where
  "utf8_len b = (if b < 128 then 1 else if b < 192 then 0 else if b < 224 then 2 else if b < 240 then 3 else 4)"

definition lead_bits :: "byte \<Rightarrow> nat" where
  "lead_bits b = unat b mod (if b < 128 then 128 else if b < 224 then 32 else if b < 240 then 16 else 8)"

function chars :: "bytes \<Rightarrow> nat list" where
  "chars [] = []"
| "chars (b # bs) =
     (let n = utf8_len b - 1
      in if utf8_len b = 0 \<or> length bs < n then []
         else foldl (\<lambda>a c. a * 64 + unat c mod 64) (lead_bits b) (take n bs) # chars (drop n bs))"
  by pat_completeness auto
termination by (relation "measure length") (auto simp: Let_def)

text \<open>The shape every \<open>str\<close> has: each leading byte is followed by its continuation bytes.\<close>

definition is_cont :: "byte \<Rightarrow> bool" where
  "is_cont b \<longleftrightarrow> 128 \<le> b \<and> b < 192"

function is_str :: "bytes \<Rightarrow> bool" where
  "is_str [] = True"
| "is_str (b # bs) \<longleftrightarrow>
     (let n = utf8_len b - 1
      in utf8_len b \<noteq> 0 \<and> n \<le> length bs \<and> list_all is_cont (take n bs) \<and> is_str (drop n bs))"
  by pat_completeness auto
termination by (relation "measure length") (auto simp: Let_def)

lemma is_cont_not_ascii: "is_cont b \<Longrightarrow> \<not> b < 128"
  by (auto simp: is_cont_def)

lemma utf8_len_ascii: "b < 128 \<Longrightarrow> utf8_len b = 1" "b < 128 \<Longrightarrow> lead_bits b = unat b"
  by (simp_all add: utf8_len_def lead_bits_def word_less_nat_alt)

lemma is_str_char: "is_str s \<Longrightarrow> b \<in> set s \<Longrightarrow> b < 128 \<Longrightarrow> unat b \<in> set (chars s)"
proof (induction s rule: is_str.induct)
  case (2 a bs)
  let ?n = "utf8_len a - 1"
  have ok: "utf8_len a \<noteq> 0" "?n \<le> length bs" "list_all is_cont (take ?n bs)" "is_str (drop ?n bs)"
    using 2(2) by (simp_all add: Let_def)
  have "b = a \<or> b \<in> set (drop ?n bs)"
  proof -
    have "b \<notin> set (take ?n bs)" using ok(3) 2(4) is_cont_not_ascii by (auto simp: list_all_iff)
    then show ?thesis using 2(3) append_take_drop_id [of ?n bs] by (metis Un_iff set_ConsD set_append)
  qed
  with 2 ok show ?case by (auto simp: Let_def utf8_len_ascii)
qed simp

lemma is_str_append: "is_str l \<Longrightarrow> is_str (l @ r) = is_str r"
  by (induction l rule: is_str.induct) (auto simp: Let_def)

lemma is_str_split: "is_str (l @ c # r) \<Longrightarrow> c < 128 \<Longrightarrow> is_str l \<and> is_str r"
proof (induction l rule: is_str.induct)
  case 1
  then show ?case by (simp add: utf8_len_ascii Let_def)
next
  case (2 a bs)
  let ?n = "utf8_len a - 1"
  have ok: "utf8_len a \<noteq> 0" "list_all is_cont (take ?n (bs @ c # r))" "is_str (drop ?n (bs @ c # r))"
    using 2(2) by (simp_all add: Let_def)
  have "?n \<le> length bs"
  proof (rule ccontr)
    assume "\<not> ?thesis"
    then have "c \<in> set (take ?n (bs @ c # r))" by (cases "?n - length bs") auto
    then show False using ok(2) 2(3) is_cont_not_ascii by (auto simp: list_all_iff)
  qed
  with 2 ok show ?case by (simp add: Let_def)
qed

lemma is_str_ascii: "list_all (\<lambda>b. b < 128) s \<Longrightarrow> is_str s"
  by (induction s) (auto simp: utf8_len_ascii Let_def)

definition is_ascii_control :: "nat \<Rightarrow> bool" where
  "is_ascii_control c \<longleftrightarrow> c < 32 \<or> c = 127"

text \<open>\<open>char::is_whitespace\<close>: the Unicode property White\_Space.\<close>

definition is_whitespace :: "nat \<Rightarrow> bool" where
  "is_whitespace c \<longleftrightarrow>
     c \<in> {9, 10, 11, 12, 13, 32, 0x85, 0xA0, 0x1680, 0x2028, 0x2029, 0x202F, 0x205F, 0x3000} \<or>
     0x2000 \<le> c \<and> c \<le> 0x200A"

definition is_ascii_digit :: "byte \<Rightarrow> bool" where
  "is_ascii_digit b \<longleftrightarrow> 48 \<le> b \<and> b \<le> 57"

definition to_ascii_lowercase :: "byte \<Rightarrow> byte" where
  "to_ascii_lowercase b = (if 65 \<le> b \<and> b \<le> 90 then b + 32 else b)"

definition eq_ignore_ascii_case :: "bytes \<Rightarrow> bytes \<Rightarrow> bool" where
  "eq_ignore_ascii_case a b \<longleftrightarrow> map to_ascii_lowercase a = map to_ascii_lowercase b"

subsection \<open>Numerals\<close>

text \<open>\<open>char::to_digit\<close> on an ASCII byte.\<close>

definition to_digit :: "nat \<Rightarrow> byte \<Rightarrow> nat option" where
  "to_digit radix b =
     (let d = (if 48 \<le> b \<and> b \<le> 57 then Some (unat b - 48)
               else if 97 \<le> b \<and> b \<le> 122 then Some (unat b - 87)
               else if 65 \<le> b \<and> b \<le> 90 then Some (unat b - 55) else None)
      in case d of Some v \<Rightarrow> if v < radix then Some v else None | None \<Rightarrow> None)"

definition digit_char :: "nat \<Rightarrow> byte" where
  "digit_char d = (if d < 10 then of_nat (48 + d) else of_nat (87 + d))"

function radix_str :: "nat \<Rightarrow> nat \<Rightarrow> bytes" where
  "radix_str r n = (if n < r \<or> r \<le> 1 then [digit_char n] else radix_str r (n div r) @ [digit_char (n mod r)])"
  by pat_completeness auto
termination by (relation "measure snd") (auto intro: div_less_dividend)

declare radix_str.simps [simp del]

text \<open>The unsigned \<open>from_str\<close>: an optional plus sign, then digits, with checked arithmetic.\<close>

fun parse_digits :: "nat \<Rightarrow> nat \<Rightarrow> bytes \<Rightarrow> nat option" where
  "parse_digits lim acc [] = Some acc"
| "parse_digits lim acc (b # bs) =
     (case to_digit 10 b of
        None \<Rightarrow> None
      | Some d \<Rightarrow> if acc * 10 + d \<le> lim then parse_digits lim (acc * 10 + d) bs else None)"

definition parse_uint :: "nat \<Rightarrow> bytes \<Rightarrow> nat option" where
  "parse_uint lim s =
     (case s of
        [] \<Rightarrow> None
      | b # bs \<Rightarrow>
          if bs = [] \<and> (b = PLUS \<or> b = MINUS) then None
          else if b = PLUS then parse_digits lim 0 bs
          else parse_digits lim 0 s)"

definition parse_u16 :: "bytes \<Rightarrow> u16 option" where
  "parse_u16 s = map_option of_nat (parse_uint 65535 s)"

definition fmt_u16 :: "u16 \<Rightarrow> bytes" where
  "fmt_u16 p = radix_str 10 (unat p)"

lemma unat_digit_char: "d < 16 \<Longrightarrow> unat (digit_char d) = (if d < 10 then 48 + d else 87 + d)"
  by (auto simp: digit_char_def unat_of_nat simp del: of_nat_add)

lemma to_digit_digit_char: "d < 16 \<Longrightarrow> d < r \<Longrightarrow> to_digit r (digit_char d) = Some d"
  by (simp add: to_digit_def word_le_nat_alt unat_digit_char)

lemmas digit_char_facts = unat_digit_char to_digit_digit_char

lemma digit_char_special:
  "d < 16 \<Longrightarrow> digit_char d \<notin> {PLUS, MINUS, DOT, COLON, LBRACKET, RBRACKET, SPACE, AT, STAR, HASH, SLASH}"
  using unat_digit_char [of d] by (auto split: if_splits)

lemma set_radix_str: "r \<le> 16 \<Longrightarrow> 1 < r \<Longrightarrow> set (radix_str r n) \<subseteq> digit_char ` {..<r}"
proof (induction n rule: less_induct)
  case (less n)
  show ?case
  proof (cases "n < r")
    case True
    then show ?thesis by (subst radix_str.simps) auto
  next
    case False
    then have "n div r < n" using less.prems by (intro div_less_dividend) auto
    with less False show ?thesis by (subst radix_str.simps) auto
  qed
qed

lemma radix_str_nonempty [simp]: "radix_str r n \<noteq> []"
  by (subst radix_str.simps) simp

lemma parse_digits_radix:
  "n \<le> lim \<Longrightarrow> parse_digits lim 0 (radix_str 10 n @ s) = parse_digits lim n s"
proof (induction n arbitrary: s rule: less_induct)
  case (less n)
  show ?case
  proof (cases "n < 10")
    case True
    with less.prems show ?thesis by (subst radix_str.simps) (simp add: digit_char_facts)
  next
    case False
    then have "radix_str 10 n = radix_str 10 (n div 10) @ [digit_char (n mod 10)]"
      by (subst radix_str.simps) simp
    with False less show ?thesis by (simp add: digit_char_facts)
  qed
qed

lemma radix_str_special:
  "c \<in> {PLUS, MINUS, DOT, COLON, LBRACKET, RBRACKET, SPACE, AT, STAR, HASH, SLASH} \<Longrightarrow> r \<le> 16 \<Longrightarrow> 1 < r \<Longrightarrow>
   c \<notin> set (radix_str r n)"
  using set_radix_str [of r n] digit_char_special by fastforce

lemma parse_uint_radix:
  assumes "n \<le> lim"
  shows "parse_uint lim (radix_str 10 n) = Some n"
proof -
  obtain b bs where s: "radix_str 10 n = b # bs" by (meson list.exhaust radix_str_nonempty)
  then have "b \<noteq> PLUS" "b \<noteq> MINUS"
    using radix_str_special [of PLUS 10 n] radix_str_special [of MINUS 10 n] by auto
  with s parse_digits_radix [OF assms, of "[]"] show ?thesis by (simp add: parse_uint_def)
qed

lemma fmt_u16_is_str: "is_str (fmt_u16 p)"
proof -
  have "digit_char d < 128" if "d < 10" for d
    using that unat_digit_char [of d] by (simp add: word_less_nat_alt)
  then show ?thesis
    using set_radix_str [of 10 "unat p"] by (intro is_str_ascii) (auto simp: list_all_iff fmt_u16_def)
qed

lemma parse_u16_fmt [simp]: "parse_u16 (fmt_u16 p) = Some p"
  using unsigned_less [of p, where ?'a = nat] by (simp add: parse_u16_def fmt_u16_def parse_uint_radix)

end
