(* ===== verification/Utf8.thy ===== *)
theory Utf8
  imports Strings
begin

text \<open>
  The parts of Rust's standard library on byte slices and UTF-8 that the protocol framing uses:
  validation (\<open>String::from_utf8\<close>), lossy decoding, trimming, splitting and searching.
\<close>

subsection \<open>Validation\<close>

definition in_bytes :: "byte \<Rightarrow> byte \<Rightarrow> byte \<Rightarrow> bool" where
  "in_bytes lo hi b \<longleftrightarrow> lo \<le> b \<and> b \<le> hi"

definition second_ok :: "byte \<Rightarrow> byte \<Rightarrow> bool" where
  "second_ok b c \<longleftrightarrow>
     (if b = 0xE0 then in_bytes 0xA0 0xBF c
      else if b = 0xED then in_bytes 0x80 0x9F c
      else if b = 0xF0 then in_bytes 0x90 0xBF c
      else if b = 0xF4 then in_bytes 0x80 0x8F c
      else is_cont c)"

text \<open>
  The sequence at the front of a non-empty slice: its number of bytes, and whether it is a well-formed
  character. A malformed sequence is its longest prefix of a well-formed one, at least one byte.
  \<open>byte_at\<close> reads past the end as 0, which is never a continuation byte.
\<close>

definition byte_at :: "bytes \<Rightarrow> nat \<Rightarrow> byte" where
  "byte_at s i = (if i < length s then s ! i else 0)"

definition utf8_next :: "bytes \<Rightarrow> bool \<times> nat" where
  "utf8_next s =
     (let b = byte_at s 0
      in if b < 128 then (True, 1)
         else if in_bytes 0xC2 0xDF b then (if is_cont (byte_at s 1) then (True, 2) else (False, 1))
         else if in_bytes 0xE0 0xEF b then
           (if \<not> second_ok b (byte_at s 1) then (False, 1)
            else if is_cont (byte_at s 2) then (True, 3) else (False, 2))
         else if in_bytes 0xF0 0xF4 b then
           (if \<not> second_ok b (byte_at s 1) then (False, 1)
            else if \<not> is_cont (byte_at s 2) then (False, 2)
            else if is_cont (byte_at s 3) then (True, 4) else (False, 3))
         else (False, 1))"

lemma utf8_next_pos: "0 < snd (utf8_next s)"
  by (simp add: utf8_next_def Let_def)

lemma utf8_next_shorter: "s \<noteq> [] \<Longrightarrow> length s - snd (utf8_next s) < length s"
  using utf8_next_pos [of s] by simp

function utf8_valid :: "bytes \<Rightarrow> bool" where
  "utf8_valid s \<longleftrightarrow> (if s = [] then True else fst (utf8_next s) \<and> utf8_valid (drop (snd (utf8_next s)) s))"
  by pat_completeness auto
termination by (relation "measure length") (simp_all add: utf8_next_shorter)

text \<open>\<open>String::from_utf8_lossy\<close>: every malformed sequence becomes U+FFFD.\<close>

function utf8_lossy :: "bytes \<Rightarrow> bytes" where
  "utf8_lossy s =
     (if s = [] then []
      else (if fst (utf8_next s) then take (snd (utf8_next s)) s else [0xEF, 0xBF, 0xBD]) @
           utf8_lossy (drop (snd (utf8_next s)) s))"
  by pat_completeness auto
termination by (relation "measure length") (simp_all add: utf8_next_shorter)

declare utf8_valid.simps [simp del] utf8_lossy.simps [simp del]

lemma utf8_valid_Nil [simp]: "utf8_valid []"
  by (simp add: utf8_valid.simps)

lemma utf8_valid_ascii_Cons: "b < 128 \<Longrightarrow> utf8_valid (b # s) = utf8_valid s"
  by (subst utf8_valid.simps) (simp add: utf8_next_def byte_at_def)

lemma utf8_valid_ascii: "list_all (\<lambda>b. b < 128) s \<Longrightarrow> utf8_valid (s @ t) = utf8_valid t"
  by (induction s) (simp_all add: utf8_valid_ascii_Cons)

lemma is_cont_zero [simp]: "\<not> is_cont 0"
  by (simp add: is_cont_def)

lemma second_ok_cont: "second_ok b c \<Longrightarrow> is_cont c"
  by (auto simp: second_ok_def is_cont_def in_bytes_def word_le_nat_alt word_less_nat_alt split: if_splits)

text \<open>A well-formed sequence lies inside the slice and is one character of it.\<close>

lemma byte_at_cont: "is_cont (byte_at s i) \<Longrightarrow> i < length s \<and> is_cont (s ! i)"
  by (auto simp: byte_at_def split: if_splits)

lemma utf8_next_char:
  assumes "s \<noteq> []" "fst (utf8_next s)"
  shows "snd (utf8_next s) = utf8_len (hd s) \<and> utf8_len (hd s) \<noteq> 0 \<and> utf8_len (hd s) \<le> length s \<and>
    (\<forall>i. 0 < i \<and> i < utf8_len (hd s) \<longrightarrow> is_cont (s ! i))"
proof -
  have b: "byte_at s 0 = hd s" using assms(1) by (simp add: byte_at_def hd_conv_nth)
  have le: "Suc 0 \<le> length s" using assms(1) by (cases s) auto
  have two: "is_cont (byte_at s 1) \<Longrightarrow> 2 \<le> length s" and
    three: "is_cont (byte_at s 2) \<Longrightarrow> 3 \<le> length s" and
    four: "is_cont (byte_at s 3) \<Longrightarrow> 4 \<le> length s" using byte_at_cont [of s] by fastforce+
  have i1: "i = 1" if "0 < i" "i < 2" for i :: nat using that by simp
  have i2: "i = 1 \<or> i = 2" if "0 < i" "i < 3" for i :: nat using that by auto
  have i3: "i = 1 \<or> i = 2 \<or> i = 3" if "0 < i" "i < 4" for i :: nat using that by auto
  consider "hd s < 128" | "\<not> hd s < 128" "in_bytes 0xC2 0xDF (hd s)"
    | "\<not> hd s < 128" "\<not> in_bytes 0xC2 0xDF (hd s)" "in_bytes 0xE0 0xEF (hd s)"
    | "\<not> hd s < 128" "\<not> in_bytes 0xC2 0xDF (hd s)" "\<not> in_bytes 0xE0 0xEF (hd s)" "in_bytes 0xF0 0xF4 (hd s)"
    using assms(2) by (auto simp: utf8_next_def Let_def b split: if_splits)
  then show ?thesis
  proof cases
    case 1
    then show ?thesis using assms(2) le by (simp add: utf8_next_def b utf8_len_def)
  next
    case 2
    then have l: "utf8_len (hd s) = 2"
      by (auto simp: in_bytes_def utf8_len_def word_le_nat_alt word_less_nat_alt)
    have "is_cont (byte_at s 1)" using assms(2) 2 by (auto simp: utf8_next_def Let_def b split: if_splits)
    then show ?thesis using 2 l two byte_at_cont [of s 1] by (auto simp: utf8_next_def Let_def b dest!: i1)
  next
    case 3
    then have l: "utf8_len (hd s) = 3"
      by (auto simp: in_bytes_def utf8_len_def word_le_nat_alt word_less_nat_alt)
    have c: "is_cont (byte_at s 1)" "is_cont (byte_at s 2)" "snd (utf8_next s) = 3"
      using assms(2) 3 second_ok_cont by (auto simp: utf8_next_def Let_def b split: if_splits)
    then show ?thesis using l three i2 byte_at_cont [of s 1] byte_at_cont [of s 2] by (auto dest!: i2)
  next
    case 4
    then have l: "utf8_len (hd s) = 4"
      by (auto simp: in_bytes_def utf8_len_def word_le_nat_alt word_less_nat_alt)
    have c: "is_cont (byte_at s 1)" "is_cont (byte_at s 2)" "is_cont (byte_at s 3)" "snd (utf8_next s) = 4"
      using assms(2) 4 second_ok_cont by (auto simp: utf8_next_def Let_def b split: if_splits)
    then show ?thesis using l four byte_at_cont [of s 1] byte_at_cont [of s 2] byte_at_cont [of s 3] by (auto dest!: i3)
  qed
qed

lemma utf8_valid_is_str: "utf8_valid s \<Longrightarrow> is_str s"
proof (induction s rule: utf8_valid.induct)
  case (1 s)
  show ?case
  proof (cases s)
    case (Cons b bs)
    have ok: "fst (utf8_next s)" and r: "utf8_valid (drop (snd (utf8_next s)) s)"
      using 1(2) Cons utf8_valid.simps [of s] by auto
    note n = utf8_next_char [OF _ ok]
    let ?m = "utf8_len b - 1"
    have n': "snd (utf8_next s) = Suc ?m" "Suc ?m \<le> length s" "\<forall>i < ?m. is_cont (bs ! i)" "utf8_len b \<noteq> 0"
      using n Cons by (auto dest!: spec [where x = "Suc _"])
    have "list_all is_cont (take ?m bs)" using n' Cons by (auto simp: list_all_length)
    moreover have "is_str (drop ?m bs)" using 1(1) ok r n'(1) Cons by simp
    ultimately show ?thesis using n' Cons by (simp add: Let_def)
  qed simp
qed

lemma utf8_next_append:
  assumes "s \<noteq> []" "fst (utf8_next s)"
  shows "utf8_next (s @ t) = utf8_next s"
proof -
  have b0: "byte_at (s @ t) 0 = byte_at s 0" using assms(1) by (simp add: byte_at_def nth_append)
  have b: "byte_at (s @ t) i = byte_at s i" if "is_cont (byte_at s i)" for i
    using byte_at_cont [OF that] by (simp add: byte_at_def nth_append)
  show ?thesis
    using assms(2) b [of 1] b [of 2] b [of 3] second_ok_cont [of "byte_at s 0" "byte_at s 1"]
    by (auto simp: utf8_next_def Let_def b0 split: if_splits)
qed

lemma utf8_valid_append: "utf8_valid s \<Longrightarrow> utf8_valid (s @ t) = utf8_valid t"
proof (induction s rule: utf8_valid.induct)
  case (1 s)
  show ?case
  proof (cases "s = []")
    case False
    then have v: "fst (utf8_next s)" "utf8_valid (drop (snd (utf8_next s)) s)" using 1(2) utf8_valid.simps [of s] by auto
    have "snd (utf8_next s) \<le> length s" using utf8_next_char [OF False v(1)] by simp
    then show ?thesis
      using 1(1) [OF False v(2)] utf8_valid.simps [of "s @ t"] utf8_next_append [OF False v(1), of t] False v by simp
  qed simp
qed

lemma utf8_lossy_valid: "utf8_valid s \<Longrightarrow> utf8_lossy s = s"
proof (induction s rule: utf8_lossy.induct)
  case (1 s)
  show ?case
  proof (cases "s = []")
    case False
    then have "fst (utf8_next s)" "utf8_valid (drop (snd (utf8_next s)) s)"
      using 1(2) utf8_valid.simps [of s] by auto
    then show ?thesis using 1(1) False utf8_lossy.simps [of s] by simp
  qed (simp add: utf8_lossy.simps)
qed

subsection \<open>Searching and splitting\<close>

abbreviation CRLF :: bytes where "CRLF \<equiv> [13, 10]"
abbreviation HEAD_END :: bytes where "HEAD_END \<equiv> [13, 10, 13, 10]"

definition starts_with :: "bytes \<Rightarrow> bytes \<Rightarrow> bool" where
  "starts_with s p \<longleftrightarrow> take (length p) s = p"

definition ends_with :: "bytes \<Rightarrow> bytes \<Rightarrow> bool" where
  "ends_with s p \<longleftrightarrow> length p \<le> length s \<and> drop (length s - length p) s = p"

text \<open>\<open>s.windows(n).position(|w| w == p)\<close> for a non-empty pattern.\<close>

fun find_window :: "bytes \<Rightarrow> bytes \<Rightarrow> nat option" where
  "find_window p [] = None"
| "find_window p (b # bs) = (if starts_with (b # bs) p then Some 0 else map_option Suc (find_window p bs))"

fun split_all :: "byte \<Rightarrow> bytes \<Rightarrow> bytes list" where
  "split_all c [] = [[]]"
| "split_all c (b # bs) =
     (if b = c then [] # split_all c bs
      else case split_all c bs of [] \<Rightarrow> [[b]] | l # ls \<Rightarrow> (b # l) # ls)"

lemma starts_with_iff: "starts_with s p \<longleftrightarrow> (\<exists>r. s = p @ r)"
  unfolding starts_with_def by (metis append_take_drop_id append_eq_conv_conj)

lemma ends_with_iff: "ends_with s p \<longleftrightarrow> (\<exists>r. s = r @ p)"
  unfolding ends_with_def by (metis append_eq_conv_conj append_take_drop_id diff_add_inverse2 le_add2 length_append)

lemma find_window_Some:
  assumes "p \<noteq> []"
  shows "find_window p s = Some i \<longleftrightarrow> i + length p \<le> length s \<and> take (length p) (drop i s) = p \<and>
    (\<forall>j < i. take (length p) (drop j s) \<noteq> p)"
proof (induction s arbitrary: i)
  case Nil
  then show ?case using assms by auto
next
  case (Cons b s)
  show ?case
  proof (cases i)
    case 0
    have "length p \<le> length (b # s)" if "take (length p) (b # s) = p"
      using arg_cong [OF that, of length] by (simp add: min_def split: if_splits)
    then show ?thesis using 0 by (auto simp: starts_with_def)
  next
    case (Suc k)
    then show ?thesis using Cons [of k] by (auto simp: starts_with_def less_Suc_eq_0_disj)
  qed
qed

lemma find_window_None:
  assumes "p \<noteq> []"
  shows "find_window p s = None \<longleftrightarrow> (\<forall>j. take (length p) (drop j s) \<noteq> p)"
proof (induction s)
  case (Cons b s)
  have "(\<forall>j. take (length p) (drop j (b # s)) \<noteq> p) \<longleftrightarrow>
      take (length p) (b # s) \<noteq> p \<and> (\<forall>j. take (length p) (drop j s) \<noteq> p)"
    by (metis drop0 drop_Suc_Cons not0_implies_Suc)
  with Cons show ?case by (simp add: starts_with_def)
qed (use assms in auto)

text \<open>The first occurrence in a prefix is the first occurrence.\<close>

lemma find_window_append:
  assumes "p \<noteq> []" "find_window p s = Some i"
  shows "find_window p (s @ t) = Some i"
proof -
  have f: "i + length p \<le> length s" "take (length p) (drop i s) = p"
      "\<forall>j < i. take (length p) (drop j s) \<noteq> p"
    using assms(2) find_window_Some [OF assms(1)] by auto
  have "take (length p) (drop j (s @ t)) = take (length p) (drop j s)" if "j \<le> i" for j
    using that f(1) by simp
  with f show ?thesis by (simp add: find_window_Some [OF assms(1)])
qed

lemma find_window_early:
  assumes "p \<noteq> []" "find_window p (s @ t) = Some i" "i + length p \<le> length s"
  shows "find_window p s \<noteq> None"
proof -
  have "take (length p) (drop i (s @ t)) = p" using assms(2) find_window_Some [OF assms(1)] by blast
  then have "take (length p) (drop i s) = p" using assms(3) by simp
  then show ?thesis using find_window_None [OF assms(1)] by blast
qed

text \<open>Searching only the part that a new segment can have completed.\<close>

lemma find_window_from:
  assumes "p \<noteq> []" "find_window p s = None" "k + length p \<le> Suc (length s)"
  shows "find_window p (drop k (s @ t)) = map_option (\<lambda>i. i - k) (find_window p (s @ t)) \<and>
    (\<forall>i. find_window p (s @ t) = Some i \<longrightarrow> k \<le> i)"
proof -
  have no: "take (length p) (drop j (s @ t)) \<noteq> p" if "j < k" for j
  proof -
    have "j + length p \<le> length s" using that assms(3) by simp
    then have "take (length p) (drop j (s @ t)) = take (length p) (drop j s)" by simp
    then show ?thesis using assms(2) find_window_None [OF assms(1)] by metis
  qed
  have ge: "k \<le> i" if "find_window p (s @ t) = Some i" for i
    using that no find_window_Some [OF assms(1)] by (meson not_le)
  have "find_window p (drop k (s @ t)) = map_option (\<lambda>i. i - k) (find_window p (s @ t))"
  proof (cases "find_window p (s @ t)")
    case None
    then have "\<forall>j. take (length p) (drop j (s @ t)) \<noteq> p" by (simp only: find_window_None [OF assms(1)]) simp
    then have "\<forall>j. take (length p) (drop j (drop k (s @ t))) \<noteq> p" by (simp only: drop_drop) simp
    then have "find_window p (drop k (s @ t)) = None" by (simp only: find_window_None [OF assms(1)]) simp
    then show ?thesis using None by (simp del: drop_append)
  next
    case (Some i)
    then have f: "i + length p \<le> length (s @ t)" "take (length p) (drop i (s @ t)) = p"
      "\<forall>j < i. take (length p) (drop j (s @ t)) \<noteq> p" "k \<le> i"
      using find_window_Some [OF assms(1)] ge by auto
    then have "find_window p (drop k (s @ t)) = Some (i - k)"
      by (subst find_window_Some [OF assms(1)]) (auto simp del: drop_append)
    then show ?thesis using Some by simp
  qed
  with ge show ?thesis by simp
qed

subsection \<open>Trimming\<close>

definition is_ascii_whitespace :: "byte \<Rightarrow> bool" where
  "is_ascii_whitespace b \<longleftrightarrow> b \<in> {9, 10, 12, 13, 32}"

definition byte_is_control :: "byte \<Rightarrow> bool" where
  "byte_is_control b \<longleftrightarrow> b < 32 \<or> b = 127"

definition is_ascii_alphabetic :: "byte \<Rightarrow> bool" where
  "is_ascii_alphabetic b \<longleftrightarrow> 65 \<le> b \<and> b \<le> 90 \<or> 97 \<le> b \<and> b \<le> 122"

definition is_ascii_alphanumeric :: "byte \<Rightarrow> bool" where
  "is_ascii_alphanumeric b \<longleftrightarrow> is_ascii_alphabetic b \<or> is_ascii_digit b"

definition is_ascii_hexdigit :: "byte \<Rightarrow> bool" where
  "is_ascii_hexdigit b \<longleftrightarrow> is_ascii_digit b \<or> 65 \<le> b \<and> b \<le> 70 \<or> 97 \<le> b \<and> b \<le> 102"

definition trim_both :: "('a \<Rightarrow> bool) \<Rightarrow> 'a list \<Rightarrow> 'a list" where
  "trim_both P s = rev (dropWhile P (rev (dropWhile P s)))"

definition trim_ascii :: "bytes \<Rightarrow> bytes" where
  "trim_ascii s = trim_both is_ascii_whitespace s"

text \<open>The characters of a string as slices, for \<open>str::trim\<close>.\<close>

function char_slices :: "bytes \<Rightarrow> bytes list" where
  "char_slices [] = []"
| "char_slices (b # bs) = (b # take (utf8_len b - 1) bs) # char_slices (drop (utf8_len b - 1) bs)"
  by pat_completeness auto
termination by (relation "measure length") auto

definition str_trim :: "bytes \<Rightarrow> bytes" where
  "str_trim s = concat (trim_both (\<lambda>c. list_ex is_whitespace (chars c)) (char_slices s))"

lemma trim_both_id:
  assumes "\<forall>x \<in> set s. \<not> P x"
  shows "trim_both P s = s"
proof -
  have "dropWhile P xs = xs" if "set xs = set s" for xs using assms that by (cases xs) auto
  then have "dropWhile P s = s" "dropWhile P (rev s) = rev s" by simp_all
  then show ?thesis by (simp add: trim_both_def)
qed

lemma char_slices_ascii: "list_all (\<lambda>b. b < 128) s \<Longrightarrow> char_slices s = map (\<lambda>b. [b]) s"
  by (induction s) (simp_all add: utf8_len_ascii)

lemma str_trim_plain:
  assumes "list_all (\<lambda>b. b < 128 \<and> \<not> is_whitespace (unat b)) s"
  shows "str_trim s = s"
proof -
  have asc: "list_all (\<lambda>b. b < 128) s" using assms by (auto simp: list_all_iff)
  have "\<not> list_ex is_whitespace (chars [b])" if "b \<in> set s" for b
    using assms that by (auto simp: list_all_iff utf8_len_ascii Let_def)
  then have "trim_both (\<lambda>c. list_ex is_whitespace (chars c)) (map (\<lambda>b. [b]) s) = map (\<lambda>b. [b]) s"
    by (intro trim_both_id) auto
  then show ?thesis by (simp add: str_trim_def char_slices_ascii [OF asc] comp_def)
qed

end
