(* ===== verification/IpAddr.thy ===== *)
theory IpAddr
  imports Strings
begin

text \<open>
  The textual form of IP addresses as the standard library reads and prints it
  (\<open>Ipv4Addr\<close> / \<open>Ipv6Addr\<close>, \<open>FromStr\<close> and \<open>Display\<close>), which the host and port parsing, the SOCKS5
  address encoding and the client filters of the sources rest on. An IPv4 address is its four
  octets, an IPv6 address its eight segments.
\<close>

datatype ip_addr = V4 "byte list" | V6 "u16 list"

subsection \<open>Reading\<close>

text \<open>A reader takes the input and returns the value with the rest of the input.\<close>

type_synonym 'a reader = "bytes \<Rightarrow> ('a \<times> bytes) option"

fun read_digits :: "nat \<Rightarrow> nat \<Rightarrow> nat \<Rightarrow> nat \<Rightarrow> bytes \<Rightarrow> (nat \<times> nat \<times> bytes) option" where
  "read_digits radix maxd cnt acc [] = Some (cnt, acc, [])"
| "read_digits radix maxd cnt acc (b # bs) =
     (case to_digit radix b of
        None \<Rightarrow> Some (cnt, acc, b # bs)
      | Some d \<Rightarrow> if maxd < cnt + 1 then None else read_digits radix maxd (cnt + 1) (acc * radix + d) bs)"

definition read_number :: "nat \<Rightarrow> nat \<Rightarrow> bool \<Rightarrow> nat \<Rightarrow> nat reader" where
  "read_number radix maxd allow_zero_prefix lim s =
     (case read_digits radix maxd 0 0 s of
        None \<Rightarrow> None
      | Some (cnt, v, rest) \<Rightarrow>
          if cnt = 0 then None
          else if \<not> allow_zero_prefix \<and> take 1 s = [48] \<and> 1 < cnt then None
          else if v \<le> lim then Some (v, rest) else None)"

definition read_given_char :: "byte \<Rightarrow> unit reader" where
  "read_given_char c s = (case s of b # bs \<Rightarrow> if b = c then Some ((), bs) else None | [] \<Rightarrow> None)"

definition read_separator :: "byte \<Rightarrow> nat \<Rightarrow> 'a reader \<Rightarrow> 'a reader" where
  "read_separator sep i inner s =
     (if 0 < i then Option.bind (read_given_char sep s) (\<lambda>(_, s'). inner s') else inner s)"

fun read_octets :: "nat \<Rightarrow> nat \<Rightarrow> byte list reader" where
  "read_octets i 0 s = Some ([], s)"
| "read_octets i (Suc k) s =
     Option.bind (read_separator DOT i (read_number 10 3 False 255) s)
       (\<lambda>(v, s1). Option.bind (read_octets (Suc i) k s1) (\<lambda>(vs, s2). Some (of_nat v # vs, s2)))"

definition read_ipv4_addr :: "byte list reader" where
  "read_ipv4_addr s = read_octets 0 4 s"

definition be16 :: "byte \<Rightarrow> byte \<Rightarrow> u16" where
  "be16 h l = of_nat (unat h * 256 + unat l)"

fun read_groups :: "nat \<Rightarrow> nat \<Rightarrow> bytes \<Rightarrow> u16 list \<times> bool \<times> bytes" where
  "read_groups i 0 s = ([], False, s)"
| "read_groups i (Suc k) s =
     (case (if 0 < k then read_separator COLON i read_ipv4_addr s else None) of
        Some (o4, s1) \<Rightarrow> ([be16 (o4 ! 0) (o4 ! 1), be16 (o4 ! 2) (o4 ! 3)], True, s1)
      | None \<Rightarrow>
          (case read_separator COLON i (read_number 16 4 True 65535) s of
             Some (g, s1) \<Rightarrow> (case read_groups (Suc i) k s1 of (gs, v4, s2) \<Rightarrow> (of_nat g # gs, v4, s2))
           | None \<Rightarrow> ([], False, s)))"

definition read_ipv6_addr :: "u16 list reader" where
  "read_ipv6_addr s =
     (case read_groups 0 8 s of
        (hd_groups, head_ipv4, s1) \<Rightarrow>
          if length hd_groups = 8 then Some (hd_groups, s1)
          else if head_ipv4 then None
          else Option.bind (read_given_char COLON s1) (\<lambda>(_, s2).
               Option.bind (read_given_char COLON s2) (\<lambda>(_, s3).
                 case read_groups 0 (8 - (length hd_groups + 1)) s3 of
                   (tl_groups, _, s4) \<Rightarrow>
                     Some (hd_groups @ replicate (8 - length hd_groups - length tl_groups) 0 @ tl_groups, s4))))"

definition parse_ipv4 :: "bytes \<Rightarrow> byte list option" where
  "parse_ipv4 s =
     (if 15 < length s then None
      else case read_ipv4_addr s of Some (a, []) \<Rightarrow> Some a | _ \<Rightarrow> None)"

definition parse_ipv6 :: "bytes \<Rightarrow> u16 list option" where
  "parse_ipv6 s = (case read_ipv6_addr s of Some (a, []) \<Rightarrow> Some a | _ \<Rightarrow> None)"

definition parse_ip :: "bytes \<Rightarrow> ip_addr option" where
  "parse_ip s =
     (case (case read_ipv4_addr s of Some (a, r) \<Rightarrow> Some (V4 a, r)
            | None \<Rightarrow> map_option (\<lambda>(a, r). (V6 a, r)) (read_ipv6_addr s)) of
        Some (a, []) \<Rightarrow> Some a | _ \<Rightarrow> None)"

subsection \<open>Printing\<close>

fun join_with :: "bytes \<Rightarrow> bytes list \<Rightarrow> bytes" where
  "join_with sep [] = []"
| "join_with sep [x] = x"
| "join_with sep (x # y # xs) = x @ sep @ join_with sep (y # xs)"

definition fmt_ipv4 :: "byte list \<Rightarrow> bytes" where
  "fmt_ipv4 a = join_with [DOT] (map (\<lambda>b. radix_str 10 (unat b)) a)"

definition fmt_groups :: "u16 list \<Rightarrow> bytes" where
  "fmt_groups gs = join_with [COLON] (map (\<lambda>g. radix_str 16 (unat g)) gs)"

text \<open>The longest run of zero segments, the first one of that length: (start, length).\<close>

fun zero_span :: "nat \<Rightarrow> nat \<times> nat \<Rightarrow> nat \<times> nat \<Rightarrow> u16 list \<Rightarrow> nat \<times> nat" where
  "zero_span i longest current [] = longest"
| "zero_span i longest current (g # gs) =
     (if g = 0
      then let current = ((if snd current = 0 then i else fst current), snd current + 1);
               longest = (if snd longest < snd current then current else longest)
           in zero_span (Suc i) longest current gs
      else zero_span (Suc i) longest (0, 0) gs)"

definition ipv4_mapped :: "u16 list \<Rightarrow> byte list option" where
  "ipv4_mapped a =
     (if take 6 a = [0, 0, 0, 0, 0, 0xFFFF]
      then Some [of_nat (unat (a ! 6) div 256), of_nat (unat (a ! 6) mod 256),
                 of_nat (unat (a ! 7) div 256), of_nat (unat (a ! 7) mod 256)]
      else None)"

definition fmt_ipv6 :: "u16 list \<Rightarrow> bytes" where
  "fmt_ipv6 a =
     (case ipv4_mapped a of
        Some v4 \<Rightarrow> ascii ''::ffff:'' @ fmt_ipv4 v4
      | None \<Rightarrow>
          let (start, len) = zero_span 0 (0, 0) (0, 0) a
          in if 1 < len then fmt_groups (take start a) @ [COLON, COLON] @ fmt_groups (drop (start + len) a)
             else fmt_groups a)"

subsection \<open>Readers consume a prefix of address characters\<close>

definition addr_char :: "byte \<Rightarrow> bool" where
  "addr_char b \<longleftrightarrow> to_digit 16 b \<noteq> None \<or> b = COLON \<or> b = DOT"

definition reads :: "'a reader \<Rightarrow> bool" where
  "reads f \<longleftrightarrow> (\<forall>s v r. f s = Some (v, r) \<longrightarrow> (\<exists>p. s = p @ r \<and> list_all addr_char p))"

lemma readsD: "reads f \<Longrightarrow> f s = Some (v, r) \<Longrightarrow> \<exists>p. s = p @ r \<and> list_all addr_char p"
  by (auto simp: reads_def)

lemma to_digit_mono: "to_digit r b = Some d \<Longrightarrow> r \<le> r' \<Longrightarrow> to_digit r' b = Some d"
  by (auto simp: to_digit_def Let_def split: if_splits)

lemma read_digits_prefix:
  "read_digits r m c a s = Some (c', v, t) \<Longrightarrow> r \<le> 16 \<Longrightarrow>
     \<exists>p. s = p @ t \<and> list_all addr_char p \<and> (\<forall>b \<in> set p. to_digit r b \<noteq> None) \<and> (t \<noteq> [] \<longrightarrow> to_digit r (hd t) = None)"
proof (induction r m c a s rule: read_digits.induct)
  case (2 r m c a b bs)
  show ?case
  proof (cases "to_digit r b")
    case None
    with 2 show ?thesis by auto
  next
    case (Some d)
    with 2 obtain p where p: "bs = p @ t" "list_all addr_char p" "\<forall>b \<in> set p. to_digit r b \<noteq> None"
        "t \<noteq> [] \<longrightarrow> to_digit r (hd t) = None"
      by (auto split: if_splits)
    moreover have "addr_char b" using to_digit_mono [OF Some 2(3)] by (simp add: addr_char_def)
    ultimately show ?thesis using Some by (intro exI [of _ "b # p"]) auto
  qed
qed simp

lemma reads_number: "r \<le> 16 \<Longrightarrow> reads (read_number r m z lim)"
  unfolding reads_def read_number_def
  by (fastforce dest: read_digits_prefix split: option.splits prod.splits if_splits)

lemma reads_char: "addr_char c \<Longrightarrow> reads (read_given_char c)"
  unfolding reads_def read_given_char_def by (auto split: list.splits if_splits)

lemma reads_bind:
  assumes "reads f" "\<And>v. reads (g v)"
  shows "reads (\<lambda>s. Option.bind (f s) (\<lambda>(v, s1). g v s1))"
proof -
  have "\<exists>p. s = p @ r \<and> list_all addr_char p" if "f s = Some (v, s1)" "g v s1 = Some (w, r)" for s v s1 w r
    using readsD [OF assms(1) that(1)] readsD [OF assms(2) that(2)]
    by (metis append.assoc list_all_append)
  then show ?thesis by (auto simp: reads_def bind_eq_Some_conv)
qed

lemma reads_map: "reads f \<Longrightarrow> reads (\<lambda>s. Option.bind (f s) (\<lambda>(v, s1). Some (g v, s1)))"
  by (auto simp: reads_def bind_eq_Some_conv)

lemma reads_separator: "reads f \<Longrightarrow> addr_char c \<Longrightarrow> reads (read_separator c i f)"
  using reads_bind [OF reads_char, of c "\<lambda>_. f"] unfolding read_separator_def by (cases "0 < i") auto

lemma addr_char_sep [simp]: "addr_char COLON" "addr_char DOT"
  by (simp_all add: addr_char_def)

lemma reads_octets: "reads (read_octets i k)"
proof (induction k arbitrary: i)
  case (Suc k)
  have "reads (\<lambda>s. Option.bind (read_separator DOT i (read_number 10 3 False 255) s)
       (\<lambda>(v, s1). Option.bind (read_octets (Suc i) k s1) (\<lambda>(vs, s2). Some (of_nat v # vs, s2))))"
    by (intro reads_bind reads_separator reads_number reads_map Suc) simp_all
  then show ?case by (simp add: reads_def)
qed (simp add: reads_def)

lemma reads_ipv4: "reads read_ipv4_addr"
  using reads_octets [of 0 4] by (simp add: reads_def read_ipv4_addr_def)

lemma read_groups_prefix: "read_groups i k s = (gs, v4, t) \<Longrightarrow> \<exists>p. s = p @ t \<and> list_all addr_char p"
proof (induction i k s arbitrary: gs rule: read_groups.induct)
  case (2 i k s)
  have r: "reads (read_separator COLON i read_ipv4_addr)"
      "reads (read_separator COLON i (read_number 16 4 True 65535))"
    by (simp_all add: reads_separator reads_ipv4 reads_number)
  show ?case
  proof (cases "if 0 < k then read_separator COLON i read_ipv4_addr s else None")
    case (Some p)
    with 2 r(1) show ?thesis by (cases p) (auto split: if_splits dest: readsD)
  next
    case None
    show ?thesis
    proof (cases "read_separator COLON i (read_number 16 4 True 65535) s")
      case None': None
      with None 2(2) show ?thesis by auto
    next
      case Some': (Some p)
      obtain g s1 where p: "p = (g, s1)" by (cases p)
      obtain gs' where gs': "read_groups (Suc i) k s1 = (gs', v4, t)"
        using 2(2) None Some' p by (auto split: prod.splits)
      then obtain q where "s1 = q @ t" "list_all addr_char q" using 2(1) [OF None Some' p [symmetric]] p by auto
      then show ?thesis using readsD [OF r(2)] Some' p by (metis append.assoc list_all_append)
    qed
  qed
qed auto

lemma read_given_char_Some [simp]: "read_given_char c s = Some (u, r) \<longleftrightarrow> s = c # r"
  by (cases s) (auto simp: read_given_char_def)

lemma read_ipv6_prefix: "read_ipv6_addr s = Some (a, t) \<Longrightarrow> \<exists>p. s = p @ t \<and> list_all addr_char p"
proof -
  assume a: "read_ipv6_addr s = Some (a, t)"
  obtain hg v4 s1 where h: "read_groups 0 8 s = (hg, v4, s1)" by (cases "read_groups 0 8 s")
  then obtain p where p: "s = p @ s1" "list_all addr_char p" using read_groups_prefix by blast
  show ?thesis
  proof (cases "length hg = 8")
    case True
    with a h p show ?thesis by (auto simp: read_ipv6_addr_def)
  next
    case False
    obtain tg w s4 where "read_groups 0 (8 - (length hg + 1)) (drop 2 s1) = (tg, w, s4)"
      by (cases "read_groups 0 (8 - (length hg + 1)) (drop 2 s1)")
    moreover from this obtain q where "drop 2 s1 = q @ s4" "list_all addr_char q"
      using read_groups_prefix by blast
    ultimately show ?thesis using a h p False
      by (intro exI [of _ "p @ [COLON, COLON] @ q"])
        (auto simp: read_ipv6_addr_def bind_eq_Some_conv split: if_splits)
  qed
qed

lemma parse_ipv6_addr_chars: "parse_ipv6 s = Some a \<Longrightarrow> list_all addr_char s"
  using read_ipv6_prefix [of s] by (force simp: parse_ipv6_def split: option.splits list.splits)

lemma not_addr_char: "\<not> addr_char RBRACKET" "\<not> addr_char LBRACKET" "\<not> addr_char AT" "\<not> addr_char SPACE" "\<not> addr_char STAR"
  by (simp_all add: addr_char_def to_digit_def Let_def)

lemma parse_ipv6_no_bracket: "parse_ipv6 s \<noteq> None \<Longrightarrow> RBRACKET \<notin> set s \<and> LBRACKET \<notin> set s \<and> AT \<notin> set s"
  using parse_ipv6_addr_chars [of s] not_addr_char by (auto simp: list_all_iff)

subsection \<open>Numbers round trip\<close>

lemma radix_str_step: "\<not> n < r \<Longrightarrow> 1 < r \<Longrightarrow> radix_str r n = radix_str r (n div r) @ [digit_char (n mod r)]"
  by (subst radix_str.simps) simp

lemma radix_str_digit: "n < r \<Longrightarrow> radix_str r n = [digit_char n]"
  by (subst radix_str.simps) simp

lemma read_digits_radix:
  assumes "1 < r" "r \<le> 16" "c + length (radix_str r n) \<le> m"
  shows "read_digits r m c 0 (radix_str r n @ t) = read_digits r m (c + length (radix_str r n)) n t"
  using assms(3)
proof (induction n arbitrary: t rule: less_induct)
  case (less n)
  show ?case
  proof (cases "n < r")
    case True
    with less.prems assms show ?thesis by (simp add: radix_str_digit digit_char_facts)
  next
    case False
    have "n mod r < r" using assms(1) by simp
    then have "to_digit r (digit_char (n mod r)) = Some (n mod r)"
      using assms(2) by (intro to_digit_digit_char) auto
    moreover have "n div r < n" using False assms by (auto intro: div_less_dividend)
    ultimately show ?thesis using less False assms by (simp add: radix_str_step)
  qed
qed

lemma length_radix_str:
  assumes "1 < r" "0 < k" "n < r ^ k"
  shows "length (radix_str r n) \<le> k"
  using assms(2,3)
proof (induction k arbitrary: n)
  case (Suc k)
  show ?case
  proof (cases "n < r")
    case False
    then have "0 < k" using Suc.prems by (cases k) auto
    moreover have "n div r < r ^ k" using Suc.prems assms(1) by (simp add: less_mult_imp_div_less mult.commute)
    ultimately show ?thesis using Suc False assms(1) by (simp add: radix_str_step)
  qed (simp add: radix_str_digit)
qed simp

lemma radix_str_no_leading_zero:
  assumes "1 < r" "r \<le> 16" "0 < n"
  shows "take 1 (radix_str r n @ t) \<noteq> [48]"
  using assms(3)
proof (induction n arbitrary: t rule: less_induct)
  case (less n)
  show ?case
  proof (cases "n < r")
    case True
    with less.prems assms unat_digit_char [of n] show ?thesis by (auto simp: radix_str_digit split: if_splits)
  next
    case False
    have "n div r < n" "0 < n div r" using False assms by (auto intro: div_less_dividend simp: div_greater_zero_iff)
    with less.IH [of "n div r" "[digit_char (n mod r)] @ t"] False assms show ?thesis
      by (simp add: radix_str_step)
  qed
qed

definition no_digit :: "nat \<Rightarrow> bytes \<Rightarrow> bool" where
  "no_digit r t \<longleftrightarrow> (case t of [] \<Rightarrow> True | b # _ \<Rightarrow> to_digit r b = None)"

lemma read_number_radix:
  assumes "1 < r" "r \<le> 16" "0 < m" "n < r ^ m" "n \<le> lim" "no_digit r t"
  shows "read_number r m z lim (radix_str r n @ t) = Some (n, t)"
proof -
  have len: "length (radix_str r n) \<le> m" by (rule length_radix_str) (use assms in auto)
  have stop: "read_digits r m c a t = Some (c, a, t)" for c a
    using assms(6) by (cases t) (auto simp: no_digit_def)
  have zero: "\<not> (take 1 (radix_str r n @ t) = [48] \<and> 1 < length (radix_str r n))"
    using radix_str_no_leading_zero [OF assms(1,2), of n t] assms(1) radix_str_digit [of n r] by (cases "n = 0") auto
  have "length (radix_str r n) \<noteq> 0" by simp
  then show ?thesis
    using zero len stop assms read_digits_radix [OF assms(1,2), of 0 n m t] by (auto simp: read_number_def)
qed

subsection \<open>IPv4 addresses round trip\<close>

lemma to_digit_separators [simp]:
  "to_digit r DOT = None" "to_digit r COLON = None"
  by (simp_all add: to_digit_def Let_def)

lemma join_with_Cons: "join_with sep (x # xs) = x @ concat (map (\<lambda>y. sep @ y) xs)"
  by (induction xs arbitrary: x) simp_all

lemma read_octet:
  assumes "no_digit 10 t"
  shows "read_number 10 3 False 255 (radix_str 10 (unat (b::byte)) @ t) = Some (unat b, t)"
  using unsigned_less [of b, where ?'a = nat] assms by (intro read_number_radix) simp_all

lemma read_octets_tail:
  assumes "no_digit 10 t" "0 < i"
  shows "read_octets i (length a) (concat (map (\<lambda>b. DOT # radix_str 10 (unat b)) a) @ t) = Some (a, t)"
  using assms(2)
proof (induction a arbitrary: i)
  case (Cons b a)
  have "no_digit 10 (concat (map (\<lambda>b. DOT # radix_str 10 (unat b)) a) @ t)"
    using assms(1) by (cases a) (simp_all add: no_digit_def)
  with Cons show ?case by (simp add: read_separator_def read_given_char_def read_octet)
qed simp

lemma read_ipv4_fmt:
  assumes "length a = 4" "no_digit 10 t"
  shows "read_ipv4_addr (fmt_ipv4 a @ t) = Some (a, t)"
proof -
  obtain b c where a: "a = b # c" "length c = 3" using assms(1) by (cases a) auto
  have "no_digit 10 (concat (map (\<lambda>b. DOT # radix_str 10 (unat b)) c) @ t)"
    using a(2) by (cases c) (simp_all add: no_digit_def)
  then have "read_octets 0 (Suc (length c)) (fmt_ipv4 a @ t) = Some (a, t)"
    using read_octets_tail [OF assms(2), of 1 c]
    by (simp add: a(1) fmt_ipv4_def join_with_Cons comp_def read_separator_def read_octet)
  then show ?thesis using a by (simp add: read_ipv4_addr_def)
qed

lemma parse_ipv4_fmt:
  assumes "length a = 4"
  shows "parse_ipv4 (fmt_ipv4 a) = Some a"
proof -
  have l: "length (radix_str 10 (unat (b::byte))) \<le> 3" for b
    using unsigned_less [of b, where ?'a = nat] by (intro length_radix_str) simp_all
  obtain b0 b1 b2 b3 where a: "a = [b0, b1, b2, b3]" using assms by (auto simp: numeral_eq_Suc length_Suc_conv)
  have "length (fmt_ipv4 a) \<le> 15"
    using l [of b0] l [of b1] l [of b2] l [of b3] by (simp add: a fmt_ipv4_def)
  then show ?thesis using read_ipv4_fmt [OF assms, of "[]"] by (simp add: parse_ipv4_def no_digit_def)
qed

subsection \<open>IPv6 addresses round trip\<close>

lemma zero_span_inv:
  assumes "i + length gs = length a" "drop i a = gs"
    and "snd cur = 0 \<or> fst cur + snd cur = i" "\<forall>j. fst cur \<le> j \<and> j < fst cur + snd cur \<longrightarrow> a ! j = 0"
    and "fst lng + snd lng \<le> length a" "\<forall>j. fst lng \<le> j \<and> j < fst lng + snd lng \<longrightarrow> a ! j = 0"
    and "zero_span i lng cur gs = (s, l)"
  shows "s + l \<le> length a \<and> (\<forall>j. s \<le> j \<and> j < s + l \<longrightarrow> a ! j = 0)"
  using assms
proof (induction gs arbitrary: i lng cur)
  case (Cons g gs)
  have i: "i < length a" using Cons.prems(1) by simp
  have g: "a ! i = g" "drop (Suc i) a = gs"
    using Cons.prems(2) Cons_nth_drop_Suc [OF i] by simp_all
  note g = g i
  show ?case
  proof (cases "g = 0")
    case True
    let ?cur = "((if snd cur = 0 then i else fst cur), snd cur + 1)"
    have z: "\<forall>j. fst ?cur \<le> j \<and> j < fst ?cur + snd ?cur \<longrightarrow> a ! j = 0" "fst ?cur + snd ?cur = Suc i"
      using Cons.prems(3,4) g True by (auto simp: less_Suc_eq)
    let ?lng = "if snd lng < snd ?cur then ?cur else lng"
    have l: "fst ?lng + snd ?lng \<le> length a" using Cons.prems(5) z(2) g(3) by (auto split: if_split)
    show ?thesis
    proof (rule Cons.IH [of "Suc i" ?cur ?lng])
      show "\<forall>j. fst ?lng \<le> j \<and> j < fst ?lng + snd ?lng \<longrightarrow> a ! j = 0"
        using Cons.prems(6) z(1) by (cases "snd lng < snd ?cur") simp_all
      show "zero_span (Suc i) ?lng ?cur gs = (s, l)" 
        using Cons.prems(7) by (simp only: True zero_span.simps Let_def simp_thms if_True)
    qed (use Cons.prems(1) g(2) z l in auto)
  next
    case False
    with Cons.IH [of "Suc i" "(0, 0)" lng] Cons.prems g show ?thesis by auto
  qed
qed auto

lemma zero_span_split:
  assumes "zero_span 0 (0, 0) (0, 0) a = (s, l)"
  shows "s + l \<le> length a" "a = take s a @ replicate l 0 @ drop (s + l) a"
proof -
  have z: "s + l \<le> length a \<and> (\<forall>j. s \<le> j \<and> j < s + l \<longrightarrow> a ! j = 0)"
    using zero_span_inv [of 0 a a "(0, 0)" "(0, 0)" s l] assms by simp
  then show "s + l \<le> length a" by simp
  have "take l (drop s a) = replicate l 0"
    using z by (intro nth_equalityI) auto
  then show "a = take s a @ replicate l 0 @ drop (s + l) a"
    by (metis append_take_drop_id drop_drop add.commute)
qed

text \<open>After a printed group no dot follows, so no embedded IPv4 address is read there.\<close>

definition ends_group :: "bytes \<Rightarrow> bool" where
  "ends_group t \<longleftrightarrow> t = [] \<or> take 1 t = [COLON]"

lemma ends_group_simps [simp]: "ends_group []" "ends_group (COLON # t)"
  by (simp_all add: ends_group_def)

lemma read_ipv4_on_group:
  assumes "ends_group t" "DOT \<notin> set h"
  shows "read_ipv4_addr (h @ t) = None"
proof (cases "read_number 10 3 False 255 (h @ t)")
  case None
  then show ?thesis by (simp add: read_ipv4_addr_def eval_nat_numeral read_separator_def)
next
  case (Some vr)
  obtain v r where vr: "vr = (v, r)" by (cases vr)
  obtain p where p: "h @ t = p @ r" "\<forall>b \<in> set p. to_digit 10 b \<noteq> None"
    using Some vr by (auto simp: read_number_def dest!: read_digits_prefix split: option.splits prod.splits if_splits)
  have "take 1 r \<noteq> [DOT]"
  proof
    assume d: "take 1 r = [DOT]"
    then have dr: "DOT \<in> set r" by (cases r) auto
    consider us where "h = p @ us" "us @ t = r" | us where "p = h @ us" "us @ r = t"
      using p(1) by (auto simp: append_eq_append_conv2)
    then show False
    proof cases
      case 1
      then show ?thesis using assms d by (cases us) (auto simp: ends_group_def)
    next
      case 2
      have "us = []"
        using 2 assms(1) p(2) by (cases us) (auto simp: ends_group_def)
      with 2 d assms(1) show ?thesis by (auto simp: ends_group_def)
    qed
  qed
  then have "read_given_char DOT r = None" by (cases r) (auto simp: read_given_char_def)
  then show ?thesis
    using Some vr by (simp add: read_ipv4_addr_def eval_nat_numeral read_separator_def)
qed

lemma read_number_empty: "ends_group t \<Longrightarrow> read_number 16 4 True 65535 t = None"
  by (cases t) (auto simp: read_number_def ends_group_def)

lemma ends_group_no_digit: "ends_group t \<Longrightarrow> no_digit r t"
  by (cases t) (auto simp: ends_group_def no_digit_def)

lemma read_group:
  assumes "ends_group t"
  shows "read_number 16 4 True 65535 (radix_str 16 (unat (g::u16)) @ t) = Some (unat g, t)"
  using unsigned_less [of g, where ?'a = nat] ends_group_no_digit [OF assms]
  by (intro read_number_radix) simp_all

text \<open>What follows the groups ends the list: the end of the input, or a double colon.\<close>

definition stops :: "bytes \<Rightarrow> bool" where
  "stops t \<longleftrightarrow> t = [] \<or> (\<exists>u. t = COLON # COLON # u)"

lemma stops_ends: "stops t \<Longrightarrow> ends_group t"
  by (auto simp: stops_def)

lemma read_groups_stop:
  assumes "stops t" "0 < i"
  shows "read_groups i k t = ([], False, t)"
proof (cases k)
  case (Suc j)
  have none: "read_number 16 4 True 65535 (COLON # u) = None" "read_ipv4_addr (COLON # u) = None" for u
    using read_number_empty [of "COLON # u"] read_ipv4_on_group [of "COLON # u" "[]"] by simp_all
  show ?thesis using assms Suc none
    by (auto simp: stops_def read_separator_def read_given_char_def)
qed simp

lemma read_groups_tail:
  assumes "stops t" "0 < i" "length gs \<le> k"
  shows "read_groups i k (concat (map (\<lambda>g. COLON # radix_str 16 (unat g)) gs) @ t) = (gs, False, t)"
  using assms(2,3)
proof (induction gs arbitrary: i k)
  case Nil
  then show ?case using read_groups_stop [OF assms(1)] by simp
next
  case (Cons g gs)
  obtain j where k: "k = Suc j" using Cons.prems by (cases k) auto
  let ?t = "concat (map (\<lambda>g. COLON # radix_str 16 (unat g)) gs) @ t"
  have e: "ends_group ?t" using assms(1) by (cases gs) (auto simp: stops_ends)
  have dot: "DOT \<notin> set (radix_str 16 (unat g))" by (rule radix_str_special) simp_all
  show ?case
    using Cons e read_ipv4_on_group [OF e dot] read_group [OF e, of g]
    by (auto simp: k read_separator_def read_given_char_def)
qed

lemma read_groups_fmt:
  assumes "stops t" "length gs \<le> k"
  shows "read_groups 0 k (fmt_groups gs @ t) = (gs, False, t)"
proof (cases gs)
  case Nil
  have "read_number 16 4 True 65535 t = None" "read_ipv4_addr t = None"
    using read_number_empty read_ipv4_on_group [of t "[]"] stops_ends [OF assms(1)] by simp_all
  then show ?thesis using Nil by (cases k) (simp_all add: fmt_groups_def read_separator_def)
next
  case (Cons g gs')
  obtain j where k: "k = Suc j" using assms Cons by (cases k) auto
  let ?t = "concat (map (\<lambda>g. COLON # radix_str 16 (unat g)) gs') @ t"
  have e: "ends_group ?t" using assms(1) by (cases gs') (auto simp: stops_ends)
  have dot: "DOT \<notin> set (radix_str 16 (unat g))" by (rule radix_str_special) simp_all
  have "length gs' \<le> j" using assms(2) Cons k by simp
  then show ?thesis
    using read_groups_tail [OF assms(1), of 1 gs' j] read_ipv4_on_group [OF e dot] read_group [OF e, of g]
    by (auto simp: k Cons fmt_groups_def join_with_Cons comp_def read_separator_def)
qed

lemma be16_split: "be16 (of_nat (unat g div 256)) (of_nat (unat g mod 256)) = g"
proof -
  have "unat g < 65536" using unsigned_less [of g, where ?'a = nat] by simp
  then have "unat (of_nat (unat g div 256) :: byte) = unat g div 256" by (simp add: unat_of_nat)
  then show ?thesis by (simp add: be16_def unat_of_nat)
qed

lemma read_group_then_ipv4:
  assumes "length v = 4" "0 < k"
  shows "read_groups 0 (Suc (Suc k)) (radix_str 16 (unat g) @ COLON # fmt_ipv4 v) =
    ([g, be16 (v ! 0) (v ! 1), be16 (v ! 2) (v ! 3)], True, [])"
proof -
  let ?t = "COLON # fmt_ipv4 v"
  have "read_number 16 4 True 65535 (radix_str 16 (unat g) @ ?t) = Some (unat g, ?t)"
    by (rule read_group) simp
  moreover have "read_ipv4_addr (radix_str 16 (unat g) @ ?t) = None"
    by (rule read_ipv4_on_group, simp, rule radix_str_special) simp_all
  moreover have "read_ipv4_addr (fmt_ipv4 v) = Some (v, [])"
    using read_ipv4_fmt [OF assms(1), of "[]"] by (simp add: no_digit_def)
  ultimately show ?thesis
    using assms(2) by (simp add: read_separator_def read_given_char_def)
qed

lemma radix_str_ffff: "radix_str 16 (unat (0xFFFF :: u16)) = ascii ''ffff''"
  by (simp add: radix_str_step radix_str_digit digit_char_def)

lemma read_mapped:
  assumes "length v = 4"
  shows "read_groups 0 7 (ascii ''ffff'' @ COLON # fmt_ipv4 v) =
    ([0xFFFF, be16 (v ! 0) (v ! 1), be16 (v ! 2) (v ! 3)], True, [])"
proof -
  have "(7 :: nat) = Suc (Suc 5)" by simp
  then show ?thesis using read_group_then_ipv4 [OF assms, of 5 "0xFFFF"] by (simp only: radix_str_ffff)
qed

lemma parse_ipv6_mapped:
  assumes "length a = 8" "ipv4_mapped a = Some v"
  shows "parse_ipv6 (ascii ''::ffff:'' @ fmt_ipv4 v) = Some a"
proof -
  have v: "length v = 4" "a = [0, 0, 0, 0, 0, 0xFFFF, be16 (v ! 0) (v ! 1), be16 (v ! 2) (v ! 3)]"
  proof -
    obtain a0 a1 a2 a3 a4 a5 a6 a7 where "a = [a0, a1, a2, a3, a4, a5, a6, a7]"
      using assms(1) by (auto simp: numeral_eq_Suc length_Suc_conv)
    with assms(2) show "length v = 4" "a = [0, 0, 0, 0, 0, 0xFFFF, be16 (v ! 0) (v ! 1), be16 (v ! 2) (v ! 3)]"
      by (auto simp: ipv4_mapped_def be16_split split: if_splits)
  qed
  let ?s = "ascii ''ffff'' @ COLON # fmt_ipv4 v"
  have "read_groups 0 8 (COLON # COLON # ?s) = ([], False, COLON # COLON # ?s)"
    using read_groups_fmt [of "COLON # COLON # ?s" "[]" 8] by (simp add: stops_def fmt_groups_def)
  moreover have "replicate 5 (0 :: u16) = [0, 0, 0, 0, 0]" by (simp add: numeral_eq_Suc)
  ultimately have "parse_ipv6 (COLON # COLON # ?s) = Some a"
    using read_mapped [OF v(1)] v(2)
    by (simp add: parse_ipv6_def read_ipv6_addr_def read_given_char_def del: ascii_simps)
  moreover have "ascii ''::ffff:'' @ fmt_ipv4 v = COLON # COLON # ?s" by simp
  ultimately show ?thesis by simp
qed

lemma parse_ipv6_fmt:
  assumes "length a = 8"
  shows "parse_ipv6 (fmt_ipv6 a) = Some a"
proof (cases "ipv4_mapped a")
  case (Some v)
  then show ?thesis using parse_ipv6_mapped [OF assms Some] by (simp add: fmt_ipv6_def)
next
  case None
  obtain s l where z: "zero_span 0 (0, 0) (0, 0) a = (s, l)" by (cases "zero_span 0 (0, 0) (0, 0) a")
  note split = zero_span_split [OF z]
  show ?thesis
  proof (cases "1 < l")
    case True
    let ?h = "take s a" and ?t = "drop (s + l) a"
    have "stops (COLON # COLON # fmt_groups ?t)" by (simp add: stops_def)
    then have h: "read_groups 0 8 (fmt_groups ?h @ COLON # COLON # fmt_groups ?t) =
        (?h, False, COLON # COLON # fmt_groups ?t)"
      using assms by (intro read_groups_fmt) simp_all
    have t: "read_groups 0 (8 - (length ?h + 1)) (fmt_groups ?t) = (?t, False, [])"
      using read_groups_fmt [of "[]" ?t "8 - (length ?h + 1)"] assms True split(1) by (simp add: stops_def)
    have "8 - length ?h - length ?t = l" "length ?h < 8" using assms True split(1) by auto
    then show ?thesis
      using None z True h t split(2) assms by (simp add: fmt_ipv6_def parse_ipv6_def read_ipv6_addr_def read_given_char_def)
  next
    case False
    have "read_groups 0 8 (fmt_groups a) = (a, False, [])"
      using read_groups_fmt [of "[]" a 8] assms by (simp add: stops_def)
    then show ?thesis using None z False assms by (simp add: fmt_ipv6_def parse_ipv6_def read_ipv6_addr_def)
  qed
qed

subsection \<open>Sizes of parsed addresses\<close>

lemma read_octets_length: "read_octets i k s = Some (xs, r) \<Longrightarrow> length xs = k"
  by (induction i k s arbitrary: xs r rule: read_octets.induct) (auto simp: bind_eq_Some_conv)

lemma parse_ipv4_length: "parse_ipv4 s = Some ip \<Longrightarrow> length ip = 4"
  using read_octets_length [of 0 4 s]
  by (auto simp: parse_ipv4_def read_ipv4_addr_def split: if_splits option.splits list.splits)

lemma read_groups_length: "read_groups i k s = (gs, v4, r) \<Longrightarrow> length gs \<le> k"
proof (induction i k s arbitrary: gs v4 r rule: read_groups.induct)
  case (2 i k s)
  then show ?case by (cases k) (fastforce split: option.splits prod.splits if_splits)+
qed simp

lemma parse_ipv6_length: "parse_ipv6 s = Some gs \<Longrightarrow> length gs = 8"
proof -
  assume "parse_ipv6 s = Some gs"
  then obtain r where r: "read_ipv6_addr s = Some (gs, r)" by (auto simp: parse_ipv6_def split: option.splits list.splits)
  obtain h v s1 where h: "read_groups 0 8 s = (h, v, s1)" by (cases "read_groups 0 8 s")
  have l: "length h \<le> 8" using read_groups_length [OF h] .
  show ?thesis
  proof (cases "length h = 8")
    case True
    then show ?thesis using r h by (simp add: read_ipv6_addr_def)
  next
    case False
    then obtain x t v' y where t: "read_groups 0 (8 - (length h + 1)) x = (t, v', y)"
      and gs: "gs = h @ replicate (8 - length h - length t) 0 @ t"
      using r h by (auto simp: read_ipv6_addr_def bind_eq_Some_conv case_prod_beta split: if_splits)
        (metis surjective_pairing)
    have "length t \<le> 8 - (length h + 1)" using read_groups_length [OF t] .
    then show ?thesis using gs l False by simp
  qed
qed

end
