(* ===== verification/TlsRecords.thy ===== *)
theory TlsRecords
  imports Utf8 IpAddr
begin

text \<open>
  The TLS record layer, \<open>connect/tls/tls_records.rs\<close>: walking the records of a byte stream and
  reassembling its first handshake message. Positions are \<open>nat\<close>; they stay below the length of the data,
  so the checked additions of the source never fail.
\<close>

definition HANDSHAKE :: byte where
  "HANDSHAKE = 0x16"

definition be_u24 :: "bytes \<Rightarrow> nat" where
  "be_u24 b = unat (b ! 0) * 65536 + unat (b ! 1) * 256 + unat (b ! 2)"

record tls_record =
  content_type :: byte
  payload_start :: nat
  payload_end :: nat

function walk_from :: "bytes \<Rightarrow> nat \<Rightarrow> tls_record list" where
  "walk_from data pos =
     (case get_range data pos (pos + 5) of
        None \<Rightarrow> []
      | Some header \<Rightarrow>
          (let payload_end = min (pos + 5 + unat (be16 (header ! 3) (header ! 4))) (length data)
           in \<lparr>content_type = header ! 0, payload_start = pos + 5, payload_end = payload_end\<rparr> # walk_from data payload_end))"
  by pat_completeness auto
termination
  by (relation "measure (\<lambda>(data, pos). length data - pos)") (auto simp: get_range_def split: if_splits)

declare walk_from.simps [simp del]

definition walk_records :: "bytes \<Rightarrow> tls_record list" where
  "walk_records data = walk_from data 0"

record handshake_prefix =
  hp_len :: nat
  hp_kind :: "byte option"
  hp_complete :: bool
  hp_extendable :: bool

definition record_payload :: "bytes \<Rightarrow> tls_record \<Rightarrow> bytes" where
  "record_payload data r = take (payload_end r - payload_start r) (drop (payload_start r) data)"

fun prefix_loop :: "bytes \<Rightarrow> tls_record list \<Rightarrow> handshake_prefix \<Rightarrow> bytes \<Rightarrow> nat \<Rightarrow> handshake_prefix \<times> nat" where
  "prefix_loop data [] p header next_header = (p, next_header)"
| "prefix_loop data (r # rs) p header next_header =
     (if content_type r \<noteq> HANDSHAKE then (p\<lparr>hp_extendable := False\<rparr>, next_header)
      else
        let payload = record_payload data r;
            n = min (length payload) (4 - length header);
            header' = header @ take n payload;
            p' = p\<lparr>hp_len := hp_len p + length payload, hp_kind := (if header' \<noteq> [] then Some (hd header') else hp_kind p)\<rparr>
        in if length header' = 4 \<and> 4 + be_u24 (tl header') \<le> hp_len p'
           then (p'\<lparr>hp_len := 4 + be_u24 (tl header'), hp_complete := True\<rparr>, payload_end r)
           else prefix_loop data rs p' header' (payload_end r))"

definition prefix_end :: "bytes \<Rightarrow> handshake_prefix \<times> nat \<Rightarrow> handshake_prefix" where
  "prefix_end data = (\<lambda>(p, next_header).
     case get_at data next_header of
       Some kind \<Rightarrow> if kind \<noteq> HANDSHAKE then p\<lparr>hp_extendable := False\<rparr> else p
     | None \<Rightarrow> p)"

definition handshake_prefix_of :: "bytes \<Rightarrow> handshake_prefix option" where
  "handshake_prefix_of data =
     (case walk_records data of
        [] \<Rightarrow> None
      | first # rs \<Rightarrow>
          if content_type first \<noteq> HANDSHAKE then None
          else
            Some (prefix_end data (prefix_loop data (first # rs)
              \<lparr>hp_len = 0, hp_kind = None, hp_complete = False, hp_extendable = True\<rparr> [] (payload_end first))))"

fun message_loop :: "bytes \<Rightarrow> tls_record list \<Rightarrow> nat \<Rightarrow> bytes \<Rightarrow> bytes" where
  "message_loop data [] len message = message"
| "message_loop data (r # rs) len message =
     (let n = min (length (record_payload data r)) (len - length message);
          message' = message @ take n (record_payload data r)
      in if length message' = len then message' else message_loop data rs len message')"

text \<open>Called only when there is a first record.\<close>

definition message_bytes :: "bytes \<Rightarrow> nat \<Rightarrow> bytes" where
  "message_bytes data len =
     (case walk_records data of
        [] \<Rightarrow> []
      | first # rs \<Rightarrow>
          if len \<le> length (record_payload data first) then take len (record_payload data first)
          else message_loop data (first # rs) len [])"

record assembled_handshake =
  ah_message :: bytes
  ah_complete :: bool

definition assemble_handshake_message :: "bytes \<Rightarrow> assembled_handshake option" where
  "assemble_handshake_message data =
     map_option (\<lambda>p. \<lparr>ah_message = message_bytes data (hp_len p), ah_complete = hp_complete p\<rparr>) (handshake_prefix_of data)"

definition handshake_message :: "bytes \<Rightarrow> bytes option" where
  "handshake_message data = map_option (\<lambda>p. message_bytes data (hp_len p)) (handshake_prefix_of data)"

definition client_hello_is_complete :: "bytes \<Rightarrow> bool" where
  "client_hello_is_complete data =
     (case handshake_prefix_of data of None \<Rightarrow> False | Some p \<Rightarrow> hp_complete p \<and> hp_kind p = Some 1)"

definition client_hello_might_continue :: "bytes \<Rightarrow> bool" where
  "client_hello_might_continue data =
     (if (case get_at data 0 of Some kind \<Rightarrow> kind \<noteq> HANDSHAKE | None \<Rightarrow> False) \<or>
         (case get_at data 1 of Some major \<Rightarrow> major \<noteq> 3 | None \<Rightarrow> False)
      then False
      else case handshake_prefix_of data of
             Some p \<Rightarrow> (hp_kind p = None \<or> hp_kind p = Some 1) \<and> \<not> hp_complete p \<and> hp_extendable p
           | None \<Rightarrow> length data < 5)"

subsection \<open>The handshake stream\<close>

text \<open>The payloads of the leading handshake records, put together, and whether another record ends them.\<close>

definition rec_len :: "bytes \<Rightarrow> nat" where
  "rec_len d = unat (be16 (d ! 3) (d ! 4))"

function hs_stream :: "bytes \<Rightarrow> bytes" where
  "hs_stream d =
     (if length d < 5 \<or> d ! 0 \<noteq> HANDSHAKE then []
      else take (rec_len d) (drop 5 d) @ hs_stream (drop (5 + rec_len d) d))"
  by pat_completeness auto
termination by (relation "measure length") auto

function hs_closed :: "bytes \<Rightarrow> bool" where
  "hs_closed d =
     (if d = [] then False
      else if d ! 0 \<noteq> HANDSHAKE then True
      else if length d < 5 then False
      else hs_closed (drop (5 + rec_len d) d))"
  by pat_completeness auto
termination by (relation "measure length") auto

declare hs_stream.simps [simp del] hs_closed.simps [simp del]

text \<open>The length the handshake header declares, and whether so much has arrived.\<close>

definition declared :: "bytes \<Rightarrow> nat" where
  "declared s = 4 + be_u24 (take 3 (drop 1 s))"

definition arrived :: "bytes \<Rightarrow> bool" where
  "arrived s \<longleftrightarrow> 4 \<le> length s \<and> declared s \<le> length s"

definition clipped :: "bytes \<Rightarrow> bytes" where
  "clipped s = (if arrived s then take (declared s) s else s)"

lemma arrived_append: "arrived s \<Longrightarrow> arrived (s @ t) \<and> declared (s @ t) = declared s"
  by (simp add: arrived_def declared_def)

lemma clipped_arrived_append: "arrived s \<Longrightarrow> clipped (s @ t) = clipped s"
  using arrived_append [of s t] by (simp add: clipped_def arrived_def)

lemma hs_stream_append: "\<exists>y. hs_stream (d @ x) = hs_stream d @ y \<and> (hs_closed d \<longrightarrow> y = [])"
proof (induction d rule: hs_stream.induct)
  case (1 d)
  show ?case
  proof (cases "length d < 5 \<or> d ! 0 \<noteq> HANDSHAKE")
    case True
    then have "hs_stream d = []" by (simp add: hs_stream.simps [of d])
    moreover have "hs_stream (d @ x) = []" if "hs_closed d"
    proof -
      have "d \<noteq> []" "d ! 0 \<noteq> HANDSHAKE" using that True by (auto simp: hs_closed.simps [of d] split: if_splits)
      then show ?thesis by (simp add: hs_stream.simps [of "d @ x"] nth_append)
    qed
    ultimately show ?thesis by auto
  next
    case False
    have r: "rec_len (d @ x) = rec_len d" using False by (simp add: rec_len_def nth_append)
    have ne: "d \<noteq> []" using False by auto
    have u: "hs_stream (d @ x) = take (rec_len d) (drop 5 d @ x) @ hs_stream (drop (5 + rec_len d) (d @ x))"
      using False r ne by (subst hs_stream.simps) (simp add: nth_append)
    have v: "hs_stream d = take (rec_len d) (drop 5 d) @ hs_stream (drop (5 + rec_len d) d)"
      using False by (subst hs_stream.simps) simp
    have c: "hs_closed d = hs_closed (drop (5 + rec_len d) d)" using False by (subst hs_closed.simps) auto
    show ?thesis
    proof (cases "5 + rec_len d \<le> length d")
      case True
      then have "hs_stream (drop (5 + rec_len d) (d @ x)) = hs_stream (drop (5 + rec_len d) d @ x)" by simp
      with 1 False obtain y where "hs_stream (drop (5 + rec_len d) (d @ x)) = hs_stream (drop (5 + rec_len d) d) @ y"
          "hs_closed (drop (5 + rec_len d) d) \<longrightarrow> y = []" by auto
      then show ?thesis using u v c True by (intro exI [of _ y]) auto
    next
      case short: False
      then have "hs_stream (drop (5 + rec_len d) d) = []" "\<not> hs_closed d"
        using c by (simp_all add: hs_stream.simps [of "[]"] hs_closed.simps [of "[]"])
      then show ?thesis using u v short by auto
    qed
  qed
qed


subsection \<open>The loops compute the stream\<close>

lemma walk_from_short: "length data < pos + 5 \<Longrightarrow> walk_from data pos = []"
  by (subst walk_from.simps) (simp add: get_range_def)

lemma walk_from_step:
  assumes "pos + 5 \<le> length data"
  shows "walk_from data pos =
    \<lparr>content_type = data ! pos, payload_start = pos + 5, payload_end = min (pos + 5 + rec_len (drop pos data)) (length data)\<rparr>
      # walk_from data (min (pos + 5 + rec_len (drop pos data)) (length data))"
  using assms by (subst walk_from.simps) (simp add: get_range_def Let_def rec_len_def)

lemma hs_stream_step:
  "5 \<le> length d \<Longrightarrow> d ! 0 = HANDSHAKE \<Longrightarrow>
    hs_stream d = take (rec_len d) (drop 5 d) @ hs_stream (drop (5 + rec_len d) d)"
  by (subst hs_stream.simps) simp

lemma hs_stream_stop: "length d < 5 \<or> d ! 0 \<noteq> HANDSHAKE \<Longrightarrow> hs_stream d = []"
  by (subst hs_stream.simps) auto

lemma hs_closed_step:
  "5 \<le> length d \<Longrightarrow> d ! 0 = HANDSHAKE \<Longrightarrow> hs_closed d = hs_closed (drop (5 + rec_len d) d)"
  by (subst hs_closed.simps) auto

lemma hs_closed_stop:
  "length d < 5 \<or> d ! 0 \<noteq> HANDSHAKE \<Longrightarrow> hs_closed d \<longleftrightarrow> d \<noteq> [] \<and> d ! 0 \<noteq> HANDSHAKE"
  by (subst hs_closed.simps) auto

lemma drop_min_length: "drop (min n (length xs)) xs = drop n xs"
  by (simp add: min_def)

text \<open>What the prefix loop has to end with, given the stream so far.\<close>

definition prefix_matches :: "handshake_prefix \<Rightarrow> bytes \<Rightarrow> bool \<Rightarrow> bool" where
  "prefix_matches p s closed \<longleftrightarrow>
     hp_kind p = (if s = [] then None else Some (hd s)) \<and> (hp_complete p \<longleftrightarrow> arrived s) \<and>
     hp_len p = length (clipped s) \<and> (\<not> arrived s \<longrightarrow> (hp_extendable p \<longleftrightarrow> \<not> closed))"

definition open_prefix :: "bytes \<Rightarrow> handshake_prefix" where
  "open_prefix s = \<lparr>hp_len = length s, hp_kind = (if s = [] then None else Some (hd s)), hp_complete = False, hp_extendable = True\<rparr>"

lemma prefix_matches_stop:
  assumes "\<not> arrived acc" "drop pos data = d" "length d < 5 \<or> d ! 0 \<noteq> HANDSHAKE"
  shows "prefix_matches (prefix_end data (prefix_loop data (walk_from data pos) (open_prefix acc) (take 4 acc) pos)) acc (hs_closed d)"
proof (cases "length d < 5")
  case True
  then have "walk_from data pos = []" using assms(2) by (intro walk_from_short) auto
  moreover have "(case get_at data pos of Some k \<Rightarrow> k \<noteq> HANDSHAKE | None \<Rightarrow> False) \<longleftrightarrow> hs_closed d"
    using assms(2) by (auto simp: hs_closed_stop [OF assms(3)] get_at_def)
  ultimately show ?thesis using assms(1)
    by (auto simp: prefix_matches_def prefix_end_def open_prefix_def clipped_def split: option.splits)
next
  case False
  then have p: "pos + 5 \<le> length data" using assms(2) by auto
  have k: "data ! pos \<noteq> HANDSHAKE" using assms False by auto
  have "d \<noteq> []" using False by auto
  then have "hs_closed d" using assms(3) False by (simp add: hs_closed_stop)
  then show ?thesis using assms(1) k p
    by (auto simp: walk_from_step prefix_matches_def prefix_end_def open_prefix_def clipped_def get_at_def)
qed

lemma be_header: "length s \<ge> 4 \<Longrightarrow> be_u24 (tl (take 4 s)) = be_u24 (take 3 (drop 1 s))"
  by (cases s) auto

lemma prefix_loop_record:
  assumes "content_type r = HANDSHAKE" "record_payload data r = pay"
  shows "prefix_loop data (r # rs) (open_prefix acc) (take 4 acc) nh =
    (if arrived (acc @ pay)
     then ((open_prefix (acc @ pay))\<lparr>hp_len := declared (acc @ pay), hp_complete := True\<rparr>, payload_end r)
     else prefix_loop data rs (open_prefix (acc @ pay)) (take 4 (acc @ pay)) (payload_end r))"
proof -
  let ?h = "take 4 acc @ take (min (length pay) (4 - length (take 4 acc))) pay"
  have h: "?h = take 4 (acc @ pay)" by (simp add: min_def)
  have p: "(open_prefix acc)\<lparr>hp_len := hp_len (open_prefix acc) + length pay,
      hp_kind := (if take 4 (acc @ pay) \<noteq> [] then Some (hd (take 4 (acc @ pay))) else hp_kind (open_prefix acc))\<rparr> = open_prefix (acc @ pay)"
    by (simp add: open_prefix_def del: take_append)
  have c: "length (take 4 (acc @ pay)) = 4 \<and> 4 + be_u24 (tl (take 4 (acc @ pay))) \<le> hp_len (open_prefix (acc @ pay)) \<longleftrightarrow> arrived (acc @ pay)"
    using be_header [of "acc @ pay"] by (auto simp: arrived_def declared_def open_prefix_def min_def split: if_splits)
  have e: "4 + be_u24 (tl (take 4 (acc @ pay))) = declared (acc @ pay)" if "arrived (acc @ pay)"
    using be_header [of "acc @ pay"] that by (auto simp: arrived_def declared_def)
  show ?thesis using assms(1) e by (simp only: prefix_loop.simps assms(2) Let_def h p c) simp
qed

lemma prefix_loop_spec:
  assumes "\<not> arrived acc" "pos \<le> length data"
  shows "prefix_matches (prefix_end data (prefix_loop data (walk_from data pos) (open_prefix acc) (take 4 acc) pos))
    (acc @ hs_stream (drop pos data)) (hs_closed (drop pos data))"
  using assms
proof (induction "length data - pos" arbitrary: pos acc rule: less_induct)
  case less
  let ?d = "drop pos data" and ?R = "rec_len (drop pos data)"
  let ?e = "min (pos + 5 + ?R) (length data)"
  let ?pay = "take ?R (drop 5 ?d)"
  show ?case
  proof (cases "length ?d < 5 \<or> ?d ! 0 \<noteq> HANDSHAKE")
    case True
    then show ?thesis using prefix_matches_stop [OF less.prems(1) refl] by (simp add: hs_stream_stop)
  next
    case False
    then have len: "pos + 5 \<le> length data" and k: "data ! pos = HANDSHAKE" by auto
    have d5: "5 \<le> length ?d" "?d ! 0 = HANDSHAKE" using False by auto
    have pay: "record_payload data \<lparr>content_type = data ! pos, payload_start = pos + 5, payload_end = ?e\<rparr> = ?pay"
      by (simp add: record_payload_def min_def add.commute)
    have k': "content_type \<lparr>content_type = data ! pos, payload_start = pos + 5, payload_end = ?e\<rparr> = HANDSHAKE"
      using k by simp
    note loop = prefix_loop_record [OF k' pay, unfolded tls_record.select_convs]
    have rest: "drop (5 + ?R) ?d = drop ?e data" by (simp add: drop_min_length add.commute add.left_commute)
    show ?thesis
    proof (cases "arrived (acc @ ?pay)")
      case True
      let ?t = "acc @ hs_stream ?d"
      have t: "?t = (acc @ ?pay) @ hs_stream (drop ?e data)" by (simp only: hs_stream_step [OF d5] rest append_assoc)
      have at: "arrived ?t" "declared ?t = declared (acc @ ?pay)"
        unfolding t using arrived_append [OF True] by blast+
      have "?t \<noteq> []" "hd ?t = hd (acc @ ?pay)" "acc @ ?pay \<noteq> []"
        unfolding t using True by (auto simp: arrived_def hd_append)
      then have "prefix_matches (prefix_end data ((open_prefix (acc @ ?pay))\<lparr>hp_len := declared (acc @ ?pay), hp_complete := True\<rparr>, ?e))
          ?t (hs_closed ?d)"
        using at by (auto simp: prefix_matches_def prefix_end_def open_prefix_def clipped_def arrived_def split: option.splits)
      then show ?thesis by (simp only: walk_from_step [OF len] loop True if_True)
    next
      case na: False
      have "prefix_loop data (walk_from data pos) (open_prefix acc) (take 4 acc) pos =
          prefix_loop data (walk_from data ?e) (open_prefix (acc @ ?pay)) (take 4 (acc @ ?pay)) ?e"
        by (simp only: walk_from_step [OF len] loop na if_False)
      moreover have "prefix_matches (prefix_end data (prefix_loop data (walk_from data ?e) (open_prefix (acc @ ?pay)) (take 4 (acc @ ?pay)) ?e))
          ((acc @ ?pay) @ hs_stream (drop ?e data)) (hs_closed (drop ?e data))"
        by (rule less.hyps [OF _ na]) (use len in auto)
      ultimately show ?thesis by (simp only: hs_stream_step [OF d5] hs_closed_step [OF d5] rest append_assoc)
    qed
  qed
qed

text \<open>The prefix of the whole data.\<close>

lemma handshake_prefix_of_spec:
  "(\<exists>p. handshake_prefix_of data = Some p \<and> prefix_matches p (hs_stream data) (hs_closed data)) \<longleftrightarrow>
     5 \<le> length data \<and> data ! 0 = HANDSHAKE"
  "handshake_prefix_of data = None \<longleftrightarrow> \<not> (5 \<le> length data \<and> data ! 0 = HANDSHAKE)"
proof -
  have none: "handshake_prefix_of data = None" if "\<not> (5 \<le> length data \<and> data ! 0 = HANDSHAKE)"
  proof (cases "5 \<le> length data")
    case True
    then show ?thesis using that walk_from_step [of 0 data] by (simp add: handshake_prefix_of_def walk_records_def)
  next
    case False
    then show ?thesis using walk_from_short [of data 0] by (simp add: handshake_prefix_of_def walk_records_def)
  qed
  have some: "\<exists>p. handshake_prefix_of data = Some p \<and> prefix_matches p (hs_stream data) (hs_closed data)"
    if h: "5 \<le> length data" "data ! 0 = HANDSHAKE"
  proof -
    obtain r rs where w: "walk_from data 0 = r # rs" and r: "content_type r = HANDSHAKE"
      using walk_from_step [of 0 data] h by simp
    have "prefix_loop data (r # rs) (open_prefix []) [] (payload_end r) = prefix_loop data (r # rs) (open_prefix []) [] 0"
      using r by (simp add: Let_def)
    then have "handshake_prefix_of data = Some (prefix_end data (prefix_loop data (walk_from data 0) (open_prefix []) [] 0))"
      using r by (simp add: handshake_prefix_of_def walk_records_def w open_prefix_def)
    then show ?thesis using prefix_loop_spec [of "[]" 0 data] by (simp add: arrived_def)
  qed
  show "(\<exists>p. handshake_prefix_of data = Some p \<and> prefix_matches p (hs_stream data) (hs_closed data)) \<longleftrightarrow>
      5 \<le> length data \<and> data ! 0 = HANDSHAKE" using some none by force
  show "handshake_prefix_of data = None \<longleftrightarrow> \<not> (5 \<le> length data \<and> data ! 0 = HANDSHAKE)" using some none by force
qed

lemma take_in_middle:
  "length a < n \<Longrightarrow> n \<le> length a + length p \<Longrightarrow> a @ take (min (length p) (n - length a)) p = take n (a @ p @ z)"
  by (simp add: min_absorb2)

lemma take_all_of_middle: "length a + length p < n \<Longrightarrow> take (min (length p) (n - length a)) p = p"
  by simp

lemma message_loop_spec:
  assumes "pos \<le> length data" "length acc < len" "len \<le> length acc + length (hs_stream (drop pos data))"
  shows "message_loop data (walk_from data pos) len acc = take len (acc @ hs_stream (drop pos data))"
  using assms
proof (induction "length data - pos" arbitrary: pos acc rule: less_induct)
  case less
  let ?d = "drop pos data" and ?R = "rec_len (drop pos data)"
  let ?e = "min (pos + 5 + ?R) (length data)"
  let ?pay = "take ?R (drop 5 ?d)"
  have d5: "5 \<le> length ?d" "?d ! 0 = HANDSHAKE" using less.prems hs_stream_stop [of ?d] by force+
  then have len: "pos + 5 \<le> length data" by auto
  have pay: "record_payload data \<lparr>content_type = data ! pos, payload_start = pos + 5, payload_end = ?e\<rparr> = ?pay"
    by (simp add: record_payload_def min_def add.commute)
  have rest: "drop (5 + ?R) ?d = drop ?e data" by (simp add: drop_min_length add.commute add.left_commute)
  have s: "hs_stream ?d = ?pay @ hs_stream (drop ?e data)" by (simp only: hs_stream_step [OF d5] rest)
  show ?case
  proof (cases "len \<le> length acc + length ?pay")
    case True
    then have "acc @ take (min (length ?pay) (len - length acc)) ?pay = take len (acc @ ?pay @ hs_stream (drop ?e data))"
      using less.prems(2) by (rule take_in_middle [rotated])
    moreover have "length (take len (acc @ ?pay @ hs_stream (drop ?e data))) = len" using True by simp
    ultimately show ?thesis by (simp only: walk_from_step [OF len] message_loop.simps pay Let_def s if_True simp_thms)
  next
    case False
    then have m: "take (min (length ?pay) (len - length acc)) ?pay = ?pay" "length (acc @ ?pay) \<noteq> len"
      using take_all_of_middle [of acc ?pay len] by (simp_all only: not_le) simp
    have "message_loop data (walk_from data ?e) len (acc @ ?pay) = take len ((acc @ ?pay) @ hs_stream (drop ?e data))"
      by (rule less.hyps) (use len less.prems False s in auto)
    then show ?thesis by (simp only: walk_from_step [OF len] message_loop.simps pay Let_def s if_False m append_assoc)
  qed
qed

lemma message_bytes_spec:
  assumes "5 \<le> length data" "data ! 0 = HANDSHAKE" "len \<le> length (hs_stream data)"
  shows "message_bytes data len = take len (hs_stream data)"
proof -
  let ?e = "min (5 + rec_len data) (length data)"
  let ?r = "\<lparr>content_type = data ! 0, payload_start = 5, payload_end = ?e\<rparr>"
  have w: "walk_from data 0 = ?r # walk_from data ?e" using walk_from_step [of 0 data] assms(1) by simp
  have p: "record_payload data ?r = take (rec_len data) (drop 5 data)" by (simp add: record_payload_def min_def)
  have s: "hs_stream data = take (rec_len data) (drop 5 data) @ hs_stream (drop (5 + rec_len data) data)"
    by (rule hs_stream_step [OF assms(1,2)])
  show ?thesis
  proof (cases "len \<le> length (record_payload data ?r)")
    case True
    then show ?thesis using p s by (simp add: message_bytes_def walk_records_def w)
  next
    case False
    have "message_loop data (walk_from data 0) len [] = take len ([] @ hs_stream (drop 0 data))"
      by (rule message_loop_spec) (use False assms(3) in auto)
    then show ?thesis using False by (simp add: message_bytes_def walk_records_def w)
  qed
qed

lemma clipped_prefix: "clipped s = take (length (clipped s)) s"
  by (auto simp: clipped_def arrived_def)

lemma handshake_message_spec:
  "handshake_message data =
     (if 5 \<le> length data \<and> data ! 0 = HANDSHAKE then Some (clipped (hs_stream data)) else None)"
proof (cases "5 \<le> length data \<and> data ! 0 = HANDSHAKE")
  case True
  then obtain p where p: "handshake_prefix_of data = Some p" "prefix_matches p (hs_stream data) (hs_closed data)"
    using handshake_prefix_of_spec(1) by blast
  have "length (clipped (hs_stream data)) \<le> length (hs_stream data)" by (auto simp: clipped_def)
  then show ?thesis using True p clipped_prefix [of "hs_stream data"]
    by (simp add: handshake_message_def prefix_matches_def message_bytes_spec)
next
  case False
  then show ?thesis using handshake_prefix_of_spec(2) [of data] by (simp only: handshake_message_def) simp
qed

end
