(* ===== verification/RecoverHost.thy ===== *)
theory RecoverHost
  imports TlsRecords
begin

text \<open>
  Recovering the host name a client wants from its first bytes, \<open>connect/util/recover_host.rs\<close>: the server
  name of a TLS ClientHello and the \<open>Host\<close> header of an HTTP/1 request. Offsets are \<open>nat\<close>, for they stay
  below a length plus \<open>2 ^ 16\<close>.
\<close>

subsection \<open>The server name of a ClientHello\<close>

definition be_u16 :: "bytes \<Rightarrow> nat" where
  "be_u16 b = unat (be16 (b ! 0) (b ! 1))"

definition skip :: "bytes \<Rightarrow> nat \<Rightarrow> nat \<Rightarrow> nat option" where
  "skip buf p n = (if p + n \<le> length buf then Some (p + n) else None)"

definition skip_vec :: "bytes \<Rightarrow> nat \<Rightarrow> nat \<Rightarrow> nat option" where
  "skip_vec buf p len_bytes =
     Option.bind (if len_bytes = 1 then map_option unat (get_at buf p)
                  else if len_bytes = 2 then map_option be_u16 (get_range buf p (p + 2))
                  else None)
       (\<lambda>len. skip buf (p + len_bytes) len)"

function server_name_loop :: "bytes \<Rightarrow> nat \<Rightarrow> bytes option" where
  "server_name_loop list p =
     (if p + 3 \<le> length list then
        let name_len = be_u16 (take 2 (drop (p + 1) list))
        in case get_range list (p + 3) (p + 3 + name_len) of
             None \<Rightarrow> None
           | Some name \<Rightarrow>
               if list ! p = 0 then
                 (if \<not> utf8_valid name then None
                  else if name = [] then None
                  else Some (map to_ascii_lowercase name))
               else server_name_loop list (p + 3 + name_len)
      else None)"
  by pat_completeness auto
termination by (relation "measure (\<lambda>(list, p). length list - p)") auto

definition parse_server_name_ext :: "bytes \<Rightarrow> bytes option" where
  "parse_server_name_ext data =
     Option.bind (map_option be_u16 (get_range data 0 2)) (\<lambda>list_len.
       Option.bind (get_range data 2 (2 + list_len)) (\<lambda>list. server_name_loop list 0))"

function extension_loop :: "bytes \<Rightarrow> nat \<Rightarrow> bytes option" where
  "extension_loop extensions e =
     (if e + 4 \<le> length extensions then
        let ext_type = be_u16 (take 2 (drop e extensions));
            ext_len = be_u16 (take 2 (drop (e + 2) extensions))
        in case get_range extensions (e + 4) (e + 4 + ext_len) of
             None \<Rightarrow> None
           | Some ext_data \<Rightarrow>
               if ext_type = 0 then parse_server_name_ext ext_data
               else extension_loop extensions (e + 4 + ext_len)
      else None)"
  by pat_completeness auto
termination by (relation "measure (\<lambda>(x, e). length x - e)") auto

declare server_name_loop.simps [simp del] extension_loop.simps [simp del]

text \<open>The walk over the ClientHello body.\<close>

definition hello_server_name :: "bytes \<Rightarrow> bytes option" where
  "hello_server_name hs =
     Option.bind (skip hs 0 2) (\<lambda>p.
     Option.bind (skip hs p 32) (\<lambda>p.
     Option.bind (skip_vec hs p 1) (\<lambda>p.
     Option.bind (skip_vec hs p 2) (\<lambda>p.
     Option.bind (skip_vec hs p 1) (\<lambda>p.
     Option.bind (map_option be_u16 (get_range hs p (p + 2))) (\<lambda>ext_total.
     Option.bind (get_range hs (p + 2) (min (p + 2 + ext_total) (length hs))) (\<lambda>extensions.
       extension_loop extensions 0)))))))"

definition parse_sni :: "bytes \<Rightarrow> bytes option" where
  "parse_sni data =
     (if length data < 5 \<or> data ! 0 \<noteq> 0x16 \<or> data ! 1 \<noteq> 3 then None
      else Option.bind (handshake_message data) (\<lambda>message.
        if length message < 4 \<or> message ! 0 \<noteq> 1 then None
        else let hs_len = be_u24 (take 3 (drop 1 message));
                 hs = (case get_range message 4 (4 + hs_len) of Some body \<Rightarrow> body | None \<Rightarrow> drop 4 message)
             in hello_server_name hs))"

definition sni_might_still_appear :: "bytes \<Rightarrow> bool" where
  "sni_might_still_appear data = client_hello_might_continue data"

subsection \<open>The Host header\<close>

definition crlf_line :: "bytes \<Rightarrow> (bytes \<times> bytes) option" where
  "crlf_line data = map_option (\<lambda>end. (take end data, drop (end + 2) data)) (find_window CRLF data)"

definition is_http1_request_line :: "bytes \<Rightarrow> bool" where
  "is_http1_request_line line \<longleftrightarrow> ends_with line (ascii '' HTTP/1.0'') \<or> ends_with line (ascii '' HTTP/1.1'')"

definition host_value_of :: "bytes \<Rightarrow> bytes option" where
  "host_value_of raw =
     (if \<not> utf8_valid raw then None
      else let val = str_trim raw in
        if val = [] then None
        else Some (map to_ascii_lowercase
          (case rsplit_once COLON val of
             Some (h, port) \<Rightarrow> if h \<noteq> [] \<and> list_all is_ascii_digit port then h else val
           | None \<Rightarrow> val)))"

lemma crlf_line_shorter: "crlf_line data = Some (line, rest) \<Longrightarrow> length rest < length data"
  using find_window_Some by (fastforce simp: crlf_line_def)

function host_loop :: "bytes \<Rightarrow> bytes option" where
  "host_loop headers =
     (case crlf_line headers of
        None \<Rightarrow> None
      | Some (line, rest) \<Rightarrow>
          if line = [] then None
          else case position (\<lambda>b. b = COLON) line of
                 None \<Rightarrow> host_loop rest
               | Some colon \<Rightarrow>
                   if eq_ignore_ascii_case (trim_ascii (take colon line)) (ascii ''host'')
                   then host_value_of (drop (colon + 1) line)
                   else host_loop rest)"
  by pat_completeness auto
termination by (relation "measure length") (auto dest: crlf_line_shorter)

declare host_loop.simps [simp del]

definition parse_http_host :: "bytes \<Rightarrow> bytes option" where
  "parse_http_host data =
     (case crlf_line data of
        None \<Rightarrow> None
      | Some (request, headers) \<Rightarrow> if \<not> is_http1_request_line request then None else host_loop headers)"

definition http_host_might_still_appear :: "bytes \<Rightarrow> bool" where
  "http_host_might_still_appear data =
     (if data = [] then True
      else if \<not> is_ascii_alphabetic (hd data) then False
      else if (case position (\<lambda>b. b = LF) data of
                 None \<Rightarrow> False
               | Some end \<Rightarrow> end = 0 \<or> data ! (end - 1) \<noteq> CR \<or> \<not> is_http1_request_line (take (end - 1) data))
      then False
      else \<not> (find_window HEAD_END data \<noteq> None \<or> find_window [LF, LF] data \<noteq> None))"

subsection \<open>A server name once found stays found\<close>

lemma skip_append: "skip buf p n = Some q \<Longrightarrow> skip (buf @ x) p n = Some q"
  by (auto simp: skip_def split: if_splits)

lemma skip_vec_append: "skip_vec buf p n = Some q \<Longrightarrow> skip_vec (buf @ x) p n = Some q"
  by (auto simp: skip_vec_def bind_eq_Some_conv get_at_append get_range_append skip_append split: if_splits)

lemma be_u16_append: "e + 2 \<le> length x \<Longrightarrow> be_u16 (take 2 (drop e (x @ y))) = be_u16 (take 2 (drop e x))"
  by simp

lemma extension_loop_append: "extension_loop x e = Some h \<Longrightarrow> extension_loop (x @ y) e = Some h"
proof (induction x e rule: extension_loop.induct)
  case (1 x e)
  let ?n = "be_u16 (take 2 (drop (e + 2) x))"
  have len: "e + 4 \<le> length x" using 1(2) by (subst (asm) extension_loop.simps) (simp split: if_splits)
  then obtain d where d: "get_range x (e + 4) (e + 4 + ?n) = Some d"
    using 1(2) by (subst (asm) extension_loop.simps) (auto simp: Let_def split: option.splits)
  have l: "extension_loop x e = (if be_u16 (take 2 (drop e x)) = 0 then parse_server_name_ext d else extension_loop x (e + 4 + ?n))"
    using len d by (subst extension_loop.simps) (simp add: Let_def)
  have r: "extension_loop (x @ y) e =
      (if be_u16 (take 2 (drop e x)) = 0 then parse_server_name_ext d else extension_loop (x @ y) (e + 4 + ?n))"
    using len get_range_append [OF d] by (subst extension_loop.simps) (simp add: Let_def be_u16_append)
  show ?case using 1(1) [OF len refl refl d] 1(2) l r by auto
qed

lemma get_range_clipped_append:
  "get_range hs a (min b (length hs)) = Some x \<Longrightarrow> \<exists>y. get_range (hs @ z) a (min b (length (hs @ z))) = Some (x @ y)"
  by (auto simp: get_range_def min_def split: if_splits)

lemma bind_keep:
  "Option.bind a f = Some h \<Longrightarrow> (\<And>v. a = Some v \<Longrightarrow> a' = Some v) \<Longrightarrow> (\<And>v. f v = Some h \<Longrightarrow> g v = Some h) \<Longrightarrow>
    Option.bind a' g = Some h"
  by (cases a) auto

lemma extensions_append:
  "Option.bind (get_range hs a (min b (length hs))) (\<lambda>x. extension_loop x 0) = Some h \<Longrightarrow>
    Option.bind (get_range (hs @ z) a (min b (length (hs @ z)))) (\<lambda>x. extension_loop x 0) = Some h"
proof -
  assume "Option.bind (get_range hs a (min b (length hs))) (\<lambda>x. extension_loop x 0) = Some h"
  then obtain x where x: "get_range hs a (min b (length hs)) = Some x" "extension_loop x 0 = Some h"
    by (auto simp: bind_eq_Some_conv)
  then obtain y where "get_range (hs @ z) a (min b (length (hs @ z))) = Some (x @ y)"
    using get_range_clipped_append by blast
  then show ?thesis using extension_loop_append [OF x(2)] by simp
qed

lemma hello_server_name_append: "hello_server_name hs = Some h \<Longrightarrow> hello_server_name (hs @ z) = Some h"
  unfolding hello_server_name_def
  by (erule bind_keep, erule skip_append | erule bind_keep, erule skip_vec_append |
      erule bind_keep, fastforce intro: get_range_append | erule extensions_append)+

text \<open>The server name in terms of the handshake stream.\<close>

definition stream_server_name :: "bytes \<Rightarrow> bytes option" where
  "stream_server_name s =
     (if length s < 4 \<or> s ! 0 \<noteq> 1 then None else hello_server_name (drop 4 (clipped s)))"

lemma parse_sni_stream:
  "parse_sni data =
     (if length data < 5 \<or> data ! 0 \<noteq> HANDSHAKE \<or> data ! 1 \<noteq> 3 then None else stream_server_name (hs_stream data))"
proof (cases "length data < 5 \<or> data ! 0 \<noteq> HANDSHAKE \<or> data ! 1 \<noteq> 3")
  case False
  let ?s = "hs_stream data"
  have m: "handshake_message data = Some (clipped ?s)" using False by (simp add: handshake_message_spec)
  have l: "length (clipped ?s) < 4 \<longleftrightarrow> length ?s < 4" by (auto simp: clipped_def arrived_def declared_def)
  have n: "clipped ?s ! 0 = ?s ! 0" if "4 \<le> length ?s" using that by (auto simp: clipped_def arrived_def declared_def)
  have b: "(case get_range (clipped ?s) 4 (4 + be_u24 (take 3 (drop 1 (clipped ?s)))) of
      Some body \<Rightarrow> body | None \<Rightarrow> drop 4 (clipped ?s)) = drop 4 (clipped ?s)"
  proof (cases "arrived ?s")
    case True
    then have "take 3 (drop 1 (clipped ?s)) = take 3 (drop 1 ?s)"
      by (simp add: clipped_def declared_def drop_take min_def)
    then show ?thesis using True by (simp add: get_range_def clipped_def arrived_def declared_def)
  next
    case na: False
    then show ?thesis by (auto simp: get_range_def clipped_def arrived_def declared_def)
  qed
  show ?thesis using False l n b by (auto simp: parse_sni_def m HANDSHAKE_def stream_server_name_def Let_def)
qed (auto simp: parse_sni_def HANDSHAKE_def)

lemma stream_server_name_append: "stream_server_name s = Some h \<Longrightarrow> stream_server_name (s @ t) = Some h"
proof -
  assume h: "stream_server_name s = Some h"
  then have s: "4 \<le> length s" "s ! 0 = 1" "hello_server_name (drop 4 (clipped s)) = Some h"
    by (auto simp: stream_server_name_def split: if_splits)
  have "\<exists>z. clipped (s @ t) = clipped s @ z"
  proof (cases "arrived s")
    case True
    then show ?thesis using clipped_arrived_append by simp
  next
    case False
    then have "length s \<le> declared (s @ t)" using s(1) by (simp add: arrived_def declared_def)
    then show ?thesis using False by (simp add: clipped_def)
  qed
  then obtain z where "clipped (s @ t) = clipped s @ z" by blast
  moreover have "4 \<le> length (clipped s)" using s(1) by (auto simp: clipped_def arrived_def declared_def)
  ultimately have "hello_server_name (drop 4 (clipped (s @ t))) = Some h"
    using hello_server_name_append [OF s(3)] by simp
  moreover have "(s @ t) ! 0 = 1" using s(1,2) by (auto simp: nth_append)
  ultimately show ?thesis using s(1) by (simp add: stream_server_name_def)
qed

lemma parse_sni_append: "parse_sni data = Some h \<Longrightarrow> parse_sni (data @ later) = Some h"
proof -
  assume "parse_sni data = Some h"
  then have d: "5 \<le> length data" "data ! 0 = HANDSHAKE" "data ! 1 = 3" "stream_server_name (hs_stream data) = Some h"
    by (auto simp: parse_sni_stream split: if_splits)
  obtain y where "hs_stream (data @ later) = hs_stream data @ y" using hs_stream_append by blast
  moreover have "(data @ later) ! 0 = HANDSHAKE" "(data @ later) ! 1 = 3" using d by (auto simp: nth_append)
  ultimately show ?thesis using d stream_server_name_append [OF d(4)] by (simp add: parse_sni_stream)
qed

lemma stream_server_name_not_hello: "s \<noteq> [] \<Longrightarrow> hd s \<noteq> 1 \<Longrightarrow> stream_server_name (s @ t) = None"
  by (cases s) (auto simp: stream_server_name_def)

lemma stream_server_name_arrived: "arrived s \<Longrightarrow> stream_server_name (s @ t) = stream_server_name s"
  using clipped_arrived_append [of s t] by (auto simp: stream_server_name_def arrived_def nth_append)

lemma parse_sni_final: "\<not> sni_might_still_appear data \<Longrightarrow> parse_sni (data @ later) = parse_sni data"
proof -
  assume no: "\<not> sni_might_still_appear data"
  show ?thesis
  proof (cases "(0 < length data \<and> data ! 0 \<noteq> HANDSHAKE) \<or> (1 < length data \<and> data ! 1 \<noteq> 3)")
    case True
    then show ?thesis by (auto simp: parse_sni_stream nth_append)
  next
    case False
    then have ok: "client_hello_might_continue data \<longleftrightarrow> (case handshake_prefix_of data of
        Some p \<Rightarrow> (hp_kind p = None \<or> hp_kind p = Some 1) \<and> \<not> hp_complete p \<and> hp_extendable p | None \<Rightarrow> length data < 5)"
      by (auto simp: client_hello_might_continue_def get_at_def)
    have len: "5 \<le> length data"
    proof (rule ccontr)
      assume "\<not> 5 \<le> length data"
      then show False using no ok handshake_prefix_of_spec(2) [of data] by (simp add: sni_might_still_appear_def)
    qed
    then have "data \<noteq> []" "Suc 0 < length data" by auto
    then have hs: "data ! 0 = HANDSHAKE" "data ! 1 = 3" using False by auto
    then obtain p where p: "handshake_prefix_of data = Some p" "prefix_matches p (hs_stream data) (hs_closed data)"
      using handshake_prefix_of_spec(1) [of data] len by blast
    obtain y where y: "hs_stream (data @ later) = hs_stream data @ y" "hs_closed data \<longrightarrow> y = []"
      using hs_stream_append by blast
    have "hs_stream data \<noteq> [] \<and> hd (hs_stream data) \<noteq> 1 \<or> arrived (hs_stream data) \<or> hs_closed data"
      using no p ok by (auto simp: sni_might_still_appear_def prefix_matches_def split: if_splits)
    then have "stream_server_name (hs_stream data @ y) = stream_server_name (hs_stream data)"
      using stream_server_name_not_hello [of "hs_stream data"] stream_server_name_arrived y(2) by (metis append_Nil2)
    moreover have "(data @ later) ! 0 = HANDSHAKE" "(data @ later) ! 1 = 3" using hs len by (auto simp: nth_append)
    ultimately show ?thesis using hs len y(1) by (simp add: parse_sni_stream)
  qed
qed

subsection \<open>A host header once found stays found\<close>

lemma crlf_line_append: "crlf_line d = Some (l, r) \<Longrightarrow> crlf_line (d @ x) = Some (l, r @ x)"
proof -
  assume "crlf_line d = Some (l, r)"
  then obtain i where i: "find_window CRLF d = Some i" "l = take i d" "r = drop (i + 2) d"
    by (auto simp: crlf_line_def)
  moreover have "i + 2 \<le> length d" using i(1) find_window_Some [of CRLF d i] by simp
  ultimately show ?thesis using find_window_append [of CRLF d i x] by (simp add: crlf_line_def)
qed

lemma host_loop_append: "host_loop d = Some h \<Longrightarrow> host_loop (d @ x) = Some h"
proof (induction d rule: host_loop.induct)
  case (1 d)
  obtain l r where c: "crlf_line d = Some (l, r)"
    using 1(3) by (subst (asm) host_loop.simps) (auto split: option.splits)
  have l: "host_loop d = (if l = [] then None else case position (\<lambda>b. b = COLON) l of None \<Rightarrow> host_loop r
      | Some colon \<Rightarrow> if eq_ignore_ascii_case (trim_ascii (take colon l)) (ascii ''host'') then host_value_of (drop (colon + 1) l) else host_loop r)"
    by (subst host_loop.simps) (simp add: c del: ascii_simps)
  have x: "host_loop (d @ x) = (if l = [] then None else case position (\<lambda>b. b = COLON) l of None \<Rightarrow> host_loop (r @ x)
      | Some colon \<Rightarrow> if eq_ignore_ascii_case (trim_ascii (take colon l)) (ascii ''host'') then host_value_of (drop (colon + 1) l) else host_loop (r @ x))"
    by (subst host_loop.simps) (simp add: crlf_line_append [OF c] del: ascii_simps)
  show ?case using 1(1) [OF c refl] 1(2) [OF c refl] 1(3) l x by (auto simp del: ascii_simps split: option.splits if_splits)
qed

text \<open>An empty line ends the search, whatever follows it.\<close>

lemma crlf_line_cut:
  assumes "crlf_line d = Some (l, r)"
  shows "d = l @ CRLF @ r" and "d = a @ CRLF @ b \<Longrightarrow> length l \<le> length a"
proof -
  obtain i where i: "find_window CRLF d = Some i" "l = take i d" "r = drop (i + 2) d"
    using assms by (auto simp: crlf_line_def)
  have f: "i + 2 \<le> length d" "take 2 (drop i d) = CRLF" "\<forall>j < i. take 2 (drop j d) \<noteq> CRLF"
    using i(1) find_window_Some [of CRLF d i] by (simp_all add: numeral_2_eq_2)
  show "d = l @ CRLF @ r" unfolding i(2,3) using f(2) by (metis add.commute append_take_drop_id drop_drop)
  show "length l \<le> length a" if "d = a @ CRLF @ b"
  proof (rule ccontr)
    assume "\<not> length l \<le> length a"
    then have "length a < i" using i(2) by auto
    then show False using f(3) that by auto
  qed
qed

definition ended :: "bytes \<Rightarrow> bool" where
  "ended d \<longleftrightarrow> (\<exists>b. d = CRLF @ b) \<or> (\<exists>a b. d = a @ HEAD_END @ b)"

lemma head_end_split: "find_window HEAD_END d \<noteq> None \<Longrightarrow> \<exists>a b. d = a @ HEAD_END @ b"
proof -
  assume "find_window HEAD_END d \<noteq> None"
  then obtain i where "find_window HEAD_END d = Some i" by auto
  then have "take (length HEAD_END) (drop i d) = HEAD_END" by (subst (asm) find_window_Some) auto
  then have "d = take i d @ HEAD_END @ drop (length HEAD_END) (drop i d)" by (metis append_take_drop_id)
  then show ?thesis by blast
qed

lemma crlf_line_CRLF: "crlf_line (CRLF @ b) = Some ([], b)"
  by (simp add: crlf_line_def starts_with_def)

lemma crlf_line_ended:
  assumes "d = a @ HEAD_END @ b"
  obtains l r where "crlf_line d = Some (l, r)" "ended r"
proof -
  have "d = a @ CRLF @ (CRLF @ b)" using assms by simp
  then have "find_window CRLF d \<noteq> None" using find_window_None [of CRLF d] by (auto dest!: spec [of _ "length a"])
  then obtain l r where c: "crlf_line d = Some (l, r)" by (auto simp: crlf_line_def)
  have eq: "l @ CRLF @ r = a @ CRLF @ CRLF @ b" using crlf_line_cut(1) [OF c] assms by simp
  have le: "length l \<le> length a" using crlf_line_cut(2) [OF c, of a "CRLF @ b"] assms by simp
  then obtain z where z: "a = l @ z" "CRLF @ r = z @ CRLF @ CRLF @ b"
    using eq by (auto simp: append_eq_append_conv2)
  have "ended r"
  proof (cases z)
    case Nil
    then show ?thesis using z(2) by (auto simp: ended_def)
  next
    case (Cons z1 zs)
    then have "10 # r = zs @ CRLF @ CRLF @ b" using z(2) by simp
    then obtain zs' where "r = zs' @ HEAD_END @ b" by (cases zs) auto
    then show ?thesis by (auto simp: ended_def)
  qed
  with c show ?thesis using that by blast
qed

lemma host_loop_ended: "ended d \<Longrightarrow> host_loop (d @ x) = host_loop d"
proof (induction d rule: host_loop.induct)
  case (1 d)
  show ?case
  proof (cases "\<exists>b. d = CRLF @ b")
    case True
    then obtain b where "d = CRLF @ b" by blast
    then show ?thesis using crlf_line_CRLF [of b] crlf_line_CRLF [of "b @ x"]
      by (simp add: host_loop.simps [of "13 # 10 # b"] host_loop.simps [of "13 # 10 # b @ x"])
  next
    case False
    then obtain a b where "d = a @ HEAD_END @ b" using 1(3) by (auto simp: ended_def)
    then obtain l r where c: "crlf_line d = Some (l, r)" and e: "ended r" by (rule crlf_line_ended)
    show ?thesis using 1(1) [OF c refl] 1(2) [OF c refl] e c crlf_line_append [OF c, of x]
      by (simp add: host_loop.simps [of d] host_loop.simps [of "d @ x"] del: ascii_simps split: option.split)
  qed
qed

text \<open>What makes the answer of \<open>parse_http_host\<close> final.\<close>

definition host_settled :: "bytes \<Rightarrow> bool" where
  "host_settled data \<longleftrightarrow> parse_http_host data \<noteq> None \<or> find_window HEAD_END data \<noteq> None \<or>
     (\<exists>request headers. crlf_line data = Some (request, headers) \<and> \<not> is_http1_request_line request)"

lemma parse_http_host_settled:
  assumes "host_settled data"
  shows "parse_http_host (data @ x) = parse_http_host data"
proof -
  obtain l r where c: "crlf_line data = Some (l, r)"
      and why: "parse_http_host data \<noteq> None \<or> ended r \<or> \<not> is_http1_request_line l"
  proof (cases "find_window HEAD_END data = None")
    case True
    then show thesis using assms that by (auto simp: host_settled_def parse_http_host_def split: option.splits)
  next
    case False
    then obtain a b where "data = a @ HEAD_END @ b" using head_end_split by blast
    then show thesis using that crlf_line_ended by metis
  qed
  have x: "crlf_line (data @ x) = Some (l, r @ x)" by (rule crlf_line_append [OF c])
  show ?thesis
  proof (cases "is_http1_request_line l")
    case True
    then have "host_loop (r @ x) = host_loop r"
      using why host_loop_ended [of r x] host_loop_append [of r _ x] c by (auto simp: parse_http_host_def)
    then show ?thesis using c x by (simp add: parse_http_host_def)
  qed (use c x in \<open>simp add: parse_http_host_def\<close>)
qed

end
