(* ===== verification/HostPort.thy ===== *)
theory HostPort
  imports IpAddr
begin

text \<open>\<open>connect/util/host_port.rs\<close>: parsing and formatting of \<open>host:port\<close> pairs.\<close>

record host_port =
  hp_host :: bytes
  hp_port :: u16

definition host_port_parse :: "bytes \<Rightarrow> host_port option" where
  "host_port_parse s =
     (case strip_prefix [LBRACKET] s of
        Some rest \<Rightarrow>
          Option.bind (split_once RBRACKET rest) (\<lambda>(h, after).
            if parse_ipv6 h = None then None
            else Option.bind (strip_prefix [COLON] after) (\<lambda>p.
                 Option.bind (parse_u16 p) (\<lambda>n. Some \<lparr>hp_host = h, hp_port = n\<rparr>)))
      | None \<Rightarrow>
          Option.bind (rsplit_once COLON s) (\<lambda>(h, p).
            if COLON \<in> set h \<and> parse_ipv6 h = None then None
            else if COLON \<notin> set h \<and> h = [] then None
            else Option.bind (parse_u16 p) (\<lambda>n. Some \<lparr>hp_host = h, hp_port = n\<rparr>)))"

definition host_port_format :: "bytes \<Rightarrow> u16 \<Rightarrow> bytes" where
  "host_port_format h p =
     (if parse_ipv6 h \<noteq> None then [LBRACKET] @ h @ [RBRACKET, COLON] @ fmt_u16 p
      else h @ [COLON] @ fmt_u16 p)"

text \<open>The hosts the parser returns: an IPv6 literal, or a non-empty name without colon or leading bracket.\<close>

definition canonical_host :: "bytes \<Rightarrow> bool" where
  "canonical_host h \<longleftrightarrow>
     parse_ipv6 h \<noteq> None \<or> (h \<noteq> [] \<and> COLON \<notin> set h \<and> hd h \<noteq> LBRACKET)"

lemma fmt_u16_special:
  "c \<in> {PLUS, MINUS, DOT, COLON, LBRACKET, RBRACKET, SPACE, AT, STAR, HASH, SLASH} \<Longrightarrow> c \<notin> set (fmt_u16 p)"
  unfolding fmt_u16_def by (rule radix_str_special) simp_all

lemma fmt_u16_nonempty [simp]: "fmt_u16 p \<noteq> []"
  by (simp add: fmt_u16_def)

lemma parse_ipv6_Nil: "parse_ipv6 [] = None"
  using read_groups_fmt [of "[]" "[]" 8]
  by (simp add: parse_ipv6_def read_ipv6_addr_def read_given_char_def stops_def fmt_groups_def)

lemma canonical_host_nonempty: "canonical_host h \<Longrightarrow> h \<noteq> []"
  by (auto simp: canonical_host_def parse_ipv6_Nil)

lemma host_port_parse_format:
  assumes "canonical_host h"
  shows "host_port_parse (host_port_format h p) = Some \<lparr>hp_host = h, hp_port = p\<rparr>"
proof (cases "parse_ipv6 h = None")
  case True
  with assms have h: "h \<noteq> []" "COLON \<notin> set h" "hd h \<noteq> LBRACKET" by (auto simp: canonical_host_def)
  have "rsplit_once COLON (h @ COLON # fmt_u16 p) = Some (h, fmt_u16 p)"
    by (simp add: rsplit_once_Some fmt_u16_special)
  moreover have "strip_prefix [LBRACKET] (h @ COLON # fmt_u16 p) = None"
    using h by (cases h) auto
  ultimately show ?thesis using True h by (simp add: host_port_parse_def host_port_format_def)
next
  case False
  then have "split_once RBRACKET (h @ RBRACKET # COLON # fmt_u16 p) = Some (h, COLON # fmt_u16 p)"
    using parse_ipv6_no_bracket [of h] by (simp add: split_once_Some)
  then show ?thesis using False by (simp add: host_port_parse_def host_port_format_def)
qed

lemma host_port_parse_canonical:
  assumes "host_port_parse s = Some hp"
  shows "canonical_host (hp_host hp)"
proof (cases "strip_prefix [LBRACKET] s")
  case None
  with assms have c: "COLON \<in> set (hp_host hp) \<longrightarrow> parse_ipv6 (hp_host hp) \<noteq> None"
      "hp_host hp \<noteq> []" "\<exists>p. s = hp_host hp @ COLON # p"
    by (auto simp: host_port_parse_def bind_eq_Some_conv rsplit_once_Some parse_ipv6_Nil split: if_splits)
  with None show ?thesis by (cases "hp_host hp") (auto simp: canonical_host_def strip_prefix_None)
qed (use assms in \<open>auto simp: host_port_parse_def canonical_host_def bind_eq_Some_conv split: if_splits\<close>)

text \<open>
  Formatting is canonical. Every string the parser accepts, in whatever accepted spelling
  (bracketed or bare IPv6, a signed or zero-padded port), formats to a string that parses to the
  same host and port.
\<close>

theorem host_port_format_canonical:
  assumes "host_port_parse s = Some hp"
  shows "host_port_parse (host_port_format (hp_host hp) (hp_port hp)) = Some hp"
  using host_port_parse_format [OF host_port_parse_canonical [OF assms]] by simp

theorem host_port_format_canonical_witness:
  "host_port_format (ascii ''::1'') 443 = ascii ''[::1]:443'' \<and>
   host_port_parse (ascii ''[::1]:443'') = Some \<lparr>hp_host = ascii ''::1'', hp_port = 443\<rparr>"
proof -
  have i: "parse_ipv6 (ascii ''::1'') = Some [0, 0, 0, 0, 0, 0, 0, 1]"
    using parse_ipv6_fmt [of "[0, 0, 0, 0, 0, 0, 0, 1]"]
    by (simp add: fmt_ipv6_def ipv4_mapped_def fmt_groups_def radix_str_digit digit_char_def)
  then have f: "host_port_format (ascii ''::1'') 443 = ascii ''[::1]:443''"
    by (simp add: host_port_format_def fmt_u16_def radix_str_step radix_str_digit digit_char_def)
  have "parse_u16 (ascii ''+0443'') = Some 443"
    by (simp add: parse_u16_def parse_uint_def to_digit_def)
  with i have "host_port_parse (ascii ''::1:+0443'') = Some \<lparr>hp_host = ascii ''::1'', hp_port = 443\<rparr>"
    by (simp add: host_port_parse_def)
  from host_port_format_canonical [OF this] f show ?thesis by simp
qed

end
