(* ===== verification/ProxyConfig.thy ===== *)
theory ProxyConfig
  imports HostPort
begin

text \<open>
  The upstream descriptor \<open>types/proxy_config.rs\<close> with its chain links, chain construction and
  identity keys \<open>types/chain.rs\<close>, and validation \<open>types/validate.rs\<close>. A chain is an exit entry whose
  \<open>gate\<close> link leads to the node dialed before it; the sharing of nodes through \<open>Arc\<close> is not
  observable, so a link is the linked value.
\<close>

datatype proxy_protocol = Socks5 | Http | Https

datatype proxy_config =
  ProxyConfig (pc_protocol: proxy_protocol) (pc_host: bytes) (pc_port: u16)
    (pc_user: "bytes option") (pc_password: "bytes option")
    (pc_gate_level: byte) (pc_is_gate: bool) (pc_gate: "proxy_config option")

subsection \<open>Construction\<close>

definition strip_brackets :: "bytes \<Rightarrow> bytes" where
  "strip_brackets h =
     (if 2 \<le> length h \<and> hd h = LBRACKET \<and> last h = RBRACKET then tl (butlast h) else h)"

definition proxy_new :: "proxy_protocol \<Rightarrow> bytes \<Rightarrow> u16 \<Rightarrow> proxy_config" where
  "proxy_new protocol h p = ProxyConfig protocol (strip_brackets h) p None None 0 False None"

definition proxy_socks5 :: "bytes \<Rightarrow> u16 \<Rightarrow> proxy_config" where
  "proxy_socks5 h p = proxy_new Socks5 h p"

definition proxy_http :: "bytes \<Rightarrow> u16 \<Rightarrow> proxy_config" where
  "proxy_http h p = proxy_new Http h p"

definition proxy_https :: "bytes \<Rightarrow> u16 \<Rightarrow> proxy_config" where
  "proxy_https h p = proxy_new Https h p"

fun with_auth :: "proxy_config \<Rightarrow> bytes \<Rightarrow> bytes \<Rightarrow> proxy_config" where
  "with_auth (ProxyConfig pr h p _ _ gl ig g) u w = ProxyConfig pr h p (Some u) (Some w) gl ig g"

fun link_gate :: "proxy_config \<Rightarrow> proxy_config option \<Rightarrow> proxy_config" where
  "link_gate (ProxyConfig pr h p u w gl ig _) g = ProxyConfig pr h p u w gl ig g"

definition with_gate :: "proxy_config \<Rightarrow> proxy_config \<Rightarrow> proxy_config" where
  "with_gate c g = link_gate c (Some g)"

fun as_gate :: "proxy_config \<Rightarrow> proxy_config" where
  "as_gate (ProxyConfig pr h p u w gl ig g) = ProxyConfig pr h p u w (max gl 1) True g"

fun with_gate_level :: "proxy_config \<Rightarrow> byte \<Rightarrow> proxy_config" where
  "with_gate_level (ProxyConfig pr h p u w _ _ g) level = ProxyConfig pr h p u w level (level > 0) g"

subsection \<open>Chains\<close>

text \<open>The walk along the gate links, exit first.\<close>

fun walk :: "proxy_config \<Rightarrow> proxy_config list" where
  "walk (ProxyConfig pr h p u w gl ig g) =
     ProxyConfig pr h p u w gl ig g # (case g of None \<Rightarrow> [] | Some c \<Rightarrow> walk c)"

definition nodes :: "proxy_config \<Rightarrow> proxy_config list" where
  "nodes c = rev (walk c)"

fun outermost :: "proxy_config \<Rightarrow> proxy_config" where
  "outermost (ProxyConfig pr h p u w gl ig g) =
     (case g of None \<Rightarrow> ProxyConfig pr h p u w gl ig g | Some c \<Rightarrow> outermost c)"

fun chain_len :: "proxy_config \<Rightarrow> nat" where
  "chain_len (ProxyConfig pr h p u w gl ig g) = 1 + (case g of None \<Rightarrow> 0 | Some c \<Rightarrow> chain_len c)"

definition proxy_chain :: "proxy_config list \<Rightarrow> proxy_config option" where
  "proxy_chain ns = foldl (\<lambda>ch node. Some (link_gate node ch)) None ns"

text \<open>\<open>ChainKey\<close>: equality in lock step along the two chains, and what \<open>Hash\<close> feeds the hasher.\<close>

definition same_node :: "proxy_config \<Rightarrow> proxy_config \<Rightarrow> bool" where
  "same_node a b \<longleftrightarrow>
     \<not> (pc_protocol a \<noteq> pc_protocol b \<or> pc_host a \<noteq> pc_host b \<or> pc_port a \<noteq> pc_port b \<or>
        pc_user a \<noteq> pc_user b \<or> pc_password a \<noteq> pc_password b \<or> pc_gate_level a \<noteq> pc_gate_level b)"

function chain_key_eq :: "proxy_config option \<Rightarrow> proxy_config option \<Rightarrow> bool" where
  "chain_key_eq (Some a) (Some b) = (if \<not> same_node a b then False else chain_key_eq (pc_gate a) (pc_gate b))"
| "chain_key_eq None None = True"
| "chain_key_eq (Some a) None = False"
| "chain_key_eq None (Some b) = False"
  by pat_completeness auto
termination
proof (relation "measure (\<lambda>(a, b). size_option size a)")
  fix a b :: proxy_config
  show "((pc_gate a, pc_gate b), Some a, Some b) \<in> measure (\<lambda>(a, b). size_option size a)"
    by (cases a; cases "pc_gate a") auto
qed simp

type_synonym node_id = "proxy_protocol \<times> bytes \<times> u16 \<times> bytes option \<times> bytes option \<times> byte"

definition node_id :: "proxy_config \<Rightarrow> node_id" where
  "node_id c = (pc_protocol c, pc_host c, pc_port c, pc_user c, pc_password c, pc_gate_level c)"

definition chain_key_hash :: "proxy_config \<Rightarrow> nat \<times> node_id list" where
  "chain_key_hash c = (length (nodes c), map node_id (nodes c))"

subsection \<open>Validation\<close>

datatype credential_field = Username | Password

datatype proxy_config_error =
    EmptyHost
  | InvalidHost
  | ZeroPort
  | IncompleteCredentials
  | EmptyCredential credential_field
  | CredentialTooLong credential_field nat
  | UsernameContainsColon
  | ControlCharacter credential_field
  | InconsistentGateFlag

fun validate_socks_fields :: "(credential_field \<times> bytes) list \<Rightarrow> proxy_config_error + unit" where
  "validate_socks_fields [] = Ok ()"
| "validate_socks_fields ((field, v) # fs) =
     (if length v = 0 then Err (EmptyCredential field)
      else if 255 < length v then Err (CredentialTooLong field (length v))
      else validate_socks_fields fs)"

fun validate_http_fields :: "(credential_field \<times> bytes) list \<Rightarrow> proxy_config_error + unit" where
  "validate_http_fields [] = Ok ()"
| "validate_http_fields ((field, v) # fs) =
     (if list_ex is_ascii_control (chars v) then Err (ControlCharacter field)
      else validate_http_fields fs)"

fun validate_pair :: "proxy_protocol \<Rightarrow> bytes \<Rightarrow> bytes \<Rightarrow> proxy_config_error + unit" where
  "validate_pair Socks5 u w = validate_socks_fields [(Username, u), (Password, w)]"
| "validate_pair _ u w =
     (if COLON \<in> set u then Err UsernameContainsColon
      else validate_http_fields [(Username, u), (Password, w)])"

definition is_host_char_forbidden :: "nat \<Rightarrow> bool" where
  "is_host_char_forbidden c \<longleftrightarrow> is_ascii_control c \<or> is_whitespace c \<or> c = 47 \<or> c = 64"

definition validate_node :: "proxy_config \<Rightarrow> proxy_config_error + unit" where
  "validate_node c =
     (if pc_host c = [] then Err EmptyHost
      else if list_ex is_host_char_forbidden (chars (pc_host c)) then Err InvalidHost
      else if pc_port c = 0 then Err ZeroPort
      else if pc_is_gate c \<noteq> (pc_gate_level c > 0) then Err InconsistentGateFlag
      else case (pc_user c, pc_password c) of
             (None, None) \<Rightarrow> Ok ()
           | (Some u, Some w) \<Rightarrow> validate_pair (pc_protocol c) u w
           | _ \<Rightarrow> Err IncompleteCredentials)"

record chain_config_error =
  ce_node :: nat
  ce_kind :: proxy_config_error

fun validate_from :: "nat \<Rightarrow> proxy_config list \<Rightarrow> chain_config_error + unit" where
  "validate_from i [] = Ok ()"
| "validate_from i (n # ns) =
     (case validate_node n of
        Err kind \<Rightarrow> Err \<lparr>ce_node = i, ce_kind = kind\<rparr>
      | Ok _ \<Rightarrow> validate_from (Suc i) ns)"

definition validate_chain :: "proxy_config \<Rightarrow> chain_config_error + unit" where
  "validate_chain c = validate_from 0 (nodes c)"

definition try_with_auth :: "proxy_config \<Rightarrow> bytes \<Rightarrow> bytes \<Rightarrow> proxy_config_error + proxy_config" where
  "try_with_auth c u w =
     (case validate_pair (pc_protocol c) u w of Err e \<Rightarrow> Err e | Ok _ \<Rightarrow> Ok (with_auth c u w))"

subsection \<open>Chains and their nodes\<close>

lemma walk_simp: "walk c = c # (case pc_gate c of None \<Rightarrow> [] | Some g \<Rightarrow> walk g)"
  by (cases c) simp

lemma walk_link: "walk (link_gate n g) = link_gate n g # (case g of None \<Rightarrow> [] | Some c \<Rightarrow> walk c)"
  by (cases n) simp

lemma node_id_link [simp]: "node_id (link_gate n g) = node_id n" "pc_is_gate (link_gate n g) = pc_is_gate n"
  "pc_gate (link_gate n g) = g"
  by (cases n; simp add: node_id_def)+

lemma chain_len_walk: "chain_len c = length (walk c)"
  by (induction c rule: chain_len.induct) (auto split: option.splits)

lemma walk_nonempty [simp]: "walk c \<noteq> []"
  by (subst walk_simp) simp

lemma outermost_walk: "outermost c = last (walk c)"
proof (induction c rule: outermost.induct)
  case (1 pr h p u w gl ig g)
  then show ?case by (cases g) auto
qed

lemma nodes_link: "nodes (link_gate n g) = (case g of None \<Rightarrow> [] | Some c \<Rightarrow> nodes c) @ [link_gate n g]"
  by (simp add: nodes_def walk_link split: option.splits)

lemma foldl_link:
  "foldl (\<lambda>ch n. Some (link_gate n ch)) ch0 ns = (if ns = [] then ch0 else
     Some (link_gate (last ns) (foldl (\<lambda>ch n. Some (link_gate n ch)) ch0 (butlast ns))))"
  by (induction ns arbitrary: ch0 rule: rev_induct) simp_all

lemma proxy_chain_snoc: "proxy_chain (ns @ [n]) = Some (link_gate n (proxy_chain ns))"
  by (simp add: proxy_chain_def)

lemma proxy_chain_Nil [simp]: "proxy_chain [] = None" "proxy_chain [n] = Some (link_gate n None)"
  by (simp_all add: proxy_chain_def)

lemma proxy_chain_nodes:
  "(case proxy_chain ns of None \<Rightarrow> [] | Some c \<Rightarrow> map node_id (nodes c)) = map node_id ns"
proof (induction ns rule: rev_induct)
  case (snoc n ns)
  then show ?case by (cases "proxy_chain ns") (auto simp: proxy_chain_snoc nodes_link)
qed (simp add: proxy_chain_def)

lemma proxy_chain_None: "proxy_chain ns = None \<longleftrightarrow> ns = []"
  by (cases ns rule: rev_exhaust) (auto simp: proxy_chain_snoc)

lemma same_node_id: "same_node a b \<longleftrightarrow> node_id a = node_id b"
  by (auto simp: same_node_def node_id_def)

lemma chain_key_eq_walk:
  "chain_key_eq a b \<longleftrightarrow>
     map node_id (case a of None \<Rightarrow> [] | Some c \<Rightarrow> walk c) = map node_id (case b of None \<Rightarrow> [] | Some c \<Rightarrow> walk c)"
  by (induction a b rule: chain_key_eq.induct)
    (auto simp: same_node_id walk_simp split: option.splits)

text \<open>
  A chain is its list of nodes. Building a chain from a non-empty list of nodes (outermost
  first) and listing its nodes gives back the same entries in the same order, whatever gates the
  inputs carried; the length and the outermost node agree with that list, and the empty list is the
  only one without a chain.
\<close>

theorem proxy_chain_round_trip:
  "case proxy_chain ns of
     None \<Rightarrow> ns = []
   | Some c \<Rightarrow> map node_id (nodes c) = map node_id ns \<and> chain_len c = length ns \<and> ns \<noteq> [] \<and>
       node_id (outermost c) = node_id (hd ns)"
proof (cases "proxy_chain ns")
  case None
  then show ?thesis by (simp add: proxy_chain_None)
next
  case (Some c)
  then have m: "map node_id (nodes c) = map node_id ns" and ne: "ns \<noteq> []"
    using proxy_chain_nodes [of ns] proxy_chain_None [of ns] by auto
  have "chain_len c = length ns" using map_eq_imp_length_eq [OF m] by (simp add: chain_len_walk nodes_def)
  moreover have "node_id (outermost c) = node_id (hd ns)"
    using m ne by (metis hd_map hd_rev list.map_disc_iff nodes_def outermost_walk)
  ultimately show ?thesis using Some m ne by simp
qed

text \<open>
  Chain keys. Two keys are equal exactly when their chains have the same number of nodes with
  the same protocol, host, port, credentials and gate level in the same order; so equality is an
  equivalence, and equal keys, and only they, feed the same data to the hasher.
\<close>

theorem chain_key_eq_iff_hash:
  "chain_key_eq (Some a) (Some b) \<longleftrightarrow> chain_key_hash a = chain_key_hash b"
proof -
  have "chain_key_eq (Some a) (Some b) \<longleftrightarrow> map node_id (walk a) = map node_id (walk b)"
    by (simp only: chain_key_eq_walk option.case)
  also have "\<dots> \<longleftrightarrow> map node_id (nodes a) = map node_id (nodes b)"
    by (metis nodes_def rev_map rev_rev_ident)
  also have "\<dots> \<longleftrightarrow> chain_key_hash a = chain_key_hash b"
    by (auto simp: chain_key_hash_def dest: map_eq_imp_length_eq)
  finally show ?thesis .
qed

lemma validate_from_Err:
  "validate_from i ns = Err e \<longleftrightarrow>
     (\<exists>k < length ns. e = \<lparr>ce_node = i + k, ce_kind = projl (validate_node (ns ! k))\<rparr> \<and>
        isl (validate_node (ns ! k)) \<and> (\<forall>j < k. validate_node (ns ! j) = Ok ()))"
proof (induction ns arbitrary: i)
  case (Cons n ns)
  show ?case
  proof (cases "validate_node n")
    case (Inl a)
    then show ?thesis by (auto simp: less_Suc_eq_0_disj)
  next
    case (Inr u)
    then show ?thesis by (simp add: Cons.IH Ex_less_Suc2 All_less_Suc2)
  qed
qed simp

text \<open>
  Chain validation reports the first bad node, counted from the outermost one, with that node's
  own error, and accepts a chain exactly when every node of it is valid.
\<close>

theorem validate_chain_first_bad_node:
  "(validate_chain c = Ok () \<longleftrightarrow> (\<forall>k < chain_len c. validate_node (nodes c ! k) = Ok ())) \<and>
   (\<forall>e. validate_chain c = Err e \<longleftrightarrow>
      (\<exists>k < chain_len c. e = \<lparr>ce_node = k, ce_kind = projl (validate_node (nodes c ! k))\<rparr> \<and>
         isl (validate_node (nodes c ! k)) \<and> (\<forall>j < k. validate_node (nodes c ! j) = Ok ())))"
proof -
  have "validate_from i ns = Ok () \<longleftrightarrow> (\<forall>k < length ns. validate_node (ns ! k) = Ok ())" for i ns
    by (induction ns arbitrary: i) (auto simp: less_Suc_eq_0_disj split: sum.splits)
  then show ?thesis by (simp add: validate_chain_def validate_from_Err chain_len_walk nodes_def)
qed

text \<open>A valid gate in front of an exit with port 0.\<close>

theorem validate_chain_first_bad_node_witness:
  "validate_chain (with_gate (proxy_socks5 (ascii ''x'') 0) (as_gate (proxy_http (ascii ''g'') 2))) =
   Err \<lparr>ce_node = 1, ce_kind = ZeroPort\<rparr>"
proof -
  let ?g = "as_gate (proxy_http (ascii ''g'') 2)"
  let ?c = "with_gate (proxy_socks5 (ascii ''x'') 0) ?g"
  have n: "nodes ?c = [?g, ?c]" "chain_len ?c = 2"
    by (simp_all add: nodes_def with_gate_def proxy_socks5_def proxy_http_def proxy_new_def)
  have v: "validate_node ?g = Ok ()" "validate_node ?c = Err ZeroPort"
    by (simp_all add: validate_node_def with_gate_def proxy_socks5_def proxy_http_def proxy_new_def strip_brackets_def
        utf8_len_def lead_bits_def Let_def is_host_char_forbidden_def is_ascii_control_def is_whitespace_def)
  have "\<exists>k < chain_len ?c. \<lparr>ce_node = 1, ce_kind = ZeroPort\<rparr> = \<lparr>ce_node = k, ce_kind = projl (validate_node (nodes ?c ! k))\<rparr> \<and>
      isl (validate_node (nodes ?c ! k)) \<and> (\<forall>j < k. validate_node (nodes ?c ! j) = Ok ())"
    unfolding n using v by (intro exI [of _ 1]) (simp del: ascii_simps)
  then show ?thesis using validate_chain_first_bad_node [of ?c] by blast
qed

end
