(* ===== verification/Clock.thy ===== *)
theory Clock
  imports Prelude
begin

text \<open>
  \<open>std::time\<close> as the sources use it. A \<open>Duration\<close> is a number of nanoseconds, at most
  \<open>duration_max\<close> (a \<open>u64\<close> of seconds and up to 999,999,999 nanoseconds). An \<open>Instant\<close> is a
  number of nanoseconds on the monotonic clock, at most \<open>instant_max\<close> (an \<open>i64\<close> of seconds, as
  on Unix). The clock itself is not modelled: every operation that calls \<open>Instant::now()\<close> takes
  the instant it read as its argument \<open>now\<close>.
\<close>

type_synonym duration = nat
type_synonym instant = nat

definition from_secs :: "nat \<Rightarrow> duration" where
  "from_secs s = s * 10 ^ 9"

definition duration_max :: duration where
  "duration_max = from_secs (2 ^ 64 - 1) + 999999999"

definition instant_max :: instant where
  "instant_max = from_secs (2 ^ 63 - 1) + 999999999"

definition dur_saturating_mul :: "duration \<Rightarrow> nat \<Rightarrow> duration" where
  "dur_saturating_mul d k = min (d * k) duration_max"

definition instant_checked_add :: "instant \<Rightarrow> duration \<Rightarrow> instant option" where
  "instant_checked_add t d = (if t + d \<le> instant_max then Some (t + d) else None)"

definition saturating_duration_since :: "instant \<Rightarrow> instant \<Rightarrow> duration" where
  "saturating_duration_since t s = t - s"

lemma instant_checked_add_Some:
  "instant_checked_add t d = Some u \<longleftrightarrow> u = t + d \<and> t + d \<le> instant_max"
  by (auto simp: instant_checked_add_def)

lemma dur_saturating_mul_le: "dur_saturating_mul d k \<le> duration_max"
  by (simp add: dur_saturating_mul_def)

lemma dur_saturating_mul_exact: "d * k \<le> duration_max \<Longrightarrow> dur_saturating_mul d k = d * k"
  by (simp add: dur_saturating_mul_def)

lemma duration_max_pos: "0 < duration_max"
  by (simp add: duration_max_def from_secs_def)

end
