(* ===== verification/ConnectError.thy ===== *)
theory ConnectError
  imports ProxyConfig Clock
begin

text \<open>
  The typed errors of the connect API (\<open>error/mod.rs\<close>), their messages, and their classification
  for the ratings (\<open>error/classify.rs\<close>). An \<open>io::Error\<close> is its kind and its message text. The
  crate's default features (TLS and the pool) are on.
\<close>

datatype io_kind =
  UnexpectedEof | InvalidData | InvalidInput | TimedOut | WriteZero | BrokenPipe | ConnectionRefused |
  ConnectionReset | ConnectionAborted | OtherKind

datatype io_error = IoError (io_kind: io_kind) (io_text: bytes)

datatype stage = ConnectStage | HandshakeStage | TotalStage

datatype timeout_kind =
  TcpConnect | Socks5Handshake | HttpHandshake | HttpsTlsHandshake | HttpsConnectHandshake | TotalTimeout

datatype protocol_violation =
    Socks5BadVersion byte
  | Socks5BadAuthVersion byte
  | Socks5UnknownAddressType byte
  | Socks5BadReserved byte
  | Socks5EmptyBoundDomain
  | Socks5DomainTooLong nat
  | Socks5CredentialsTooLong nat nat
  | HttpInvalidConnectTarget
  | HttpResponseTooLarge
  | HttpClosedEarly

text \<open>\<open>AtCapacity\<close> of the pool: the host and port of the upstream whose cap was hit.\<close>

datatype at_capacity = AtCapacityOf (ac_host: bytes) (ac_port: u16)

datatype connect_error =
    Timeout stage timeout_kind bytes duration
  | Io stage "bytes option" io_error
  | ProxyRejected proxy_protocol "u16 option" bytes
  | AuthFailed byte
  | MethodUnsupported byte bool
  | Protocol protocol_violation
  | InvalidTarget bytes
  | TlsFeatureMissing bytes
  | Tls bytes "io_error option"
  | AtCapacity at_capacity

definition from_io_error :: "io_error \<Rightarrow> connect_error" where
  "from_io_error e = Io HandshakeStage None e"

subsection \<open>Messages\<close>

fun violation_display :: "protocol_violation \<Rightarrow> bytes" where
  "violation_display (Socks5BadVersion _) = ascii ''[SOCKS5] Invalid proxy response version''"
| "violation_display (Socks5BadAuthVersion _) = ascii ''[SOCKS5] Invalid authentication response version''"
| "violation_display (Socks5UnknownAddressType _) = ascii ''[SOCKS5] Unknown address type in response''"
| "violation_display (Socks5BadReserved _) = ascii ''[SOCKS5] Invalid reserved byte in response''"
| "violation_display Socks5EmptyBoundDomain = ascii ''[SOCKS5] Empty bound domain in response''"
| "violation_display (Socks5DomainTooLong _) = ascii ''[SOCKS5] Domain name too long''"
| "violation_display (Socks5CredentialsTooLong _ _) = ascii ''[SOCKS5] Username or password too long''"
| "violation_display HttpInvalidConnectTarget = ascii ''[HTTP] invalid CONNECT target''"
| "violation_display HttpResponseTooLarge = ascii ''[HTTP] upstream proxy response too large''"
| "violation_display HttpClosedEarly = ascii ''[HTTP] upstream proxy closed before completing response''"

definition as_secs :: "duration \<Rightarrow> nat" where
  "as_secs d = d div 10 ^ 9"

text \<open>The format \<open>{:02x}\<close>.\<close>

definition hex2 :: "nat \<Rightarrow> bytes" where
  "hex2 n = (let s = radix_str 16 n in if length s < 2 then 48 # s else s)"

fun timeout_prefix :: "timeout_kind \<Rightarrow> bytes" where
  "timeout_prefix TcpConnect = ascii ''connect timeout (''"
| "timeout_prefix Socks5Handshake = ascii ''[SOCKS5] handshake timeout (''"
| "timeout_prefix HttpHandshake = ascii ''[HTTP] handshake timeout (''"
| "timeout_prefix HttpsTlsHandshake = ascii ''[HTTPS] TLS handshake timeout (''"
| "timeout_prefix HttpsConnectHandshake = ascii ''[HTTPS] CONNECT handshake timeout (''"
| "timeout_prefix TotalTimeout = ascii ''total timeout (''"

definition at_capacity_display :: "at_capacity \<Rightarrow> bytes" where
  "at_capacity_display c = ascii ''upstream cap reached for '' @ ac_host c @ [COLON] @ fmt_u16 (ac_port c)"

fun connect_error_display :: "connect_error \<Rightarrow> bytes" where
  "connect_error_display (Timeout _ k endpoint after) =
     timeout_prefix k @ radix_str 10 (as_secs after) @ ascii ''s) to '' @ endpoint"
| "connect_error_display (Io _ (Some endpoint) e) = ascii ''connect to '' @ endpoint @ ascii '': '' @ io_text e"
| "connect_error_display (Io _ None e) = io_text e"
| "connect_error_display (ProxyRejected Socks5 (Some code) _) =
     ascii ''[SOCKS5] CONNECT request error, error code: '' @ hex2 (unat code)"
| "connect_error_display (ProxyRejected Socks5 None _) = ascii ''[SOCKS5] CONNECT request error''"
| "connect_error_display (ProxyRejected _ _ response) =
     ascii ''[HTTP] upstream proxy rejected CONNECT: '' @ response"
| "connect_error_display (AuthFailed status) =
     ascii ''[SOCKS5] Authentication failed (status '' @ hex2 (unat status) @ ascii '')''"
| "connect_error_display (MethodUnsupported got asked_auth) =
     (if asked_auth
      then ascii ''[SOCKS5] Proxy does not support username/password authentication (received: '' @ hex2 (unat got) @ ascii '')''
      else ascii ''[SOCKS5] Proxy does not support no-authentication method (received: '' @ hex2 (unat got) @ ascii '')'')"
| "connect_error_display (Protocol v) = violation_display v"
| "connect_error_display (InvalidTarget t) = ascii ''[SOCKS5] Invalid target address format: '' @ t"
| "connect_error_display (TlsFeatureMissing host) =
     ascii ''HTTPS upstream to '' @ host @
     ascii '' requested, but resocks5-net was built without the `tls` feature; enable it (`features = ['' @ [34] @ ascii ''tls'' @ [34] @
     ascii '']`, on by default) to dial TLS-wrapped CONNECT upstreams '' @
     [0xE2, 0x80, 0x94] @ ascii '' refusing to fall back to plaintext''"
| "connect_error_display (Tls message _) = message"
| "connect_error_display (AtCapacity c) = at_capacity_display c"

definition socks5_rep_description :: "u16 \<Rightarrow> string" where
  "socks5_rep_description code =
     (if code = 0 then ''succeeded''
      else if code = 1 then ''general SOCKS server failure''
      else if code = 2 then ''connection not allowed by ruleset''
      else if code = 3 then ''network unreachable''
      else if code = 4 then ''host unreachable''
      else if code = 5 then ''connection refused''
      else if code = 6 then ''TTL expired''
      else if code = 7 then ''command not supported''
      else if code = 8 then ''address type not supported''
      else ''unassigned'')"

fun error_source :: "connect_error \<Rightarrow> io_error option" where
  "error_source (Io _ _ e) = Some e"
| "error_source (Tls _ (Some e)) = Some e"
| "error_source _ = None"

subsection \<open>Classification\<close>

fun is_upstream_down :: "connect_error \<Rightarrow> bool" where
  "is_upstream_down (Timeout _ k _ _) = (k = TcpConnect \<or> k = HttpsTlsHandshake)"
| "is_upstream_down (Io s _ _) = (s = ConnectStage)"
| "is_upstream_down (AuthFailed _) = True"
| "is_upstream_down (MethodUnsupported _ _) = True"
| "is_upstream_down (Protocol (Socks5BadVersion _)) = True"
| "is_upstream_down (Protocol (Socks5BadAuthVersion _)) = True"
| "is_upstream_down (Tls _ _) = True"
| "is_upstream_down _ = False"

fun counts_against_upstream :: "connect_error \<Rightarrow> bool" where
  "counts_against_upstream (AtCapacity _) = False"
| "counts_against_upstream _ = True"

lemma down_counts: "is_upstream_down e \<Longrightarrow> counts_against_upstream e"
  by (cases e) auto

end
