(* ===== verification/TlsFragment.thy ===== *)
theory TlsFragment
  imports ConnectError
begin

text \<open>
  Sending the first client bytes, \<open>connect/tls/tls_fragment/mod.rs\<close>, over the progress counter of
  \<open>session/progress.rs\<close>. The writer and the timer are the environment: each idle window of an attempt is a
  \<open>window\<close> with the byte counts the writer stack reported during it and, unless the timer fired first, the
  answer of the operation. A writer accepts no more than it was offered, so an answer counts up to that.
  The log records what the writer saw; a result \<open>None\<close> is a future that is still pending when the windows end.
\<close>

subsection \<open>Confirmed progress\<close>

type_synonym flush_progress = u64

definition progress_new :: flush_progress where
  "progress_new = 0"

definition progress_total :: "flush_progress \<Rightarrow> u64" where
  "progress_total p = p"

definition progress_record :: "flush_progress \<Rightarrow> u64 \<Rightarrow> flush_progress" where
  "progress_record p n = (if n = 0 then p else p + n)"

text \<open>Reporting into the ambient scope: nothing happens outside one.\<close>

definition report_confirmed :: "flush_progress option \<Rightarrow> u64 \<Rightarrow> flush_progress option" where
  "report_confirmed scope n = map_option (\<lambda>p. progress_record p n) scope"

text \<open>A \<open>ProgressReportingWriter\<close> reports the bytes of each accepted write and passes the answer on.\<close>

definition reporting_write ::
  "(bytes \<Rightarrow> 'w \<Rightarrow> (io_error + nat) option \<times> 'w) \<Rightarrow> bytes \<Rightarrow> 'w \<times> flush_progress option \<Rightarrow>
    (io_error + nat) option \<times> 'w \<times> flush_progress option" where
  "reporting_write inner buf = (\<lambda>(w, scope).
     let (result, w') = inner buf w
     in (result, w', case result of Some (Ok n) \<Rightarrow> report_confirmed scope (of_nat n) | _ \<Rightarrow> scope))"

subsection \<open>Classifying the first bytes\<close>

record fragment_spec =
  fs_enabled :: bool
  fragment_size :: nat
  delay_ms :: u64

datatype client_hello_match = ClientHello | Other | Indeterminate

datatype send_progress = Completed | Stalled

definition classify_client_hello :: "bytes \<Rightarrow> client_hello_match" where
  "classify_client_hello data =
     (if data = [] then Indeterminate
      else if data ! 0 \<noteq> 0x16 then Other
      else if length data < 2 then Indeterminate
      else if data ! 1 \<noteq> 3 then Other
      else if length data < 6 then Indeterminate
      else if data ! 5 = 1 then ClientHello
      else Other)"

definition is_tls_client_hello :: "bytes \<Rightarrow> bool" where
  "is_tls_client_hello data \<longleftrightarrow> classify_client_hello data = ClientHello"

subsection \<open>Writing\<close>

datatype window = Window (reports: "u64 list") (answer: "(io_error + nat) option")

datatype wire_event = Wrote bytes | Flushed | Slept u64

definition write_zero :: io_error where
  "write_zero = IoError WriteZero (ascii ''failed to write whole buffer'')"

fun write_bounded_by_confirmed_progress ::
  "bytes \<Rightarrow> flush_progress \<Rightarrow> window list \<Rightarrow> (io_error + nat option) option \<times> flush_progress \<times> window list" where
  "write_bounded_by_confirmed_progress buf p [] = (None, p, [])"
| "write_bounded_by_confirmed_progress buf p (w # ws) =
     (let confirmed_before = progress_total p; p' = foldl progress_record p (reports w)
      in case answer w of
           Some (Err e) \<Rightarrow> (Some (Err e), p', ws)
         | Some (Ok n) \<Rightarrow> (Some (Ok (Some (min n (length buf)))), p', ws)
         | None \<Rightarrow>
             if progress_total p' > confirmed_before then write_bounded_by_confirmed_progress buf p' ws
             else (Some (Ok None), p', ws))"

fun flush_bounded_by_confirmed_progress ::
  "flush_progress \<Rightarrow> window list \<Rightarrow> (io_error + send_progress) option \<times> flush_progress \<times> window list" where
  "flush_bounded_by_confirmed_progress p [] = (None, p, [])"
| "flush_bounded_by_confirmed_progress p (w # ws) =
     (let confirmed_before = progress_total p; p' = foldl progress_record p (reports w)
      in case answer w of
           Some (Err e) \<Rightarrow> (Some (Err e), p', ws)
         | Some (Ok _) \<Rightarrow> (Some (Ok Completed), p', ws)
         | None \<Rightarrow>
             if progress_total p' > confirmed_before then flush_bounded_by_confirmed_progress p' ws
             else (Some (Ok Stalled), p', ws))"

lemma write_bounded_consumes:
  "write_bounded_by_confirmed_progress buf p ws = (Some r, p', ws') \<Longrightarrow> length ws' < length ws"
  by (induction buf p ws rule: write_bounded_by_confirmed_progress.induct)
    (auto simp: Let_def less_SucI split: option.splits sum.splits if_splits)

text \<open>A sender: the windows to come and the log so far.\<close>

type_synonym sender = "window list \<times> wire_event list"

function write_loop :: "bytes \<Rightarrow> nat \<Rightarrow> flush_progress \<Rightarrow> sender \<Rightarrow> (io_error + send_progress) option \<times> sender" where
  "write_loop buf written p (ws, log) =
     (if written < length buf then
        (case write_bounded_by_confirmed_progress (drop written buf) p ws of
           (None, p', ws') \<Rightarrow> (None, (ws', log))
         | (Some attempt, p', ws') \<Rightarrow>
             (case attempt of
                Err e \<Rightarrow> (Some (Err e), (ws', log))
              | Ok None \<Rightarrow> (Some (Ok Stalled), (ws', log))
              | Ok (Some n) \<Rightarrow>
                  if n = 0 then (Some (Err write_zero), (ws', log))
                  else write_loop buf (written + n) p' (ws', log @ [Wrote (take n (drop written buf))])))
      else
        (case flush_bounded_by_confirmed_progress p ws of
           (r, p', ws') \<Rightarrow> (r, (ws', log @ (if r = Some (Ok Completed) then [Flushed] else [])))))"
  by pat_completeness auto
termination
  by (relation "measure (\<lambda>(buf, written, p, ws, log). length buf - written)") auto

declare write_loop.simps [simp del]

text \<open>\<open>write_all\<close> and \<open>flush\<close> of the runtime, without a bound: no timer fires there, so the windows without an
  answer are only waiting time.\<close>

function write_all_loop :: "bytes \<Rightarrow> sender \<Rightarrow> (io_error + send_progress) option \<times> sender" where
  "write_all_loop buf (ws, log) =
     (case dropWhile (\<lambda>w. answer w = None) ws of
        [] \<Rightarrow> (None, ([], log))
      | w # ws' \<Rightarrow>
          (case the (answer w) of
             Err e \<Rightarrow> (Some (Err e), (ws', log))
           | Ok n \<Rightarrow>
               if buf = [] then (Some (Ok Completed), (ws', log @ [Flushed]))
               else if min n (length buf) = 0 then (Some (Err (IoError WriteZero (ascii ''write zero''))), (ws', log))
               else write_all_loop (drop (min n (length buf)) buf) (ws', log @ [Wrote (take (min n (length buf)) buf)])))"
  by pat_completeness auto
termination
  by (relation "measure (\<lambda>(buf, s). length buf)") auto

declare write_all_loop.simps [simp del]

definition write_progress_bounded :: "bytes \<Rightarrow> nat \<Rightarrow> sender \<Rightarrow> (io_error + send_progress) option \<times> sender" where
  "write_progress_bounded buf idle s =
     (if idle = 0 then write_all_loop buf s else write_loop buf 0 progress_new s)"

function chunks :: "nat \<Rightarrow> 'a list \<Rightarrow> 'a list list" where
  "chunks n xs = (if xs = [] \<or> n = 0 then [] else take n xs # chunks n (drop n xs))"
  by pat_completeness auto
termination by (relation "measure (\<lambda>(n, xs). length xs)") auto

declare chunks.simps [simp del]

fun send_chunks :: "bytes list \<Rightarrow> fragment_spec \<Rightarrow> nat \<Rightarrow> sender \<Rightarrow> (io_error + send_progress) option \<times> sender" where
  "send_chunks [] cfg idle s = (Some (Ok Completed), s)"
| "send_chunks (chunk # rest) cfg idle s =
     (case write_progress_bounded chunk idle s of
        (Some (Ok Completed), (ws, log)) \<Rightarrow>
          send_chunks rest cfg idle (ws, if delay_ms cfg > 0 then log @ [Slept (delay_ms cfg)] else log)
      | (r, s') \<Rightarrow> (r, s'))"

definition send_possibly_fragmented ::
  "bytes \<Rightarrow> fragment_spec \<Rightarrow> nat \<Rightarrow> sender \<Rightarrow> (io_error + send_progress) option \<times> sender" where
  "send_possibly_fragmented data cfg idle s =
     (if \<not> fs_enabled cfg \<or> \<not> is_tls_client_hello data then write_progress_bounded data idle s
      else send_chunks (chunks (max (fragment_size cfg) 1) data) cfg idle s)"

subsection \<open>What reaches the wire\<close>

text \<open>The bytes between flushes: the finished segments and the bytes behind the last flush.\<close>

fun segments :: "bytes \<Rightarrow> wire_event list \<Rightarrow> bytes list \<times> bytes" where
  "segments acc [] = ([], acc)"
| "segments acc (Wrote b # es) = segments (acc @ b) es"
| "segments acc (Flushed # es) = (let (done, rest) = segments [] es in (acc # done, rest))"
| "segments acc (Slept d # es) = segments acc es"

lemma segments_append:
  "segments acc (a @ b) = (let (done, rest) = segments acc a; (done', rest') = segments rest b in (done @ done', rest'))"
  by (induction acc a rule: segments.induct) (auto simp: Let_def split: prod.splits)

lemma segments_writes: "segments acc (map Wrote parts) = ([], acc @ concat parts)"
  by (induction parts arbitrary: acc) auto

text \<open>The log of one buffer: writes that make up the buffer, or a prefix of it, and the flush at the end.\<close>

definition delivered :: "(io_error + send_progress) option \<Rightarrow> bytes \<Rightarrow> wire_event list \<Rightarrow> bool" where
  "delivered r buf es \<longleftrightarrow> (\<exists>parts rest. buf = concat parts @ rest \<and>
     (if r = Some (Ok Completed) then rest = [] \<and> es = map Wrote parts @ [Flushed] else es = map Wrote parts))"

lemma deliveredI:
  "buf = concat parts @ rest \<Longrightarrow> r \<noteq> Some (Ok Completed) \<Longrightarrow> es = map Wrote parts \<Longrightarrow> delivered r buf es"
  "buf = concat parts \<Longrightarrow> es = map Wrote parts @ [Flushed] \<Longrightarrow> delivered (Some (Ok Completed)) buf es"
  by (auto simp: delivered_def)

lemma delivered_Nil: "r \<noteq> Some (Ok Completed) \<Longrightarrow> delivered r buf []"
  by (rule deliveredI(1) [of _ "[]"]) auto

lemma delivered_Wrote: "delivered r buf es \<Longrightarrow> delivered r (b @ buf) (Wrote b # es)"
  unfolding delivered_def by (elim exE) (rule_tac x = "b # parts" in exI, auto split: if_splits)

lemma write_loop_end:
  "\<not> k < length buf \<Longrightarrow> write_loop buf k p (ws, log) =
    (case flush_bounded_by_confirmed_progress p ws of
       (r, p', ws') \<Rightarrow> (r, (ws', log @ (if r = Some (Ok Completed) then [Flushed] else []))))"
  by (subst write_loop.simps) simp

lemma write_loop_more:
  "k < length buf \<Longrightarrow> write_bounded_by_confirmed_progress (drop k buf) p ws = (Some (Ok (Some n)), p', ws') \<Longrightarrow> n \<noteq> 0 \<Longrightarrow>
    write_loop buf k p (ws, log) = write_loop buf (k + n) p' (ws', log @ [Wrote (take n (drop k buf))])"
  by (subst write_loop.simps) simp

lemma write_loop_stop:
  "k < length buf \<Longrightarrow> write_bounded_by_confirmed_progress (drop k buf) p ws = (a, p', ws') \<Longrightarrow>
    \<not> (\<exists>n. a = Some (Ok (Some n)) \<and> n \<noteq> 0) \<Longrightarrow>
    \<exists>r. write_loop buf k p (ws, log) = (r, ws', log) \<and> r \<noteq> Some (Ok Completed)"
  by (subst write_loop.simps) (auto split: option.splits sum.splits)

lemma write_loop_log:
  "write_loop buf k p (ws, log) = (r, ws', log') \<Longrightarrow> \<exists>es. log' = log @ es \<and> delivered r (drop k buf) es"
proof (induction "length buf - k" arbitrary: k p ws log rule: less_induct)
  case less
  show ?case
  proof (cases "k < length buf")
    case True
    obtain a p' vs where a: "write_bounded_by_confirmed_progress (drop k buf) p ws = (a, p', vs)"
      by (cases "write_bounded_by_confirmed_progress (drop k buf) p ws")
    show ?thesis
    proof (cases "\<exists>n. a = Some (Ok (Some n)) \<and> n \<noteq> 0")
      case more: True
      then obtain n where n: "a = Some (Ok (Some n))" "n \<noteq> 0" by blast
      have "write_loop buf (k + n) p' (vs, log @ [Wrote (take n (drop k buf))]) = (r, ws', log')"
        using write_loop_more [OF True a [unfolded n(1)] n(2)] less.prems by simp
      then obtain es where "log' = (log @ [Wrote (take n (drop k buf))]) @ es" "delivered r (drop (k + n) buf) es"
        using less.hyps [of "k + n"] True n(2) by force
      moreover have "drop k buf = take n (drop k buf) @ drop (k + n) buf" by (metis add.commute append_take_drop_id drop_drop)
      ultimately show ?thesis
        using delivered_Wrote [of r "drop (k + n) buf" es "take n (drop k buf)"] by auto
    next
      case False
      then show ?thesis using write_loop_stop [OF True a False, of log] less.prems delivered_Nil by auto
    qed
  next
    case False
    obtain q p' vs where q: "flush_bounded_by_confirmed_progress p ws = (q, p', vs)"
      by (cases "flush_bounded_by_confirmed_progress p ws")
    then have "log' = log @ (if r = Some (Ok Completed) then [Flushed] else [])"
      using write_loop_end [OF False] less.prems by auto
    then show ?thesis using False by (auto simp: delivered_def intro!: exI [of _ "[]"])
  qed
qed

lemma write_all_loop_log:
  "write_all_loop buf (ws, log) = (r, ws', log') \<Longrightarrow> \<exists>es. log' = log @ es \<and> delivered r buf es"
proof (induction "length buf" arbitrary: buf ws log rule: less_induct)
  case less
  show ?case
  proof (cases "dropWhile (\<lambda>w. answer w = None) ws")
    case Nil
    have "write_all_loop buf (ws, log) = (None, ([], log))" by (subst write_all_loop.simps) (simp only: Nil list.case)
    then show ?thesis using less.prems delivered_Nil by auto
  next
    case (Cons w vs)
    show ?thesis
    proof (cases "the (answer w)")
      case (Inl e)
      then show ?thesis using less.prems Cons delivered_Nil by (subst (asm) write_all_loop.simps) auto
    next
      case (Inr n)
      let ?n = "min n (length buf)"
      consider "buf = []" | "buf \<noteq> []" "?n = 0" | "buf \<noteq> []" "?n \<noteq> 0" by blast
      then show ?thesis
      proof cases
        case 1
        then show ?thesis using less.prems Cons Inr deliveredI(2) [of "[]" "[]"] by (subst (asm) write_all_loop.simps) auto
      next
        case 2
        then show ?thesis using less.prems Cons Inr delivered_Nil by (subst (asm) write_all_loop.simps) auto
      next
        case 3
        have "write_all_loop buf (ws, log) = write_all_loop (drop ?n buf) (vs, log @ [Wrote (take ?n buf)])"
          by (subst write_all_loop.simps) (simp only: Cons list.case Inr sum.case 3 if_False)
        then have "write_all_loop (drop ?n buf) (vs, log @ [Wrote (take ?n buf)]) = (r, ws', log')"
          using less.prems by simp
        then obtain es where "log' = (log @ [Wrote (take ?n buf)]) @ es" "delivered r (drop ?n buf) es"
          using less.hyps [of "drop ?n buf"] 3 by force
        then show ?thesis using delivered_Wrote [of r "drop ?n buf" es "take ?n buf"] by auto
      qed
    qed
  qed
qed

lemma write_progress_bounded_log:
  "write_progress_bounded buf idle (ws, log) = (r, ws', log') \<Longrightarrow> \<exists>es. log' = log @ es \<and> delivered r buf es"
  using write_loop_log [of buf 0 progress_new] write_all_loop_log
  by (auto simp: write_progress_bounded_def split: if_splits)

text \<open>Fragments that have been sent, and the prefix of the next one.\<close>

definition sent :: "(io_error + send_progress) option \<Rightarrow> bytes list \<Rightarrow> bytes list \<times> bytes \<Rightarrow> bool" where
  "sent r fs seg \<longleftrightarrow>
     (if r = Some (Ok Completed) then seg = (fs, [])
      else \<exists>k rest. k < length fs \<and> fst seg = take k fs \<and> fs ! k = snd seg @ rest)"

lemma delivered_segments: "delivered r buf es \<Longrightarrow> sent r [buf] (segments [] es)"
  by (auto simp: delivered_def sent_def segments_append segments_writes intro!: exI [of _ 0] split: if_splits)

lemma sent_more: "sent r fs (done, rest) \<Longrightarrow> sent r (c # fs) (c # done, rest)"
  by (auto simp: sent_def split: if_splits)

lemma send_chunks_log:
  "send_chunks cs cfg idle (ws, log) = (r, ws', log') \<Longrightarrow> \<exists>es. log' = log @ es \<and> sent r cs (segments [] es)"
proof (induction cs arbitrary: ws log)
  case Nil
  then show ?case by (simp add: sent_def)
next
  case (Cons c cs)
  obtain q vs log1 where q: "write_progress_bounded c idle (ws, log) = (q, vs, log1)" by (cases "write_progress_bounded c idle (ws, log)")
  then obtain es where es: "log1 = log @ es" "delivered q c es" using write_progress_bounded_log by blast
  show ?case
  proof (cases "q = Some (Ok Completed)")
    case True
    define pause where "pause = (if delay_ms cfg > 0 then [Slept (delay_ms cfg)] else [])"
    have "send_chunks cs cfg idle (vs, log1 @ pause) = (r, ws', log')" using Cons.prems q True by (auto simp: pause_def)
    then obtain es' where e': "log' = (log1 @ pause) @ es'" "sent r cs (segments [] es')" using Cons.IH by blast
    have "segments [] es = ([c], [])" using delivered_segments [OF es(2)] True by (simp add: sent_def)
    then have "segments [] (es @ pause @ es') = (let (d, t) = segments [] es' in (c # d, t))"
      by (auto simp: segments_append pause_def split: prod.splits)
    then show ?thesis using e' es(1) sent_more [of r cs] by (intro exI [of _ "es @ pause @ es'"]) (auto split: prod.splits)
  next
    case False
    then have "r = q" "log' = log1" using Cons.prems q by (auto split: option.splits sum.splits send_progress.splits)
    then show ?thesis using es delivered_segments [OF es(2)] False by (fastforce simp: sent_def)
  qed
qed

lemma chunks_concat: "0 < n \<Longrightarrow> concat (chunks n xs) = xs"
  by (induction n xs rule: chunks.induct) (subst chunks.simps, auto)

lemma chunks_length: "c \<in> set (chunks n xs) \<Longrightarrow> length c \<le> n"
proof (induction n xs rule: chunks.induct)
  case (1 n xs)
  then show ?case by (subst (asm) (2) chunks.simps) (auto split: if_splits)
qed

definition fragments :: "bytes \<Rightarrow> fragment_spec \<Rightarrow> bytes list" where
  "fragments data cfg =
     (if fs_enabled cfg \<and> is_tls_client_hello data then chunks (max (fragment_size cfg) 1) data else [data])"

lemma fragments_concat: "concat (fragments data cfg) = data"
  by (simp add: fragments_def chunks_concat)

lemma send_log:
  "case send_possibly_fragmented data cfg idle (ws, []) of (r, ws', log) \<Rightarrow> sent r (fragments data cfg) (segments [] log)"
  using write_progress_bounded_log [of data idle ws "[]"] send_chunks_log [of "fragments data cfg" cfg idle ws "[]"] delivered_segments
  by (auto simp: send_possibly_fragmented_def fragments_def split: prod.splits)

text \<open>C15: However the writer splits its answers and wherever the send ends, the bytes on the wire are a prefix
  of the data, never repeated, and the flushes stand exactly at the fragment boundaries: the finished segments
  are the first fragments, all of them on success. The fragments make up the data, and for a ClientHello with
  fragmentation enabled none is longer than the configured size.\<close>

theorem send_flushes_at_fragment_boundaries:
  "(case send_possibly_fragmented data cfg idle (ws, []) of (r, ws', log) \<Rightarrow> sent r (fragments data cfg) (segments [] log)) \<and>
   concat (fragments data cfg) = data \<and>
   (if fs_enabled cfg \<and> is_tls_client_hello data
    then list_all (\<lambda>f. length f \<le> max (fragment_size cfg) 1) (fragments data cfg) else fragments data cfg = [data])"
  using send_log by (auto simp: fragments_def chunks_concat list_all_iff dest: chunks_length)

subsection \<open>A slow writer is not cut off\<close>

text \<open>Windows in which the writer accepts something, or confirms something underneath.\<close>

fun steady :: "window \<Rightarrow> bool" where
  "steady (Window rs (Some (Ok n))) = (0 < n)"
| "steady (Window rs (Some (Err e))) = False"
| "steady (Window rs None) = (0 < sum_list (map unat rs))"

definition confirmed :: "window list \<Rightarrow> nat" where
  "confirmed ws = sum_list (map (\<lambda>w. sum_list (map unat (reports w))) ws)"

definition answered :: "window list \<Rightarrow> nat" where
  "answered ws = length (filter (\<lambda>w. answer w \<noteq> None) ws)"

lemma unat_foldl_record:
  "unat p + sum_list (map unat rs) < 2 ^ 64 \<Longrightarrow> unat (foldl progress_record p rs) = unat p + sum_list (map unat rs)"
proof (induction rs arbitrary: p)
  case (Cons r rs)
  have "unat (progress_record p r) = unat p + unat r"
    using Cons.prems by (auto simp: progress_record_def unat_word_ariths)
  then show ?case using Cons by simp
qed simp

lemma steady_cases:
  assumes "steady w"
  obtains (answered) n where "answer w = Some (Ok n)" "0 < n" | (waiting) "answer w = None" "0 < sum_list (map unat (reports w))"
  using assms by (cases w rule: steady.cases) auto

lemma steady_window:
  assumes "steady w" "unat p + confirmed (w # ws) < 2 ^ 64"
  shows "unat (foldl progress_record p (reports w)) + confirmed ws < 2 ^ 64"
    and "answer w = None \<Longrightarrow> p < foldl progress_record p (reports w)"
proof -
  have t: "unat (foldl progress_record p (reports w)) = unat p + sum_list (map unat (reports w))"
    by (rule unat_foldl_record) (use assms(2) in \<open>simp add: confirmed_def\<close>)
  then show "unat (foldl progress_record p (reports w)) + confirmed ws < 2 ^ 64" using assms(2) by (simp add: confirmed_def)
  show "answer w = None \<Longrightarrow> p < foldl progress_record p (reports w)"
    using t assms(1) by (cases w rule: steady.cases) (auto simp: word_less_nat_alt)
qed

lemma write_bounded_steady:
  assumes "list_all steady ws" "unat p + confirmed ws < 2 ^ 64" "0 < answered ws" "buf \<noteq> []"
  obtains n p' ws' where "write_bounded_by_confirmed_progress buf p ws = (Some (Ok (Some n)), p', ws')"
    "0 < n" "n \<le> length buf" "list_all steady ws'" "unat p' + confirmed ws' < 2 ^ 64" "answered ws = Suc (answered ws')"
  using assms
proof (induction ws arbitrary: p thesis)
  case (Cons w ws)
  have s: "steady w" "list_all steady ws" using Cons.prems by auto
  define p' where "p' = foldl progress_record p (reports w)"
  have b: "unat p' + confirmed ws < 2 ^ 64" "answer w = None \<Longrightarrow> p < p'"
    unfolding p'_def using steady_window [OF s(1) Cons.prems(3)] by blast+
  show ?case
  proof (cases rule: steady_cases [OF s(1)])
    case (1 n)
    have "write_bounded_by_confirmed_progress buf p (w # ws) = (Some (Ok (Some (min n (length buf)))), p', ws)"
      using 1 by (simp add: p'_def Let_def)
    then show ?thesis
      by (rule Cons.prems(1)) (use 1 s b Cons.prems in \<open>auto simp: answered_def\<close>)
  next
    case 2
    then have "p < p'" using b by blast
    then have "write_bounded_by_confirmed_progress buf p (w # ws) = write_bounded_by_confirmed_progress buf p' ws"
      using 2 by (simp add: p'_def Let_def progress_total_def)
    then show ?thesis using Cons.IH [of p'] Cons.prems s b 2 by (auto simp: answered_def)
  qed
qed (simp add: answered_def)

lemma flush_bounded_steady:
  assumes "list_all steady ws" "unat p + confirmed ws < 2 ^ 64" "0 < answered ws"
  obtains p' ws' where "flush_bounded_by_confirmed_progress p ws = (Some (Ok Completed), p', ws')"
    "list_all steady ws'" "confirmed ws' < 2 ^ 64" "answered ws = Suc (answered ws')"
  using assms
proof (induction ws arbitrary: p thesis)
  case (Cons w ws)
  have s: "steady w" "list_all steady ws" using Cons.prems by auto
  define p' where "p' = foldl progress_record p (reports w)"
  have b: "unat p' + confirmed ws < 2 ^ 64" "answer w = None \<Longrightarrow> p < p'"
    unfolding p'_def using steady_window [OF s(1) Cons.prems(3)] by blast+
  show ?case
  proof (cases rule: steady_cases [OF s(1)])
    case (1 n)
    have "flush_bounded_by_confirmed_progress p (w # ws) = (Some (Ok Completed), p', ws)"
      using 1 by (simp add: p'_def Let_def)
    then show ?thesis
      by (rule Cons.prems(1)) (use 1 s b Cons.prems in \<open>auto simp: answered_def\<close>)
  next
    case 2
    then have "p < p'" using b by blast
    then have "flush_bounded_by_confirmed_progress p (w # ws) = flush_bounded_by_confirmed_progress p' ws"
      using 2 by (simp add: p'_def Let_def progress_total_def)
    then show ?thesis using Cons.IH [of p'] Cons.prems s b 2 by (auto simp: answered_def)
  qed
qed (simp add: answered_def)

lemma write_loop_steady:
  assumes "list_all steady ws" "unat p + confirmed ws < 2 ^ 64" "length buf - k < answered ws"
  obtains ws' log' where "write_loop buf k p (ws, log) = (Some (Ok Completed), ws', log')"
    "list_all steady ws'" "confirmed ws' < 2 ^ 64" "answered ws \<le> answered ws' + (length buf - k) + 1"
  using assms
proof (induction "length buf - k" arbitrary: k p ws log thesis rule: less_induct)
  case less
  show ?case
  proof (cases "k < length buf")
    case True
    then have "drop k buf \<noteq> []" "0 < answered ws" using less.prems(4) by auto
    then obtain n p' vs where w: "write_bounded_by_confirmed_progress (drop k buf) p ws = (Some (Ok (Some n)), p', vs)"
        "0 < n" "n \<le> length buf - k" "list_all steady vs" "unat p' + confirmed vs < 2 ^ 64" "answered ws = Suc (answered vs)"
      using write_bounded_steady [OF less.prems(2,3), of "drop k buf"] by auto
    have d: "length buf - (k + n) < length buf - k" "length buf - (k + n) < answered vs" using True w less.prems(4) by auto
    obtain ws' log' where "write_loop buf (k + n) p' (vs, log @ [Wrote (take n (drop k buf))]) = (Some (Ok Completed), ws', log')"
        "list_all steady ws'" "confirmed ws' < 2 ^ 64" "answered vs \<le> answered ws' + (length buf - (k + n)) + 1"
      by (rule less.hyps [OF d(1) _ w(4,5) d(2)])
    then show ?thesis using write_loop_more [OF True w(1), of log] w less.prems(1) by simp
  next
    case False
    then obtain p' ws' where f: "flush_bounded_by_confirmed_progress p ws = (Some (Ok Completed), p', ws')"
        "list_all steady ws'" "confirmed ws' < 2 ^ 64" "answered ws = Suc (answered ws')"
      using flush_bounded_steady [OF less.prems(2,3)] less.prems(4) by auto
    then show ?thesis using write_loop_end [OF False, of p ws log] less.prems(1) by simp
  qed
qed

lemma steady_answer:
  assumes "list_all steady ws" "0 < answered ws"
  obtains w vs n where "dropWhile (\<lambda>w. answer w = None) ws = w # vs" "the (answer w) = Ok n" "0 < n"
    "list_all steady vs" "confirmed vs \<le> confirmed ws" "answered ws = Suc (answered vs)"
  using assms
proof (induction ws arbitrary: thesis)
  case (Cons w ws)
  then have s: "steady w" "list_all steady ws" by auto
  show ?case
  proof (cases rule: steady_cases [OF s(1)])
    case (1 n)
    then show ?thesis using Cons.prems(1) [of w ws n] s by (simp add: confirmed_def answered_def)
  next
    case 2
    then have "0 < answered ws" using Cons.prems(3) by (simp add: answered_def)
    then obtain v vs n where v: "dropWhile (\<lambda>w. answer w = None) ws = v # vs" "the (answer v) = Ok n" "0 < n"
        "list_all steady vs" "confirmed vs \<le> confirmed ws" "answered ws = Suc (answered vs)"
      using Cons.IH [OF _ s(2)] by blast
    show ?thesis by (rule Cons.prems(1)) (use v 2 in \<open>simp_all add: answered_def confirmed_def\<close>)
  qed
qed (simp add: answered_def)

lemma write_all_loop_steady:
  assumes "list_all steady ws" "length buf < answered ws"
  obtains ws' log' where "write_all_loop buf (ws, log) = (Some (Ok Completed), ws', log')"
    "list_all steady ws'" "confirmed ws' \<le> confirmed ws" "answered ws \<le> answered ws' + length buf + 1"
  using assms
proof (induction "length buf" arbitrary: buf ws log thesis rule: less_induct)
  case less
  obtain w vs n where w: "dropWhile (\<lambda>w. answer w = None) ws = w # vs" "the (answer w) = Ok n" "0 < n"
      "list_all steady vs" "confirmed vs \<le> confirmed ws" "answered ws = Suc (answered vs)"
    by (rule steady_answer [OF less.prems(2)]) (use less.prems(3) in auto)
  let ?n = "min n (length buf)"
  show ?case
  proof (cases "buf = []")
    case True
    then have "write_all_loop buf (ws, log) = (Some (Ok Completed), vs, log @ [Flushed])"
      by (subst write_all_loop.simps) (simp only: w(1,2) list.case sum.case if_True simp_thms)
    then show ?thesis by (rule less.prems(1)) (use w in auto)
  next
    case False
    have n: "?n \<noteq> 0" using False w(3) by simp
    have step: "write_all_loop buf (ws, log) = write_all_loop (drop ?n buf) (vs, log @ [Wrote (take ?n buf)])"
      by (subst write_all_loop.simps) (simp only: w(1,2) list.case sum.case False n if_False)
    have d: "length (drop ?n buf) < length buf" "length (drop ?n buf) < answered vs"
      using n w(6) less.prems(3) False length_greater_0_conv [of buf] by (simp_all only: length_drop)
    obtain ws' log' where "write_all_loop (drop ?n buf) (vs, log @ [Wrote (take ?n buf)]) = (Some (Ok Completed), ws', log')"
        "list_all steady ws'" "confirmed ws' \<le> confirmed vs" "answered vs \<le> answered ws' + length (drop ?n buf) + 1"
      by (rule less.hyps [OF d(1) _ w(4) d(2)])
    then show ?thesis using less.prems(1) [of ws' log'] step w(5,6) d(1) by simp
  qed
qed

lemma write_progress_bounded_steady:
  assumes "list_all steady ws" "confirmed ws < 2 ^ 64" "length buf < answered ws"
  obtains ws' log' where "write_progress_bounded buf idle (ws, log) = (Some (Ok Completed), ws', log')"
    "list_all steady ws'" "confirmed ws' < 2 ^ 64" "answered ws \<le> answered ws' + length buf + 1"
proof (cases "idle = 0")
  case True
  obtain ws' log' where "write_all_loop buf (ws, log) = (Some (Ok Completed), ws', log')"
      "list_all steady ws'" "confirmed ws' \<le> confirmed ws" "answered ws \<le> answered ws' + length buf + 1"
    by (rule write_all_loop_steady [OF assms(1,3)])
  then show thesis using that [of ws' log'] True assms(2) by (simp add: write_progress_bounded_def)
next
  case False
  obtain ws' log' where "write_loop buf 0 progress_new (ws, log) = (Some (Ok Completed), ws', log')"
      "list_all steady ws'" "confirmed ws' < 2 ^ 64" "answered ws \<le> answered ws' + (length buf - 0) + 1"
    by (rule write_loop_steady [of ws progress_new buf 0 log]) (use assms in \<open>simp_all add: progress_new_def\<close>)
  then show thesis using that [of ws' log'] False by (simp add: write_progress_bounded_def)
qed

lemma send_chunks_steady:
  assumes "list_all steady ws" "confirmed ws < 2 ^ 64" "length (concat cs) + length cs \<le> answered ws"
  shows "fst (send_chunks cs cfg idle (ws, log)) = Some (Ok Completed)"
  using assms
proof (induction cs arbitrary: ws log)
  case (Cons c cs)
  obtain ws' log' where w: "write_progress_bounded c idle (ws, log) = (Some (Ok Completed), ws', log')"
      "list_all steady ws'" "confirmed ws' < 2 ^ 64" "answered ws \<le> answered ws' + length c + 1"
    by (rule write_progress_bounded_steady [OF Cons.prems(1,2), of c idle log]) (use Cons.prems(3) in auto)
  then show ?case using Cons.IH [OF w(2,3)] Cons.prems(3) by simp
qed simp

text \<open>C16: A writer that keeps accepting or confirming bytes is never given up, however slowly it does so: when
  every idle window either ends with an accepted write or had bytes confirmed underneath, the send completes
  within as many accepted operations as the data has bytes and fragments.\<close>

theorem steady_writer_completes:
  assumes "list_all steady ws" "confirmed ws < 2 ^ 64" "length data + length (fragments data cfg) \<le> answered ws"
  shows "fst (send_possibly_fragmented data cfg idle (ws, log)) = Some (Ok Completed)"
proof (cases "fs_enabled cfg \<and> is_tls_client_hello data")
  case True
  then show ?thesis using send_chunks_steady [OF assms(1,2), of "fragments data cfg"] assms(3) fragments_concat [of data cfg]
    by (simp add: send_possibly_fragmented_def fragments_def)
next
  case False
  obtain ws' log' where "write_progress_bounded data idle (ws, log) = (Some (Ok Completed), ws', log')"
    by (rule write_progress_bounded_steady [OF assms(1,2), of data idle log]) (use False assms(3) in \<open>auto simp: fragments_def\<close>)
  then show ?thesis using False by (auto simp: send_possibly_fragmented_def)
qed

theorem steady_writer_completes_witness:
  "fst (send_possibly_fragmented [0x16, 3, 1, 0, 1, 1] \<lparr>fs_enabled = True, fragment_size = 4, delay_ms = 5\<rparr> 100
     (Window [7] None # replicate 8 (Window [] (Some (Ok 1))), [])) = Some (Ok Completed)"
proof (rule steady_writer_completes)
  have "fragments [0x16, 3, 1, 0, 1, 1] \<lparr>fs_enabled = True, fragment_size = 4, delay_ms = 5\<rparr> = [[0x16, 3, 1, 0], [1, 1]]"
    by (simp add: fragments_def is_tls_client_hello_def classify_client_hello_def chunks.simps)
  then show "length [0x16, 3, 1, 0, 1, 1 :: byte] + length (fragments [0x16, 3, 1, 0, 1, 1] \<lparr>fs_enabled = True, fragment_size = 4, delay_ms = 5\<rparr>)
      \<le> answered (Window [7] None # replicate 8 (Window [] (Some (Ok 1))))"
    by (simp add: answered_def filter_replicate)
qed (simp_all add: confirmed_def sum_list_replicate list_all_iff)

end
