(* ===== verification/Tunnel.thy ===== *)
theory Tunnel
  imports TlsFragment
begin

text \<open>
  The bidirectional copy with its deadlines, \<open>connect/tunnel/mod.rs\<close> and \<open>connect/tunnel/tracked.rs\<close>. The copy
  itself is the runtime's; what one poll of it does with the two streams is a list of operations with their
  results. The time of a poll is read once. The idle timer is not moved by activity: it is only set again when
  it fires, to the last activity plus the idle time.
\<close>

datatype tunnel_end = TunnelEof | IdleTimeout | LifetimeTimeout

record tunnel_outcome =
  to_end :: tunnel_end
  to_a_to_b :: u64
  to_b_to_a :: u64

subsection \<open>Tracked streams\<close>

record activity =
  act_epoch :: instant
  act_nanos :: u64

definition activity_record :: "instant \<Rightarrow> activity \<Rightarrow> activity" where
  "activity_record now a = a\<lparr>act_nanos := of_nat (min (now - act_epoch a) (2 ^ 64 - 1))\<rparr>"

record tunnel =
  tn_activity :: activity
  tn_confirmed :: flush_progress
  tn_a_to_b :: u64
  tn_b_to_a :: u64
  tn_idle_at :: instant
  tn_lifetime_at :: instant
  tn_shutdowns :: nat

text \<open>One poll of a stream: a read with the number of bytes it gave, a write to \<open>b\<close> or to \<open>a\<close>, with the bytes
  confirmed inside the writer and the number accepted, a flush or a shutdown.\<close>

datatype stream_op = ReadOp nat | WriteToB "u64 list" "nat option" | WriteToA "u64 list" "nat option" | FlushOp "u64 list"

definition note_activity :: "bool \<Rightarrow> instant \<Rightarrow> tunnel \<Rightarrow> tunnel" where
  "note_activity p now y = (if p then y\<lparr>tn_activity := activity_record now (tn_activity y)\<rparr> else y)"

definition accepted :: "nat option \<Rightarrow> u64" where
  "accepted r = (case r of Some n \<Rightarrow> of_nat n | None \<Rightarrow> 0)"

definition tracked_write :: "instant \<Rightarrow> u64 list \<Rightarrow> nat option \<Rightarrow> tunnel \<Rightarrow> tunnel" where
  "tracked_write now reps r y =
     (let confirmed_before = progress_total (tn_confirmed y);
          p = foldl progress_record (tn_confirmed y) reps
      in note_activity ((\<exists>n > 0. r = Some n) \<or> progress_total p > confirmed_before) now (y\<lparr>tn_confirmed := p\<rparr>))"

fun tracked_poll :: "instant \<Rightarrow> stream_op \<Rightarrow> tunnel \<Rightarrow> tunnel" where
  "tracked_poll now (ReadOp n) y = note_activity (0 < n) now y"
| "tracked_poll now (WriteToB reps r) y = tracked_write now reps r (y\<lparr>tn_a_to_b := tn_a_to_b y + accepted r\<rparr>)"
| "tracked_poll now (WriteToA reps r) y = tracked_write now reps r (y\<lparr>tn_b_to_a := tn_b_to_a y + accepted r\<rparr>)"
| "tracked_poll now (FlushOp reps) y = tracked_write now reps None y"

subsection \<open>The loop\<close>

definition tunnel_start :: "instant \<Rightarrow> instant \<Rightarrow> duration \<Rightarrow> duration \<Rightarrow> tunnel" where
  "tunnel_start epoch start idle max_lifetime =
     \<lparr>tn_activity = \<lparr>act_epoch = epoch, act_nanos = 0\<rparr>, tn_confirmed = progress_new, tn_a_to_b = 0, tn_b_to_a = 0,
      tn_idle_at = start + idle, tn_lifetime_at = start + max_lifetime, tn_shutdowns = 0\<rparr>"

definition outcome_at :: "tunnel_end \<Rightarrow> tunnel \<Rightarrow> tunnel_outcome" where
  "outcome_at e y = \<lparr>to_end = e, to_a_to_b = tn_a_to_b y, to_b_to_a = tn_b_to_a y\<rparr>"

text \<open>A deadline closes both streams with one attempt each.\<close>

definition tear_down :: "tunnel_end \<Rightarrow> tunnel \<Rightarrow> (io_error + tunnel_outcome) option \<times> tunnel" where
  "tear_down e y = (Some (Ok (outcome_at e y)), y\<lparr>tn_shutdowns := tn_shutdowns y + 2\<rparr>)"

text \<open>A poll of the copy: its operations, and its result when it has ended.\<close>

type_synonym transfer = "stream_op list \<times> (io_error + unit) option"

definition poll_transfer :: "instant \<Rightarrow> transfer \<Rightarrow> tunnel \<Rightarrow> (io_error + tunnel_outcome) option \<times> tunnel" where
  "poll_transfer now t y =
     (let y' = fold (tracked_poll now) (fst t) y
      in case snd t of
           None \<Rightarrow> (None, y')
         | Some (Err e) \<Rightarrow> (Some (Err e), y')
         | Some (Ok _) \<Rightarrow> (Some (Ok (outcome_at TunnelEof y')), y'))"

definition last_activity :: "tunnel \<Rightarrow> instant" where
  "last_activity y = act_epoch (tn_activity y) + unat (act_nanos (tn_activity y))"

definition tunnel_poll :: "duration \<Rightarrow> duration \<Rightarrow> instant \<Rightarrow> transfer \<Rightarrow> tunnel \<Rightarrow> (io_error + tunnel_outcome) option \<times> tunnel" where
  "tunnel_poll idle max_lifetime now t y =
     (if max_lifetime \<noteq> 0 \<and> tn_lifetime_at y \<le> now then tear_down LifetimeTimeout y
      else if idle \<noteq> 0 \<and> tn_idle_at y \<le> now then
        (let deadline = last_activity y + idle
         in if deadline \<le> now then tear_down IdleTimeout y
            else poll_transfer now t (y\<lparr>tn_idle_at := deadline\<rparr>))
      else poll_transfer now t y)"

fun tunnel_with_timeouts :: "duration \<Rightarrow> duration \<Rightarrow> (instant \<times> transfer) list \<Rightarrow> tunnel \<Rightarrow> (io_error + tunnel_outcome) option \<times> tunnel" where
  "tunnel_with_timeouts idle max_lifetime [] y = (None, y)"
| "tunnel_with_timeouts idle max_lifetime ((now, t) # ps) y =
     (case tunnel_poll idle max_lifetime now t y of
        (Some r, y') \<Rightarrow> (Some r, y')
      | (None, y') \<Rightarrow> tunnel_with_timeouts idle max_lifetime ps y')"

subsection \<open>The deadlines\<close>

text \<open>What the documentation promises, without timers: time since the last byte moved.\<close>

fun moves :: "stream_op \<Rightarrow> bool" where
  "moves (ReadOp n) \<longleftrightarrow> 0 < n"
| "moves (WriteToB reps r) \<longleftrightarrow> (\<exists>n > 0. r = Some n) \<or> (\<exists>k \<in> set reps. k \<noteq> 0)"
| "moves (WriteToA reps r) \<longleftrightarrow> (\<exists>n > 0. r = Some n) \<or> (\<exists>k \<in> set reps. k \<noteq> 0)"
| "moves (FlushOp reps) \<longleftrightarrow> (\<exists>k \<in> set reps. k \<noteq> 0)"

fun to_b :: "stream_op \<Rightarrow> nat" where
  "to_b (WriteToB _ (Some n)) = n"
| "to_b _ = 0"

fun to_a :: "stream_op \<Rightarrow> nat" where
  "to_a (WriteToA _ (Some n)) = n"
| "to_a _ = 0"

fun confirms :: "stream_op \<Rightarrow> nat" where
  "confirms (WriteToB reps _) = sum_list (map unat reps)"
| "confirms (WriteToA reps _) = sum_list (map unat reps)"
| "confirms (FlushOp reps) = sum_list (map unat reps)"
| "confirms (ReadOp _) = 0"

fun tunnel_spec ::
  "duration \<Rightarrow> duration \<Rightarrow> instant \<Rightarrow> (instant \<times> transfer) list \<Rightarrow> instant \<Rightarrow> nat \<Rightarrow> nat \<Rightarrow> (io_error + tunnel_outcome) option" where
  "tunnel_spec idle life start [] lst ab ba = None"
| "tunnel_spec idle life start ((now, t) # ps) lst ab ba =
     (let outcome = (\<lambda>e ab ba. Some (Ok \<lparr>to_end = e, to_a_to_b = of_nat ab, to_b_to_a = of_nat ba\<rparr>));
          ab' = ab + sum_list (map to_b (fst t)); ba' = ba + sum_list (map to_a (fst t))
      in if life \<noteq> 0 \<and> start + life \<le> now then outcome LifetimeTimeout ab ba
         else if idle \<noteq> 0 \<and> lst + idle \<le> now then outcome IdleTimeout ab ba
         else case snd t of
                Some (Err e) \<Rightarrow> Some (Err e)
              | Some (Ok _) \<Rightarrow> outcome TunnelEof ab' ba'
              | None \<Rightarrow> tunnel_spec idle life start ps (if list_ex moves (fst t) then now else lst) ab' ba')"

lemma confirmed_grows:
  assumes "unat p + sum_list (map unat reps) < 2 ^ 64"
  shows "unat (foldl progress_record p reps) = unat p + sum_list (map unat reps)"
    and "progress_total (foldl progress_record p reps) > progress_total p \<longleftrightarrow> (\<exists>k \<in> set reps. k \<noteq> 0)"
proof -
  show u: "unat (foldl progress_record p reps) = unat p + sum_list (map unat reps)"
    by (rule unat_foldl_record [OF assms])
  have "0 < sum_list (map unat reps) \<longleftrightarrow> (\<exists>k \<in> set reps. k \<noteq> 0)"
    by (induction reps) (auto simp: unat_gt_0)
  then show "progress_total (foldl progress_record p reps) > progress_total p \<longleftrightarrow> (\<exists>k \<in> set reps. k \<noteq> 0)"
    by (simp add: progress_total_def word_less_nat_alt u)
qed

lemma tracked_poll_effect:
  assumes "unat (tn_confirmed y) + confirms op < 2 ^ 64"
  shows "\<exists>p. tracked_poll now op y = y\<lparr>tn_activity := (if moves op then activity_record now (tn_activity y) else tn_activity y), tn_confirmed := p,
      tn_a_to_b := tn_a_to_b y + of_nat (to_b op), tn_b_to_a := tn_b_to_a y + of_nat (to_a op)\<rparr> \<and>
    unat p = unat (tn_confirmed y) + confirms op"
proof (cases op)
  case (ReadOp n)
  then show ?thesis by (auto simp: note_activity_def intro!: exI [of _ "tn_confirmed y"])
next
  case (WriteToB reps r)
  then show ?thesis using confirmed_grows [of "tn_confirmed y" reps] assms
    by (intro exI [of _ "foldl progress_record (tn_confirmed y) reps"]) (cases r, auto simp: tracked_write_def note_activity_def accepted_def Let_def)
next
  case (WriteToA reps r)
  then show ?thesis using confirmed_grows [of "tn_confirmed y" reps] assms
    by (intro exI [of _ "foldl progress_record (tn_confirmed y) reps"]) (cases r, auto simp: tracked_write_def note_activity_def accepted_def Let_def)
next
  case (FlushOp reps)
  then show ?thesis using confirmed_grows [of "tn_confirmed y" reps] assms
    by (intro exI [of _ "foldl progress_record (tn_confirmed y) reps"]) (auto simp: tracked_write_def note_activity_def Let_def)
qed

lemma activity_record_twice [simp]: "activity_record now (activity_record now a) = activity_record now a"
  by (simp add: activity_record_def)

lemma tracked_polls_effect:
  assumes "unat (tn_confirmed y) + sum_list (map confirms ops) < 2 ^ 64"
  shows "\<exists>p. fold (tracked_poll now) ops y =
      y\<lparr>tn_activity := (if list_ex moves ops then activity_record now (tn_activity y) else tn_activity y), tn_confirmed := p,
        tn_a_to_b := tn_a_to_b y + of_nat (sum_list (map to_b ops)), tn_b_to_a := tn_b_to_a y + of_nat (sum_list (map to_a ops))\<rparr> \<and>
    unat p = unat (tn_confirmed y) + sum_list (map confirms ops)"
  using assms
proof (induction ops arbitrary: y)
  case (Cons op ops)
  obtain p where p: "tracked_poll now op y = y\<lparr>tn_activity := (if moves op then activity_record now (tn_activity y) else tn_activity y), tn_confirmed := p,
      tn_a_to_b := tn_a_to_b y + of_nat (to_b op), tn_b_to_a := tn_b_to_a y + of_nat (to_a op)\<rparr>" "unat p = unat (tn_confirmed y) + confirms op"
    using tracked_poll_effect [of y op now] Cons.prems by auto
  from Cons.IH [of "tracked_poll now op y"] Cons.prems p show ?case by (auto simp: algebra_simps)
qed (auto intro!: exI [of _ "tn_confirmed y" for y])

definition tunnel_inv :: "duration \<Rightarrow> duration \<Rightarrow> instant \<Rightarrow> instant \<Rightarrow> nat \<Rightarrow> nat \<Rightarrow> tunnel \<Rightarrow> bool" where
  "tunnel_inv idle life start lst ab ba y \<longleftrightarrow>
     act_epoch (tn_activity y) \<le> start \<and> lst = max start (last_activity y) \<and> tn_lifetime_at y = start + life \<and>
     start + idle \<le> tn_idle_at y \<and> (tn_idle_at y = start + idle \<or> tn_idle_at y \<le> last_activity y + idle) \<and>
     tn_a_to_b y = of_nat ab \<and> tn_b_to_a y = of_nat ba"

lemma idle_deadline:
  assumes "tunnel_inv idle life start lst ab ba y"
  shows "tn_idle_at y \<le> now \<and> last_activity y + idle \<le> now \<longleftrightarrow> lst + idle \<le> now"
  using assms by (auto simp: tunnel_inv_def max_def split: if_splits)

lemma tunnel_inv_transfer:
  assumes "tunnel_inv idle life start lst ab ba y" "unat (tn_confirmed y) + sum_list (map confirms ops) < 2 ^ 64"
    and "lst \<le> now" "now < act_epoch (tn_activity y) + 2 ^ 64"
  shows "tunnel_inv idle life start (if list_ex moves ops then now else lst) (ab + sum_list (map to_b ops)) (ba + sum_list (map to_a ops))
      (fold (tracked_poll now) ops y)"
    and "unat (tn_confirmed (fold (tracked_poll now) ops y)) = unat (tn_confirmed y) + sum_list (map confirms ops)"
    and "act_epoch (tn_activity (fold (tracked_poll now) ops y)) = act_epoch (tn_activity y)"
proof -
  obtain p where p: "fold (tracked_poll now) ops y =
      y\<lparr>tn_activity := (if list_ex moves ops then activity_record now (tn_activity y) else tn_activity y), tn_confirmed := p,
        tn_a_to_b := tn_a_to_b y + of_nat (sum_list (map to_b ops)), tn_b_to_a := tn_b_to_a y + of_nat (sum_list (map to_a ops))\<rparr>"
    "unat p = unat (tn_confirmed y) + sum_list (map confirms ops)" using tracked_polls_effect [OF assms(2)] by blast
  then show "unat (tn_confirmed (fold (tracked_poll now) ops y)) = unat (tn_confirmed y) + sum_list (map confirms ops)"
    "act_epoch (tn_activity (fold (tracked_poll now) ops y)) = act_epoch (tn_activity y)" by (simp_all add: activity_record_def)
  have "unat (of_nat (min (now - act_epoch (tn_activity y)) (2 ^ 64 - 1)) :: u64) = now - act_epoch (tn_activity y)"
    using assms(4) by (simp add: unat_of_nat)
  then show "tunnel_inv idle life start (if list_ex moves ops then now else lst) (ab + sum_list (map to_b ops)) (ba + sum_list (map to_a ops))
      (fold (tracked_poll now) ops y)"
    using assms(1,3) by (auto simp: p(1) tunnel_inv_def last_activity_def activity_record_def)
qed

lemma tunnel_run_exact:
  assumes "tunnel_inv idle life start lst ab ba y" "sorted (lst # map fst ps)" "\<forall>p \<in> set ps. fst p < act_epoch (tn_activity y) + 2 ^ 64"
    and "unat (tn_confirmed y) + sum_list (map (\<lambda>p. sum_list (map confirms (fst (snd p)))) ps) < 2 ^ 64" "tn_shutdowns y = 0"
  shows "fst (tunnel_with_timeouts idle life ps y) = tunnel_spec idle life start ps lst ab ba \<and>
    (\<forall>r. fst (tunnel_with_timeouts idle life ps y) = Some (Ok r) \<and> to_end r \<noteq> TunnelEof \<longrightarrow> tn_shutdowns (snd (tunnel_with_timeouts idle life ps y)) = 2)"
  using assms
proof (induction ps arbitrary: y lst ab ba)
  case (Cons p ps)
  obtain now ops res where p: "p = (now, ops, res)" by (cases p)
  let ?late = "life \<noteq> 0 \<and> start + life \<le> now" let ?idle = "idle \<noteq> 0 \<and> lst + idle \<le> now"
  have counters: "outcome_at e y = \<lparr>to_end = e, to_a_to_b = of_nat ab, to_b_to_a = of_nat ba\<rparr>" "tn_lifetime_at y = start + life" for e
    using Cons.prems(1) by (simp_all add: outcome_at_def tunnel_inv_def)
  note dl = idle_deadline [OF Cons.prems(1), of now]
  show ?case
  proof (cases "?late \<or> ?idle")
    case True
    then show ?thesis using dl counters Cons.prems(5) by (auto simp: p tunnel_poll_def tear_down_def Let_def)
  next
    case False
    define x where "x = (if idle \<noteq> 0 \<and> tn_idle_at y \<le> now then y\<lparr>tn_idle_at := last_activity y + idle\<rparr> else y)"
    have x: "tunnel_inv idle life start lst ab ba x" "tn_activity x = tn_activity y" "tn_confirmed x = tn_confirmed y" "tn_shutdowns x = 0"
      using Cons.prems(1,5) False dl by (auto simp: x_def tunnel_inv_def last_activity_def)
    have poll: "tunnel_poll idle life now (ops, res) y = poll_transfer now (ops, res) x"
      using False dl counters(2) by (auto simp: tunnel_poll_def x_def Let_def)
    let ?z = "fold (tracked_poll now) ops x"
    have c: "unat (tn_confirmed x) + sum_list (map confirms ops) < 2 ^ 64" "lst \<le> now" "now < act_epoch (tn_activity x) + 2 ^ 64"
      using Cons.prems(2-4) by (auto simp: x(2,3) p)
    note z = tunnel_inv_transfer [OF x(1) c]
    have shut: "tn_shutdowns ?z = 0"
      using tracked_polls_effect [OF c(1), of now] x(4) by auto
    show ?thesis
    proof (cases res)
      case None
      have "fst (tunnel_with_timeouts idle life ps ?z) = tunnel_spec idle life start ps (if list_ex moves ops then now else lst)
          (ab + sum_list (map to_b ops)) (ba + sum_list (map to_a ops)) \<and>
        (\<forall>r. fst (tunnel_with_timeouts idle life ps ?z) = Some (Ok r) \<and> to_end r \<noteq> TunnelEof \<longrightarrow> tn_shutdowns (snd (tunnel_with_timeouts idle life ps ?z)) = 2)"
        by (rule Cons.IH [OF z(1)]) (use Cons.prems(2-4) c z(2,3) x(2,3) shut p in \<open>auto simp: algebra_simps\<close>)
      then show ?thesis using None False poll by (auto simp: p poll_transfer_def Let_def)
    next
      case (Some r)
      then show ?thesis using False poll z(1) by (cases r) (auto simp: p poll_transfer_def Let_def outcome_at_def tunnel_inv_def)
    qed
  qed
qed simp

text \<open>
  C32: the deadlines of a tunnel are exact although its idle timer is never moved by activity. In every sequence of
  polls the tunnel ends as the rule without timers says: by the lifetime at the first poll at or after its end, by
  idleness at the first poll at or after the idle time since the last byte moved in either direction, confirmed
  inside a writer counting as moved, and otherwise when the copy ends; a zero time disables its deadline. The
  reported counts are the bytes the destinations accepted, and a deadline shuts down both streams once.
\<close>

theorem tunnel_deadlines_are_exact:
  assumes "epoch \<le> start" "sorted (start # map fst ps)" "\<forall>p \<in> set ps. fst p < epoch + 2 ^ 64"
    and "sum_list (map (\<lambda>p. sum_list (map confirms (fst (snd p)))) ps) < 2 ^ 64"
  shows "fst (tunnel_with_timeouts idle life ps (tunnel_start epoch start idle life)) = tunnel_spec idle life start ps start 0 0 \<and>
    (\<forall>r. fst (tunnel_with_timeouts idle life ps (tunnel_start epoch start idle life)) = Some (Ok r) \<and> to_end r \<noteq> TunnelEof \<longrightarrow>
       tn_shutdowns (snd (tunnel_with_timeouts idle life ps (tunnel_start epoch start idle life))) = 2)"
  by (rule tunnel_run_exact) (use assms in \<open>simp_all add: tunnel_inv_def tunnel_start_def last_activity_def progress_new_def\<close>)

subsection \<open>Witness\<close>

text \<open>Idle time 10: bytes move at 8 and, inside the writer only, at 15; the timer fires at 10 and at 18 and is set again,
  and the tunnel ends at 26, eleven after the last byte.\<close>

theorem tunnel_deadlines_are_exact_witness:
  "fst (tunnel_with_timeouts 10 0 [(8, [ReadOp 5, WriteToB [] (Some 5)], None), (10, [], None), (15, [FlushOp [3]], None), (18, [], None), (26, [], None)]
      (tunnel_start 0 0 10 0)) = Some (Ok \<lparr>to_end = IdleTimeout, to_a_to_b = 5, to_b_to_a = 0\<rparr>)"
  by (subst tunnel_deadlines_are_exact [THEN conjunct1]) simp_all

end
