(* ===== verification/Wire.thy ===== *)
theory Wire
  imports Utf8 ConnectError
begin

text \<open>
  Asynchronous stream code as programs over the operations of \<open>AsyncRead\<close> and \<open>AsyncWrite\<close>. A program
  is a tree: every \<open>.await\<close> is a node that names the operation and continues on its result, so every
  \<open>?\<close> of the sources is a branch. \<open>Ask\<close> is a question to the host (a credential check, whether the
  deadline has passed). Two readings of a program are used:

  \<^item> \<open>execution\<close>: all runs, with every result the operations may have, as a trace of events;
  \<^item> \<open>run_on\<close>: the run on one connection, whose incoming bytes arrive in given segments.
\<close>

datatype ('q, 'a) prog =
    Ret 'a
  | WriteAll bytes "io_error + unit \<Rightarrow> ('q, 'a) prog"
  | Flush "io_error + unit \<Rightarrow> ('q, 'a) prog"
  | Read nat "io_error + bytes \<Rightarrow> ('q, 'a) prog"
  | ReadExact nat "io_error + bytes \<Rightarrow> ('q, 'a) prog"
  | Peek nat "io_error + bytes \<Rightarrow> ('q, 'a) prog"
  | Ask 'q "bool \<Rightarrow> ('q, 'a) prog"

subsection \<open>The question-mark operator\<close>

definition write_flush :: "(io_error \<Rightarrow> 'e) \<Rightarrow> bytes \<Rightarrow> ('q, 'e + 'a) prog \<Rightarrow> ('q, 'e + 'a) prog" where
  "write_flush conv bs k =
     WriteAll bs (\<lambda>r. case r of Err e \<Rightarrow> Ret (Err (conv e)) | Ok _ \<Rightarrow>
     Flush (\<lambda>r. case r of Err e \<Rightarrow> Ret (Err (conv e)) | Ok _ \<Rightarrow> k))"

definition read_exact :: "(io_error \<Rightarrow> 'e) \<Rightarrow> nat \<Rightarrow> (bytes \<Rightarrow> ('q, 'e + 'a) prog) \<Rightarrow> ('q, 'e + 'a) prog" where
  "read_exact conv n k = ReadExact n (\<lambda>r. case r of Err e \<Rightarrow> Ret (Err (conv e)) | Ok bs \<Rightarrow> k bs)"

definition read_u8 :: "(io_error \<Rightarrow> 'e) \<Rightarrow> (byte \<Rightarrow> ('q, 'e + 'a) prog) \<Rightarrow> ('q, 'e + 'a) prog" where
  "read_u8 conv k = read_exact conv 1 (\<lambda>bs. k (bs ! 0))"

definition read_u16 :: "(io_error \<Rightarrow> 'e) \<Rightarrow> (u16 \<Rightarrow> ('q, 'e + 'a) prog) \<Rightarrow> ('q, 'e + 'a) prog" where
  "read_u16 conv k = read_exact conv 2 (\<lambda>bs. k (be16 (bs ! 0) (bs ! 1)))"

primrec prog_bind :: "('q, 'a) prog \<Rightarrow> ('a \<Rightarrow> ('q, 'b) prog) \<Rightarrow> ('q, 'b) prog" where
  "prog_bind (Ret a) f = f a"
| "prog_bind (WriteAll bs k) f = WriteAll bs (\<lambda>r. prog_bind (k r) f)"
| "prog_bind (Flush k) f = Flush (\<lambda>r. prog_bind (k r) f)"
| "prog_bind (Read n k) f = Read n (\<lambda>r. prog_bind (k r) f)"
| "prog_bind (ReadExact n k) f = ReadExact n (\<lambda>r. prog_bind (k r) f)"
| "prog_bind (Peek n k) f = Peek n (\<lambda>r. prog_bind (k r) f)"
| "prog_bind (Ask q k) f = Ask q (\<lambda>r. prog_bind (k r) f)"

text \<open>Continue with a result, or stop with an error.\<close>

definition bind_ok :: "('q, 'e + 'a) prog \<Rightarrow> ('a \<Rightarrow> ('q, 'e + 'b) prog) \<Rightarrow> ('q, 'e + 'b) prog" where
  "bind_ok p g = prog_bind p (\<lambda>r. case r of Err e \<Rightarrow> Ret (Err e) | Ok a \<Rightarrow> g a)"

lemma bind_ok_simps [simp]:
  "bind_ok (Ret (Ok a)) g = g a"
  "bind_ok (Ret (Err e)) g = Ret (Err e)"
  "bind_ok (Ask q f) g = Ask q (\<lambda>b. bind_ok (f b) g)"
  "bind_ok (Read n h) g = Read n (\<lambda>r. bind_ok (h r) g)"
  "bind_ok (write_flush conv bs k) g = write_flush conv bs (bind_ok k g)"
  "bind_ok (read_exact conv n f') g = read_exact conv n (\<lambda>bs. bind_ok (f' bs) g)"
  by (auto simp: bind_ok_def write_flush_def read_exact_def fun_eq_iff split: sum.splits)

subsection \<open>Programs that read exactly\<close>

primrec exact_only :: "('q, 'a) prog \<Rightarrow> bool" where
  "exact_only (Ret a) = True"
| "exact_only (WriteAll bs k) = (\<forall>r. exact_only (k r))"
| "exact_only (Flush k) = (\<forall>r. exact_only (k r))"
| "exact_only (Read n k) = False"
| "exact_only (ReadExact n k) = (\<forall>r. exact_only (k r))"
| "exact_only (Peek n k) = False"
| "exact_only (Ask q k) = (\<forall>r. exact_only (k r))"

lemma exact_only_pieces [simp]:
  "exact_only (write_flush conv bs k) \<longleftrightarrow> exact_only k"
  "exact_only (read_exact conv n f) \<longleftrightarrow> (\<forall>bs. exact_only (f bs))"
  by (auto simp: write_flush_def read_exact_def split: sum.splits)

lemma exact_only_bind: "exact_only p \<Longrightarrow> (\<And>a. exact_only (f a)) \<Longrightarrow> exact_only (prog_bind p f)"
  by (induction p) auto

lemma exact_only_bind_ok: "exact_only p \<Longrightarrow> (\<And>a. exact_only (g a)) \<Longrightarrow> exact_only (bind_ok p g)"
  unfolding bind_ok_def by (rule exact_only_bind) (auto split: sum.splits)

subsection \<open>All executions\<close>

datatype 'q event =
    Wrote bytes "io_error + unit"
  | Flushed "io_error + unit"
  | Got nat "io_error + bytes"
  | GotExact nat "io_error + bytes"
  | Peeked nat "io_error + bytes"
  | Answered 'q bool

text \<open>A read returns at most the bytes it has room for, an exact read all of them or an error.\<close>

inductive execution :: "('q, 'a) prog \<Rightarrow> 'q event list \<Rightarrow> 'a \<Rightarrow> bool" where
  ex_ret: "execution (Ret a) [] a"
| ex_write: "execution (k r) tr a \<Longrightarrow> execution (WriteAll bs k) (Wrote bs r # tr) a"
| ex_flush: "execution (k r) tr a \<Longrightarrow> execution (Flush k) (Flushed r # tr) a"
| ex_read: "execution (k r) tr a \<Longrightarrow> (\<forall>bs. r = Ok bs \<longrightarrow> length bs \<le> n) \<Longrightarrow> execution (Read n k) (Got n r # tr) a"
| ex_exact: "execution (k r) tr a \<Longrightarrow> (\<forall>bs. r = Ok bs \<longrightarrow> length bs = n) \<Longrightarrow>
    execution (ReadExact n k) (GotExact n r # tr) a"
| ex_peek: "execution (k r) tr a \<Longrightarrow> (\<forall>bs. r = Ok bs \<longrightarrow> length bs \<le> n) \<Longrightarrow> execution (Peek n k) (Peeked n r # tr) a"
| ex_ask: "execution (k r) tr a \<Longrightarrow> execution (Ask q k) (Answered q r # tr) a"

inductive_simps execution_simps [simp]:
  "execution (Ret x) tr a"
  "execution (WriteAll bs k) tr a"
  "execution (Flush k) tr a"
  "execution (Read n k) tr a"
  "execution (ReadExact n k) tr a"
  "execution (Peek n k) tr a"
  "execution (Ask q k) tr a"

text \<open>The bytes an execution put on the wire, and the questions it asked.\<close>

fun written :: "'q event list \<Rightarrow> bytes" where
  "written [] = []"
| "written (Wrote bs (Ok _) # tr) = bs @ written tr"
| "written (_ # tr) = written tr"

fun answers :: "'q event list \<Rightarrow> ('q \<times> bool) list" where
  "answers [] = []"
| "answers (Answered q b # tr) = (q, b) # answers tr"
| "answers (_ # tr) = answers tr"

subsection \<open>One connection\<close>

text \<open>What happens after the last segment: the peer closes, the transport fails, or nothing ever comes.\<close>

datatype ending = Eof | Broken io_error | Silent

record conn =
  incoming :: "bytes list"
  ending :: ending
  outgoing :: bytes

definition unread :: "conn \<Rightarrow> bytes" where
  "unread c = concat (incoming c)"

fun drop_bytes :: "nat \<Rightarrow> bytes list \<Rightarrow> bytes list" where
  "drop_bytes n [] = []"
| "drop_bytes n (s # ss) = (if length s \<le> n then drop_bytes (n - length s) ss else drop n s # ss)"

fun first_segment :: "bytes list \<Rightarrow> bytes" where
  "first_segment [] = []"
| "first_segment (s # ss) = (if s = [] then first_segment ss else s)"

definition early_eof :: io_error where
  "early_eof = IoError UnexpectedEof (ascii ''early eof'')"

text \<open>A read returns bytes of the first segment only; at the end, \<open>None\<close> is a wait that never ends.\<close>

definition do_read :: "nat \<Rightarrow> conn \<Rightarrow> (io_error + bytes) option" where
  "do_read n c =
     (if unread c = []
      then (case ending c of Eof \<Rightarrow> Some (Ok []) | Broken e \<Rightarrow> Some (Err e) | Silent \<Rightarrow> None)
      else Some (Ok (take n (first_segment (incoming c)))))"

definition do_read_exact :: "nat \<Rightarrow> conn \<Rightarrow> (io_error + bytes) option" where
  "do_read_exact n c =
     (if n \<le> length (unread c) then Some (Ok (take n (unread c)))
      else case ending c of Eof \<Rightarrow> Some (Err early_eof) | Broken e \<Rightarrow> Some (Err e) | Silent \<Rightarrow> None)"

definition consume :: "nat \<Rightarrow> conn \<Rightarrow> conn" where
  "consume n c = c\<lparr>incoming := drop_bytes n (incoming c)\<rparr>"

definition got :: "io_error + bytes \<Rightarrow> nat" where
  "got r = (case r of Err _ \<Rightarrow> 0 | Ok bs \<Rightarrow> length bs)"

primrec run_on :: "('q \<Rightarrow> bool) \<Rightarrow> ('q, 'a) prog \<Rightarrow> conn \<Rightarrow> 'a option \<times> conn" where
  "run_on ans (Ret a) = (\<lambda>c. (Some a, c))"
| "run_on ans (WriteAll bs k) = (\<lambda>c. run_on ans (k (Ok ())) (c\<lparr>outgoing := outgoing c @ bs\<rparr>))"
| "run_on ans (Flush k) = run_on ans (k (Ok ()))"
| "run_on ans (Read n k) =
     (\<lambda>c. case do_read n c of None \<Rightarrow> (None, c) | Some r \<Rightarrow> run_on ans (k r) (consume (got r) c))"
| "run_on ans (ReadExact n k) =
     (\<lambda>c. case do_read_exact n c of
            None \<Rightarrow> (None, consume (length (unread c)) c)
          | Some r \<Rightarrow> run_on ans (k r) (consume (case r of Err _ \<Rightarrow> length (unread c) | Ok _ \<Rightarrow> n) c))"
| "run_on ans (Peek n k) =
     (\<lambda>c. case do_read n c of None \<Rightarrow> (None, c) | Some r \<Rightarrow> run_on ans (k r) c)"
| "run_on ans (Ask q k) = run_on ans (k (ans q))"

subsection \<open>Facts\<close>

lemma concat_drop_bytes [simp]: "concat (drop_bytes n ss) = drop n (concat ss)"
  by (induction n ss rule: drop_bytes.induct) auto

lemma unread_consume [simp]: "unread (consume n c) = drop n (unread c)"
  by (simp add: consume_def unread_def)

lemma conn_consume [simp]: "ending (consume n c) = ending c" "outgoing (consume n c) = outgoing c"
  by (simp_all add: consume_def)

lemma unread_update [simp]: "unread (c\<lparr>outgoing := o'\<rparr>) = unread c"
  by (simp add: unread_def)

lemma first_segment_prefix: "\<exists>r. concat ss = first_segment ss @ r \<and> (concat ss \<noteq> [] \<longrightarrow> first_segment ss \<noteq> [])"
  by (induction ss rule: first_segment.induct) auto

text \<open>A read on a connection with unread bytes returns a non-empty prefix of them.\<close>

lemma do_read_data:
  assumes "unread c \<noteq> []" "0 < n"
  obtains m where "do_read n c = Some (Ok (take m (unread c)))" "0 < m" "m \<le> n" "m \<le> length (unread c)"
proof -
  obtain r where r: "unread c = first_segment (incoming c) @ r" and ne: "first_segment (incoming c) \<noteq> []"
    using first_segment_prefix [of "incoming c"] assms(1) by (auto simp: unread_def)
  let ?m = "min n (length (first_segment (incoming c)))"
  have "take n (first_segment (incoming c)) = take ?m (unread c)" using r by (simp add: min_def)
  then have "do_read n c = Some (Ok (take ?m (unread c)))" using assms(1) by (simp add: do_read_def)
  then show ?thesis using that [of ?m] assms(2) ne r by simp
qed

lemma run_read_u8:
  "unread c = b # s \<Longrightarrow> run_on ans (read_u8 conv k) c = run_on ans (k b) (consume 1 c)"
  by (simp add: read_u8_def read_exact_def do_read_exact_def)

lemma run_read_exact:
  "unread c = bs @ s \<Longrightarrow> length bs = n \<Longrightarrow>
   run_on ans (read_exact conv n k) c = run_on ans (k bs) (consume n c)"
  by (simp add: read_exact_def do_read_exact_def)

lemma run_write_flush [simp]:
  "run_on ans (write_flush conv bs k) c = run_on ans k (c\<lparr>outgoing := outgoing c @ bs\<rparr>)"
  by (simp add: write_flush_def)

lemma execution_write_flush [simp]:
  "execution (write_flush conv bs k) tr (a :: 'e + 'a) \<longleftrightarrow>
     (\<exists>e. (tr = [Wrote bs (Err e)] \<or> tr = [Wrote bs (Ok ()), Flushed (Err e)]) \<and> a = Err (conv e)) \<or>
     (\<exists>tr'. tr = Wrote bs (Ok ()) # Flushed (Ok ()) # tr' \<and> execution k tr' a)"
  by (auto simp: write_flush_def split: sum.splits) (metis sum.exhaust old.unit.exhaust)+

lemma execution_read_exact [simp]:
  "execution (read_exact conv n k) tr (a :: 'e + 'a) \<longleftrightarrow>
     (\<exists>e. tr = [GotExact n (Err e)] \<and> a = Err (conv e)) \<or>
     (\<exists>bs tr'. length bs = n \<and> tr = GotExact n (Ok bs) # tr' \<and> execution (k bs) tr' a)"
  by (auto simp: read_exact_def split: sum.splits) (metis sum.exhaust)+

text \<open>The run on a connection is one of the executions.\<close>

lemma run_on_execution:
  "run_on ans p c = (Some a, c') \<Longrightarrow>
   \<exists>tr. execution p tr a \<and> outgoing c' = outgoing c @ written tr \<and> (\<forall>(q, b) \<in> set (answers tr). b = ans q)"
proof (induction p arbitrary: c)
  case (WriteAll bs k)
  obtain tr where "execution (k (Ok ())) tr a" "outgoing c' = (outgoing c @ bs) @ written tr"
      "\<forall>(q, b) \<in> set (answers tr). b = ans q"
    using WriteAll.prems WriteAll.IH [of "k (Ok ())" "c\<lparr>outgoing := outgoing c @ bs\<rparr>"] by auto
  then show ?case by (intro exI [of _ "Wrote bs (Ok ()) # tr"]) simp
next
  case (Flush k)
  obtain tr where "execution (k (Ok ())) tr a" "outgoing c' = outgoing c @ written tr"
      "\<forall>(q, b) \<in> set (answers tr). b = ans q" 
    using Flush.prems Flush.IH [of "k (Ok ())" c] by auto
  then show ?case by (intro exI [of _ "Flushed (Ok ()) # tr"]) simp
next
  case (Read n k)
  then obtain r where r: "do_read n c = Some r" "run_on ans (k r) (consume (got r) c) = (Some a, c')"
    by (auto split: option.splits)
  from r(2) Read(1) [of "k r" "consume (got r) c"] obtain tr where "execution (k r) tr a" "outgoing c' = outgoing c @ written tr"
      "\<forall>(q, b) \<in> set (answers tr). b = ans q" by auto
  moreover have "\<forall>bs. r = Ok bs \<longrightarrow> length bs \<le> n"
    using r(1) by (auto simp: do_read_def split: if_splits ending.splits)
  ultimately show ?case by (intro exI [of _ "Got n r # tr"]) simp
next
  case (ReadExact n k)
  then obtain r where r: "do_read_exact n c = Some r"
      "run_on ans (k r) (consume (case r of Err _ \<Rightarrow> length (unread c) | Ok _ \<Rightarrow> n) c) = (Some a, c')"
    by (auto split: option.splits)
  from r(2) ReadExact(1) [of "k r" "consume (case r of Err _ \<Rightarrow> length (unread c) | Ok _ \<Rightarrow> n) c"] obtain tr where "execution (k r) tr a" "outgoing c' = outgoing c @ written tr"
      "\<forall>(q, b) \<in> set (answers tr). b = ans q" by auto
  moreover have "\<forall>bs. r = Ok bs \<longrightarrow> length bs = n"
    using r(1) by (auto simp: do_read_exact_def split: if_splits ending.splits)
  ultimately show ?case by (intro exI [of _ "GotExact n r # tr"]) simp
next
  case (Peek n k)
  then obtain r where r: "do_read n c = Some r" "run_on ans (k r) c = (Some a, c')"
    by (auto split: option.splits)
  from r(2) Peek(1) [of "k r" c] obtain tr where "execution (k r) tr a" "outgoing c' = outgoing c @ written tr"
      "\<forall>(q, b) \<in> set (answers tr). b = ans q" by auto
  moreover have "\<forall>bs. r = Ok bs \<longrightarrow> length bs \<le> n"
    using r(1) by (auto simp: do_read_def split: if_splits ending.splits)
  ultimately show ?case by (intro exI [of _ "Peeked n r # tr"]) simp
next
  case (Ask q k)
  obtain tr where "execution (k (ans q)) tr a" "outgoing c' = outgoing c @ written tr"
      "\<forall>(q, b) \<in> set (answers tr). b = ans q" 
    using Ask.prems Ask.IH [of "k (ans q)" c] by auto
  then show ?case by (intro exI [of _ "Answered q (ans q) # tr"]) simp
qed (auto intro: exI [of _ "[]"])

subsection \<open>Programs in sequence\<close>

lemma run_on_bind:
  "run_on ans (prog_bind p f) c = (case run_on ans p c of (None, c') \<Rightarrow> (None, c') | (Some a, c') \<Rightarrow> run_on ans (f a) c')"
proof (induction p arbitrary: c)
  case (Read n k)
  then show ?case by (auto split: option.splits)
next
  case (ReadExact n k)
  then show ?case by (auto split: option.splits)
next
  case (Peek n k)
  then show ?case by (auto split: option.splits)
qed simp_all

lemma execution_bind:
  "execution (prog_bind p f) tr a \<Longrightarrow> \<exists>tr1 tr2 x. execution p tr1 x \<and> execution (f x) tr2 a \<and> tr = tr1 @ tr2"
proof (induction p arbitrary: tr)
  case (Ret x)
  then show ?case by (intro exI [of _ "[]"] exI [of _ tr] exI [of _ x]) simp
next
  case (WriteAll bs k)
  then obtain r tr' where "execution (prog_bind (k r) f) tr' a" "tr = Wrote bs r # tr'" by auto
  with WriteAll.IH [OF rangeI] show ?case by (metis append_Cons execution.ex_write)
next
  case (Flush k)
  then obtain r tr' where "execution (prog_bind (k r) f) tr' a" "tr = Flushed r # tr'" by auto
  with Flush.IH [OF rangeI] show ?case by (metis append_Cons execution.ex_flush)
next
  case (Read n k)
  then obtain r tr' where "execution (prog_bind (k r) f) tr' a" "\<forall>bs. r = Ok bs \<longrightarrow> length bs \<le> n" "tr = Got n r # tr'" by auto
  with Read.IH [OF rangeI] show ?case by (metis append_Cons execution.ex_read)
next
  case (ReadExact n k)
  then obtain r tr' where "execution (prog_bind (k r) f) tr' a" "\<forall>bs. r = Ok bs \<longrightarrow> length bs = n" "tr = GotExact n r # tr'" by auto
  with ReadExact.IH [OF rangeI] show ?case by (metis append_Cons execution.ex_exact)
next
  case (Peek n k)
  then obtain r tr' where "execution (prog_bind (k r) f) tr' a" "\<forall>bs. r = Ok bs \<longrightarrow> length bs \<le> n" "tr = Peeked n r # tr'" by auto
  with Peek.IH [OF rangeI] show ?case by (metis append_Cons execution.ex_peek)
next
  case (Ask q k)
  then obtain r tr' where "execution (prog_bind (k r) f) tr' a" "tr = Answered q r # tr'" by auto
  with Ask.IH [OF rangeI] show ?case by (metis append_Cons execution.ex_ask)
qed

lemma execution_bind_cases:
  assumes "execution (prog_bind p f) tr a"
  obtains (err) tr1 tr2 e where "execution p tr1 (Inl e)" "execution (f (Inl e)) tr2 a" "tr = tr1 @ tr2"
    | (ok) tr1 tr2 x where "execution p tr1 (Inr x)" "execution (f (Inr x)) tr2 a" "tr = tr1 @ tr2"
  using execution_bind [OF assms] by (metis sum.exhaust)

lemma answers_append [simp]: "answers (xs @ ys) = answers xs @ answers ys"
  by (induction xs rule: answers.induct) auto

end
