(* ===== verification/Socks5Client.thy ===== *)
theory Socks5Client
  imports Wire HostPort
begin

text \<open>
  The SOCKS5 client handshake over an arbitrary stream, \<open>connect/util/handshake_over_stream.rs\<close>, and the
  choice of its credentials, \<open>connect/proxy_connect/connect_socks5_proxy.rs\<close>.
\<close>

type_synonym client_prog = "(unit, connect_error + unit) prog"

definition u16_be :: "u16 \<Rightarrow> bytes" where
  "u16_be g = [of_nat (unat g div 256), of_nat (unat g mod 256)]"

definition protocol_err :: "protocol_violation \<Rightarrow> client_prog" where
  "protocol_err v = Ret (Err (Protocol v))"

definition socks5_auth :: "proxy_config \<Rightarrow> (bytes \<times> bytes) option" where
  "socks5_auth p = (case (pc_user p, pc_password p) of (Some u, Some w) \<Rightarrow> Some (u, w) | _ \<Rightarrow> None)"

text \<open>The address type and the encoded address of the CONNECT request.\<close>

definition socks5_address :: "bytes \<Rightarrow> protocol_violation + (byte \<times> bytes)" where
  "socks5_address host =
     (case parse_ipv4 host of
        Some ip \<Rightarrow> Ok (1, ip)
      | None \<Rightarrow>
          (case parse_ipv6 host of
             Some gs \<Rightarrow> Ok (4, concat (map u16_be gs))
           | None \<Rightarrow>
               if 255 < length host then Err (Socks5DomainTooLong (length host))
               else Ok (3, of_nat (length host) # host)))"

definition read_bound_address :: "byte \<Rightarrow> client_prog" where
  "read_bound_address atyp =
     (if atyp = 1 then read_exact from_io_error 6 (\<lambda>_. Ret (Ok ()))
      else if atyp = 3 then
        read_exact from_io_error 1 (\<lambda>len.
          if len ! 0 = 0 then protocol_err Socks5EmptyBoundDomain
          else read_exact from_io_error (unat (len ! 0) + 2) (\<lambda>_. Ret (Ok ())))
      else if atyp = 4 then read_exact from_io_error 18 (\<lambda>_. Ret (Ok ()))
      else protocol_err (Socks5UnknownAddressType atyp))"

definition socks5_connect :: "bytes \<Rightarrow> u16 \<Rightarrow> client_prog" where
  "socks5_connect host port =
     (case socks5_address host of
        Err v \<Rightarrow> protocol_err v
      | Ok (atyp, addr) \<Rightarrow>
          write_flush from_io_error ([5, 1, 0, atyp] @ addr @ u16_be port)
            (read_exact from_io_error 4 (\<lambda>h.
               if h ! 0 \<noteq> 5 then protocol_err (Socks5BadVersion (h ! 0))
               else if h ! 1 \<noteq> 0 then Ret (Err (ProxyRejected Socks5 (Some (ucast (h ! 1))) []))
               else if h ! 2 \<noteq> 0 then protocol_err (Socks5BadReserved (h ! 2))
               else read_bound_address (h ! 3))))"

definition socks5_subnegotiate :: "bytes \<Rightarrow> bytes \<Rightarrow> client_prog \<Rightarrow> client_prog" where
  "socks5_subnegotiate uname passwd k =
     (if 255 < length uname \<or> 255 < length passwd
      then protocol_err (Socks5CredentialsTooLong (length uname) (length passwd))
      else write_flush from_io_error ([1, of_nat (length uname)] @ uname @ [of_nat (length passwd)] @ passwd)
             (read_exact from_io_error 2 (\<lambda>r.
                if r ! 0 \<noteq> 1 then protocol_err (Socks5BadAuthVersion (r ! 0))
                else if r ! 1 \<noteq> 0 then Ret (Err (AuthFailed (r ! 1)))
                else k)))"

definition socks5_negotiate :: "(bytes \<times> bytes) option \<Rightarrow> client_prog \<Rightarrow> client_prog" where
  "socks5_negotiate auth k =
     (case auth of
        Some (username, password) \<Rightarrow>
          write_flush from_io_error [5, 1, 2] (read_exact from_io_error 2 (\<lambda>r.
            if r ! 0 \<noteq> 5 then protocol_err (Socks5BadVersion (r ! 0))
            else if r ! 1 \<noteq> 2 then Ret (Err (MethodUnsupported (r ! 1) True))
            else socks5_subnegotiate username password k))
      | None \<Rightarrow>
          write_flush from_io_error [5, 1, 0] (read_exact from_io_error 2 (\<lambda>r.
            if r ! 0 \<noteq> 5 then protocol_err (Socks5BadVersion (r ! 0))
            else if r ! 1 \<noteq> 0 then Ret (Err (MethodUnsupported (r ! 1) False))
            else k)))"

definition socks5_handshake :: "bytes \<Rightarrow> u16 \<Rightarrow> (bytes \<times> bytes) option \<Rightarrow> client_prog" where
  "socks5_handshake host port auth =
     (if host = [] \<or> port = 0 then Ret (Err (InvalidTarget (host_port_format host port)))
      else socks5_negotiate auth (socks5_connect host port))"

definition handshake_over_stream :: "bytes \<Rightarrow> (bytes \<times> bytes) option \<Rightarrow> client_prog" where
  "handshake_over_stream target auth =
     (case host_port_parse target of
        None \<Rightarrow> Ret (Err (InvalidTarget target))
      | Some hp \<Rightarrow> socks5_handshake (hp_host hp) (hp_port hp) auth)"

text \<open>On a pooled socket, within a budget: a proxy that never answers is a timeout.\<close>

definition upstream_endpoint :: "proxy_config \<Rightarrow> bytes" where
  "upstream_endpoint p = pc_host p @ [COLON] @ fmt_u16 (pc_port p)"

definition socks5_on_acquired :: "bytes \<Rightarrow> proxy_config \<Rightarrow> duration \<Rightarrow> conn \<Rightarrow> (connect_error + unit) \<times> conn" where
  "socks5_on_acquired target proxy budget c =
     (case run_on (\<lambda>_. True) (handshake_over_stream target (socks5_auth proxy)) c of
        (Some r, c') \<Rightarrow> (r, c')
      | (None, c') \<Rightarrow> (Err (Timeout HandshakeStage Socks5Handshake (upstream_endpoint proxy) budget), c'))"

end
