(* ===== verification/HttpClient.thy ===== *)
theory HttpClient
  imports Socks5Client
begin

text \<open>
  The HTTP CONNECT client, \<open>connect/proxy_connect/connect_http_proxy.rs\<close>. The base64 encoder of the
  \<open>base64\<close> crate is the argument \<open>encode\<close>. There are two readers of the response head: one for any stream, which
  asks for no more bytes than can complete the head, and one for plain sockets, which peeks.
\<close>

subsection \<open>The request\<close>

definition connect_request :: "(bytes \<Rightarrow> bytes) \<Rightarrow> bytes \<Rightarrow> proxy_config \<Rightarrow> bytes" where
  "connect_request encode target proxy =
     ascii ''CONNECT '' @ target @ ascii '' HTTP/1.1'' @ CRLF @ ascii ''Host: '' @ target @ CRLF @
     (case (pc_user proxy, pc_password proxy) of
        (Some user, Some pass) \<Rightarrow>
          ascii ''Proxy-Authorization: Basic '' @ encode (user @ [COLON] @ pass) @ CRLF
      | _ \<Rightarrow> []) @ CRLF"

definition write_connect_request :: "(bytes \<Rightarrow> bytes) \<Rightarrow> bytes \<Rightarrow> proxy_config \<Rightarrow> client_prog \<Rightarrow> client_prog" where
  "write_connect_request encode target proxy k =
     (if list_ex (\<lambda>b. byte_is_control b \<or> is_ascii_whitespace b) target
      then protocol_err HttpInvalidConnectTarget
      else write_flush from_io_error (connect_request encode target proxy) k)"

subsection \<open>The response head\<close>

text \<open>\<open>rh_buf\<close> is the filled part of the buffer, \<open>rh_total\<close> counts the bytes of all heads so far.\<close>

record response_head =
  rh_buf :: bytes
  rh_total :: nat

definition RESPONSE_CAP :: nat where
  "RESPONSE_CAP = 4096"

definition response_head_new :: response_head where
  "response_head_new = \<lparr>rh_buf = [], rh_total = 0\<rparr>"

definition rh_remaining :: "response_head \<Rightarrow> connect_error + nat" where
  "rh_remaining h =
     (if RESPONSE_CAP - rh_total h = 0 then Err (Protocol HttpResponseTooLarge) else Ok (RESPONSE_CAP - rh_total h))"

definition valid_status_line :: "bytes \<Rightarrow> bool" where
  "valid_status_line l \<longleftrightarrow>
     13 \<le> length l \<and> (starts_with l (ascii ''HTTP/1.1 '') \<or> starts_with l (ascii ''HTTP/1.0 '')) \<and>
     list_all is_ascii_digit (take 3 (drop 9 l)) \<and> l ! 12 = SPACE"

definition status_code :: "bytes \<Rightarrow> u16 option" where
  "status_code l =
     (let n = foldl (\<lambda>acc d. acc * 10 + (unat d - 48)) 0 (take 3 (drop 9 l))
      in if n < 65536 then Some (of_nat n) else None)"

text \<open>A complete head: a final 2xx, an interim 1xx to skip (\<open>Ok False\<close>), or a rejection.\<close>

definition classify_head :: "bytes \<Rightarrow> connect_error + bool" where
  "classify_head buf =
     (let first_line = takeWhile (\<lambda>b. b \<noteq> 13) buf; valid = valid_status_line first_line
      in if valid \<and> first_line ! 9 = 50 then Ok True
         else if valid \<and> first_line ! 9 = 49 \<and> take 3 (drop 9 first_line) \<noteq> ascii ''101'' then Ok False
         else Err (ProxyRejected Http (if valid then status_code first_line else None) (utf8_lossy first_line)))"

definition rh_advance :: "response_head \<Rightarrow> bytes \<Rightarrow> connect_error + (bool \<times> response_head)" where
  "rh_advance h bs =
     (if bs = [] then Err (Protocol HttpClosedEarly)
      else let h' = \<lparr>rh_buf = rh_buf h @ bs, rh_total = rh_total h + length bs\<rparr>
           in if \<not> ends_with (rh_buf h') HEAD_END then Ok (False, h')
              else case classify_head (rh_buf h') of
                     Err e \<Rightarrow> Err e
                   | Ok True \<Rightarrow> Ok (True, h')
                   | Ok False \<Rightarrow> Ok (False, h'\<lparr>rh_buf := []\<rparr>))"

text \<open>The bytes that are missing at least, given the end of what was read.\<close>

definition want_bytes :: "bytes \<Rightarrow> nat" where
  "want_bytes buf =
     (if ends_with buf [13, 10, 13] then 1 else if ends_with buf CRLF then 2 else if ends_with buf [13] then 3 else 4)"

function response_loop :: "response_head \<Rightarrow> client_prog" where
  "response_loop h =
     (case rh_remaining h of
        Err e \<Rightarrow> Ret (Err e)
      | Ok left \<Rightarrow>
          Read (min (want_bytes (rh_buf h)) left) (\<lambda>r.
            case r of
              Err e \<Rightarrow> Ret (Err (from_io_error e))
            | Ok bs \<Rightarrow>
                (case rh_advance h bs of
                   Err e \<Rightarrow> Ret (Err e)
                 | Ok (ready, h') \<Rightarrow> if ready then Ret (Ok ()) else response_loop h')))"
  by pat_completeness auto

lemma rh_advance_total:
  "rh_advance h bs = Ok (d, h') \<Longrightarrow> rh_total h' = rh_total h + length bs \<and> bs \<noteq> []"
  by (auto simp: rh_advance_def Let_def split: if_splits sum.splits bool.splits)

lemma rh_advance_decreases:
  "rh_remaining h = Ok left \<Longrightarrow> rh_advance h bs = Ok (d, h') \<Longrightarrow> RESPONSE_CAP - rh_total h' < RESPONSE_CAP - rh_total h"
  by (drule rh_advance_total) (auto simp: rh_remaining_def neq_Nil_conv split: if_splits)

termination response_loop
  by (relation "measure (\<lambda>h. RESPONSE_CAP - rh_total h)") (auto intro: rh_advance_decreases)

declare response_loop.simps [simp del]

definition http_connect_handshake :: "(bytes \<Rightarrow> bytes) \<Rightarrow> bytes \<Rightarrow> proxy_config \<Rightarrow> client_prog" where
  "http_connect_handshake encode target proxy =
     write_connect_request encode target proxy (response_loop response_head_new)"

subsection \<open>The peeking reader\<close>

function response_loop_tcp :: "response_head \<Rightarrow> client_prog" where
  "response_loop_tcp h =
     (case rh_remaining h of
        Err e \<Rightarrow> Ret (Err e)
      | Ok left \<Rightarrow>
          Peek left (\<lambda>r.
            case r of
              Err e \<Rightarrow> Ret (Err (from_io_error e))
            | Ok seen \<Rightarrow>
                (let filled = length (rh_buf h);
                     scan_from = filled - 3;
                     consume_to = (case find_window HEAD_END (drop scan_from (rh_buf h @ seen)) of
                                     Some pos \<Rightarrow> scan_from + pos + 4
                                   | None \<Rightarrow> filled + length seen)
                 in ReadExact (consume_to - filled) (\<lambda>r.
                      case r of
                        Err e \<Rightarrow> Ret (Err (from_io_error e))
                      | Ok bs \<Rightarrow>
                          (case rh_advance h bs of
                             Err e \<Rightarrow> Ret (Err e)
                           | Ok (ready, h') \<Rightarrow> if ready then Ret (Ok ()) else response_loop_tcp h')))))"
  by pat_completeness auto
termination
  by (relation "measure (\<lambda>h. RESPONSE_CAP - rh_total h)") (auto intro: rh_advance_decreases)

declare response_loop_tcp.simps [simp del]

definition http_connect_on_tcp :: "(bytes \<Rightarrow> bytes) \<Rightarrow> bytes \<Rightarrow> proxy_config \<Rightarrow> client_prog" where
  "http_connect_on_tcp encode target proxy =
     write_connect_request encode target proxy (response_loop_tcp response_head_new)"

definition http_on_acquired ::
  "(bytes \<Rightarrow> bytes) \<Rightarrow> bytes \<Rightarrow> proxy_config \<Rightarrow> duration \<Rightarrow> conn \<Rightarrow> (connect_error + unit) \<times> conn" where
  "http_on_acquired encode target proxy budget c =
     (case run_on (\<lambda>_. True) (http_connect_on_tcp encode target proxy) c of
        (Some r, c') \<Rightarrow> (r, c')
      | (None, c') \<Rightarrow> (Err (Timeout HandshakeStage HttpHandshake (upstream_endpoint proxy) budget), c'))"

end
