(* ===== verification/Pool.thy ===== *)
theory Pool
  imports ConnectError Clock "HOL-Library.Multiset"
begin

text \<open>
  The pool of pre-connected sockets, \<open>session/pool/proxy_pool/mod.rs\<close> and \<open>session/pool/pool_config.rs\<close>, with its
  cap on the connections to each upstream. A semaphore is the number of its free permits, a permit the index
  of its semaphore. A generation is a queue of spares with the refill task that serves it; the two are created
  together. Every stretch of code between two suspension points is one operation; connecting, the clock and
  the probing of a spare are arguments.
\<close>

record pool_config =
  cfg_enabled :: bool
  spare_per_proxy :: nat
  max_session_age_sec :: nat

definition default_pool_config :: pool_config where
  "default_pool_config = \<lparr>cfg_enabled = False, spare_per_proxy = 1, max_session_age_sec = 30\<rparr>"

type_synonym proxy_key = "bytes \<times> u16"
type_synonym permit = nat

record pre_warmed =
  pw_socket :: nat
  created_at :: instant
  pw_permit :: permit

datatype refill_phase = Topping | Connecting permit | Sleeping | Waiting | Stopped

record generation =
  g_key :: proxy_key
  g_queue :: "pre_warmed list"
  g_target :: nat
  g_notified :: bool
  g_sem :: nat
  g_backoff :: duration
  g_phase :: refill_phase
  g_aborted :: bool

record proxy_pool =
  pp_config :: pool_config
  max_per_upstream :: nat
  pools :: "proxy_key \<rightharpoonup> nat"
  upstream_caps :: "proxy_key \<rightharpoonup> nat"
  refill_tasks :: "proxy_key \<rightharpoonup> nat"
  sems :: "nat list"
  gens :: "generation list"

definition key_of :: "proxy_config \<Rightarrow> proxy_key" where
  "key_of proxy = (pc_host proxy, pc_port proxy)"

definition pool_new :: "pool_config \<Rightarrow> nat \<Rightarrow> proxy_pool" where
  "pool_new config max_per =
     \<lparr>pp_config = config, max_per_upstream = max max_per 1, pools = Map.empty, upstream_caps = Map.empty,
      refill_tasks = Map.empty, sems = [], gens = []\<rparr>"

definition max_age :: "proxy_pool \<Rightarrow> duration" where
  "max_age s = from_secs (max_session_age_sec (pp_config s))"

subsection \<open>Permits\<close>

definition release :: "permit \<Rightarrow> proxy_pool \<Rightarrow> proxy_pool" where
  "release g s = s\<lparr>sems := (sems s)[g := sems s ! g + 1]\<rparr>"

definition try_acquire :: "nat \<Rightarrow> proxy_pool \<Rightarrow> permit option \<times> proxy_pool" where
  "try_acquire g s =
     (if 0 < sems s ! g then (Some g, s\<lparr>sems := (sems s)[g := sems s ! g - 1]\<rparr>) else (None, s))"

definition upstream_semaphore :: "proxy_key \<Rightarrow> proxy_pool \<Rightarrow> nat \<times> proxy_pool" where
  "upstream_semaphore key s =
     (case upstream_caps s key of
        Some g \<Rightarrow> (g, s)
      | None \<Rightarrow>
          (length (sems s),
           s\<lparr>sems := sems s @ [max_per_upstream s], upstream_caps := (upstream_caps s)(key \<mapsto> length (sems s))\<rparr>))"

subsection \<open>Taking spares\<close>

definition set_gen :: "nat \<Rightarrow> generation \<Rightarrow> proxy_pool \<Rightarrow> proxy_pool" where
  "set_gen i g s = s\<lparr>gens := (gens s)[i := g]\<rparr>"

text \<open>Popping from a queue; the refill task is notified whether or not there was a spare.\<close>

definition pop_spare :: "nat \<Rightarrow> proxy_pool \<Rightarrow> pre_warmed option \<times> proxy_pool" where
  "pop_spare i s =
     (let g = gens s ! i in
      case g_queue g of
        [] \<Rightarrow> (None, set_gen i (g\<lparr>g_notified := True\<rparr>) s)
      | pw # rest \<Rightarrow> (Some pw, set_gen i (g\<lparr>g_queue := rest, g_notified := True\<rparr>) s))"

definition usable :: "proxy_pool \<Rightarrow> instant \<Rightarrow> (pre_warmed \<Rightarrow> bool) \<Rightarrow> pre_warmed \<Rightarrow> bool" where
  "usable s now spare_is_dead pw \<longleftrightarrow> saturating_duration_since now (created_at pw) \<le> max_age s \<and> \<not> spare_is_dead pw"

text \<open>The loop of \<open>checkout_prewarmed\<close>, on the length of the queue.\<close>

fun checkout_loop :: "nat \<Rightarrow> nat \<Rightarrow> instant \<Rightarrow> (pre_warmed \<Rightarrow> bool) \<Rightarrow> proxy_pool \<Rightarrow> pre_warmed option \<times> proxy_pool" where
  "checkout_loop 0 i now dead s = pop_spare i s"
| "checkout_loop (Suc n) i now dead s =
     (case pop_spare i s of
        (None, s') \<Rightarrow> (None, s')
      | (Some pw, s') \<Rightarrow>
          if usable s' now dead pw then (Some pw, s')
          else checkout_loop n i now dead (release (pw_permit pw) s'))"

definition checkout_prewarmed ::
  "instant \<Rightarrow> (pre_warmed \<Rightarrow> bool) \<Rightarrow> proxy_config \<Rightarrow> proxy_pool \<Rightarrow> pre_warmed option \<times> proxy_pool" where
  "checkout_prewarmed now dead proxy s =
     (if \<not> cfg_enabled (pp_config s) then (None, s)
      else case pools s (key_of proxy) of
             None \<Rightarrow> (None, s)
           | Some i \<Rightarrow> checkout_loop (length (g_queue (gens s ! i))) i now dead s)"

definition reserve_permit :: "proxy_config \<Rightarrow> proxy_pool \<Rightarrow> (connect_error + permit) \<times> proxy_pool" where
  "reserve_permit proxy s =
     (let (sem, s1) = upstream_semaphore (key_of proxy) s in
      case try_acquire sem s1 of
        (Some p, s2) \<Rightarrow> (Ok p, s2)
      | (None, s2) \<Rightarrow>
          (case (case pools s2 (key_of proxy) of
                   None \<Rightarrow> (None, s2)
                 | Some i \<Rightarrow> if g_queue (gens s2 ! i) = [] then (None, s2) else pop_spare i s2) of
             (Some pw, s3) \<Rightarrow> (Ok (pw_permit pw), s3)
           | (None, s3) \<Rightarrow>
               (case try_acquire sem s3 of
                  (Some p, s4) \<Rightarrow> (Ok p, s4)
                | (None, s4) \<Rightarrow> (Err (AtCapacity (AtCapacityOf (pc_host proxy) (pc_port proxy))), s4))))"

subsection \<open>Connections\<close>

text \<open>A connection holds the permits of every node of its tunnel.\<close>

record upstream_stream =
  us_permit :: "permit option"
  us_extra :: "permit list"

definition from_tcp :: upstream_stream where
  "from_tcp = \<lparr>us_permit = None, us_extra = []\<rparr>"

definition attach_permit :: "permit \<Rightarrow> upstream_stream \<Rightarrow> upstream_stream" where
  "attach_permit p u = u\<lparr>us_extra := us_extra u @ [p]\<rparr>"

definition with_permit :: "permit \<Rightarrow> upstream_stream" where
  "with_permit p = \<lparr>us_permit = Some p, us_extra = []\<rparr>"

definition stream_permits :: "upstream_stream \<Rightarrow> permit list" where
  "stream_permits u = (case us_permit u of None \<Rightarrow> [] | Some p \<Rightarrow> [p]) @ us_extra u"

definition drop_stream :: "upstream_stream \<Rightarrow> proxy_pool \<Rightarrow> proxy_pool" where
  "drop_stream u s = fold release (stream_permits u) s"

text \<open>The part of \<open>acquire\<close> before it dials: a finished connection, a failure, or a permit to dial with.\<close>

datatype acquiring = Acquired upstream_stream | AcquireFailed connect_error | Dialing permit

definition acquire_start ::
  "instant \<Rightarrow> (pre_warmed \<Rightarrow> bool) \<Rightarrow> proxy_config \<Rightarrow> proxy_pool \<Rightarrow> acquiring \<times> proxy_pool" where
  "acquire_start now dead proxy s =
     (case checkout_prewarmed now dead proxy s of
        (Some pw, s1) \<Rightarrow> (Acquired (with_permit (pw_permit pw)), s1)
      | (None, s1) \<Rightarrow>
          (case reserve_permit proxy s1 of
             (Err e, s2) \<Rightarrow> (AcquireFailed e, s2)
           | (Ok p, s2) \<Rightarrow> (Dialing p, s2)))"

text \<open>Its end, when the dial has returned: the permit goes with the connection or is given back.\<close>

definition acquire_finish :: "connect_error option \<Rightarrow> permit \<Rightarrow> proxy_pool \<Rightarrow> (connect_error + upstream_stream) \<times> proxy_pool" where
  "acquire_finish failure p s =
     (case failure of None \<Rightarrow> (Ok (with_permit p), s) | Some e \<Rightarrow> (Err e, release p s))"

definition checkout :: "instant \<Rightarrow> (pre_warmed \<Rightarrow> bool) \<Rightarrow> proxy_config \<Rightarrow> proxy_pool \<Rightarrow> upstream_stream option \<times> proxy_pool" where
  "checkout now dead proxy s = apfst (map_option (\<lambda>pw. with_permit (pw_permit pw))) (checkout_prewarmed now dead proxy s)"

definition checkout_unguarded :: "instant \<Rightarrow> (pre_warmed \<Rightarrow> bool) \<Rightarrow> proxy_config \<Rightarrow> proxy_pool \<Rightarrow> nat option \<times> proxy_pool" where
  "checkout_unguarded now dead proxy s =
     (case checkout_prewarmed now dead proxy s of
        (Some pw, s1) \<Rightarrow> (Some (pw_socket pw), release (pw_permit pw) s1)
      | (None, s1) \<Rightarrow> (None, s1))"

subsection \<open>Endpoints and their refill tasks\<close>

definition abort_gen :: "nat \<Rightarrow> proxy_pool \<Rightarrow> proxy_pool" where
  "abort_gen i s = set_gen i ((gens s ! i)\<lparr>g_aborted := True\<rparr>) s"

definition forget :: "proxy_config \<Rightarrow> proxy_pool \<Rightarrow> proxy_pool" where
  "forget proxy s =
     (let s1 = s\<lparr>pools := (pools s)(key_of proxy := None), upstream_caps := (upstream_caps s)(key_of proxy := None)\<rparr>
      in case refill_tasks s1 (key_of proxy) of
           None \<Rightarrow> s1
         | Some i \<Rightarrow> abort_gen i (s1\<lparr>refill_tasks := (refill_tasks s1)(key_of proxy := None)\<rparr>))"

definition spawn_refill_for :: "proxy_config \<Rightarrow> proxy_pool \<Rightarrow> proxy_pool" where
  "spawn_refill_for proxy s =
     (if \<not> cfg_enabled (pp_config s) then s
      else
        let target = min (max (spare_per_proxy (pp_config s)) 1) (max_per_upstream s)
        in case pools s (key_of proxy) of
             Some _ \<Rightarrow> s
           | None \<Rightarrow>
               (let i = length (gens s);
                    s1 = s\<lparr>pools := (pools s)(key_of proxy \<mapsto> i)\<rparr>;
                    (sem, s2) = upstream_semaphore (key_of proxy) s1;
                    s3 = s2\<lparr>gens := gens s2 @ [\<lparr>g_key = key_of proxy, g_queue = [], g_target = target, g_notified = False,
                              g_sem = sem, g_backoff = 100000000, g_phase = Topping, g_aborted = False\<rparr>]\<rparr>;
                    s4 = (case refill_tasks s3 (key_of proxy) of None \<Rightarrow> s3 | Some old \<Rightarrow> abort_gen old s3)
                in s4\<lparr>refill_tasks := (refill_tasks s4)(key_of proxy \<mapsto> i)\<rparr>))"

definition abort_refill_tasks :: "proxy_pool \<Rightarrow> proxy_pool" where
  "abort_refill_tasks s =
     s\<lparr>gens := map (\<lambda>(i, g). if refill_tasks s (g_key g) = Some i then g\<lparr>g_aborted := True\<rparr> else g) (enumerate 0 (gens s)),
       refill_tasks := Map.empty\<rparr>"

definition next_backoff :: "duration \<Rightarrow> duration" where
  "next_backoff d = min (2 * d) (from_secs 10)"

text \<open>The steps of a refill task: topping up, the end of a connect, the end of a sleep, and the two arms of the wait.\<close>

definition refill_top :: "nat \<Rightarrow> proxy_pool \<Rightarrow> proxy_pool" where
  "refill_top i s =
     (let g = gens s ! i in
      if length (g_queue g) < g_target g then
        (case try_acquire (g_sem g) s of
           (Some p, s1) \<Rightarrow> set_gen i (g\<lparr>g_phase := Connecting p\<rparr>) s1
         | (None, s1) \<Rightarrow> set_gen i (g\<lparr>g_phase := Sleeping, g_backoff := next_backoff (g_backoff g)\<rparr>) s1)
      else set_gen i (g\<lparr>g_phase := Waiting\<rparr>) s)"

definition refill_connected :: "nat \<Rightarrow> permit \<Rightarrow> (nat \<times> instant) option \<Rightarrow> proxy_pool \<Rightarrow> proxy_pool" where
  "refill_connected i p result s =
     (let g = gens s ! i in
      case result of
        Some (socket, now) \<Rightarrow>
          if length (g_queue g) < g_target g
          then set_gen i (g\<lparr>g_queue := g_queue g @ [\<lparr>pw_socket = socket, created_at = now, pw_permit = p\<rparr>],
                            g_backoff := 100000000, g_phase := Topping\<rparr>) s
          else release p (set_gen i (g\<lparr>g_backoff := 100000000, g_phase := Topping\<rparr>) s)
      | None \<Rightarrow> release p (set_gen i (g\<lparr>g_phase := Sleeping, g_backoff := next_backoff (g_backoff g)\<rparr>) s))"

definition refill_wake :: "nat \<Rightarrow> proxy_pool \<Rightarrow> proxy_pool" where
  "refill_wake i s = set_gen i ((gens s ! i)\<lparr>g_phase := Topping\<rparr>) s"

definition refill_notified :: "nat \<Rightarrow> proxy_pool \<Rightarrow> proxy_pool" where
  "refill_notified i s = set_gen i ((gens s ! i)\<lparr>g_notified := False, g_phase := Topping\<rparr>) s"

definition refill_recycle :: "nat \<Rightarrow> instant \<Rightarrow> proxy_pool \<Rightarrow> proxy_pool" where
  "refill_recycle i now s =
     (let g = gens s ! i;
          keep = (\<lambda>pw. saturating_duration_since now (created_at pw) \<le> max_age s)
      in fold release (map pw_permit (filter (\<lambda>pw. \<not> keep pw) (g_queue g)))
           (set_gen i (g\<lparr>g_queue := filter keep (g_queue g), g_phase := Topping\<rparr>) s))"

text \<open>An aborted task ends at its next suspension point; its permit and, with the last reference to it, its
  queue are dropped.\<close>

definition refill_stop :: "nat \<Rightarrow> proxy_pool \<Rightarrow> proxy_pool" where
  "refill_stop i s =
     (let g = gens s ! i
      in fold release ((case g_phase g of Connecting p \<Rightarrow> [p] | _ \<Rightarrow> []) @ map pw_permit (g_queue g))
           (set_gen i (g\<lparr>g_queue := [], g_phase := Stopped\<rparr>) s))"

subsection \<open>The pool among its users\<close>

text \<open>The permits of dials under way and the live connections.\<close>

record pool_sys =
  ps_pool :: proxy_pool
  ps_dialing :: "permit multiset"
  ps_conns :: "upstream_stream multiset"

definition on_pool :: "(proxy_pool \<Rightarrow> proxy_pool) \<Rightarrow> pool_sys \<Rightarrow> pool_sys" where
  "on_pool f y = y\<lparr>ps_pool := f (ps_pool y)\<rparr>"

definition phase_of :: "nat \<Rightarrow> pool_sys \<Rightarrow> refill_phase" where
  "phase_of i y = g_phase (gens (ps_pool y) ! i)"

inductive pool_step :: "pool_sys \<Rightarrow> pool_sys \<Rightarrow> bool" where
  acquire_spare: "acquire_start now dead proxy (ps_pool y) = (Acquired u, s) \<Longrightarrow>
    pool_step y (y\<lparr>ps_pool := s, ps_conns := add_mset u (ps_conns y)\<rparr>)"
| acquire_dial: "acquire_start now dead proxy (ps_pool y) = (Dialing p, s) \<Longrightarrow>
    pool_step y (y\<lparr>ps_pool := s, ps_dialing := add_mset p (ps_dialing y)\<rparr>)"
| acquire_fail: "acquire_start now dead proxy (ps_pool y) = (AcquireFailed e, s) \<Longrightarrow> pool_step y (y\<lparr>ps_pool := s\<rparr>)"
| dialed: "ps_dialing y = add_mset p D \<Longrightarrow> acquire_finish None p (ps_pool y) = (Ok u, s) \<Longrightarrow>
    pool_step y (y\<lparr>ps_pool := s, ps_dialing := D, ps_conns := add_mset u (ps_conns y)\<rparr>)"
| dial_failed: "ps_dialing y = add_mset p D \<Longrightarrow> acquire_finish (Some e) p (ps_pool y) = (Err e', s) \<Longrightarrow>
    pool_step y (y\<lparr>ps_pool := s, ps_dialing := D\<rparr>)"
| checked_out: "checkout now dead proxy (ps_pool y) = (Some u, s) \<Longrightarrow>
    pool_step y (y\<lparr>ps_pool := s, ps_conns := add_mset u (ps_conns y)\<rparr>)"
| not_checked_out: "checkout now dead proxy (ps_pool y) = (None, s) \<Longrightarrow> pool_step y (y\<lparr>ps_pool := s\<rparr>)"
| unguarded: "checkout_unguarded now dead proxy (ps_pool y) = (r, s) \<Longrightarrow> pool_step y (y\<lparr>ps_pool := s\<rparr>)"
| attach: "ps_conns y = add_mset u U \<Longrightarrow> reserve_permit proxy (ps_pool y) = (Ok p, s) \<Longrightarrow>
    pool_step y (y\<lparr>ps_pool := s, ps_conns := add_mset (attach_permit p u) U\<rparr>)"
| no_attach: "reserve_permit proxy (ps_pool y) = (Err e, s) \<Longrightarrow> pool_step y (y\<lparr>ps_pool := s\<rparr>)"
| drop: "ps_conns y = add_mset u U \<Longrightarrow> pool_step y (y\<lparr>ps_pool := drop_stream u (ps_pool y), ps_conns := U\<rparr>)"
| forgotten: "pool_step y (on_pool (forget proxy) y)"
| spawned: "pool_step y (on_pool (spawn_refill_for proxy) y)"
| top: "i < length (gens (ps_pool y)) \<Longrightarrow> phase_of i y = Topping \<Longrightarrow> pool_step y (on_pool (refill_top i) y)"
| connected: "i < length (gens (ps_pool y)) \<Longrightarrow> phase_of i y = Connecting p \<Longrightarrow> pool_step y (on_pool (refill_connected i p r) y)"
| wake: "i < length (gens (ps_pool y)) \<Longrightarrow> phase_of i y = Sleeping \<Longrightarrow> pool_step y (on_pool (refill_wake i) y)"
| notified: "i < length (gens (ps_pool y)) \<Longrightarrow> phase_of i y = Waiting \<Longrightarrow> g_notified (gens (ps_pool y) ! i) \<Longrightarrow>
    pool_step y (on_pool (refill_notified i) y)"
| recycle: "i < length (gens (ps_pool y)) \<Longrightarrow> phase_of i y = Waiting \<Longrightarrow> pool_step y (on_pool (refill_recycle i now) y)"
| stop: "i < length (gens (ps_pool y)) \<Longrightarrow> g_aborted (gens (ps_pool y) ! i) \<Longrightarrow> phase_of i y \<noteq> Stopped \<Longrightarrow>
    pool_step y (on_pool (refill_stop i) y)"

end
