(* ===== verification/Quarantine.thy ===== *)
theory Quarantine
  imports Clock
begin

text \<open>
  The quarantine layer, \<open>session/rating/quarantine.rs\<close>: the policy knobs and their validation,
  the doubling backoff length, and the per-upstream bookkeeping cell with its operations. The
  cell is a state machine: \<open>cell_step\<close> is its step relation under a clock that never runs
  backwards, \<open>cell_reachable\<close> its reachable states.
\<close>

subsection \<open>Policy\<close>

record quarantine_policy =
  threshold :: u32
  initial :: duration
  max_len :: duration
  probe_lease :: duration

datatype rating_error = InvalidPolicy string

definition default_quarantine_policy :: quarantine_policy where
  "default_quarantine_policy =
     \<lparr>threshold = 3, initial = from_secs 30, max_len = from_secs 600, probe_lease = from_secs 25\<rparr>"

definition disabled_quarantine_policy :: quarantine_policy where
  "disabled_quarantine_policy = default_quarantine_policy\<lparr>threshold := 0\<rparr>"

definition quarantine_enabled :: "quarantine_policy \<Rightarrow> bool" where
  "quarantine_enabled p \<longleftrightarrow> 0 < threshold p"

definition validate_quarantine :: "quarantine_policy \<Rightarrow> rating_error + unit" where
  "validate_quarantine p =
     (if \<not> quarantine_enabled p then Ok ()
      else if initial p = 0 then Err (InvalidPolicy ''quarantine policy: initial must be > 0'')
      else if max_len p < initial p
        then Err (InvalidPolicy ''quarantine policy: max must be >= initial'')
      else if probe_lease p = 0
        then Err (InvalidPolicy ''quarantine policy: probe_lease must be > 0'')
      else Ok ())"

text \<open>
  \<open>duration_for\<close>: the loop counts \<open>trips - 1\<close> down and stops early once the length is stuck
  (saturated, or zero) or has reached the maximum. \<open>duration_turn\<close> is one turn of its body on the
  turns still to make and the length, a \<open>break\<close> leaving no turn to make.
\<close>

fun duration_turn :: "quarantine_policy \<Rightarrow> nat \<times> duration \<Rightarrow> nat \<times> duration" where
  "duration_turn p (0, len) = (0, len)"
| "duration_turn p (Suc n, len) =
     (let doubled = dur_saturating_mul len 2; stuck = (doubled = len)
      in if stuck \<or> max_len p \<le> doubled then (0, doubled) else (n, doubled))"

function duration_loop :: "quarantine_policy \<Rightarrow> nat \<times> duration \<Rightarrow> duration" where
  "duration_loop p (0, len) = len"
| "duration_loop p (Suc n, len) = duration_loop p (duration_turn p (Suc n, len))"
  by pat_completeness auto

termination
  by (relation "measure (\<lambda>(p, s). fst s)") (auto simp: Let_def)

definition duration_for :: "quarantine_policy \<Rightarrow> u32 \<Rightarrow> duration" where
  "duration_for p trps = min (duration_loop p (unat trps - 1, initial p)) (max_len p)"

subsection \<open>The per-upstream cell\<close>

datatype qstate = Healthy | Quarantined | Probation

record cell =
  consecutive :: u32
  trips :: u32
  until :: "instant option"
  lease_until :: "instant option"

definition default_cell :: cell where
  "default_cell = \<lparr>consecutive = 0, trips = 0, until = None, lease_until = None\<rparr>"

definition far :: duration where
  "far = from_secs (100 * 365 * 24 * 3600)"

definition deadline :: "instant \<Rightarrow> duration \<Rightarrow> instant" where
  "deadline now len =
     (case instant_checked_add now len of
        Some t \<Rightarrow> t
      | None \<Rightarrow> (case instant_checked_add now far of Some t \<Rightarrow> t | None \<Rightarrow> now))"

definition cell_state :: "cell \<Rightarrow> instant \<Rightarrow> qstate" where
  "cell_state c now =
     (case until c of
        None \<Rightarrow> Healthy
      | Some u \<Rightarrow> if now < u then Quarantined else Probation)"

definition is_tripped :: "cell \<Rightarrow> bool" where
  "is_tripped c \<longleftrightarrow> until c \<noteq> None"

definition hard_failure :: "cell \<Rightarrow> instant \<Rightarrow> quarantine_policy \<Rightarrow> duration option \<times> cell" where
  "hard_failure c now p =
     (if cell_state c now = Quarantined then (None, c)
      else
        let c1 = c\<lparr>lease_until := None, consecutive := saturating_add_u32 (consecutive c) 1\<rparr>
        in if consecutive c1 < threshold p then (None, c1)
           else
             let c2 = c1\<lparr>trips := saturating_add_u32 (trips c1) 1\<rparr>;
                 len = duration_for p (trips c2)
             in (Some len, c2\<lparr>until := Some (deadline now len)\<rparr>))"

definition trip_now :: "cell \<Rightarrow> instant \<Rightarrow> quarantine_policy \<Rightarrow> duration \<times> cell" where
  "trip_now c now p =
     (let c1 = c\<lparr>lease_until := None, consecutive := max (consecutive c) (threshold p)\<rparr>;
          c2 = c1\<lparr>trips := saturating_add_u32 (trips c1) 1\<rparr>;
          len = duration_for p (trips c2)
      in (len, c2\<lparr>until := Some (deadline now len)\<rparr>))"

definition snapshot :: "cell \<Rightarrow> instant \<Rightarrow> qstate \<times> duration \<times> u32 \<times> u32" where
  "snapshot c now =
     (let state = cell_state c now;
          left = (case (state, until c) of
                    (Quarantined, Some u) \<Rightarrow> saturating_duration_since u now
                  | _ \<Rightarrow> 0)
      in (state, left, trips c, consecutive c))"

definition restore ::
  "cell \<Rightarrow> bool \<Rightarrow> duration \<Rightarrow> u32 \<Rightarrow> u32 \<Rightarrow> instant \<Rightarrow> quarantine_policy \<Rightarrow> cell" where
  "restore c quarantined left trps consec now p =
     (let left = (if quarantined then min left (max_len p) else 0)
      in c\<lparr>lease_until := None, trips := max trps 1,
           consecutive := max consec (threshold p), until := Some (deadline now left)\<rparr>)"

definition cell_success :: "cell \<Rightarrow> cell" where
  "cell_success c = default_cell"

definition try_lease :: "cell \<Rightarrow> instant \<Rightarrow> quarantine_policy \<Rightarrow> bool \<times> cell" where
  "try_lease c now p =
     (if cell_state c now \<noteq> Probation then (False, c)
      else if (case lease_until c of Some lease \<Rightarrow> now < lease | None \<Rightarrow> False) then (False, c)
      else (True, c\<lparr>lease_until :=
              Some (case instant_checked_add now (probe_lease p) of Some t \<Rightarrow> t | None \<Rightarrow> now)\<rparr>))"

lemmas cell_ops_defs =
  hard_failure_def trip_now_def restore_def cell_success_def try_lease_def

subsection \<open>The backoff length\<close>

lemma duration_loop_closed_form:
  assumes "max_len p \<le> duration_max"
  shows "min (duration_loop p (n, len)) (max_len p) = min (len * 2 ^ n) (max_len p)"
proof (induction n arbitrary: len)
  case 0
  show ?case by simp
next
  case (Suc n)
  let ?d = "dur_saturating_mul len 2"
  have grow: "len * 2 \<le> len * 2 ^ Suc n" by simp
  show ?case
  proof (cases "?d = len \<or> max_len p \<le> ?d")
    case True
    then consider "len = 0" | "max_len p \<le> ?d"
      using assms by (auto simp: dur_saturating_mul_def min_def split: if_splits)
    then show ?thesis
    proof cases
      case 1
      then show ?thesis by (simp add: dur_saturating_mul_def)
    next
      case 2
      then have "max_len p \<le> len * 2" by (simp add: dur_saturating_mul_def)
      from this grow have "max_len p \<le> len * 2 ^ Suc n" by (rule order_trans)
      with 2 True show ?thesis by (simp add: Let_def min_def)
    qed
  next
    case False
    then have "?d = len * 2"
      using assms by (auto simp: dur_saturating_mul_def min_def split: if_splits)
    with False show ?thesis by (simp add: Let_def Suc.IH mult.assoc)
  qed
qed

lemma duration_for_le_max: "duration_for p t \<le> max_len p"
  by (simp add: duration_for_def)

lemma duration_for_pos:
  assumes "0 < initial p" "0 < max_len p" "max_len p \<le> duration_max"
  shows "0 < duration_for p t"
  using assms by (simp add: duration_for_def duration_loop_closed_form)

text \<open>
  Every turn but the last leaves a length below the maximum, and each doubles it: after \<open>k\<close> turns
  the length is \<open>2 ^ k\<close> times a positive start. A duration has fewer than 95 bits.
\<close>

lemma duration_turn_ends:
  assumes "max_len p \<le> duration_max" "max_len p \<le> len * 2 \<or> len = 0"
  shows "fst (duration_turn p (n, len)) = 0"
  using assms by (cases n) (auto simp: dur_saturating_mul_def Let_def)

lemma duration_turns_stay: "fst s = 0 \<Longrightarrow> (duration_turn p ^^ k) s = s"
  by (induction k) (cases s, simp_all)+

lemma duration_turns_Suc: "(duration_turn p ^^ Suc k) s = (duration_turn p ^^ k) (duration_turn p s)"
  by (simp add: funpow_swap1)

lemma duration_turns_end:
  assumes "max_len p \<le> duration_max"
  shows "fst ((duration_turn p ^^ Suc k) (n, len)) = 0 \<or> 0 < len \<and> len * 2 ^ Suc k < max_len p"
proof (induction k arbitrary: n len)
  case 0
  show ?case using duration_turn_ends [OF assms, of len n] by (cases "max_len p \<le> len * 2 \<or> len = 0") (simp_all add: not_le)
next
  case (Suc k)
  show ?case
  proof (cases "fst (duration_turn p (n, len)) = 0")
    case True
    then show ?thesis by (simp only: duration_turns_Suc [of "Suc k"] duration_turns_stay simp_thms)
  next
    case False
    then obtain m where "duration_turn p (n, len) = (m, len * 2)"
      using assms by (cases n) (auto simp: Let_def dur_saturating_mul_def min_def split: if_splits)
    with Suc.IH [of m "len * 2"] show ?thesis
      by (simp only: duration_turns_Suc [of "Suc k"]) (auto simp: mult.assoc)
  qed
qed

lemma duration_turns_run:
  assumes "max_len p \<le> duration_max" "0 < len"
  shows "\<lbrakk>len * 2 ^ k < max_len p; k \<le> n\<rbrakk> \<Longrightarrow> (duration_turn p ^^ k) (n, len) = (n - k, len * 2 ^ k)"
proof (induction k)
  case 0
  show ?case by simp
next
  case (Suc k)
  have "len * 2 ^ k \<le> len * 2 ^ Suc k" "0 < len * 2 ^ k" using assms(2) by simp_all
  moreover obtain m where "n - k = Suc m" using Suc.prems(2) by (cases "n - k") simp_all
  moreover have "dur_saturating_mul (len * 2 ^ k) 2 = len * 2 ^ Suc k"
    using Suc.prems(1) assms(1) by (simp add: dur_saturating_mul_def)
  ultimately show ?case using Suc by (simp add: Let_def)
qed

lemma duration_loop_turns:
  "fst ((duration_turn p ^^ k) s) = 0 \<Longrightarrow> duration_loop p s = snd ((duration_turn p ^^ k) s)"
proof (induction k arbitrary: s)
  case 0
  then show ?case by (cases s) simp
next
  case (Suc k)
  have "duration_loop p s = duration_loop p (duration_turn p s)"
    by (cases "(p, s)" rule: duration_turn.cases) simp_all
  with Suc.IH [of "duration_turn p s"] Suc.prems show ?case by (simp only: duration_turns_Suc)
qed

lemma duration_max_bits: "duration_max < 2 ^ 94"
  by (simp add: duration_max_def from_secs_def)

subsection \<open>The cell as a state machine\<close>

text \<open>
  What the bookkeeping keeps true of a cell under an enabled policy: a healthy cell has a streak
  below the threshold, no trips and no lease; a tripped one has the streak at the threshold and
  at least one trip.
\<close>

definition cell_inv :: "quarantine_policy \<Rightarrow> cell \<Rightarrow> bool" where
  "cell_inv p c \<longleftrightarrow>
     (case until c of
        None \<Rightarrow> consecutive c < threshold p \<and> trips c = 0 \<and> lease_until c = None
      | Some u \<Rightarrow> threshold p \<le> consecutive c \<and> 1 \<le> trips c)"

lemma cell_inv_default: "quarantine_enabled p \<Longrightarrow> cell_inv p default_cell"
  by (simp add: cell_inv_def default_cell_def quarantine_enabled_def)

lemma one_le_saturating_add_u32: "1 \<le> saturating_add_u32 a 1"
  by (simp add: word_le_nat_alt sat_simps)

lemma cell_inv_hard_failure: "cell_inv p c \<Longrightarrow> cell_inv p (snd (hard_failure c now p))"
  using saturating_add_u32_ge [of "consecutive c" 1]
  by (auto simp: cell_inv_def hard_failure_def cell_state_def Let_def one_le_saturating_add_u32
      split: option.splits if_splits)

lemma cell_inv_trip_now: "cell_inv p (snd (trip_now c now p))"
  by (simp add: cell_inv_def trip_now_def Let_def one_le_saturating_add_u32)

lemma cell_inv_restore: "cell_inv p (restore c q left t k now p)"
  by (simp add: cell_inv_def restore_def Let_def)

lemma cell_inv_try_lease: "cell_inv p c \<Longrightarrow> cell_inv p (snd (try_lease c now p))"
  by (auto simp: cell_inv_def try_lease_def cell_state_def split: option.splits if_splits)

lemmas cell_invs =
  cell_inv_default cell_inv_hard_failure cell_inv_trip_now cell_inv_restore cell_inv_try_lease

lemma deadline_le: "deadline now len \<le> now + len"
  by (auto simp: deadline_def instant_checked_add_def)

lemma deadline_ge: "now \<le> deadline now len"
  by (auto simp: deadline_def instant_checked_add_def)

lemma deadline_exact: "now + len \<le> instant_max \<Longrightarrow> deadline now len = now + len"
  by (simp add: deadline_def instant_checked_add_def)

text \<open>
  The steps of a cell together with the clock: each operation happens at the current instant,
  and between operations the clock advances.
\<close>

inductive cell_step :: "quarantine_policy \<Rightarrow> instant \<times> cell \<Rightarrow> instant \<times> cell \<Rightarrow> bool" for p where
  tick: "now \<le> now' \<Longrightarrow> cell_step p (now, c) (now', c)"
| failure: "cell_step p (now, c) (now, snd (hard_failure c now p))"
| trip: "cell_step p (now, c) (now, snd (trip_now c now p))"
| restore: "cell_step p (now, c) (now, restore c q left t k now p)"
| success: "cell_step p (now, c) (now, cell_success c)"
| lease: "cell_step p (now, c) (now, snd (try_lease c now p))"

inductive cell_reachable :: "quarantine_policy \<Rightarrow> instant \<times> cell \<Rightarrow> bool" for p where
  start: "cell_reachable p (now, default_cell)"
| step: "cell_reachable p s \<Longrightarrow> cell_step p s s' \<Longrightarrow> cell_reachable p s'"

lemma cell_step_inv:
  "cell_step p s s' \<Longrightarrow> quarantine_enabled p \<Longrightarrow> cell_inv p (snd s) \<Longrightarrow> cell_inv p (snd s')"
  by (induction rule: cell_step.induct) (simp_all add: cell_invs cell_success_def)

lemma cell_reachable_inv:
  "cell_reachable p s \<Longrightarrow> quarantine_enabled p \<Longrightarrow> cell_inv p (snd s)"
  by (induction rule: cell_reachable.induct) (auto simp: cell_inv_default intro: cell_step_inv)

definition times_bounded :: "quarantine_policy \<Rightarrow> instant \<times> cell \<Rightarrow> bool" where
  "times_bounded p s \<longleftrightarrow>
     (\<forall>u. until (snd s) = Some u \<longrightarrow> u \<le> fst s + max_len p) \<and>
     (\<forall>l. lease_until (snd s) = Some l \<longrightarrow> l \<le> fst s + probe_lease p)"

lemma deadline_duration_for: "deadline now (duration_for p t) \<le> now + max_len p"
  using deadline_le [of now "duration_for p t"] duration_for_le_max [of p t] by linarith

lemma deadline_restore:
  "deadline now (if q then min left (max_len p) else 0) \<le> now + max_len p"
  using deadline_le [of now "min left (max_len p)"] deadline_le [of now 0] by (cases q) auto

lemma cell_step_times: "cell_step p s s' \<Longrightarrow> times_bounded p s \<Longrightarrow> times_bounded p s'"
proof (induction rule: cell_step.induct)
  case (tick now now' c)
  then show ?case by (fastforce simp: times_bounded_def)
next
  case (restore now c q left t k)
  show ?case
    using deadline_restore [of now q left p] by (simp add: times_bounded_def restore_def Let_def)
next
  case (lease now c)
  then show ?case
    by (auto simp: times_bounded_def try_lease_def instant_checked_add_def split: option.splits)
qed (auto simp: times_bounded_def cell_ops_defs Let_def default_cell_def deadline_duration_for)

lemma cell_reachable_times: "cell_reachable p s \<Longrightarrow> times_bounded p s"
proof (induction rule: cell_reachable.induct)
  case (start now)
  show ?case by (simp add: times_bounded_def default_cell_def)
next
  case (step s s')
  then show ?case by (blast intro: cell_step_times)
qed

lemma tripped_past_until:
  "is_tripped c \<Longrightarrow> (\<And>u. until c = Some u \<Longrightarrow> u \<le> t) \<Longrightarrow> cell_state c t = Probation"
  by (auto simp: is_tripped_def cell_state_def split: option.splits)

text \<open>A run of hard failures, one at each given instant, with what each of them returned.\<close>

fun hard_failures ::
  "cell \<Rightarrow> instant list \<Rightarrow> quarantine_policy \<Rightarrow> duration option list \<times> cell" where
  "hard_failures c [] p = ([], c)"
| "hard_failures c (t # ts) p =
     (let (r, c1) = hard_failure c t p; (rs, c2) = hard_failures c1 ts p in (r # rs, c2))"

lemma hard_failures_append:
  "hard_failures c (ts @ us) p =
     (let (rs, c1) = hard_failures c ts p; (rs', c2) = hard_failures c1 us p in (rs @ rs', c2))"
  by (induction ts arbitrary: c) (auto simp: Let_def split: prod.splits)

lemma hard_failure_below_threshold:
  assumes "until c = None" "unat (consecutive c) + 1 < unat (threshold p)"
  shows "hard_failure c t p = (None, c\<lparr>lease_until := None, consecutive := consecutive c + 1\<rparr>)"
proof -
  have small: "unat (consecutive c) + 1 < 2 ^ 32"
    using assms(2) unsigned_less [of "threshold p", where ?'a = nat] by simp
  then have "saturating_add_u32 (consecutive c) 1 = consecutive c + 1"
    by (simp add: saturating_add_u32_def)
  moreover from small have "unat (consecutive c + 1) = unat (consecutive c) + 1"
    by (simp add: unat_word_ariths)
  ultimately show ?thesis
    using assms by (simp add: hard_failure_def cell_state_def word_less_nat_alt)
qed

lemma hard_failures_below_threshold:
  assumes "until c = None" "unat (consecutive c) + length ts < unat (threshold p)"
  shows "\<exists>c'. hard_failures c ts p = (replicate (length ts) None, c') \<and> until c' = None \<and>
           trips c' = trips c \<and> unat (consecutive c') = unat (consecutive c) + length ts"
  using assms
proof (induction ts arbitrary: c)
  case Nil
  then show ?case by simp
next
  case (Cons t ts)
  let ?c = "c\<lparr>lease_until := None, consecutive := consecutive c + 1\<rparr>"
  from Cons.prems have hf: "hard_failure c t p = (None, ?c)"
    by (intro hard_failure_below_threshold) auto
  have "unat (consecutive c) + 1 < 2 ^ 32"
    using Cons.prems(2) unsigned_less [of "threshold p", where ?'a = nat] by simp
  then have n: "unat (consecutive c + 1) = unat (consecutive c) + 1"
    by (simp add: unat_word_ariths)
  with Cons.prems Cons.IH [of ?c] show ?case by (auto simp: hf Let_def)
qed

subsection \<open>Properties\<close>

text \<open>
  The backoff. The length of the \<open>t\<close>-th quarantine is the initial length doubled \<open>t - 1\<close>
  times and capped at the maximum, although the loop saturates and stops early; the policy's
  maximum being a \<open>Duration\<close> is the only thing it needs.
\<close>

theorem duration_for_doubles_up_to_max:
  assumes "max_len p \<le> duration_max"
  shows "duration_for p t = min (initial p * 2 ^ (unat t - 1)) (max_len p)"
  using assms by (simp add: duration_for_def duration_loop_closed_form)

theorem duration_for_doubles_up_to_max_witness:
  "duration_for default_quarantine_policy 4 = from_secs 240 \<and>
   duration_for default_quarantine_policy 9 = from_secs 600"
proof -
  have m: "max_len default_quarantine_policy \<le> duration_max"
    by (simp add: default_quarantine_policy_def duration_max_def from_secs_def)
  show ?thesis
    using duration_for_doubles_up_to_max [OF m, of 4] duration_for_doubles_up_to_max [OF m, of 9]
    by (simp add: default_quarantine_policy_def from_secs_def)
qed

text \<open>
  C8: the work of the backoff loop. Whatever the trip count, the loop has ended after at most 94 turns
  of its body, with the length that is returned: the initial length doubled once per earlier trip, capped
  at the maximum. (The witness needs all 94, going from one nanosecond to \<open>Duration::MAX\<close>.)
\<close>

theorem duration_loop_work_bound:
  assumes "max_len p \<le> duration_max"
  shows "\<exists>len. (duration_turn p ^^ 94) (unat t - 1, initial p) = (0, len) \<and>
           duration_for p t = min len (max_len p) \<and>
           duration_for p t = min (initial p * 2 ^ (unat t - 1)) (max_len p)"
proof -
  let ?s = "(duration_turn p ^^ Suc 93) (unat t - 1, initial p)"
  have "\<not> (0 < initial p \<and> initial p * 2 ^ Suc 93 < max_len p)"
  proof
    assume "0 < initial p \<and> initial p * 2 ^ Suc 93 < max_len p"
    moreover from this have "2 ^ Suc 93 \<le> initial p * 2 ^ Suc 93" by simp
    ultimately have "2 ^ 94 < duration_max" using assms(1) by simp
    with duration_max_bits show False by simp
  qed
  with duration_turns_end [OF assms, of 93] have end_: "fst ?s = 0" by blast
  moreover have "duration_for p t = min (snd ?s) (max_len p)"
    unfolding duration_for_def duration_loop_turns [OF end_] ..
  moreover have "duration_for p t = min (initial p * 2 ^ (unat t - 1)) (max_len p)"
    unfolding duration_for_def using assms by (rule duration_loop_closed_form)
  moreover have "Suc 93 = 94" by simp
  ultimately show ?thesis by (metis prod.collapse)
qed

theorem duration_loop_work_bound_witness:
  "let p = default_quarantine_policy\<lparr>initial := 1, max_len := duration_max\<rparr> in
   (\<exists>len. (duration_turn p ^^ 94) (unat (200::u32) - 1, 1) = (0, len) \<and> duration_for p 200 = min len duration_max) \<and>
   (duration_turn p ^^ 93) (unat (200::u32) - 1, 1) = (106, 2 ^ 93)"
proof -
  let ?p = "default_quarantine_policy\<lparr>initial := 1, max_len := duration_max\<rparr>"
  have "(duration_turn ?p ^^ 93) (199, 1) = (106, 2 ^ 93)"
    using duration_turns_run [of ?p 1 93 199] by (simp add: duration_max_def from_secs_def)
  then show ?thesis
    using duration_loop_work_bound [of ?p 200] by (auto simp: Let_def)
qed

text \<open>
  The cell invariant. In every state a cell can reach under an enabled policy, a healthy
  cell has a streak below the threshold, no trips and no lease, and a tripped cell has its
  streak at the threshold or above and at least one trip.
\<close>

theorem cell_reachable_bookkeeping:
  assumes "cell_reachable p (now, c)" "quarantine_enabled p"
  shows "if is_tripped c then threshold p \<le> consecutive c \<and> 1 \<le> trips c
         else consecutive c < threshold p \<and> trips c = 0 \<and> lease_until c = None"
  using cell_reachable_inv [OF assms] by (auto simp: cell_inv_def is_tripped_def split: option.splits)

text \<open>
  The threshold. From a fresh cell, hard failures at any instants return no quarantine until
  the one that completes the threshold, which quarantines for the first backoff length.
\<close>

theorem hard_failures_trip_at_threshold:
  assumes "quarantine_enabled p" "length ts = unat (threshold p) - 1"
  shows "\<exists>c. hard_failures default_cell (ts @ [t]) p =
           (replicate (length ts) None @ [Some (duration_for p 1)], c) \<and>
           until c = Some (deadline t (duration_for p 1)) \<and> trips c = 1 \<and> consecutive c = threshold p"
proof -
  have pos: "0 < unat (threshold p)"
    using assms(1) by (simp add: quarantine_enabled_def word_less_nat_alt)
  with assms(2) have "unat (consecutive default_cell) + length ts < unat (threshold p)"
    by (simp add: default_cell_def)
  then obtain c where run: "hard_failures default_cell ts p = (replicate (length ts) None, c)"
    and c: "until c = None" "trips c = 0" "unat (consecutive c) = length ts"
    using hard_failures_below_threshold [of default_cell ts p] by (auto simp: default_cell_def)
  have "unat (saturating_add_u32 (consecutive c) 1) = unat (threshold p)"
    using pos assms(2) c(3) unsigned_less [of "threshold p", where ?'a = nat] by (simp add: sat_simps)
  then have thr: "saturating_add_u32 (consecutive c) 1 = threshold p" by (simp add: word_unat_eq_iff)
  have one: "saturating_add_u32 0 1 = 1" by (simp add: saturating_add_u32_def)
  show ?thesis
    using c by (simp add: hard_failures_append run hard_failure_def cell_state_def thr one Let_def)
qed


theorem hard_failures_trip_at_threshold_witness:
  "quarantine_enabled default_quarantine_policy \<and>
   fst (hard_failures default_cell [10, 20, 30] default_quarantine_policy) =
     [None, None, Some (from_secs 30)]"
proof -
  have e: "quarantine_enabled default_quarantine_policy"
    by (simp add: quarantine_enabled_def default_quarantine_policy_def)
  have l: "length [10, 20 :: nat] = unat (threshold default_quarantine_policy) - 1"
    by (simp add: default_quarantine_policy_def)
  have "duration_for default_quarantine_policy 1 = from_secs 30"
    by (simp add: duration_for_def default_quarantine_policy_def from_secs_def)
  then show ?thesis
    using e hard_failures_trip_at_threshold [OF e l, of 30] by auto
qed

theorem cell_reachable_bookkeeping_witness:
  "quarantine_enabled default_quarantine_policy \<and>
   cell_reachable default_quarantine_policy (7, snd (trip_now default_cell 7 default_quarantine_policy)) \<and>
   threshold default_quarantine_policy \<le>
     consecutive (snd (trip_now default_cell 7 default_quarantine_policy))"
proof -
  have e: "quarantine_enabled default_quarantine_policy"
    by (simp add: quarantine_enabled_def default_quarantine_policy_def)
  have r: "cell_reachable default_quarantine_policy
      (7, snd (trip_now default_cell 7 default_quarantine_policy))"
    by (rule cell_reachable.step [OF cell_reachable.start]) (rule cell_step.trip)
  show ?thesis
    using e r cell_reachable_bookkeeping [OF r e] by (simp add: is_tripped_def trip_now_def Let_def)
qed

text \<open>
  Exclusion is bounded. Whatever happened to an upstream up to now, if it is tripped and
  nothing is reported for it during \<open>max(max_len, probe_lease)\<close>, it is on probation and the next
  \<open>try_lease\<close> hands it out for a probe: no upstream stays locked out.
\<close>

theorem tripped_cell_is_probed_again:
  assumes "cell_reachable p (now, c)" "is_tripped c"
    and "now + max (max_len p) (probe_lease p) \<le> t"
  shows "cell_state c t = Probation \<and> fst (try_lease c t p)"
proof -
  have b: "\<And>u. until c = Some u \<Longrightarrow> u \<le> t" "\<And>l. lease_until c = Some l \<Longrightarrow> l \<le> t"
    using cell_reachable_times [OF assms(1)] assms(3) by (fastforce simp: times_bounded_def)+
  from tripped_past_until [OF assms(2) b(1)] have "cell_state c t = Probation" .
  with b(2) show ?thesis by (auto simp: try_lease_def split: option.splits)
qed

theorem tripped_cell_is_probed_again_witness:
  "cell_state (snd (trip_now default_cell 0 default_quarantine_policy)) (from_secs 600) = Probation \<and>
   fst (try_lease (snd (trip_now default_cell 0 default_quarantine_policy)) (from_secs 600)
          default_quarantine_policy)"
proof -
  have r: "cell_reachable default_quarantine_policy
      (0, snd (trip_now default_cell 0 default_quarantine_policy))"
    by (rule cell_reachable.step [OF cell_reachable.start]) (rule cell_step.trip)
  show ?thesis
    by (rule tripped_cell_is_probed_again [OF r])
      (simp_all add: is_tripped_def trip_now_def Let_def default_quarantine_policy_def from_secs_def)
qed

text \<open>
  A probe is exclusive. After a lease is granted, no other lease of that cell is granted
  before the lease time is over, and one is granted from then on.
\<close>

theorem probe_lease_exclusive:
  assumes "try_lease c now p = (True, c')" "now + probe_lease p \<le> instant_max" "now \<le> t"
  shows "fst (try_lease c' t p) \<longleftrightarrow> now + probe_lease p \<le> t"
proof -
  have st: "cell_state c now = Probation"
    and c': "c' = c\<lparr>lease_until := Some (now + probe_lease p)\<rparr>"
    using assms(1,2) by (auto simp: try_lease_def instant_checked_add_def split: if_splits option.splits)
  from st assms(3) have "cell_state c' t = Probation"
    by (auto simp: c' cell_state_def split: option.splits if_splits)
  then show ?thesis by (auto simp: try_lease_def c')
qed

theorem probe_lease_exclusive_witness:
  "\<not> fst (try_lease (snd (try_lease (default_cell\<lparr>until := Some 5\<rparr>) 5 default_quarantine_policy))
            (from_secs 25) default_quarantine_policy)"
proof -
  let ?c = "default_cell\<lparr>until := Some 5\<rparr>" and ?p = default_quarantine_policy
  have g: "try_lease ?c 5 ?p = (True, snd (try_lease ?c 5 ?p))"
    by (simp add: try_lease_def cell_state_def default_cell_def)
  show ?thesis
    using probe_lease_exclusive [OF g, of "from_secs 25"]
    by (simp add: default_quarantine_policy_def from_secs_def instant_max_def)
qed

text \<open>
  A failed probe re-trips. A hard failure of an upstream on probation quarantines it again,
  until the deadline of the next, doubled length; failures that land inside that quarantine
  change nothing.
\<close>

theorem failed_probe_doubles_the_quarantine:
  assumes "cell_inv p c" "cell_state c now = Probation" "max_len p \<le> duration_max"
    and "unat (trips c) + 1 < 2 ^ 32"
  shows "\<exists>c'. hard_failure c now p = (Some (min (initial p * 2 ^ unat (trips c)) (max_len p)), c') \<and>
           until c' = Some (deadline now (min (initial p * 2 ^ unat (trips c)) (max_len p))) \<and>
           trips c' = trips c + 1 \<and>
           (\<forall>t. cell_state c' t = Quarantined \<longrightarrow> hard_failure c' t p = (None, c'))"
proof -
  from assms(1,2) have thr: "threshold p \<le> consecutive c"
    by (auto simp: cell_inv_def cell_state_def split: option.splits if_splits)
  have nt: "\<not> saturating_add_u32 (consecutive c) 1 < threshold p"
    using order_trans [OF thr saturating_add_u32_ge] by (simp add: not_less)
  have tr: "saturating_add_u32 (trips c) 1 = trips c + 1"
    using assms(4) by (simp add: saturating_add_u32_def)
  have "unat (trips c + 1) - 1 = unat (trips c)"
    using assms(4) by (simp add: unat_word_ariths)
  then have len: "duration_for p (trips c + 1) = min (initial p * 2 ^ unat (trips c)) (max_len p)"
    using assms(3) by (simp add: duration_for_def duration_loop_closed_form)
  show ?thesis
    using assms(2) by (simp add: hard_failure_def nt tr len Let_def)
qed

theorem failed_probe_doubles_the_quarantine_witness:
  "fst (hard_failure (\<lparr>consecutive = 3, trips = 1, until = Some 0, lease_until = None\<rparr>) 0
          default_quarantine_policy) = Some (from_secs 60)"
proof -
  let ?c = "\<lparr>consecutive = 3, trips = 1, until = Some 0, lease_until = None\<rparr>"
  have "cell_inv default_quarantine_policy ?c" "cell_state ?c 0 = Probation"
    by (simp_all add: cell_inv_def cell_state_def default_quarantine_policy_def)
  from failed_probe_doubles_the_quarantine [OF this] show ?thesis
    by (auto simp: default_quarantine_policy_def from_secs_def duration_max_def)
qed

end
