(* ===== verification/F64.thy ===== *)
theory F64
  imports Complex_Main Prelude
begin

text \<open>
  The \<open>f64\<close> values of the rating code: finite reals, the two infinities and NaN, with the
  operations the sources use. Overflow to infinity, division by zero, \<open>ln\<close> of nonpositive
  numbers and the NaN rules are modelled; rounding, underflow and the sign of zero are not
  (arithmetic between finite values is exact as long as it stays in range). The linear order of
  the type is \<open>f64::total_cmp\<close>; the IEEE comparisons, false whenever a NaN is involved, are
  \<open>f_lt\<close> and \<open>f_le\<close>.
\<close>

datatype f64 = Fin real | PInf | NInf | NaN

definition f64_max :: real where
  "f64_max = (2 - 1 / 2 ^ 52) * 2 ^ 1023"

definition min_positive :: real where
  "min_positive = 1 / 2 ^ 1022"

text \<open>The \<open>f64\<close> for a real result: infinite when it is out of range.\<close>

definition fin :: "real \<Rightarrow> f64" where
  "fin r = (if f64_max < r then PInf else if r < - f64_max then NInf else Fin r)"

fun is_finite :: "f64 \<Rightarrow> bool" where
  "is_finite (Fin r) = (\<bar>r\<bar> \<le> f64_max)"
| "is_finite _ = False"

subsection \<open>Arithmetic\<close>

definition signed_inf :: "real \<Rightarrow> f64" where
  "signed_inf r = (if 0 < r then PInf else if r < 0 then NInf else NaN)"

instantiation f64 :: "{zero, one, plus, minus, uminus, times, inverse}"
begin

definition zero_f64 :: f64 where "0 = Fin 0"

definition one_f64 :: f64 where "1 = Fin 1"

fun uminus_f64 :: "f64 \<Rightarrow> f64" where
  "- Fin r = Fin (- r)"
| "- PInf = NInf"
| "- NInf = PInf"
| "- NaN = NaN"

fun plus_f64 :: "f64 \<Rightarrow> f64 \<Rightarrow> f64" where
  "Fin a + Fin b = fin (a + b)"
| "NaN + _ = NaN"
| "_ + NaN = NaN"
| "PInf + NInf = NaN"
| "NInf + PInf = NaN"
| "PInf + _ = PInf"
| "_ + PInf = PInf"
| "NInf + _ = NInf"
| "_ + NInf = NInf"

definition minus_f64 :: "f64 \<Rightarrow> f64 \<Rightarrow> f64" where
  "a - b = a + (- b)" for a b :: f64

fun times_f64 :: "f64 \<Rightarrow> f64 \<Rightarrow> f64" where
  "Fin a * Fin b = fin (a * b)"
| "NaN * _ = NaN"
| "_ * NaN = NaN"
| "PInf * PInf = PInf"
| "NInf * NInf = PInf"
| "PInf * NInf = NInf"
| "NInf * PInf = NInf"
| "PInf * Fin b = signed_inf b"
| "Fin a * PInf = signed_inf a"
| "NInf * Fin b = signed_inf (- b)"
| "Fin a * NInf = signed_inf (- a)"

fun divide_f64 :: "f64 \<Rightarrow> f64 \<Rightarrow> f64" where
  "Fin a div Fin b = (if b = 0 then signed_inf a else fin (a / b))"
| "NaN div _ = NaN"
| "_ div NaN = NaN"
| "Fin a div PInf = Fin 0"
| "Fin a div NInf = Fin 0"
| "PInf div Fin b = (if b < 0 then NInf else PInf)"
| "NInf div Fin b = (if b < 0 then PInf else NInf)"
| "PInf div PInf = NaN"
| "PInf div NInf = NaN"
| "NInf div PInf = NaN"
| "NInf div NInf = NaN"

definition inverse_f64 :: "f64 \<Rightarrow> f64" where
  "inverse x = 1 div x" for x :: f64

instance ..

end

fun f_exp :: "f64 \<Rightarrow> f64" where
  "f_exp (Fin r) = fin (exp r)"
| "f_exp PInf = PInf"
| "f_exp NInf = Fin 0"
| "f_exp NaN = NaN"

fun f_ln :: "f64 \<Rightarrow> f64" where
  "f_ln (Fin r) = (if 0 < r then Fin (ln r) else if r = 0 then NInf else NaN)"
| "f_ln PInf = PInf"
| "f_ln NInf = NaN"
| "f_ln NaN = NaN"

subsection \<open>Order\<close>

fun f64_rank :: "f64 \<Rightarrow> nat" where
  "f64_rank NInf = 0"
| "f64_rank (Fin r) = 1"
| "f64_rank PInf = 2"
| "f64_rank NaN = 3"

fun f64_val :: "f64 \<Rightarrow> real" where
  "f64_val (Fin r) = r"
| "f64_val _ = 0"

lemma f64_rank_val_inj: "f64_rank a = f64_rank b \<Longrightarrow> f64_val a = f64_val b \<Longrightarrow> a = b"
  by (cases a; cases b) auto

instantiation f64 :: linorder
begin

definition less_f64 :: "f64 \<Rightarrow> f64 \<Rightarrow> bool" where
  "a < b \<longleftrightarrow> f64_rank a < f64_rank b \<or> f64_rank a = f64_rank b \<and> f64_val a < f64_val b" for a b :: f64

definition less_eq_f64 :: "f64 \<Rightarrow> f64 \<Rightarrow> bool" where
  "a \<le> b \<longleftrightarrow> f64_rank a < f64_rank b \<or> f64_rank a = f64_rank b \<and> f64_val a \<le> f64_val b" for a b :: f64

instance
  by standard (auto simp: less_f64_def less_eq_f64_def dest: f64_rank_val_inj)

end

definition f_lt :: "f64 \<Rightarrow> f64 \<Rightarrow> bool" where
  "f_lt a b \<longleftrightarrow> a \<noteq> NaN \<and> b \<noteq> NaN \<and> a < b"

definition f_le :: "f64 \<Rightarrow> f64 \<Rightarrow> bool" where
  "f_le a b \<longleftrightarrow> a \<noteq> NaN \<and> b \<noteq> NaN \<and> a \<le> b"

text \<open>\<open>f64::min\<close> and \<open>f64::max\<close> ignore a NaN argument.\<close>

definition f_min :: "f64 \<Rightarrow> f64 \<Rightarrow> f64" where
  "f_min a b = (if a = NaN then b else if b = NaN then a else min a b)"

definition f_max :: "f64 \<Rightarrow> f64 \<Rightarrow> f64" where
  "f_max a b = (if a = NaN then b else if b = NaN then a else max a b)"

subsection \<open>Facts\<close>

lemma f64_max_ge: "2 ^ 1023 \<le> f64_max"
  by (simp add: f64_max_def)

lemma f64_max_pos: "0 < f64_max"
  using f64_max_ge by (rule less_le_trans [rotated]) simp

lemma one_le_f64_max: "1 \<le> f64_max"
  using f64_max_ge by (rule order_trans [rotated]) simp

lemma min_positive_pos: "0 < min_positive"
  by (simp add: min_positive_def)

lemma inverse_min_positive: "1 / min_positive \<le> f64_max"
proof -
  have "(2::real) ^ 1022 \<le> 2 ^ 1023" by (rule power_increasing) simp_all
  then show ?thesis using f64_max_ge by (simp add: min_positive_def)
qed

lemma fin_Fin: "\<bar>r\<bar> \<le> f64_max \<Longrightarrow> fin r = Fin r"
  by (simp add: fin_def abs_le_iff)

lemma fin_PInf: "f64_max < r \<Longrightarrow> fin r = PInf"
  by (simp add: fin_def)

lemma is_finite_fin: "is_finite (fin r) \<longleftrightarrow> \<bar>r\<bar> \<le> f64_max"
  by (auto simp: fin_def abs_le_iff)

lemma is_finite_iff: "is_finite x \<longleftrightarrow> (\<exists>r. x = Fin r \<and> \<bar>r\<bar> \<le> f64_max)"
  by (cases x) auto

lemma Fin_order [simp]:
  "Fin a < Fin b \<longleftrightarrow> a < b" "Fin a \<le> Fin b \<longleftrightarrow> a \<le> b"
  "Fin a < PInf" "Fin a < NaN" "NInf < Fin a" "\<not> PInf < Fin a" "\<not> NaN < Fin a" "\<not> Fin a < NInf"
  "Fin a \<le> PInf" "\<not> PInf \<le> Fin a" "PInf < NaN" "PInf \<le> NaN" "\<not> NaN \<le> PInf" "NInf \<le> Fin a"
  "PInf \<le> PInf" "\<not> PInf < PInf" "\<not> Fin a \<le> NInf"
  by (auto simp: less_f64_def less_eq_f64_def)

lemma f_cmp_Fin [simp]: "f_lt (Fin a) (Fin b) \<longleftrightarrow> a < b" "f_le (Fin a) (Fin b) \<longleftrightarrow> a \<le> b"
  by (simp_all add: f_lt_def f_le_def)

lemma f_min_Fin [simp]: "f_min (Fin a) (Fin b) = Fin (min a b)" "f_min PInf (Fin b) = Fin b"
  by (auto simp: f_min_def min_def)

lemma f_max_Fin [simp]: "f_max (Fin a) (Fin b) = Fin (max a b)"
  by (auto simp: f_max_def max_def)

end
