(* ===== verification/Sand.thy ===== *)
theory Sand
  imports F64 Clock Quarantine
begin

text \<open>
  The soft rating: \<open>session/rating/policy.rs\<close> (the knobs and their validation) and
  \<open>session/rating/sand.rs\<close> (the exponentially decaying accumulator). The policy is carried as the
  code has it, five \<open>f64\<close> fields; \<open>validate_rating\<close> is what makes them finite and in range.
\<close>

subsection \<open>RatingPolicy\<close>

record rating_policy =
  half_life_sec :: f64
  fail_penalty :: f64
  sand_max :: f64
  min_weight :: f64
  success_factor :: f64

definition default_rating_policy :: rating_policy where
  "default_rating_policy =
     \<lparr>half_life_sec = Fin 30, fail_penalty = Fin 1, sand_max = Fin 8,
      min_weight = Fin (5 / 100), success_factor = Fin (1 / 2)\<rparr>"

definition rating_enabled :: "rating_policy \<Rightarrow> bool" where
  "rating_enabled p \<longleftrightarrow> f_lt 0 (fail_penalty p)"

definition tau :: "rating_policy \<Rightarrow> f64" where
  "tau p = half_life_sec p div Fin (ln 2)"

definition weight_k :: "rating_policy \<Rightarrow> f64" where
  "weight_k p = f_ln (1 div min_weight p) div sand_max p"

fun first_non_finite :: "(string \<times> f64) list \<Rightarrow> string option" where
  "first_non_finite [] = None"
| "first_non_finite ((name, value) # rest) =
     (if \<not> is_finite value then Some name else first_non_finite rest)"

definition validate_rating :: "rating_policy \<Rightarrow> rating_error + unit" where
  "validate_rating p =
     (case first_non_finite
        [(''half_life_sec'', half_life_sec p), (''fail_penalty'', fail_penalty p),
         (''sand_max'', sand_max p), (''min_weight'', min_weight p),
         (''success_factor'', success_factor p)] of
        Some name \<Rightarrow> Err (InvalidPolicy (''rating policy: '' @ name @ '' must be finite''))
      | None \<Rightarrow>
     if f_le (half_life_sec p) 0
       then Err (InvalidPolicy ''rating policy: half_life_sec must be > 0'')
     else if \<not> is_finite (tau p)
       then Err (InvalidPolicy ''rating policy: half_life_sec / ln 2 must be finite'')
     else if f_le (sand_max p) 0
       then Err (InvalidPolicy ''rating policy: sand_max must be > 0'')
     else if f_le (min_weight p) 0 \<or> f_lt 1 (min_weight p)
       then Err (InvalidPolicy ''rating policy: min_weight must be in (0, 1]'')
     else if f_lt (min_weight p) (Fin min_positive)
       then Err (InvalidPolicy ''rating policy: min_weight must be >= f64::MIN_POSITIVE'')
     else if \<not> (f_le 0 (success_factor p) \<and> f_le (success_factor p) 1)
       then Err (InvalidPolicy ''rating policy: success_factor must be in [0, 1]'')
     else if f_lt (fail_penalty p) 0
       then Err (InvalidPolicy ''rating policy: fail_penalty must be >= 0'')
     else
       let k = weight_k p in
       if \<not> is_finite k
         then Err (InvalidPolicy ''rating policy: k() = ln(1/min_weight) / sand_max must be finite'')
       else if \<not> is_finite (f_exp (- k * 0))
         then Err (InvalidPolicy ''rating policy: exp(-k * 0) must be finite'')
       else if \<not> is_finite (f_exp (- k * sand_max p))
         then Err (InvalidPolicy ''rating policy: exp(-k * sand_max) must be finite'')
       else Ok ())"

subsection \<open>Sand\<close>

record sand =
  sand_level :: f64
  sand_last :: instant

definition sand_new :: "instant \<Rightarrow> sand" where
  "sand_new now = \<lparr>sand_level = 0, sand_last = now\<rparr>"

definition as_secs_f64 :: "duration \<Rightarrow> f64" where
  "as_secs_f64 d = Fin (real d / 10 ^ 9)"

definition level_at :: "sand \<Rightarrow> instant \<Rightarrow> rating_policy \<Rightarrow> f64" where
  "level_at s now p =
     (let dt = as_secs_f64 (saturating_duration_since now (sand_last s));
          decayed = sand_level s * f_exp (- dt div tau p)
      in if f_lt decayed (sand_max p * Fin (1 / 10 ^ 6)) then 0 else decayed)"

definition observe_failure :: "sand \<Rightarrow> instant \<Rightarrow> rating_policy \<Rightarrow> sand" where
  "observe_failure s now p =
     \<lparr>sand_level = f_min (level_at s now p + fail_penalty p) (sand_max p), sand_last = now\<rparr>"

definition observe_success :: "sand \<Rightarrow> instant \<Rightarrow> rating_policy \<Rightarrow> sand" where
  "observe_success s now p =
     \<lparr>sand_level = level_at s now p * success_factor p, sand_last = now\<rparr>"

definition sand_weight :: "sand \<Rightarrow> instant \<Rightarrow> rating_policy \<Rightarrow> f64" where
  "sand_weight s now p = f_exp (- weight_k p * level_at s now p)"

subsection \<open>A validated policy, as reals\<close>

lemmas f64_consts = zero_f64_def one_f64_def

definition policy_reals ::
  "rating_policy \<Rightarrow> real \<Rightarrow> real \<Rightarrow> real \<Rightarrow> real \<Rightarrow> real \<Rightarrow> bool" where
  "policy_reals p H F M m sf \<longleftrightarrow>
     p = \<lparr>half_life_sec = Fin H, fail_penalty = Fin F, sand_max = Fin M, min_weight = Fin m,
          success_factor = Fin sf\<rparr> \<and>
     0 < H \<and> H / ln 2 \<le> f64_max \<and> 0 \<le> F \<and> F \<le> f64_max \<and> 0 < M \<and> M \<le> f64_max \<and>
     min_positive \<le> m \<and> m \<le> 1 \<and> 0 \<le> sf \<and> sf \<le> 1 \<and> ln (1 / m) / M \<le> f64_max"

lemma ln_one_over_min_weight:
  assumes "min_positive \<le> m" "m \<le> 1"
  shows "\<bar>1 / m\<bar> \<le> f64_max" "0 \<le> ln (1 / m)" "ln (1 / m) \<le> f64_max" "0 < m"
proof -
  show m: "0 < m" using assms min_positive_pos by linarith
  have "1 / m \<le> 1 / min_positive"
    using assms min_positive_pos by (intro divide_left_mono) (auto simp: mult_pos_pos m)
  then show le: "\<bar>1 / m\<bar> \<le> f64_max" using inverse_min_positive m by simp
  show "0 \<le> ln (1 / m)" using assms m by simp
  have "ln (1 / m) \<le> 1 / m - 1" using m by (intro ln_le_minus_one) simp
  with le show "ln (1 / m) \<le> f64_max" by linarith
qed

lemma weight_k_reals:
  assumes "min_weight p = Fin m" "sand_max p = Fin M" "min_positive \<le> m" "m \<le> 1" "0 < M"
  shows "weight_k p = fin (ln (1 / m) / M)"
  using assms ln_one_over_min_weight [OF assms(3,4)]
  by (simp add: weight_k_def f64_consts fin_Fin)

lemma validate_rating_Ok:
  assumes "validate_rating p = Ok ()"
  obtains H F M m sf where "policy_reals p H F M m sf"
proof -
  from assms have fin: "is_finite (half_life_sec p)" "is_finite (fail_penalty p)" "is_finite (sand_max p)"
      "is_finite (min_weight p)" "is_finite (success_factor p)"
    by (auto simp: validate_rating_def split: if_splits)
  then obtain H F M m sf where
    p: "half_life_sec p = Fin H" "fail_penalty p = Fin F" "sand_max p = Fin M" "min_weight p = Fin m"
      "success_factor p = Fin sf"
    and le: "\<bar>H\<bar> \<le> f64_max" "\<bar>F\<bar> \<le> f64_max" "\<bar>M\<bar> \<le> f64_max"
    by (auto simp: is_finite_iff)
  from assms fin have rng: "0 < H" "0 < M" "min_positive \<le> m" "m \<le> 1" "0 \<le> sf" "sf \<le> 1" "0 \<le> F"
    and tau: "is_finite (tau p)" and k: "is_finite (weight_k p)"
    by (auto simp: validate_rating_def Let_def p f64_consts not_le not_less split: if_splits)
  have "H / ln 2 \<le> f64_max"
    using tau rng(1) by (simp add: tau_def p is_finite_fin)
  moreover have "ln (1 / m) / M \<le> f64_max"
    using k weight_k_reals [OF p(4,3) rng(3,4,2)] by (metis abs_le_D1 is_finite_fin)
  ultimately have "policy_reals p H F M m sf"
    using p le rng by (cases p) (simp add: policy_reals_def)
  then show ?thesis by (rule that)
qed


subsection \<open>The accumulator over a validated policy\<close>

definition decayed_level :: "real \<Rightarrow> real \<Rightarrow> real \<Rightarrow> real \<Rightarrow> real" where
  "decayed_level H M l dt =
     (let d = l * exp (- (dt / (H / ln 2))) in if d < M / 10 ^ 6 then 0 else d)"

definition sand_ok :: "rating_policy \<Rightarrow> sand \<Rightarrow> bool" where
  "sand_ok p s \<longleftrightarrow> (\<exists>l. sand_level s = Fin l \<and> 0 \<le> l \<and> Fin l \<le> sand_max p)"

lemma exp_neg_le_one: "0 \<le> x \<Longrightarrow> exp (- x) \<le> (1::real)"
  by simp

lemma exp_neg_tiny:
  assumes "10 ^ 6 \<le> (x::real)"
  shows "exp (- x) < 1 / 10 ^ 6"
proof -
  have "1 + x \<le> exp x" by (rule exp_ge_add_one_self)
  with assms have "10 ^ 6 < exp x" by linarith
  then show ?thesis by (simp add: exp_minus field_simps)
qed

lemma decayed_level_bounds:
  assumes "0 \<le> l" "0 \<le> dt" "0 < H"
  shows "0 \<le> decayed_level H M l dt" "decayed_level H M l dt \<le> l"
proof -
  have e: "exp (- (dt / (H / ln 2))) \<le> 1" using assms by (intro exp_neg_le_one) simp
  with assms show "0 \<le> decayed_level H M l dt" "decayed_level H M l dt \<le> l"
    using mult_left_le [OF e assms(1)] by (auto simp: decayed_level_def Let_def)
qed

lemma decay_factor:
  assumes "policy_reals p H F M m sf" "0 \<le> dt"
  shows "f_exp (- Fin dt div tau p) = Fin (exp (- (dt / (H / ln 2)))) \<or>
         f_exp (- Fin dt div tau p) = Fin 0 \<and> 10 ^ 6 \<le> dt / (H / ln 2)"
proof -
  let ?T = "H / ln 2"
  have T: "0 < ?T" "tau p = Fin ?T" "0 < H"
    using assms(1) by (auto simp: policy_reals_def tau_def fin_Fin)
  have y: "0 \<le> dt / ?T" using T assms(2) by (simp del: divide_divide_eq_right)
  have e1: "\<bar>exp (- (dt / ?T))\<bar> \<le> f64_max"
    using order_trans [OF exp_neg_le_one [OF y] one_le_f64_max] by (simp only: abs_exp_cancel)
  have div: "- Fin dt div tau p = fin (- (dt / ?T))"
    using T by (simp del: divide_divide_eq_right)
  have big: "10 ^ 6 \<le> f64_max" using f64_max_ge by (rule order_trans [rotated]) simp
  show ?thesis
  proof (cases "dt / ?T \<le> f64_max")
    case True
    then have "fin (- (dt / ?T)) = Fin (- (dt / ?T))" using y by (intro fin_Fin) linarith
    then show ?thesis unfolding div using e1 by (simp add: fin_Fin del: divide_divide_eq_right)
  next
    case False
    then have "fin (- (dt / ?T)) = NInf" using f64_max_pos by (simp add: fin_def del: divide_divide_eq_right)
    then show ?thesis unfolding div using False big by (simp del: divide_divide_eq_right)
  qed
qed

lemma level_at_factor:
  assumes "as_secs_f64 (saturating_duration_since now (sand_last s)) = Fin dt"
    and "f_exp (- Fin dt div tau p) = Fin e" "0 \<le> e" "e \<le> 1"
    and "sand_max p = Fin M" "0 < M" "M \<le> f64_max"
    and "sand_level s = Fin l" "0 \<le> l" "l \<le> M"
  shows "level_at s now p = Fin (if l * e < M / 10 ^ 6 then 0 else l * e)"
proof -
  have thr: "sand_max p * Fin (1 / 10 ^ 6) = Fin (M / 10 ^ 6)"
    using assms by (simp add: fin_Fin)
  have "0 \<le> l * e" "l * e \<le> l"
    using assms by (simp_all add: mult_left_le)
  then have d: "sand_level s * f_exp (- Fin dt div tau p) = Fin (l * e)"
    using assms by (simp only: assms(2,8) times_f64.simps) (rule fin_Fin, linarith)
  show ?thesis
    by (simp only: level_at_def assms(1) d thr Let_def f_cmp_Fin f64_consts) simp
qed

lemma level_at_reals:
  assumes pr: "policy_reals p H F M m sf" and s: "sand_level s = Fin l" "0 \<le> l" "l \<le> M"
  shows "level_at s now p = Fin (decayed_level H M l (real (now - sand_last s) / 10 ^ 9))"
proof -
  define dt where "dt = real (now - sand_last s) / 10 ^ 9"
  define e where "e = exp (- (dt / (H / ln 2)))"
  from pr have M: "sand_max p = Fin M" "0 < M" "M \<le> f64_max" and H: "0 < H"
    by (auto simp: policy_reals_def)
  have dt: "as_secs_f64 (saturating_duration_since now (sand_last s)) = Fin dt" "0 \<le> dt"
    by (simp_all add: as_secs_f64_def saturating_duration_since_def dt_def)
  have e: "0 \<le> e" "e \<le> 1" using H dt(2) by (simp_all add: e_def)
  have goal: "decayed_level H M l dt = (if l * e < M / 10 ^ 6 then 0 else l * e)"
    by (simp only: decayed_level_def e_def Let_def)
  from decay_factor [OF pr dt(2)] show ?thesis
    unfolding dt_def [symmetric] goal
  proof (elim disjE conjE)
    assume "f_exp (- Fin dt div tau p) = Fin (exp (- (dt / (H / ln 2))))"
    then show "level_at s now p = Fin (if l * e < M / 10 ^ 6 then 0 else l * e)"
      unfolding e_def [symmetric] by (rule level_at_factor [OF dt(1) _ e M s])
  next
    assume z: "f_exp (- Fin dt div tau p) = Fin 0" and "10 ^ 6 \<le> dt / (H / ln 2)"
    then have "e < 1 / 10 ^ 6" unfolding e_def by (intro exp_neg_tiny)
    with M have "M * e < M * (1 / 10 ^ 6)" by (intro mult_strict_left_mono)
    moreover have "l * e \<le> M * e" using s e by (intro mult_right_mono)
    ultimately have "l * e < M / 10 ^ 6" by simp
    then show "level_at s now p = Fin (if l * e < M / 10 ^ 6 then 0 else l * e)"
      using level_at_factor [OF dt(1) z _ _ M s] M by simp
  qed
qed

lemma level_at_ok:
  assumes "policy_reals p H F M m sf" "sand_ok p s"
  obtains l where "level_at s now p = Fin l" "0 \<le> l" "l \<le> M"
proof -
  from assms obtain l where l: "sand_level s = Fin l" "0 \<le> l" "l \<le> M"
    by (auto simp: sand_ok_def policy_reals_def)
  let ?d = "decayed_level H M l (real (now - sand_last s) / 10 ^ 9)"
  have "0 \<le> ?d" "?d \<le> l"
    using assms(1) l(2) by (auto intro!: decayed_level_bounds simp: policy_reals_def)
  with level_at_reals [OF assms(1) l, of now] l show ?thesis by (intro that [of ?d]) auto
qed

lemma sand_ok_new: "policy_reals p H F M m sf \<Longrightarrow> sand_ok p (sand_new t)"
  by (auto simp: sand_ok_def sand_new_def policy_reals_def f64_consts)

lemma sand_ok_failure:
  assumes pr: "policy_reals p H F M m sf" and "sand_ok p s"
  shows "sand_ok p (observe_failure s now p)"
proof -
  from assms obtain l where l: "level_at s now p = Fin l" "0 \<le> l" "l \<le> M" by (rule level_at_ok)
  from pr have F: "fail_penalty p = Fin F" "sand_max p = Fin M" "0 \<le> F" "0 < M" "M \<le> f64_max"
    by (auto simp: policy_reals_def)
  show ?thesis
  proof (cases "l + F \<le> f64_max")
    case True
    with l F have "fin (l + F) = Fin (l + F)" by (intro fin_Fin) simp
    with l F show ?thesis by (simp add: sand_ok_def observe_failure_def)
  next
    case False
    then show ?thesis using l F by (simp add: sand_ok_def observe_failure_def fin_PInf)
  qed
qed

lemma sand_ok_success:
  assumes pr: "policy_reals p H F M m sf" and "sand_ok p s"
  shows "sand_ok p (observe_success s now p)"
proof -
  from assms obtain l where l: "level_at s now p = Fin l" "0 \<le> l" "l \<le> M" by (rule level_at_ok)
  from pr have f: "success_factor p = Fin sf" "sand_max p = Fin M" "0 \<le> sf" "sf \<le> 1" "M \<le> f64_max"
    by (auto simp: policy_reals_def)
  have b: "0 \<le> l * sf" "l * sf \<le> l" using l f by (auto intro: mult_left_le)
  then have "fin (l * sf) = Fin (l * sf)" using l f by (intro fin_Fin) linarith
  with b l f show ?thesis by (simp add: sand_ok_def observe_success_def)
qed

lemma sand_weight_reals:
  assumes pr: "policy_reals p H F M m sf" and l: "level_at s now p = Fin l" "0 \<le> l" "l \<le> M"
  shows "sand_weight s now p = Fin (exp (- (ln (1 / m) / M * l)))"
    and "m \<le> exp (- (ln (1 / m) / M * l))" and "exp (- (ln (1 / m) / M * l)) \<le> 1"
proof -
  let ?k = "ln (1 / m) / M"
  from pr have q: "min_weight p = Fin m" "sand_max p = Fin M" "min_positive \<le> m" "m \<le> 1" "0 < M"
      "?k \<le> f64_max"
    by (auto simp: policy_reals_def)
  note mw = ln_one_over_min_weight [OF q(3,4)]
  have k: "weight_k p = Fin ?k" "0 \<le> ?k"
    using weight_k_reals [OF q(1-5)] q mw by (auto simp: fin_Fin)
  have "?k * l \<le> ?k * M" using l k(2) by (intro mult_left_mono)
  then have kl: "?k * l \<le> ln (1 / m)" using q(5) by simp
  have kl0: "0 \<le> ?k * l" using k(2) l(2) by (rule mult_nonneg_nonneg)
  have "- weight_k p * level_at s now p = fin (- (?k * l))" by (simp only: k(1) l(1)) simp
  also have "\<dots> = Fin (- (?k * l))" using kl kl0 mw(3) by (intro fin_Fin) linarith
  finally have w: "- weight_k p * level_at s now p = Fin (- (?k * l))" .
  have e: "exp (- (?k * l)) \<le> 1" using kl0 by (rule exp_neg_le_one)
  then show "exp (- (?k * l)) \<le> 1" .
  have "exp (- ln (1 / m)) \<le> exp (- (?k * l))" using kl by simp
  then show "m \<le> exp (- (?k * l))" using mw(4) by (simp add: ln_div)
  show "sand_weight s now p = Fin (exp (- (?k * l)))"
    unfolding sand_weight_def w f_exp.simps using order_trans [OF e one_le_f64_max]
    by (intro fin_Fin) (simp only: abs_exp_cancel)
qed


text \<open>A history of outcomes of one upstream, each at its instant.\<close>

datatype outcome = Failed instant | Succeeded instant

fun sand_run :: "sand \<Rightarrow> outcome list \<Rightarrow> rating_policy \<Rightarrow> sand" where
  "sand_run s [] p = s"
| "sand_run s (Failed t # es) p = sand_run (observe_failure s t p) es p"
| "sand_run s (Succeeded t # es) p = sand_run (observe_success s t p) es p"

lemma sand_ok_run: "policy_reals p H F M m sf \<Longrightarrow> sand_ok p s \<Longrightarrow> sand_ok p (sand_run s es p)"
  by (induction s es p rule: sand_run.induct) (simp_all add: sand_ok_failure sand_ok_success)

lemma exp_minus_20_ln_2: "exp (- (20 * ln 2)) = 1 / (2::real) ^ 20"
proof -
  have "exp (real 20 * ln 2) = exp (ln (2::real)) ^ 20" by (rule exp_of_nat_mult)
  also have "exp (ln (2::real)) = 2" by (rule exp_ln) simp
  finally have "exp (20 * ln 2) = (2::real) ^ 20" by (simp only: of_nat_numeral)
  then show ?thesis by (simp only: exp_minus inverse_eq_divide)
qed

lemma validate_default_rating: "validate_rating default_rating_policy = Ok ()"
proof -
  have big: "10 ^ 6 \<le> f64_max" using f64_max_ge by (rule order_trans [rotated]) simp
  have l20: "0 \<le> ln (20::real)" "ln (20::real) \<le> 19" using ln_le_minus_one [of "20::real"] by simp_all
  have l2: "1 / 2 \<le> ln (2::real)" using ln_le_minus_one [of "1 / 2 :: real"] by (simp add: ln_div)
  have mp: "min_positive \<le> 1 / 20"
    unfolding min_positive_def by (rule divide_left_mono) simp_all
  have "30 / ln 2 \<le> 30 / (1 / 2 :: real)" using l2 by (intro divide_left_mono) simp_all
  then have t0: "\<bar>30 / ln 2\<bar> \<le> f64_max" using big l2 by simp
  then have t: "tau default_rating_policy = Fin (30 / ln 2)"
    by (simp add: tau_def default_rating_policy_def fin_Fin)
  have k: "weight_k default_rating_policy = Fin (ln 20 / 8)"
    using big l20 by (simp add: weight_k_def default_rating_policy_def f64_consts fin_Fin)
  have w0: "is_finite (f_exp (- Fin (ln 20 / 8) * 0))"
    using f64_max_pos one_le_f64_max by (simp add: f64_consts fin_Fin)
  have w1: "is_finite (f_exp (- Fin (ln 20 / 8) * Fin 8))"
    using big l20 one_le_f64_max by (simp add: fin_Fin exp_minus)
  have tf: "is_finite (tau default_rating_policy)" using t0 by (simp only: t is_finite.simps)
  have kf: "is_finite (Fin (ln 20 / 8))" using big l20 by simp
  show ?thesis
    using big mp tf kf w0 w1 unfolding validate_rating_def k Let_def
    by (simp add: default_rating_policy_def f64_consts)
qed

subsection \<open>Properties\<close>

text \<open>
  Recovery. After 20 half-lives without an event the sand of any upstream has drained to
  exactly 0 and its weight is exactly 1 again, however badly it behaved before.
\<close>

theorem sand_drains_in_twenty_half_lives:
  assumes "validate_rating p = Ok ()" "half_life_sec p = Fin H"
    and "s = sand_run (sand_new t0) es p" "20 * H \<le> real (now - sand_last s) / 10 ^ 9"
  shows "level_at s now p = 0 \<and> sand_weight s now p = 1"
proof -
  obtain H' F M m sf where pr: "policy_reals p H' F M m sf" using assms(1) by (rule validate_rating_Ok)
  with assms(2) have [simp]: "H' = H" by (simp add: policy_reals_def)
  from pr have H: "0 < H" and M: "0 < M" "M \<le> f64_max" by (auto simp: policy_reals_def)
  define dt where "dt = real (now - sand_last s) / 10 ^ 9"
  have "sand_ok p s" using sand_ok_run [OF pr sand_ok_new [OF pr]] by (simp add: assms(3))
  then obtain l where l: "sand_level s = Fin l" "0 \<le> l" "l \<le> M"
    using pr by (auto simp: sand_ok_def policy_reals_def)
  have "20 * H * ln 2 \<le> dt * ln 2"
    using assms(4) by (intro mult_right_mono) (simp_all add: dt_def)
  then have "20 * ln 2 \<le> dt / (H / ln 2)" using H by (simp add: field_simps)
  then have "exp (- (dt / (H / ln 2))) \<le> exp (- (20 * ln 2))" by simp
  also have "\<dots> = 1 / 2 ^ 20" by (rule exp_minus_20_ln_2)
  finally have e: "exp (- (dt / (H / ln 2))) \<le> 1 / 2 ^ 20" .
  have "l * exp (- (dt / (H / ln 2))) \<le> M * (1 / 2 ^ 20)" using l e by (intro mult_mono) simp_all
  also have "\<dots> < M / 10 ^ 6" using M by (simp add: field_simps)
  finally have "decayed_level H M l dt = 0" by (simp only: decayed_level_def Let_def) simp
  then have lv: "level_at s now p = Fin 0" using level_at_reals [OF pr l, of now] by (simp add: dt_def)
  moreover have "sand_weight s now p = Fin 1" using sand_weight_reals(1) [OF pr lv] M by simp
  ultimately show ?thesis by (simp add: f64_consts)
qed

theorem sand_drains_in_twenty_half_lives_witness:
  "sand_weight (sand_run (sand_new 0) [Failed 5, Failed 9] default_rating_policy)
     (from_secs 600 + 9) default_rating_policy = 1"
proof -
  let ?s = "sand_run (sand_new 0) [Failed 5, Failed 9] default_rating_policy"
  have "half_life_sec default_rating_policy = Fin 30" by (simp add: default_rating_policy_def)
  moreover have "sand_last ?s = 9" by (simp add: observe_failure_def)
  ultimately show ?thesis
    using sand_drains_in_twenty_half_lives [OF validate_default_rating, of 30 ?s 0 "[Failed 5, Failed 9]" "from_secs 600 + 9"]
    by (simp add: from_secs_def)
qed

end
