(* ===== verification/Select.thy ===== *)
theory Select
  imports F64 "HOL-Library.Product_Lexorder" "HOL-Library.Multiset"
begin

text \<open>
  The random number generator \<open>session/rating/rng.rs\<close> (splitmix64 on a \<open>u64\<close> state) and the
  weighted selection primitives \<open>session/rating/select.rs\<close>. The seed taken from the wall clock and
  the thread id (\<open>SmallRng::from_os\<close>) is an argument of what uses it: every statement holds for
  every state of the generator.
\<close>

unbundle bit_operations_syntax

subsection \<open>SmallRng\<close>

type_synonym small_rng = u64

definition from_seed :: "u64 \<Rightarrow> small_rng" where
  "from_seed seed = seed"

definition next_u64 :: "small_rng \<Rightarrow> u64 \<times> small_rng" where
  "next_u64 state =
     (let state = state + 0x9E3779B97F4A7C15;
          z = state;
          z = (z XOR drop_bit 30 z) * 0xBF58476D1CE4E5B9;
          z = (z XOR drop_bit 27 z) * 0x94D049BB133111EB
      in (z XOR drop_bit 31 z, state))"

definition next_f64 :: "small_rng \<Rightarrow> f64 \<times> small_rng" where
  "next_f64 state =
     (let (z, state') = next_u64 state
      in (Fin (real (unat (drop_bit 11 z))) div Fin (2 ^ 53), state'))"

subsection \<open>Weighted choice of one index\<close>

definition eligible :: "f64 \<Rightarrow> bool" where
  "eligible w \<longleftrightarrow> is_finite w \<and> f_lt 0 w"

definition max_weight :: "f64 list \<Rightarrow> f64" where
  "max_weight weights = foldl (\<lambda>m w. if eligible w then f_max m w else m) 0 weights"

definition sum_f64 :: "f64 list \<Rightarrow> f64" where
  "sum_f64 xs = foldl (+) 0 xs"

fun dart_walk :: "f64 \<Rightarrow> f64 \<Rightarrow> nat \<Rightarrow> f64 list \<Rightarrow> nat option" where
  "dart_walk mx dart i [] = None"
| "dart_walk mx dart i (w # ws) =
     (if eligible w
      then let dart' = dart - w div mx
           in if f_le dart' 0 then Some i else dart_walk mx dart' (Suc i) ws
      else dart_walk mx dart (Suc i) ws)"

definition rposition :: "('a \<Rightarrow> bool) \<Rightarrow> 'a list \<Rightarrow> nat option" where
  "rposition P xs = map_option (\<lambda>i. length xs - 1 - i) (position P (rev xs))"

definition weighted_index :: "f64 list \<Rightarrow> small_rng \<Rightarrow> nat \<times> small_rng" where
  "weighted_index weights rng =
     (let mx = max_weight weights in
      if f_le mx 0 then (0, rng)
      else
        let total = sum_f64 (map (\<lambda>w. w div mx) (filter eligible weights));
            (u, rng') = next_f64 rng;
            dart = u * total
        in (case dart_walk mx dart 0 weights of
              Some i \<Rightarrow> (i, rng')
            | None \<Rightarrow> (case rposition eligible weights of Some i \<Rightarrow> (i, rng') | None \<Rightarrow> (0, rng'))))"

subsection \<open>Weighted permutation\<close>

fun weighted_keys_from :: "nat \<Rightarrow> f64 list \<Rightarrow> small_rng \<Rightarrow> (nat \<times> f64) list \<times> small_rng" where
  "weighted_keys_from i [] rng = ([], rng)"
| "weighted_keys_from i (w # ws) rng =
     (let (u, rng1) = next_f64 rng;
          key = (if f_lt 0 w \<and> is_finite w then f_ln (- f_ln u) - f_ln w else PInf);
          (rest, rng2) = weighted_keys_from (Suc i) ws rng1
      in ((i, key) # rest, rng2))"

definition weighted_keys :: "f64 list \<Rightarrow> small_rng \<Rightarrow> (nat \<times> f64) list \<times> small_rng" where
  "weighted_keys weights rng = weighted_keys_from 0 weights rng"

text \<open>
  The sort is unstable, but its comparison (the key by \<open>total_cmp\<close>, then the index) is a total
  order in which no two pairs with distinct indices are equal, so the result is determined.
\<close>

definition order_keys :: "(nat \<times> f64) list \<Rightarrow> nat list" where
  "order_keys keyed = map fst (sort_key (\<lambda>(i, k). (k, i)) keyed)"

definition weighted_order :: "f64 list \<Rightarrow> small_rng \<Rightarrow> nat list \<times> small_rng" where
  "weighted_order weights rng =
     (let (keyed, rng') = weighted_keys weights rng in (order_keys keyed, rng'))"

subsection \<open>The draws\<close>

definition draw :: "small_rng \<Rightarrow> real" where
  "draw rng = real (unat (drop_bit 11 (fst (next_u64 rng)))) / 2 ^ 53"

lemma draw_bounds: "0 \<le> draw rng" "draw rng < 1"
proof -
  let ?z = "drop_bit 11 (fst (next_u64 rng))"
  have "unat ?z = unat (fst (next_u64 rng)) div 2 ^ 11" unfolding unat_drop_bit_eq by (simp add: drop_bit_eq_div)
  moreover have "unat (fst (next_u64 rng)) < 2 ^ 64" using unsigned_less [of "fst (next_u64 rng)", where ?'a = nat] by simp
  ultimately have "unat ?z < 2 ^ 53" by simp
  then have "real (unat ?z) < 2 ^ 53" by (metis of_nat_less_numeral_power_cancel_iff)
  then show "draw rng < 1" by (simp add: draw_def)
  show "0 \<le> draw rng" unfolding draw_def by (intro divide_nonneg_nonneg of_nat_0_le_iff) simp
qed

lemma next_f64_draw: "next_f64 rng = (Fin (draw rng), snd (next_u64 rng))"
proof -
  have "\<bar>draw rng\<bar> \<le> f64_max" using draw_bounds [of rng] one_le_f64_max by simp
  from fin_Fin [OF this] show ?thesis
    unfolding draw_def by (cases "next_u64 rng") (simp add: next_f64_def)
qed

fun draws :: "nat \<Rightarrow> small_rng \<Rightarrow> real list" where
  "draws 0 rng = []"
| "draws (Suc n) rng = draw rng # draws n (snd (next_u64 rng))"

lemma length_draws [simp]: "length (draws n rng) = n"
  by (induction n arbitrary: rng) simp_all

lemma draws_bounds: "u \<in> set (draws n rng) \<Longrightarrow> 0 \<le> u \<and> u < 1"
  by (induction n arbitrary: rng) (auto simp: draw_bounds)


subsection \<open>Which index a draw selects\<close>

lemma eligible_iff: "eligible w \<longleftrightarrow> (\<exists>r. w = Fin r \<and> 0 < r \<and> r \<le> f64_max)"
  by (auto simp: eligible_def is_finite_iff zero_f64_def)

text \<open>The weight of an index as a real, 0 when it is not eligible, and the sum of the first \<open>i\<close>.\<close>

definition wval :: "f64 \<Rightarrow> real" where
  "wval w = (if eligible w then f64_val w else 0)"

definition cum :: "f64 list \<Rightarrow> nat \<Rightarrow> real" where
  "cum ws i = sum_list (map wval (take i ws))"

lemma wval_nonneg: "0 \<le> wval w"
  by (auto simp: wval_def eligible_iff)

lemma wval_eligible: "eligible w \<Longrightarrow> w = Fin (wval w) \<and> 0 < wval w \<and> wval w \<le> f64_max"
  by (auto simp: wval_def eligible_iff)

lemma cum_simps [simp]:
  "cum ws 0 = 0" "cum [] i = 0" "cum (w # ws) (Suc i) = wval w + cum ws i"
  by (simp_all add: cum_def)

lemma cum_nonneg: "0 \<le> cum ws i"
  unfolding cum_def by (rule sum_list_nonneg) (auto simp: wval_nonneg)

lemma max_weight_foldl:
  assumes "0 \<le> m"
  shows "\<exists>r. foldl (\<lambda>m w. if eligible w then f_max m w else m) (Fin m) ws = Fin r \<and> m \<le> r \<and>
           (\<forall>w \<in> set ws. wval w \<le> r) \<and> (r = m \<or> (\<exists>w \<in> set ws. eligible w \<and> r = wval w))"
  using assms
proof (induction ws arbitrary: m)
  case Nil
  then show ?case by simp
next
  case (Cons w ws)
  show ?case
  proof (cases "eligible w")
    case True
    have mx: "f_max (Fin m) w = Fin (max m (wval w))"
      using wval_eligible [OF True] f_max_Fin(1) [of m "wval w"] by simp
    obtain r where "foldl (\<lambda>m w. if eligible w then f_max m w else m) (Fin (max m (wval w))) ws = Fin r"
        "max m (wval w) \<le> r" "\<forall>w \<in> set ws. wval w \<le> r"
        "r = max m (wval w) \<or> (\<exists>w \<in> set ws. eligible w \<and> r = wval w)"
      using Cons.IH [OF max.coboundedI1 [OF Cons.prems], of "wval w"] by (elim exE conjE) (rule that)
    with True mx show ?thesis by (intro exI [of _ r]) (auto simp: max_def split: if_splits)
  next
    case False
    then have "wval w = 0" by (simp add: wval_def)
    moreover obtain r where "foldl (\<lambda>m w. if eligible w then f_max m w else m) (Fin m) ws = Fin r"
        "m \<le> r" "\<forall>w \<in> set ws. wval w \<le> r" "r = m \<or> (\<exists>w \<in> set ws. eligible w \<and> r = wval w)"
      using Cons.IH [OF Cons.prems] by (elim exE conjE) (rule that)
    ultimately show ?thesis using False Cons.prems by (intro exI [of _ r]) auto
  qed
qed

lemma max_weight_cases:
  obtains "\<forall>w \<in> set ws. \<not> eligible w" "max_weight ws = Fin 0"
  | M where "max_weight ws = Fin M" "0 < M" "M \<le> f64_max" "\<forall>w \<in> set ws. wval w \<le> M"
      "\<exists>w \<in> set ws. eligible w"
proof -
  obtain M where M: "max_weight ws = Fin M" "0 \<le> M" "\<forall>w \<in> set ws. wval w \<le> M"
      "M = 0 \<or> (\<exists>w \<in> set ws. eligible w \<and> M = wval w)"
    using max_weight_foldl [of 0 ws] by (auto simp: max_weight_def zero_f64_def)
  show thesis
  proof (cases "\<exists>w \<in> set ws. eligible w")
    case True
    then obtain w where w: "w \<in> set ws" "eligible w" by blast
    with M(3) wval_eligible have "0 < M" by fastforce
    with M wval_eligible show thesis by (intro that(2) [of M]) (auto simp: True)
  next
    case False
    with M show thesis by (intro that(1)) auto
  qed
qed

lemma sum_f64_shares:
  assumes "0 < M" "M \<le> f64_max" "\<forall>w \<in> set ws. wval w \<le> M" "0 \<le> a" "a + real (length ws) \<le> f64_max"
  shows "foldl (+) (Fin a) (map (\<lambda>w. w div Fin M) (filter eligible ws)) = Fin (a + cum ws (length ws) / M)"
  using assms
proof (induction ws arbitrary: a)
  case Nil
  then show ?case by simp
next
  case (Cons w ws)
  show ?case
  proof (cases "eligible w")
    case True
    note w = wval_eligible [OF True]
    have r: "0 < wval w / M" "wval w / M \<le> 1" using w Cons.prems by auto
    then have "\<bar>wval w / M\<bar> \<le> f64_max" using one_le_f64_max by linarith
    then have d: "w div Fin M = Fin (wval w / M)"
      using Cons.prems(1) w by (metis divide_f64.simps(1) fin_Fin less_irrefl)
    have "a + (1 + real (length ws)) \<le> f64_max" using Cons.prems(5) by simp
    then have "\<bar>a + wval w / M\<bar> \<le> f64_max"
      using r Cons.prems(4) of_nat_0_le_iff [of "length ws", where 'a = real] by linarith
    then have "Fin a + w div Fin M = Fin (a + wval w / M)" by (simp add: d fin_Fin)
    moreover have "a + wval w / M + real (length ws) \<le> f64_max" "0 \<le> a + wval w / M"
      using r Cons.prems(4) \<open>a + (1 + real (length ws)) \<le> f64_max\<close> by linarith+
    ultimately show ?thesis
      using Cons.IH [of "a + wval w / M"] True Cons.prems(1-3) by (simp add: add_divide_distrib add.assoc)
  next
    case False
    then have "wval w = 0" by (simp add: wval_def)
    with False Cons show ?thesis by simp
  qed
qed

text \<open>The walk stops at the first index whose cumulated share reaches the dart.\<close>

lemma dart_walk_Some:
  assumes "0 < M" "\<forall>w \<in> set ws. wval w \<le> M" "0 \<le> d" "d \<le> f64_max"
    and "d * M \<le> cum ws (length ws)" "\<exists>w \<in> set ws. eligible w"
  shows "\<exists>i. dart_walk (Fin M) (Fin d) k ws = Some (k + i) \<and> i < length ws \<and> eligible (ws ! i) \<and>
           d * M \<le> cum ws (Suc i) \<and> (cum ws i < d * M \<or> cum ws i = 0)"
  using assms
proof (induction ws arbitrary: d k)
  case Nil
  then show ?case by simp
next
  case (Cons w ws)
  show ?case
  proof (cases "eligible w")
    case True
    note w = wval_eligible [OF True]
    have r: "0 < wval w / M" "wval w / M \<le> 1" using w Cons.prems by auto
    then have "\<bar>wval w / M\<bar> \<le> f64_max" using one_le_f64_max by linarith
    then have q: "w div Fin M = Fin (wval w / M)"
      using Cons.prems(1) w by (metis divide_f64.simps(1) fin_Fin less_irrefl)
    have "\<bar>d - wval w / M\<bar> \<le> f64_max" using r Cons.prems(3,4) one_le_f64_max by linarith
    then have dart: "Fin d - w div Fin M = Fin (d - wval w / M)"
      by (simp add: q minus_f64_def fin_Fin)
    show ?thesis
    proof (cases "d \<le> wval w / M")
      case True
      then have "d * M \<le> wval w" using Cons.prems(1) by (simp add: pos_le_divide_eq)
      with True \<open>eligible w\<close> show ?thesis
        by (intro exI [of _ 0]) (simp add: dart zero_f64_def Let_def)
    next
      case False
      let ?d = "d - wval w / M"
      have dM: "?d * M = d * M - wval w" using Cons.prems(1) by (simp add: field_simps)
      have pos: "0 < ?d" using False by simp
      have ex: "\<exists>w \<in> set ws. eligible w"
      proof (rule ccontr)
        assume "\<not> ?thesis"
        then have "cum ws (length ws) = 0"
          unfolding cum_def by (intro sum_list_nonneg_eq_0_iff [THEN iffD2]) (auto simp: wval_def)
        moreover have "0 < ?d * M" using pos Cons.prems(1) by (rule mult_pos_pos)
        moreover have "d * M \<le> wval w + cum ws (length ws)" using Cons.prems(5) by simp
        ultimately show False using dM by linarith
      qed
      have "?d \<le> f64_max" "0 \<le> ?d" using r Cons.prems(4) pos by linarith+
      moreover have "?d * M \<le> cum ws (length ws)" using Cons.prems(5) dM by simp
      ultimately obtain i where i: "dart_walk (Fin M) (Fin ?d) (Suc k) ws = Some (Suc k + i)"
          "i < length ws" "eligible (ws ! i)" "?d * M \<le> cum ws (Suc i)"
          "cum ws i < ?d * M \<or> cum ws i = 0"
        using Cons.IH [of ?d "Suc k"] Cons.prems ex by auto
      have "0 < ?d * M" using pos Cons.prems(1) by simp
      with i(5) have "cum ws i < ?d * M" by auto
      with i False \<open>eligible w\<close> dM show ?thesis
        by (intro exI [of _ "Suc i"]) (simp add: dart zero_f64_def Let_def)
    qed
  next
    case False
    then have z: "wval w = 0" by (simp add: wval_def)
    with False Cons.prems obtain i where i: "dart_walk (Fin M) (Fin d) (Suc k) ws = Some (Suc k + i)"
          "i < length ws" "eligible (ws ! i)" "d * M \<le> cum ws (Suc i)" "cum ws i < d * M \<or> cum ws i = 0"
      using Cons.IH [of d "Suc k"] by auto
    with False z show ?thesis by (intro exI [of _ "Suc i"]) simp
  qed
qed

lemma length_le_f64_max:
  assumes "length ws < 2 ^ 64"
  shows "real (length ws) \<le> f64_max"
proof -
  have "real (length ws) \<le> 2 ^ 64" using assms by (metis of_nat_less_numeral_power_cancel_iff less_imp_le)
  also have "(2::real) ^ 64 \<le> 2 ^ 1023" by (rule power_increasing) simp_all
  finally show ?thesis using f64_max_ge by linarith
qed

lemma cum_le_length:
  assumes "0 < M" "\<forall>w \<in> set ws. wval w \<le> M"
  shows "cum ws (length ws) / M \<le> real (length ws)"
  using assms
proof (induction ws)
  case Nil
  then show ?case by simp
next
  case (Cons w ws)
  then have "wval w / M \<le> 1" by simp
  moreover have "cum ws (length ws) / M \<le> real (length ws)" using Cons by simp
  ultimately show ?case by (simp only: length_Cons cum_simps of_nat_Suc add_divide_distrib)
qed

lemma weighted_index_walk:
  assumes "length ws < 2 ^ 64" "\<exists>w \<in> set ws. eligible w"
    and dart_def: "dart = draw rng * cum ws (length ws)"
  obtains i where "weighted_index ws rng = (i, snd (next_u64 rng))" "i < length ws" "eligible (ws ! i)"
    "dart \<le> cum ws (Suc i)" "cum ws i < dart \<or> cum ws i = 0"
proof (rule max_weight_cases [of ws])
  fix M
  assume M: "max_weight ws = Fin M" "0 < M" "M \<le> f64_max" "\<forall>w \<in> set ws. wval w \<le> M"
  let ?t = "cum ws (length ws) / M" and ?u = "draw rng"
  have len: "real (length ws) \<le> f64_max" by (rule length_le_f64_max) fact
  have t: "0 \<le> ?t" "?t \<le> f64_max"
    using cum_nonneg [of ws] M(2) cum_le_length [OF M(2,4)] len by (simp_all only: divide_nonneg_pos)
  have total: "sum_f64 (map (\<lambda>w. w div Fin M) (filter eligible ws)) = Fin ?t"
    using sum_f64_shares [OF M(2-4), of 0] len by (simp add: sum_f64_def zero_f64_def)
  have d: "0 \<le> ?u * ?t" "?u * ?t \<le> ?t"
    using mult_nonneg_nonneg [OF draw_bounds(1) t(1)] mult_left_le_one_le [OF t(1) draw_bounds(1)]
      draw_bounds(2) [of rng] by (simp_all only: less_imp_le)
  have dart: "Fin ?u * Fin ?t = Fin (?u * ?t)" using d t(2) by (simp add: fin_Fin)
  have dM: "?u * ?t * M = dart" using M(2) by (simp add: dart_def)
  have "dart \<le> cum ws (length ws)"
    using draw_bounds [of rng] cum_nonneg [of ws] by (auto simp: dart_def intro: mult_left_le_one_le)
  then obtain i where i: "dart_walk (Fin M) (Fin (?u * ?t)) 0 ws = Some i" "i < length ws"
      "eligible (ws ! i)" "dart \<le> cum ws (Suc i)" "cum ws i < dart \<or> cum ws i = 0"
    using dart_walk_Some [OF M(2,4) d(1), of 0] d(2) t(2) assms(2) dM by auto
  have "weighted_index ws rng = (i, snd (next_u64 rng))"
    using M(1,2) i(1) by (simp add: weighted_index_def next_f64_draw total dart [simplified] zero_f64_def)
  with i that show thesis by blast
qed (use assms(2) in blast)

lemma cum_mono: "i \<le> j \<Longrightarrow> cum ws i \<le> cum ws j"
proof (induction ws arbitrary: i j)
  case (Cons w ws)
  then show ?case
    by (cases i; cases j) (simp_all add: cum_nonneg wval_nonneg add_nonneg_nonneg)
qed simp

lemma cum_Suc: "i < length ws \<Longrightarrow> cum ws (Suc i) = cum ws i + wval (ws ! i)"
  by (simp add: cum_def take_Suc_conv_app_nth)

text \<open>
  \<open>weighted_index\<close> never returns an index that is out of range or not eligible while some
  weight is eligible (finite and positive), whatever the weights and the state of the generator,
  and it then consumes exactly one draw. With no eligible weight it returns 0 without a draw.
\<close>

theorem weighted_index_eligible:
  assumes "length ws < 2 ^ 64"
  shows "if \<exists>w \<in> set ws. eligible w
         then \<exists>i < length ws. eligible (ws ! i) \<and> weighted_index ws rng = (i, snd (next_u64 rng))
         else weighted_index ws rng = (0, rng)"
proof (cases "\<exists>w \<in> set ws. eligible w")
  case True
  with weighted_index_walk [OF assms True refl, of rng] show ?thesis by metis
next
  case False
  then have "max_weight ws = Fin 0" by (rule_tac max_weight_cases [of ws]) auto
  with False show ?thesis by (simp add: weighted_index_def zero_f64_def)
qed

theorem weighted_index_eligible_witness:
  "fst (weighted_index [NaN, PInf, Fin 0, Fin 1, Fin (- 1)] (from_seed 42)) = 3"
proof -
  have e: "eligible w \<longleftrightarrow> w = Fin 1" if "w \<in> set [NaN, PInf, Fin 0, Fin 1, Fin (- 1)]" for w
    using that one_le_f64_max by (auto simp: eligible_iff)
  then have "\<exists>i < Suc (Suc (Suc (Suc (Suc 0)))). eligible ([NaN, PInf, Fin 0, Fin 1, Fin (- 1)] ! i) \<and>
      weighted_index [NaN, PInf, Fin 0, Fin 1, Fin (- 1)] (from_seed 42) = (i, snd (next_u64 (from_seed 42)))"
    using weighted_index_eligible [of "[NaN, PInf, Fin 0, Fin 1, Fin (- 1)]" "from_seed 42"] by simp
  then obtain i where "i < Suc (Suc (Suc (Suc (Suc 0))))" "[NaN, PInf, Fin 0, Fin 1, Fin (- 1)] ! i = Fin 1"
      "fst (weighted_index [NaN, PInf, Fin 0, Fin 1, Fin (- 1)] (from_seed 42)) = i"
    using e [OF nth_mem] by (metis fst_conv length_Cons list.size(3))
  then show ?thesis by (auto simp: less_Suc_eq eval_nat_numeral)
qed

text \<open>
  \<open>weighted_index\<close> is the inverse of the cumulative distribution of the eligible weights. With
  \<open>u\<close> the draw of the generator and \<open>cum ws i\<close> the sum of the eligible weights before \<open>i\<close>, the
  eligible index \<open>i\<close> is returned exactly when \<open>u * cum ws n\<close> lies in the interval
  \<open>(cum ws i, cum ws (i + 1)]\<close> (the first eligible one also owns 0), an interval whose share of the
  total is the index's share of the weight. The normalisation by the maximum keeps this true for
  weights whose plain sum would overflow.
\<close>

theorem weighted_index_inverse_cdf:
  assumes "length ws < 2 ^ 64" "i < length ws" "eligible (ws ! i)"
  shows "fst (weighted_index ws rng) = i \<longleftrightarrow>
           (cum ws i < draw rng * cum ws (length ws) \<or> cum ws i = 0) \<and>
           draw rng * cum ws (length ws) \<le> cum ws (Suc i)"
proof -
  let ?d = "draw rng * cum ws (length ws)"
  have ex: "\<exists>w \<in> set ws. eligible w" using assms(2,3) by (meson nth_mem)
  obtain j where j: "weighted_index ws rng = (j, snd (next_u64 rng))" "j < length ws" "eligible (ws ! j)"
      "?d \<le> cum ws (Suc j)" "cum ws j < ?d \<or> cum ws j = 0"
    using weighted_index_walk [OF assms(1) ex refl] by blast
  have sep: "\<not> (cum ws b < ?d \<or> cum ws b = 0)"
    if "a < b" "a < length ws" "eligible (ws ! a)" "?d \<le> cum ws (Suc a)" for a b
  proof -
    have "cum ws (Suc a) \<le> cum ws b" using that by (intro cum_mono) simp
    moreover have "0 < cum ws (Suc a)"
      using that cum_nonneg [of ws a] wval_eligible [OF that(3)] by (simp add: cum_Suc)
    ultimately show ?thesis using that(4) by linarith
  qed
  show ?thesis
  proof (cases i j rule: linorder_cases)
    case less
    with sep [of i j] assms j show ?thesis by auto
  next
    case greater
    with sep [of j i] assms j show ?thesis by auto
  qed (use j in simp)
qed

text \<open>Two weights at the top of the range: their sum overflows, the choice is still even.\<close>

theorem weighted_index_inverse_cdf_witness:
  "\<forall>rng. fst (weighted_index [Fin f64_max, Fin f64_max] rng) = 1 \<longleftrightarrow> 1 / 2 < draw rng"
proof
  fix rng
  have e: "eligible (Fin f64_max)" using f64_max_pos by (simp add: eligible_iff)
  then have w: "wval (Fin f64_max) = f64_max" by (simp add: wval_def)
  have "fst (weighted_index [Fin f64_max, Fin f64_max] rng) = 1 \<longleftrightarrow> 1 < draw rng * 2 \<and> draw rng \<le> 1"
    using weighted_index_inverse_cdf [of "[Fin f64_max, Fin f64_max]" 1 rng] f64_max_pos e
    by (simp add: w cum_Suc [of 1, simplified])
  then show "fst (weighted_index [Fin f64_max, Fin f64_max] rng) = 1 \<longleftrightarrow> 1 / 2 < draw rng"
    using draw_bounds [of rng] by linarith
qed

subsection \<open>The weighted permutation\<close>

definition order_key :: "f64 \<Rightarrow> f64 \<Rightarrow> f64" where
  "order_key w u = (if f_lt 0 w \<and> is_finite w then f_ln (- f_ln u) - f_ln w else PInf)"

lemma weighted_keys_from_eq:
  "fst (weighted_keys_from i ws rng) =
     zip [i..<i + length ws] (map2 (\<lambda>w u. order_key w (Fin u)) ws (draws (length ws) rng))"
proof (induction ws arbitrary: i rng)
  case (Cons w ws)
  then show ?case
    by (simp add: next_f64_draw order_key_def upt_conv_Cons Let_def case_prod_beta del: upt_Suc)
qed simp

lemma order_keys_perm: "mset (order_keys keyed) = mset (map fst keyed)"
  by (simp add: order_keys_def mset_map)

lemma weighted_order_perm: "mset (fst (weighted_order ws rng)) = mset [0..<length ws]"
  by (simp add: weighted_order_def weighted_keys_def case_prod_beta order_keys_perm weighted_keys_from_eq
      del: mset_map)

text \<open>
  The score of Efraimidis and Spirakis, \<open>u powr (1 / w)\<close>, with 0 for a weight that is not eligible;
  the smallest positive \<open>f64\<close> (a subnormal) bounds the eligible weights from below.
\<close>

definition es_score :: "f64 \<Rightarrow> real \<Rightarrow> real" where
  "es_score w u = (if eligible w then u powr (1 / wval w) else 0)"

definition min_subnormal :: real where
  "min_subnormal = 1 / 2 ^ 1074"

definition f64_weight :: "f64 \<Rightarrow> bool" where
  "f64_weight w \<longleftrightarrow> eligible w \<longrightarrow> min_subnormal \<le> wval w"

lemma abs_ln_le:
  fixes x c :: real
  assumes "1 / c \<le> x" "x \<le> c" "1 \<le> c"
  shows "\<bar>ln x\<bar> \<le> ln c"
proof -
  have "0 < 1 / c" using assms(3) by simp
  with assms(1) have "0 < x" by linarith
  with assms have "ln x \<le> ln c" by simp
  moreover have "- ln c \<le> ln x" using assms \<open>0 < x\<close> ln_le_cancel_iff [of "1 / c" x] by (simp add: ln_div)
  ultimately show ?thesis by simp
qed

lemma ln_power_two: "ln ((2::real) ^ n) \<le> real n"
  using ln_le_minus_one [of 2] by (simp add: ln_realpow mult_left_le)

lemma ln_weight_bound:
  assumes "eligible w" "f64_weight w"
  shows "\<bar>ln (wval w)\<bar> \<le> 1074"
proof -
  have "f64_max \<le> 2 ^ 1074"
  proof -
    have "f64_max \<le> 2 * 2 ^ 1023" unfolding f64_max_def by (rule mult_right_mono) simp_all
    also have "\<dots> = 2 ^ 1024" by simp
    also have "\<dots> \<le> 2 ^ 1074" by (rule power_increasing) simp_all
    finally show ?thesis .
  qed
  then have "\<bar>ln (wval w)\<bar> \<le> ln (2 ^ 1074)"
    using assms wval_eligible [of w] by (intro abs_ln_le) (auto simp: f64_weight_def min_subnormal_def)
  also have "\<dots> \<le> 1074" using ln_power_two [of 1074] by simp
  finally show ?thesis .
qed

lemma draw_pos_bounds:
  assumes "u \<in> set (draws n rng)" "u \<noteq> 0"
  shows "1 / 2 ^ 53 \<le> u" "u \<le> 1 - 1 / 2 ^ 53"
proof -
  have "\<exists>r. u = draw r" using assms(1) by (induction n arbitrary: rng) auto
  then obtain k :: nat where k: "u = real k / 2 ^ 53" unfolding draw_def by blast
  have "0 < k" "real k < 2 ^ 53" using k assms draws_bounds [OF assms(1)] by (auto simp: field_simps)
  then have "1 \<le> real k" "k < 2 ^ 53" by (linarith, metis of_nat_less_numeral_power_cancel_iff)
  moreover from this(2) have "real (Suc k) \<le> real (2 ^ 53)" by (intro of_nat_mono Suc_leI)
  ultimately have "1 \<le> real k" "real k \<le> 2 ^ 53 - 1" by simp_all
  then show "1 / 2 ^ 53 \<le> u" "u \<le> 1 - 1 / 2 ^ 53" unfolding k by (simp_all add: field_simps)
qed

lemma lnln_draw_bound:
  assumes "u \<in> set (draws n rng)" "u \<noteq> 0"
  shows "0 < - ln u" "\<bar>ln (- ln u)\<bar> \<le> 53"
proof -
  note b = draw_pos_bounds [OF assms]
  have "0 < u" using b(1) by (smt (verit) divide_pos_pos zero_less_power)
  have lo: "1 / 2 ^ 53 \<le> - ln u" using ln_le_minus_one [OF \<open>0 < u\<close>] b(2) by linarith
  then show "0 < - ln u" by (smt (verit) divide_pos_pos zero_less_power)
  have "ln (1 / 2 ^ 53) \<le> ln u" using b(1) \<open>0 < u\<close> by (subst ln_le_cancel_iff) simp_all
  then have "- ln u \<le> 53" using ln_power_two [of 53] by (simp add: ln_div)
  also have "(53::real) \<le> 2 ^ 53" by simp
  finally have "\<bar>ln (- ln u)\<bar> \<le> ln (2 ^ 53)" using lo by (intro abs_ln_le) simp_all
  also have "\<dots> \<le> 53" using ln_power_two [of 53] by simp
  finally show "\<bar>ln (- ln u)\<bar> \<le> 53" .
qed

lemma order_key_cases:
  assumes "u \<in> set (draws n rng)" "f64_weight w"
  shows "if eligible w \<and> u \<noteq> 0 then order_key w (Fin u) = Fin (ln (- ln u / wval w)) \<and> 0 < - ln u / wval w
         else order_key w (Fin u) = PInf \<and> es_score w u = 0"
proof (cases "eligible w \<and> u \<noteq> 0")
  case True
  note w = wval_eligible [OF True [THEN conjunct1]]
  note l = lnln_draw_bound [OF assms(1) True [THEN conjunct2]]
  have "0 < u" using True draws_bounds [OF assms(1)] by simp
  have big: "1127 \<le> f64_max"
  proof -
    have "(1127::real) \<le> 2 ^ 11" by simp
    also have "\<dots> \<le> 2 ^ 1023" by (rule power_increasing) simp_all
    finally show ?thesis using f64_max_ge by linarith
  qed
  have "\<bar>ln (- ln u) - ln (wval w)\<bar> \<le> f64_max"
    using l(2) ln_weight_bound [of w] True assms(2) big by linarith
  then have "fin (ln (- ln u) - ln (wval w)) = Fin (ln (- ln u / wval w))"
    using fin_Fin w l(1) ln_div [of "- ln u" "wval w"] by simp
  moreover have "order_key (Fin (wval w)) (Fin u) = fin (ln (- ln u) - ln (wval w))"
    using w [THEN conjunct2] l(1) \<open>0 < u\<close> by (simp add: order_key_def zero_f64_def minus_f64_def)
  moreover have "0 < - ln u / wval w" using w [THEN conjunct2] l(1) by (intro divide_pos_pos) simp_all
  ultimately show ?thesis using w True by simp
next
  case False
  then show ?thesis
    using wval_eligible [of w] draws_bounds [OF assms(1)]
    by (cases "eligible w") (auto simp: order_key_def eligible_def es_score_def minus_f64_def is_finite_iff zero_f64_def)
qed

lemma order_key_antimono:
  assumes "u \<in> set (draws n rng)" "v \<in> set (draws n rng)" "f64_weight w" "f64_weight x"
    and "order_key w (Fin u) \<le> order_key x (Fin v)"
  shows "es_score x v \<le> es_score w u"
proof (cases "eligible x \<and> v \<noteq> 0")
  case True
  note x = order_key_cases [OF assms(2,4)]
  have wu: "eligible w \<and> u \<noteq> 0" using order_key_cases [OF assms(1,3)] x assms(5) True by (auto split: if_splits)
  have "- ln u / wval w \<le> - ln v / wval x"
    using x order_key_cases [OF assms(1,3)] assms(5) True wu by (simp add: ln_le_cancel_iff)
  then show ?thesis using True wu by (simp add: es_score_def powr_def field_simps)
next
  case False
  then have "es_score x v = 0" using order_key_cases [OF assms(2,4)] by simp
  then show ?thesis by (simp add: es_score_def)
qed

text \<open>
  C7: \<open>weighted_order\<close> returns every index exactly once, and the logarithmic keys put the indices
  in the order of the scores they stand for: with \<open>u\<close> the draws the generator makes, one per
  weight, the scores \<open>u powr (1 / w)\<close> of Efraimidis and Spirakis are descending along the result,
  weights that are not eligible and draws of zero (score 0) last. The weights are any \<open>f64\<close> values,
  NaN, infinities and subnormals included.
\<close>

theorem weighted_order_efraimidis_spirakis:
  assumes "\<forall>w \<in> set ws. f64_weight w"
  shows "mset (fst (weighted_order ws rng)) = mset [0..<length ws] \<and>
         sorted_wrt (\<lambda>i j. es_score (ws ! j) (draws (length ws) rng ! j) \<le>
                           es_score (ws ! i) (draws (length ws) rng ! i)) (fst (weighted_order ws rng))"
proof -
  let ?us = "draws (length ws) rng"
  let ?keyed = "zip [0..<length ws] (map2 (\<lambda>w u. order_key w (Fin u)) ws ?us)"
  have order: "fst (weighted_order ws rng) = map fst (sort_key (\<lambda>(i, k). (k, i)) ?keyed)"
    using weighted_keys_from_eq [of 0 ws rng]
    by (simp add: weighted_order_def weighted_keys_def case_prod_beta order_keys_def)
  have mem: "p \<in> set ?keyed \<Longrightarrow> fst p < length ws \<and> snd p = order_key (ws ! fst p) (Fin (?us ! fst p))" for p
    by (auto simp: in_set_zip)
  have "sorted_wrt (\<lambda>p q. es_score (ws ! fst q) (?us ! fst q) \<le> es_score (ws ! fst p) (?us ! fst p))
      (sort_key (\<lambda>(i, k). (k, i)) ?keyed)"
  proof (rule sorted_wrt_mono_rel)
    show "sorted_wrt (\<lambda>p q. (snd p, fst p) \<le> (snd q, fst q)) (sort_key (\<lambda>(i, k). (k, i)) ?keyed)"
      using sorted_sort_key [of "\<lambda>(i, k). (k, i)" ?keyed] by (simp add: sorted_map case_prod_beta)
    fix p q
    assume "p \<in> set (sort_key (\<lambda>(i, k). (k, i)) ?keyed)" "q \<in> set (sort_key (\<lambda>(i, k). (k, i)) ?keyed)"
      and le: "(snd p, fst p) \<le> (snd q, fst q)"
    then have p: "fst p < length ws" "snd p = order_key (ws ! fst p) (Fin (?us ! fst p))"
      and q: "fst q < length ws" "snd q = order_key (ws ! fst q) (Fin (?us ! fst q))"
      using mem by auto
    have "snd p \<le> snd q" using le by auto
    then show "es_score (ws ! fst q) (?us ! fst q) \<le> es_score (ws ! fst p) (?us ! fst p)"
      using p q assms by (intro order_key_antimono [of _ "length ws" rng]) auto
  qed
  with weighted_order_perm [of ws rng] show ?thesis unfolding order by (simp only: sorted_wrt_map simp_thms)
qed

theorem weighted_order_efraimidis_spirakis_witness:
  "mset (fst (weighted_order [NaN, Fin 1, PInf] (from_seed 7))) = {#0, 1, 2#}"
proof -
  have "\<forall>w \<in> set [NaN, Fin 1, PInf]. f64_weight w"
    using one_le_f64_max by (auto simp: f64_weight_def eligible_iff wval_def min_subnormal_def)
  from weighted_order_efraimidis_spirakis [OF this, of "from_seed 7", THEN conjunct1] show ?thesis
    by (simp add: upt_conv_Cons add.commute add_mset_commute)
qed

end
