(* ===== verification/Ratings.thy ===== *)
theory Ratings
  imports Quarantine Sand Select
begin

text \<open>
  The rating integrator \<open>session/rating/mod.rs\<close> over the sand cells, the quarantine cells and the
  generator, and the persistable view \<open>session/rating/health.rs\<close>. Every operation of the source
  holds the lock of \<open>Ratings\<close> for all of its effects, so it is one atomic step on the record
  below; \<open>Instant::now()\<close> is the argument \<open>now\<close>. A panic is \<open>None\<close>.
\<close>

record ratings =
  policy :: rating_policy
  qpolicy :: quarantine_policy
  cells :: "sand list"
  qcells :: "cell list"
  rng :: small_rng

definition try_with_quarantine ::
  "nat \<Rightarrow> rating_policy \<Rightarrow> quarantine_policy \<Rightarrow> instant \<Rightarrow> u64 \<Rightarrow> rating_error + ratings" where
  "try_with_quarantine n p q now seed =
     (case validate_rating p of
        Err e \<Rightarrow> Err e
      | Ok _ \<Rightarrow> (case validate_quarantine q of
          Err e \<Rightarrow> Err e
        | Ok _ \<Rightarrow> Ok \<lparr>policy = p, qpolicy = q, cells = map (\<lambda>_. sand_new now) [0..<n],
                       qcells = map (\<lambda>_. default_cell) [0..<n], rng = from_seed seed\<rparr>))"

definition try_new :: "nat \<Rightarrow> rating_policy \<Rightarrow> instant \<Rightarrow> u64 \<Rightarrow> rating_error + ratings" where
  "try_new n p now seed = try_with_quarantine n p disabled_quarantine_policy now seed"

definition ratings_len :: "ratings \<Rightarrow> nat" where
  "ratings_len r = length (cells r)"

definition ratings_is_empty :: "ratings \<Rightarrow> bool" where
  "ratings_is_empty r \<longleftrightarrow> ratings_len r = 0"

definition on_failure :: "ratings \<Rightarrow> nat \<Rightarrow> instant \<Rightarrow> ratings" where
  "on_failure r i now =
     (if \<not> rating_enabled (policy r) then r
      else if i < length (cells r)
      then r\<lparr>cells := (cells r)[i := observe_failure (cells r ! i) now (policy r)]\<rparr>
      else r)"

definition on_hard_failure :: "ratings \<Rightarrow> nat \<Rightarrow> instant \<Rightarrow> duration option \<times> ratings" where
  "on_hard_failure r i now =
     (if length (cells r) \<le> i then (None, r)
      else
        let r1 = (if rating_enabled (policy r)
                  then r\<lparr>cells := (cells r)[i := observe_failure (cells r ! i) now (policy r)]\<rparr>
                  else r)
        in if \<not> quarantine_enabled (qpolicy r) then (None, r1)
           else let (len, c) = hard_failure (qcells r1 ! i) now (qpolicy r)
                in (len, r1\<lparr>qcells := (qcells r1)[i := c]\<rparr>))"

definition quarantine_now :: "ratings \<Rightarrow> nat \<Rightarrow> instant \<Rightarrow> duration option \<times> ratings" where
  "quarantine_now r i now =
     (if \<not> quarantine_enabled (qpolicy r) then (None, r)
      else if i < length (qcells r)
      then let (len, c) = trip_now (qcells r ! i) now (qpolicy r)
           in (Some len, r\<lparr>qcells := (qcells r)[i := c]\<rparr>)
      else (None, r))"

definition on_success :: "ratings \<Rightarrow> nat \<Rightarrow> instant \<Rightarrow> ratings" where
  "on_success r i now =
     (if length (cells r) \<le> i then r
      else
        let r1 = (if rating_enabled (policy r)
                  then r\<lparr>cells := (cells r)[i := observe_success (cells r ! i) now (policy r)]\<rparr>
                  else r)
        in r1\<lparr>qcells := (qcells r1)[i := cell_success (qcells r1 ! i)]\<rparr>)"

definition is_quarantined :: "ratings \<Rightarrow> nat \<Rightarrow> bool" where
  "is_quarantined r i \<longleftrightarrow> i < length (qcells r) \<and> is_tripped (qcells r ! i)"

definition weights :: "ratings \<Rightarrow> instant \<Rightarrow> f64 list" where
  "weights r now = map (\<lambda>s. sand_weight s now (policy r)) (cells r)"

definition pick_weights :: "ratings \<Rightarrow> instant \<Rightarrow> f64 list" where
  "pick_weights r now =
     (let ws = weights r now
      in if quarantine_enabled (qpolicy r)
         then let healthy = map (\<lambda>c. cell_state c now = Healthy) (qcells r)
              in if list_ex id healthy
                 then map (\<lambda>(w, ok). if ok then w else 0) (zip ws healthy) @ drop (length healthy) ws
                 else ws
         else ws)"

definition pick_at :: "ratings \<Rightarrow> instant \<Rightarrow> (nat \<times> ratings) option" where
  "pick_at r now =
     (if weights r now = [] then None
      else let (i, g) = weighted_index (pick_weights r now) (rng r) in Some (i, r\<lparr>rng := g\<rparr>))"

definition selectable :: "ratings \<Rightarrow> instant \<Rightarrow> nat list" where
  "selectable r now =
     (if quarantine_enabled (qpolicy r) \<and> list_ex (\<lambda>c. cell_state c now = Healthy) (qcells r)
      then filter (\<lambda>i. cell_state (qcells r ! i) now = Healthy) [0..<length (cells r)]
      else [0..<length (cells r)])"

definition pick_order_at :: "ratings \<Rightarrow> instant \<Rightarrow> nat list \<times> ratings" where
  "pick_order_at r now =
     (let el = selectable r now;
          (keyed, g) = weighted_keys (map (\<lambda>i. sand_weight (cells r ! i) now (policy r)) el) (rng r)
      in (map (\<lambda>j. el ! j) (order_keys keyed), r\<lparr>rng := g\<rparr>))"

fun lease_from :: "nat \<Rightarrow> cell list \<Rightarrow> instant \<Rightarrow> quarantine_policy \<Rightarrow> nat list \<times> cell list" where
  "lease_from i [] now q = ([], [])"
| "lease_from i (c # cs) now q =
     (let (got, c') = try_lease c now q; (is, cs') = lease_from (Suc i) cs now q
      in (if got then i # is else is, c' # cs'))"

definition take_probes_at :: "ratings \<Rightarrow> instant \<Rightarrow> nat list \<times> ratings" where
  "take_probes_at r now =
     (if \<not> quarantine_enabled (qpolicy r) then ([], r)
      else let (is, cs) = lease_from 0 (qcells r) now (qpolicy r) in (is, r\<lparr>qcells := cs\<rparr>))"

subsection \<open>The persistable health view\<close>

datatype upstream_state = UsAlive | UsQuarantined | UsProbation

record health =
  h_state :: upstream_state
  h_remaining :: duration
  h_trips :: u32
  h_consecutive :: u32

fun upstream_state_of :: "qstate \<Rightarrow> upstream_state" where
  "upstream_state_of Healthy = UsAlive"
| "upstream_state_of Quarantined = UsQuarantined"
| "upstream_state_of Probation = UsProbation"

definition health_of_cell :: "instant \<Rightarrow> cell \<Rightarrow> health" where
  "health_of_cell now c =
     (let (state, remaining, trps, consec) = snapshot c now
      in \<lparr>h_state = upstream_state_of state, h_remaining = remaining, h_trips = trps,
          h_consecutive = consec\<rparr>)"

definition health_at :: "ratings \<Rightarrow> instant \<Rightarrow> health list" where
  "health_at r now = map (health_of_cell now) (qcells r)"

definition restore_health_at :: "ratings \<Rightarrow> nat \<Rightarrow> health \<Rightarrow> instant \<Rightarrow> bool \<times> ratings" where
  "restore_health_at r i h now =
     (if \<not> quarantine_enabled (qpolicy r) \<or> h_state h = UsAlive then (False, r)
      else if i < length (qcells r)
      then (True, r\<lparr>qcells := (qcells r)[i := restore (qcells r ! i) (h_state h = UsQuarantined)
              (h_remaining h) (h_trips h) (h_consecutive h) now (qpolicy r)]\<rparr>)
      else (False, r))"

lemmas ratings_ops_defs =
  on_failure_def on_hard_failure_def quarantine_now_def on_success_def pick_at_def pick_order_at_def
  take_probes_at_def restore_health_at_def

subsection \<open>Invariant\<close>

definition ratings_inv :: "ratings \<Rightarrow> bool" where
  "ratings_inv r \<longleftrightarrow>
     validate_rating (policy r) = Ok () \<and> validate_quarantine (qpolicy r) = Ok () \<and>
     length (qcells r) = length (cells r) \<and> list_all (sand_ok (policy r)) (cells r) \<and>
     (if quarantine_enabled (qpolicy r) then list_all (cell_inv (qpolicy r)) (qcells r)
      else list_all (\<lambda>c. c = default_cell) (qcells r))"

lemma list_all_update: "list_all P xs \<Longrightarrow> P x \<Longrightarrow> list_all P (xs[i := x])"
  unfolding list_all_iff using set_update_subset_insert [of xs i x] by auto

lemma lease_from_props:
  "length (snd (lease_from i cs now q)) = length cs"
  "list_all (cell_inv q) cs \<Longrightarrow> list_all (cell_inv q) (snd (lease_from i cs now q))"
  using cell_inv_try_lease [of q] by (induction i cs now q rule: lease_from.induct) (auto simp: Let_def split: prod.splits, metis snd_conv)

lemma sand_ok_observe:
  assumes "validate_rating p = Ok ()" "sand_ok p s"
  shows "sand_ok p (observe_failure s now p)" "sand_ok p (observe_success s now p)"
  using assms by (auto elim!: validate_rating_Ok intro: sand_ok_failure sand_ok_success)

inductive ratings_step :: "instant \<times> ratings \<Rightarrow> instant \<times> ratings \<Rightarrow> bool" where
  rs_tick: "now \<le> now' \<Longrightarrow> ratings_step (now, r) (now', r)"
| rs_failure: "ratings_step (now, r) (now, on_failure r i now)"
| rs_hard_failure: "ratings_step (now, r) (now, snd (on_hard_failure r i now))"
| rs_quarantine: "ratings_step (now, r) (now, snd (quarantine_now r i now))"
| rs_success: "ratings_step (now, r) (now, on_success r i now)"
| rs_pick: "pick_at r now = Some (i, r') \<Longrightarrow> ratings_step (now, r) (now, r')"
| rs_pick_order: "ratings_step (now, r) (now, snd (pick_order_at r now))"
| rs_probes: "ratings_step (now, r) (now, snd (take_probes_at r now))"
| rs_restore: "ratings_step (now, r) (now, snd (restore_health_at r i h now))"

inductive ratings_reachable :: "nat \<Rightarrow> instant \<times> ratings \<Rightarrow> bool" for n where
  rr_start: "try_with_quarantine n p q now seed = Ok r \<Longrightarrow> ratings_reachable n (now, r)"
| rr_step: "ratings_reachable n s \<Longrightarrow> ratings_step s s' \<Longrightarrow> ratings_reachable n s'"

lemma ratings_inv_start:
  assumes "try_with_quarantine n p q now seed = Ok r"
  shows "ratings_inv r \<and> length (cells r) = n"
proof -
  from assms have ok: "validate_rating p = Ok ()" "validate_quarantine q = Ok ()"
    and r: "r = \<lparr>policy = p, qpolicy = q, cells = map (\<lambda>_. sand_new now) [0..<n],
                       qcells = map (\<lambda>_. default_cell) [0..<n], rng = from_seed seed\<rparr>"
    by (auto simp: try_with_quarantine_def split: sum.splits)
  from ok(1) have "sand_ok p (sand_new now)" by (auto elim!: validate_rating_Ok intro: sand_ok_new)
  with ok show ?thesis by (auto simp: r ratings_inv_def list_all_iff cell_inv_default)
qed

lemma list_all_nthI: "list_all P xs \<Longrightarrow> i < length xs \<Longrightarrow> P (xs ! i)"
  by (simp add: list_all_length)

lemma ratings_inv_step:
  assumes "ratings_step s s'" "ratings_inv (snd s)"
  shows "ratings_inv (snd s') \<and> length (cells (snd s')) = length (cells (snd s)) \<and>
         policy (snd s') = policy (snd s) \<and> qpolicy (snd s') = qpolicy (snd s)"
  using assms
proof (induction rule: ratings_step.induct)
  case (rs_hard_failure now r i)
  then show ?case
    by (auto simp: on_hard_failure_def ratings_inv_def Let_def case_prod_beta list_all_update
        sand_ok_observe cell_inv_hard_failure list_all_nthI)
next
  case (rs_probes now r)
  then show ?case
    by (auto simp: take_probes_at_def ratings_inv_def Let_def case_prod_beta lease_from_props)
qed (auto simp: ratings_ops_defs ratings_inv_def Let_def case_prod_beta cell_success_def
      cell_inv_default list_all_update sand_ok_observe cell_inv_trip_now cell_inv_restore list_all_nthI
      split: if_splits)

lemma ratings_reachable_inv:
  "ratings_reachable n s \<Longrightarrow> ratings_inv (snd s) \<and> length (cells (snd s)) = n"
proof (induction rule: ratings_reachable.induct)
  case (rr_start p q now seed r)
  then show ?case by (simp add: ratings_inv_start)
next
  case (rr_step s s')
  then show ?case using ratings_inv_step by metis
qed

text \<open>Each quarantine cell of the set runs the state machine of a single cell.\<close>

lemma lease_from_nth:
  "j < length cs \<Longrightarrow> snd (lease_from i cs now q) ! j = snd (try_lease (cs ! j) now q)"
proof (induction cs arbitrary: i j)
  case (Cons c cs)
  then show ?case by (cases j) (auto simp: Let_def case_prod_beta)
qed simp

lemma lease_from_fst:
  "fst (lease_from i cs now q) =
     filter (\<lambda>k. fst (try_lease (cs ! (k - i)) now q)) [i..<i + length cs]"
proof (induction cs arbitrary: i)
  case (Cons c cs)
  have *: "filter (\<lambda>k. fst (try_lease (cs ! (k - Suc i)) now q)) [Suc i..<Suc (i + length cs)] =
      filter (\<lambda>k. fst (try_lease ((c # cs) ! (k - i)) now q)) [Suc i..<Suc (i + length cs)]"
    by (rule filter_cong) (auto simp: nth_Cons' Suc_le_eq)
  show ?case using Cons [of "Suc i"] *
    by (simp add: Let_def case_prod_beta upt_conv_Cons del: upt_Suc)
qed simp

lemma ratings_step_cell:
  assumes "ratings_step s s'" "ratings_inv (snd s)" "i < length (cells (snd s))"
  shows "cell_step (qpolicy (snd s)) (fst s, qcells (snd s) ! i) (fst s', qcells (snd s') ! i)"
  using assms
proof (induction rule: ratings_step.induct)
  case (rs_probes now r)
  then show ?case
    by (auto simp: take_probes_at_def Let_def case_prod_beta lease_from_nth ratings_inv_def
        intro: cell_step.intros)
qed (auto simp: ratings_ops_defs ratings_inv_def Let_def case_prod_beta nth_list_update
      intro: cell_step.intros split: if_splits)

lemma ratings_reachable_cell:
  assumes "ratings_reachable n s" "i < n"
  shows "cell_reachable (qpolicy (snd s)) (fst s, qcells (snd s) ! i)"
  using assms
proof (induction rule: ratings_reachable.induct)
  case (rr_start p q now seed r)
  then show ?case
    by (auto simp: try_with_quarantine_def split: sum.splits intro: cell_reachable.intros)
next
  case (rr_step s s')
  then have "ratings_inv (snd s)" "i < length (cells (snd s))" using ratings_reachable_inv by auto
  with rr_step ratings_step_cell [OF rr_step(2)] ratings_inv_step [OF rr_step(2)] show ?case
    by (metis cell_reachable.step)
qed

lemma weights_eligible:
  assumes "ratings_inv r" "w \<in> set (weights r now)"
  shows "eligible w \<and> f64_weight w"
proof -
  obtain s where s: "s \<in> set (cells r)" "w = sand_weight s now (policy r)"
    using assms(2) by (auto simp: weights_def)
  obtain H F M m sf where pr: "policy_reals (policy r) H F M m sf"
    using assms(1) by (auto simp: ratings_inv_def elim: validate_rating_Ok)
  moreover have "sand_ok (policy r) s" using assms(1) s by (auto simp: ratings_inv_def list_all_iff)
  ultimately obtain l where "level_at s now (policy r) = Fin l" "0 \<le> l" "l \<le> M" by (rule level_at_ok)
  note w = sand_weight_reals [OF pr this]
  have "min_positive \<le> m" using pr by (simp add: policy_reals_def)
  moreover have "min_subnormal \<le> min_positive"
    unfolding min_subnormal_def min_positive_def by (rule divide_left_mono) (simp_all add: power_increasing)
  moreover note order_trans [OF w(3) one_le_f64_max]
  ultimately show ?thesis
    using w by (auto simp: s(2) eligible_iff f64_weight_def wval_def)
qed

lemma set_selectable:
  assumes "ratings_inv r"
  shows "set (selectable r now) =
    {i. i < length (cells r) \<and>
        (quarantine_enabled (qpolicy r) \<and> (\<exists>j < length (cells r). cell_state (qcells r ! j) now = Healthy)
           \<longrightarrow> cell_state (qcells r ! i) now = Healthy)}"
  using assms by (auto simp: selectable_def ratings_inv_def list_ex_length)

lemma distinct_selectable: "distinct (selectable r now)"
  by (simp add: selectable_def)

lemma pick_order_at_mset: "mset (fst (pick_order_at r now)) = mset (selectable r now)"
proof -
  let ?el = "selectable r now"
  let ?o = "weighted_order (map (\<lambda>i. sand_weight (cells r ! i) now (policy r)) ?el) (rng r)"
  have "fst (pick_order_at r now) = map ((!) ?el) (fst ?o)"
    by (simp add: pick_order_at_def weighted_order_def case_prod_beta Let_def)
  then have "mset (fst (pick_order_at r now)) = image_mset ((!) ?el) (mset (fst ?o))" by simp
  also have "\<dots> = mset (map ((!) ?el) [0..<length ?el])" by (simp only: weighted_order_perm length_map mset_map)
  finally show ?thesis by (simp only: map_nth)
qed

text \<open>
  C6: whatever happened before, \<open>pick_order\<close> lists each selectable upstream exactly once and no
  other: every upstream when the quarantine is off or none is healthy, and exactly the healthy ones
  otherwise. So no request waits on a dead upstream while a healthy one exists, and the order is
  empty only for an empty set.
\<close>

theorem pick_order_lists_selectable:
  assumes "ratings_reachable n (now, r)"
  shows "distinct (fst (pick_order_at r now)) \<and>
    set (fst (pick_order_at r now)) =
      {i. i < n \<and> (quarantine_enabled (qpolicy r) \<and> (\<exists>j < n. cell_state (qcells r ! j) now = Healthy)
                     \<longrightarrow> cell_state (qcells r ! i) now = Healthy)} \<and>
    (fst (pick_order_at r now) = [] \<longleftrightarrow> n = 0)"
proof -
  have inv: "ratings_inv r" "length (cells r) = n" using ratings_reachable_inv [OF assms] by auto
  have s: "set (fst (pick_order_at r now)) = set (selectable r now)"
    using pick_order_at_mset by (metis set_mset_mset)
  have "distinct (fst (pick_order_at r now))"
    using pick_order_at_mset distinct_selectable by (metis mset_eq_imp_distinct_iff)
  moreover have "set (selectable r now) = {} \<longleftrightarrow> n = 0"
    using inv by (auto simp: set_selectable)
  ultimately show ?thesis using s set_selectable [OF inv(1), of now] inv(2) by (metis set_empty)
qed

text \<open>
  \<open>pick\<close> panics exactly on an empty set. Otherwise it returns an index of the set, and one
  whose cell is healthy whenever the quarantine is on and some cell is healthy, also when the
  weights have been zeroed for the others.
\<close>

theorem pick_at_selectable:
  assumes "ratings_reachable n (now, r)" "n < 2 ^ 64"
  shows "(pick_at r now = None \<longleftrightarrow> n = 0) \<and>
    (\<forall>i r'. pick_at r now = Some (i, r') \<longrightarrow> i \<in> set (selectable r now))"
proof -
  have inv: "ratings_inv r" "length (cells r) = n" using ratings_reachable_inv [OF assms(1)] by auto
  let ?ws = "pick_weights r now"
  have el: "j < n \<Longrightarrow> eligible (weights r now ! j)" for j
    using weights_eligible [OF inv(1) nth_mem, of j now] inv(2) by (simp add: weights_def)
  have len: "length ?ws = n" "length (qcells r) = n" "length (weights r now) = n"
    using inv by (auto simp: pick_weights_def Let_def weights_def ratings_inv_def)
  have nth: "j < n \<Longrightarrow> eligible (?ws ! j) \<longleftrightarrow> j \<in> set (selectable r now)" for j
    using el [of j] inv len
    by (auto simp: pick_weights_def Let_def set_selectable list_ex_length eligible_def zero_f64_def)
  have some: "n \<noteq> 0 \<Longrightarrow> \<exists>w \<in> set ?ws. eligible w"
  proof -
    assume "n \<noteq> 0"
    then obtain i where "i \<in> set (selectable r now)" "i < n"
      using set_selectable [OF inv(1), of now] inv(2) by auto
    with nth len(1) show "\<exists>w \<in> set ?ws. eligible w" by (metis nth_mem)
  qed
  have "fst (weighted_index ?ws (rng r)) \<in> set (selectable r now)" if n: "n \<noteq> 0"
  proof -
    from n some assms(2) len obtain i where "i < n" "eligible (?ws ! i)" "fst (weighted_index ?ws (rng r)) = i"
      using weighted_index_walk [OF _ some refl, of "rng r"] by (metis fst_conv)
    then show ?thesis using nth by auto
  qed
  moreover have "weights r now = [] \<longleftrightarrow> n = 0" using len(3) by auto
  ultimately show ?thesis by (auto simp: pick_at_def case_prod_beta)
qed


subsection \<open>The selection interface\<close>

text \<open>
  What the rotator and the chain selection rely on: an order over slot indices without
  repetition, which leaves out the tripped slots as long as one slot is not tripped.
\<close>

locale selector =
  fixes sel_ok :: "'s \<Rightarrow> bool"
    and sel_count :: "'s \<Rightarrow> nat"
    and sel_tripped :: "'s \<Rightarrow> nat \<Rightarrow> bool"
    and sel_order :: "'s \<Rightarrow> instant \<Rightarrow> nat list \<times> 's"
  assumes order_ok: "sel_ok s \<Longrightarrow> sel_ok (snd (sel_order s now)) \<and> sel_count (snd (sel_order s now)) = sel_count s"
    and order_tripped: "sel_ok s \<Longrightarrow> sel_tripped (snd (sel_order s now)) i = sel_tripped s i"
    and order_distinct: "sel_ok s \<Longrightarrow> distinct (fst (sel_order s now))"
    and order_set: "sel_ok s \<Longrightarrow>
      set (fst (sel_order s now)) = (if \<exists>j < sel_count s. \<not> sel_tripped s j
         then {i. i < sel_count s \<and> \<not> sel_tripped s i} else {..<sel_count s})"
begin

lemma order_nonempty: "sel_ok s \<Longrightarrow> 0 < sel_count s \<Longrightarrow> fst (sel_order s now) \<noteq> []"
  using order_set [of s now] by (auto simp: set_empty [symmetric] simp del: set_empty split: if_splits)

lemma order_mapped_distinct:
  assumes "sel_ok s" "distinct xs" "length xs = sel_count s"
  shows "distinct (map ((!) xs) (fst (sel_order s now)))"
proof -
  have "inj_on ((!) xs) (set (fst (sel_order s now)))"
    using assms order_set [OF assms(1), of now] by (auto simp: inj_on_def nth_eq_iff_index_eq split: if_splits)
  then show ?thesis using order_distinct [OF assms(1)] by (simp add: distinct_map)
qed

lemma order_mapped_set:
  assumes "sel_ok s" "length xs = sel_count s"
  shows "set (map ((!) xs) (fst (sel_order s now))) =
    (if \<exists>j < sel_count s. \<not> sel_tripped s j then {xs ! i | i. i < sel_count s \<and> \<not> sel_tripped s i} else set xs)"
  unfolding set_map order_set [OF assms(1)] assms(2) [symmetric] by (auto simp: set_conv_nth)

end

lemma cell_state_Healthy: "cell_state c now = Healthy \<longleftrightarrow> \<not> is_tripped c"
  by (simp add: cell_state_def is_tripped_def split: option.splits)

interpretation rating_selector: selector ratings_inv ratings_len is_quarantined pick_order_at
proof
  fix r :: ratings and now :: instant and i :: nat
  assume inv: "ratings_inv r"
  have st: "ratings_step (now, r) (now, snd (pick_order_at r now))" by (rule rs_pick_order)
  show "ratings_inv (snd (pick_order_at r now)) \<and> ratings_len (snd (pick_order_at r now)) = ratings_len r"
    using ratings_inv_step [OF st] inv by (simp add: ratings_len_def)
  show "is_quarantined (snd (pick_order_at r now)) i = is_quarantined r i"
    by (simp add: is_quarantined_def pick_order_at_def Let_def case_prod_beta)
  show "distinct (fst (pick_order_at r now))"
    using pick_order_at_mset distinct_selectable by (metis mset_eq_imp_distinct_iff)
  have "\<not> quarantine_enabled (qpolicy r) \<Longrightarrow> j < length (cells r) \<Longrightarrow> \<not> is_tripped (qcells r ! j)" for j
    using inv by (auto simp: ratings_inv_def list_all_length default_cell_def is_tripped_def)
  then show "set (fst (pick_order_at r now)) = (if \<exists>j < ratings_len r. \<not> is_quarantined r j
         then {i. i < ratings_len r \<and> \<not> is_quarantined r i} else {..<ratings_len r})"
    using inv set_selectable [OF inv, of now] pick_order_at_mset [of r now, THEN mset_eq_setD]
    by (auto simp: cell_state_Healthy is_quarantined_def ratings_len_def ratings_inv_def)
qed

subsection \<open>Witness states\<close>

definition demo_qpolicy :: quarantine_policy where
  "demo_qpolicy = default_quarantine_policy\<lparr>threshold := 1\<rparr>"

definition demo_ratings :: ratings where
  "demo_ratings = \<lparr>policy = default_rating_policy, qpolicy = demo_qpolicy,
     cells = map (\<lambda>_. sand_new 0) [0..<2], qcells = map (\<lambda>_. default_cell) [0..<2], rng = from_seed 1\<rparr>"

lemma demo_fresh: "try_with_quarantine 2 default_rating_policy demo_qpolicy 0 1 = Ok demo_ratings"
  by (simp add: try_with_quarantine_def validate_default_rating demo_ratings_def demo_qpolicy_def
      validate_quarantine_def default_quarantine_policy_def quarantine_enabled_def from_secs_def)

lemma demo_start: "ratings_reachable 2 (0, demo_ratings)"
  by (rule rr_start [OF demo_fresh])

definition demo_tripped :: ratings where
  "demo_tripped = snd (on_hard_failure demo_ratings 0 0)"

lemma demo_tripped_reachable: "ratings_reachable 2 (0, demo_tripped)"
  unfolding demo_tripped_def by (rule rr_step [OF demo_start rs_hard_failure])

lemma demo_tripped_states:
  "quarantine_enabled (qpolicy demo_tripped)"
  "cell_state (qcells demo_tripped ! 0) 0 = Quarantined" "cell_state (qcells demo_tripped ! 1) 0 = Healthy"
proof -
  have d: "duration_for demo_qpolicy 1 = from_secs 30"
    by (simp add: duration_for_def demo_qpolicy_def default_quarantine_policy_def from_secs_def)
  have "hard_failure default_cell 0 demo_qpolicy =
      (Some (from_secs 30), \<lparr>consecutive = 1, trips = 1, until = Some (from_secs 30), lease_until = None\<rparr>)"
    by (simp add: hard_failure_def default_cell_def cell_state_def d demo_qpolicy_def [THEN arg_cong, of threshold]
        saturating_add_u32_def deadline_def instant_checked_add_def from_secs_def instant_max_def Let_def)
  then show "quarantine_enabled (qpolicy demo_tripped)"
      "cell_state (qcells demo_tripped ! 0) 0 = Quarantined" "cell_state (qcells demo_tripped ! 1) 0 = Healthy"
    by (simp_all add: demo_tripped_def on_hard_failure_def demo_ratings_def Let_def default_rating_policy_def
        rating_enabled_def quarantine_enabled_def demo_qpolicy_def default_quarantine_policy_def
        cell_state_def from_secs_def default_cell_def upt_conv_Cons)
qed

lemma demo_healthy: "i < 2 \<Longrightarrow> cell_state (qcells demo_tripped ! i) 0 = Healthy \<longleftrightarrow> i = 1"
  using demo_tripped_states by (auto dest!: less_2_cases)

lemma demo_selectable:
  "{i. i < 2 \<and> (quarantine_enabled (qpolicy demo_tripped) \<and>
                  (\<exists>j < 2. cell_state (qcells demo_tripped ! j) 0 = Healthy)
                  \<longrightarrow> cell_state (qcells demo_tripped ! i) 0 = Healthy)} = {1}"
proof -
  have "\<exists>j < 2. cell_state (qcells demo_tripped ! j) 0 = Healthy"
    using demo_tripped_states(3) one_less_numeral_iff semiring_norm(76) by blast
  with demo_tripped_states(1) demo_healthy show ?thesis by auto
qed

lemma distinct_singleton: "distinct xs \<Longrightarrow> set xs = {a} \<Longrightarrow> xs = [a]"
  by (cases xs; cases "tl xs") auto

theorem pick_order_lists_selectable_witness:
  "fst (pick_order_at demo_tripped 0) = [1]"
  using pick_order_lists_selectable [OF demo_tripped_reachable, unfolded demo_selectable]
  by (simp only: distinct_singleton)

theorem pick_at_selectable_witness:
  "\<exists>r'. pick_at demo_tripped 0 = Some (1, r')"
proof -
  have inv: "ratings_inv demo_tripped" "length (cells demo_tripped) = 2"
    using ratings_reachable_inv [OF demo_tripped_reachable] by simp_all
  have s: "set (selectable demo_tripped 0) = {1}"
    unfolding set_selectable [OF inv(1)] inv(2) by (rule demo_selectable)
  obtain i r' where i: "pick_at demo_tripped 0 = Some (i, r')"
    using pick_at_selectable [OF demo_tripped_reachable] by (cases "pick_at demo_tripped 0") auto
  then have "i \<in> set (selectable demo_tripped 0)"
    using pick_at_selectable [OF demo_tripped_reachable] by simp
  with s i show ?thesis by simp
qed

subsection \<open>Health records across a restart\<close>

fun restore_all :: "ratings \<Rightarrow> nat \<Rightarrow> health list \<Rightarrow> instant \<Rightarrow> ratings" where
  "restore_all r i [] now = r"
| "restore_all r i (h # hs) now = restore_all (snd (restore_health_at r i h now)) (Suc i) hs now"

definition restored_cell :: "quarantine_policy \<Rightarrow> health \<Rightarrow> instant \<Rightarrow> cell \<Rightarrow> cell" where
  "restored_cell q h now c =
     (if h_state h = UsAlive then c
      else restore c (h_state h = UsQuarantined) (h_remaining h) (h_trips h) (h_consecutive h) now q)"

lemma restore_health_at_enabled:
  assumes "quarantine_enabled (qpolicy r)" "i < length (qcells r)"
  shows "snd (restore_health_at r i h now) =
    r\<lparr>qcells := (qcells r)[i := restored_cell (qpolicy r) h now (qcells r ! i)]\<rparr>"
  using assms by (simp add: restore_health_at_def restored_cell_def)

lemma restore_all_qcells:
  assumes "quarantine_enabled (qpolicy r)" "i + length hs \<le> length (qcells r)"
  shows "length (qcells (restore_all r i hs now)) = length (qcells r) \<and>
    (\<forall>j < length (qcells r). qcells (restore_all r i hs now) ! j =
       (if i \<le> j \<and> j < i + length hs then restored_cell (qpolicy r) (hs ! (j - i)) now (qcells r ! j)
        else qcells r ! j))"
  using assms
proof (induction hs arbitrary: r i)
  case (Cons h hs)
  let ?r = "snd (restore_health_at r i h now)"
  have r: "?r = r\<lparr>qcells := (qcells r)[i := restored_cell (qpolicy r) h now (qcells r ! i)]\<rparr>"
    using Cons.prems by (intro restore_health_at_enabled) auto
  show ?case
    using Cons.IH [of ?r "Suc i"] Cons.prems
    by (auto simp: r nth_list_update nth_Cons' Suc_le_eq le_less)
qed auto

lemma restored_health:
  assumes reach: "cell_reachable q (now, c)" and "quarantine_enabled q" "now' + max_len q \<le> instant_max"
    and h: "h = health_of_cell now c" and h': "h' = health_of_cell now' (restored_cell q h now' default_cell)"
  shows "h_remaining h' = h_remaining h \<and> h_trips h' = h_trips h \<and>
    (if h_state h = UsAlive then h_state h' = UsAlive \<and> h_consecutive h' = 0 else h' = h)"
proof -
  have inv: "cell_inv q c" and tb: "\<And>u. until c = Some u \<Longrightarrow> u \<le> now + max_len q"
    using cell_reachable_inv [OF reach assms(2)] cell_reachable_times [OF reach]
    by (auto simp: times_bounded_def)
  show ?thesis
  proof (cases "until c")
    case None
    then show ?thesis
      using inv by (simp add: h h' health_of_cell_def snapshot_def cell_state_def restored_cell_def
          default_cell_def cell_inv_def Let_def)
  next
    case (Some u)
    then have k: "threshold q \<le> consecutive c" "1 \<le> trips c" "u \<le> now + max_len q"
      using inv tb by (auto simp: cell_inv_def)
    then have "max (trips c) 1 = trips c" "max (consecutive c) (threshold q) = consecutive c"
      by (simp_all add: max_def)
    moreover have "deadline now' 0 = now'" "deadline now' (u - now) = now' + (u - now)"
      using k(3) assms(3) by (auto intro!: deadline_exact simp: deadline_exact [of _ 0, simplified])
    ultimately show ?thesis
      using Some k by (auto simp: h h' health_of_cell_def snapshot_def cell_state_def restored_cell_def
          restore_def saturating_duration_since_def Let_def)
  qed
qed

text \<open>
  Saving and restoring the health records is faithful. The records of any reachable set, saved
  at \<open>now\<close> and restored slot by slot at \<open>now'\<close> into a fresh set with the same quarantine policy,
  give the same states, remaining backoffs and trip counts; the failure streak is also the same for
  every upstream that is not alive, and is forgotten (0) for one that is.
\<close>

theorem health_restore_round_trip:
  assumes "ratings_reachable n (now, r)" "quarantine_enabled (qpolicy r)"
    and "try_with_quarantine n p (qpolicy r) now' seed = Ok r0" "now' + max_len (qpolicy r) \<le> instant_max"
    and "i < n"
  shows "let h = health_at r now ! i; h' = health_at (restore_all r0 0 (health_at r now) now') now' ! i
         in h_remaining h' = h_remaining h \<and> h_trips h' = h_trips h \<and>
            (if h_state h = UsAlive then h_state h' = UsAlive \<and> h_consecutive h' = 0 else h' = h)"
proof -
  have inv: "ratings_inv r" "length (cells r) = n" using ratings_reachable_inv [OF assms(1)] by auto
  then have len: "length (qcells r) = n" by (simp add: ratings_inv_def)
  have r0: "qpolicy r0 = qpolicy r" "length (qcells r0) = n" "qcells r0 ! i = default_cell"
    using assms(3,5) by (auto simp: try_with_quarantine_def split: sum.splits)
  have "qcells (restore_all r0 0 (health_at r now) now') ! i =
      restored_cell (qpolicy r) (health_at r now ! i) now' default_cell"
    and "length (qcells (restore_all r0 0 (health_at r now) now')) = n"
    using restore_all_qcells [of r0 0 "health_at r now" now'] r0 len assms(2,5) by (simp_all add: health_at_def)
  then show ?thesis
    using restored_health [OF ratings_reachable_cell [OF assms(1,5), simplified] assms(2,4) refl refl]
      len assms(5) by (simp add: health_at_def Let_def)
qed

theorem health_restore_round_trip_witness:
  "\<exists>h'. health_at (restore_all demo_ratings 0 (health_at demo_tripped 0) 0) 0 ! 0 = h' \<and>
     h_state h' = UsQuarantined \<and> h_trips h' = h_trips (health_at demo_tripped 0 ! 0)"
proof -
  have q: "qpolicy demo_tripped = demo_qpolicy"
    by (simp add: demo_tripped_def on_hard_failure_def demo_ratings_def Let_def case_prod_beta)
  have t: "try_with_quarantine 2 default_rating_policy (qpolicy demo_tripped) 0 1 = Ok demo_ratings"
    unfolding q by (rule demo_fresh)
  have m: "0 + max_len (qpolicy demo_tripped) \<le> instant_max"
    by (simp add: q demo_qpolicy_def default_quarantine_policy_def from_secs_def instant_max_def)
  have "length (qcells demo_tripped) = 2"
    using ratings_reachable_inv [OF demo_tripped_reachable] by (simp add: ratings_inv_def)
  then have "h_state (health_at demo_tripped 0 ! 0) = UsQuarantined"
    using demo_tripped_states(2) by (simp add: health_at_def health_of_cell_def snapshot_def Let_def)
  with health_restore_round_trip [OF demo_tripped_reachable demo_tripped_states(1) t m, of 0]
  show ?thesis by (simp add: Let_def)
qed

end
