(* ===== verification/StickyCache.thy ===== *)
theory StickyCache
  imports ProxyConfig Clock "HOL-Library.Product_Lexorder" "HOL-Library.List_Lexorder"
begin

text \<open>
  The bounded target-to-upstream cache of \<open>session/rotator/mod.rs\<close> (\<open>StickyCache\<close>), and the
  interface its client, the rotator, relies on. The hash map is an association list with distinct
  keys; the two \<open>BTreeSet\<close> indices are finite sets, whose \<open>first\<close> is the least element in the
  lexicographic order of the tuples.
\<close>

record sticky_entry =
  se_proxy :: proxy_config
  last_used :: instant
  expires_at :: instant
  generation :: u64

record sticky_cache =
  max_entries :: nat
  ttl :: duration
  smap :: "(bytes \<times> sticky_entry) list"
  recency :: "(instant \<times> u64 \<times> bytes) set"
  expiry :: "(instant \<times> bytes) set"
  next_generation :: u64

definition btree_first :: "'a::linorder set \<Rightarrow> 'a option" where
  "btree_first s = (if s = {} then None else Some (Min s))"

definition sticky_new :: "nat \<Rightarrow> duration \<Rightarrow> sticky_cache" where
  "sticky_new n d = \<lparr>max_entries = n, ttl = d, smap = [], recency = {}, expiry = {}, next_generation = 0\<rparr>"

definition del_key :: "bytes \<Rightarrow> (bytes \<times> 'v) list \<Rightarrow> (bytes \<times> 'v) list" where
  "del_key k m = filter (\<lambda>(k', _). k' \<noteq> k) m"

definition sticky_remove :: "sticky_cache \<Rightarrow> bytes \<Rightarrow> sticky_cache" where
  "sticky_remove c addr =
     (case map_of (smap c) addr of
        None \<Rightarrow> c
      | Some e \<Rightarrow>
          c\<lparr>smap := del_key addr (smap c),
            recency := recency c - {(last_used e, generation e, addr)},
            expiry := expiry c - {(expires_at e, addr)}\<rparr>)"

definition sticky_get :: "sticky_cache \<Rightarrow> bytes \<Rightarrow> instant \<Rightarrow> proxy_config option \<times> sticky_cache" where
  "sticky_get c addr now =
     (case map_of (smap c) addr of
        None \<Rightarrow> (None, c)
      | Some e \<Rightarrow>
          if expires_at e \<le> now then (None, sticky_remove c addr)
          else
            let e' = e\<lparr>last_used := now, generation := next_generation c\<rparr>
            in (Some (se_proxy e),
                c\<lparr>smap := (addr, e') # del_key addr (smap c),
                  recency := insert (now, next_generation c, addr)
                               (recency c - {(last_used e, generation e, addr)}),
                  next_generation := next_generation c + 1\<rparr>))"

definition sticky_victim :: "sticky_cache \<Rightarrow> instant \<Rightarrow> bytes option" where
  "sticky_victim c now =
     (case btree_first (expiry c) of
        Some (deadline, k) \<Rightarrow>
          if deadline \<le> now then Some k else map_option (\<lambda>(_, _, k). k) (btree_first (recency c))
      | None \<Rightarrow> map_option (\<lambda>(_, _, k). k) (btree_first (recency c)))"

definition sticky_insert :: "sticky_cache \<Rightarrow> bytes \<Rightarrow> proxy_config \<Rightarrow> instant \<Rightarrow> sticky_cache" where
  "sticky_insert c addr p now =
     (if max_entries c = 0 then c
      else
        let c1 = sticky_remove c addr;
            c2 = (if max_entries c1 \<le> length (smap c1)
                  then (case sticky_victim c1 now of Some v \<Rightarrow> sticky_remove c1 v | None \<Rightarrow> c1)
                  else c1);
            exp = (case instant_checked_add now (ttl c2) of Some t \<Rightarrow> t | None \<Rightarrow> now);
            gen = next_generation c2
        in c2\<lparr>next_generation := gen + 1,
              recency := insert (now, gen, addr) (recency c2),
              expiry := insert (exp, addr) (expiry c2),
              smap := (addr, \<lparr>se_proxy = p, last_used = now, expires_at = exp, generation = gen\<rparr>)
                        # del_key addr (smap c2)\<rparr>)"

subsection \<open>Invariant\<close>

definition recency_of :: "(bytes \<times> sticky_entry) list \<Rightarrow> (instant \<times> u64 \<times> bytes) set" where
  "recency_of m = (\<lambda>(k, e). (last_used e, generation e, k)) ` set m"

definition expiry_of :: "(bytes \<times> sticky_entry) list \<Rightarrow> (instant \<times> bytes) set" where
  "expiry_of m = (\<lambda>(k, e). (expires_at e, k)) ` set m"

text \<open>Each entry owns exactly one recency record and one expiry record, and the bound is kept.\<close>

definition cache_inv :: "sticky_cache \<Rightarrow> bool" where
  "cache_inv c \<longleftrightarrow>
     distinct (map fst (smap c)) \<and> recency c = recency_of (smap c) \<and> expiry c = expiry_of (smap c) \<and>
     length (smap c) \<le> max_entries c"

lemma map_of_del_key: "map_of (del_key k m) k' = (if k' = k then None else map_of m k')"
  by (induction m) (auto simp: del_key_def)

lemma distinct_del_key: "distinct (map fst m) \<Longrightarrow> distinct (map fst (del_key k m))"
  by (simp add: del_key_def distinct_map_filter)

lemma key_not_in_del_key [simp]: "k \<notin> fst ` set (del_key k m)"
  by (auto simp: del_key_def)

lemma set_del_key:
  assumes "distinct (map fst m)" "map_of m k = Some e"
  shows "set m = insert (k, e) (set (del_key k m))" "(k, e) \<notin> set (del_key k m)"
  using assms by (auto simp: del_key_def dest: map_of_SomeD) (metis map_of_eq_Some_iff option.inject)

lemma del_key_absent: "k \<notin> fst ` set m \<Longrightarrow> del_key k m = m"
  unfolding del_key_def by (rule filter_True) force

lemma length_del_key:
  assumes "distinct (map fst m)"
  shows "length (del_key k m) = length m - (if map_of m k = None then 0 else 1)"
  using assms
proof (induction m)
  case (Cons a m)
  show ?case
  proof (cases "fst a = k")
    case True
    then have "k \<notin> fst ` set m" using Cons.prems by auto
    then have "filter (\<lambda>(k', _). k' \<noteq> k) m = m" using del_key_absent [of k m] by (simp add: del_key_def)
    with True show ?thesis by (cases a) (auto simp: del_key_def)
  next
    case False
    have "map_of m k \<noteq> None \<Longrightarrow> 0 < length m" by (cases m) auto
    with False Cons show ?thesis by (cases a) (auto simp: del_key_def)
  qed
qed (simp add: del_key_def)

lemma indices_del_key:
  assumes "distinct (map fst m)" "map_of m k = Some e"
  shows "recency_of (del_key k m) = recency_of m - {(last_used e, generation e, k)}"
    "expiry_of (del_key k m) = expiry_of m - {(expires_at e, k)}"
  unfolding recency_of_def expiry_of_def set_del_key(1) [OF assms]
  by (force simp: del_key_def)+

lemma indices_Cons:
  "recency_of ((k, e) # m) = insert (last_used e, generation e, k) (recency_of m)"
  "expiry_of ((k, e) # m) = insert (expires_at e, k) (expiry_of m)"
  by (simp_all add: recency_of_def expiry_of_def)

lemma sticky_remove_inv: "cache_inv c \<Longrightarrow> cache_inv (sticky_remove c k)"
  by (auto simp: cache_inv_def sticky_remove_def distinct_del_key indices_del_key length_del_key
      split: option.splits)

lemma sticky_remove_lookup:
  "map_of (smap (sticky_remove c k)) k' = (if k' = k then None else map_of (smap c) k')"
  by (auto simp: sticky_remove_def map_of_del_key split: option.splits)

lemma sticky_remove_fields [simp]:
  "max_entries (sticky_remove c k) = max_entries c" "ttl (sticky_remove c k) = ttl c"
  "next_generation (sticky_remove c k) = next_generation c"
  by (simp_all add: sticky_remove_def split: option.splits)

lemma sticky_get_inv: "cache_inv c \<Longrightarrow> cache_inv (snd (sticky_get c k now))"
proof (cases "map_of (smap c) k")
  case None
  then show "cache_inv c \<Longrightarrow> ?thesis" by (simp add: sticky_get_def)
next
  case (Some e)
  assume inv: "cache_inv c"
  show ?thesis
  proof (cases "expires_at e \<le> now")
    case True
    with Some inv show ?thesis by (simp add: sticky_get_def sticky_remove_inv)
  next
    case False
    have d: "distinct (map fst (smap c))" using inv by (simp add: cache_inv_def)
    have "0 < length (smap c)" using Some by (cases "smap c") auto
    moreover have "expiry_of (smap c) = insert (expires_at e, k) (expiry_of (del_key k (smap c)))"
      unfolding expiry_of_def by (subst set_del_key(1) [OF d Some]) simp
    ultimately show ?thesis
      using False Some inv d indices_del_key(1) [OF d Some] distinct_del_key [OF d, of k] length_del_key [OF d, of k]
      by (simp add: sticky_get_def Let_def cache_inv_def indices_Cons)
  qed
qed

lemma Min_recency_mem:
  assumes "cache_inv c" "smap c \<noteq> []"
  shows "\<exists>t g k. btree_first (recency c) = Some (t, g, k) \<and> map_of (smap c) k \<noteq> None"
proof -
  have fin: "finite (recency c)" "recency c \<noteq> {}"
    using assms by (auto simp: cache_inv_def recency_of_def)
  obtain t g k where m: "Min (recency c) = (t, g, k)" by (cases "Min (recency c)")
  then have "(t, g, k) \<in> recency c" using Min_in [OF fin] by simp
  then have "map_of (smap c) k \<noteq> None"
    using assms by (auto simp: cache_inv_def recency_of_def map_of_eq_None_iff intro: rev_image_eqI)
  then show ?thesis using fin m by (auto simp: btree_first_def)
qed

lemma sticky_victim_mem:
  assumes "cache_inv c" "smap c \<noteq> []"
  shows "\<exists>v. sticky_victim c now = Some v \<and> map_of (smap c) v \<noteq> None"
proof -
  have fin: "finite (expiry c)" "expiry c \<noteq> {}" using assms by (auto simp: cache_inv_def expiry_of_def)
  obtain d k where m: "Min (expiry c) = (d, k)" by (cases "Min (expiry c)")
  then have "(d, k) \<in> expiry c" using Min_in [OF fin] by simp
  then have "map_of (smap c) k \<noteq> None"
    using assms by (auto simp: cache_inv_def expiry_of_def map_of_eq_None_iff intro: rev_image_eqI)
  moreover obtain t g k' where "btree_first (recency c) = Some (t, g, k')" "map_of (smap c) k' \<noteq> None"
    using Min_recency_mem [OF assms] by blast
  moreover have "btree_first (expiry c) = Some (d, k)" using fin m by (simp add: btree_first_def)
  ultimately show ?thesis by (cases "d \<le> now") (simp_all add: sticky_victim_def)
qed

lemma sticky_insert_inv:
  assumes "cache_inv c"
  shows "cache_inv (sticky_insert c k p now)"
proof (cases "max_entries c = 0")
  case False
  define c1 where "c1 = sticky_remove c k"
  define c2 where "c2 = (if max_entries c1 \<le> length (smap c1)
      then (case sticky_victim c1 now of Some v \<Rightarrow> sticky_remove c1 v | None \<Rightarrow> c1) else c1)"
  have i1: "cache_inv c1" "max_entries c1 = max_entries c" "map_of (smap c1) k = None"
    by (simp_all add: c1_def sticky_remove_inv assms sticky_remove_lookup)
  have c2: "cache_inv c2 \<and> max_entries c2 = max_entries c \<and> map_of (smap c2) k = None \<and>
      length (smap c2) < max_entries c"
  proof (cases "max_entries c1 \<le> length (smap c1)")
    case True
    then have "smap c1 \<noteq> []" using False i1(2) by auto
    from sticky_victim_mem [OF i1(1) this, of now] obtain v where
      v: "sticky_victim c1 now = Some v" "map_of (smap c1) v \<noteq> None" by blast
    have d: "distinct (map fst (smap c1))" "length (smap c1) \<le> max_entries c1"
      using i1(1) by (auto simp: cache_inv_def)
    have "length (smap (sticky_remove c1 v)) < max_entries c"
      using v(2) d False i1(2) \<open>smap c1 \<noteq> []\<close> by (auto simp: sticky_remove_def length_del_key split: option.splits)
    then show ?thesis
      using v True i1 by (simp add: c2_def sticky_remove_inv sticky_remove_lookup)
  qed (use i1 in \<open>simp add: c2_def\<close>)
  have del: "del_key k (smap c2) = smap c2" "k \<notin> fst ` set (smap c2)"
    using c2 del_key_absent [of k "smap c2"] by (simp_all add: map_of_eq_None_iff)
  show ?thesis
    using False c2 del by (auto simp: sticky_insert_def Let_def c1_def [symmetric] c2_def [symmetric] cache_inv_def
        recency_of_def expiry_of_def)
qed (simp add: sticky_insert_def assms)

subsection \<open>Which entry makes room\<close>

lemma sticky_insert_lookup:
  assumes "cache_inv c" "0 < max_entries c" and c1_def: "c1 = sticky_remove c k"
    and v_def: "v = (if max_entries c \<le> length (smap c1) then sticky_victim c1 now else None)"
  shows "map_of (smap (sticky_insert c k p now)) k' =
    (if k' = k then Some \<lparr>se_proxy = p, last_used = now,
       expires_at = (case instant_checked_add now (ttl c) of Some t \<Rightarrow> t | None \<Rightarrow> now),
       generation = next_generation c\<rparr>
     else if Some k' = v then None else map_of (smap c) k')"
proof -
  have f: "max_entries c1 = max_entries c" "ttl c1 = ttl c" "next_generation c1 = next_generation c"
    by (simp_all add: c1_def)
  show ?thesis
  proof (cases v)
    case None
    then have "sticky_victim c1 now = None \<or> \<not> max_entries c \<le> length (smap c1)"
      by (auto simp: v_def split: if_splits)
    with assms(2) None show ?thesis
      by (auto simp: sticky_insert_def Let_def c1_def [symmetric] f map_of_del_key sticky_remove_lookup)
        (auto simp: c1_def sticky_remove_lookup)
  next
    case (Some w)
    then have "sticky_victim c1 now = Some w" "max_entries c \<le> length (smap c1)"
      by (auto simp: v_def split: if_splits)
    with assms(2) Some show ?thesis
      by (auto simp: sticky_insert_def Let_def c1_def [symmetric] f map_of_del_key sticky_remove_lookup)
        (auto simp: c1_def sticky_remove_lookup)
  qed
qed

lemma first_expiry:
  assumes "cache_inv c" "map_of (smap c) k = Some e"
  obtains d v w where "btree_first (expiry c) = Some (d, v)" "map_of (smap c) v = Some w" "expires_at w = d"
    "d \<le> expires_at e"
proof -
  have fin: "finite (expiry c)" "(expires_at e, k) \<in> expiry c"
    using assms by (auto simp: cache_inv_def expiry_of_def dest: map_of_SomeD intro: rev_image_eqI)
  obtain d v where m: "Min (expiry c) = (d, v)" by (cases "Min (expiry c)")
  have "(d, v) \<in> expiry c" using Min_in [of "expiry c"] fin m by force
  have "(d, v) \<le> (expires_at e, k)" using Min_le [OF fin] m by simp
  then have "d \<le> expires_at e" by (auto simp: less_eq_prod_def)
  moreover obtain w where "(v, w) \<in> set (smap c)" "expires_at w = d"
    using \<open>(d, v) \<in> expiry c\<close> assms(1) by (auto simp: cache_inv_def expiry_of_def)
  moreover have "btree_first (expiry c) = Some (d, v)" using fin m by (auto simp: btree_first_def)
  ultimately show thesis using that [of d v w] assms(1) by (simp add: cache_inv_def)
qed

lemma first_recency:
  assumes "cache_inv c" "map_of (smap c) k = Some e"
  obtains t g v w where "btree_first (recency c) = Some (t, g, v)" "map_of (smap c) v = Some w"
    "last_used w = t" "generation w = g" "(t, g) \<le> (last_used e, generation e)"
proof -
  have fin: "finite (recency c)" "(last_used e, generation e, k) \<in> recency c"
    using assms by (auto simp: cache_inv_def recency_of_def dest: map_of_SomeD intro: rev_image_eqI)
  obtain t g v where m: "Min (recency c) = (t, g, v)" by (cases "Min (recency c)")
  have mem: "(t, g, v) \<in> recency c" using Min_in [of "recency c"] fin m by force
  have le: "(t, g) \<le> (last_used e, generation e)" using Min_le [OF fin] m by (auto simp: less_eq_prod_def)
  obtain w where "(v, w) \<in> set (smap c)" "last_used w = t" "generation w = g"
    using mem assms(1) by (auto simp: cache_inv_def recency_of_def)
  moreover have "btree_first (recency c) = Some (t, g, v)" using fin m by (auto simp: btree_first_def)
  ultimately show thesis using that [of t g v w] assms(1) le by (simp add: cache_inv_def)
qed

text \<open>
  The sticky cache stays bounded and evicts in the documented order. Inserting a new target
  into a full cache keeps every other entry but exactly one; that one is an expired entry whenever
  the cache holds one (the one that expired first), and otherwise the least recently used entry.
\<close>

theorem sticky_insert_evicts_expired_then_lru:
  assumes inv: "cache_inv c" and full: "length (smap c) = max_entries c" "0 < max_entries c"
    and new: "map_of (smap c) k = None"
  shows "\<exists>v w. map_of (smap c) v = Some w \<and>
    (\<forall>k'. k' \<noteq> k \<longrightarrow> map_of (smap (sticky_insert c k p now)) k' = (if k' = v then None else map_of (smap c) k')) \<and>
    (\<forall>k' e. map_of (smap c) k' = Some e \<longrightarrow>
       (if expires_at w \<le> now then expires_at w \<le> expires_at e
        else now < expires_at e \<and> (last_used w, generation w) \<le> (last_used e, generation e))) \<and>
    length (smap (sticky_insert c k p now)) = max_entries c"
proof -
  have c1: "sticky_remove c k = c" using new by (simp add: sticky_remove_def)
  have "smap c \<noteq> []" using full by auto
  then obtain k0 e0 where k0: "map_of (smap c) k0 = Some e0" by (cases "smap c") force+
  obtain d v w where x: "btree_first (expiry c) = Some (d, v)" "map_of (smap c) v = Some w" "expires_at w = d"
    using first_expiry [OF inv k0] by metis
  have xmin: "d \<le> expires_at e" if "map_of (smap c) k' = Some e" for k' e
    using first_expiry [OF inv that] x(1) by (metis option.inject prod.inject)
  obtain t g v' w' where r: "btree_first (recency c) = Some (t, g, v')" "map_of (smap c) v' = Some w'"
      "last_used w' = t" "generation w' = g"
    using first_recency [OF inv k0] by metis
  have rmin: "(t, g) \<le> (last_used e, generation e)" if "map_of (smap c) k' = Some e" for k' e
    using first_recency [OF inv that] r(1) by (metis option.inject prod.inject)
  let ?v = "if d \<le> now then v else v'" and ?w = "if d \<le> now then w else w'"
  have vic: "sticky_victim c now = Some ?v" using x r by (simp add: sticky_victim_def)
  have look: "map_of (smap (sticky_insert c k p now)) k' = (if k' = ?v then None else map_of (smap c) k')"
    if "k' \<noteq> k" for k'
    using sticky_insert_lookup [OF inv full(2) refl refl, of k p now k'] that c1 full vic by simp
  have mem: "map_of (smap c) ?v = Some ?w" using x r by simp
  have "?v \<noteq> k" using mem new by auto
  then have "length (smap (sticky_insert c k p now)) = max_entries c"
    using full inv c1 vic mem new by (auto simp: sticky_insert_def Let_def sticky_remove_def length_del_key
        distinct_del_key cache_inv_def map_of_del_key split: if_splits)
  moreover have "if expires_at ?w \<le> now then expires_at ?w \<le> expires_at e
      else now < expires_at e \<and> (last_used ?w, generation ?w) \<le> (last_used e, generation e)"
    if "map_of (smap c) k' = Some e" for k' e
  proof (cases "d \<le> now")
    case True
    then show ?thesis using x(3) xmin [OF that] by simp
  next
    case False
    then have "now < expires_at w'" "now < expires_at e" using xmin [OF r(2)] xmin [OF that] by linarith+
    moreover have "?w = w'" using False by simp
    ultimately show ?thesis using r(3,4) rmin [OF that] by (simp only: not_le [symmetric] if_False simp_thms)
  qed
  ultimately show ?thesis using mem look by blast
qed

subsection \<open>The cache as an interface\<close>

text \<open>
  What the rotator relies on: \<open>peek\<close> is the cached value with its deadline, \<open>touch\<close> a lookup at an
  instant, \<open>put\<close> an insertion, which may drop other entries but never invents one.
\<close>

locale target_cache =
  fixes cache_ok :: "'c \<Rightarrow> bool"
    and peek :: "'c \<Rightarrow> 'k \<Rightarrow> ('v \<times> nat) option"
    and touch :: "'c \<Rightarrow> 'k \<Rightarrow> nat \<Rightarrow> 'v option \<times> 'c"
    and put :: "'c \<Rightarrow> 'k \<Rightarrow> 'v \<Rightarrow> nat \<Rightarrow> 'c"
    and forget :: "'c \<Rightarrow> 'k \<Rightarrow> 'c"
    and lifetime :: "'c \<Rightarrow> nat"
  assumes ok_touch: "cache_ok c \<Longrightarrow> cache_ok (snd (touch c k t))"
    and ok_put: "cache_ok c \<Longrightarrow> cache_ok (put c k v t)"
    and ok_forget: "cache_ok c \<Longrightarrow> cache_ok (forget c k)"
    and lifetime_kept: "lifetime (snd (touch c k t)) = lifetime c" "lifetime (put c k v t) = lifetime c"
      "lifetime (forget c k) = lifetime c"
    and touch_result: "cache_ok c \<Longrightarrow>
      fst (touch c k t) = (case peek c k of Some (v, d) \<Rightarrow> if t < d then Some v else None | None \<Rightarrow> None)"
    and touch_peek: "cache_ok c \<Longrightarrow> peek (snd (touch c k t)) k' = Some vd \<Longrightarrow> peek c k' = Some vd"
    and put_peek: "cache_ok c \<Longrightarrow> peek (put c k v t) k' = Some (w, d) \<Longrightarrow>
      (if k' = k then w = v \<and> d \<le> t + lifetime c else peek c k' = Some (w, d))"
    and forget_peek: "cache_ok c \<Longrightarrow> peek (forget c k) k' = (if k' = k then None else peek c k')"

datatype ('k, 'v) cache_op = Touch 'k nat | Put 'k 'v nat | Forget 'k

text \<open>The last value put for a key and when, unless it was forgotten since.\<close>

fun last_put :: "'k \<Rightarrow> ('v \<times> nat) option \<Rightarrow> ('k, 'v) cache_op list \<Rightarrow> ('v \<times> nat) option" where
  "last_put k acc [] = acc"
| "last_put k acc (Touch k' t # ops) = last_put k acc ops"
| "last_put k acc (Put k' v t # ops) = last_put k (if k' = k then Some (v, t) else acc) ops"
| "last_put k acc (Forget k' # ops) = last_put k (if k' = k then None else acc) ops"

context target_cache
begin

fun run_ops :: "'c \<Rightarrow> ('k, 'v) cache_op list \<Rightarrow> 'c" where
  "run_ops c [] = c"
| "run_ops c (Touch k t # ops) = run_ops (snd (touch c k t)) ops"
| "run_ops c (Put k v t # ops) = run_ops (put c k v t) ops"
| "run_ops c (Forget k # ops) = run_ops (forget c k) ops"

definition covered :: "'c \<Rightarrow> ('k \<Rightarrow> ('v \<times> nat) option) \<Rightarrow> bool" where
  "covered c acc \<longleftrightarrow>
     (\<forall>k v d. peek c k = Some (v, d) \<longrightarrow> (\<exists>t. acc k = Some (v, t) \<and> d \<le> t + lifetime c))"

lemma covered_step:
  assumes "cache_ok c" "covered c acc"
  shows "covered (snd (touch c k t)) acc" "covered (put c k v t) (acc(k \<mapsto> (v, t)))"
    "covered (forget c k) (acc(k := None))"
  using assms touch_peek [OF assms(1)] put_peek [OF assms(1)] forget_peek [OF assms(1)]
  by (fastforce simp: covered_def lifetime_kept split: if_splits)+

lemma run_ops_covered:
  "cache_ok c \<Longrightarrow> covered c acc \<Longrightarrow>
   cache_ok (run_ops c ops) \<and> lifetime (run_ops c ops) = lifetime c \<and>
   covered (run_ops c ops) (\<lambda>k. last_put k (acc k) ops)"
proof (induction c ops arbitrary: acc rule: run_ops.induct)
  case (2 c k t ops)
  then show ?case using covered_step(1) [of c acc k t] by (simp add: ok_touch lifetime_kept)
next
  case (3 c k v t ops)
  have e: "(\<lambda>k'. last_put k' ((acc(k \<mapsto> (v, t))) k') ops) = (\<lambda>k'. last_put k' (acc k') (Put k v t # ops))"
    by (auto simp: fun_eq_iff)
  show ?case using 3(1) [OF ok_put [OF 3(2)] covered_step(2) [OF 3(2,3)]]
    by (simp only: run_ops.simps e lifetime_kept)
next
  case (4 c k ops)
  have e: "(\<lambda>k'. last_put k' ((acc(k := None)) k') ops) = (\<lambda>k'. last_put k' (acc k') (Forget k # ops))"
    by (auto simp: fun_eq_iff)
  show ?case using 4(1) [OF ok_forget [OF 4(2)] covered_step(3) [OF 4(2,3)]]
    by (simp only: run_ops.simps e lifetime_kept)
qed simp

lemma hit_is_last_put:
  assumes "cache_ok c" "\<And>k. peek c k = None" "fst (touch (run_ops c ops) k now) = Some v"
  shows "\<exists>t. last_put k None ops = Some (v, t) \<and> now < t + lifetime c"
proof -
  have "covered c (\<lambda>_. None)" using assms(2) by (simp add: covered_def)
  from run_ops_covered [OF assms(1) this, of ops]
  have ok: "cache_ok (run_ops c ops)" and lt: "lifetime (run_ops c ops) = lifetime c"
    and cov: "covered (run_ops c ops) (\<lambda>k. last_put k None ops)" by simp_all
  from assms(3) obtain d where d: "peek (run_ops c ops) k = Some (v, d)" "now < d"
    by (auto simp: touch_result [OF ok] split: option.splits if_splits)
  obtain t where "last_put k None ops = Some (v, t)" "d \<le> t + lifetime c"
    using cov [unfolded covered_def, rule_format, OF d(1)] lt by auto
  with d(2) show ?thesis by auto
qed

end

definition sticky_peek :: "sticky_cache \<Rightarrow> bytes \<Rightarrow> (proxy_config \<times> nat) option" where
  "sticky_peek c k = map_option (\<lambda>e. (se_proxy e, expires_at e)) (map_of (smap c) k)"

interpretation sticky: target_cache cache_inv sticky_peek sticky_get sticky_insert sticky_remove ttl
proof
  fix c :: sticky_cache and k k' :: bytes and t :: nat and v w :: proxy_config and d :: nat and vd
  show "cache_inv c \<Longrightarrow> cache_inv (snd (sticky_get c k t))" by (rule sticky_get_inv)
  show "cache_inv c \<Longrightarrow> cache_inv (sticky_insert c k v t)" by (rule sticky_insert_inv)
  show "cache_inv c \<Longrightarrow> cache_inv (sticky_remove c k)" by (rule sticky_remove_inv)
  show "ttl (snd (sticky_get c k t)) = ttl c"
    by (simp add: sticky_get_def Let_def split: option.splits)
  show "ttl (sticky_insert c k v t) = ttl c"
    by (simp add: sticky_insert_def Let_def split: option.splits)
  show "ttl (sticky_remove c k) = ttl c" by simp
  show "fst (sticky_get c k t) = (case sticky_peek c k of Some (v, d) \<Rightarrow> if t < d then Some v else None | None \<Rightarrow> None)"
    by (auto simp: sticky_get_def sticky_peek_def Let_def split: option.splits)
  show "sticky_peek (snd (sticky_get c k t)) k' = Some vd \<Longrightarrow> sticky_peek c k' = Some vd"
    by (auto simp: sticky_get_def sticky_peek_def Let_def sticky_remove_lookup map_of_del_key
        split: option.splits if_splits)
  show "sticky_peek (sticky_remove c k) k' = (if k' = k then None else sticky_peek c k')"
    by (simp add: sticky_peek_def sticky_remove_lookup)
  assume inv: "cache_inv c" and p: "sticky_peek (sticky_insert c k v t) k' = Some (w, d)"
  show "if k' = k then w = v \<and> d \<le> t + ttl c else sticky_peek c k' = Some (w, d)"
  proof (cases "max_entries c = 0")
    case True
    then have "smap c = []" using inv by (simp add: cache_inv_def)
    with True p show ?thesis by (simp add: sticky_insert_def sticky_peek_def)
  next
    case False
    then show ?thesis
      using sticky_insert_lookup [OF inv _ refl refl, of k v t k'] p
      by (auto simp: sticky_peek_def instant_checked_add_def split: if_splits option.splits)
  qed
qed

text \<open>
  The cache never lies. Starting from an empty cache, after any sequence of lookups, insertions
  and removals at any instants, a hit for a target returns the upstream of the last insertion for
  that target, which has not been removed since and is younger than the time to live.
\<close>

theorem sticky_hit_is_last_link:
  assumes "fst (sticky_get (sticky.run_ops (sticky_new n lifetime) ops) addr now) = Some p"
  shows "\<exists>t. last_put addr None ops = Some (p, t) \<and> now < t + lifetime"
proof -
  have "cache_inv (sticky_new n lifetime)" "\<And>k. sticky_peek (sticky_new n lifetime) k = None"
    by (simp_all add: cache_inv_def sticky_new_def sticky_peek_def recency_of_def expiry_of_def)
  from sticky.hit_is_last_put [OF this assms] show ?thesis by (simp add: sticky_new_def)
qed

theorem sticky_hit_is_last_link_witness:
  "let p = proxy_socks5 (ascii ''a'') 1; q = proxy_socks5 (ascii ''b'') 2;
       ops = [Put (ascii ''x'') p 10, Put (ascii ''y'') q 11, Touch (ascii ''x'') 12]
   in fst (sticky_get (sticky.run_ops (sticky_new 2 100) ops) (ascii ''x'') 50) = Some p \<and>
      (\<exists>t. last_put (ascii ''x'') None ops = Some (p, t) \<and> 50 < t + 100)"
proof -
  let ?p = "proxy_socks5 (ascii ''a'') 1" and ?q = "proxy_socks5 (ascii ''b'') 2"
  let ?ops = "[Put (ascii ''x'') ?p 10, Put (ascii ''y'') ?q 11, Touch (ascii ''x'') 12]"
  have h: "fst (sticky_get (sticky.run_ops (sticky_new 2 100) ?ops) (ascii ''x'') 50) = Some ?p"
    by (simp add: sticky_get_def sticky_new_def sticky_insert_def sticky_remove_def Let_def del_key_def
        instant_checked_add_def instant_max_def)
  with sticky_hit_is_last_link [OF h] show ?thesis by (simp only: Let_def)
qed

theorem sticky_insert_evicts_expired_then_lru_witness:
  "map_of (smap (sticky_insert
      (sticky_insert (sticky_new 1 100) (ascii ''x'') (proxy_socks5 (ascii ''a'') 1) 10)
      (ascii ''y'') (proxy_socks5 (ascii ''b'') 2) 20)) (ascii ''x'') = None"
proof -
  let ?c = "sticky_insert (sticky_new 1 100) (ascii ''x'') (proxy_socks5 (ascii ''a'') 1) 10"
  have inv: "cache_inv ?c"
    by (intro sticky_insert_inv) (simp add: cache_inv_def sticky_new_def recency_of_def expiry_of_def)
  have m: "\<exists>e. smap ?c = [(ascii ''x'', e)]" "max_entries ?c = 1"
    by (simp_all add: sticky_insert_def sticky_new_def sticky_remove_def Let_def del_key_def)
  then have f: "length (smap ?c) = max_entries ?c" "0 < max_entries ?c" "map_of (smap ?c) (ascii ''y'') = None"
    by auto
  from sticky_insert_evicts_expired_then_lru [OF inv f, of "proxy_socks5 (ascii ''b'') 2" 20] obtain v w where
    v: "map_of (smap ?c) v = Some w" and
    look: "\<And>k'. k' \<noteq> ascii ''y'' \<Longrightarrow> map_of (smap (sticky_insert ?c (ascii ''y'') (proxy_socks5 (ascii ''b'') 2) 20)) k' =
      (if k' = v then None else map_of (smap ?c) k')" by blast
  have "v = ascii ''x''" using v m(1) by (auto split: if_splits)
  then show ?thesis using look [of "ascii ''x''"] by simp
qed

end
