(* ===== verification/Rotator.thy ===== *)
theory Rotator
  imports Ratings StickyCache ConnectError
begin

text \<open>
  The rotator \<open>session/rotator\<close>: a deduplicated list of upstreams with one rating slot each, a
  round-robin counter and the sticky cache. The randomly keyed hasher (\<open>RandomState\<close>) is the
  argument \<open>hash\<close>, any function of the fields \<open>upstream_hash\<close> feeds it. The map from hashes to slots
  is an association list. Each operation is one step: the ratings, the cache and the counter have
  their own lock each, and an operation that uses two of them (\<open>get_linked\<close>) reads the second after
  the first, which the composition below does in the same order.
\<close>

record rotator =
  proxies :: "proxy_config list"
  by_identity :: "(u64 \<times> nat list) list"
  index :: u64
  sticky_c :: sticky_cache
  rot_ratings :: ratings

record upstream_health =
  uh_proxy :: proxy_config
  uh_health :: health

datatype rotator_error = RotatorEmpty | RotatorInvalidPolicy string

fun rotator_error_of :: "rating_error \<Rightarrow> rotator_error" where
  "rotator_error_of (InvalidPolicy msg) = RotatorInvalidPolicy msg"

fun rotator_error_display :: "rotator_error \<Rightarrow> string" where
  "rotator_error_display RotatorEmpty = ''cannot build a ProxyRotator from an empty upstream list''"
| "rotator_error_display (RotatorInvalidPolicy msg) = msg"

definition same_upstream :: "proxy_config \<Rightarrow> proxy_config \<Rightarrow> bool" where
  "same_upstream a b \<longleftrightarrow>
     pc_port a = pc_port b \<and> pc_protocol a = pc_protocol b \<and> pc_gate_level a = pc_gate_level b \<and>
     pc_host a = pc_host b \<and> pc_user a = pc_user b \<and> pc_password a = pc_password b"

type_synonym hash_fields = "bytes \<times> u16 \<times> proxy_protocol \<times> bytes option \<times> bytes option \<times> byte"

definition upstream_hash :: "(hash_fields \<Rightarrow> u64) \<Rightarrow> proxy_config \<Rightarrow> u64" where
  "upstream_hash hash p =
     hash (pc_host p, pc_port p, pc_protocol p, pc_user p, pc_password p, pc_gate_level p)"

definition DEFAULT_STICKY_CACHE_MAX_ENTRIES :: nat where
  "DEFAULT_STICKY_CACHE_MAX_ENTRIES = 4096"

definition DEFAULT_STICKY_CACHE_TTL :: duration where
  "DEFAULT_STICKY_CACHE_TTL = from_secs 600"

definition bucket :: "u64 \<Rightarrow> (u64 \<times> nat list) list \<Rightarrow> nat list" where
  "bucket h m = (case map_of m h of Some b \<Rightarrow> b | None \<Rightarrow> [])"

definition set_bucket :: "u64 \<Rightarrow> nat list \<Rightarrow> (u64 \<times> nat list) list \<Rightarrow> (u64 \<times> nat list) list" where
  "set_bucket h b m = (h, b) # filter (\<lambda>(h', _). h' \<noteq> h) m"

fun dedup ::
  "(hash_fields \<Rightarrow> u64) \<Rightarrow> proxy_config list \<Rightarrow> proxy_config list \<times> (u64 \<times> nat list) list \<Rightarrow>
   proxy_config list \<times> (u64 \<times> nat list) list" where
  "dedup hash [] (unique, m) = (unique, m)"
| "dedup hash (p # ps) (unique, m) =
     (let h = upstream_hash hash p; b = bucket h m
      in if list_ex (\<lambda>slot. same_upstream p (unique ! slot)) b then dedup hash ps (unique, set_bucket h b m)
         else dedup hash ps (unique @ [p], set_bucket h (b @ [length unique]) m))"

definition rotator_try_with_quarantine ::
  "(hash_fields \<Rightarrow> u64) \<Rightarrow> proxy_config list \<Rightarrow> rating_policy \<Rightarrow> quarantine_policy \<Rightarrow> nat \<Rightarrow> duration \<Rightarrow>
   instant \<Rightarrow> u64 \<Rightarrow> rotator_error + rotator" where
  "rotator_try_with_quarantine hash ps p q maxe life now seed =
     (if ps = [] then Err RotatorEmpty
      else
        let (unique, m) = dedup hash ps ([], [])
        in case try_with_quarantine (length unique) p q now seed of
             Err e \<Rightarrow> Err (rotator_error_of e)
           | Ok r \<Rightarrow> Ok \<lparr>proxies = unique, by_identity = m, index = 0, sticky_c = sticky_new maxe life,
                         rot_ratings = r\<rparr>)"

definition rotator_try_with_cache_limits ::
  "(hash_fields \<Rightarrow> u64) \<Rightarrow> proxy_config list \<Rightarrow> rating_policy \<Rightarrow> nat \<Rightarrow> duration \<Rightarrow> instant \<Rightarrow> u64 \<Rightarrow>
   rotator_error + rotator" where
  "rotator_try_with_cache_limits hash ps p maxe life now seed =
     rotator_try_with_quarantine hash ps p disabled_quarantine_policy maxe life now seed"

definition rotator_try_with_policy ::
  "(hash_fields \<Rightarrow> u64) \<Rightarrow> proxy_config list \<Rightarrow> rating_policy \<Rightarrow> instant \<Rightarrow> u64 \<Rightarrow> rotator_error + rotator" where
  "rotator_try_with_policy hash ps p now seed =
     rotator_try_with_cache_limits hash ps p DEFAULT_STICKY_CACHE_MAX_ENTRIES DEFAULT_STICKY_CACHE_TTL now seed"

definition rotator_try_new ::
  "(hash_fields \<Rightarrow> u64) \<Rightarrow> proxy_config list \<Rightarrow> instant \<Rightarrow> u64 \<Rightarrow> rotator_error + rotator" where
  "rotator_try_new hash ps now seed = rotator_try_with_policy hash ps default_rating_policy now seed"

subsection \<open>Operations\<close>

definition index_of :: "(hash_fields \<Rightarrow> u64) \<Rightarrow> rotator \<Rightarrow> proxy_config \<Rightarrow> nat option" where
  "index_of hash r p =
     (case map_of (by_identity r) (upstream_hash hash p) of
        None \<Rightarrow> None
      | Some b \<Rightarrow> List.find (\<lambda>i. same_upstream p (proxies r ! i)) b)"

definition link_proxy :: "rotator \<Rightarrow> bytes \<Rightarrow> proxy_config \<Rightarrow> instant \<Rightarrow> rotator" where
  "link_proxy r addr p now = r\<lparr>sticky_c := sticky_insert (sticky_c r) addr p now\<rparr>"

definition unlink_proxy :: "rotator \<Rightarrow> bytes \<Rightarrow> rotator" where
  "unlink_proxy r addr = r\<lparr>sticky_c := sticky_remove (sticky_c r) addr\<rparr>"

definition rotator_is_quarantined :: "(hash_fields \<Rightarrow> u64) \<Rightarrow> rotator \<Rightarrow> proxy_config \<Rightarrow> bool" where
  "rotator_is_quarantined hash r p \<longleftrightarrow>
     (case index_of hash r p of Some i \<Rightarrow> is_quarantined (rot_ratings r) i | None \<Rightarrow> False)"

definition get_linked ::
  "(hash_fields \<Rightarrow> u64) \<Rightarrow> rotator \<Rightarrow> bytes \<Rightarrow> instant \<Rightarrow> proxy_config option \<times> rotator" where
  "get_linked hash r addr now =
     (let (hit, c) = sticky_get (sticky_c r) addr now; r' = r\<lparr>sticky_c := c\<rparr>
      in case hit of
           None \<Rightarrow> (None, r')
         | Some linked \<Rightarrow> if rotator_is_quarantined hash r' linked then (None, r') else (Some linked, r'))"

text \<open>\<open>None\<close> is the panic of a division by zero or an index out of range.\<close>

definition get_next :: "rotator \<Rightarrow> (proxy_config \<times> rotator) option" where
  "get_next r =
     (if proxies r = [] then None
      else Some (proxies r ! (unat (index r) mod length (proxies r)), r\<lparr>index := index r + 1\<rparr>))"

definition record_failure :: "(hash_fields \<Rightarrow> u64) \<Rightarrow> rotator \<Rightarrow> proxy_config \<Rightarrow> instant \<Rightarrow> rotator" where
  "record_failure hash r p now =
     (case index_of hash r p of
        Some i \<Rightarrow> r\<lparr>rot_ratings := on_failure (rot_ratings r) i now\<rparr>
      | None \<Rightarrow> r)"

definition record_hard_failure ::
  "(hash_fields \<Rightarrow> u64) \<Rightarrow> rotator \<Rightarrow> proxy_config \<Rightarrow> instant \<Rightarrow> duration option \<times> rotator" where
  "record_hard_failure hash r p now =
     (case index_of hash r p of
        Some i \<Rightarrow> (let (d, rt) = on_hard_failure (rot_ratings r) i now in (d, r\<lparr>rot_ratings := rt\<rparr>))
      | None \<Rightarrow> (None, r))"

definition record_success :: "(hash_fields \<Rightarrow> u64) \<Rightarrow> rotator \<Rightarrow> proxy_config \<Rightarrow> instant \<Rightarrow> rotator" where
  "record_success hash r p now =
     (case index_of hash r p of
        Some i \<Rightarrow> r\<lparr>rot_ratings := on_success (rot_ratings r) i now\<rparr>
      | None \<Rightarrow> r)"

definition rotator_quarantine_now ::
  "(hash_fields \<Rightarrow> u64) \<Rightarrow> rotator \<Rightarrow> proxy_config \<Rightarrow> instant \<Rightarrow> duration option \<times> rotator" where
  "rotator_quarantine_now hash r p now =
     (case index_of hash r p of
        Some i \<Rightarrow> (let (d, rt) = quarantine_now (rot_ratings r) i now in (d, r\<lparr>rot_ratings := rt\<rparr>))
      | None \<Rightarrow> (None, r))"

definition take_probes :: "rotator \<Rightarrow> instant \<Rightarrow> proxy_config list \<times> rotator" where
  "take_probes r now =
     (let (is, rt) = take_probes_at (rot_ratings r) now
      in (map ((!) (proxies r)) is, r\<lparr>rot_ratings := rt\<rparr>))"

definition pick_order :: "rotator \<Rightarrow> instant \<Rightarrow> proxy_config list \<times> rotator" where
  "pick_order r now =
     (let (is, rt) = pick_order_at (rot_ratings r) now
      in (map ((!) (proxies r)) is, r\<lparr>rot_ratings := rt\<rparr>))"

definition rotator_health :: "rotator \<Rightarrow> instant \<Rightarrow> upstream_health list" where
  "rotator_health r now =
     map (\<lambda>(p, h). \<lparr>uh_proxy = p, uh_health = h\<rparr>) (zip (proxies r) (health_at (rot_ratings r) now))"

fun rotator_restore_health ::
  "(hash_fields \<Rightarrow> u64) \<Rightarrow> rotator \<Rightarrow> upstream_health list \<Rightarrow> instant \<Rightarrow> nat \<times> rotator" where
  "rotator_restore_health hash r [] now = (0, r)"
| "rotator_restore_health hash r (e # es) now =
     (let (ok, r1) = (case index_of hash r (uh_proxy e) of
                        Some i \<Rightarrow> (let (b, rt) = restore_health_at (rot_ratings r) i (uh_health e) now
                                   in (b, r\<lparr>rot_ratings := rt\<rparr>))
                      | None \<Rightarrow> (False, r));
          (n, r2) = rotator_restore_health hash r1 es now
      in (if ok then Suc n else n, r2))"

definition record_error ::
  "(hash_fields \<Rightarrow> u64) \<Rightarrow> rotator \<Rightarrow> proxy_config \<Rightarrow> connect_error \<Rightarrow> instant \<Rightarrow> duration option \<times> rotator" where
  "record_error hash r p e now =
     (if \<not> counts_against_upstream e then (None, r)
      else if is_upstream_down e then record_hard_failure hash r p now
      else (None, record_failure hash r p now))"

subsection \<open>Probes\<close>

text \<open>
  A probe round (\<open>probe.rs\<close>). The capacity reservation is \<open>reserve\<close>; the executor and the network
  are \<open>settle\<close>: it takes the upstreams whose checks were started and returns the finished checks in
  the order they finished, each with its outcome and the instant of the report (a check that
  panicked is missing).
\<close>

type_synonym check_result = "bytes + unit"

datatype probe_event =
    Recovered proxy_config
  | StillDown proxy_config duration bytes
  | QuarantinedAtStart proxy_config duration bytes

definition spawn_checks :: "(proxy_config \<Rightarrow> bool) \<Rightarrow> proxy_config list \<Rightarrow> proxy_config list" where
  "spawn_checks reserve ps = filter reserve ps"

fun drain_due ::
  "(hash_fields \<Rightarrow> u64) \<Rightarrow> rotator \<Rightarrow> (proxy_config \<times> check_result \<times> instant) list \<Rightarrow> probe_event list \<times> rotator" where
  "drain_due hash r [] = ([], r)"
| "drain_due hash r ((p, Ok _, t) # rs) =
     (let (es, r') = drain_due hash (record_success hash r p t) rs in (Recovered p # es, r'))"
| "drain_due hash r ((p, Err reason, t) # rs) =
     (let (d, r1) = record_hard_failure hash r p t; (es, r') = drain_due hash r1 rs
      in (case d of Some len \<Rightarrow> StillDown p len reason # es | None \<Rightarrow> es, r'))"

definition probe_due_with ::
  "(hash_fields \<Rightarrow> u64) \<Rightarrow> rotator \<Rightarrow> (proxy_config \<Rightarrow> bool) \<Rightarrow>
   (proxy_config list \<Rightarrow> (proxy_config \<times> check_result \<times> instant) list) \<Rightarrow> instant \<Rightarrow> probe_event list \<times> rotator" where
  "probe_due_with hash r reserve settle now =
     (let (ps, r1) = take_probes r now in drain_due hash r1 (settle (spawn_checks reserve ps)))"

fun drain_all ::
  "(hash_fields \<Rightarrow> u64) \<Rightarrow> rotator \<Rightarrow> (proxy_config \<times> check_result \<times> instant) list \<Rightarrow> probe_event list \<times> rotator" where
  "drain_all hash r [] = ([], r)"
| "drain_all hash r ((p, Ok _, t) # rs) = drain_all hash r rs"
| "drain_all hash r ((p, Err reason, t) # rs) =
     (if rotator_is_quarantined hash r p then drain_all hash r rs
      else
        let (d, r1) = rotator_quarantine_now hash r p t; (es, r') = drain_all hash r1 rs
        in (case d of Some len \<Rightarrow> QuarantinedAtStart p len reason # es | None \<Rightarrow> es, r'))"

definition probe_all_with ::
  "(hash_fields \<Rightarrow> u64) \<Rightarrow> rotator \<Rightarrow> (proxy_config \<Rightarrow> bool) \<Rightarrow>
   (proxy_config list \<Rightarrow> (proxy_config \<times> check_result \<times> instant) list) \<Rightarrow> probe_event list \<times> rotator" where
  "probe_all_with hash r reserve settle = drain_all hash r (settle (spawn_checks reserve (proxies r)))"

subsection \<open>Slots\<close>

lemma same_upstream_iff: "same_upstream a b \<longleftrightarrow> node_id a = node_id b"
  by (auto simp: same_upstream_def node_id_def)

lemma upstream_hash_cong: "node_id a = node_id b \<Longrightarrow> upstream_hash hash a = upstream_hash hash b"
  by (simp add: upstream_hash_def node_id_def)

text \<open>The index of hashes holds, for every hash, exactly the slots with that hash.\<close>

definition slots_inv :: "(hash_fields \<Rightarrow> u64) \<Rightarrow> proxy_config list \<Rightarrow> (u64 \<times> nat list) list \<Rightarrow> bool" where
  "slots_inv hash ps m \<longleftrightarrow>
     distinct (map node_id ps) \<and> (\<forall>h. set (bucket h m) = {i. i < length ps \<and> upstream_hash hash (ps ! i) = h})"

lemma bucket_set_bucket: "bucket h' (set_bucket h b m) = (if h' = h then b else bucket h' m)"
proof -
  have "map_of (filter (\<lambda>(h', _). h' \<noteq> h) m) h' = map_of m h'" if "h' \<noteq> h"
    using that by (induction m) auto
  then show ?thesis by (simp add: bucket_def set_bucket_def)
qed

text \<open>The reference: the first occurrence of each identity, in order.\<close>

definition first_occurrences :: "proxy_config list \<Rightarrow> proxy_config list \<Rightarrow> proxy_config list" where
  "first_occurrences seen ps =
     foldl (\<lambda>u p. if node_id p \<in> node_id ` set u then u else u @ [p]) seen ps"

lemma first_occurrences_Cons:
  "first_occurrences u (p # ps) =
     (if node_id p \<in> node_id ` set u then first_occurrences u ps else first_occurrences (u @ [p]) ps)"
  by (simp add: first_occurrences_def)

lemma bucket_search:
  assumes "slots_inv hash u m"
  shows "list_ex (\<lambda>slot. same_upstream p (u ! slot)) (bucket (upstream_hash hash p) m) \<longleftrightarrow>
         node_id p \<in> node_id ` set u"
proof -
  have "node_id p \<in> node_id ` set u \<longleftrightarrow> (\<exists>i < length u. node_id p = node_id (u ! i))"
    by (auto simp: image_iff set_conv_nth)
  moreover have "upstream_hash hash (u ! i) = upstream_hash hash p" if "node_id p = node_id (u ! i)" for i
    using upstream_hash_cong [OF that] by simp
  moreover have "set (bucket (upstream_hash hash p) m) = {i. i < length u \<and> upstream_hash hash (u ! i) = upstream_hash hash p}"
    using assms by (simp add: slots_inv_def)
  ultimately show ?thesis by (auto simp: list_ex_iff same_upstream_iff)
qed

lemma dedup_slots:
  assumes "slots_inv hash u m"
  shows "fst (dedup hash ps (u, m)) = first_occurrences u ps \<and>
    slots_inv hash (fst (dedup hash ps (u, m))) (snd (dedup hash ps (u, m)))"
  using assms
proof (induction ps arbitrary: u m)
  case Nil
  then show ?case by (simp add: first_occurrences_def)
next
  case (Cons p ps)
  let ?h = "upstream_hash hash p"
  show ?case
  proof (cases "node_id p \<in> node_id ` set u")
    case True
    have "slots_inv hash u (set_bucket ?h (bucket ?h m) m)"
      using Cons.prems by (auto simp: slots_inv_def bucket_set_bucket)
    note ih = Cons.IH [OF this]
    have "dedup hash (p # ps) (u, m) = dedup hash ps (u, set_bucket ?h (bucket ?h m) m)"
      "first_occurrences u (p # ps) = first_occurrences u ps"
      using True by (simp_all add: Let_def bucket_search [OF Cons.prems] first_occurrences_Cons)
    then show ?thesis using ih by (metis (no_types))
  next
    case False
    have "slots_inv hash (u @ [p]) (set_bucket ?h (bucket ?h m @ [length u]) m)"
      unfolding slots_inv_def
    proof (intro conjI allI)
      show "distinct (map node_id (u @ [p]))" using Cons.prems False by (simp add: slots_inv_def)
      fix h
      have b: "set (bucket h m) = {i. i < length u \<and> upstream_hash hash (u ! i) = h}"
        using Cons.prems by (simp add: slots_inv_def)
      have "{i. i < length (u @ [p]) \<and> upstream_hash hash ((u @ [p]) ! i) = h} =
          {i. i < length u \<and> upstream_hash hash (u ! i) = h} \<union> (if h = ?h then {length u} else {})"
        by (cases "h = ?h") (auto simp: nth_append less_Suc_eq)
      then show "set (bucket h (set_bucket ?h (bucket ?h m @ [length u]) m)) =
          {i. i < length (u @ [p]) \<and> upstream_hash hash ((u @ [p]) ! i) = h}"
        using b by (cases "h = ?h") (simp_all add: bucket_set_bucket)
    qed
    note ih = Cons.IH [OF this]
    have "dedup hash (p # ps) (u, m) = dedup hash ps (u @ [p], set_bucket ?h (bucket ?h m @ [length u]) m)"
      "first_occurrences u (p # ps) = first_occurrences (u @ [p]) ps"
      using False by (simp_all add: Let_def bucket_search [OF Cons.prems] first_occurrences_Cons)
    then show ?thesis using ih by (metis (no_types))
  qed
qed

lemma slots_inv_empty: "slots_inv hash [] []"
  by (simp add: slots_inv_def bucket_def)

lemma find_position:
  assumes "set b = {i. i < length ps \<and> Q i}" "\<And>i. i < length ps \<Longrightarrow> P (ps ! i) \<Longrightarrow> Q i"
    and "\<And>i j. i < length ps \<Longrightarrow> j < length ps \<Longrightarrow> P (ps ! i) \<Longrightarrow> P (ps ! j) \<Longrightarrow> i = j"
  shows "List.find (\<lambda>i. P (ps ! i)) b = position P ps"
proof (cases "position P ps")
  case None
  then have "\<And>x. x \<in> set ps \<Longrightarrow> \<not> P x" by (simp add: position_None)
  then show ?thesis using None assms(1) by (auto simp: find_None_iff)
next
  case (Some i)
  note i = position_SomeD [OF Some]
  then have "i \<in> set b" using assms(1,2) by auto
  then obtain j where j: "List.find (\<lambda>i. P (ps ! i)) b = Some j"
    using i(2) by (cases "List.find (\<lambda>i. P (ps ! i)) b") (auto simp: find_None_iff)
  then have "j \<in> set b" "P (ps ! j)" by (auto simp: find_Some_iff)
  with assms(1,3) i have "j = i" by auto
  with j Some show ?thesis by simp
qed

lemma index_of_position:
  assumes "slots_inv hash (proxies r) (by_identity r)"
  shows "index_of hash r p = position (same_upstream p) (proxies r)"
proof -
  let ?h = "upstream_hash hash p"
  have b: "set (bucket ?h (by_identity r)) = {i. i < length (proxies r) \<and> upstream_hash hash (proxies r ! i) = ?h}"
    using assms by (simp add: slots_inv_def)
  have "List.find (\<lambda>i. same_upstream p (proxies r ! i)) (bucket ?h (by_identity r)) = position (same_upstream p) (proxies r)"
  proof (rule find_position [OF b])
    fix i assume "i < length (proxies r)" "same_upstream p (proxies r ! i)"
    then show "upstream_hash hash (proxies r ! i) = ?h"
      using upstream_hash_cong [of p "proxies r ! i" hash] by (simp add: same_upstream_iff)
  next
    fix i j assume "i < length (proxies r)" "j < length (proxies r)"
      "same_upstream p (proxies r ! i)" "same_upstream p (proxies r ! j)"
    then show "i = j"
      using assms nth_eq_iff_index_eq [of "map node_id (proxies r)" i j] by (simp add: slots_inv_def same_upstream_iff)
  qed
  then show ?thesis by (auto simp: index_of_def bucket_def split: option.splits)
qed

subsection \<open>Invariant\<close>

definition rotator_inv :: "(hash_fields \<Rightarrow> u64) \<Rightarrow> rotator \<Rightarrow> bool" where
  "rotator_inv hash r \<longleftrightarrow>
     proxies r \<noteq> [] \<and> slots_inv hash (proxies r) (by_identity r) \<and> cache_inv (sticky_c r) \<and>
     ratings_inv (rot_ratings r) \<and> ratings_len (rot_ratings r) = length (proxies r)"

lemma first_occurrences_prefix: "\<exists>zs. first_occurrences u ps = u @ zs"
proof (induction ps arbitrary: u)
  case (Cons p ps)
  show ?case
    using Cons [of u] Cons [of "u @ [p]"] by (auto simp: first_occurrences_Cons)
qed (simp add: first_occurrences_def)

lemma rotator_inv_start:
  assumes "rotator_try_with_quarantine hash ps p q maxe life now seed = Ok r"
  shows "rotator_inv hash r \<and> proxies r = first_occurrences [] ps"
proof -
  obtain u m where d: "dedup hash ps ([], []) = (u, m)" by (cases "dedup hash ps ([], [])")
  from dedup_slots [OF slots_inv_empty, of hash ps] d
  have sl: "u = first_occurrences [] ps" "slots_inv hash u m" by auto
  from assms d obtain rt where "ps \<noteq> []" and rt: "try_with_quarantine (length u) p q now seed = Ok rt"
    and r: "r = \<lparr>proxies = u, by_identity = m, index = 0, sticky_c = sticky_new maxe life, rot_ratings = rt\<rparr>"
    by (auto simp: rotator_try_with_quarantine_def split: if_splits sum.splits)
  have "u \<noteq> []"
    using \<open>ps \<noteq> []\<close> first_occurrences_prefix [of "[hd ps]" "tl ps"] by (cases ps) (auto simp: sl first_occurrences_Cons)
  moreover have "cache_inv (sticky_new maxe life)"
    by (simp add: cache_inv_def sticky_new_def recency_of_def expiry_of_def)
  ultimately show ?thesis
    using ratings_inv_start [OF rt] sl by (simp add: rotator_inv_def r ratings_len_def)
qed

lemma rating_ops_inv:
  assumes "ratings_inv rt"
  shows "ratings_inv (on_failure rt i now) \<and> ratings_len (on_failure rt i now) = ratings_len rt"
    "ratings_inv (snd (on_hard_failure rt i now)) \<and> ratings_len (snd (on_hard_failure rt i now)) = ratings_len rt"
    "ratings_inv (on_success rt i now) \<and> ratings_len (on_success rt i now) = ratings_len rt"
    "ratings_inv (snd (quarantine_now rt i now)) \<and> ratings_len (snd (quarantine_now rt i now)) = ratings_len rt"
    "ratings_inv (snd (take_probes_at rt now)) \<and> ratings_len (snd (take_probes_at rt now)) = ratings_len rt"
    "ratings_inv (snd (pick_order_at rt now)) \<and> ratings_len (snd (pick_order_at rt now)) = ratings_len rt"
    "ratings_inv (snd (restore_health_at rt i h now)) \<and> ratings_len (snd (restore_health_at rt i h now)) = ratings_len rt"
  using assms ratings_inv_step [OF rs_failure [of now rt i]] ratings_inv_step [OF rs_hard_failure [of now rt i]]
    ratings_inv_step [OF rs_success [of now rt i]] ratings_inv_step [OF rs_quarantine [of now rt i]]
    ratings_inv_step [OF rs_probes [of now rt]] ratings_inv_step [OF rs_pick_order [of now rt]]
    ratings_inv_step [OF rs_restore [of now rt i h]]
  by (simp_all add: ratings_len_def)

text \<open>The steps of a rotator, each at an instant.\<close>

inductive rotator_step :: "(hash_fields \<Rightarrow> u64) \<Rightarrow> rotator \<Rightarrow> rotator \<Rightarrow> bool" for hash where
  ro_link: "rotator_step hash r (link_proxy r addr p now)"
| ro_unlink: "rotator_step hash r (unlink_proxy r addr)"
| ro_get_linked: "rotator_step hash r (snd (get_linked hash r addr now))"
| ro_next: "get_next r = Some (p, r') \<Longrightarrow> rotator_step hash r r'"
| ro_failure: "rotator_step hash r (record_failure hash r p now)"
| ro_hard_failure: "rotator_step hash r (snd (record_hard_failure hash r p now))"
| ro_success: "rotator_step hash r (record_success hash r p now)"
| ro_quarantine: "rotator_step hash r (snd (rotator_quarantine_now hash r p now))"
| ro_probes: "rotator_step hash r (snd (take_probes r now))"
| ro_order: "rotator_step hash r (snd (pick_order r now))"
| ro_restore: "rotator_step hash r (snd (rotator_restore_health hash r es now))"
| ro_error: "rotator_step hash r (snd (record_error hash r p e now))"

inductive rotator_reachable :: "(hash_fields \<Rightarrow> u64) \<Rightarrow> proxy_config list \<Rightarrow> rotator \<Rightarrow> bool" for hash ps where
  rt_start: "rotator_try_with_quarantine hash ps p q maxe life now seed = Ok r \<Longrightarrow> rotator_reachable hash ps r"
| rt_step: "rotator_reachable hash ps r \<Longrightarrow> rotator_step hash r r' \<Longrightarrow> rotator_reachable hash ps r'"

lemma rotator_inv_ratings:
  "rotator_inv hash r \<Longrightarrow> ratings_inv rt \<and> ratings_len rt = ratings_len (rot_ratings r) \<Longrightarrow>
   rotator_inv hash (r\<lparr>rot_ratings := rt\<rparr>)"
  by (simp add: rotator_inv_def)

lemma rotator_inv_sticky:
  "rotator_inv hash r \<Longrightarrow> cache_inv c \<Longrightarrow> rotator_inv hash (r\<lparr>sticky_c := c\<rparr>)"
  by (simp add: rotator_inv_def)

lemma restore_health_inv:
  "rotator_inv hash r \<Longrightarrow>
   rotator_inv hash (snd (rotator_restore_health hash r es now)) \<and>
   proxies (snd (rotator_restore_health hash r es now)) = proxies r"
proof (induction es arbitrary: r)
  case (Cons e es)
  let ?r1 = "snd (case index_of hash r (uh_proxy e) of
      Some i \<Rightarrow> (let (b, rt) = restore_health_at (rot_ratings r) i (uh_health e) now in (b, r\<lparr>rot_ratings := rt\<rparr>))
    | None \<Rightarrow> (False, r))"
  have "ratings_inv (rot_ratings r)" using Cons.prems by (simp add: rotator_inv_def)
  note this = rating_ops_inv(7) [OF this]
  then have "rotator_inv hash ?r1 \<and> proxies ?r1 = proxies r"
    using Cons.prems by (auto simp: case_prod_beta rotator_inv_ratings split: option.splits)
  with Cons.IH [of ?r1] show ?case by (simp add: Let_def case_prod_beta)
qed simp

lemma rotator_inv_step:
  assumes "rotator_step hash r r'" "rotator_inv hash r"
  shows "rotator_inv hash r' \<and> proxies r' = proxies r"
proof -
  have inv: "ratings_inv (rot_ratings r)" "cache_inv (sticky_c r)"
    using assms(2) by (simp_all add: rotator_inv_def)
  note rt = rating_ops_inv [OF inv(1)]
  note upd = rotator_inv_ratings [OF assms(2)] rotator_inv_sticky [OF assms(2)]
  from assms(1) show ?thesis
  proof cases
    case (ro_link addr p now)
    then show ?thesis using upd sticky_insert_inv [OF inv(2)] by (simp add: link_proxy_def)
  next
    case (ro_unlink addr)
    then show ?thesis using upd sticky_remove_inv [OF inv(2)] by (simp add: unlink_proxy_def)
  next
    case (ro_get_linked addr now)
    then show ?thesis using upd sticky_get_inv [OF inv(2)]
      by (simp add: get_linked_def Let_def case_prod_beta split: option.splits)
  next
    case (ro_next p)
    then show ?thesis using assms(2) by (auto simp: get_next_def rotator_inv_def split: if_splits)
  next
    case (ro_restore es now)
    then show ?thesis using restore_health_inv [OF assms(2)] by simp
  qed (use assms(2) upd(1) rt in \<open>auto simp: record_failure_def record_hard_failure_def record_success_def
        rotator_quarantine_now_def take_probes_def pick_order_def record_error_def case_prod_beta Let_def
        split: option.splits\<close>)
qed

lemma rotator_reachable_inv:
  "rotator_reachable hash ps r \<Longrightarrow> rotator_inv hash r \<and> proxies r = first_occurrences [] ps"
  by (induction rule: rotator_reachable.induct) (use rotator_inv_start rotator_inv_step in metis)+

subsection \<open>Which slots an operation touches\<close>

text \<open>The rating and quarantine state of one slot.\<close>

definition slot :: "rotator \<Rightarrow> nat \<Rightarrow> sand \<times> cell" where
  "slot r i = (cells (rot_ratings r) ! i, qcells (rot_ratings r) ! i)"

lemma index_of_Some:
  assumes "rotator_inv hash r" "index_of hash r p = Some i"
  shows "i < length (proxies r)" "node_id (proxies r ! i) = node_id p"
proof -
  have "position (same_upstream p) (proxies r) = Some i"
    using assms index_of_position by (simp add: rotator_inv_def)
  note position_SomeD [OF this]
  then show "i < length (proxies r)" "node_id (proxies r ! i) = node_id p"
    by (simp_all add: same_upstream_iff)
qed

lemma record_other_slot:
  assumes "rotator_inv hash r" "i < length (proxies r)" "node_id (proxies r ! i) \<noteq> node_id p"
  shows "slot (record_failure hash r p now) i = slot r i"
    "slot (snd (record_hard_failure hash r p now)) i = slot r i"
    "slot (record_success hash r p now) i = slot r i"
proof -
  have ne: "j \<noteq> i" if "index_of hash r p = Some j" for j
    using index_of_Some [OF assms(1) that] assms(3) by auto
  show "slot (record_failure hash r p now) i = slot r i"
    "slot (snd (record_hard_failure hash r p now)) i = slot r i"
    "slot (record_success hash r p now) i = slot r i"
    using ne by (auto simp: slot_def record_failure_def record_hard_failure_def record_success_def
        on_failure_def on_hard_failure_def on_success_def case_prod_beta Let_def split: option.splits)
qed

lemma drain_due_other_slot:
  assumes "rotator_inv hash r" "i < length (proxies r)"
    and "\<And>p x. (p, x) \<in> set rs \<Longrightarrow> node_id (proxies r ! i) \<noteq> node_id p"
  shows "slot (snd (drain_due hash r rs)) i = slot r i"
  using assms
proof (induction hash r rs rule: drain_due.induct)
  case (2 hash r p u t rs)
  have "rotator_inv hash (record_success hash r p t) \<and> proxies (record_success hash r p t) = proxies r"
    by (rule rotator_inv_step [OF ro_success 2(2)])
  moreover have "node_id (proxies r ! i) \<noteq> node_id p" using 2(4) [of p "(Ok u, t)"] by simp
  ultimately show ?case
    using 2 record_other_slot(3) [OF 2(2,3)] by (auto simp: Let_def case_prod_beta)
next
  case (3 hash r p reason t rs)
  have "rotator_inv hash (snd (record_hard_failure hash r p t)) \<and>
      proxies (snd (record_hard_failure hash r p t)) = proxies r"
    by (rule rotator_inv_step [OF ro_hard_failure 3(2)])
  moreover have "node_id (proxies r ! i) \<noteq> node_id p" using 3(4) [of p "(Err reason, t)"] by simp
  ultimately show ?case
    using 3(1) [OF prod.collapse refl] 3(3,4) record_other_slot(2) [OF 3(2,3), of p t]
    by (auto simp: Let_def case_prod_beta)
qed simp

subsection \<open>Properties\<close>

text \<open>
  The rotator's slots do not depend on the hash. For every hasher, the upstreams of a rotator are
  the first occurrences of the configured ones in configuration order, pairwise different in
  identity, and after any operations the hash index finds the slot that a linear search for the same
  protocol, host, port, credentials and gate level would find (a gate link does not matter).
\<close>

theorem rotator_slots_independent_of_hash:
  assumes "rotator_reachable hash ps r"
  shows "proxies r = first_occurrences [] ps \<and> distinct (map node_id (proxies r)) \<and> proxies r \<noteq> [] \<and>
    (\<forall>p. index_of hash r p = position (\<lambda>q. node_id q = node_id p) (proxies r))"
proof -
  have inv: "rotator_inv hash r" "proxies r = first_occurrences [] ps"
    using rotator_reachable_inv [OF assms] by auto
  have "same_upstream p = (\<lambda>q. node_id q = node_id p)" for p by (auto simp: same_upstream_iff)
  then show ?thesis
    using inv index_of_position [of hash r] by (auto simp: rotator_inv_def slots_inv_def)
qed

text \<open>
  The order in which a rotator offers its upstreams has no repetition, is never empty, and leaves
  out every quarantined upstream as long as one upstream is not quarantined; then it offers all
  upstreams that are not.
\<close>

theorem rotator_order_avoids_dead_upstreams:
  assumes "rotator_reachable hash ps r"
  shows "distinct (fst (pick_order r now)) \<and> fst (pick_order r now) \<noteq> [] \<and>
    set (fst (pick_order r now)) =
      (if \<exists>p \<in> set (proxies r). \<not> rotator_is_quarantined hash r p
       then {p \<in> set (proxies r). \<not> rotator_is_quarantined hash r p} else set (proxies r))"
proof -
  have inv: "rotator_inv hash r" using rotator_reachable_inv [OF assms] by simp
  then have rt: "ratings_inv (rot_ratings r)" "ratings_len (rot_ratings r) = length (proxies r)"
      "proxies r \<noteq> []" and dn: "distinct (map node_id (proxies r))"
    by (auto simp: rotator_inv_def slots_inv_def)
  have d: "distinct (proxies r)" using dn by (simp add: distinct_map)
  have q: "rotator_is_quarantined hash r (proxies r ! i) = is_quarantined (rot_ratings r) i"
    if "i < length (proxies r)" for i
  proof -
    have "position (same_upstream (proxies r ! i)) (proxies r) = Some i"
      using that dn nth_eq_iff_index_eq [of "map node_id (proxies r)"]
      by (auto simp: position_Some same_upstream_iff)
    then show ?thesis using index_of_position inv by (simp add: rotator_is_quarantined_def rotator_inv_def)
  qed
  have "fst (pick_order r now) = map ((!) (proxies r)) (fst (pick_order_at (rot_ratings r) now))"
    by (simp add: pick_order_def case_prod_beta)
  moreover note rating_selector.order_mapped_distinct [OF rt(1) d rt(2) [symmetric]]
    rating_selector.order_mapped_set [OF rt(1) rt(2) [symmetric]]
    rating_selector.order_nonempty [OF rt(1)]
  moreover have "(\<exists>p \<in> set (proxies r). \<not> rotator_is_quarantined hash r p) \<longleftrightarrow>
      (\<exists>j < length (proxies r). \<not> is_quarantined (rot_ratings r) j)"
    using q by (metis in_set_conv_nth)
  moreover have "{p \<in> set (proxies r). \<not> rotator_is_quarantined hash r p} =
      {proxies r ! i | i. i < length (proxies r) \<and> \<not> is_quarantined (rot_ratings r) i}"
    using q by (auto simp: in_set_conv_nth)
  ultimately show ?thesis using rt(2,3) by (simp, blast)
qed

text \<open>
  Blame. Reporting a connect error against an upstream never changes the rating or quarantine of
  another upstream; hitting the local capacity limit changes nothing at all; and only an error that
  says the upstream itself is down can change a quarantine or report a quarantine length.
\<close>

theorem record_error_blames_only_the_upstream:
  assumes "rotator_reachable hash ps r"
  shows "(\<forall>i < length (proxies r). node_id (proxies r ! i) \<noteq> node_id p \<longrightarrow>
            slot (snd (record_error hash r p e now)) i = slot r i) \<and>
    (\<forall>c. e = AtCapacity c \<longrightarrow> record_error hash r p e now = (None, r)) \<and>
    (\<not> is_upstream_down e \<longrightarrow>
       fst (record_error hash r p e now) = None \<and>
       qcells (rot_ratings (snd (record_error hash r p e now))) = qcells (rot_ratings r))"
proof (intro conjI allI impI)
  have inv: "rotator_inv hash r" using rotator_reachable_inv [OF assms] by simp
  show "slot (snd (record_error hash r p e now)) i = slot r i"
    if "i < length (proxies r)" "node_id (proxies r ! i) \<noteq> node_id p" for i
    using record_other_slot [OF inv that] by (simp add: record_error_def)
qed (auto simp: record_error_def record_failure_def on_failure_def split: option.splits)

text \<open>
  A probe that could not be started blames nobody. In a probe round, an upstream whose capacity
  reservation failed keeps its rating and its quarantine: all that happened to its cell is the probe
  lease, whatever the outcomes of the other probes were and in whatever order they arrived.
\<close>

theorem deferred_probe_changes_nothing:
  assumes "rotator_reachable hash ps r" "i < length (proxies r)" "\<not> reserve (proxies r ! i)"
    and settle: "\<And>xs p x. (p, x) \<in> set (settle xs) \<Longrightarrow> p \<in> set xs"
  shows "slot (snd (probe_due_with hash r reserve settle now)) i = slot (snd (take_probes r now)) i"
proof -
  have inv: "rotator_inv hash r" using rotator_reachable_inv [OF assms(1)] by simp
  have inv1: "rotator_inv hash (snd (take_probes r now)) \<and> proxies (snd (take_probes r now)) = proxies r"
    by (rule rotator_inv_step [OF ro_probes inv])
  have "\<exists>j < length (proxies r). p = proxies r ! j" if "p \<in> set (fst (take_probes r now))" for p
  proof -
    have "set (fst (take_probes_at (rot_ratings r) now)) \<subseteq> {..<length (proxies r)}"
      using inv lease_from_fst [of 0 "qcells (rot_ratings r)"]
      by (auto simp: take_probes_at_def case_prod_beta rotator_inv_def ratings_inv_def ratings_len_def)
    then show ?thesis using that by (auto simp: take_probes_def case_prod_beta)
  qed
  then have "node_id (proxies r ! i) \<noteq> node_id p"
    if "p \<in> set (spawn_checks reserve (fst (take_probes r now)))" for p
    using that assms(2,3) inv nth_eq_iff_index_eq [of "map node_id (proxies r)" i]
    by (auto simp: spawn_checks_def rotator_inv_def slots_inv_def)
  then show ?thesis
    using drain_due_other_slot [of hash "snd (take_probes r now)" i] inv1 assms(2) settle
    by (simp add: probe_due_with_def case_prod_beta)
qed

subsection \<open>Witnesses\<close>

definition demo_hash :: "hash_fields \<Rightarrow> u64" where
  "demo_hash f = 0"

definition demo_proxies :: "proxy_config list" where
  "demo_proxies = [proxy_socks5 (ascii ''a'') 1, proxy_http (ascii ''b'') 2, proxy_socks5 (ascii ''a'') 1]"

definition demo_rotator :: rotator where
  "demo_rotator = \<lparr>proxies = [proxy_socks5 (ascii ''a'') 1, proxy_http (ascii ''b'') 2],
     by_identity = [(0, [0, 1])], index = 0, sticky_c = sticky_new 4 100, rot_ratings = demo_ratings\<rparr>"

text \<open>All hashes collide, and the third upstream repeats the first.\<close>

lemma demo_rotator_start:
  "rotator_try_with_quarantine demo_hash demo_proxies default_rating_policy demo_qpolicy 4 100 0 1 = Ok demo_rotator"
proof -
  have "dedup demo_hash demo_proxies ([], []) =
      ([proxy_socks5 (ascii ''a'') 1, proxy_http (ascii ''b'') 2], [(0, [0, 1])])"
    by (simp add: demo_proxies_def demo_hash_def upstream_hash_def bucket_def set_bucket_def same_upstream_def
        proxy_socks5_def proxy_http_def proxy_new_def strip_brackets_def Let_def)
  then show ?thesis
    using demo_fresh
    by (simp add: rotator_try_with_quarantine_def demo_rotator_def demo_proxies_def numeral_2_eq_2)
qed

lemma demo_rotator_reachable: "rotator_reachable demo_hash demo_proxies demo_rotator"
  by (rule rt_start [OF demo_rotator_start])

theorem rotator_slots_independent_of_hash_witness:
  "index_of demo_hash demo_rotator (proxy_http (ascii ''b'') 2) = Some 1"
proof -
  have "index_of demo_hash demo_rotator (proxy_http (ascii ''b'') 2) =
      position (\<lambda>q. node_id q = node_id (proxy_http (ascii ''b'') 2)) (proxies demo_rotator)"
    using rotator_slots_independent_of_hash [OF demo_rotator_reachable] by blast
  then show ?thesis
    by (simp add: demo_rotator_def node_id_def proxy_socks5_def proxy_http_def proxy_new_def strip_brackets_def)
qed

definition demo_rotator_down :: rotator where
  "demo_rotator_down = snd (record_error demo_hash demo_rotator (proxy_socks5 (ascii ''a'') 1) (AuthFailed 1) 0)"

lemma demo_rotator_down_eq: "demo_rotator_down = demo_rotator\<lparr>rot_ratings := demo_tripped\<rparr>"
proof -
  have "index_of demo_hash demo_rotator (proxy_socks5 (ascii ''a'') 1) = Some 0"
    using rotator_reachable_inv [OF demo_rotator_reachable, THEN conjunct1]
    by (subst index_of_position) (simp_all add: rotator_inv_def demo_rotator_def same_upstream_def)
  then show ?thesis
    by (simp add: demo_rotator_down_def record_error_def record_hard_failure_def demo_tripped_def case_prod_beta)
      (simp add: demo_rotator_def)
qed

lemma demo_rotator_down_reachable: "rotator_reachable demo_hash demo_proxies demo_rotator_down"
  unfolding demo_rotator_down_def by (rule rt_step [OF demo_rotator_reachable ro_error])

text \<open>After one failed authentication (the threshold is 1) only the other upstream is offered.\<close>

theorem rotator_order_avoids_dead_upstreams_witness:
  "proxy_socks5 (ascii ''a'') 1 \<notin> set (fst (pick_order demo_rotator_down 0))"
proof -
  let ?a = "proxy_socks5 (ascii ''a'') 1" and ?b = "proxy_http (ascii ''b'') 2"
  have inv: "rotator_inv demo_hash demo_rotator_down"
    using rotator_reachable_inv [OF demo_rotator_down_reachable] by simp
  have ps: "proxies demo_rotator_down = [?a, ?b]" by (simp add: demo_rotator_down_eq demo_rotator_def)
  have ne: "\<not> same_upstream ?b ?a" by (simp add: same_upstream_def proxy_socks5_def proxy_http_def proxy_new_def)
  have "index_of demo_hash demo_rotator_down ?a = Some 0" "index_of demo_hash demo_rotator_down ?b = Some 1"
    using inv ne by (simp_all add: index_of_position rotator_inv_def ps same_upstream_iff)
  moreover have "length (qcells demo_tripped) = 2"
    using ratings_reachable_inv [OF demo_tripped_reachable] by (simp add: ratings_inv_def)
  ultimately have "rotator_is_quarantined demo_hash demo_rotator_down ?a"
      "\<not> rotator_is_quarantined demo_hash demo_rotator_down ?b"
    using demo_tripped_states by (auto simp: rotator_is_quarantined_def is_quarantined_def demo_rotator_down_eq
        cell_state_def is_tripped_def split: option.splits if_splits)
  with rotator_order_avoids_dead_upstreams [OF demo_rotator_down_reachable, of 0] ps show ?thesis by auto
qed

theorem record_error_blames_only_the_upstream_witness:
  "slot demo_rotator_down 1 = slot demo_rotator 1"
proof -
  have "1 < length (proxies demo_rotator)"
    "node_id (proxies demo_rotator ! 1) \<noteq> node_id (proxy_socks5 (ascii ''a'') 1)"
    by (simp_all add: demo_rotator_def node_id_def proxy_socks5_def proxy_http_def proxy_new_def)
  then show ?thesis
    using record_error_blames_only_the_upstream [OF demo_rotator_reachable, of "proxy_socks5 (ascii ''a'') 1" "AuthFailed 1" 0]
    unfolding demo_rotator_down_def by blast
qed

text \<open>No check may start, so none finishes.\<close>

theorem deferred_probe_changes_nothing_witness:
  "slot (snd (probe_due_with demo_hash demo_rotator_down (\<lambda>_. False) (map (\<lambda>p. (p, Ok (), 5))) 5)) 0 =
   slot (snd (take_probes demo_rotator_down 5)) 0"
proof -
  have "0 < length (proxies demo_rotator_down)" by (simp add: demo_rotator_down_eq demo_rotator_def)
  then show ?thesis
    by (intro deferred_probe_changes_nothing [OF demo_rotator_down_reachable]) auto
qed

end
