(* ===== verification/ChainPlan.thy ===== *)
theory ChainPlan
  imports Rotator
begin

text \<open>
  Multi-hop chains, \<open>session/chain/mod.rs\<close>: the ranked gate levels, the lazy plan that enumerates
  the combinations of gate and exit candidates, and the attribution of chain failures to hops. The
  shared rotators live in a store, addressed by a number each; \<open>hashes\<close> gives the hasher of each.
  A \<open>HashSet<ChainKey>\<close> is a list of keys, with membership by the equality of \<open>ChainKey\<close>.
\<close>

type_synonym rotator_store = "nat \<Rightarrow> rotator"
type_synonym hashers = "nat \<Rightarrow> hash_fields \<Rightarrow> u64"

record hop =
  hop_rotator :: nat
  hop_proxy :: proxy_config

record candidate =
  cand_hop :: hop
  cand_key :: proxy_config

record layer =
  candidates :: "candidate list"
  live :: nat
  lindex :: nat

record chain_pick =
  hops :: "hop list"
  pick_key :: proxy_config

record chain_plan =
  layers :: "layer list"
  seen :: "proxy_config list"
  dead :: "proxy_config list"
  plan_done :: bool

definition key_mem :: "proxy_config \<Rightarrow> proxy_config list \<Rightarrow> bool" where
  "key_mem k ks = list_ex (\<lambda>x. chain_key_eq (Some x) (Some k)) ks"

definition key_insert :: "proxy_config \<Rightarrow> proxy_config list \<Rightarrow> proxy_config list" where
  "key_insert k ks = (if key_mem k ks then ks else k # ks)"

subsection \<open>Gate levels\<close>

type_synonym gate_levels = "(byte \<times> nat) list"

text \<open>A stable sort by descending rank.\<close>

definition gate_levels_new :: "(byte \<times> nat) list \<Rightarrow> gate_levels" where
  "gate_levels_new levels = sort_key (\<lambda>(rank, _). 255 - unat rank) levels"

definition chain_same_node :: "proxy_config \<Rightarrow> proxy_config \<Rightarrow> bool" where
  "chain_same_node a b \<longleftrightarrow>
     pc_protocol a = pc_protocol b \<and> pc_host a = pc_host b \<and> pc_port a = pc_port b \<and>
     pc_user a = pc_user b \<and> pc_password a = pc_password b \<and> pc_gate_level a = pc_gate_level b"

fun resolve_gates :: "rotator_store \<Rightarrow> (byte \<times> nat) list \<Rightarrow> proxy_config list \<Rightarrow> hop list option" where
  "resolve_gates st ((rank, r) # ls) (n # ns) =
     (if pc_gate_level n \<noteq> rank then None
      else case List.find (\<lambda>c. chain_same_node c n) (proxies (st r)) of
             None \<Rightarrow> None
           | Some p \<Rightarrow> map_option (\<lambda>hs. \<lparr>hop_rotator = r, hop_proxy = p\<rparr> # hs) (resolve_gates st ls ns))"
| "resolve_gates st _ _ = Some []"

fun resolve_exit :: "rotator_store \<Rightarrow> nat list \<Rightarrow> proxy_config \<Rightarrow> hop option" where
  "resolve_exit st [] n = None"
| "resolve_exit st (r # rs) n =
     (case List.find (\<lambda>c. chain_same_node c n) (proxies (st r)) of
        Some p \<Rightarrow> Some \<lparr>hop_rotator = r, hop_proxy = p\<rparr>
      | None \<Rightarrow> resolve_exit st rs n)"

definition resolve :: "rotator_store \<Rightarrow> gate_levels \<Rightarrow> nat list \<Rightarrow> proxy_config \<Rightarrow> chain_pick option" where
  "resolve st levels exits chain =
     (let ns = nodes chain
      in if length ns \<noteq> length levels + 1 then None
         else Option.bind (resolve_gates st levels (take (length levels) ns)) (\<lambda>hs.
              if ns = [] then None
              else Option.bind (resolve_exit st exits (last ns)) (\<lambda>e.
                   let hs' = hs @ [e]
                   in map_option (\<lambda>c. \<lparr>hops = hs', pick_key = c\<rparr>) (proxy_chain (map hop_proxy hs')))))"

subsection \<open>Building a plan\<close>

definition singleton_key :: "proxy_config \<Rightarrow> proxy_config" where
  "singleton_key p = link_gate p None"

fun deduplicate :: "proxy_config list \<Rightarrow> hop list \<Rightarrow> candidate list" where
  "deduplicate keys [] = []"
| "deduplicate keys (h # hs) =
     (let key = singleton_key (hop_proxy h)
      in if key_mem key keys then deduplicate keys hs
         else \<lparr>cand_hop = h, cand_key = key\<rparr> # deduplicate (key_insert key keys) hs)"

definition order_hops :: "rotator_store \<Rightarrow> nat \<Rightarrow> instant \<Rightarrow> hop list \<times> rotator_store" where
  "order_hops st r now =
     (let (ps, rot) = pick_order (st r) now
      in (map (\<lambda>p. \<lparr>hop_rotator = r, hop_proxy = p\<rparr>) ps, st(r := rot)))"

definition mk_layer :: "candidate list \<Rightarrow> layer" where
  "mk_layer cs = \<lparr>candidates = cs, live = length cs, lindex = 0\<rparr>"

fun gate_layers :: "rotator_store \<Rightarrow> gate_levels \<Rightarrow> instant \<Rightarrow> layer list \<times> rotator_store" where
  "gate_layers st [] now = ([], st)"
| "gate_layers st ((_, r) # ls) now =
     (let (hs, st1) = order_hops st r now; (rest, st2) = gate_layers st1 ls now
      in (mk_layer (deduplicate [] hs) # rest, st2))"

fun exit_hops :: "rotator_store \<Rightarrow> nat list \<Rightarrow> instant \<Rightarrow> hop list \<times> rotator_store" where
  "exit_hops st [] now = ([], st)"
| "exit_hops st (r # rs) now =
     (let (hs, st1) = order_hops st r now; (rest, st2) = exit_hops st1 rs now in (hs @ rest, st2))"

definition chain_plan_new ::
  "rotator_store \<Rightarrow> gate_levels \<Rightarrow> nat list \<Rightarrow> instant \<Rightarrow> chain_plan \<times> rotator_store" where
  "chain_plan_new st gates exits now =
     (let (ls, st1) = gate_layers st gates now;
          (hs, st2) = exit_hops st1 exits now;
          ls' = ls @ [mk_layer (deduplicate [] hs)]
      in (\<lparr>layers = ls', seen = [], dead = [], plan_done = list_ex (\<lambda>l. candidates l = []) ls'\<rparr>, st2))"

subsection \<open>Walking the plan\<close>

text \<open>
  The carry shared by \<open>advance\<close> and \<open>jump_subtree\<close>: from the last layer to the first, increment; stop
  at the first layer that does not overflow. The flag says that every layer overflowed.
\<close>

fun bump_rev :: "layer list \<Rightarrow> layer list \<times> bool" where
  "bump_rev [] = ([], True)"
| "bump_rev (l # ls) =
     (if lindex l + 1 < length (candidates l) then (l\<lparr>lindex := lindex l + 1\<rparr> # ls, False)
      else let (ls', carry) = bump_rev ls in (l\<lparr>lindex := 0\<rparr> # ls', carry))"

definition advance :: "chain_plan \<Rightarrow> chain_plan" where
  "advance p =
     (let (ls, carry) = bump_rev (rev (layers p))
      in p\<lparr>layers := rev ls, plan_done := plan_done p \<or> carry\<rparr>)"

definition jump_subtree :: "chain_plan \<Rightarrow> nat \<Rightarrow> chain_plan" where
  "jump_subtree p i =
     (let below = map (\<lambda>l. l\<lparr>lindex := 0\<rparr>) (drop (i + 1) (layers p));
          (ls, carry) = bump_rev (rev (take (i + 1) (layers p)))
      in p\<lparr>layers := rev ls @ below, plan_done := plan_done p \<or> carry\<rparr>)"

text \<open>The candidates the indices point at; \<open>None\<close> is an index out of range (a panic).\<close>

fun current :: "layer list \<Rightarrow> candidate list option" where
  "current [] = Some []"
| "current (l # ls) =
     (if lindex l < length (candidates l)
      then map_option (\<lambda>cs. candidates l ! lindex l # cs) (current ls) else None)"

definition pick_of :: "candidate list \<Rightarrow> chain_pick option" where
  "pick_of cs =
     map_option (\<lambda>c. \<lparr>hops = map cand_hop cs, pick_key = c\<rparr>) (proxy_chain (map (\<lambda>c. hop_proxy (cand_hop c)) cs))"

partial_function (option) next_pick :: "chain_plan \<Rightarrow> (chain_pick option \<times> chain_plan) option" where
  "next_pick p =
     (if plan_done p then Some (None, p)
      else case current (layers p) of
             None \<Rightarrow> None
           | Some cs \<Rightarrow>
               (case position (\<lambda>c. key_mem (cand_key c) (dead p)) cs of
                  Some i \<Rightarrow> next_pick (jump_subtree p i)
                | None \<Rightarrow>
                    (case pick_of cs of
                       None \<Rightarrow> None
                     | Some pick \<Rightarrow>
                         if key_mem (pick_key pick) (seen p) then next_pick (advance p)
                         else Some (Some pick, advance p))))"

definition mark_layer :: "proxy_config \<Rightarrow> layer \<Rightarrow> layer" where
  "mark_layer key l =
     (if list_ex (\<lambda>c. chain_key_eq (Some (cand_key c)) (Some key)) (candidates l) then l\<lparr>live := live l - 1\<rparr> else l)"

definition mark_dead :: "chain_plan \<Rightarrow> proxy_config \<Rightarrow> chain_plan" where
  "mark_dead p proxy =
     (let key = singleton_key proxy
      in if key_mem key (dead p) then p
         else
           let ls = map (mark_layer key) (layers p);
               exhausted = list_ex (\<lambda>l. list_ex (\<lambda>c. chain_key_eq (Some (cand_key c)) (Some key)) (candidates l) \<and>
                                        live (mark_layer key l) = 0) (layers p)
           in p\<lparr>dead := key_insert key (dead p), layers := ls, plan_done := plan_done p \<or> exhausted\<rparr>)"

definition exclude :: "chain_plan \<Rightarrow> proxy_config \<Rightarrow> chain_plan" where
  "exclude p key = p\<lparr>seen := key_insert key (seen p)\<rparr>"

subsection \<open>Accounting\<close>

datatype chain_stage = StageConnect | StageHop nat | StageTarget

record quarantined =
  q_proxy :: proxy_config
  q_length :: duration

definition soft_hop :: "hashers \<Rightarrow> rotator_store \<Rightarrow> hop \<Rightarrow> instant \<Rightarrow> rotator_store" where
  "soft_hop hs st h now =
     st(hop_rotator h := record_failure (hs (hop_rotator h)) (st (hop_rotator h)) (hop_proxy h) now)"

definition hard_hop ::
  "hashers \<Rightarrow> rotator_store \<Rightarrow> hop \<Rightarrow> connect_error \<Rightarrow> instant \<Rightarrow> quarantined list \<times> rotator_store" where
  "hard_hop hs st h e now =
     (let (d, rot) = record_error (hs (hop_rotator h)) (st (hop_rotator h)) (hop_proxy h) e now
      in (case d of Some len \<Rightarrow> [\<lparr>q_proxy = hop_proxy h, q_length = len\<rparr>] | None \<Rightarrow> [],
          st(hop_rotator h := rot)))"

definition pick_record_success :: "hashers \<Rightarrow> rotator_store \<Rightarrow> chain_pick \<Rightarrow> instant \<Rightarrow> rotator_store" where
  "pick_record_success hs st pick now =
     foldl (\<lambda>st h. st(hop_rotator h := record_success (hs (hop_rotator h)) (st (hop_rotator h)) (hop_proxy h) now))
       st (hops pick)"

text \<open>A pick always has hops; \<open>None\<close> is the panic on one that has none.\<close>

definition chain_record_failure ::
  "hashers \<Rightarrow> rotator_store \<Rightarrow> chain_plan \<Rightarrow> chain_pick \<Rightarrow> chain_stage \<Rightarrow> connect_error \<Rightarrow> instant \<Rightarrow>
   (quarantined list \<times> chain_plan \<times> rotator_store) option" where
  "chain_record_failure hs st p pick stg e now =
     (if \<not> counts_against_upstream e then Some ([], p, st)
      else
        let h = hops pick
        in case stg of
             StageConnect \<Rightarrow>
               if h = [] then None
               else let (q, st1) = hard_hop hs st (h ! 0) e now in Some (q, mark_dead p (hop_proxy (h ! 0)), st1)
           | StageHop i \<Rightarrow>
               if i + 1 < length h then
                 if is_upstream_down e
                 then let (q, st1) = hard_hop hs st (h ! i) e now in Some (q, mark_dead p (hop_proxy (h ! i)), st1)
                 else Some ([], p, soft_hop hs (soft_hop hs st (h ! i) now) (h ! (i + 1)) now)
               else Some ([], p, foldl (\<lambda>st x. soft_hop hs st x now) st h)
           | StageTarget \<Rightarrow>
               if h = [] then None
               else let (q, st1) = hard_hop hs st (last h) e now in Some (q, mark_dead p (hop_proxy (last h)), st1))"

end
