(* ===== verification/Dial.thy ===== *)
theory Dial
  imports HttpClient Pool ChainPlan
begin

text \<open>
  Dialling a target through one proxy or through a chain of them: \<open>connect/dial/tcp_dial.rs\<close>,
  \<open>connect/dial/mod.rs\<close>, \<open>connect/dial/chain.rs\<close>, \<open>connect/dial/chain_pool.rs\<close>,
  \<open>connect/proxy_connect/connect_proxy.rs\<close> and the connecting half of \<open>connect/tls/upstream_tls.rs\<close>.

  The network, rustls and the base64 encoder are arguments. A wait that never ends is \<open>None\<close>, and a bounded
  wait turns it into its timeout. The timer of the whole call is the argument \<open>fires\<close>: the number of waits
  (the TCP connect, then one per hop) that end before it fires.
\<close>

type_synonym usize = "64 word"

type_synonym network = "bytes \<Rightarrow> u16 \<Rightarrow> (io_error + conn) option"

record tls_connector =
  server_name_ok :: "bytes \<Rightarrow> bool"
  tls_connect :: "bytes \<Rightarrow> conn \<Rightarrow> (io_error + conn) option"

text \<open>A connection with the slots it holds.\<close>

type_synonym link = "upstream_stream \<times> conn"

datatype any_upstream = PlainUpstream link | TlsUpstream link | DirectUpstream conn | GateUpstream link

record dial_options =
  connect_timeout :: duration
  handshake_timeout :: duration
  total_timeout :: "duration option"

definition default_dial_options :: dial_options where
  "default_dial_options = \<lparr>connect_timeout = from_secs 10, handshake_timeout = from_secs 10, total_timeout = None\<rparr>"

definition with_connect_timeout :: "duration \<Rightarrow> dial_options \<Rightarrow> dial_options" where
  "with_connect_timeout d o' = o'\<lparr>connect_timeout := d\<rparr>"

definition with_handshake_timeout :: "duration \<Rightarrow> dial_options \<Rightarrow> dial_options" where
  "with_handshake_timeout d o' = o'\<lparr>handshake_timeout := d\<rparr>"

definition with_total_budget :: "duration \<Rightarrow> dial_options \<Rightarrow> dial_options" where
  "with_total_budget d o' = o'\<lparr>total_timeout := Some d\<rparr>"

subsection \<open>One proxy\<close>

definition tcp_dial :: "network \<Rightarrow> proxy_config \<Rightarrow> duration \<Rightarrow> connect_error + conn" where
  "tcp_dial net proxy budget =
     (case net (pc_host proxy) (pc_port proxy) of
        Some (Ok c) \<Rightarrow> Ok c
      | Some (Err e) \<Rightarrow> Err (Io ConnectStage (Some (upstream_endpoint proxy)) e)
      | None \<Rightarrow> Err (Timeout ConnectStage TcpConnect (upstream_endpoint proxy) budget))"

text \<open>Brackets around an IPv6 literal are taken off.\<close>

definition target_host :: "bytes \<Rightarrow> bytes" where
  "target_host host =
     (case strip_prefix [LBRACKET] host of
        None \<Rightarrow> host
      | Some h \<Rightarrow> if h \<noteq> [] \<and> last h = RBRACKET then butlast h else host)"

definition tls_required :: connect_error where
  "tls_required = Tls (ascii ''HTTPS upstream requires TLS connector'') None"

text \<open>A handshake program with a budget; the connection comes back on success only.\<close>

definition in_budget :: "client_prog \<Rightarrow> connect_error \<Rightarrow> link \<Rightarrow> connect_error + link" where
  "in_budget p late l =
     (case run_on (\<lambda>_. True) p (snd l) of
        (Some (Ok _), c) \<Rightarrow> Ok (fst l, c)
      | (Some (Err e), _) \<Rightarrow> Err e
      | (None, _) \<Rightarrow> Err late)"

definition hs_timeout :: "timeout_kind \<Rightarrow> proxy_config \<Rightarrow> duration \<Rightarrow> connect_error" where
  "hs_timeout kind proxy hs = Timeout HandshakeStage kind (upstream_endpoint proxy) hs"

text \<open>TLS to the proxy, then CONNECT inside it. Both implementations, on a socket and on a tunnel, read the same.\<close>

definition https_on_stream ::
  "(bytes \<Rightarrow> bytes) \<Rightarrow> tls_connector \<Rightarrow> bytes \<Rightarrow> proxy_config \<Rightarrow> duration \<Rightarrow> link \<Rightarrow> connect_error + link" where
  "https_on_stream encode connector target proxy hs l =
     (if \<not> server_name_ok connector (pc_host proxy)
      then Err (Tls (ascii ''[HTTPS] invalid server name: '' @ pc_host proxy) None)
      else case tls_connect connector (pc_host proxy) (snd l) of
             Some (Ok c) \<Rightarrow> in_budget (http_connect_handshake encode target proxy) (hs_timeout HttpsConnectHandshake proxy hs) (fst l, c)
           | Some (Err e) \<Rightarrow>
               Err (Tls (ascii ''[HTTPS] TLS handshake to '' @ upstream_endpoint proxy @ ascii '': '' @ io_text e) (Some e))
           | None \<Rightarrow> Err (hs_timeout HttpsTlsHandshake proxy hs))"

text \<open>The handshake of \<open>dial\<close> on a fresh socket.\<close>

definition dial_handshake ::
  "(bytes \<Rightarrow> bytes) \<Rightarrow> tls_connector option \<Rightarrow> proxy_config \<Rightarrow> bytes \<Rightarrow> u16 \<Rightarrow> duration \<Rightarrow> link \<Rightarrow> connect_error + any_upstream" where
  "dial_handshake encode tls proxy host port hs l =
     (case pc_protocol proxy of
        Socks5 \<Rightarrow> map_sum id PlainUpstream (in_budget (socks5_handshake host port (socks5_auth proxy)) (hs_timeout Socks5Handshake proxy hs) l)
      | Http \<Rightarrow> map_sum id PlainUpstream
          (in_budget (http_connect_on_tcp encode (host_port_format host port) proxy) (hs_timeout HttpHandshake proxy hs) l)
      | Https \<Rightarrow>
          (case tls of
             None \<Rightarrow> Err tls_required
           | Some connector \<Rightarrow>
               map_sum id TlsUpstream (https_on_stream encode connector (host_port_format host port) proxy hs l)))"

text \<open>
  The result, or \<open>None\<close> when the call is cut off, and whether the socket was up: \<open>on_tcp\<close> had been called.
\<close>

definition dial_inner ::
  "(bytes \<Rightarrow> bytes) \<Rightarrow> network \<Rightarrow> tls_connector option \<Rightarrow> nat option \<Rightarrow> proxy_config \<Rightarrow> bytes \<Rightarrow> u16 \<Rightarrow> dial_options \<Rightarrow>
   (connect_error + any_upstream) option \<times> bool" where
  "dial_inner encode net tls fires proxy host port opts =
     (if pc_protocol proxy = Https \<and> tls = None then (Some (Err tls_required), False)
      else if fires = Some 0 then (None, False)
      else case tcp_dial net proxy (connect_timeout opts) of
             Err e \<Rightarrow> (Some (Err e), False)
           | Ok c \<Rightarrow>
               if fires = Some 1 then (None, True)
               else (Some (dial_handshake encode tls proxy (target_host host) port (handshake_timeout opts) (from_tcp, c)), True))"

definition dial ::
  "(bytes \<Rightarrow> bytes) \<Rightarrow> network \<Rightarrow> tls_connector option \<Rightarrow> nat option \<Rightarrow> proxy_config \<Rightarrow> bytes \<Rightarrow> u16 \<Rightarrow> dial_options \<Rightarrow>
   (connect_error + any_upstream) option" where
  "dial encode net tls fires proxy host port opts =
     (case total_timeout opts of
        None \<Rightarrow> fst (dial_inner encode net tls None proxy host port opts)
      | Some budget \<Rightarrow>
          (case fst (dial_inner encode net tls fires proxy host port opts) of
             Some r \<Rightarrow> Some r
           | None \<Rightarrow> Some (Err (Timeout TotalStage TotalTimeout (upstream_endpoint proxy) budget))))"

definition dial_plain ::
  "(bytes \<Rightarrow> bytes) \<Rightarrow> network \<Rightarrow> nat option \<Rightarrow> proxy_config \<Rightarrow> bytes \<Rightarrow> u16 \<Rightarrow> dial_options \<Rightarrow> (connect_error + any_upstream) option" where
  "dial_plain encode net fires proxy host port opts = dial encode net None fires proxy host port opts"

definition connect_proxy_once ::
  "(bytes \<Rightarrow> bytes) \<Rightarrow> network \<Rightarrow> tls_connector option \<Rightarrow> bytes \<Rightarrow> proxy_config \<Rightarrow> duration \<Rightarrow> duration \<Rightarrow>
   (connect_error + any_upstream) option" where
  "connect_proxy_once encode net tls target_addr proxy ct hs =
     (case host_port_parse target_addr of
        None \<Rightarrow> Some (Err (InvalidTarget target_addr))
      | Some t \<Rightarrow>
          dial encode net tls None proxy (hp_host t) (hp_port t)
            (with_handshake_timeout hs (with_connect_timeout ct default_dial_options)))"

subsection \<open>Stages\<close>

record chain_error =
  ce_stage :: chain_stage
  ce_error :: connect_error

definition stage_encode :: "chain_stage \<Rightarrow> usize" where
  "stage_encode s = (case s of StageConnect \<Rightarrow> 0 | StageHop n \<Rightarrow> of_nat n + 1 | StageTarget \<Rightarrow> - 1)"

definition stage_decode :: "usize \<Rightarrow> chain_stage" where
  "stage_decode raw = (if raw = 0 then StageConnect else if raw = - 1 then StageTarget else StageHop (unat (raw - 1)))"

definition stage_display :: "chain_stage \<Rightarrow> bytes" where
  "stage_display s =
     (case s of
        StageConnect \<Rightarrow> ascii ''chain connect''
      | StageHop n \<Rightarrow> ascii ''chain hop '' @ radix_str 10 n
      | StageTarget \<Rightarrow> ascii ''chain target'')"

definition chain_error_display :: "chain_error \<Rightarrow> bytes" where
  "chain_error_display x = stage_display (ce_stage x) @ ascii '': '' @ connect_error_display (ce_error x)"

subsection \<open>Chains\<close>

definition check_tls :: "proxy_config list \<Rightarrow> tls_connector option \<Rightarrow> connect_error + unit" where
  "check_tls ns tls =
     (case (List.find (\<lambda>n. pc_protocol n = Https) ns, tls) of
        (Some node, None) \<Rightarrow> Err (Tls (ascii ''HTTPS upstream '' @ pc_host node @ ascii '' requires TLS connector'') None)
      | _ \<Rightarrow> Ok ())"

definition chain_hop ::
  "(bytes \<Rightarrow> bytes) \<Rightarrow> tls_connector option \<Rightarrow> duration \<Rightarrow> proxy_config \<Rightarrow> bytes \<Rightarrow> link \<Rightarrow> connect_error + link" where
  "chain_hop encode tls hs node target l =
     (case pc_protocol node of
        Socks5 \<Rightarrow> in_budget (handshake_over_stream target (socks5_auth node)) (hs_timeout Socks5Handshake node hs) l
      | Http \<Rightarrow> in_budget (http_connect_handshake encode target node) (hs_timeout HttpHandshake node hs) l
      | Https \<Rightarrow> (case tls of None \<Rightarrow> Err tls_required | Some connector \<Rightarrow> https_on_stream encode connector target node hs l))"

text \<open>What node \<open>i\<close> is asked for, and the name of its step.\<close>

definition hop_target :: "proxy_config list \<Rightarrow> bytes \<Rightarrow> nat \<Rightarrow> bytes" where
  "hop_target ns target i =
     (if i + 1 < length ns then host_port_format (pc_host (ns ! (i + 1))) (pc_port (ns ! (i + 1))) else target)"

definition hop_stage :: "proxy_config list \<Rightarrow> nat \<Rightarrow> chain_stage" where
  "hop_stage ns i = (if i + 1 < length ns then StageHop i else StageTarget)"

text \<open>The hops from index \<open>i\<close> on; \<open>prog\<close> is the step stored last.\<close>

function run_chain_hops ::
  "(bytes \<Rightarrow> bytes) \<Rightarrow> tls_connector option \<Rightarrow> duration \<Rightarrow> proxy_config list \<Rightarrow> bytes \<Rightarrow> nat option \<Rightarrow> nat \<Rightarrow> usize \<Rightarrow> link \<Rightarrow>
   (chain_error + link) option \<times> usize" where
  "run_chain_hops encode tls hs ns target fires i prog l =
     (if length ns \<le> i then (Some (Ok l), prog)
      else
        let stage = hop_stage ns i; prog' = stage_encode stage
        in if fires = Some i then (None, prog')
           else case chain_hop encode tls hs (ns ! i) (hop_target ns target i) l of
                  Err e \<Rightarrow> (Some (Err \<lparr>ce_stage = stage, ce_error = e\<rparr>), prog')
                | Ok l' \<Rightarrow> run_chain_hops encode tls hs ns target fires (i + 1) prog' l')"
  by pat_completeness auto
termination
  by (relation "measure (\<lambda>(encode, tls, hs, ns, target, fires, i, prog, l). length ns - i)") auto

declare run_chain_hops.simps [simp del]

definition total_timeout_error :: "proxy_config \<Rightarrow> usize \<Rightarrow> duration \<Rightarrow> chain_error" where
  "total_timeout_error proxy prog budget =
     \<lparr>ce_stage = stage_decode prog, ce_error = Timeout TotalStage TotalTimeout (upstream_endpoint proxy) budget\<rparr>"

definition with_total_timeout ::
  "proxy_config \<Rightarrow> duration option \<Rightarrow> bool \<Rightarrow> nat option \<Rightarrow> (nat option \<Rightarrow> (chain_error + any_upstream) option \<times> usize) \<Rightarrow>
   (chain_error + any_upstream) option" where
  "with_total_timeout proxy budget fail_if_elapsed fires run =
     (case budget of
        None \<Rightarrow> fst (run None)
      | Some t \<Rightarrow>
          if fail_if_elapsed \<and> t = 0 then Some (Err (total_timeout_error proxy (stage_encode StageConnect) t))
          else (case run fires of
                  (Some r, _) \<Rightarrow> Some r
                | (None, prog) \<Rightarrow> Some (Err (total_timeout_error proxy prog t))))"

text \<open>Waits of the hops come after the wait for the socket.\<close>

definition after_connect :: "nat option \<Rightarrow> nat option" where
  "after_connect fires = (case fires of Some (Suc n) \<Rightarrow> Some n | _ \<Rightarrow> None)"

fun is_connect_failure :: "connect_error \<Rightarrow> bool" where
  "is_connect_failure (Timeout ConnectStage _ _ _) = True"
| "is_connect_failure (Io ConnectStage _ _) = True"
| "is_connect_failure _ = False"

definition chain_inner ::
  "(bytes \<Rightarrow> bytes) \<Rightarrow> network \<Rightarrow> tls_connector option \<Rightarrow> proxy_config \<Rightarrow> bytes \<Rightarrow> u16 \<Rightarrow> dial_options \<Rightarrow> nat option \<Rightarrow>
   (chain_error + any_upstream) option \<times> usize" where
  "chain_inner encode net tls proxy host port opts fires =
     (if pc_gate proxy = None then
        (case dial_inner encode net tls fires proxy host port opts of
           (r, up) \<Rightarrow>
             (map_option (map_sum (\<lambda>e. \<lparr>ce_stage = if is_connect_failure e then StageConnect else StageTarget, ce_error = e\<rparr>) id) r,
              stage_encode (if up then StageTarget else StageConnect)))
      else
        case check_tls (nodes proxy) tls of
          Err e \<Rightarrow> (Some (Err \<lparr>ce_stage = StageConnect, ce_error = e\<rparr>), stage_encode StageConnect)
        | Ok _ \<Rightarrow>
            if fires = Some 0 then (None, stage_encode StageConnect)
            else case tcp_dial net (nodes proxy ! 0) (connect_timeout opts) of
                   Err e \<Rightarrow> (Some (Err \<lparr>ce_stage = StageConnect, ce_error = e\<rparr>), stage_encode StageConnect)
                 | Ok c \<Rightarrow>
                     apfst (map_option (map_sum id GateUpstream))
                       (run_chain_hops encode tls (handshake_timeout opts) (nodes proxy) (host_port_format (target_host host) port)
                          (after_connect fires) 0 (stage_encode StageConnect) (from_tcp, c)))"

definition dial_chain ::
  "(bytes \<Rightarrow> bytes) \<Rightarrow> network \<Rightarrow> tls_connector option \<Rightarrow> nat option \<Rightarrow> proxy_config \<Rightarrow> bytes \<Rightarrow> u16 \<Rightarrow> dial_options \<Rightarrow>
   (chain_error + any_upstream) option" where
  "dial_chain encode net tls fires proxy host port opts =
     with_total_timeout proxy (total_timeout opts) False fires (chain_inner encode net tls proxy host port opts)"

definition over_inner ::
  "(bytes \<Rightarrow> bytes) \<Rightarrow> tls_connector option \<Rightarrow> conn \<Rightarrow> proxy_config \<Rightarrow> bytes \<Rightarrow> u16 \<Rightarrow> dial_options \<Rightarrow> nat option \<Rightarrow>
   (chain_error + any_upstream) option \<times> usize" where
  "over_inner encode tls c proxy host port opts fires =
     (case check_tls (nodes proxy) tls of
        Err e \<Rightarrow> (Some (Err \<lparr>ce_stage = StageConnect, ce_error = e\<rparr>), stage_encode StageConnect)
      | Ok _ \<Rightarrow>
          apfst (map_option (map_sum id GateUpstream))
            (run_chain_hops encode tls (handshake_timeout opts) (nodes proxy) (host_port_format (target_host host) port)
               fires 0 (stage_encode StageConnect) (from_tcp, c)))"

definition dial_chain_over ::
  "(bytes \<Rightarrow> bytes) \<Rightarrow> tls_connector option \<Rightarrow> nat option \<Rightarrow> conn \<Rightarrow> proxy_config \<Rightarrow> bytes \<Rightarrow> u16 \<Rightarrow> dial_options \<Rightarrow>
   (chain_error + any_upstream) option" where
  "dial_chain_over encode tls fires c proxy host port opts =
     with_total_timeout proxy (total_timeout opts) True fires (over_inner encode tls c proxy host port opts)"

subsection \<open>With the pool\<close>

definition check_tls_slot :: "proxy_config \<Rightarrow> tls_connector option \<Rightarrow> connect_error + unit" where
  "check_tls_slot proxy tls = (if pc_protocol proxy \<noteq> Https then Ok () else if tls = None then Err tls_required else Ok ())"

text \<open>On failure the connection is dropped, and its slots with it.\<close>

definition connect_proxy_on ::
  "(bytes \<Rightarrow> bytes) \<Rightarrow> tls_connector option \<Rightarrow> bytes \<Rightarrow> proxy_config \<Rightarrow> duration \<Rightarrow> link \<Rightarrow> connect_error + any_upstream" where
  "connect_proxy_on encode tls target proxy hs l =
     (case check_tls_slot proxy tls of
        Err e \<Rightarrow> Err e
      | Ok _ \<Rightarrow>
          (case pc_protocol proxy of
             Socks5 \<Rightarrow> map_sum id PlainUpstream (in_budget (handshake_over_stream target (socks5_auth proxy)) (hs_timeout Socks5Handshake proxy hs) l)
           | Http \<Rightarrow> map_sum id PlainUpstream (in_budget (http_connect_on_tcp encode target proxy) (hs_timeout HttpHandshake proxy hs) l)
           | Https \<Rightarrow> (case tls of None \<Rightarrow> Err tls_required
                        | Some connector \<Rightarrow> map_sum id TlsUpstream (https_on_stream encode connector target proxy hs l))))"

text \<open>\<open>connect_proxy\<close> up to the dial; \<open>connect_proxy_on\<close> follows on the acquired socket.\<close>

definition connect_proxy_start ::
  "instant \<Rightarrow> (pre_warmed \<Rightarrow> bool) \<Rightarrow> tls_connector option \<Rightarrow> proxy_config \<Rightarrow> proxy_pool \<Rightarrow> acquiring \<times> proxy_pool" where
  "connect_proxy_start now is_dead tls proxy s =
     (case check_tls_slot proxy tls of Err e \<Rightarrow> (AcquireFailed e, s) | Ok _ \<Rightarrow> acquire_start now is_dead proxy s)"

text \<open>The slots of the inner nodes, reserved in one go; on failure the connection with those it has.\<close>

fun reserve_inner ::
  "nat \<Rightarrow> proxy_config list \<Rightarrow> upstream_stream \<Rightarrow> proxy_pool \<Rightarrow> (chain_error + upstream_stream) \<times> proxy_pool" where
  "reserve_inner i [] u s = (Ok u, s)"
| "reserve_inner i (n # ns) u s =
     (case reserve_permit n s of
        (Err e, s1) \<Rightarrow> (Err \<lparr>ce_stage = StageHop (i - 1), ce_error = e\<rparr>, drop_stream u s1)
      | (Ok p, s1) \<Rightarrow> reserve_inner (i + 1) ns (attach_permit p u) s1)"

text \<open>
  \<open>connect_chain\<close> has three parts: up to the dial of the outermost socket, from there to the last slot, and
  the handshakes. The pool may change between them. The hops are not cut off here, so the last branch of the
  third part is not taken.
\<close>

definition connect_chain_start ::
  "instant \<Rightarrow> (pre_warmed \<Rightarrow> bool) \<Rightarrow> tls_connector option \<Rightarrow> proxy_config \<Rightarrow> bytes \<Rightarrow> proxy_pool \<Rightarrow>
   (chain_error + acquiring) \<times> proxy_pool" where
  "connect_chain_start now is_dead tls chain target_addr s =
     (case host_port_parse target_addr of
        None \<Rightarrow> (Err \<lparr>ce_stage = StageTarget, ce_error = InvalidTarget target_addr\<rparr>, s)
      | Some _ \<Rightarrow>
          (case check_tls (nodes chain) tls of
             Err e \<Rightarrow> (Err \<lparr>ce_stage = StageConnect, ce_error = e\<rparr>, s)
           | Ok _ \<Rightarrow>
               (case acquire_start now is_dead (nodes chain ! 0) s of
                  (AcquireFailed e, s1) \<Rightarrow> (Err \<lparr>ce_stage = StageConnect, ce_error = e\<rparr>, s1)
                | (a, s1) \<Rightarrow> (Ok a, s1))))"

definition connect_chain_reserve ::
  "connect_error option \<Rightarrow> acquiring \<Rightarrow> proxy_config \<Rightarrow> proxy_pool \<Rightarrow> (chain_error + upstream_stream) \<times> proxy_pool" where
  "connect_chain_reserve failure a chain s =
     (case (case a of
              Acquired u \<Rightarrow> (Ok u, s)
            | AcquireFailed e \<Rightarrow> (Err e, s)
            | Dialing p \<Rightarrow> acquire_finish failure p s) of
        (Err e, s1) \<Rightarrow> (Err \<lparr>ce_stage = StageConnect, ce_error = e\<rparr>, s1)
      | (Ok u, s1) \<Rightarrow> if length (nodes chain) = 1 then (Ok u, s1) else reserve_inner 1 (tl (nodes chain)) u s1)"

definition connect_chain_finish ::
  "(bytes \<Rightarrow> bytes) \<Rightarrow> tls_connector option \<Rightarrow> proxy_config \<Rightarrow> bytes \<Rightarrow> duration \<Rightarrow> link \<Rightarrow> proxy_pool \<Rightarrow>
   (chain_error + any_upstream) \<times> proxy_pool" where
  "connect_chain_finish encode tls chain target_addr hs l s =
     (if length (nodes chain) = 1
      then (case connect_proxy_on encode tls target_addr (nodes chain ! 0) hs l of
              Err e \<Rightarrow> (Err \<lparr>ce_stage = StageTarget, ce_error = e\<rparr>, drop_stream (fst l) s)
            | Ok a \<Rightarrow> (Ok a, s))
      else case host_port_parse target_addr of
             None \<Rightarrow> (Err \<lparr>ce_stage = StageTarget, ce_error = InvalidTarget target_addr\<rparr>, drop_stream (fst l) s)
           | Some t \<Rightarrow>
               (case fst (run_chain_hops encode tls hs (nodes chain) (host_port_format (hp_host t) (hp_port t)) None 0
                            (stage_encode StageConnect) l) of
                  Some (Ok l') \<Rightarrow> (Ok (GateUpstream l'), s)
                | Some (Err x) \<Rightarrow> (Err x, drop_stream (fst l) s)
                | None \<Rightarrow> (Err \<lparr>ce_stage = StageTarget, ce_error = InvalidTarget target_addr\<rparr>, drop_stream (fst l) s)))"

end
