(* ===== verification/Recovery.thy ===== *)
theory Recovery
  imports RecoverHost Tunnel Dial
begin

text \<open>
  The first bytes of a tunnel in the server binary. \<open>server/tunnel/recovery.rs\<close> reads them to learn the name
  behind an address, as a program over the client's stream; who comes first where the code races the client
  against a timer, the dial or the upstream's greeting is a question to the environment, and the results of
  the dial and of the read of the greeting are arguments. \<open>server/tunnel/forward_tunnel.rs\<close> holds back the first
  bytes until a ClientHello is complete and then hands over to the tunnel.
\<close>

subsection \<open>Reading a prefix\<close>

definition PEEK_MAX :: nat where
  "PEEK_MAX = 16 * 1024"

datatype recovery_peek = PeekClient bytes | ClientClosed | ServerFirst any_upstream bytes

definition prefix_decided :: "bytes \<Rightarrow> bool" where
  "prefix_decided buf \<longleftrightarrow>
     parse_sni buf \<noteq> None \<or> parse_http_host buf \<noteq> None \<or>
     (\<not> sni_might_still_appear buf \<and> \<not> http_host_might_still_appear buf) \<or> PEEK_MAX \<le> length buf"

definition some_bytes :: "bytes \<Rightarrow> bytes option" where
  "some_bytes buf = (if buf = [] then None else Some buf)"

function read_recovery_prefix :: "bytes \<Rightarrow> ('q, io_error + bytes option) prog" where
  "read_recovery_prefix buf =
     (if prefix_decided buf then Ret (Ok (some_bytes buf))
      else Read (min (PEEK_MAX - length buf) 4096) (\<lambda>r.
        case r of
          Err e \<Rightarrow> Ret (Err e)
        | Ok bs \<Rightarrow> if bs = [] then Ret (Ok (some_bytes buf)) else read_recovery_prefix (buf @ bs)))"
  by pat_completeness auto
termination
  by (relation "measure (\<lambda>buf. PEEK_MAX - length buf)") (auto simp: prefix_decided_def not_le neq_Nil_conv)

declare read_recovery_prefix.simps [simp del]

definition peek_prefix :: "bytes \<Rightarrow> ('q, io_error + recovery_peek) prog" where
  "peek_prefix buf =
     bind_ok (read_recovery_prefix buf) (\<lambda>p. Ret (Ok (case p of None \<Rightarrow> ClientClosed | Some b \<Rightarrow> PeekClient b)))"

definition client_prefix :: "bytes \<Rightarrow> ('q, io_error + recovery_peek) prog" where
  "client_prefix seed = (if seed = [] then Ret (Ok ClientClosed) else peek_prefix seed)"

definition client_read :: "('q, io_error + recovery_peek) prog" where
  "client_read = Read 4096 (\<lambda>r. case r of Err e \<Rightarrow> Ret (Err e) | Ok bs \<Rightarrow> client_prefix bs)"

datatype race_query = ClientInGrace | ClientBeforeDial | ClientBeforeGreeting

definition peek_recovery :: "bytes \<Rightarrow> 'e + any_upstream \<Rightarrow> io_error + bytes \<Rightarrow> (race_query, io_error + recovery_peek) prog" where
  "peek_recovery pipelined dialled greeting =
     (if pipelined \<noteq> [] then peek_prefix pipelined
      else Ask ClientInGrace (\<lambda>b. if b then client_read
      else Ask ClientBeforeDial (\<lambda>b. if b then client_read
      else case dialled of
             Err _ \<Rightarrow> peek_prefix []
           | Ok u \<Rightarrow>
               Ask ClientBeforeGreeting (\<lambda>b. if b then client_read
               else case greeting of
                      Ok bs \<Rightarrow> if bs \<noteq> [] then Ret (Ok (ServerFirst u bs)) else peek_prefix []
                    | Err _ \<Rightarrow> peek_prefix []))))"

definition effective_target :: "bytes \<Rightarrow> bytes \<Rightarrow> bytes \<Rightarrow> bytes" where
  "effective_target target port buf =
     (case (case parse_sni buf of Some h \<Rightarrow> Some h | None \<Rightarrow> parse_http_host buf) of
        Some host \<Rightarrow> host @ [COLON] @ port
      | None \<Rightarrow> target)"

subsection \<open>Holding back the first bytes\<close>

definition FIRST_MAX :: nat where
  "FIRST_MAX = 16 * 1024"

text \<open>What ends a step of the loop: a read of the client, a read of the upstream together with the result of
  relaying it, or the idle timer.\<close>

datatype prepare_event = FromClient "io_error + bytes" | FromUpstream "io_error + bytes" "io_error + unit" | IdleFired

definition unfinished_hello :: "fragment_spec \<Rightarrow> bytes \<Rightarrow> bool" where
  "unfinished_hello frag buf \<longleftrightarrow>
     fs_enabled frag \<and>
     (case classify_client_hello buf of
        Indeterminate \<Rightarrow> True
      | ClientHello \<Rightarrow> \<not> client_hello_is_complete buf
      | Other \<Rightarrow> False)"

definition first_decided :: "bytes \<Rightarrow> bool \<Rightarrow> bool" where
  "first_decided buf exhausted \<longleftrightarrow>
     (case classify_client_hello buf of
        Other \<Rightarrow> True
      | Indeterminate \<Rightarrow> exhausted
      | ClientHello \<Rightarrow> exhausted \<or> client_hello_is_complete buf)"

record preparing =
  pr_first :: bytes
  pr_relayed :: bytes
  pr_sender :: sender

definition send_first :: "fragment_spec \<Rightarrow> duration \<Rightarrow> preparing \<Rightarrow> (io_error + bool) option \<times> preparing" where
  "send_first frag idle y =
     (let (r, s) = send_possibly_fragmented (pr_first y) frag idle (pr_sender y)
      in (case r of
            None \<Rightarrow> None
          | Some (Err e) \<Rightarrow> Some (Err e)
          | Some (Ok Completed) \<Rightarrow> Some (Ok True)
          | Some (Ok Stalled) \<Rightarrow> Some (Ok False),
          y\<lparr>pr_sender := s\<rparr>))"

text \<open>The end of the loop: nothing is sent when nothing came.\<close>

definition flush_first :: "fragment_spec \<Rightarrow> duration \<Rightarrow> preparing \<Rightarrow> (io_error + bool) option \<times> preparing" where
  "flush_first frag idle y = (if pr_first y = [] then (Some (Ok True), y) else send_first frag idle y)"

fun prepare_loop :: "fragment_spec \<Rightarrow> duration \<Rightarrow> prepare_event list \<Rightarrow> preparing \<Rightarrow> (io_error + bool) option \<times> preparing" where
  "prepare_loop frag idle [] y = (None, y)"
| "prepare_loop frag idle (ev # evs) y =
     (case ev of
        FromClient (Err e) \<Rightarrow> (Some (Err e), y)
      | FromClient (Ok bs) \<Rightarrow>
          (let n = take (FIRST_MAX - length (pr_first y)) bs; y' = y\<lparr>pr_first := pr_first y @ n\<rparr>
           in if first_decided (pr_first y') (n = [] \<or> length (pr_first y') = FIRST_MAX) then flush_first frag idle y'
              else prepare_loop frag idle evs y')
      | FromUpstream (Err e) _ \<Rightarrow> (Some (Err e), y)
      | FromUpstream (Ok bs) w \<Rightarrow>
          if bs = [] then flush_first frag idle y
          else (case w of
                  Err e \<Rightarrow> (Some (Err e), y)
                | Ok _ \<Rightarrow> prepare_loop frag idle evs (y\<lparr>pr_relayed := pr_relayed y @ bs\<rparr>))
      | IdleFired \<Rightarrow> if idle = 0 then prepare_loop frag idle evs y else (Some (Ok False), y))"

text \<open>No result is a wait that has not ended when the events end; a prefix longer than the buffer would panic.\<close>

definition prepare_payload ::
  "fragment_spec \<Rightarrow> duration \<Rightarrow> bytes \<Rightarrow> prepare_event list \<Rightarrow> window list \<Rightarrow> (io_error + bool) option \<times> preparing" where
  "prepare_payload frag idle buf evs ws =
     (let y = \<lparr>pr_first = buf, pr_relayed = [], pr_sender = (ws, [])\<rparr>
      in if buf \<noteq> [] \<and> \<not> unfinished_hello frag buf then send_first frag idle y
         else if \<not> fs_enabled frag then (Some (Ok True), y)
         else if FIRST_MAX < length buf then (None, y)
         else prepare_loop frag idle evs y)"

datatype tunnel_close = StalledFirst | ClosedTunnel | IdleClose | MaxLifetime

text \<open>The tunnel itself runs without a lifetime of its own; \<open>expired\<close> says that the lifetime of the whole ends first.\<close>

definition forward_tunnel ::
  "fragment_spec \<Rightarrow> duration \<Rightarrow> duration \<Rightarrow> bool \<Rightarrow> bytes \<Rightarrow> prepare_event list \<Rightarrow> window list \<Rightarrow> instant \<Rightarrow> instant \<Rightarrow>
   (instant \<times> transfer) list \<Rightarrow> (io_error + tunnel_close) option" where
  "forward_tunnel frag idle lifetime expired buf evs ws epoch start polls =
     (if lifetime \<noteq> 0 \<and> expired then Some (Ok MaxLifetime)
      else case fst (prepare_payload frag idle buf evs ws) of
             None \<Rightarrow> None
           | Some (Err e) \<Rightarrow> Some (Err e)
           | Some (Ok False) \<Rightarrow> Some (Ok StalledFirst)
           | Some (Ok True) \<Rightarrow>
               (case fst (tunnel_with_timeouts idle 0 polls (tunnel_start epoch start idle 0)) of
                  None \<Rightarrow> None
                | Some (Err e) \<Rightarrow> Some (Err e)
                | Some (Ok out) \<Rightarrow>
                    Some (Ok (case to_end out of TunnelEof \<Rightarrow> ClosedTunnel | IdleTimeout \<Rightarrow> IdleClose | LifetimeTimeout \<Rightarrow> MaxLifetime))))"

end
