(* ===== verification/Inbound.thy ===== *)
theory Inbound
  imports Wire HostPort
begin

text \<open>
  The value types of the inbound server API: credentials (\<open>server/credentials.rs\<close>), replies and their
  wire encodings (\<open>server/reply.rs\<close>), the prefixed stream (\<open>server/prefixed.rs\<close>), and the request, option
  and error types of \<open>server/mod.rs\<close>. Without the feature \<open>zeroize\<close>, dropping a secret does nothing.
\<close>

subsection \<open>Credentials\<close>

record credentials =
  cr_username :: bytes
  cr_password :: bytes
  cr_username_raw :: "bytes option"
  cr_password_raw :: "bytes option"

definition credentials_new :: "bytes \<Rightarrow> bytes \<Rightarrow> credentials" where
  "credentials_new u p = \<lparr>cr_username = u, cr_password = p, cr_username_raw = None, cr_password_raw = None\<rparr>"

definition credentials_with_raw :: "bytes \<Rightarrow> bytes \<Rightarrow> bytes option \<Rightarrow> bytes option \<Rightarrow> credentials" where
  "credentials_with_raw u p ur pr =
     \<lparr>cr_username = u, cr_password = p, cr_username_raw = ur, cr_password_raw = pr\<rparr>"

definition credentials_duplicate :: "credentials \<Rightarrow> credentials" where
  "credentials_duplicate c = credentials_with_raw (cr_username c) (cr_password c) (cr_username_raw c) (cr_password_raw c)"

definition cr_username_bytes :: "credentials \<Rightarrow> bytes" where
  "cr_username_bytes c = (case cr_username_raw c of Some b \<Rightarrow> b | None \<Rightarrow> cr_username c)"

definition cr_password_bytes :: "credentials \<Rightarrow> bytes" where
  "cr_password_bytes c = (case cr_password_raw c of Some b \<Rightarrow> b | None \<Rightarrow> cr_password c)"

definition cr_is_utf8 :: "credentials \<Rightarrow> bool" where
  "cr_is_utf8 c \<longleftrightarrow> cr_username_raw c = None \<and> cr_password_raw c = None"

definition cr_into_parts :: "credentials \<Rightarrow> bytes \<times> bytes" where
  "cr_into_parts c = (cr_username c, cr_password c)"

subsection \<open>Options, requests and errors\<close>

text \<open>The deadline is not a field: whether it has passed is a question to the host.\<close>

record server_options =
  so_anonymous :: bool
  so_password :: bool
  so_retain_credentials :: bool
  so_raw_credentials :: bool
  so_strict_http :: bool

definition server_options_new :: "bool \<Rightarrow> bool \<Rightarrow> server_options" where
  "server_options_new anon pw =
     \<lparr>so_anonymous = anon, so_password = pw, so_retain_credentials = False, so_raw_credentials = False,
      so_strict_http = False\<rparr>"

datatype srv_protocol = SrvSocks5 | SrvHttp

record incoming_request =
  rq_protocol :: srv_protocol
  rq_target :: bytes
  rq_username :: "bytes option"
  rq_username_raw :: "bytes option"
  rq_credentials :: "credentials option"
  rq_pipeline :: bytes

text \<open>An error text; the \<open>Debug\<close> rendering of a string and the text of a \<open>Utf8Error\<close> are kept symbolic.\<close>

datatype server_text = Text bytes | TextDebug bytes bytes | TextUtf8 bytes

datatype server_error =
    SrvIo io_error
  | SrvProtocol server_text
  | SrvAuthentication server_text
  | HeaderTooLarge
  | Deadline
  | Closed

definition take_pipeline :: "incoming_request \<Rightarrow> bytes \<times> incoming_request" where
  "take_pipeline r = (rq_pipeline r, r\<lparr>rq_pipeline := []\<rparr>)"

definition take_credentials :: "incoming_request \<Rightarrow> credentials option \<times> incoming_request" where
  "take_credentials r = (rq_credentials r, r\<lparr>rq_credentials := None\<rparr>)"

definition take_username :: "incoming_request \<Rightarrow> bytes option \<times> incoming_request" where
  "take_username r = (rq_username r, r\<lparr>rq_username := None, rq_username_raw := None\<rparr>)"

definition rq_username_bytes :: "incoming_request \<Rightarrow> bytes option" where
  "rq_username_bytes r =
     map_option (\<lambda>u. case rq_username_raw r of Some b \<Rightarrow> b | None \<Rightarrow> u) (rq_username r)"

text \<open>The host's questions: the verdict on credentials, and whether any of the budget is left.\<close>

datatype server_query = Verify credentials | BudgetLeft

subsection \<open>Replies\<close>

datatype reply =
    Established | Forbidden | UpstreamUnavailable | RefusedReply | NetworkUnreachable | TimedOutReply
  | GeneralFailure | Overloaded

definition crlf_lines :: "string list \<Rightarrow> bytes" where
  "crlf_lines ls = concat (map (\<lambda>l. ascii l @ CRLF) ls) @ CRLF"

definition RESP_407 :: bytes where
  "RESP_407 = crlf_lines [''HTTP/1.1 407 Proxy Authentication Required'',
     ''Proxy-Authenticate: Basic realm=\"resocks5\", charset=\"UTF-8\"'', ''Connection: close'', ''Content-Length: 0'']"

definition error_head :: "string \<Rightarrow> bytes" where
  "error_head status = crlf_lines [''HTTP/1.1 '' @ status, ''Connection: close'', ''Content-Length: 0'']"

text \<open>\<open>None\<close> is the panic on a status the module does not use.\<close>

definition http_error_opt :: "nat \<Rightarrow> bytes option" where
  "http_error_opt status =
     (if status = 400 then Some (error_head ''400 Bad Request'')
      else if status = 403 then Some (error_head ''403 Forbidden'')
      else if status = 407 then Some RESP_407
      else if status = 431 then Some (error_head ''431 Request Header Fields Too Large'')
      else if status = 501 then Some (error_head ''501 Not Implemented'')
      else if status = 502 then Some (error_head ''502 Bad Gateway'')
      else if status = 503 then Some (error_head ''503 Service Unavailable'')
      else if status = 504 then Some (error_head ''504 Gateway Timeout'')
      else if status = 505 then Some (error_head ''505 HTTP Version Not Supported'')
      else None)"

definition http_error :: "nat \<Rightarrow> bytes" where
  "http_error status = (case http_error_opt status of Some b \<Rightarrow> b | None \<Rightarrow> [])"

definition socks_reply :: "byte \<Rightarrow> bytes" where
  "socks_reply rep = [5, rep, 0, 1, 0, 0, 0, 0, 0, 0]"

fun reply_bytes :: "srv_protocol \<Rightarrow> reply \<Rightarrow> bytes" where
  "reply_bytes SrvSocks5 Established = socks_reply 0"
| "reply_bytes SrvSocks5 Forbidden = socks_reply 2"
| "reply_bytes SrvSocks5 UpstreamUnavailable = socks_reply 4"
| "reply_bytes SrvSocks5 RefusedReply = socks_reply 5"
| "reply_bytes SrvSocks5 NetworkUnreachable = socks_reply 3"
| "reply_bytes SrvSocks5 TimedOutReply = socks_reply 6"
| "reply_bytes SrvSocks5 GeneralFailure = socks_reply 1"
| "reply_bytes SrvSocks5 Overloaded = socks_reply 1"
| "reply_bytes SrvHttp Established = crlf_lines [''HTTP/1.1 200 Connection Established'']"
| "reply_bytes SrvHttp Forbidden = http_error 403"
| "reply_bytes SrvHttp UpstreamUnavailable = http_error 502"
| "reply_bytes SrvHttp RefusedReply = http_error 502"
| "reply_bytes SrvHttp NetworkUnreachable = http_error 502"
| "reply_bytes SrvHttp TimedOutReply = http_error 504"
| "reply_bytes SrvHttp GeneralFailure = http_error 502"
| "reply_bytes SrvHttp Overloaded = http_error 503"

definition send_reply :: "incoming_request \<Rightarrow> reply \<Rightarrow> ('q, server_error + unit) prog" where
  "send_reply r rep = write_flush SrvIo (reply_bytes (rq_protocol r) rep) (Ret (Ok ()))"

subsection \<open>The prefixed stream\<close>

text \<open>\<open>inner\<close> is the wrapped stream; \<open>poll\<close> its \<open>poll_read\<close> with room for \<open>n\<close> bytes.\<close>

record 's prefixed =
  pf_prefix :: bytes
  pf_pos :: nat
  pf_inner :: 's

definition prefixed_new :: "bytes \<Rightarrow> 's \<Rightarrow> 's prefixed" where
  "prefixed_new p s = \<lparr>pf_prefix = p, pf_pos = 0, pf_inner = s\<rparr>"

definition prefix_remaining :: "'s prefixed \<Rightarrow> bytes" where
  "prefix_remaining p = drop (pf_pos p) (pf_prefix p)"

definition prefixed_into_parts :: "'s prefixed \<Rightarrow> bytes \<times> 's" where
  "prefixed_into_parts p = (drop (pf_pos p) (pf_prefix p), pf_inner p)"

definition prefixed_poll_read ::
  "(nat \<Rightarrow> 's \<Rightarrow> (io_error + bytes) option \<times> 's) \<Rightarrow> nat \<Rightarrow> 's prefixed \<Rightarrow> (io_error + bytes) option \<times> 's prefixed" where
  "prefixed_poll_read poll room p =
     (let remaining = drop (pf_pos p) (pf_prefix p)
      in if remaining \<noteq> [] then
           if room = 0 then (Some (Ok []), p)
           else let n = min (length remaining) room in (Some (Ok (take n remaining)), p\<lparr>pf_pos := pf_pos p + n\<rparr>)
         else let (r, s) = poll room (pf_inner p) in (r, p\<lparr>pf_inner := s\<rparr>))"

definition into_prefixed :: "incoming_request \<Rightarrow> 's \<Rightarrow> 's prefixed" where
  "into_prefixed r s = prefixed_new (fst (take_pipeline r)) s"

end
