(* ===== verification/StrictHttp.thy ===== *)
theory StrictHttp
  imports Inbound
begin

text \<open>The opt-in RFC 9112 validation of a CONNECT request, \<open>server/strict_http.rs\<close>.\<close>

datatype strict_violation = Bad string | Unsupported

definition is_tchar :: "byte \<Rightarrow> bool" where
  "is_tchar b \<longleftrightarrow> is_ascii_alphanumeric b \<or> b \<in> set (ascii ''!#$%&'' @ [39] @ ascii ''*+-.^_'' @ [96] @ ascii ''|~'')"

definition is_authority_host_byte :: "byte \<Rightarrow> bool" where
  "is_authority_host_byte b \<longleftrightarrow> is_ascii_alphanumeric b \<or> b \<in> set (ascii ''-._~!$&'' @ [39] @ ascii ''()*+,;='')"

function valid_authority_host :: "bytes \<Rightarrow> bool" where
  "valid_authority_host [] = True"
| "valid_authority_host (b # bs) \<longleftrightarrow>
     (if b = 37
      then (case get_range bs 0 2 of None \<Rightarrow> False | Some hex \<Rightarrow> list_all is_ascii_hexdigit hex \<and> valid_authority_host (drop 2 bs))
      else is_authority_host_byte b \<and> valid_authority_host bs)"
  by pat_completeness auto
termination by (relation "measure length") auto

definition valid_port_digits :: "bytes \<Rightarrow> bool" where
  "valid_port_digits p \<longleftrightarrow> p \<noteq> [] \<and> length p \<le> 5 \<and> list_all is_ascii_digit p"

definition valid_host_value :: "bytes \<Rightarrow> bool" where
  "valid_host_value v =
     (case strip_prefix [LBRACKET] v of
        Some rest \<Rightarrow>
          (case split_once RBRACKET rest of
             None \<Rightarrow> False
           | Some (inside, after) \<Rightarrow>
               if parse_ipv6 inside = None then False
               else (case strip_prefix [COLON] after of Some port \<Rightarrow> valid_port_digits port | None \<Rightarrow> after = []))
      | None \<Rightarrow>
          (case split_once COLON v of
             Some (host, port) \<Rightarrow> host \<noteq> [] \<and> valid_authority_host host \<and> valid_port_digits port
           | None \<Rightarrow> v \<noteq> [] \<and> valid_authority_host v))"

definition strict_request_line :: "bytes \<Rightarrow> strict_violation + (bytes \<times> bytes)" where
  "strict_request_line line =
     (let parts = split_all SPACE line
      in if length parts \<noteq> 3 \<or> list_ex (\<lambda>p. p = [] \<or> list_ex (\<lambda>b. b = 9 \<or> byte_is_control b) p) parts
         then Err (Bad ''strict HTTP: malformed request line'')
         else let v = parts ! 2
              in if length v \<noteq> 8 \<or> \<not> starts_with v (ascii ''HTTP/'') \<or> \<not> is_ascii_digit (v ! 5) \<or> v ! 6 \<noteq> DOT \<or>
                    \<not> is_ascii_digit (v ! 7)
                 then Err (Bad ''strict HTTP: malformed HTTP-version'')
                 else if v \<noteq> ascii ''HTTP/1.0'' \<and> v \<noteq> ascii ''HTTP/1.1'' then Err Unsupported
                 else Ok (parts ! 1, v))"

definition strict_authority_port :: "bytes \<Rightarrow> strict_violation + bytes" where
  "strict_authority_port target =
     (case strip_prefix [LBRACKET] target of
        Some rest \<Rightarrow>
          (case split_once RBRACKET rest of
             None \<Rightarrow> Err (Bad ''strict HTTP: bare IPv6 authority'')
           | Some (inside, after) \<Rightarrow>
               if parse_ipv6 inside = None then Err (Bad ''strict HTTP: bracketed authority is not an IPv6 address'')
               else (case strip_prefix [COLON] after of
                       None \<Rightarrow> Err (Bad ''strict HTTP: authority is missing a port'')
                     | Some port \<Rightarrow> Ok port))
      | None \<Rightarrow>
          (case rsplit_once COLON target of
             None \<Rightarrow> Err (Bad ''strict HTTP: authority is missing a port'')
           | Some (h, port) \<Rightarrow>
               if h = [] then Err (Bad ''strict HTTP: authority host is empty'')
               else if COLON \<in> set h then Err (Bad ''strict HTTP: bare IPv6 authority'')
               else if \<not> valid_authority_host h then Err (Bad ''strict HTTP: invalid authority host'')
               else Ok port))"

definition strict_port :: "bytes \<Rightarrow> strict_violation + unit" where
  "strict_port p =
     (if p = [] \<or> 5 < length p \<or> \<not> list_all is_ascii_digit p then Err (Bad ''strict HTTP: invalid authority port'')
      else case parse_uint (2 ^ 32 - 1) p of
             None \<Rightarrow> Err (Bad ''strict HTTP: invalid authority port'')
           | Some n \<Rightarrow> if 1 \<le> n \<and> n \<le> 65535 then Ok () else Err (Bad ''strict HTTP: invalid authority port''))"

record strict_counts =
  host_count :: nat
  host_value_empty :: bool
  host_value :: "bytes option"
  proxy_auth_count :: nat

fun strict_headers :: "bytes list \<Rightarrow> strict_counts \<Rightarrow> strict_violation + strict_counts" where
  "strict_headers [] s = Ok s"
| "strict_headers (line # ls) s =
     (if take 1 line = [SPACE] \<or> take 1 line = [9] then Err (Bad ''strict HTTP: obsolete line folding'')
      else case position ((=) COLON) line of
             None \<Rightarrow> Err (Bad ''strict HTTP: header line is missing a colon'')
           | Some colon \<Rightarrow>
               (let name = take colon line; value = drop (colon + 1) line
                in if name = [] then Err (Bad ''strict HTTP: empty header field name'')
                   else if last name = SPACE \<or> last name = 9 then Err (Bad ''strict HTTP: whitespace before header colon'')
                   else if \<not> list_all is_tchar name then Err (Bad ''strict HTTP: invalid header field name'')
                   else if list_ex (\<lambda>b. b < 32 \<and> b \<noteq> 9 \<or> b = 127) value
                   then Err (Bad ''strict HTTP: invalid header field value'')
                   else let lower = map to_ascii_lowercase name
                        in strict_headers ls
                             (if lower = ascii ''host''
                              then s\<lparr>host_count := host_count s + 1, host_value_empty := trim_ascii value = [],
                                     host_value := Some (trim_ascii value)\<rparr>
                              else if lower = ascii ''proxy-authorization''
                              then s\<lparr>proxy_auth_count := proxy_auth_count s + 1\<rparr>
                              else s)))"

definition strict_validate :: "bytes \<Rightarrow> bytes list \<Rightarrow> strict_violation + unit" where
  "strict_validate line headers =
     (case strict_request_line line of
        Err v \<Rightarrow> Err v
      | Ok (target, version) \<Rightarrow>
     (case strict_authority_port target of
        Err v \<Rightarrow> Err v
      | Ok port \<Rightarrow>
     (case strict_port port of
        Err v \<Rightarrow> Err v
      | Ok _ \<Rightarrow>
     (case strict_headers headers \<lparr>host_count = 0, host_value_empty = False, host_value = None, proxy_auth_count = 0\<rparr> of
        Err v \<Rightarrow> Err v
      | Ok s \<Rightarrow>
          if version = ascii ''HTTP/1.1'' \<and> host_count s = 0 then Err (Bad ''strict HTTP: missing Host header'')
          else if 1 < host_count s then Err (Bad ''strict HTTP: duplicate Host header'')
          else if host_value_empty s then Err (Bad ''strict HTTP: empty Host header'')
          else if (case host_value s of Some h \<Rightarrow> \<not> (utf8_valid h \<and> valid_host_value h) | None \<Rightarrow> False)
          then Err (Bad ''strict HTTP: invalid Host header'')
          else if 1 < proxy_auth_count s then Err (Bad ''strict HTTP: duplicate Proxy-Authorization header'')
          else Ok ()))))"

end
