(* ===== verification/Server.thy ===== *)
theory Server
  imports StrictHttp
begin

text \<open>
  Inbound framing, \<open>server/mod.rs\<close>: protocol detection, the SOCKS5 negotiation and request, the HTTP
  CONNECT head. The base64 decoder of the \<open>base64\<close> crate is the argument \<open>decode\<close>.
\<close>

definition MAX_HEADER_BYTES :: nat where
  "MAX_HEADER_BYTES = 16 * 1024"

definition AUTH_FAILURE :: bytes where
  "AUTH_FAILURE = [1, 1]"

definition auth_text :: "string \<Rightarrow> server_error" where
  "auth_text s = SrvAuthentication (Text (ascii s))"

definition auth_fail :: "string \<Rightarrow> ('q, server_error + 'a) prog" where
  "auth_fail msg = write_flush SrvIo AUTH_FAILURE (Ret (Err (auth_text msg)))"

definition http_fail :: "nat \<Rightarrow> server_error \<Rightarrow> ('q, server_error + 'a) prog" where
  "http_fail status e = write_flush SrvIo (http_error status) (Ret (Err e))"

subsection \<open>SOCKS5\<close>

definition bool_text :: "bool \<Rightarrow> bytes" where
  "bool_text b = (if b then ascii ''true'' else ascii ''false'')"

definition no_method_text :: "server_options \<Rightarrow> nat \<Rightarrow> bytes" where
  "no_method_text opts n =
     ascii ''No mutually supported SOCKS5 auth method (server: anonymous='' @ bool_text (so_anonymous opts) @
     ascii '', user/pass='' @ bool_text (so_password opts) @ ascii ''; client offered '' @ radix_str 10 n @
     ascii '' method(s))''"

text \<open>The text of a credential field and its raw bytes when they differ; \<open>None\<close> is a rejected field.\<close>

definition decode_field :: "bool \<Rightarrow> bytes \<Rightarrow> (bytes \<times> bytes option) option" where
  "decode_field raw bs =
     (if utf8_valid bs then Some (bs, None) else if raw then Some (utf8_lossy bs, Some bs) else None)"

definition invalid_domain :: "bytes \<Rightarrow> bytes \<Rightarrow> bool" where
  "invalid_domain domain target \<longleftrightarrow>
     domain = [] \<or> list_ex (\<lambda>b. byte_is_control b \<or> is_ascii_whitespace b) domain \<or> host_port_parse target = None"

fun pair_bytes :: "bytes \<Rightarrow> u16 list" where
  "pair_bytes (a # b # bs) = be16 a b # pair_bytes bs"
| "pair_bytes _ = []"

definition socks_target :: "byte \<Rightarrow> (bytes \<Rightarrow> ('q, server_error + 'a) prog) \<Rightarrow> ('q, server_error + 'a) prog" where
  "socks_target atyp k =
     (if atyp = 1 then
        read_exact SrvIo 4 (\<lambda>ip. read_u16 SrvIo (\<lambda>port. k (fmt_ipv4 ip @ [COLON] @ fmt_u16 port)))
      else if atyp = 4 then
        read_exact SrvIo 16 (\<lambda>ip. read_u16 SrvIo (\<lambda>port.
          k ([LBRACKET] @ fmt_ipv6 (pair_bytes ip) @ [RBRACKET, COLON] @ fmt_u16 port)))
      else if atyp = 3 then
        read_u8 SrvIo (\<lambda>len. read_exact SrvIo (unat len) (\<lambda>domain. read_u16 SrvIo (\<lambda>port.
          if \<not> utf8_valid domain then Ret (Err (SrvProtocol (TextUtf8 domain)))
          else let target = domain @ [COLON] @ fmt_u16 port
               in if invalid_domain domain target
                  then write_flush SrvIo (socks_reply 4)
                         (Ret (Err (SrvProtocol (TextDebug (ascii ''Invalid DOMAINNAME in CONNECT request: '') domain))))
                  else k target)))
      else write_flush SrvIo (socks_reply 8)
             (Ret (Err (SrvProtocol (Text (ascii ''Unknown ATYP: '' @ hex2 (unat atyp)))))))"

definition socks_request ::
  "bytes option \<Rightarrow> bytes option \<Rightarrow> credentials option \<Rightarrow> (server_query, server_error + incoming_request) prog" where
  "socks_request username username_raw retained =
     read_exact SrvIo 4 (\<lambda>header.
       if header ! 0 \<noteq> 5 then Ret (Err (SrvProtocol (Text (ascii ''Invalid version in CONNECT request''))))
       else if header ! 1 \<noteq> 1
       then write_flush SrvIo (socks_reply 7)
              (Ret (Err (SrvProtocol (Text (ascii ''Only CONNECT commands are supported'')))))
       else socks_target (header ! 3) (\<lambda>target.
              Ret (Ok \<lparr>rq_protocol = SrvSocks5, rq_target = target, rq_username = username,
                       rq_username_raw = username_raw, rq_credentials = retained, rq_pipeline = []\<rparr>)))"

definition socks_verify ::
  "server_options \<Rightarrow> bytes \<Rightarrow> bytes \<Rightarrow> (server_query, server_error + incoming_request) prog" where
  "socks_verify opts user password =
     (case decode_field (so_raw_credentials opts) user of
        None \<Rightarrow> auth_fail ''Invalid UTF-8 in username''
      | Some (username, username_raw) \<Rightarrow>
     (case decode_field (so_raw_credentials opts) password of
        None \<Rightarrow> auth_fail ''Invalid UTF-8 in password''
      | Some (pass, password_raw) \<Rightarrow>
          (let creds = credentials_with_raw username pass username_raw password_raw;
               retained = (if so_retain_credentials opts then Some (credentials_duplicate creds) else None)
           in Ask (Verify creds) (\<lambda>verdict.
                if \<not> verdict
                then write_flush SrvIo AUTH_FAILURE (Ret (Err (auth_text ''SOCKS5 username/password authentication failed'')))
                else write_flush SrvIo [1, 0] (socks_request (Some username) username_raw retained)))))"

definition socks_password :: "server_options \<Rightarrow> (server_query, server_error + incoming_request) prog" where
  "socks_password opts =
     read_exact SrvIo 2 (\<lambda>header.
       if header ! 0 \<noteq> 1
       then Ret (Err (SrvAuthentication (Text (ascii ''Invalid auth subnegotiation version: '' @ hex2 (unat (header ! 0))))))
       else if header ! 1 = 0
       then auth_fail ''Zero-length username in auth subnegotiation (RFC 1929 requires 1-255 bytes)''
       else read_exact SrvIo (unat (header ! 1)) (\<lambda>user. read_u8 SrvIo (\<lambda>plen.
         if plen = 0
         then auth_fail ''Zero-length password in auth subnegotiation (RFC 1929 requires 1-255 bytes)''
         else read_exact SrvIo (unat plen) (\<lambda>password. socks_verify opts user password))))"

definition socks :: "server_options \<Rightarrow> (server_query, server_error + incoming_request) prog" where
  "socks opts =
     read_u8 SrvIo (\<lambda>nmethods. read_exact SrvIo (unat nmethods) (\<lambda>methods.
       if so_password opts \<and> 2 \<in> set methods then write_flush SrvIo [5, 2] (socks_password opts)
       else if so_anonymous opts \<and> 0 \<in> set methods then write_flush SrvIo [5, 0] (socks_request None None None)
       else write_flush SrvIo [5, 255]
              (Ret (Err (SrvAuthentication (Text (no_method_text opts (length methods))))))))"

subsection \<open>HTTP CONNECT\<close>

text \<open>The iterator over lines: the last line is what follows the last separator, when that is not empty.\<close>

function byte_lines :: "bytes \<Rightarrow> bytes list" where
  "byte_lines rest =
     (if rest = [] then []
      else case find_window CRLF rest of
             Some pos \<Rightarrow> take pos rest # byte_lines (drop (pos + 2) rest)
           | None \<Rightarrow> [rest])"
  by pat_completeness auto
termination by (relation "measure length") auto

declare byte_lines.simps [simp del]

definition splitn2 :: "byte \<Rightarrow> bytes \<Rightarrow> bytes \<times> bytes option" where
  "splitn2 c s = (case split_once c s of Some (l, r) \<Rightarrow> (l, Some r) | None \<Rightarrow> (s, None))"

definition request_parts :: "bytes \<Rightarrow> bytes \<times> bytes \<times> bytes" where
  "request_parts line =
     (case splitn2 SPACE line of
        (m, None) \<Rightarrow> (m, [], [])
      | (m, Some r) \<Rightarrow> (case splitn2 SPACE r of (t, None) \<Rightarrow> (m, t, []) | (t, Some v) \<Rightarrow> (m, t, v)))"

definition protocol_debug :: "bytes \<Rightarrow> bytes \<Rightarrow> server_error" where
  "protocol_debug s x = SrvProtocol (TextDebug s x)"

text \<open>The first \<open>Proxy-Authorization\<close> value: absent, present but not UTF-8, or present.\<close>

datatype auth_header = NoAuth | BadAuth | AuthValue bytes

fun find_auth :: "bytes list \<Rightarrow> auth_header" where
  "find_auth [] = NoAuth"
| "find_auth (line # ls) =
     (if line = [] then find_auth ls
      else case position ((=) COLON) line of
             None \<Rightarrow> find_auth ls
           | Some colon \<Rightarrow>
               if \<not> eq_ignore_ascii_case (trim_ascii (take colon line)) (ascii ''proxy-authorization'') then find_auth ls
               else let value = trim_ascii (drop (colon + 1) line)
                    in if utf8_valid value then AuthValue value else BadAuth)"

definition http_accepted ::
  "bytes \<Rightarrow> bytes option \<Rightarrow> credentials option \<Rightarrow> bytes \<Rightarrow> ('q, server_error + incoming_request) prog" where
  "http_accepted target username retained pipeline =
     Ret (Ok \<lparr>rq_protocol = SrvHttp, rq_target = target, rq_username = username, rq_username_raw = None,
              rq_credentials = retained, rq_pipeline = pipeline\<rparr>)"

definition basic_credentials :: "(bytes \<Rightarrow> bytes option) \<Rightarrow> bytes \<Rightarrow> string + (bytes \<times> bytes)" where
  "basic_credentials decode value =
     (let (scheme, rest) = splitn2 SPACE value
      in case map_option str_trim rest of
           None \<Rightarrow> Err ''unsupported Proxy-Authorization scheme''
         | Some token \<Rightarrow>
             if \<not> eq_ignore_ascii_case scheme (ascii ''Basic'') then Err ''unsupported Proxy-Authorization scheme''
             else case decode token of
                    None \<Rightarrow> Err ''Proxy-Authorization base64 decode failed''
                  | Some decoded \<Rightarrow>
                      if \<not> utf8_valid decoded then Err ''Proxy-Authorization not valid UTF-8''
                      else case split_once COLON decoded of
                             None \<Rightarrow> Err (''Proxy-Authorization missing '' @ [CHR 0x27, CHR 0x3A, CHR 0x27])
                           | Some up \<Rightarrow> Ok up)"

definition http_authenticate ::
  "(bytes \<Rightarrow> bytes option) \<Rightarrow> server_options \<Rightarrow> bytes \<Rightarrow> bytes list \<Rightarrow> bytes \<Rightarrow>
   (server_query, server_error + incoming_request) prog" where
  "http_authenticate decode opts target headers pipeline =
     (case find_auth headers of
        BadAuth \<Rightarrow> http_fail 407 (auth_text ''Proxy-Authorization header is not valid UTF-8'')
      | NoAuth \<Rightarrow>
          if \<not> so_anonymous opts
          then http_fail 407 (auth_text ''anonymous HTTP CONNECT not allowed (allow_anonymous=false)'')
          else http_accepted target None None pipeline
      | AuthValue value \<Rightarrow>
          (case basic_credentials decode value of
             Err msg \<Rightarrow> http_fail 407 (auth_text msg)
           | Ok (user, password) \<Rightarrow>
               if \<not> so_password opts
               then http_fail 407 (auth_text ''client sent Proxy-Authorization but server has no users configured'')
               else let creds = credentials_new user password;
                        retained = (if so_retain_credentials opts then Some (credentials_duplicate creds) else None)
                    in Ask (Verify creds) (\<lambda>verdict.
                         if \<not> verdict then http_fail 407 (auth_text ''HTTP proxy authentication failed'')
                         else http_accepted target (Some user) retained pipeline)))"

definition http_request ::
  "(bytes \<Rightarrow> bytes option) \<Rightarrow> server_options \<Rightarrow> bytes \<Rightarrow> bytes list \<Rightarrow> bytes \<Rightarrow>
   (server_query, server_error + incoming_request) prog" where
  "http_request decode opts request_line headers pipeline =
     (case request_parts request_line of
        (meth, target, version) \<Rightarrow>
          if meth = [] \<or> target = [] \<or> \<not> starts_with version (ascii ''HTTP/'')
          then http_fail 400 (protocol_debug (ascii ''malformed HTTP request line: '') request_line)
          else if meth \<noteq> ascii ''CONNECT''
          then http_fail 501 (protocol_debug (ascii ''only CONNECT is supported, client sent '') meth)
          else if list_ex (\<lambda>b. byte_is_control b \<or> is_ascii_whitespace b) target
          then http_fail 400 (protocol_debug (ascii ''CONNECT target contains control or whitespace bytes '' @
                 [0xE2, 0x80, 0x94, SPACE]) target)
          else if host_port_parse target = None
          then http_fail 400 (protocol_debug (ascii ''CONNECT target is not a valid host:port authority '' @
                 [0xE2, 0x80, 0x94, SPACE]) target)
          else http_authenticate decode opts target headers pipeline)"

definition http_head ::
  "(bytes \<Rightarrow> bytes option) \<Rightarrow> server_options \<Rightarrow> bytes \<Rightarrow> nat \<Rightarrow> (server_query, server_error + incoming_request) prog" where
  "http_head decode opts buf header_end =
     (let pipeline = drop header_end buf;
          ls = byte_lines (take (header_end - 4) buf);
          request_line = (case ls of [] \<Rightarrow> [] | l # _ \<Rightarrow> l);
          headers = tl ls
      in if \<not> utf8_valid request_line
         then http_fail 400 (SrvProtocol (Text (ascii ''non-UTF-8 bytes in HTTP request line'')))
         else if so_strict_http opts then
           (case strict_validate request_line headers of
              Err (Bad reason) \<Rightarrow> http_fail 400 (SrvProtocol (Text (ascii reason)))
            | Err Unsupported \<Rightarrow> http_fail 505 (SrvProtocol (Text (ascii ''strict HTTP: unsupported HTTP-version'')))
            | Ok _ \<Rightarrow> http_request decode opts request_line headers pipeline)
         else http_request decode opts request_line headers pipeline)"

function http_loop ::
  "(bytes \<Rightarrow> bytes option) \<Rightarrow> server_options \<Rightarrow> bytes \<Rightarrow> (server_query, server_error + incoming_request) prog" where
  "http_loop decode opts buf =
     Read 1024 (\<lambda>r.
       case r of
         Err e \<Rightarrow> Ret (Err (SrvIo e))
       | Ok bs \<Rightarrow>
           if bs = [] then Ret (Err Closed)
           else let scan_from = length buf - 3; buf' = buf @ bs
                in case find_window HEAD_END (drop scan_from buf') of
                     Some pos \<Rightarrow>
                       (let stop = scan_from + pos + 4
                        in if MAX_HEADER_BYTES < stop then http_fail 431 HeaderTooLarge
                           else http_head decode opts buf' stop)
                   | None \<Rightarrow>
                       if MAX_HEADER_BYTES < length buf' then http_fail 431 HeaderTooLarge
                       else http_loop decode opts buf')"
  by pat_completeness auto
termination
  by (relation "measure (\<lambda>(_, _, buf). MAX_HEADER_BYTES + 1 - length buf)") (auto simp: not_less neq_Nil_conv)

declare http_loop.simps [simp del]

subsection \<open>Entry point\<close>

text \<open>Entering a phase with no budget left ends the handshake before anything is polled.\<close>

definition phase :: "(server_query, server_error + 'a) prog \<Rightarrow> (server_query, server_error + 'a) prog" where
  "phase p = Ask BudgetLeft (\<lambda>budget. if budget then p else Ret (Err Deadline))"

definition accept_first :: "(server_query, server_error + byte) prog" where
  "accept_first =
     Read 1 (\<lambda>r. case r of
       Err e \<Rightarrow> Ret (Err (SrvIo e))
     | Ok bs \<Rightarrow> if bs = [] then Ret (Err Closed) else Ret (Ok (bs ! 0)))"

text \<open>The part of \<open>accept\<close> after the first byte.\<close>

definition dispatch ::
  "(bytes \<Rightarrow> bytes option) \<Rightarrow> server_options \<Rightarrow> byte \<Rightarrow> (server_query, server_error + incoming_request) prog" where
  "dispatch decode opts first =
     (if first = 5 then phase (socks opts)
      else if is_ascii_alphabetic first then phase (http_loop decode opts [first])
      else Ret (Err (SrvProtocol (Text (ascii ''unrecognised first byte 0x'' @ hex2 (unat first) @
        [SPACE, 0xE2, 0x80, 0x94, SPACE] @ ascii ''neither SOCKS5 (0x05) nor an HTTP method'')))))"

definition accept ::
  "(bytes \<Rightarrow> bytes option) \<Rightarrow> server_options \<Rightarrow> (server_query, server_error + incoming_request) prog" where
  "accept decode opts =
     prog_bind (phase accept_first) (\<lambda>r. case r of Err e \<Rightarrow> Ret (Err e) | Ok first \<Rightarrow> dispatch decode opts first)"

text \<open>On a connection: waiting for a silent peer ends at the deadline.\<close>

definition accept_on ::
  "(bytes \<Rightarrow> bytes option) \<Rightarrow> (server_query \<Rightarrow> bool) \<Rightarrow> server_options \<Rightarrow> conn \<Rightarrow> (server_error + incoming_request) \<times> conn" where
  "accept_on decode host opts c =
     (case run_on host (accept decode opts) c of (None, c') \<Rightarrow> (Err Deadline, c') | (Some r, c') \<Rightarrow> (r, c'))"

end
