(* ===== verification/AllowedClients.thy ===== *)
theory AllowedClients
  imports Utf8 IpAddr
begin

text \<open>
  The client filter, \<open>config/allowed_clients.rs\<close>: compiling a rule and matching an address against it. The
  messages of the errors are not modelled, their kinds are.
\<close>

abbreviation COMMA :: byte where "COMMA \<equiv> 44"

datatype ip_mask = MaskV4 "byte option list" | MaskV6 "u16 option list"

datatype ip_rule = Exact ip_addr | Loopback | MaskRule ip_mask

record allowed_clients =
  allow_all :: bool
  ac_rules :: "ip_rule list"

datatype element_error =
    NotAnAddress | BadIpv4 | MaskOctets | BadOctet bytes | LeadingZero bytes | Zone | Brackets | BadIpv6 |
    ManyCompressions | ExtraColons | TooManyGroups | FullCompression | MaskGroups | BadGroup bytes |
    GroupChars bytes | LongGroup bytes

datatype allowed_error = EmptyElement | BadElement bytes element_error | EmptyRule

subsection \<open>Addresses\<close>

text \<open>The methods of \<open>std::net\<close> that the filter uses.\<close>

fun is_loopback :: "ip_addr \<Rightarrow> bool" where
  "is_loopback (V4 a) = (a ! 0 = 127)"
| "is_loopback (V6 a) = (a = [0, 0, 0, 0, 0, 0, 0, 1])"

definition to_ipv6_mapped :: "byte list \<Rightarrow> u16 list" where
  "to_ipv6_mapped a = [0, 0, 0, 0, 0, 0xFFFF, be16 (a ! 0) (a ! 1), be16 (a ! 2) (a ! 3)]"

fun normalize_mapped :: "ip_addr \<Rightarrow> ip_addr" where
  "normalize_mapped (V6 v6) = (case ipv4_mapped v6 of Some v4 \<Rightarrow> V4 v4 | None \<Rightarrow> V6 v6)"
| "normalize_mapped (V4 v4) = V4 v4"

definition agrees :: "'a option list \<Rightarrow> 'a list \<Rightarrow> bool" where
  "agrees segs xs = list_all (\<lambda>(s, x). case s of None \<Rightarrow> True | Some v \<Rightarrow> v = x) (zip segs xs)"

fun rule_matches :: "ip_rule \<Rightarrow> ip_addr \<Rightarrow> bool" where
  "rule_matches (Exact e) ip = (e = ip)"
| "rule_matches Loopback ip = is_loopback ip"
| "rule_matches (MaskRule (MaskV4 segs)) ip = (case ip of V4 v4 \<Rightarrow> agrees segs v4 | V6 _ \<Rightarrow> False)"
| "rule_matches (MaskRule (MaskV6 segs)) ip = agrees segs (case ip of V6 v6 \<Rightarrow> v6 | V4 v4 \<Rightarrow> to_ipv6_mapped v4)"

definition allowed_matches :: "allowed_clients \<Rightarrow> ip_addr \<Rightarrow> bool" where
  "allowed_matches a ip =
     (let ip = normalize_mapped ip in if allow_all a then True else list_ex (\<lambda>r. rule_matches r ip) (ac_rules a))"

subsection \<open>Compiling a rule\<close>

fun mask_octets :: "bytes list \<Rightarrow> element_error + byte option list" where
  "mask_octets [] = Ok []"
| "mask_octets (p # ps) =
     (if p = [STAR] then map_sum id (\<lambda>out. None # out) (mask_octets ps)
      else if STAR \<in> set p \<or> p = [] \<or> \<not> list_all is_ascii_digit p then Err (BadOctet p)
      else if 1 < length p \<and> hd p = 48 then Err (LeadingZero p)
      else case parse_uint 255 p of
             None \<Rightarrow> Err (BadOctet p)
           | Some v \<Rightarrow> map_sum id (\<lambda>out. Some (of_nat v) # out) (mask_octets ps))"

definition parse_v4 :: "bytes \<Rightarrow> element_error + ip_rule" where
  "parse_v4 elem =
     (if STAR \<notin> set elem then
        (case parse_ip elem of None \<Rightarrow> Err BadIpv4 | Some ip \<Rightarrow> Ok (Exact ip))
      else let parts = split_all DOT elem
           in if length parts \<noteq> 4 then Err MaskOctets
              else map_sum id (\<lambda>out. MaskRule (MaskV4 out)) (mask_octets parts))"

fun hex_value :: "nat \<Rightarrow> bytes \<Rightarrow> nat option" where
  "hex_value acc [] = Some acc"
| "hex_value acc (b # bs) = Option.bind (to_digit 16 b) (\<lambda>d. hex_value (acc * 16 + d) bs)"

fun finish_v6_groups :: "bytes list \<Rightarrow> element_error + u16 option list" where
  "finish_v6_groups [] = Ok []"
| "finish_v6_groups (g # gs) =
     (if g = [STAR] then map_sum id (\<lambda>out. None # out) (finish_v6_groups gs)
      else if STAR \<in> set g \<or> g = [] then Err (BadGroup g)
      else if \<not> list_all is_ascii_hexdigit g then Err (GroupChars g)
      else if 4 < length g then Err (LongGroup g)
      else case hex_value 0 g of
             None \<Rightarrow> Err (BadGroup g)
           | Some v \<Rightarrow> map_sum id (\<lambda>out. Some (of_nat v) # out) (finish_v6_groups gs))"

text \<open>The number of non-overlapping occurrences of a double colon.\<close>

fun double_colons :: "bytes \<Rightarrow> nat" where
  "double_colons (b # c # bs) = (if b = COLON \<and> c = COLON then 1 + double_colons bs else double_colons (c # bs))"
| "double_colons bs = 0"

definition split_compression :: "bytes \<Rightarrow> (bytes \<times> bytes) option" where
  "split_compression s = map_option (\<lambda>i. (take i s, drop (i + 2) s)) (find_window [COLON, COLON] s)"

definition groups_of :: "bytes \<Rightarrow> bytes list" where
  "groups_of s = (if s = [] then [] else split_all COLON s)"

definition parse_v6 :: "bytes \<Rightarrow> element_error + ip_rule" where
  "parse_v6 elem =
     (if 37 \<in> set elem then Err Zone
      else if hd elem = LBRACKET \<or> last elem = RBRACKET then Err Brackets
      else if STAR \<notin> set elem then
        (case parse_ipv6 elem of None \<Rightarrow> Err BadIpv6 | Some v6 \<Rightarrow> Ok (Exact (normalize_mapped (V6 v6))))
      else if 1 < double_colons elem then Err ManyCompressions
      else if find_window [COLON, COLON, COLON] elem \<noteq> None then Err ExtraColons
      else
        let (head_str, tail_str) = (case split_compression elem of Some ht \<Rightarrow> ht | None \<Rightarrow> (elem, []));
            head = groups_of head_str; tail = groups_of tail_str;
            explicit = length head + length tail
        in if list_ex (\<lambda>g. g = []) head \<or> list_ex (\<lambda>g. g = []) tail then Err ExtraColons
           else if 8 < explicit then Err TooManyGroups
           else case split_compression elem of
                  Some _ \<Rightarrow>
                    if explicit = 8 then Err FullCompression
                    else map_sum id (\<lambda>out. MaskRule (MaskV6 out))
                           (finish_v6_groups (head @ replicate (8 - explicit) [48] @ tail))
                | None \<Rightarrow>
                    if explicit \<noteq> 8 then Err MaskGroups
                    else map_sum id (\<lambda>out. MaskRule (MaskV6 out)) (finish_v6_groups head))"

definition parse_element :: "bytes \<Rightarrow> element_error + ip_rule" where
  "parse_element elem =
     (if eq_ignore_ascii_case elem (ascii ''loopback'') then Ok Loopback
      else if COLON \<in> set elem then parse_v6 elem
      else if DOT \<in> set elem then parse_v4 elem
      else Err NotAnAddress)"

fun compile_elements :: "bytes list \<Rightarrow> bool \<Rightarrow> ip_rule list \<Rightarrow> allowed_error + bool \<times> ip_rule list" where
  "compile_elements [] everyone rules = Ok (everyone, rules)"
| "compile_elements (raw # raws) everyone rules =
     (let elem = str_trim raw in
      if elem = [] then Err EmptyElement
      else if elem = [STAR] then compile_elements raws True rules
      else case parse_element elem of
             Err e \<Rightarrow> Err (BadElement elem e)
           | Ok r \<Rightarrow> compile_elements raws everyone (rules @ [r]))"

definition compile_allowed_clients :: "bytes \<Rightarrow> allowed_error + allowed_clients" where
  "compile_allowed_clients spec =
     (case compile_elements (split_all COMMA spec) False [] of
        Err e \<Rightarrow> Err e
      | Ok (everyone, rules) \<Rightarrow>
          if rules = [] \<and> \<not> everyone then Err EmptyRule else Ok \<lparr>allow_all = everyone, ac_rules = rules\<rparr>)"

subsection \<open>What a rule means\<close>

text \<open>A pattern fixes some octets or groups of an address and leaves the others open.\<close>

datatype ip_pattern = P4 "byte option list" | P6 "u16 option list"

fun pattern_text :: "ip_pattern \<Rightarrow> bytes" where
  "pattern_text (P4 os) = join_with [DOT] (map (case_option [STAR] (\<lambda>b. radix_str 10 (unat b))) os)"
| "pattern_text (P6 gs) = join_with [COLON] (map (case_option [STAR] (\<lambda>g. radix_str 16 (unat g))) gs)"

fun wf_pattern :: "ip_pattern \<Rightarrow> bool" where
  "wf_pattern (P4 os) = (length os = 4)"
| "wf_pattern (P6 gs) = (length gs = 8)"

fun wf_ip :: "ip_addr \<Rightarrow> bool" where
  "wf_ip (V4 a) = (length a = 4)"
| "wf_ip (V6 a) = (length a = 8)"

definition segments_of :: "ip_addr \<Rightarrow> u16 list" where
  "segments_of ip = (case ip of V6 v6 \<Rightarrow> v6 | V4 v4 \<Rightarrow> to_ipv6_mapped v4)"

fun admits :: "ip_pattern \<Rightarrow> ip_addr \<Rightarrow> bool" where
  "admits (P4 os) ip = (case normalize_mapped ip of V4 a \<Rightarrow> agrees os a | V6 _ \<Rightarrow> False)"
| "admits (P6 gs) ip = agrees gs (segments_of (normalize_mapped ip))"

subsection \<open>Lists of parts\<close>

lemma split_all_nonempty: "split_all c s \<noteq> []"
  by (cases s) (auto split: list.splits)

lemma split_all_append: "split_all c (a @ c # b) = split_all c a @ split_all c b"
proof (induction a)
  case (Cons x a)
  then show ?case using split_all_nonempty [of c a] by (cases "split_all c a") auto
qed simp

lemma split_all_plain: "c \<notin> set s \<Longrightarrow> split_all c s = [s]"
  by (induction s) auto

lemma split_all_join:
  "xs \<noteq> [] \<Longrightarrow> list_all (\<lambda>x. c \<notin> set x) xs \<Longrightarrow> split_all c (join_with [c] xs) = xs"
  by (induction "[c]" xs rule: join_with.induct) (auto simp: split_all_plain split_all_append)

lemma set_join_with: "set (join_with sep xs) \<subseteq> set sep \<union> \<Union> (set ` set xs)"
  by (induction sep xs rule: join_with.induct) auto

lemma join_with_sep_in: "2 \<le> length xs \<Longrightarrow> c \<in> set (join_with [c] xs)"
  by (cases "([c], xs)" rule: join_with.cases) auto

lemma join_with_mem: "x \<in> set xs \<Longrightarrow> set x \<subseteq> set (join_with sep xs)"
  by (induction sep xs rule: join_with.induct) auto

text \<open>The characters of a pattern.\<close>

definition plain :: "byte \<Rightarrow> bool" where
  "plain b \<longleftrightarrow> b \<in> {STAR, DOT, COLON} \<or> (\<exists>d < 16. b = digit_char d)"

lemma radix_str_char:
  assumes "b \<in> set (radix_str r n)" "r \<le> 16" "1 < r"
  obtains d where "d < r" "d < 16" "b = digit_char d" "unat b = (if d < 10 then 48 + d else 87 + d)"
proof -
  obtain d where d: "d < r" "b = digit_char d" using set_radix_str [OF assms(2,3), of n] assms(1) by auto
  show thesis by (rule that [of d]) (use d assms(2) unat_digit_char [of d] in auto)
qed

lemma plain_char:
  assumes "plain b"
  shows "b < 128" "\<not> is_whitespace (unat b)" "b \<noteq> COMMA" "b \<noteq> 37" "b \<noteq> LBRACKET" "b \<noteq> RBRACKET"
proof -
  have "unat b \<in> {42, 46, 58} \<union> {48..57} \<union> {97..102}"
    using assms unat_digit_char by (auto simp: plain_def split: if_splits)
  then show "b < 128" "\<not> is_whitespace (unat b)" "b \<noteq> COMMA" "b \<noteq> 37" "b \<noteq> LBRACKET" "b \<noteq> RBRACKET"
    by (auto simp: word_less_nat_alt is_whitespace_def)
qed

lemma part_facts:
  assumes "r \<le> 16" "1 < r" "x = case_option [STAR] (\<lambda>b. radix_str r (f b)) y"
  shows "x \<noteq> []" "list_all plain x" "DOT \<notin> set x" "COLON \<notin> set x"
proof -
  have "list_all plain (radix_str r n)" for n
    unfolding list_all_iff plain_def using radix_str_char [OF _ assms(1,2), of _ n] by blast
  then show "list_all plain x" using assms(3) by (auto simp: plain_def split: option.splits)
  show "x \<noteq> []" using assms(3) by (auto split: option.splits)
  have "DOT \<notin> set (radix_str r n)" "COLON \<notin> set (radix_str r n)" for n by (rule radix_str_special; use assms in simp)+
  then show "DOT \<notin> set x" "COLON \<notin> set x" using assms(3) by (auto split: option.splits)
qed

lemma star_iff:
  assumes "r \<le> 16" "1 < r" "c \<noteq> STAR"
  shows "STAR \<in> set (join_with [c] (map (case_option [STAR] (\<lambda>b. radix_str r (f b))) ys)) \<longleftrightarrow> None \<in> set ys"
proof -
  have "STAR \<notin> set (radix_str r n)" for n by (rule radix_str_special) (use assms in simp_all)
  then have m: "STAR \<in> set (case_option [STAR] (\<lambda>b. radix_str r (f b)) y) \<longleftrightarrow> y = None" for y by (auto split: option.splits)
  let ?xs = "map (case_option [STAR] (\<lambda>b. radix_str r (f b))) ys"
  have "STAR \<in> set (join_with [c] ?xs) \<longleftrightarrow> (\<exists>x \<in> set ?xs. STAR \<in> set x)"
    using assms(3) set_join_with [of "[c]" ?xs] join_with_mem [of _ ?xs "[c]"] by auto
  then show ?thesis using m by auto
qed

lemma no_star: "None \<notin> set ys \<Longrightarrow> \<exists>xs. ys = map Some xs"
  by (rule exI [of _ "map the ys"], induction ys) auto

text \<open>The texts of numbers are read back.\<close>

lemma mask_octets_text: "mask_octets (map (case_option [STAR] (\<lambda>b. radix_str 10 (unat (b :: byte)))) os) = Ok os"
proof (induction os)
  case (Cons y os)
  show ?case
  proof (cases y)
    case (Some b)
    let ?t = "radix_str 10 (unat b)"
    have u: "parse_uint 255 ?t = Some (unat b)" by (rule parse_uint_radix) (use unsigned_less [of b, where ?'a = nat] in simp)
    have "STAR \<notin> set ?t" by (rule radix_str_special) simp_all
    moreover have "list_all is_ascii_digit ?t"
      unfolding list_all_iff is_ascii_digit_def word_le_nat_alt by (auto elim!: radix_str_char)
    moreover have "\<not> (1 < length ?t \<and> hd ?t = 48)"
      using radix_str_no_leading_zero [of 10 "unat b" "[]"] radix_str_digit [of "unat b" 10]
      by (cases "unat b = 0"; cases ?t) auto
    moreover have "?t \<noteq> [STAR]" using calculation(1) by auto
    ultimately show ?thesis using Cons Some u by simp
  qed (use Cons in simp)
qed simp

lemma hex_value_radix: "hex_value 0 (radix_str 16 n @ t) = hex_value n t"
proof (induction n arbitrary: t rule: less_induct)
  case (less n)
  show ?case
  proof (cases "n < 16")
    case True
    then show ?thesis by (simp add: radix_str_digit to_digit_digit_char)
  next
    case False
    have "n div 16 < n" using False by auto
    then show ?thesis using less [of "n div 16"] False by (simp add: radix_str_step to_digit_digit_char)
  qed
qed

lemma finish_v6_groups_text: "finish_v6_groups (map (case_option [STAR] (\<lambda>g. radix_str 16 (unat (g :: u16)))) gs) = Ok gs"
proof (induction gs)
  case (Cons y gs)
  show ?case
  proof (cases y)
    case (Some g)
    let ?t = "radix_str 16 (unat g)"
    have "length ?t \<le> 4" by (rule length_radix_str) (use unsigned_less [of g, where ?'a = nat] in simp_all)
    moreover have "STAR \<notin> set ?t" by (rule radix_str_special) simp_all
    moreover have "list_all is_ascii_hexdigit ?t"
      unfolding list_all_iff is_ascii_hexdigit_def is_ascii_digit_def word_le_nat_alt by (auto elim!: radix_str_char split: if_splits)
    moreover have "?t \<noteq> [STAR]" using calculation(2) by auto
    ultimately show ?thesis using Cons Some hex_value_radix [of "unat g" "[]"] by simp
  qed (use Cons in simp)
qed simp

text \<open>Nothing of a pattern looks like a compression.\<close>

lemma split_all_compressed: "[] \<notin> set (split_all COLON s) \<Longrightarrow> s \<noteq> a @ COLON # COLON # b"
proof
  assume n: "[] \<notin> set (split_all COLON s)" and s: "s = a @ COLON # COLON # b"
  have "split_all COLON s = split_all COLON a @ [] # split_all COLON b" by (simp add: s split_all_append)
  then show False using n by simp
qed

lemma double_colons_pos: "0 < double_colons s \<Longrightarrow> \<exists>a b. s = a @ COLON # COLON # b"
proof (induction s rule: double_colons.induct)
  case (1 b c bs)
  then show ?case
  proof (cases "b = COLON \<and> c = COLON")
    case False
    then obtain x y where "c # bs = x @ COLON # COLON # y" using 1 by auto
    then have "b # c # bs = (b # x) @ COLON # COLON # y" by simp
    then show ?thesis by blast
  next
    case True
    then have "b # c # bs = [] @ COLON # COLON # bs" by simp
    then show ?thesis by blast
  qed
qed auto

lemma find_window_occurs:
  assumes "p \<noteq> []" "find_window p s \<noteq> None"
  obtains a b where "s = a @ p @ b"
proof -
  obtain i where "find_window p s = Some i" using assms(2) by auto
  then have "take (length p) (drop i s) = p" using find_window_Some [OF assms(1)] by simp
  then have "s = take i s @ p @ drop (length p) (drop i s)" by (metis append_take_drop_id)
  then show thesis by (rule that)
qed

lemma uncompressed:
  assumes "[] \<notin> set (split_all COLON s)"
  shows "double_colons s = 0" "find_window [COLON, COLON, COLON] s = None" "split_compression s = None"
proof -
  note no = split_all_compressed [OF assms]
  show "double_colons s = 0" using double_colons_pos [of s] no by blast
  have "find_window [COLON, COLON] s = None"
  proof (rule ccontr)
    assume "find_window [COLON, COLON] s \<noteq> None"
    then obtain a b where "s = a @ [COLON, COLON] @ b" using find_window_occurs by (metis list.distinct(1))
    then show False using no by simp
  qed
  then show "split_compression s = None" by (simp add: split_compression_def)
  show "find_window [COLON, COLON, COLON] s = None"
  proof (rule ccontr)
    assume "find_window [COLON, COLON, COLON] s \<noteq> None"
    then obtain a b where "s = a @ [COLON, COLON, COLON] @ b" using find_window_occurs by (metis list.distinct(1))
    then show False using no [of a "COLON # b"] by simp
  qed
qed

subsection \<open>Compiled patterns\<close>

lemma agrees_Some: "length xs = length ys \<Longrightarrow> agrees (map Some xs) ys \<longleftrightarrow> xs = ys"
  by (induction xs ys rule: list_induct2) (auto simp: agrees_def)

lemma mapped_iff:
  assumes "length gs = 8" "length a = 4"
  shows "ipv4_mapped gs = Some a \<longleftrightarrow> gs = to_ipv6_mapped a"
proof
  assume m: "ipv4_mapped gs = Some a"
  then have t: "take 6 gs = [0, 0, 0, 0, 0, 0xFFFF]" by (auto simp: ipv4_mapped_def split: if_splits)
  have "gs = take 6 gs @ [gs ! 6, gs ! 7]" using assms(1)
    by (intro nth_equalityI) (auto simp: nth_append less_Suc_eq numeral_eq_Suc)
  moreover have "be16 (a ! 0) (a ! 1) = gs ! 6" "be16 (a ! 2) (a ! 3) = gs ! 7"
    using m by (auto simp: ipv4_mapped_def be16_split split: if_splits)
  ultimately show "gs = to_ipv6_mapped a" by (simp add: t to_ipv6_mapped_def)
next
  assume g: "gs = to_ipv6_mapped a"
  have u: "unat (be16 x y) = unat x * 256 + unat y" for x y
    using unsigned_less [of x, where ?'a = nat] unsigned_less [of y, where ?'a = nat]
    by (simp add: be16_def unat_of_nat del: of_nat_add of_nat_mult)
  have h: "(of_nat (unat (be16 x y) div 256) :: byte) = x" "(of_nat (unat (be16 x y) mod 256) :: byte) = y" for x y
    using unsigned_less [of y, where ?'a = nat] by (simp_all add: u)
  obtain a0 a1 a2 a3 where "a = [a0, a1, a2, a3]" using assms(2) by (auto simp: numeral_eq_Suc length_Suc_conv)
  then show "ipv4_mapped gs = Some a" using h by (simp add: g ipv4_mapped_def to_ipv6_mapped_def)
qed

lemma normalize_mapped_eq:
  assumes "wf_ip ip" "normalize_mapped ip = ip" "length gs = 8"
  shows "normalize_mapped (V6 gs) = ip \<longleftrightarrow> gs = segments_of ip"
proof (cases ip)
  case (V4 a)
  then show ?thesis using mapped_iff [OF assms(3), of a] assms(1) by (auto simp: segments_of_def split: option.splits)
next
  case (V6 v)
  then show ?thesis using assms(2) by (auto simp: segments_of_def split: option.splits)
qed

lemma normalize_mapped_wf: "wf_ip ip \<Longrightarrow> wf_ip (normalize_mapped ip)"
  by (cases ip) (auto simp: ipv4_mapped_def split: option.splits)

lemma normalize_mapped_idem: "normalize_mapped (normalize_mapped ip) = normalize_mapped ip"
  by (cases ip) (auto split: option.splits)

lemma no_loopback: "DOT \<in> set s \<or> COLON \<in> set s \<Longrightarrow> \<not> eq_ignore_ascii_case s (ascii ''loopback'')"
proof
  assume s: "DOT \<in> set s \<or> COLON \<in> set s" and e: "eq_ignore_ascii_case s (ascii ''loopback'')"
  have "to_ascii_lowercase DOT = DOT" "to_ascii_lowercase COLON = COLON" by (simp_all add: to_ascii_lowercase_def)
  then have "DOT \<in> set (map to_ascii_lowercase s) \<or> COLON \<in> set (map to_ascii_lowercase s)"
    using s by (metis image_eqI list.set_map)
  moreover have "set (map to_ascii_lowercase s) = set (map to_ascii_lowercase (ascii ''loopback''))"
    using e by (simp only: eq_ignore_ascii_case_def)
  moreover have "set (map to_ascii_lowercase (ascii ''loopback'')) = {108, 111, 112, 98, 97, 99, 107}"
    by (auto simp: to_ascii_lowercase_def)
  ultimately show False by (simp del: list.set_map)
qed

lemma parse_v4_text:
  assumes "length os = 4"
  obtains r where "parse_v4 (pattern_text (P4 os)) = Ok r"
    "\<And>ip. wf_ip ip \<Longrightarrow> rule_matches r ip \<longleftrightarrow> (case ip of V4 a \<Rightarrow> agrees os a | V6 _ \<Rightarrow> False)"
proof (cases "None \<in> set os")
  case True
  let ?xs = "map (case_option [STAR] (\<lambda>b. radix_str 10 (unat b))) os"
  have "split_all DOT (join_with [DOT] ?xs) = ?xs"
    by (rule split_all_join) (use assms part_facts(3) [of 10, OF _ _ refl] in \<open>auto simp: list_all_iff\<close>)
  then have "parse_v4 (pattern_text (P4 os)) = Ok (MaskRule (MaskV4 os))"
    using True assms star_iff [of 10 DOT unat os] mask_octets_text [of os] by (simp add: parse_v4_def)
  then show thesis by (rule that) simp
next
  case False
  then obtain a where a: "os = map Some a" using no_star by blast
  have l: "length a = 4" using assms a by simp
  have t: "pattern_text (P4 os) = fmt_ipv4 a" by (simp add: a fmt_ipv4_def comp_def)
  have "parse_ip (fmt_ipv4 a) = Some (V4 a)" using read_ipv4_fmt [OF l, of "[]"] by (simp add: parse_ip_def no_digit_def)
  then have "parse_v4 (pattern_text (P4 os)) = Ok (Exact (V4 a))"
    using False star_iff [of 10 DOT unat os] t by (simp add: parse_v4_def)
  then show thesis by (rule that) (use l in \<open>auto simp: a agrees_Some split: ip_addr.splits\<close>)
qed

lemma list_all_join: "list_all P sep \<Longrightarrow> list_all (list_all P) xs \<Longrightarrow> list_all P (join_with sep xs)"
  by (induction sep xs rule: join_with.induct) auto

lemma pattern_chars: "list_all plain (pattern_text p)"
proof (cases p)
  case (P4 os)
  show ?thesis unfolding P4 pattern_text.simps
    by (rule list_all_join) (use part_facts(2) [of 10, OF _ _ refl] in \<open>auto simp: list_all_iff plain_def\<close>)
next
  case (P6 gs)
  show ?thesis unfolding P6 pattern_text.simps
    by (rule list_all_join) (use part_facts(2) [of 16, OF _ _ refl] in \<open>auto simp: list_all_iff plain_def\<close>)
qed

lemma parse_v6_uncompressed:
  assumes "37 \<notin> set t" "hd t \<noteq> LBRACKET" "last t \<noteq> RBRACKET" "STAR \<in> set t" "double_colons t = 0"
    "find_window [COLON, COLON, COLON] t = None" "split_compression t = None" "groups_of t = xs" "\<not> list_ex (\<lambda>g. g = []) xs"
    "length xs = 8" "finish_v6_groups xs = Ok out"
  shows "parse_v6 t = Ok (MaskRule (MaskV6 out))"
  unfolding parse_v6_def using assms by (simp add: groups_of_def [of "[]"])

lemma parse_v6_text:
  assumes "length gs = 8"
  obtains r where "parse_v6 (pattern_text (P6 gs)) = Ok r"
    "\<And>ip. wf_ip ip \<Longrightarrow> normalize_mapped ip = ip \<Longrightarrow> rule_matches r ip \<longleftrightarrow> agrees gs (segments_of ip)"
proof -
  let ?xs = "map (case_option [STAR] (\<lambda>g. radix_str 16 (unat g))) gs" and ?t = "pattern_text (P6 gs)"
  have xs: "split_all COLON ?t = ?xs" unfolding pattern_text.simps
    by (rule split_all_join) (use assms part_facts(4) [of 16, OF _ _ refl] in \<open>auto simp: list_all_iff\<close>)
  have ne: "list_all (\<lambda>x. x \<noteq> []) ?xs" using part_facts(1) [of 16, OF _ _ refl] by (auto simp: list_all_iff)
  have t: "?t \<noteq> []" using xs assms by (cases "?t = []") (auto dest: arg_cong [of _ _ length])
  have p: "list_all plain ?t" by (rule pattern_chars)
  have c: "37 \<notin> set ?t" "hd ?t \<noteq> LBRACKET" "last ?t \<noteq> RBRACKET"
    using p hd_in_set [OF t] last_in_set [OF t] plain_char(4-6) unfolding list_all_iff by blast+
  show thesis
  proof (cases "None \<in> set gs")
    case True
    have s: "STAR \<in> set ?t" using True star_iff [of 16 COLON unat gs] by simp
    have "[] \<notin> set (split_all COLON ?t)" using ne xs by (auto simp: list_all_iff)
    note u = uncompressed [OF this]
    have g: "groups_of ?t = ?xs" using xs t by (simp only: groups_of_def if_False)
    have e: "\<not> list_ex (\<lambda>g. g = []) ?xs" using ne by (auto simp: list_all_iff list_ex_iff)
    have "parse_v6 ?t = Ok (MaskRule (MaskV6 gs))"
      by (rule parse_v6_uncompressed [OF c s u g e _ finish_v6_groups_text]) (use assms in simp)
    then show ?thesis by (rule that) (simp add: segments_of_def)
  next
    case False
    then obtain a where a: "gs = map Some a" using no_star by blast
    have l: "length a = 8" using assms a by simp
    have ta: "?t = fmt_groups a" by (simp add: a fmt_groups_def comp_def)
    have "parse_ipv6 (fmt_groups a) = Some a"
      using read_groups_fmt [of "[]" a 8] l by (simp add: parse_ipv6_def read_ipv6_addr_def stops_def)
    moreover have "STAR \<notin> set ?t" using False star_iff [of 16 COLON unat gs] by simp
    ultimately have "parse_v6 ?t = Ok (Exact (normalize_mapped (V6 a)))" using c ta by (simp add: parse_v6_def)
    then show ?thesis
    proof (rule that)
      fix ip assume ip: "wf_ip ip" "normalize_mapped ip = ip"
      have "length (segments_of ip) = 8" using ip(1) by (cases ip) (simp_all add: segments_of_def to_ipv6_mapped_def)
      then have "agrees gs (segments_of ip) \<longleftrightarrow> a = segments_of ip" unfolding a using l by (intro agrees_Some) simp
      then show "rule_matches (Exact (normalize_mapped (V6 a))) ip \<longleftrightarrow> agrees gs (segments_of ip)"
        using normalize_mapped_eq [OF ip l] by (simp only: rule_matches.simps)
    qed
  qed
qed

lemma parse_element_pattern:
  assumes "wf_pattern p"
  obtains r where "parse_element (pattern_text p) = Ok r"
    "\<And>ip. wf_ip ip \<Longrightarrow> rule_matches r (normalize_mapped ip) \<longleftrightarrow> admits p ip"
proof (cases p)
  case (P4 os)
  let ?t = "pattern_text (P4 os)"
  have l: "length os = 4" using assms P4 by simp
  have dot: "DOT \<in> set ?t" using l join_with_sep_in [of "map (case_option [STAR] (\<lambda>b. radix_str 10 (unat b))) os" DOT] by simp
  have "COLON \<notin> set ?t" using set_join_with [of "[DOT]"] part_facts(4) [of 10, OF _ _ refl] by fastforce
  moreover obtain r where r: "parse_v4 ?t = Ok r"
      "\<And>ip. wf_ip ip \<Longrightarrow> rule_matches r ip \<longleftrightarrow> (case ip of V4 a \<Rightarrow> agrees os a | V6 _ \<Rightarrow> False)"
    by (rule parse_v4_text [OF l]) blast
  ultimately have "parse_element (pattern_text p) = Ok r"
    using dot no_loopback P4 by (simp add: parse_element_def del: pattern_text.simps ascii_simps)
  then show thesis by (rule that) (use r(2) normalize_mapped_wf P4 in simp)
next
  case (P6 gs)
  let ?t = "pattern_text (P6 gs)"
  have l: "length gs = 8" using assms P6 by simp
  have colon: "COLON \<in> set ?t" using l join_with_sep_in [of "map (case_option [STAR] (\<lambda>b. radix_str 16 (unat b))) gs" COLON] by simp
  obtain r where r: "parse_v6 ?t = Ok r"
      "\<And>ip. wf_ip ip \<Longrightarrow> normalize_mapped ip = ip \<Longrightarrow> rule_matches r ip \<longleftrightarrow> agrees gs (segments_of ip)"
    by (rule parse_v6_text [OF l]) blast
  have "parse_element (pattern_text p) = Ok r"
    using colon no_loopback P6 r(1) by (simp add: parse_element_def del: pattern_text.simps ascii_simps)
  then show thesis by (rule that) (use r(2) normalize_mapped_wf normalize_mapped_idem P6 in simp)
qed

lemma pattern_text_trim: "wf_pattern p \<Longrightarrow> str_trim (pattern_text p) = pattern_text p \<and> pattern_text p \<noteq> [] \<and> pattern_text p \<noteq> [STAR]"
proof -
  assume w: "wf_pattern p"
  have "str_trim (pattern_text p) = pattern_text p"
    by (rule str_trim_plain) (use pattern_chars [of p] plain_char(1,2) in \<open>auto simp: list_all_iff\<close>)
  moreover have "DOT \<in> set (pattern_text p) \<or> COLON \<in> set (pattern_text p)"
    using w join_with_sep_in by (cases p) simp_all
  ultimately show ?thesis by auto
qed

lemma compile_elements_patterns:
  assumes "list_all wf_pattern ps"
  obtains rs where "compile_elements (map pattern_text ps) everyone rules = Ok (everyone, rules @ rs)" "length rs = length ps"
    "\<And>ip. wf_ip ip \<Longrightarrow> list_ex (\<lambda>r. rule_matches r (normalize_mapped ip)) rs \<longleftrightarrow> list_ex (\<lambda>p. admits p ip) ps"
  using assms
proof (induction ps arbitrary: rules thesis)
  case (Cons p ps)
  obtain r where r: "parse_element (pattern_text p) = Ok r"
      "\<And>ip. wf_ip ip \<Longrightarrow> rule_matches r (normalize_mapped ip) \<longleftrightarrow> admits p ip"
    using parse_element_pattern [of p] Cons.prems(2) by auto
  obtain rs where rs: "compile_elements (map pattern_text ps) everyone (rules @ [r]) = Ok (everyone, (rules @ [r]) @ rs)"
      "length rs = length ps"
      "\<And>ip. wf_ip ip \<Longrightarrow> list_ex (\<lambda>r. rule_matches r (normalize_mapped ip)) rs \<longleftrightarrow> list_ex (\<lambda>p. admits p ip) ps"
    using Cons.IH [of "rules @ [r]"] Cons.prems(2) by auto
  have "compile_elements (map pattern_text (p # ps)) everyone rules = Ok (everyone, rules @ r # rs)"
    using pattern_text_trim [of p] Cons.prems(2) r(1) rs(1) by (simp del: pattern_text.simps)
  then show ?case by (rule Cons.prems(1)) (use r(2) rs(2,3) in simp_all)
qed simp

text \<open>C18: A list of address patterns, in which a star leaves one octet or one group open, compiles, and the
  compiled rule admits exactly the clients that agree with one of the patterns in every fixed position; an
  IPv4 client is admitted alike whether it appears as IPv4 or as IPv4-mapped IPv6.\<close>

theorem allowed_clients_admit_patterns:
  assumes "ps \<noteq> []" "list_all wf_pattern ps" "wf_ip ip"
  shows "\<exists>a. compile_allowed_clients (join_with [COMMA] (map pattern_text ps)) = Ok a \<and>
    (allowed_matches a ip \<longleftrightarrow> list_ex (\<lambda>p. admits p ip) ps)"
proof -
  have "split_all COMMA (join_with [COMMA] (map pattern_text ps)) = map pattern_text ps"
    by (rule split_all_join) (use assms(1) pattern_chars plain_char(3) in \<open>auto simp: list_all_iff\<close>)
  moreover obtain rs where rs: "compile_elements (map pattern_text ps) False [] = Ok (False, [] @ rs)" "length rs = length ps"
      "\<And>ip. wf_ip ip \<Longrightarrow> list_ex (\<lambda>r. rule_matches r (normalize_mapped ip)) rs \<longleftrightarrow> list_ex (\<lambda>p. admits p ip) ps"
    by (rule compile_elements_patterns [OF assms(2), of False "[]"]) blast
  moreover have "rs \<noteq> []" using rs(2) assms(1) by auto
  ultimately have "compile_allowed_clients (join_with [COMMA] (map pattern_text ps)) = Ok \<lparr>allow_all = False, ac_rules = rs\<rparr>"
    by (simp add: compile_allowed_clients_def)
  then show ?thesis using rs(3) [OF assms(3)] by (intro exI conjI) (auto simp: allowed_matches_def Let_def)
qed

theorem allowed_clients_admit_patterns_witness:
  "\<exists>a. compile_allowed_clients (join_with [COMMA] (map pattern_text [P4 [Some 10, None, Some 0, None], P6 (None # replicate 7 (Some 1))])) = Ok a \<and>
    allowed_matches a (V6 [0, 0, 0, 0, 0, 0xFFFF, 0x0A05, 7])"
proof -
  have "admits (P4 [Some 10, None, Some 0, None]) (V6 [0, 0, 0, 0, 0, 0xFFFF, 0x0A05, 7])"
    by (simp add: ipv4_mapped_def agrees_def)
  then show ?thesis
    using allowed_clients_admit_patterns [of "[P4 [Some 10, None, Some 0, None], P6 (None # replicate 7 (Some 1))]"
        "V6 [0, 0, 0, 0, 0, 0xFFFF, 0x0A05, 7]"] by (auto simp del: pattern_text.simps admits.simps)
qed

end
