(* ===== verification/Auth.thy ===== *)
theory Auth
  imports AllowedClients
begin

text \<open>
  User authentication, \<open>auth/state\<close>: the users snapshot, the verify cache and the claiming of accounts whose
  password is still open. Each definition is one stretch of the code between two points where other calls
  can interfere: a read or write of the users list, of the cache or of the users file. Argon2, the HMAC and
  the file system are arguments: \<open>argon2_verify\<close> and \<open>compute_hash\<close> (given a salt), \<open>mac\<close>, and a \<open>persist_io\<close>
  that says which file operations succeed.
\<close>

subsection \<open>State\<close>

record user =
  u_name :: bytes
  u_hash :: bytes
  u_enabled :: bool
  u_direct :: bool
  u_allowed :: "bytes option"

record user_entry =
  ue_index :: nat
  ue_enabled :: bool
  ue_direct :: bool
  ue_allowed :: "allowed_clients option"

definition INIT_HASH :: bytes where
  "INIT_HASH = ascii ''init''"

record auth_state =
  as_users :: "user list"
  as_entries :: "bytes \<rightharpoonup> user_entry"
  as_anonymous :: bool
  as_secret :: bytes
  as_cache :: "bytes \<rightharpoonup> bytes"
  claim_lock :: "nat option"
  claim_gates :: "bytes \<rightharpoonup> nat"

text \<open>The users file, if it exists.\<close>

type_synonym users_file = "user list option"

subsection \<open>Building the state\<close>

text \<open>The rule of every user is compiled, of disabled and repeated ones too; of users with the same name the first counts.\<close>

fun build_entries :: "nat \<Rightarrow> user list \<Rightarrow> (bytes \<rightharpoonup> user_entry) \<Rightarrow> allowed_error + (bytes \<rightharpoonup> user_entry)" where
  "build_entries index [] entries = Ok entries"
| "build_entries index (u # us) entries =
     (case (case u_allowed u of None \<Rightarrow> Ok None | Some spec \<Rightarrow> map_sum id Some (compile_allowed_clients spec)) of
        Err e \<Rightarrow> Err e
      | Ok allowed \<Rightarrow>
          build_entries (index + 1) us
            (case entries (u_name u) of
               Some _ \<Rightarrow> entries
             | None \<Rightarrow> entries(u_name u \<mapsto>
                 \<lparr>ue_index = index, ue_enabled = u_enabled u, ue_direct = u_direct u, ue_allowed = allowed\<rparr>)))"

definition auth_build :: "bool \<Rightarrow> bytes \<Rightarrow> user list \<Rightarrow> allowed_error + auth_state" where
  "auth_build allow_anonymous server_secret us =
     (case build_entries 0 us Map.empty of
        Err e \<Rightarrow> Err e
      | Ok entries \<Rightarrow>
          Ok \<lparr>as_users = us, as_entries = entries, as_anonymous = allow_anonymous, as_secret = server_secret,
              as_cache = Map.empty, claim_lock = None, claim_gates = Map.empty\<rparr>)"

definition client_ip_allowed :: "auth_state \<Rightarrow> bytes \<Rightarrow> ip_addr option \<Rightarrow> bool" where
  "client_ip_allowed s name ip =
     (case ip of
        None \<Rightarrow> False
      | Some ip \<Rightarrow>
          (case as_entries s name of
             None \<Rightarrow> False
           | Some u \<Rightarrow> ue_enabled u \<and> (case ue_allowed u of None \<Rightarrow> True | Some r \<Rightarrow> allowed_matches r ip)))"

definition is_direct :: "auth_state \<Rightarrow> bytes \<Rightarrow> bool" where
  "is_direct s name = (case as_entries s name of None \<Rightarrow> False | Some u \<Rightarrow> ue_enabled u \<and> ue_direct u)"

subsection \<open>Verifying\<close>

definition compute_cache_hmac :: "(bytes \<Rightarrow> bytes \<Rightarrow> bytes) \<Rightarrow> bytes \<Rightarrow> bytes \<Rightarrow> bytes \<Rightarrow> bytes" where
  "compute_cache_hmac mac secret name password = mac secret (name @ [0] @ password)"

definition cache_matches :: "auth_state \<Rightarrow> bytes \<Rightarrow> bytes \<Rightarrow> bool" where
  "cache_matches s name candidate \<longleftrightarrow> as_cache s name = Some candidate"

definition claimed_hash_if_any :: "auth_state \<Rightarrow> nat \<Rightarrow> bytes option" where
  "claimed_hash_if_any s idx =
     (if u_hash (as_users s ! idx) = INIT_HASH then None else Some (u_hash (as_users s ! idx)))"

record claim_work =
  cw_name :: bytes
  cw_hmac :: bytes
  cw_index :: nat
  cw_hash :: bytes

datatype fail_reason = LockFailed | FileGone | ReadFailed | UserRemoved | WriteError

datatype claim_persist = Written | DiskHashChanged bytes | PersistFailed fail_reason

text \<open>Where a call of \<open>verify_async\<close> stands. The phases from \<open>Locked\<close> on hold the claim lock, those from \<open>Gated\<close>
  on the gate of the account.\<close>

datatype verify_phase =
    Begin
  | Queued
  | Checking bytes
  | Hashing
  | AtGate claim_work
  | Gated claim_work
  | Committing claim_work
  | Locked claim_work
  | Rechecked claim_work
  | Persisting claim_work users_file
  | Publishing claim_work claim_persist
  | Published claim_work
  | Finished bool

definition verify_enter :: "auth_state \<Rightarrow> bytes \<Rightarrow> bytes \<Rightarrow> verify_phase" where
  "verify_enter s name candidate =
     (if \<not> (case as_entries s name of None \<Rightarrow> False | Some u \<Rightarrow> ue_enabled u) then Finished False
      else if cache_matches s name candidate then Finished True
      else Queued)"

definition verify_prepare :: "auth_state \<Rightarrow> bytes \<Rightarrow> bytes \<Rightarrow> verify_phase" where
  "verify_prepare s name candidate =
     (case as_entries s name of
        None \<Rightarrow> Finished False
      | Some entry \<Rightarrow>
          if \<not> ue_enabled entry then Finished False
          else if cache_matches s name candidate then Finished True
          else let hash = u_hash (as_users s ! ue_index entry)
               in if hash \<noteq> INIT_HASH then Checking hash else Hashing)"

definition verify_against_committed ::
  "(bytes \<Rightarrow> bytes \<Rightarrow> bool) \<Rightarrow> auth_state \<Rightarrow> bytes \<Rightarrow> bytes \<Rightarrow> bytes \<Rightarrow> bytes \<Rightarrow> bool \<times> auth_state" where
  "verify_against_committed argon2_verify s name stored_hash password candidate =
     (if argon2_verify stored_hash password then (True, s\<lparr>as_cache := (as_cache s)(name \<mapsto> candidate)\<rparr>) else (False, s))"

definition prepare_claim ::
  "(bytes \<Rightarrow> bytes option) \<Rightarrow> auth_state \<Rightarrow> bytes \<Rightarrow> bytes \<Rightarrow> bytes \<Rightarrow> verify_phase" where
  "prepare_claim compute_hash s name password candidate =
     (if password = [] then Finished False
      else if 255 < length password then Finished False
      else case compute_hash password of
             None \<Rightarrow> Finished False
           | Some new_hash \<Rightarrow>
               (case as_entries s name of
                  None \<Rightarrow> Finished False
                | Some entry \<Rightarrow>
                    (case claimed_hash_if_any s (ue_index entry) of
                       Some claimed_hash \<Rightarrow> Checking claimed_hash
                     | None \<Rightarrow> AtGate \<lparr>cw_name = name, cw_hmac = candidate, cw_index = ue_index entry, cw_hash = new_hash\<rparr>)))"

subsection \<open>Persisting a claim\<close>

text \<open>A write can fail after the new content has taken the place of the old one.\<close>

datatype write_result = WriteOk | WriteFailed | WriteUndetermined

record persist_io =
  io_lock :: bool
  io_read :: bool
  io_write :: write_result

definition write_atomic :: "persist_io \<Rightarrow> users_file \<Rightarrow> user list \<Rightarrow> bool \<times> users_file" where
  "write_atomic io disk us =
     (case io_write io of WriteOk \<Rightarrow> (True, Some us) | WriteFailed \<Rightarrow> (False, disk) | WriteUndetermined \<Rightarrow> (False, Some us))"

definition persist_claim ::
  "persist_io \<Rightarrow> users_file \<Rightarrow> bytes \<Rightarrow> bytes \<Rightarrow> user list option \<Rightarrow> claim_persist \<times> users_file" where
  "persist_claim io disk name new_hash fallback_users =
     (if \<not> io_lock io then (PersistFailed LockFailed, disk)
      else case disk of
             None \<Rightarrow>
               (case fallback_users of
                  None \<Rightarrow> (PersistFailed FileGone, disk)
                | Some us \<Rightarrow>
                    (case write_atomic io disk us of
                       (True, disk') \<Rightarrow> (Written, disk')
                     | (False, disk') \<Rightarrow> (PersistFailed WriteError, disk')))
           | Some us \<Rightarrow>
               if \<not> io_read io then (PersistFailed ReadFailed, disk)
               else (case position (\<lambda>u. u_name u = name) us of
                       None \<Rightarrow> (PersistFailed UserRemoved, disk)
                     | Some i \<Rightarrow>
                         if u_hash (us ! i) \<noteq> INIT_HASH then (DiskHashChanged (u_hash (us ! i)), disk)
                         else (case write_atomic io disk (us[i := (us ! i)\<lparr>u_hash := new_hash\<rparr>]) of
                                 (True, disk') \<Rightarrow> (Written, disk')
                               | (False, disk') \<Rightarrow> (PersistFailed WriteError, disk'))))"

definition set_hash :: "nat \<Rightarrow> bytes \<Rightarrow> auth_state \<Rightarrow> auth_state" where
  "set_hash idx h s = s\<lparr>as_users := (as_users s)[idx := (as_users s ! idx)\<lparr>u_hash := h\<rparr>]\<rparr>"

definition unlock :: "bytes \<Rightarrow> auth_state \<Rightarrow> auth_state" where
  "unlock name s = s\<lparr>claim_lock := None, claim_gates := (claim_gates s)(name := None)\<rparr>"

text \<open>The parts of \<open>claim_commit\<close>: the check after the lock is taken, the snapshot for a missing file, the
  publication of the outcome and, after a write, the cache entry.\<close>

definition commit_recheck :: "auth_state \<Rightarrow> claim_work \<Rightarrow> verify_phase \<times> auth_state" where
  "commit_recheck s w =
     (case claimed_hash_if_any s (cw_index w) of
        Some claimed_hash \<Rightarrow> (Checking claimed_hash, unlock (cw_name w) s)
      | None \<Rightarrow> (Rechecked w, s))"

definition commit_snapshot :: "auth_state \<Rightarrow> users_file \<Rightarrow> claim_work \<Rightarrow> verify_phase" where
  "commit_snapshot s disk w =
     Persisting w (case disk of
                     Some _ \<Rightarrow> None
                   | None \<Rightarrow> Some ((as_users s)[cw_index w := (as_users s ! cw_index w)\<lparr>u_hash := cw_hash w\<rparr>]))"

definition commit_publish :: "auth_state \<Rightarrow> claim_work \<Rightarrow> claim_persist \<Rightarrow> verify_phase \<times> auth_state" where
  "commit_publish s w r =
     (case r of
        Written \<Rightarrow> (Published w, set_hash (cw_index w) (cw_hash w) s)
      | DiskHashChanged disk_hash \<Rightarrow> (Checking disk_hash, unlock (cw_name w) (set_hash (cw_index w) disk_hash s))
      | PersistFailed _ \<Rightarrow> (Finished False, unlock (cw_name w) (set_hash (cw_index w) INIT_HASH s)))"

definition commit_cache :: "auth_state \<Rightarrow> claim_work \<Rightarrow> verify_phase \<times> auth_state" where
  "commit_cache s w = (Finished True, unlock (cw_name w) (s\<lparr>as_cache := (as_cache s)(cw_name w \<mapsto> cw_hmac w)\<rparr>))"

subsection \<open>Concurrent calls\<close>

record verify_call =
  vc_name :: bytes
  vc_password :: bytes
  vc_phase :: verify_phase

record system =
  sys_auth :: auth_state
  sys_disk :: users_file
  sys_calls :: "nat \<Rightarrow> verify_call"

definition goto :: "nat \<Rightarrow> verify_phase \<Rightarrow> auth_state \<Rightarrow> system \<Rightarrow> system" where
  "goto i p s y = y\<lparr>sys_auth := s, sys_calls := (sys_calls y)(i := (sys_calls y i)\<lparr>vc_phase := p\<rparr>)\<rparr>"

definition candidate_of :: "(bytes \<Rightarrow> bytes \<Rightarrow> bytes) \<Rightarrow> system \<Rightarrow> nat \<Rightarrow> bytes" where
  "candidate_of mac y i =
     compute_cache_hmac mac (as_secret (sys_auth y)) (vc_name (sys_calls y i)) (vc_password (sys_calls y i))"

text \<open>One step of one call, or an edit of the users file by another process. The permits that bound the number of
  hashing and persisting threads only delay steps and are left out.\<close>

inductive auth_step ::
  "(bytes \<Rightarrow> bytes \<Rightarrow> bytes) \<Rightarrow> (bytes \<Rightarrow> bytes \<Rightarrow> bool) \<Rightarrow> (bytes \<Rightarrow> bytes \<Rightarrow> bytes option) \<Rightarrow> system \<Rightarrow> system \<Rightarrow> bool"
  for mac argon2_verify compute_hash where
  enter: "vc_phase (sys_calls y i) = Begin \<Longrightarrow>
    auth_step mac argon2_verify compute_hash y
      (goto i (verify_enter (sys_auth y) (vc_name (sys_calls y i)) (candidate_of mac y i)) (sys_auth y) y)"
| prepare: "vc_phase (sys_calls y i) = Queued \<Longrightarrow>
    auth_step mac argon2_verify compute_hash y
      (goto i (verify_prepare (sys_auth y) (vc_name (sys_calls y i)) (candidate_of mac y i)) (sys_auth y) y)"
| check: "vc_phase (sys_calls y i) = Checking h \<Longrightarrow>
    verify_against_committed argon2_verify (sys_auth y) (vc_name (sys_calls y i)) h (vc_password (sys_calls y i))
      (candidate_of mac y i) = (ok, s) \<Longrightarrow>
    auth_step mac argon2_verify compute_hash y (goto i (Finished ok) s y)"
| hash: "vc_phase (sys_calls y i) = Hashing \<Longrightarrow>
    auth_step mac argon2_verify compute_hash y
      (goto i (prepare_claim (compute_hash salt) (sys_auth y) (vc_name (sys_calls y i)) (vc_password (sys_calls y i)) (candidate_of mac y i))
         (sys_auth y) y)"
| gate: "vc_phase (sys_calls y i) = AtGate w \<Longrightarrow> claim_gates (sys_auth y) (cw_name w) = None \<Longrightarrow>
    auth_step mac argon2_verify compute_hash y
      (goto i (Gated w) ((sys_auth y)\<lparr>claim_gates := (claim_gates (sys_auth y))(cw_name w \<mapsto> i)\<rparr>) y)"
| gated_committed: "vc_phase (sys_calls y i) = Gated w \<Longrightarrow> claimed_hash_if_any (sys_auth y) (cw_index w) = Some h \<Longrightarrow>
    auth_step mac argon2_verify compute_hash y
      (goto i (Checking h) ((sys_auth y)\<lparr>claim_gates := (claim_gates (sys_auth y))(cw_name w := None)\<rparr>) y)"
| gated_open: "vc_phase (sys_calls y i) = Gated w \<Longrightarrow> claimed_hash_if_any (sys_auth y) (cw_index w) = None \<Longrightarrow>
    auth_step mac argon2_verify compute_hash y (goto i (Committing w) (sys_auth y) y)"
| lock: "vc_phase (sys_calls y i) = Committing w \<Longrightarrow> claim_lock (sys_auth y) = None \<Longrightarrow>
    auth_step mac argon2_verify compute_hash y (goto i (Locked w) ((sys_auth y)\<lparr>claim_lock := Some i\<rparr>) y)"
| recheck: "vc_phase (sys_calls y i) = Locked w \<Longrightarrow> commit_recheck (sys_auth y) w = (p, s) \<Longrightarrow>
    auth_step mac argon2_verify compute_hash y (goto i p s y)"
| snapshot: "vc_phase (sys_calls y i) = Rechecked w \<Longrightarrow>
    auth_step mac argon2_verify compute_hash y (goto i (commit_snapshot (sys_auth y) (sys_disk y) w) (sys_auth y) y)"
| persist: "vc_phase (sys_calls y i) = Persisting w fallback \<Longrightarrow>
    persist_claim io (sys_disk y) (cw_name w) (cw_hash w) fallback = (r, disk) \<Longrightarrow>
    auth_step mac argon2_verify compute_hash y (goto i (Publishing w r) (sys_auth y) (y\<lparr>sys_disk := disk\<rparr>))"
| publish: "vc_phase (sys_calls y i) = Publishing w r \<Longrightarrow> commit_publish (sys_auth y) w r = (p, s) \<Longrightarrow>
    auth_step mac argon2_verify compute_hash y (goto i p s y)"
| cache: "vc_phase (sys_calls y i) = Published w \<Longrightarrow> commit_cache (sys_auth y) w = (p, s) \<Longrightarrow>
    auth_step mac argon2_verify compute_hash y (goto i p s y)"
| cancel_gated: "vc_phase (sys_calls y i) = Gated w \<or> vc_phase (sys_calls y i) = Committing w \<Longrightarrow>
    auth_step mac argon2_verify compute_hash y
      (goto i (Finished False) ((sys_auth y)\<lparr>claim_gates := (claim_gates (sys_auth y))(cw_name w := None)\<rparr>) y)"
| edit: "auth_step mac argon2_verify compute_hash y (y\<lparr>sys_disk := disk\<rparr>)"

end
