(* ===== verification/Hedged.thy ===== *)
theory Hedged
  imports ConnectError Clock
begin

text \<open>
  Hedged connecting, \<open>connect/proxy_connect/hedged.rs\<close>: a coordinator launches candidates in order, and the
  launched attempts race for a tunnel while one at a time talks to its upstream. A stretch of code between
  two suspension points is one operation; what the pool and the proxy answer is an argument of the operation
  that follows the wait.
\<close>

record hedge_options =
  hedge_delay :: duration
  hedge_handshake_timeout :: duration

definition default_hedge_options :: hedge_options where
  "default_hedge_options = \<lparr>hedge_delay = from_secs 2, hedge_handshake_timeout = from_secs 10\<rparr>"

definition with_hedge_delay :: "duration \<Rightarrow> hedge_options \<Rightarrow> hedge_options" where
  "with_hedge_delay d o' = o'\<lparr>hedge_delay := d\<rparr>"

definition hedge_with_handshake_timeout :: "duration \<Rightarrow> hedge_options \<Rightarrow> hedge_options" where
  "hedge_with_handshake_timeout d o' = o'\<lparr>hedge_handshake_timeout := d\<rparr>"

datatype attempt_outcome = Won | LateSuccess | Lost | Failed connect_error

datatype attempt_failure = AttemptLost | AttemptFailed connect_error

record attempt_report =
  ar_index :: nat
  ar_proxy :: proxy_config
  ar_outcome :: attempt_outcome
  ar_after_win :: bool

text \<open>Where a launched attempt is: taking a socket, waiting with it for the slot, talking to the proxy, done.\<close>

datatype attempt = Reaching | Queueing | Shaking | Settled "attempt_failure + unit"

datatype hedge_result = Racing | Hedged nat | HedgeError nat "connect_error option"

record hedge =
  candidates :: "proxy_config list"
  h_opts :: hedge_options
  won :: bool
  handshake_slot :: "nat option"
  attempts :: "attempt list"
  running :: "nat list"
  h_last :: "connect_error option"
  hedge_at :: "instant option"
  reports :: "attempt_report list"
  h_result :: hedge_result

definition hedge_start :: "proxy_config list \<Rightarrow> hedge_options \<Rightarrow> hedge" where
  "hedge_start cs opts =
     \<lparr>candidates = cs, h_opts = opts, won = False, handshake_slot = None, attempts = [], running = [], h_last = None,
      hedge_at = None, reports = [], h_result = (if cs = [] then HedgeError 0 None else Racing)\<rparr>"

subsection \<open>An attempt\<close>

definition settle :: "nat \<Rightarrow> attempt_failure + unit \<Rightarrow> hedge \<Rightarrow> hedge" where
  "settle i r y = y\<lparr>attempts := (attempts y)[i := Settled r]\<rparr>"

text \<open>The socket is there or the pool failed.\<close>

definition attempt_reached :: "nat \<Rightarrow> connect_error option \<Rightarrow> hedge \<Rightarrow> hedge" where
  "attempt_reached i failure y =
     (case failure of
        Some e \<Rightarrow> settle i (Err (AttemptFailed e)) y
      | None \<Rightarrow> if won y then settle i (Err AttemptLost) y else y\<lparr>attempts := (attempts y)[i := Queueing]\<rparr>)"

text \<open>The slot is given to it.\<close>

definition attempt_admitted :: "nat \<Rightarrow> hedge \<Rightarrow> hedge" where
  "attempt_admitted i y =
     (if won y then settle i (Err AttemptLost) y
      else y\<lparr>attempts := (attempts y)[i := Shaking], handshake_slot := Some i\<rparr>)"

text \<open>The handshake has ended; a success is published before the slot is free.\<close>

definition attempt_answered :: "nat \<Rightarrow> connect_error option \<Rightarrow> hedge \<Rightarrow> hedge" where
  "attempt_answered i failure y =
     (case failure of
        None \<Rightarrow> settle i (Ok ()) (y\<lparr>won := True, handshake_slot := None\<rparr>)
      | Some e \<Rightarrow> settle i (Err (AttemptFailed e)) (y\<lparr>handshake_slot := None\<rparr>))"

subsection \<open>The coordinator\<close>

definition pending_len :: "hedge \<Rightarrow> nat" where
  "pending_len y = length (candidates y) - length (attempts y)"

definition launch :: "hedge \<Rightarrow> hedge" where
  "launch y = y\<lparr>attempts := attempts y @ [Reaching], running := running y @ [length (attempts y)]\<rparr>"

definition hedge_deadline :: "hedge_options \<Rightarrow> nat \<Rightarrow> instant \<Rightarrow> instant option" where
  "hedge_deadline opts pending now =
     (if hedge_delay opts = 0 \<or> pending = 0 then None else instant_checked_add now (hedge_delay opts))"

text \<open>The head of the loop, when no attempt is under way.\<close>

definition hedge_top :: "instant \<Rightarrow> hedge \<Rightarrow> hedge" where
  "hedge_top now y =
     (if pending_len y = 0 then y\<lparr>h_result := HedgeError (length (attempts y)) (h_last y)\<rparr>
      else let z = launch y in z\<lparr>hedge_at := hedge_deadline (h_opts z) (pending_len z) now\<rparr>)"

definition add_report :: "nat \<Rightarrow> attempt_outcome \<Rightarrow> bool \<Rightarrow> hedge \<Rightarrow> hedge" where
  "add_report i out after y =
     y\<lparr>reports := reports y @ [\<lparr>ar_index = i, ar_proxy = candidates y ! i, ar_outcome = out, ar_after_win = after\<rparr>]\<rparr>"

definition hedge_join :: "nat \<Rightarrow> attempt_failure + unit \<Rightarrow> hedge \<Rightarrow> hedge" where
  "hedge_join i r y =
     (let y = y\<lparr>running := remove1 i (running y)\<rparr>
      in case r of
           Ok _ \<Rightarrow> (add_report i Won False (y\<lparr>won := True\<rparr>))\<lparr>h_result := Hedged i\<rparr>
         | Err (AttemptFailed e) \<Rightarrow> (add_report i (Failed e) False y)\<lparr>h_last := Some e\<rparr>
         | Err AttemptLost \<Rightarrow> add_report i Lost (won y) y)"

definition hedge_tick :: "instant \<Rightarrow> hedge \<Rightarrow> hedge" where
  "hedge_tick now y =
     (let y = y\<lparr>hedge_at := hedge_deadline (h_opts y) (pending_len y) now\<rparr>
      in if handshake_slot y = None then launch y else y)"

definition report :: "nat \<Rightarrow> attempt_failure + unit \<Rightarrow> bool \<Rightarrow> hedge \<Rightarrow> hedge" where
  "report i r after y =
     add_report i (case r of
         Ok _ \<Rightarrow> if after then LateSuccess else Won
       | Err AttemptLost \<Rightarrow> Lost
       | Err (AttemptFailed e) \<Rightarrow> Failed e) after y"

text \<open>After a win the other attempts are drained in the background.\<close>

definition hedge_drain :: "nat \<Rightarrow> attempt_failure + unit \<Rightarrow> hedge \<Rightarrow> hedge" where
  "hedge_drain i r y = report i r True (y\<lparr>running := remove1 i (running y)\<rparr>)"

inductive hedge_step :: "hedge \<Rightarrow> hedge \<Rightarrow> bool" where
  reached: "i < length (attempts y) \<Longrightarrow> attempts y ! i = Reaching \<Longrightarrow> hedge_step y (attempt_reached i f y)"
| admitted: "i < length (attempts y) \<Longrightarrow> attempts y ! i = Queueing \<Longrightarrow> handshake_slot y = None \<Longrightarrow> hedge_step y (attempt_admitted i y)"
| answered: "i < length (attempts y) \<Longrightarrow> attempts y ! i = Shaking \<Longrightarrow> hedge_step y (attempt_answered i f y)"
| top: "h_result y = Racing \<Longrightarrow> running y = [] \<Longrightarrow> hedge_step y (hedge_top now y)"
| join: "h_result y = Racing \<Longrightarrow> i \<in> set (running y) \<Longrightarrow> attempts y ! i = Settled r \<Longrightarrow> hedge_step y (hedge_join i r y)"
| tick: "h_result y = Racing \<Longrightarrow> running y \<noteq> [] \<Longrightarrow> hedge_delay (h_opts y) \<noteq> 0 \<Longrightarrow> 0 < pending_len y \<Longrightarrow>
    hedge_at y = Some at \<Longrightarrow> at \<le> now \<Longrightarrow> hedge_step y (hedge_tick now y)"
| drain: "h_result y = Hedged w \<Longrightarrow> i \<in> set (running y) \<Longrightarrow> attempts y ! i = Settled r \<Longrightarrow> hedge_step y (hedge_drain i r y)"

subsection \<open>Invariant\<close>

fun outcome_of :: "attempt_failure + unit \<Rightarrow> attempt_outcome" where
  "outcome_of (Inr _) = Won"
| "outcome_of (Inl AttemptLost) = Lost"
| "outcome_of (Inl (AttemptFailed e)) = Failed e"

definition succeeded :: "hedge \<Rightarrow> nat \<Rightarrow> bool" where
  "succeeded y i \<longleftrightarrow> i < length (attempts y) \<and> attempts y ! i = Settled (Ok ())"

definition race_inv :: "hedge \<Rightarrow> bool" where
  "race_inv y \<longleftrightarrow>
     (\<forall>i. handshake_slot y = Some i \<longleftrightarrow> i < length (attempts y) \<and> attempts y ! i = Shaking) \<and>
     (won y \<longleftrightarrow> (\<exists>i. succeeded y i)) \<and>
     (\<forall>i j. succeeded y i \<longrightarrow> succeeded y j \<longrightarrow> i = j) \<and>
     (won y \<longrightarrow> handshake_slot y = None) \<and>
     (\<forall>i < length (attempts y). attempts y ! i = Settled (Err AttemptLost) \<longrightarrow> won y)"

lemma race_invD:
  assumes "race_inv y"
  shows "j < length (attempts y) \<Longrightarrow> attempts y ! j = Shaking \<Longrightarrow> handshake_slot y = Some j"
    and "succeeded y j \<Longrightarrow> won y"
    and "j < length (attempts y) \<Longrightarrow> attempts y ! j = Settled (Err AttemptLost) \<Longrightarrow> won y"
    and "won y \<Longrightarrow> handshake_slot y = None"
proof -
  note i = assms [unfolded race_inv_def]
  show "j < length (attempts y) \<Longrightarrow> attempts y ! j = Shaking \<Longrightarrow> handshake_slot y = Some j" using i by simp
  show "succeeded y j \<Longrightarrow> won y" using i by auto
  show "j < length (attempts y) \<Longrightarrow> attempts y ! j = Settled (Err AttemptLost) \<Longrightarrow> won y" using i by auto
  show "won y \<Longrightarrow> handshake_slot y = None" using i by simp
qed

lemma race_inv_update:
  assumes "race_inv y" "i < length (attempts y)" "attempts y ! i = Reaching \<or> attempts y ! i = Queueing"
    and "attempts z = (attempts y)[i := a]" "won z = won y" "handshake_slot z = (if a = Shaking then Some i else handshake_slot y)"
    and "a \<noteq> Settled (Ok ())" "a = Settled (Err AttemptLost) \<Longrightarrow> won y" "a = Shaking \<Longrightarrow> handshake_slot y = None \<and> \<not> won y"
  shows "race_inv z"
proof -
  have nth: "attempts z ! j = (if j = i then a else attempts y ! j)" if "j < length (attempts y)" for j
    using that by (simp add: assms(4) nth_list_update)
  have succ: "succeeded z j \<longleftrightarrow> succeeded y j" for j
    using nth [of j] assms(2,3,7) by (auto simp: succeeded_def assms(4) nth_list_update)
  have slot: "handshake_slot z = Some j \<longleftrightarrow> j < length (attempts z) \<and> attempts z ! j = Shaking" for j
  proof -
    have "handshake_slot y = Some j \<longleftrightarrow> j < length (attempts y) \<and> attempts y ! j = Shaking"
      using assms(1) by (simp add: race_inv_def)
    then show ?thesis using nth [of j] assms(2,3,6,9) by (auto simp: assms(4) split: if_splits)
  qed
  have lost: "won y" if "j < length (attempts z)" "attempts z ! j = Settled (Err AttemptLost)" for j
    using that nth [of j] race_invD(3) [OF assms(1), of j] assms(8) by (auto simp: assms(4) split: if_splits)
  show ?thesis unfolding race_inv_def succ assms(5)
  proof (intro conjI)
    show "won y \<longrightarrow> handshake_slot z = None" using race_invD(4) [OF assms(1)] assms(6,9) by auto
  qed (use slot lost assms(1) in \<open>auto simp: race_inv_def\<close>)
qed

lemma race_inv_reached:
  assumes "race_inv y" "i < length (attempts y)" "attempts y ! i = Reaching"
  shows "race_inv (attempt_reached i f y)"
  using assms(3) unfolding attempt_reached_def
  by (auto simp: settle_def intro!: race_inv_update [OF assms(1,2)] split: option.splits)

lemma race_inv_admitted:
  assumes "race_inv y" "i < length (attempts y)" "attempts y ! i = Queueing" "handshake_slot y = None"
  shows "race_inv (attempt_admitted i y)"
  using assms(3,4) unfolding attempt_admitted_def
  by (auto simp: settle_def intro!: race_inv_update [OF assms(1,2)])

lemma race_inv_answered:
  assumes "race_inv y" "i < length (attempts y)" "attempts y ! i = Shaking"
  shows "race_inv (attempt_answered i f y)"
proof -
  have "handshake_slot y = Some i" "\<not> won y" using race_invD(1,4) [OF assms(1)] assms(2,3) by auto
  then have other: "j < length (attempts y) \<Longrightarrow> j \<noteq> i \<Longrightarrow>
      attempts y ! j \<noteq> Shaking \<and> attempts y ! j \<noteq> Settled (Ok ()) \<and> attempts y ! j \<noteq> Settled (Err AttemptLost)" for j
    using race_invD(1-3) [OF assms(1), of j] by (auto simp: succeeded_def)
  let ?z = "attempt_answered i f y"
  obtain r where z: "attempts ?z = (attempts y)[i := Settled r]" "handshake_slot ?z = None" "won ?z \<longleftrightarrow> f = None"
    and r: "r = Ok () \<longleftrightarrow> f = None" "r \<noteq> Err AttemptLost"
    using \<open>\<not> won y\<close> by (cases f) (auto simp: attempt_answered_def settle_def)
  have nth: "attempts ?z ! j = (if j = i then Settled r else attempts y ! j)" if "j < length (attempts y)" for j
    using that by (simp add: z(1) nth_list_update)
  have succ: "succeeded ?z j \<longleftrightarrow> j = i \<and> f = None" for j
  proof (cases "j = i")
    case True
    then show ?thesis using r(1) assms(2) nth [OF assms(2)] by (auto simp: succeeded_def z(1))
  next
    case False
    then show ?thesis using other [of j] nth [of j] by (auto simp: succeeded_def z(1))
  qed
  have "attempts ?z ! j \<noteq> Shaking \<and> attempts ?z ! j \<noteq> Settled (Err AttemptLost)" if "j < length (attempts y)" for j
    using nth [OF that] other [OF that] r(2) by auto
  then show ?thesis unfolding race_inv_def using succ z by auto
qed

lemma race_inv_cong:
  "attempts z = attempts y \<Longrightarrow> won z = won y \<Longrightarrow> handshake_slot z = handshake_slot y \<Longrightarrow> race_inv z = race_inv y"
  by (simp add: race_inv_def succeeded_def)

lemma race_inv_launch: "race_inv y \<Longrightarrow> race_inv (launch y)"
  unfolding launch_def race_inv_def succeeded_def by (auto simp: nth_append less_Suc_eq)

text \<open>The books: what is under way, what was reported, what is returned.\<close>

definition last_failure :: "attempt_report list \<Rightarrow> connect_error option" where
  "last_failure rs = fold (\<lambda>r l. case ar_outcome r of Failed e \<Rightarrow> Some e | _ \<Rightarrow> l) rs None"

definition report_true :: "hedge \<Rightarrow> attempt_report \<Rightarrow> bool" where
  "report_true y r \<longleftrightarrow> ar_proxy r = candidates y ! ar_index r \<and>
     (\<exists>x. attempts y ! ar_index r = Settled x \<and> ar_outcome r = outcome_of x)"

definition books_inv :: "hedge \<Rightarrow> bool" where
  "books_inv y \<longleftrightarrow>
     length (attempts y) \<le> length (candidates y) \<and>
     distinct (running y) \<and> set (running y) \<subseteq> {..<length (attempts y)} \<and>
     distinct (map ar_index (reports y)) \<and>
     (\<forall>i. i \<in> ar_index ` set (reports y) \<longleftrightarrow> i < length (attempts y) \<and> i \<notin> set (running y)) \<and>
     (\<forall>r \<in> set (reports y). report_true y r)"

definition result_inv :: "hedge \<Rightarrow> bool" where
  "result_inv y \<longleftrightarrow>
     (case h_result y of
        Racing \<Rightarrow> h_last y = last_failure (reports y) \<and> (\<forall>r \<in> set (reports y). ar_outcome r \<noteq> Won)
      | Hedged w \<Rightarrow> succeeded y w \<and> w \<notin> set (running y)
      | HedgeError k e \<Rightarrow> running y = [] \<and> k = length (candidates y) \<and> length (attempts y) = length (candidates y) \<and>
          e = last_failure (reports y) \<and> (\<forall>r \<in> set (reports y). ar_outcome r \<noteq> Won))"

lemma report_true_stays:
  "report_true y r \<Longrightarrow> i < length (attempts y) \<Longrightarrow> attempts y ! i \<noteq> attempts y ! ar_index r \<or> i \<noteq> ar_index r \<Longrightarrow>
    candidates z = candidates y \<Longrightarrow> attempts z = (attempts y)[i := a] \<Longrightarrow> report_true z r"
  by (cases "ar_index r = i") (auto simp: report_true_def nth_list_update)

text \<open>A step of an attempt that is not settled yet does not concern the books.\<close>

lemma books_attempt:
  assumes "books_inv y" "i < length (attempts y)" "\<And>x. attempts y ! i \<noteq> Settled x"
    and "candidates z = candidates y" "running z = running y" "reports z = reports y" "attempts z = (attempts y)[i := a]"
  shows "books_inv z"
proof -
  have "report_true z r" if r: "r \<in> set (reports y)" for r
  proof -
    have t: "report_true y r" using assms(1) r by (auto simp: books_inv_def)
    then have "ar_index r \<noteq> i" using assms(3) by (auto simp: report_true_def)
    then show ?thesis using report_true_stays [OF t assms(2) _ assms(4,7)] by auto
  qed
  then show ?thesis using assms unfolding books_inv_def by simp
qed

lemma result_attempt:
  assumes "result_inv y" "i < length (attempts y)" "\<And>x. attempts y ! i \<noteq> Settled x"
    and "candidates z = candidates y" "running z = running y" "reports z = reports y" "attempts z = (attempts y)[i := a]"
      "h_result z = h_result y" "h_last z = h_last y"
  shows "result_inv z"
  using assms unfolding result_inv_def succeeded_def
  by (auto simp: nth_list_update split: hedge_result.splits)

lemma attempt_steps_books:
  assumes "books_inv y" "i < length (attempts y)" "\<And>x. attempts y ! i \<noteq> Settled x"
  shows "books_inv (attempt_reached i f y)" "books_inv (attempt_admitted i y)" "books_inv (attempt_answered i f y)"
proof -
  note b = books_attempt [OF assms(1,2), OF assms(3)]
  show "books_inv (attempt_reached i f y)"
    unfolding attempt_reached_def settle_def by (auto intro!: b split: option.splits)
  show "books_inv (attempt_admitted i y)"
    unfolding attempt_admitted_def settle_def by (auto intro!: b)
  show "books_inv (attempt_answered i f y)"
    unfolding attempt_answered_def settle_def by (auto intro!: b split: option.splits)
qed

lemma attempt_steps_result:
  assumes "result_inv y" "i < length (attempts y)" "\<And>x. attempts y ! i \<noteq> Settled x"
  shows "result_inv (attempt_reached i f y)" "result_inv (attempt_admitted i y)" "result_inv (attempt_answered i f y)"
proof -
  note b = result_attempt [OF assms(1,2), OF assms(3)]
  show "result_inv (attempt_reached i f y)"
    unfolding attempt_reached_def settle_def by (auto intro!: b split: option.splits)
  show "result_inv (attempt_admitted i y)"
    unfolding attempt_admitted_def settle_def by (auto intro!: b)
  show "result_inv (attempt_answered i f y)"
    unfolding attempt_answered_def settle_def by (auto intro!: b split: option.splits)
qed

subsection \<open>The coordinator keeps the books\<close>

lemma books_cong:
  "candidates z = candidates y \<Longrightarrow> attempts z = attempts y \<Longrightarrow> running z = running y \<Longrightarrow> reports z = reports y \<Longrightarrow> books_inv z = books_inv y"
  by (simp add: books_inv_def report_true_def)

lemma books_launch:
  assumes "books_inv y" "0 < pending_len y"
  shows "books_inv (launch y)"
proof -
  have b: "length (attempts y) \<le> length (candidates y)" "distinct (running y)" "set (running y) \<subseteq> {..<length (attempts y)}"
    "distinct (map ar_index (reports y))"
    and c: "\<And>i. i \<in> ar_index ` set (reports y) \<longleftrightarrow> i < length (attempts y) \<and> i \<notin> set (running y)"
    and t: "\<And>r. r \<in> set (reports y) \<Longrightarrow> report_true y r"
    using assms(1) by (auto simp: books_inv_def)
  have old: "ar_index r < length (attempts y)" if "r \<in> set (reports y)" for r using c [of "ar_index r"] that by auto
  have "report_true (launch y) r" if "r \<in> set (reports y)" for r
    using t [OF that] old [OF that] by (auto simp: report_true_def launch_def nth_append)
  moreover have "i \<in> ar_index ` set (reports y) \<longleftrightarrow> i < length (attempts y) + 1 \<and> i \<notin> set (running y) \<and> i \<noteq> length (attempts y)" for i
    using c [of i] by auto
  moreover have "length (attempts y) \<notin> set (running y)" using b(3) by auto
  ultimately show ?thesis using assms(2) b by (auto simp: books_inv_def launch_def pending_len_def)
qed

lemma books_report:
  assumes "books_inv y" "i \<in> set (running y)" "attempts y ! i = Settled r"
    and "candidates z = candidates y" "attempts z = attempts y" "running z = remove1 i (running y)"
    and "reports z = reports y @ [\<lparr>ar_index = i, ar_proxy = candidates y ! i, ar_outcome = outcome_of r, ar_after_win = aft\<rparr>]"
  shows "books_inv z"
proof -
  have b: "length (attempts y) \<le> length (candidates y)" "distinct (running y)" "set (running y) \<subseteq> {..<length (attempts y)}"
    "distinct (map ar_index (reports y))"
    and c: "\<And>j. j \<in> ar_index ` set (reports y) \<longleftrightarrow> j < length (attempts y) \<and> j \<notin> set (running y)"
    and t: "\<And>r. r \<in> set (reports y) \<Longrightarrow> report_true y r"
    using assms(1) by (auto simp: books_inv_def)
  have run: "set (running z) = set (running y) - {i}" "distinct (running z)" using b(2) assms(6) by auto
  have i: "i < length (attempts y)" "i \<notin> ar_index ` set (reports y)" using assms(2) b(3) c by auto
  have "report_true z x" if "x \<in> set (reports z)" for x
    using that t [of x] assms(3) by (auto simp: assms(4,5,7) report_true_def)
  moreover have "j \<in> ar_index ` set (reports z) \<longleftrightarrow> j < length (attempts z) \<and> j \<notin> set (running z)" for j
    using c [of j] i assms(2) by (auto simp: assms(5,7) run(1))
  moreover have "distinct (map ar_index (reports z))" using b(4) i(2) by (simp add: assms(7))
  ultimately show ?thesis using b run unfolding books_inv_def assms(4,5) by auto
qed

lemma last_failure_snoc:
  "last_failure (rs @ [r]) = (case ar_outcome r of Failed e \<Rightarrow> Some e | _ \<Rightarrow> last_failure rs)"
  by (simp add: last_failure_def split: attempt_outcome.splits)

definition hedge_inv :: "hedge \<Rightarrow> bool" where
  "hedge_inv y \<longleftrightarrow> race_inv y \<and> books_inv y \<and> result_inv y"

lemma hedge_inv_top:
  assumes "hedge_inv y" "h_result y = Racing" "running y = []"
  shows "hedge_inv (hedge_top now y)"
proof (cases "pending_len y = 0")
  case True
  then have "length (attempts y) = length (candidates y)" using assms(1) by (simp add: hedge_inv_def books_inv_def pending_len_def)
  moreover have "race_inv (hedge_top now y) = race_inv y" "books_inv (hedge_top now y) = books_inv y"
    by (rule race_inv_cong books_cong; simp add: hedge_top_def True)+
  ultimately show ?thesis using assms True by (simp add: hedge_inv_def) (simp add: hedge_top_def result_inv_def)
next
  case False
  have "race_inv (launch y)" "books_inv (launch y)" using assms(1) False by (auto simp: hedge_inv_def race_inv_launch books_launch)
  moreover have "race_inv (hedge_top now y) = race_inv (launch y)" "books_inv (hedge_top now y) = books_inv (launch y)"
    by (rule race_inv_cong books_cong; simp add: hedge_top_def False Let_def)+
  moreover have "result_inv (hedge_top now y)" using assms False by (simp add: hedge_inv_def result_inv_def hedge_top_def launch_def Let_def)
  ultimately show ?thesis by (simp add: hedge_inv_def)
qed

lemma hedge_inv_tick:
  assumes "hedge_inv y" "h_result y = Racing" "0 < pending_len y"
  shows "hedge_inv (hedge_tick now y)"
proof -
  let ?y = "y\<lparr>hedge_at := hedge_deadline (h_opts y) (pending_len y) now\<rparr>"
  have "race_inv ?y = race_inv y" "books_inv ?y = books_inv y" by (rule race_inv_cong books_cong; simp)+
  then have y: "hedge_inv ?y" "0 < pending_len ?y" "h_result ?y = Racing"
    using assms by (simp_all add: hedge_inv_def result_inv_def pending_len_def)
  have "result_inv (launch ?y)" using y(1,3) by (simp add: hedge_inv_def result_inv_def launch_def)
  then have "hedge_inv (launch ?y)" using y race_inv_launch [of ?y] books_launch [of ?y] by (simp add: hedge_inv_def)
  then show ?thesis using y(1) by (simp add: hedge_tick_def Let_def)
qed

lemma hedge_inv_join:
  assumes "hedge_inv y" "h_result y = Racing" "i \<in> set (running y)" "attempts y ! i = Settled r"
  shows "hedge_inv (hedge_join i r y)"
proof -
  let ?z = "hedge_join i r y"
  have y: "race_inv y" "books_inv y" "result_inv y" using assms(1) by (auto simp: hedge_inv_def)
  have i: "i < length (attempts y)" using y(2) assms(3) by (auto simp: books_inv_def)
  have won: "won y" if "r = Ok ()" using race_invD(2) [OF y(1), of i] i assms(4) that by (simp add: succeeded_def)
  have f: "attempts ?z = attempts y" "candidates ?z = candidates y" "running ?z = remove1 i (running y)" "handshake_slot ?z = handshake_slot y"
    "won ?z = won y"
    using won by (auto simp: hedge_join_def Let_def add_report_def split: sum.splits attempt_failure.splits)
  have rep: "\<exists>aft. reports ?z = reports y @ [\<lparr>ar_index = i, ar_proxy = candidates y ! i, ar_outcome = outcome_of r, ar_after_win = aft\<rparr>]"
    by (cases r rule: outcome_of.cases) (auto simp: hedge_join_def Let_def add_report_def)
  have "race_inv ?z" using y(1) race_inv_cong [OF f(1,5,4)] by simp
  moreover have "books_inv ?z" using rep books_report [OF y(2) assms(3,4) f(2,1,3)] by blast
  moreover have "result_inv ?z"
  proof (cases r rule: outcome_of.cases)
    case (1 u)
    have "distinct (running y)" using y(2) by (simp add: books_inv_def)
    then show ?thesis using 1 i assms(4) by (simp add: result_inv_def hedge_join_def Let_def add_report_def succeeded_def)
  next
    case 2
    then show ?thesis using y(3) assms(2) by (simp add: result_inv_def hedge_join_def Let_def add_report_def last_failure_snoc)
  next
    case (3 e)
    then show ?thesis using y(3) assms(2) by (simp add: result_inv_def hedge_join_def Let_def add_report_def last_failure_snoc)
  qed
  ultimately show ?thesis by (simp add: hedge_inv_def)
qed

lemma hedge_inv_drain:
  assumes "hedge_inv y" "h_result y = Hedged w" "i \<in> set (running y)" "attempts y ! i = Settled r"
  shows "hedge_inv (hedge_drain i r y)"
proof -
  let ?z = "hedge_drain i r y"
  have y: "race_inv y" "books_inv y" "succeeded y w" "w \<notin> set (running y)" using assms(1,2) by (auto simp: hedge_inv_def result_inv_def)
  have i: "i < length (attempts y)" using y(2) assms(3) by (auto simp: books_inv_def)
  have "r \<noteq> Ok ()"
  proof
    assume "r = Ok ()"
    then have "succeeded y i" using i assms(4) by (simp add: succeeded_def)
    then have "i = w" using y(1,3) by (simp add: race_inv_def)
    then show False using y(4) assms(3) by simp
  qed
  then have rep: "reports ?z = reports y @ [\<lparr>ar_index = i, ar_proxy = candidates y ! i, ar_outcome = outcome_of r, ar_after_win = True\<rparr>]"
    by (cases r rule: outcome_of.cases) (auto simp: hedge_drain_def report_def add_report_def)
  have f: "attempts ?z = attempts y" "candidates ?z = candidates y" "running ?z = remove1 i (running y)" "handshake_slot ?z = handshake_slot y"
    "won ?z = won y" "h_result ?z = h_result y"
    by (simp_all add: hedge_drain_def report_def add_report_def)
  have "result_inv ?z" using assms(2) y(3,4) f set_remove1_subset [of i "running y"]
    by (auto simp: result_inv_def succeeded_def)
  then show ?thesis using y(1) race_inv_cong [OF f(1,5,4)] books_report [OF y(2) assms(3,4) f(2,1,3) rep]
    by (simp add: hedge_inv_def)
qed

lemma hedge_step_inv: "hedge_step y z \<Longrightarrow> hedge_inv y \<Longrightarrow> hedge_inv z"
proof (induction rule: hedge_step.induct)
  case (reached i y f)
  then show ?case by (simp add: hedge_inv_def race_inv_reached attempt_steps_books attempt_steps_result)
next
  case (admitted i y)
  then show ?case by (simp add: hedge_inv_def race_inv_admitted attempt_steps_books attempt_steps_result)
next
  case (answered i y f)
  then show ?case by (simp add: hedge_inv_def race_inv_answered attempt_steps_books attempt_steps_result)
next
  case (top y now)
  then show ?case by (simp add: hedge_inv_top)
next
  case (join y i r)
  then show ?case by (simp add: hedge_inv_join)
next
  case (tick y at now)
  then show ?case by (simp add: hedge_inv_tick)
next
  case (drain y w i r)
  then show ?case by (simp add: hedge_inv_drain)
qed

lemma hedge_inv_start: "hedge_inv (hedge_start cs opts)"
  by (simp add: hedge_inv_def race_inv_def books_inv_def result_inv_def hedge_start_def succeeded_def last_failure_def)

lemma hedge_reachable: "hedge_step\<^sup>*\<^sup>* (hedge_start cs opts) y \<Longrightarrow> hedge_inv y"
  by (induction rule: rtranclp_induct) (auto intro: hedge_inv_start hedge_step_inv)

lemma hedge_candidates: "hedge_step y z \<Longrightarrow> candidates z = candidates y"
  by (induction rule: hedge_step.induct)
    (auto simp: attempt_reached_def attempt_admitted_def attempt_answered_def settle_def hedge_top_def launch_def Let_def
      hedge_join_def add_report_def hedge_tick_def hedge_drain_def report_def split: option.splits sum.splits attempt_failure.splits)

lemma hedge_candidates_steps: "hedge_step\<^sup>*\<^sup>* (hedge_start cs opts) y \<Longrightarrow> candidates y = cs"
  by (induction rule: rtranclp_induct) (auto simp: hedge_start_def dest: hedge_candidates)

subsection \<open>The contract\<close>

text \<open>
  C24: in every interleaving of the attempts and the coordinator, at most one attempt talks to its proxy at any
  time and none does once a tunnel exists; at most one attempt ever succeeds, and an attempt gives up as
  lost only when another has succeeded. No success is ever thrown away: the outcome \<open>LateSuccess\<close> is never
  reported.
\<close>

theorem hedged_single_handshake:
  assumes "hedge_step\<^sup>*\<^sup>* (hedge_start cs opts) y"
  shows "(\<forall>i j. i < length (attempts y) \<and> j < length (attempts y) \<and> attempts y ! i = Shaking \<and> attempts y ! j = Shaking \<longrightarrow> i = j) \<and>
    (\<forall>i j. succeeded y i \<and> i < length (attempts y) \<and> j < length (attempts y) \<longrightarrow>
       attempts y ! j \<noteq> Shaking \<and> (succeeded y j \<longrightarrow> i = j)) \<and>
    (\<forall>i < length (attempts y). attempts y ! i = Settled (Err AttemptLost) \<longrightarrow> (\<exists>j. succeeded y j)) \<and>
    LateSuccess \<notin> ar_outcome ` set (reports y)"
proof -
  have inv: "race_inv y" "books_inv y" using hedge_reachable [OF assms] by (auto simp: hedge_inv_def)
  have no: "ar_outcome r \<noteq> LateSuccess" if "r \<in> set (reports y)" for r
  proof -
    have "report_true y r" using inv(2) that by (simp add: books_inv_def)
    then obtain x where "ar_outcome r = outcome_of x" unfolding report_true_def by blast
    then show ?thesis by (cases x rule: outcome_of.cases) auto
  qed
  then have "LateSuccess \<notin> ar_outcome ` set (reports y)" by force
  moreover have "i = j" if "succeeded y i" "succeeded y j" for i j using inv(1) that by (simp add: race_inv_def)
  moreover have "attempts y ! j \<noteq> Shaking" if "succeeded y i" "j < length (attempts y)" for i j
    using race_invD [OF inv(1)] that by fastforce
  moreover have "i = j" if "i < length (attempts y)" "j < length (attempts y)" "attempts y ! i = Shaking" "attempts y ! j = Shaking" for i j
    using race_invD(1) [OF inv(1) that(1,3)] race_invD(1) [OF inv(1) that(2,4)] by simp
  moreover have "\<exists>j. succeeded y j" if "i < length (attempts y)" "attempts y ! i = Settled (Err AttemptLost)" for i
    using race_invD(3) [OF inv(1) that] inv(1) by (simp add: race_inv_def)
  ultimately show ?thesis by auto
qed

text \<open>
  C25: candidates are launched in the order they are given, and each launched attempt is either still under
  way or has been reported exactly once, with its own outcome. A returned winner is the attempt that
  succeeded. An error is returned only when every candidate was launched, has ended and none succeeded; it
  carries their number and the failure reported last.
\<close>

theorem hedged_reports_and_result:
  assumes "hedge_step\<^sup>*\<^sup>* (hedge_start cs opts) y"
  shows "length (attempts y) \<le> length cs \<and> distinct (map ar_index (reports y)) \<and>
    (\<forall>i < length (attempts y). i \<in> set (running y) \<longleftrightarrow> i \<notin> ar_index ` set (reports y)) \<and>
    (\<forall>r \<in> set (reports y). ar_index r < length (attempts y) \<and> ar_proxy r = cs ! ar_index r \<and>
       (\<exists>x. attempts y ! ar_index r = Settled x \<and> ar_outcome r = outcome_of x)) \<and>
    (case h_result y of
       Racing \<Rightarrow> True
     | Hedged w \<Rightarrow> succeeded y w
     | HedgeError k e \<Rightarrow> k = length cs \<and> length (attempts y) = length cs \<and> e = last_failure (reports y) \<and>
         (\<forall>i < length cs. \<exists>r \<in> set (reports y). ar_index r = i \<and> (\<exists>x. ar_outcome r = Failed x)))"
proof -
  have inv: "race_inv y" "books_inv y" "result_inv y" using hedge_reachable [OF assms] by (auto simp: hedge_inv_def)
  have cs: "candidates y = cs" by (rule hedge_candidates_steps [OF assms])
  have b: "i \<in> ar_index ` set (reports y) \<longleftrightarrow> i < length (attempts y) \<and> i \<notin> set (running y)" for i
    using inv(2) by (simp add: books_inv_def)
  have t: "report_true y r" if "r \<in> set (reports y)" for r using inv(2) that by (simp add: books_inv_def)
  have fail: "\<exists>r \<in> set (reports y). ar_index r = i \<and> (\<exists>x. ar_outcome r = Failed x)"
    if e: "h_result y = HedgeError k e" and i: "i < length cs" for k e i
  proof -
    have run: "running y = []" "length (attempts y) = length cs" and nw: "\<forall>r \<in> set (reports y). ar_outcome r \<noteq> Won"
      using inv(3) e cs by (auto simp: result_inv_def)
    then obtain r where r: "r \<in> set (reports y)" "ar_index r = i" using b [of i] i by auto
    obtain x where x: "attempts y ! i = Settled x" "ar_outcome r = outcome_of x" using t [OF r(1)] r(2) by (auto simp: report_true_def)
    have nosucc: "\<not> succeeded y j" for j
    proof
      assume s: "succeeded y j"
      then have "j \<in> ar_index ` set (reports y)" using b [of j] run by (auto simp: succeeded_def)
      then obtain q where "q \<in> set (reports y)" "ar_index q = j" by auto
      then show False using t [of q] nw s by (auto simp: report_true_def succeeded_def)
    qed
    have "x \<noteq> Err AttemptLost" using race_invD(3) [OF inv(1), of i] inv(1) nosucc x(1) i run(2) by (auto simp: race_inv_def)
    moreover have "x \<noteq> Ok ()" using nosucc [of i] x(1) i run(2) by (auto simp: succeeded_def)
    ultimately show ?thesis using r x(2) by (cases x rule: outcome_of.cases) auto
  qed
  have old: "ar_index r < length (attempts y)" if "r \<in> set (reports y)" for r using b [of "ar_index r"] that by auto
  have "case h_result y of Racing \<Rightarrow> True | Hedged w \<Rightarrow> succeeded y w
     | HedgeError k e \<Rightarrow> k = length cs \<and> length (attempts y) = length cs \<and> e = last_failure (reports y) \<and>
         (\<forall>i < length cs. \<exists>r \<in> set (reports y). ar_index r = i \<and> (\<exists>x. ar_outcome r = Failed x))"
    using inv(3) fail cs by (auto simp: result_inv_def split: hedge_result.splits)
  moreover have "length (attempts y) \<le> length cs" "distinct (map ar_index (reports y))" using inv(2) cs by (auto simp: books_inv_def)
  ultimately show ?thesis using b old t cs by (auto simp: report_true_def)
qed

text \<open>
  The race cannot get stuck. As long as the call has not returned, or an attempt of it is still under way,
  some operation can run: the waits are for the network, for the slot, which its holder gives back, or for
  the coordinator.
\<close>

theorem hedged_never_stuck:
  assumes "hedge_step\<^sup>*\<^sup>* (hedge_start cs opts) y" "h_result y = Racing \<or> running y \<noteq> []"
  shows "\<exists>z. hedge_step y z"
proof -
  have inv: "race_inv y" "books_inv y" "result_inv y" using hedge_reachable [OF assms(1)] by (auto simp: hedge_inv_def)
  show ?thesis
  proof (cases "running y = []")
    case True
    then show ?thesis using assms(2) hedge_step.top by blast
  next
    case False
    then obtain i where i: "i \<in> set (running y)" by (cases "running y") auto
    then have l: "i < length (attempts y)" using inv(2) by (auto simp: books_inv_def)
    have res: "h_result y = Racing \<or> (\<exists>w. h_result y = Hedged w)"
      using False inv(3) by (cases "h_result y") (auto simp: result_inv_def)
    show ?thesis
    proof (cases "attempts y ! i")
      case Reaching
      then show ?thesis using hedge_step.reached [OF l] by blast
    next
      case Queueing
      show ?thesis
      proof (cases "handshake_slot y")
        case None
        then show ?thesis using hedge_step.admitted [OF l Queueing] by blast
      next
        case (Some j)
        then have "j < length (attempts y)" "attempts y ! j = Shaking" using inv(1) by (auto simp: race_inv_def)
        then show ?thesis using hedge_step.answered by blast
      qed
    next
      case Shaking
      then show ?thesis using hedge_step.answered [OF l] by blast
    next
      case (Settled r)
      then show ?thesis using res hedge_step.join [OF _ i] hedge_step.drain [OF _ i] by blast
    qed
  qed
qed

subsection \<open>Witnesses\<close>

text \<open>Two candidates: the first fails to connect, the second is launched and wins.\<close>

definition demo_pair :: "proxy_config list" where
  "demo_pair = [ProxyConfig Socks5 [97] 1 None None 0 False None, ProxyConfig Http [98] 2 None None 0 False None]"

definition demo_down :: connect_error where
  "demo_down = Timeout ConnectStage TcpConnect [97] 1"

definition demo_race :: hedge where
  "demo_race = hedge_join 1 (Ok ()) (attempt_answered 1 None (attempt_admitted 1 (attempt_reached 1 None (hedge_top 0
     (hedge_join 0 (Err (AttemptFailed demo_down)) (attempt_reached 0 (Some demo_down) (hedge_top 0
       (hedge_start demo_pair default_hedge_options))))))))"

lemmas demo_race_defs = hedge_start_def hedge_top_def launch_def pending_len_def hedge_deadline_def attempt_reached_def
  attempt_admitted_def attempt_answered_def settle_def hedge_join_def add_report_def demo_pair_def default_hedge_options_def
  instant_checked_add_def

lemma demo_race_run: "hedge_step\<^sup>*\<^sup>* (hedge_start demo_pair default_hedge_options) demo_race"
proof -
  let ?y0 = "hedge_start demo_pair default_hedge_options"
  let ?y1 = "hedge_top 0 ?y0" let ?y2 = "attempt_reached 0 (Some demo_down) ?y1"
  let ?y3 = "hedge_join 0 (Err (AttemptFailed demo_down)) ?y2" let ?y4 = "hedge_top 0 ?y3"
  let ?y5 = "attempt_reached 1 None ?y4" let ?y6 = "attempt_admitted 1 ?y5" let ?y7 = "attempt_answered 1 None ?y6"
  have "hedge_step ?y0 ?y1" by (rule hedge_step.top) (simp_all add: demo_race_defs)
  moreover have "hedge_step ?y1 ?y2" by (rule hedge_step.reached) (simp_all add: demo_race_defs)
  moreover have "hedge_step ?y2 ?y3" by (rule hedge_step.join) (simp_all add: demo_race_defs)
  moreover have "hedge_step ?y3 ?y4" by (rule hedge_step.top) (simp_all add: demo_race_defs)
  moreover have "hedge_step ?y4 ?y5" by (rule hedge_step.reached) (simp_all add: demo_race_defs)
  moreover have "hedge_step ?y5 ?y6" by (rule hedge_step.admitted) (simp_all add: demo_race_defs)
  moreover have "hedge_step ?y6 ?y7" by (rule hedge_step.answered) (simp_all add: demo_race_defs)
  moreover have "hedge_step ?y7 demo_race" unfolding demo_race_def by (rule hedge_step.join) (simp_all add: demo_race_defs)
  ultimately show ?thesis by (meson converse_rtranclp_into_rtranclp rtranclp.rtrancl_refl)
qed

theorem hedged_single_handshake_witness:
  "succeeded demo_race 1 \<and> attempts demo_race ! 0 \<noteq> Shaking \<and> LateSuccess \<notin> ar_outcome ` set (reports demo_race)"
proof -
  have s: "succeeded demo_race 1" "0 < length (attempts demo_race)" by (simp_all add: succeeded_def demo_race_def demo_race_defs)
  then have "1 < length (attempts demo_race)" by (simp add: succeeded_def)
  then show ?thesis using hedged_single_handshake [OF demo_race_run] s by blast
qed

theorem hedged_reports_and_result_witness:
  "h_result demo_race = Hedged 1 \<and> succeeded demo_race 1 \<and> map ar_outcome (reports demo_race) = [Failed demo_down, Won]"
proof -
  have "h_result demo_race = Hedged 1" "map ar_outcome (reports demo_race) = [Failed demo_down, Won]"
    by (simp_all add: demo_race_def demo_race_defs)
  then show ?thesis using hedged_reports_and_result [OF demo_race_run] by simp
qed

theorem hedged_never_stuck_witness: "\<exists>z. hedge_step (hedge_start demo_pair default_hedge_options) z"
  by (rule hedged_never_stuck [OF rtranclp.rtrancl_refl]) (simp add: hedge_start_def demo_pair_def)

end
