(* ===== verification/Establish.thy ===== *)
theory Establish
  imports Dial Hedged "HOL-Library.Monad_Syntax"
begin

text \<open>
  The routing of one request in the server binary, \<open>server/connect/establish_connection/dial.rs\<close> and
  \<open>route.rs\<close>: cached routes first, then chains through the gates, then single upstreams in a hedged race,
  within one budget of attempts. And the probing of quarantined gates through their prefix, \<open>probes.rs\<close>.

  The rotators live in a store, as in \<open>ChainPlan\<close>; the two exit rotators are a list. Arguments stand for what
  happens outside: \<open>dials n c\<close> is what \<open>connect_chain\<close> returns for the \<open>n\<close>-th attempt on the chain \<open>c\<close>,
  \<open>race ps\<close> is the state of the hedged race over \<open>ps\<close> when its caller has returned and its attempts have
  ended, \<open>clk n\<close> the clock after \<open>n\<close> attempts and \<open>banned\<close> the patterns. The chains dialled are kept in
  \<open>ro_dialed\<close> and the upstreams of the race in \<open>ro_raced\<close>, as the attempt lines of the log do. An outer \<open>None\<close> is a panic.
\<close>

record upstream_candidate =
  uc_rotator :: nat
  uc_proxy :: proxy_config
  uc_cached :: bool

datatype establish_error = BannedTarget | MaxAttemptsReached nat bytes | AllAttemptsFailed nat bytes

record routing =
  ro_store :: rotator_store
  ro_tried :: "proxy_config list"
  ro_attempts :: nat
  ro_plan :: "chain_plan option"
  ro_reserve :: nat
  ro_cands :: "upstream_candidate list"
  ro_dialed :: "proxy_config list"
  ro_raced :: "proxy_config list"

type_synonym dialer = "nat \<Rightarrow> proxy_config \<Rightarrow> chain_error + any_upstream"
type_synonym routed = "((establish_error + any_upstream) option \<times> routing) option"

definition routing_start :: "rotator_store \<Rightarrow> nat list \<Rightarrow> routing" where
  "routing_start st exits =
     \<lparr>ro_store = st, ro_tried = [], ro_attempts = 0, ro_plan = None,
      ro_reserve = (if list_ex (\<lambda>r. proxies (st r) \<noteq> []) exits then 1 else 0), ro_cands = [], ro_dialed = [],
      ro_raced = []\<rparr>"

definition on_rotator :: "nat \<Rightarrow> (rotator \<Rightarrow> rotator) \<Rightarrow> routing \<Rightarrow> routing" where
  "on_rotator r f y = y\<lparr>ro_store := (ro_store y)(r := f (ro_store y r))\<rparr>"

text \<open>A chain is dialled: it counts, and is not tried again.\<close>

definition spend :: "chain_pick \<Rightarrow> routing \<Rightarrow> routing" where
  "spend pick y =
     y\<lparr>ro_tried := key_insert (pick_key pick) (ro_tried y), ro_attempts := ro_attempts y + 1,
       ro_dialed := ro_dialed y @ [pick_key pick]\<rparr>"

subsection \<open>Cached routes\<close>

definition gates_quarantined :: "hashers \<Rightarrow> rotator_store \<Rightarrow> chain_pick \<Rightarrow> bool" where
  "gates_quarantined hs st pick =
     list_ex (\<lambda>h. rotator_is_quarantined (hs (hop_rotator h)) (st (hop_rotator h)) (hop_proxy h)) (butlast (hops pick))"

text \<open>The plan is built when a cached chain has failed, and is empty when the budget is spent.\<close>

definition plan_for_failure :: "gate_levels \<Rightarrow> nat list \<Rightarrow> nat \<Rightarrow> instant \<Rightarrow> routing \<Rightarrow> chain_plan \<times> routing" where
  "plan_for_failure gates exits budget now y =
     (case ro_plan y of
        Some p \<Rightarrow> (p, y)
      | None \<Rightarrow>
          if ro_attempts y + ro_reserve y < budget
          then (let (p, st) = chain_plan_new (ro_store y) gates exits now in (p, y\<lparr>ro_store := st\<rparr>))
          else (let (p, st) = chain_plan_new (ro_store y) [] [] now in (p, y\<lparr>ro_store := st\<rparr>)))"

definition cached_chain ::
  "hashers \<Rightarrow> gate_levels \<Rightarrow> nat list \<Rightarrow> nat \<Rightarrow> dialer \<Rightarrow> (nat \<Rightarrow> instant) \<Rightarrow> bytes \<Rightarrow> nat \<Rightarrow> chain_pick \<Rightarrow> routing \<Rightarrow> routed" where
  "cached_chain hs gates exits budget dials clk target r pick y =
     (if gates_quarantined hs (ro_store y) pick then Some (None, on_rotator r (\<lambda>x. unlink_proxy x target) y)
      else if key_mem (pick_key pick) (ro_tried y) then Some (None, y)
      else if budget \<le> ro_attempts y then Some (Some (Err (MaxAttemptsReached budget target)), y)
      else
        let y1 = spend pick y; now = clk (ro_attempts y1)
        in case dials (ro_attempts y1) (pick_key pick) of
             Ok u \<Rightarrow> Some (Some (Ok u), y1\<lparr>ro_store := pick_record_success hs (ro_store y1) pick now\<rparr>)
           | Err x \<Rightarrow>
               (let (p, y2) = plan_for_failure gates exits budget now y1
                in case chain_record_failure hs (ro_store y2) p pick (ce_stage x) (ce_error x) now of
                     None \<Rightarrow> None
                   | Some (_, p', st') \<Rightarrow>
                       Some (None, on_rotator r (\<lambda>x. unlink_proxy x target) (y2\<lparr>ro_store := st', ro_plan := Some p'\<rparr>))))"

definition cached_route ::
  "hashers \<Rightarrow> gate_levels \<Rightarrow> nat list \<Rightarrow> nat \<Rightarrow> dialer \<Rightarrow> (nat \<Rightarrow> instant) \<Rightarrow> bytes \<Rightarrow> nat \<Rightarrow> routing \<Rightarrow> routed" where
  "cached_route hs gates exits budget dials clk target r y =
     (let (hit, rot) = get_linked (hs r) (ro_store y r) target (clk (ro_attempts y));
          y = y\<lparr>ro_store := (ro_store y)(r := rot)\<rparr>
      in case hit of
           None \<Rightarrow> Some (None, y)
         | Some p \<Rightarrow>
             if pc_gate p = None then
               (if key_mem (singleton_key p) (ro_tried y) then Some (None, y)
                else
                  let cands = ro_cands y @ [\<lparr>uc_rotator = r, uc_proxy = p, uc_cached = True\<rparr>]
                  in Some (None, y\<lparr>ro_tried := key_insert (singleton_key p) (ro_tried y), ro_cands := cands,
                                   ro_reserve := max (ro_reserve y) (length cands)\<rparr>))
             else
               (case resolve (ro_store y) gates [r] p of
                  None \<Rightarrow> Some (None, on_rotator r (\<lambda>x. unlink_proxy x target) y)
                | Some pick \<Rightarrow> cached_chain hs gates exits budget dials clk target r pick y))"

fun cached_routes ::
  "hashers \<Rightarrow> gate_levels \<Rightarrow> nat list \<Rightarrow> nat \<Rightarrow> dialer \<Rightarrow> (nat \<Rightarrow> instant) \<Rightarrow> bytes \<Rightarrow> nat list \<Rightarrow> routing \<Rightarrow> routed" where
  "cached_routes hs gates exits budget dials clk target [] y = Some (None, y)"
| "cached_routes hs gates exits budget dials clk target (r # rs) y =
     (case cached_route hs gates exits budget dials clk target r y of
        None \<Rightarrow> None
      | Some (Some out, y1) \<Rightarrow> Some (Some out, y1)
      | Some (None, y1) \<Rightarrow> cached_routes hs gates exits budget dials clk target rs y1)"

subsection \<open>Chains through the gates\<close>

definition pick_exit :: "chain_pick \<Rightarrow> hop" where
  "pick_exit pick = last (hops pick)"

partial_function (option) gate_loop ::
  "hashers \<Rightarrow> nat \<Rightarrow> dialer \<Rightarrow> (nat \<Rightarrow> instant) \<Rightarrow> bytes \<Rightarrow> chain_plan \<Rightarrow> routing \<Rightarrow>
   ((establish_error + any_upstream) option \<times> routing) option" where
  "gate_loop hs budget dials clk target p y =
     (if budget \<le> ro_attempts y + ro_reserve y then Some (None, y\<lparr>ro_plan := Some p\<rparr>)
      else case next_pick p of
             None \<Rightarrow> None
           | Some (None, p1) \<Rightarrow> Some (None, y\<lparr>ro_plan := Some p1\<rparr>)
           | Some (Some pick, p1) \<Rightarrow>
               if key_mem (pick_key pick) (ro_tried y) then gate_loop hs budget dials clk target p1 y
               else
                 let y1 = spend pick y; now = clk (ro_attempts y1)
                 in case dials (ro_attempts y1) (pick_key pick) of
                      Ok u \<Rightarrow>
                        Some (Some (Ok u), on_rotator (hop_rotator (pick_exit pick)) (\<lambda>x. link_proxy x target (pick_key pick) now)
                                (y1\<lparr>ro_store := pick_record_success hs (ro_store y1) pick now, ro_plan := Some p1\<rparr>))
                    | Err x \<Rightarrow>
                        (case chain_record_failure hs (ro_store y1) p1 pick (ce_stage x) (ce_error x) now of
                           None \<Rightarrow> None
                         | Some (_, p2, st') \<Rightarrow> gate_loop hs budget dials clk target p2 (y1\<lparr>ro_store := st'\<rparr>)))"

definition gate_routes ::
  "hashers \<Rightarrow> gate_levels \<Rightarrow> nat list \<Rightarrow> nat \<Rightarrow> dialer \<Rightarrow> (nat \<Rightarrow> instant) \<Rightarrow> bytes \<Rightarrow> routing \<Rightarrow> routed" where
  "gate_routes hs gates exits budget dials clk target y =
     (if gates = [] \<or> budget \<le> ro_attempts y + ro_reserve y then Some (None, y)
      else case ro_plan y of
             Some p \<Rightarrow> gate_loop hs budget dials clk target p y
           | None \<Rightarrow>
               (let (p, st) = chain_plan_new (ro_store y) gates exits (clk (ro_attempts y))
                in gate_loop hs budget dials clk target p (y\<lparr>ro_store := st, ro_plan := Some p\<rparr>)))"

subsection \<open>Single upstreams\<close>

fun queue_direct :: "nat \<Rightarrow> nat \<Rightarrow> proxy_config list \<Rightarrow> routing \<Rightarrow> routing" where
  "queue_direct budget r [] y = y"
| "queue_direct budget r (p # ps) y =
     (if key_mem (singleton_key p) (ro_tried y) then queue_direct budget r ps y
      else if budget \<le> ro_attempts y + length (ro_cands y) then y
      else queue_direct budget r ps
             (y\<lparr>ro_tried := key_insert (singleton_key p) (ro_tried y),
                ro_cands := ro_cands y @ [\<lparr>uc_rotator = r, uc_proxy = p, uc_cached = False\<rparr>]\<rparr>))"

fun direct_routes :: "nat \<Rightarrow> instant \<Rightarrow> nat list \<Rightarrow> routing \<Rightarrow> routing" where
  "direct_routes budget now [] y = y"
| "direct_routes budget now (r # rs) y =
     (if budget \<le> ro_attempts y + length (ro_cands y) then y
      else
        let (ps, rot) = pick_order (ro_store y r) now
        in direct_routes budget now rs (queue_direct budget r ps (y\<lparr>ro_store := (ro_store y)(r := rot)\<rparr>)))"

definition record_proxy_failure :: "hashers \<Rightarrow> nat \<Rightarrow> proxy_config \<Rightarrow> connect_error \<Rightarrow> instant \<Rightarrow> rotator_store \<Rightarrow> rotator_store" where
  "record_proxy_failure hs r p e now st =
     (if \<not> counts_against_upstream e then st else st(r := snd (record_error (hs r) (st r) p e now)))"

definition report_attempt ::
  "hashers \<Rightarrow> bytes \<Rightarrow> instant \<Rightarrow> upstream_candidate \<Rightarrow> attempt_report \<Rightarrow> rotator_store \<Rightarrow> rotator_store" where
  "report_attempt hs target now c rep st =
     (let r = uc_rotator c; p = uc_proxy c
      in case ar_outcome rep of
           Won \<Rightarrow>
             (let st = st(r := record_success (hs r) (st r) p now)
              in if \<not> ar_after_win rep \<and> uc_cached c then st
                 else if \<not> ar_after_win rep then st(r := link_proxy (st r) target p now)
                 else st)
         | LateSuccess \<Rightarrow> st(r := record_success (hs r) (st r) p now)
         | Lost \<Rightarrow> st
         | Failed e \<Rightarrow>
             (let st = (if uc_cached c \<and> \<not> ar_after_win rep then st(r := unlink_proxy (st r) target) else st)
              in if counts_against_upstream e then record_proxy_failure hs r p e now st else st))"

definition direct_race ::
  "hashers \<Rightarrow> nat \<Rightarrow> (proxy_config list \<Rightarrow> hedge \<times> any_upstream) \<Rightarrow> (nat \<Rightarrow> instant) \<Rightarrow> bytes \<Rightarrow> routing \<Rightarrow>
   (establish_error + any_upstream) \<times> routing" where
  "direct_race hs budget race clk target y =
     (let cands = take (budget - ro_attempts y) (ro_cands y);
          (h, u) = race (map uc_proxy cands);
          st = fold (\<lambda>rep. report_attempt hs target (clk (ro_attempts y)) (cands ! ar_index rep) rep) (reports h) (ro_store y)
      in (case h_result h of
            HedgeError k _ \<Rightarrow> Err (AllAttemptsFailed (ro_attempts y + k) target)
          | _ \<Rightarrow> Ok u,
          y\<lparr>ro_store := st, ro_cands := cands, ro_raced := map uc_proxy cands\<rparr>))"

subsection \<open>A request\<close>

text \<open>Every request first claims the due probes of the inner gates; the probes themselves run in the background.\<close>

fun spawn_chain_probes :: "gate_levels \<Rightarrow> instant \<Rightarrow> rotator_store \<Rightarrow> (byte \<times> nat \<times> proxy_config) list \<times> rotator_store" where
  "spawn_chain_probes [] now st = ([], st)"
| "spawn_chain_probes ((rank, r) # ls) now st =
     (let (ps, rot) = take_probes (st r) now; (qs, st') = spawn_chain_probes ls now (st(r := rot))
      in (map (\<lambda>p. (rank, r, p)) ps @ qs, st'))"

definition establish_connection ::
  "hashers \<Rightarrow> (bytes \<Rightarrow> bool) \<Rightarrow> gate_levels \<Rightarrow> nat list \<Rightarrow> nat \<Rightarrow> dialer \<Rightarrow> (proxy_config list \<Rightarrow> hedge \<times> any_upstream) \<Rightarrow>
   (nat \<Rightarrow> instant) \<Rightarrow> bytes \<Rightarrow> rotator_store \<Rightarrow> ((establish_error + any_upstream) \<times> routing) option" where
  "establish_connection hs banned gates exits budget dials race clk target st =
     (if banned target then Some (Err BannedTarget, routing_start st exits)
      else case cached_routes hs gates exits budget dials clk target exits
                  (routing_start (snd (spawn_chain_probes (tl gates) (clk 0) st)) exits) of
             None \<Rightarrow> None
           | Some (Some out, y) \<Rightarrow> Some (out, y)
           | Some (None, y) \<Rightarrow>
               (case gate_routes hs gates exits budget dials clk target y of
                  None \<Rightarrow> None
                | Some (Some out, y) \<Rightarrow> Some (out, y)
                | Some (None, y) \<Rightarrow>
                    Some (direct_race hs budget race clk target (direct_routes budget (clk (ro_attempts y)) exits y))))"

subsection \<open>Probing gates\<close>

datatype probe_verdict = HardFailure | Inconclusive

definition classify_probe_error :: "chain_stage \<Rightarrow> connect_error \<Rightarrow> probe_verdict" where
  "classify_probe_error stage e =
     (case stage of StageTarget \<Rightarrow> (case e of ProxyRejected _ _ _ \<Rightarrow> HardFailure | _ \<Rightarrow> Inconclusive) | _ \<Rightarrow> Inconclusive)"

definition dur_saturating_add :: "duration \<Rightarrow> duration \<Rightarrow> duration" where
  "dur_saturating_add a b = min (a + b) duration_max"

definition probe_deadline :: "duration \<Rightarrow> duration \<Rightarrow> nat \<Rightarrow> duration" where
  "probe_deadline ct hs depth = dur_saturating_add ct (dur_saturating_mul hs (min (depth + 1) (2 ^ 32 - 1)))"

definition PROBE_LEASE_MARGIN :: duration where
  "PROBE_LEASE_MARGIN = from_secs 5"

definition probe_lease :: "duration \<Rightarrow> duration \<Rightarrow> nat \<Rightarrow> duration" where
  "probe_lease ct hs depth = dur_saturating_add (probe_deadline ct hs depth) PROBE_LEASE_MARGIN"

text \<open>The outermost healthy nodes above a rank; \<open>None\<close> when a level has none, or there is no level above.\<close>

fun prefix_nodes :: "hashers \<Rightarrow> gate_levels \<Rightarrow> byte \<Rightarrow> instant \<Rightarrow> rotator_store \<Rightarrow> proxy_config list option \<times> rotator_store" where
  "prefix_nodes hs [] rank now st = (Some [], st)"
| "prefix_nodes hs ((lr, r) # ls) rank now st =
     (if lr = rank then (Some [], st)
      else if rank < lr then
        (let (ps, rot) = pick_order (st r) now; st1 = st(r := rot)
         in case List.find (\<lambda>p. \<not> rotator_is_quarantined (hs r) (st1 r) p) ps of
              None \<Rightarrow> (None, st1)
            | Some p \<Rightarrow> apfst (map_option (Cons p)) (prefix_nodes hs ls rank now st1))
      else prefix_nodes hs ls rank now st)"

definition healthy_prefix :: "hashers \<Rightarrow> gate_levels \<Rightarrow> byte \<Rightarrow> instant \<Rightarrow> rotator_store \<Rightarrow> proxy_config option \<times> rotator_store" where
  "healthy_prefix hs gates rank now st =
     apfst (\<lambda>ns. Option.bind ns proxy_chain) (prefix_nodes hs gates rank now st)"

definition probe_outcome :: "hashers \<Rightarrow> nat \<Rightarrow> proxy_config \<Rightarrow> bool \<Rightarrow> instant \<Rightarrow> rotator_store \<Rightarrow> rotator_store" where
  "probe_outcome hs r p success now st =
     (if success then st(r := record_success (hs r) (st r) p now)
      else st(r := snd (record_hard_failure (hs r) (st r) p now)))"

definition probe_budget :: "duration \<Rightarrow> duration \<Rightarrow> nat \<Rightarrow> duration" where
  "probe_budget ct hst depth = probe_deadline ct hst depth - from_secs 1"

text \<open>What a probe does with the result of its attempt: a result that comes with or after the end of its lease
  is discarded.\<close>

definition probe_settle ::
  "hashers \<Rightarrow> nat \<Rightarrow> proxy_config \<Rightarrow> (chain_error + any_upstream) option \<Rightarrow> instant \<Rightarrow> instant \<Rightarrow> rotator_store \<Rightarrow> rotator_store" where
  "probe_settle hs r p attempt now lease_end st =
     (if lease_end \<le> now then st
      else case attempt of
             Some (Ok _) \<Rightarrow> probe_outcome hs r p True now st
           | Some (Err x) \<Rightarrow>
               if classify_probe_error (ce_stage x) (ce_error x) = HardFailure then probe_outcome hs r p False now st else st
           | None \<Rightarrow> st)"

text \<open>The probe of an upstream of the rotator \<open>r\<close> at a level, claimed at \<open>claimed\<close> and begun at \<open>start\<close>: \<open>permit\<close> is
  whether the pool gave it a slot, and \<open>run prefix deadline\<close> the result of its attempt, \<open>None\<close> when the deadline
  came first, and the time at which it came. The outer \<open>None\<close> is the panic of an instant out of range.\<close>

definition chain_probe ::
  "hashers \<Rightarrow> gate_levels \<Rightarrow> byte \<Rightarrow> duration \<Rightarrow> duration \<Rightarrow> instant \<Rightarrow> instant \<Rightarrow> bool \<Rightarrow>
   (proxy_config \<Rightarrow> instant \<Rightarrow> (chain_error + any_upstream) option \<times> instant) \<Rightarrow> nat \<Rightarrow> proxy_config \<Rightarrow> rotator_store \<Rightarrow> rotator_store option" where
  "chain_probe hs gates rank ct hst claimed start permit run r p st =
     (case healthy_prefix hs gates rank start st of
        (None, st1) \<Rightarrow> Some st1
      | (Some prefix, st1) \<Rightarrow>
          do {
            deadline \<leftarrow> instant_checked_add claimed (probe_budget ct hst (length (nodes prefix)));
            lease_end \<leftarrow> instant_checked_add claimed (probe_lease ct hst (length gates));
            Some (if permit then (let (attempt, now) = run prefix deadline in probe_settle hs r p attempt now lease_end st1) else st1)
          })"

end
