(* ===== verification/Handle.thy ===== *)
theory Handle
  imports Recovery Server Auth Establish
begin

text \<open>
  What the server does with one client, \<open>server/handle\<close>, \<open>http_proxy/handle_http_client\<close> and
  \<open>server/connect/establish_direct.rs\<close>: the address filters, the request, the way to the target and the replies. A
  handler is a program over the client's stream; its questions are those of the host: the verdict of \<open>verify_async\<close>,
  the remaining budget, a slot of the direct limiter, the races of the recovery and the result of \<open>set_nodelay\<close>.
  \<open>pool n t\<close> is what the \<open>n\<close>-th call of \<open>establish_connection\<close> gives for the target \<open>t\<close>, \<open>direct t\<close> the result of the
  plain connect, \<open>None\<close> at its timeout, and \<open>greeting\<close> the first read of a speculative upstream. A handler ends
  with the job it hands to \<open>forward_tunnel\<close>, if any.
\<close>

datatype host_query = HVerify credentials | HBudget | HDirectSlot | HRace race_query | HNodelay

text \<open>The credential check of the server: an address that a user may not use never reaches \<open>verify_async\<close>.\<close>

primrec on_accept :: "(credentials \<Rightarrow> bool) \<Rightarrow> (server_query, 'a) prog \<Rightarrow> (host_query, 'a) prog" where
  "on_accept allow (Ret a) = Ret a"
| "on_accept allow (WriteAll bs k) = WriteAll bs (\<lambda>r. on_accept allow (k r))"
| "on_accept allow (Flush k) = Flush (\<lambda>r. on_accept allow (k r))"
| "on_accept allow (Read n k) = Read n (\<lambda>r. on_accept allow (k r))"
| "on_accept allow (ReadExact n k) = ReadExact n (\<lambda>r. on_accept allow (k r))"
| "on_accept allow (Peek n k) = Peek n (\<lambda>r. on_accept allow (k r))"
| "on_accept allow (Ask q k) =
     (case q of
        Verify c \<Rightarrow> if allow c then Ask (HVerify c) (\<lambda>b. on_accept allow (k b)) else on_accept allow (k False)
      | BudgetLeft \<Rightarrow> Ask HBudget (\<lambda>b. on_accept allow (k b)))"

primrec on_race :: "(race_query, 'a) prog \<Rightarrow> (host_query, 'a) prog" where
  "on_race (Ret a) = Ret a"
| "on_race (WriteAll bs k) = WriteAll bs (\<lambda>r. on_race (k r))"
| "on_race (Flush k) = Flush (\<lambda>r. on_race (k r))"
| "on_race (Read n k) = Read n (\<lambda>r. on_race (k r))"
| "on_race (ReadExact n k) = ReadExact n (\<lambda>r. on_race (k r))"
| "on_race (Peek n k) = Peek n (\<lambda>r. on_race (k r))"
| "on_race (Ask q k) = Ask (HRace q) (\<lambda>b. on_race (k b))"

datatype direct_error = DirectBanned | DirectConnect io_error | DirectTimeout

datatype handle_error =
    IpRejected | InServer server_error | InIo io_error | NotEstablished establish_error | NotDirect direct_error | NodelayFailed

record tunnel_job =
  tj_direct :: bool
  tj_user :: "bytes option"
  tj_target :: bytes
  tj_upstream :: any_upstream
  tj_initial :: bytes

datatype handled = Dropped | Tunnelled tunnel_job

type_synonym handler = "(host_query, handle_error + handled) prog"
type_synonym dial_pool = "nat \<Rightarrow> bytes \<Rightarrow> establish_error + any_upstream"
type_synonym dial_direct = "bytes \<Rightarrow> (io_error + conn) option"

record handle_config =
  hc_banned :: "bytes \<Rightarrow> bool"
  hc_recover :: bool
  hc_fragment :: bool

definition establish_direct :: "(bytes \<Rightarrow> bool) \<Rightarrow> dial_direct \<Rightarrow> bytes \<Rightarrow> direct_error + any_upstream" where
  "establish_direct banned direct target =
     (if banned target then Err DirectBanned
      else case direct target of
             Some (Ok c) \<Rightarrow> Ok (DirectUpstream c)
           | Some (Err e) \<Rightarrow> Err (DirectConnect e)
           | None \<Rightarrow> Err DirectTimeout)"

definition ipv4_literal_port :: "bytes \<Rightarrow> bytes option" where
  "ipv4_literal_port target =
     Option.bind (rsplit_once COLON target) (\<lambda>(host, port). if parse_ipv4 host \<noteq> None then Some port else None)"

subsection \<open>Pieces of a handler\<close>

text \<open>A reply whose own failure does not matter.\<close>

definition refuse :: "incoming_request \<Rightarrow> reply \<Rightarrow> handle_error + handled \<Rightarrow> handler" where
  "refuse rq rep res = prog_bind (send_reply rq rep) (\<lambda>_. Ret res)"

definition refusal :: "handle_config \<Rightarrow> bytes \<Rightarrow> reply" where
  "refusal cfg target = (if hc_banned cfg target then Forbidden else UpstreamUnavailable)"

definition start_tunnel :: "handle_config \<Rightarrow> tunnel_job \<Rightarrow> handler" where
  "start_tunnel cfg job =
     (if hc_fragment cfg
      then Ask HNodelay (\<lambda>done. if done then Ret (Ok (Tunnelled job)) else Ret (Err NodelayFailed))
      else Ret (Ok (Tunnelled job)))"

definition establish_and_tunnel :: "handle_config \<Rightarrow> incoming_request \<Rightarrow> tunnel_job \<Rightarrow> handler" where
  "establish_and_tunnel cfg rq job =
     prog_bind (send_reply rq Established) (\<lambda>r. case r of Err e \<Rightarrow> Ret (Err (InServer e)) | Ok _ \<Rightarrow> start_tunnel cfg job)"

text \<open>The request is answered before the target is known; later failures cannot be reported any more.\<close>

definition recover_from :: "handle_config \<Rightarrow> dial_pool \<Rightarrow> io_error + bytes \<Rightarrow> incoming_request \<Rightarrow> bytes \<Rightarrow> bytes \<Rightarrow> handler" where
  "recover_from cfg pool greeting rq port pipelined =
     (let target = rq_target rq; user = rq_username rq
      in Ask HBudget (\<lambda>budget. if \<not> budget then Ret (Err (InServer Deadline)) else
         prog_bind (send_reply rq Established) (\<lambda>r. case r of Err e \<Rightarrow> Ret (Err (InServer e)) | Ok _ \<Rightarrow>
         prog_bind (on_race (peek_recovery pipelined (pool 0 target) greeting)) (\<lambda>p. case p of
             Err e \<Rightarrow> Ret (Err (InIo e))
           | Ok ClientClosed \<Rightarrow> Ret (Ok Dropped)
           | Ok (ServerFirst u banner) \<Rightarrow>
               WriteAll banner (\<lambda>w. case w of Err e \<Rightarrow> Ret (Err (InIo e)) | Ok _ \<Rightarrow>
                 start_tunnel cfg \<lparr>tj_direct = False, tj_user = user, tj_target = target, tj_upstream = u, tj_initial = []\<rparr>)
           | Ok (PeekClient buf) \<Rightarrow>
               (let t = effective_target target port buf
                in case pool 1 t of
                     Err e \<Rightarrow> Ret (Err (NotEstablished e))
                   | Ok u \<Rightarrow> start_tunnel cfg \<lparr>tj_direct = False, tj_user = user, tj_target = t, tj_upstream = u, tj_initial = buf\<rparr>)))))"

text \<open>The two handlers differ in the bytes they have when the recovery begins: a SOCKS5 request leaves none.\<close>

definition recover_and_tunnel :: "handle_config \<Rightarrow> dial_pool \<Rightarrow> io_error + bytes \<Rightarrow> incoming_request \<Rightarrow> bytes \<Rightarrow> handler" where
  "recover_and_tunnel cfg pool greeting rq port = recover_from cfg pool greeting rq port []"

definition recover_and_tunnel_http :: "handle_config \<Rightarrow> dial_pool \<Rightarrow> io_error + bytes \<Rightarrow> incoming_request \<Rightarrow> bytes \<Rightarrow> bytes \<Rightarrow> handler" where
  "recover_and_tunnel_http cfg pool greeting rq port pipelined = recover_from cfg pool greeting rq port pipelined"

definition handle_request ::
  "handle_config \<Rightarrow> auth_state \<Rightarrow> dial_pool \<Rightarrow> dial_direct \<Rightarrow> (bytes \<Rightarrow> handler) \<Rightarrow> incoming_request \<Rightarrow> bytes \<Rightarrow> handler" where
  "handle_request cfg auth pool direct recover rq pipeline =
     (let target = rq_target rq; user = rq_username rq;
          direct_user = (case user of Some u \<Rightarrow> is_direct auth u | None \<Rightarrow> False)
      in if direct_user then
           Ask HDirectSlot (\<lambda>slot. if \<not> slot then refuse rq Overloaded (Ok Dropped)
             else case establish_direct (hc_banned cfg) direct target of
                    Err e \<Rightarrow> refuse rq (refusal cfg target) (Err (NotDirect e))
                  | Ok u \<Rightarrow> establish_and_tunnel cfg rq
                      \<lparr>tj_direct = True, tj_user = user, tj_target = target, tj_upstream = u, tj_initial = pipeline\<rparr>)
         else case (if hc_recover cfg then ipv4_literal_port target else None) of
                Some port \<Rightarrow> recover port
              | None \<Rightarrow>
                  (case pool 0 target of
                     Err e \<Rightarrow> refuse rq (refusal cfg target) (Err (NotEstablished e))
                   | Ok u \<Rightarrow> establish_and_tunnel cfg rq
                       \<lparr>tj_direct = False, tj_user = user, tj_target = target, tj_upstream = u, tj_initial = pipeline\<rparr>))"

subsection \<open>The handlers\<close>

definition handle_socks5_client ::
  "handle_config \<Rightarrow> auth_state \<Rightarrow> dial_pool \<Rightarrow> dial_direct \<Rightarrow> io_error + bytes \<Rightarrow> incoming_request \<Rightarrow> handler" where
  "handle_socks5_client cfg auth pool direct greeting rq =
     (let (pipeline, rq) = take_pipeline rq in handle_request cfg auth pool direct (recover_and_tunnel cfg pool greeting rq) rq pipeline)"

definition handle_http_client ::
  "handle_config \<Rightarrow> auth_state \<Rightarrow> dial_pool \<Rightarrow> dial_direct \<Rightarrow> io_error + bytes \<Rightarrow> incoming_request \<Rightarrow> handler" where
  "handle_http_client cfg auth pool direct greeting rq =
     (let (pipeline, rq) = take_pipeline rq in handle_request cfg auth pool direct
       (\<lambda>port. recover_and_tunnel_http cfg pool greeting rq port pipeline) rq pipeline)"

definition global_allowed :: "ip_addr option \<Rightarrow> allowed_clients option \<Rightarrow> bool" where
  "global_allowed peer rule =
     (case rule of
        None \<Rightarrow> True
      | Some r \<Rightarrow> (case peer of None \<Rightarrow> False | Some ip \<Rightarrow> allowed_matches r ip))"

definition auth_is_empty :: "auth_state \<Rightarrow> bool" where
  "auth_is_empty auth \<longleftrightarrow> as_entries auth = Map.empty"

definition handle_client ::
  "(bytes \<Rightarrow> bytes option) \<Rightarrow> handle_config \<Rightarrow> auth_state \<Rightarrow> allowed_clients option \<Rightarrow> ip_addr option \<Rightarrow> dial_pool \<Rightarrow> dial_direct \<Rightarrow>
   io_error + bytes \<Rightarrow> handler" where
  "handle_client decode cfg auth rule peer pool direct greeting =
     (if \<not> global_allowed peer rule then Ret (Err IpRejected)
      else prog_bind
        (on_accept (\<lambda>c. client_ip_allowed auth (cr_username c) peer)
          (accept decode (server_options_new (as_anonymous auth) (\<not> auth_is_empty auth))))
        (\<lambda>r. case r of
           Err e \<Rightarrow> Ret (Err (InServer e))
         | Ok rq \<Rightarrow>
             (case rq_protocol rq of
                SrvSocks5 \<Rightarrow> handle_socks5_client cfg auth pool direct greeting rq
              | SrvHttp \<Rightarrow> handle_http_client cfg auth pool direct greeting rq)))"

end
