(* ===== verification/ServerSpec.thy ===== *)
theory ServerSpec
  imports Server
begin

text \<open>Correctness of the inbound framing.\<close>

subsection \<open>Targets\<close>

lemma be16_pairs: "length (pair_bytes bs) = length bs div 2"
  by (induction bs rule: pair_bytes.induct) auto

lemma fmt_ipv4_host: "COLON \<notin> set (fmt_ipv4 ip) \<and> LBRACKET \<notin> set (fmt_ipv4 ip)"
proof -
  have "set (join_with [DOT] (map (\<lambda>o'. radix_str 10 (unat o')) ip)) \<subseteq>
      {DOT} \<union> (\<Union>o' \<in> set ip. set (radix_str 10 (unat (o' :: byte))))"
    by (induction ip rule: induct_list012) auto
  then show ?thesis
    using radix_str_special [of COLON 10] radix_str_special [of LBRACKET 10] by (auto simp: fmt_ipv4_def)
qed

lemma ipv4_target:
  assumes "length ip = 4"
  shows "host_port_parse (fmt_ipv4 ip @ [COLON] @ fmt_u16 p) = Some \<lparr>hp_host = fmt_ipv4 ip, hp_port = p\<rparr>"
proof -
  have ne: "fmt_ipv4 ip \<noteq> []" using assms by (cases ip) (auto simp: fmt_ipv4_def join_with_Cons)
  have "strip_prefix [LBRACKET] (fmt_ipv4 ip @ COLON # fmt_u16 p) = None"
    using ne fmt_ipv4_host [of ip] by (cases "fmt_ipv4 ip") auto
  moreover have "rsplit_once COLON (fmt_ipv4 ip @ COLON # fmt_u16 p) = Some (fmt_ipv4 ip, fmt_u16 p)"
    by (simp add: rsplit_once_Some fmt_u16_special)
  ultimately show ?thesis using ne fmt_ipv4_host [of ip] by (simp add: host_port_parse_def)
qed

lemma ipv6_target:
  assumes "length gs = 8"
  shows "host_port_parse ([LBRACKET] @ fmt_ipv6 gs @ [RBRACKET, COLON] @ fmt_u16 p) =
    Some \<lparr>hp_host = fmt_ipv6 gs, hp_port = p\<rparr>"
proof -
  have i: "parse_ipv6 (fmt_ipv6 gs) = Some gs" by (rule parse_ipv6_fmt [OF assms])
  then have "split_once RBRACKET (fmt_ipv6 gs @ RBRACKET # COLON # fmt_u16 p) = Some (fmt_ipv6 gs, COLON # fmt_u16 p)"
    using parse_ipv6_no_bracket [of "fmt_ipv6 gs"] by (simp add: split_once_Some)
  then show ?thesis using i by (simp add: host_port_parse_def)
qed

subsection \<open>Admission\<close>

text \<open>The verdicts the host gave on credentials, in order.\<close>

fun verdicts :: "server_query event list \<Rightarrow> (credentials \<times> bool) list" where
  "verdicts [] = []"
| "verdicts (Answered (Verify c) b # tr) = (c, b) # verdicts tr"
| "verdicts (_ # tr) = verdicts tr"

text \<open>A request that passed: its target is valid, and its identity is the one that was verified, if any.\<close>

definition admitted :: "server_options \<Rightarrow> (credentials \<times> bool) list \<Rightarrow> incoming_request \<Rightarrow> bool" where
  "admitted opts vs rq \<longleftrightarrow>
     host_port_parse (rq_target rq) \<noteq> None \<and>
     (case rq_username rq of
        None \<Rightarrow> so_anonymous opts \<and> vs = [] \<and> rq_credentials rq = None
      | Some u \<Rightarrow>
          so_password opts \<and>
          (\<exists>creds. vs = [(creds, True)] \<and> u = cr_username creds \<and>
             rq_username_bytes rq = Some (cr_username_bytes creds) \<and>
             rq_credentials rq = (if so_retain_credentials opts then Some creds else None)))"

text \<open>What every execution of a handshake guarantees.\<close>

definition sound_outcome :: "server_options \<Rightarrow> (credentials \<times> bool) list \<Rightarrow> server_error + incoming_request \<Rightarrow> bool" where
  "sound_outcome opts vs r \<longleftrightarrow> length vs \<le> 1 \<and> (\<forall>rq. r = Ok rq \<longrightarrow> admitted opts vs rq)"

lemma sound_Err [simp]: "sound_outcome opts vs (Err e) \<longleftrightarrow> length vs \<le> 1"
  by (simp add: sound_outcome_def)

lemma socks_target_execution:
  assumes "execution (socks_target atyp k) tr r"
  shows "(\<exists>e. r = Err e \<and> verdicts tr = []) \<or>
    (\<exists>t tr'. host_port_parse t \<noteq> None \<and> execution (k t) tr' r \<and> verdicts tr = verdicts tr')"
proof -
  have six: "length (pair_bytes bs) = 8" if "length bs = 16" for bs using that by (simp add: be16_pairs)
  consider "atyp = 1" | "atyp = 4" | "atyp = 3" | "atyp \<notin> {1, 3, 4}" by blast
  then show ?thesis
  proof cases
    case 1
    with assms consider (err) e where "r = Err e" "verdicts tr = []"
      | (ok) ip p tr' where "length ip = 4" "execution (k (fmt_ipv4 ip @ [COLON] @ fmt_u16 p)) tr' r" "verdicts tr = verdicts tr'"
      by (auto simp: socks_target_def read_u16_def)
    then show ?thesis using ipv4_target by cases (blast, metis option.distinct(1))
  next
    case 2
    with assms consider (err) e where "r = Err e" "verdicts tr = []"
      | (ok) ip p tr' where "length ip = 16"
          "execution (k ([LBRACKET] @ fmt_ipv6 (pair_bytes ip) @ [RBRACKET, COLON] @ fmt_u16 p)) tr' r" "verdicts tr = verdicts tr'"
      by (auto simp: socks_target_def read_u16_def)
    then show ?thesis using ipv6_target [OF six] by cases (blast, metis option.distinct(1))
  next
    case 3
    with assms consider (err) e where "r = Err e" "verdicts tr = []"
      | (ok) d p tr' where "\<not> invalid_domain d (d @ [COLON] @ fmt_u16 p)" "execution (k (d @ [COLON] @ fmt_u16 p)) tr' r"
          "verdicts tr = verdicts tr'"
      by (auto simp: socks_target_def read_u16_def read_u8_def Let_def split: if_splits)
    then show ?thesis unfolding invalid_domain_def by cases blast+
  next
    case 4
    with assms show ?thesis by (auto simp: socks_target_def)
  qed
qed

lemma socks_request_execution:
  assumes "execution (socks_request u ur ret) tr r"
  shows "verdicts tr = [] \<and>
    (\<forall>rq. r = Ok rq \<longrightarrow> host_port_parse (rq_target rq) \<noteq> None \<and> rq_username rq = u \<and> rq_username_raw rq = ur \<and>
       rq_credentials rq = ret)"
  using assms by (auto simp: socks_request_def split: if_splits dest!: socks_target_execution)

lemma auth_fail_execution: "execution (auth_fail m) tr r \<Longrightarrow> (\<exists>e. r = Err e) \<and> verdicts tr = []"
  by (auto simp: auth_fail_def)

lemma http_fail_execution: "execution (http_fail s e) tr r \<Longrightarrow> (\<exists>e. r = Err e) \<and> verdicts tr = []"
  by (auto simp: http_fail_def)

lemma credentials_duplicate [simp]: "credentials_duplicate c = c"
  by (simp add: credentials_duplicate_def credentials_with_raw_def)

lemma socks_verify_execution:
  assumes "execution (socks_verify opts user pw) tr r" "so_password opts"
  shows "sound_outcome opts (verdicts tr) r"
proof (cases "decode_field (so_raw_credentials opts) user")
  case None
  then show ?thesis using assms auth_fail_execution by (fastforce simp: socks_verify_def)
next
  case u: (Some a)
  obtain uname uraw where a: "a = (uname, uraw)" by (cases a)
  show ?thesis
  proof (cases "decode_field (so_raw_credentials opts) pw")
    case None
    then show ?thesis using assms u a auth_fail_execution by (fastforce simp: socks_verify_def)
  next
    case p: (Some b)
    obtain pass praw where b: "b = (pass, praw)" by (cases b)
    let ?c = "credentials_with_raw uname pass uraw praw"
    let ?ret = "if so_retain_credentials opts then Some ?c else None"
    from assms u p a b obtain v tr' where t: "tr = Answered (Verify ?c) v # tr'"
      and e: "execution (if \<not> v
              then write_flush SrvIo AUTH_FAILURE (Ret (Err (auth_text ''SOCKS5 username/password authentication failed'')))
              else write_flush SrvIo [1, 0] (socks_request (Some uname) uraw ?ret)) tr' r"
      unfolding socks_verify_def Let_def credentials_duplicate by auto
    show ?thesis
    proof (cases v)
      case False
      then show ?thesis using e t by (auto simp: sound_outcome_def)
    next
      case True
      with e consider (err) x where "r = Err x" "verdicts tr' = []"
        | (ok) tr2 where "execution (socks_request (Some uname) uraw ?ret) tr2 r" "verdicts tr' = verdicts tr2"
        by auto
      then show ?thesis
      proof cases
        case err
        then show ?thesis using t by simp
      next
        case ok
        then show ?thesis using socks_request_execution [OF ok(1)] t True assms(2)
          by (auto simp: sound_outcome_def admitted_def credentials_with_raw_def rq_username_bytes_def cr_username_bytes_def
              split: option.splits)
      qed
    qed
  qed
qed

lemma socks_execution:
  assumes "execution (socks opts) tr r"
  shows "sound_outcome opts (verdicts tr) r"
proof -
  have pw: "sound_outcome opts (verdicts tr') r" if "execution (socks_password opts) tr' r" "so_password opts" for tr'
    using that socks_verify_execution [OF _ that(2)]
    by (auto simp: socks_password_def read_u8_def split: if_splits dest!: auth_fail_execution)
  have anon: "sound_outcome opts (verdicts tr') r" if "execution (socks_request None None None) tr' r" "so_anonymous opts" for tr'
    using socks_request_execution [OF that(1)] that(2) by (auto simp: sound_outcome_def admitted_def)
  show ?thesis using assms pw anon by (auto simp: socks_def read_u8_def split: if_splits)
qed

lemma http_accepted_execution:
  "execution (http_accepted target u ret pl) tr r \<Longrightarrow>
   verdicts tr = [] \<and> r = Ok \<lparr>rq_protocol = SrvHttp, rq_target = target, rq_username = u, rq_username_raw = None,
     rq_credentials = ret, rq_pipeline = pl\<rparr>"
  by (simp add: http_accepted_def)

lemma http_authenticate_execution:
  assumes "execution (http_authenticate decode opts target headers pl) tr r" "host_port_parse target \<noteq> None"
  shows "sound_outcome opts (verdicts tr) r"
  using assms
  by (auto simp: http_authenticate_def sound_outcome_def admitted_def Let_def rq_username_bytes_def cr_username_bytes_def
      credentials_new_def split: auth_header.splits sum.splits if_splits
      dest!: http_fail_execution http_accepted_execution)

lemma http_request_execution:
  assumes "execution (http_request decode opts line headers pl) tr r"
  shows "sound_outcome opts (verdicts tr) r"
  using assms http_authenticate_execution
  by (fastforce simp: http_request_def split: prod.splits if_splits dest!: http_fail_execution)

lemma http_head_execution:
  assumes "execution (http_head decode opts buf n) tr r"
  shows "sound_outcome opts (verdicts tr) r"
  using assms http_request_execution
  by (fastforce simp: http_head_def Let_def split: if_splits sum.splits strict_violation.splits dest!: http_fail_execution)

lemma http_loop_execution:
  "execution (http_loop decode opts buf) tr r \<Longrightarrow> sound_outcome opts (verdicts tr) r"
proof (induction decode opts buf arbitrary: tr rule: http_loop.induct)
  case (1 decode opts buf)
  let ?scan = "length buf - 3"
  from 1(2) obtain r0 tr' where t: "verdicts tr = verdicts tr'"
    and e: "execution (case r0 of Err e \<Rightarrow> Ret (Err (SrvIo e)) | Ok bs \<Rightarrow>
       if bs = [] then Ret (Err Closed)
       else case find_window HEAD_END (drop ?scan (buf @ bs)) of
              Some pos \<Rightarrow>
                if MAX_HEADER_BYTES < ?scan + pos + 4 then http_fail 431 HeaderTooLarge
                else http_head decode opts (buf @ bs) (?scan + pos + 4)
            | None \<Rightarrow>
                if MAX_HEADER_BYTES < length (buf @ bs) then http_fail 431 HeaderTooLarge
                else http_loop decode opts (buf @ bs)) tr' r"
    unfolding http_loop.simps [of decode opts buf] Let_def by auto
  note fail = http_fail_execution [of 431 HeaderTooLarge tr' r]
  show ?case
  proof (cases r0)
    case (Inl x)
    then show ?thesis using e t by simp
  next
    case (Inr bs)
    show ?thesis
    proof (cases "find_window HEAD_END (drop ?scan (buf @ bs))")
      case None
      then show ?thesis
        using e t Inr fail 1(1) [of bs ?scan "buf @ bs" tr'] by (auto simp del: drop_append split: if_splits)
    next
      case (Some pos)
      then show ?thesis
        using e t Inr fail http_head_execution [of decode opts "buf @ bs" "?scan + pos + 4" tr' r]
        by (auto simp del: drop_append split: if_splits)
    qed
  qed
qed

lemma phase_execution:
  "execution (phase p) tr r \<Longrightarrow>
   (r = Err Deadline \<and> verdicts tr = []) \<or> (\<exists>tr'. execution p tr' r \<and> verdicts tr = verdicts tr')"
  by (auto simp: phase_def split: if_splits)

lemma accept_dispatch:
  "accept decode opts =
     Ask BudgetLeft (\<lambda>b.
       if b then Read 1 (\<lambda>x. case x of
         Err e \<Rightarrow> Ret (Err (SrvIo e))
       | Ok bs \<Rightarrow> if bs = [] then Ret (Err Closed) else dispatch decode opts (bs ! 0))
       else Ret (Err Deadline))"
  by (auto simp: accept_def phase_def accept_first_def fun_eq_iff split: sum.splits)

lemma dispatch_execution:
  assumes "execution (dispatch decode opts b) tr r"
  shows "sound_outcome opts (verdicts tr) r"
proof (cases "b = 5 \<or> is_ascii_alphabetic b")
  case True
  with assms have "\<exists>p. execution (phase p) tr r \<and> (p = socks opts \<or> p = http_loop decode opts [b])"
    by (auto simp: dispatch_def split: if_splits)
  then show ?thesis using socks_execution http_loop_execution by (auto dest!: phase_execution)
next
  case False
  with assms show ?thesis unfolding dispatch_def by simp
qed

lemma accept_execution:
  assumes "execution (accept decode opts) tr r"
  shows "sound_outcome opts (verdicts tr) r"
proof -
  from assms obtain b tr1 where t: "verdicts tr = verdicts tr1"
    and e: "execution (if b then Read 1 (\<lambda>x. case x of
         Err e \<Rightarrow> Ret (Err (SrvIo e))
       | Ok bs \<Rightarrow> if bs = [] then Ret (Err Closed) else dispatch decode opts (bs ! 0))
       else Ret (Err Deadline)) tr1 r"
    unfolding accept_dispatch by auto
  have "sound_outcome opts (verdicts tr1) r"
  proof (cases b)
    case True
    with e obtain x tr2 where "verdicts tr1 = verdicts tr2" "execution (case x of
         Err e \<Rightarrow> Ret (Err (SrvIo e))
       | Ok bs \<Rightarrow> if bs = [] then Ret (Err Closed) else dispatch decode opts (bs ! 0)) tr2 r"
      by auto
    then show ?thesis using dispatch_execution by (cases x) (auto split: if_splits)
  qed (use e in simp)
  then show ?thesis by (simp add: t)
qed

text \<open>
  C1: nobody is admitted without authority. In every execution of \<open>accept\<close>, whatever the peer sends,
  whatever fails and whatever the host answers, the host's credential check runs at most once; a request is
  returned only with a target that is a valid \<open>host:port\<close>, and either it is anonymous, which the options
  allow, nothing was checked and it carries no credentials, or password authentication is on, the one check
  that ran was positive, and the identity of the request, text and raw bytes, is the one that was checked.
\<close>

theorem accept_admits_only_verified:
  assumes "execution (accept decode opts) tr r"
  shows "length (verdicts tr) \<le> 1 \<and> (\<forall>rq. r = Ok rq \<longrightarrow> admitted opts (verdicts tr) rq)"
  using accept_execution [OF assms] by (simp add: sound_outcome_def)

subsection \<open>Witness\<close>

text \<open>An anonymous client asks for 1.2.3.4:80; its bytes arrive in given segments.\<close>

definition demo_conn :: "bytes list \<Rightarrow> conn" where
  "demo_conn segs = \<lparr>incoming = segs, ending = Eof, outgoing = []\<rparr>"

definition demo_request :: incoming_request where
  "demo_request = \<lparr>rq_protocol = SrvSocks5, rq_target = fmt_ipv4 [1, 2, 3, 4] @ [COLON] @ fmt_u16 80, rq_username = None,
     rq_username_raw = None, rq_credentials = None, rq_pipeline = []\<rparr>"

lemmas accept_eval = accept_dispatch dispatch_def phase_def socks_def socks_request_def socks_target_def read_u8_def
  read_u16_def read_exact_def do_read_def do_read_exact_def unread_def consume_def got_def demo_conn_def
  server_options_new_def

lemma demo_accept:
  "run_on (\<lambda>_. True) (accept (\<lambda>_. None) (server_options_new True False)) (demo_conn [[5, 1], [0, 5, 1, 0], [1, 1, 2, 3, 4, 0, 80]]) =
   (Some (Ok demo_request), \<lparr>incoming = [], ending = Eof, outgoing = [5, 0]\<rparr>)"
  by (simp add: accept_eval demo_request_def be16_def)

theorem accept_admits_only_verified_witness:
  "\<exists>tr. execution (accept (\<lambda>_. None) (server_options_new True False)) tr (Ok demo_request) \<and>
     admitted (server_options_new True False) (verdicts tr) demo_request"
proof -
  obtain tr where "execution (accept (\<lambda>_. None) (server_options_new True False)) tr (Ok demo_request)"
    using run_on_execution [OF demo_accept] by blast
  with accept_admits_only_verified [OF this] show ?thesis by blast
qed

end
