(* ===== verification/ChainPlanSpec.thy ===== *)
theory ChainPlanSpec
  imports ChainPlan
begin

text \<open>
  The plan of \<open>ChainPlan\<close> as an abstract list of chains still to try: \<open>next_pick\<close> takes its head,
  \<open>mark_dead\<close> and \<open>exclude\<close> filter it, and a new plan is the full Cartesian product of the layers.
\<close>

subsection \<open>Keys\<close>

definition key_ids :: "proxy_config \<Rightarrow> node_id list" where
  "key_ids k = map node_id (nodes k)"

lemma key_eq_ids: "chain_key_eq (Some a) (Some b) \<longleftrightarrow> key_ids a = key_ids b"
proof -
  have "chain_key_eq (Some a) (Some b) \<longleftrightarrow> map node_id (walk a) = map node_id (walk b)"
    by (simp only: chain_key_eq_walk option.case)
  also have "\<dots> \<longleftrightarrow> key_ids a = key_ids b"
    unfolding key_ids_def nodes_def by (metis rev_map rev_rev_ident)
  finally show ?thesis .
qed

lemma key_mem_ids: "key_mem k ks \<longleftrightarrow> key_ids k \<in> key_ids ` set ks"
  unfolding key_mem_def list_ex_iff key_eq_ids image_iff by metis

lemma key_insert_ids: "key_ids ` set (key_insert k ks) = insert (key_ids k) (key_ids ` set ks)"
  by (auto simp: key_insert_def key_mem_ids)

lemma singleton_ids: "key_ids (singleton_key p) = [node_id p]"
  by (simp add: key_ids_def singleton_key_def nodes_link)

definition cand_id :: "candidate \<Rightarrow> node_id" where
  "cand_id c = node_id (hop_proxy (cand_hop c))"

lemma pick_of_ids:
  assumes "cs \<noteq> []"
  shows "\<exists>pick. pick_of cs = Some pick \<and> hops pick = map cand_hop cs \<and> key_ids (pick_key pick) = map cand_id cs"
proof -
  let ?ps = "map (\<lambda>c. hop_proxy (cand_hop c)) cs"
  obtain c where c: "proxy_chain ?ps = Some c" using proxy_chain_None [of ?ps] assms by auto
  then have "key_ids c = map node_id ?ps" using proxy_chain_nodes [of ?ps] by (simp add: key_ids_def)
  then show ?thesis using c by (simp add: pick_of_def cand_id_def comp_def)
qed

subsection \<open>What is left of the product\<close>

fun rest_of :: "layer list \<Rightarrow> candidate list list" where
  "rest_of [] = [[]]"
| "rest_of (l # ls) =
     map (Cons (candidates l ! lindex l)) (rest_of ls) @
     concat (map (\<lambda>x. map (Cons x) (product_lists (map candidates ls))) (drop (Suc (lindex l)) (candidates l)))"

definition in_range :: "layer \<Rightarrow> bool" where
  "in_range l \<longleftrightarrow> lindex l < length (candidates l)"

abbreviation zeroed :: "layer \<Rightarrow> layer" where
  "zeroed l \<equiv> l\<lparr>lindex := 0\<rparr>"

definition at_index :: "layer list \<Rightarrow> candidate list" where
  "at_index ls = map (\<lambda>l. candidates l ! lindex l) ls"

lemma current_at_index: "list_all in_range ls \<Longrightarrow> current ls = Some (at_index ls)"
  by (induction ls) (simp_all add: at_index_def in_range_def)

lemma rest_of_zeroed: "list_all in_range ls \<Longrightarrow> rest_of (map zeroed ls) = product_lists (map candidates ls)"
proof (induction ls)
  case (Cons l ls)
  then obtain c cs where "candidates l = c # cs" by (cases "candidates l") (auto simp: in_range_def)
  with Cons show ?case by (simp add: comp_def)
qed simp

fun bump :: "layer list \<Rightarrow> layer list \<times> bool" where
  "bump [] = ([], True)"
| "bump (l # ls) =
     (let (ls', carry) = bump ls
      in if \<not> carry then (l # ls', False)
         else if lindex l + 1 < length (candidates l) then (l\<lparr>lindex := lindex l + 1\<rparr> # ls', False)
         else (zeroed l # ls', True))"

lemma bump_rev_snoc:
  "bump_rev (xs @ [l]) =
     (let (xs', carry) = bump_rev xs
      in if \<not> carry then (xs' @ [l], False)
         else if lindex l + 1 < length (candidates l) then (xs' @ [l\<lparr>lindex := lindex l + 1\<rparr>], False)
         else (xs' @ [zeroed l], True))"
  by (induction xs) (auto simp: Let_def split: prod.splits)

lemma bump_rev_bump: "bump_rev (rev ls) = (rev (fst (bump ls)), snd (bump ls))"
  by (induction ls) (auto simp: bump_rev_snoc Let_def split: prod.splits)

lemma bump_carry: "snd (bump ls) \<Longrightarrow> fst (bump ls) = map zeroed ls"
  by (induction ls) (auto simp: Let_def split: prod.splits if_splits)

lemma bump_same:
  "length (fst (bump ls)) = length ls"
  "map candidates (fst (bump ls)) = map candidates ls" "map live (fst (bump ls)) = map live ls"
  "list_all in_range ls \<Longrightarrow> list_all in_range (fst (bump ls))"
  by (induction ls) (auto simp: Let_def in_range_def split: prod.splits if_splits)

lemma bump_rest:
  assumes "list_all in_range (pre @ suf)"
  shows "rest_of (pre @ suf) = map (append (at_index pre)) (rest_of suf) @
    (if snd (bump pre) then [] else rest_of (fst (bump pre) @ map zeroed suf))"
  using assms
proof (induction pre)
  case Nil
  then show ?case by (simp add: at_index_def)
next
  case (Cons l pre)
  let ?c = "candidates l ! lindex l"
  have r: "in_range l" "list_all in_range (pre @ suf)" using Cons.prems by auto
  have ai: "at_index (l # pre) = ?c # at_index pre" by (simp add: at_index_def)
  show ?case
  proof (cases "snd (bump pre)")
    case False
    then have b: "bump (l # pre) = (l # fst (bump pre), False)" by (simp add: Let_def case_prod_beta)
    have "map candidates (fst (bump pre) @ map zeroed suf) = map candidates (pre @ suf)"
      using bump_same(2) [of pre] by simp
    with Cons.IH [OF r(2)] False b ai show ?thesis by (simp add: comp_def)
  next
    case True
    have "rest_of (fst (bump pre) @ map zeroed suf) = product_lists (map candidates (pre @ suf))"
      using rest_of_zeroed [OF r(2)] bump_carry [OF True] by simp
    then have p: "rest_of (map zeroed pre @ map zeroed suf) = product_lists (map candidates pre @ map candidates suf)"
      using bump_carry [OF True] by simp
    show ?thesis
    proof (cases "lindex l + 1 < length (candidates l)")
      case Lt: True
      then have "drop (Suc (lindex l)) (candidates l) =
          candidates l ! Suc (lindex l) # drop (Suc (Suc (lindex l))) (candidates l)"
        by (simp add: Cons_nth_drop_Suc)
      with Cons.IH [OF r(2)] True Lt ai p bump_carry [OF True] show ?thesis
        by (simp add: Let_def case_prod_beta comp_def)
    next
      case False
      with Cons.IH [OF r(2)] True ai show ?thesis by (simp add: Let_def case_prod_beta comp_def)
    qed
  qed
qed

lemma rest_of_members:
  "list_all in_range ls \<Longrightarrow> cs \<in> set (rest_of ls) \<Longrightarrow> list_all2 (\<lambda>c l. c \<in> set (candidates l)) cs ls"
proof (induction ls arbitrary: cs)
  case (Cons l ls)
  have pl: "list_all2 (\<lambda>c l. c \<in> set (candidates l)) ds ls" if "ds \<in> set (product_lists (map candidates ls))" for ds
    using that by (auto simp: product_lists_set list_all2_map2 list_all2_conv_all_nth)
  from Cons show ?case by (auto simp: in_range_def dest: pl in_set_dropD)
qed simp

lemma rest_of_member_layer:
  assumes "list_all in_range ls" "cs \<in> set (rest_of ls)" "c \<in> set cs"
  obtains l where "l \<in> set ls" "c \<in> set (candidates l)"
proof -
  obtain i where "i < length cs" "cs ! i = c" using assms(3) by (auto simp: in_set_conv_nth)
  with rest_of_members [OF assms(1,2)] have "c \<in> set (candidates (ls ! i))" "i < length ls"
    by (auto simp: list_all2_conv_all_nth)
  with that [of "ls ! i"] show thesis by simp
qed

lemma in_range_zeroed: "in_range l \<Longrightarrow> in_range (zeroed l)"
  by (auto simp: in_range_def)

subsection \<open>The abstract plan\<close>

definition alive :: "chain_plan \<Rightarrow> candidate \<Rightarrow> bool" where
  "alive p = (\<lambda>c. \<not> key_mem (cand_key c) (dead p))"

definition wanted :: "chain_plan \<Rightarrow> candidate list \<Rightarrow> bool" where
  "wanted p cs \<longleftrightarrow> list_all (alive p) cs \<and> map cand_id cs \<notin> key_ids ` set (seen p)"

definition todo :: "chain_plan \<Rightarrow> candidate list list" where
  "todo p = (if plan_done p then [] else filter (wanted p) (rest_of (layers p)))"

definition layer_ok :: "chain_plan \<Rightarrow> layer \<Rightarrow> bool" where
  "layer_ok p l \<longleftrightarrow>
     distinct (map cand_id (candidates l)) \<and>
     list_all (\<lambda>c. cand_key c = singleton_key (hop_proxy (cand_hop c))) (candidates l) \<and>
     live l = length (filter (alive p) (candidates l))"

definition plan_inv :: "chain_plan \<Rightarrow> bool" where
  "plan_inv p \<longleftrightarrow>
     layers p \<noteq> [] \<and> list_all (layer_ok p) (layers p) \<and> (\<not> plan_done p \<longrightarrow> list_all in_range (layers p))"

lemma layer_ok_cong:
  "candidates l = candidates l' \<Longrightarrow> live l = live l' \<Longrightarrow> dead p = dead p' \<Longrightarrow> layer_ok p l = layer_ok p' l'"
  by (simp add: layer_ok_def alive_def)

lemma list_all_layer_ok_cong:
  assumes "map candidates ls = map candidates ls'" "map live ls = map live ls'" "dead p = dead p'"
  shows "list_all (layer_ok p) ls = list_all (layer_ok p') ls'"
proof -
  have "length ls = length ls'" using assms(1) by (metis length_map)
  then show ?thesis using assms
  proof (induction ls ls' rule: list_induct2)
    case (Cons x xs y ys)
    then show ?case using layer_ok_cong [of x y p p'] by simp
  qed simp
qed

lemma wanted_update [simp]:
  "wanted (p\<lparr>layers := ls, plan_done := d\<rparr>) = wanted p"
  "layer_ok (p\<lparr>layers := ls, plan_done := d\<rparr>) = layer_ok p"
  by (simp_all add: wanted_def layer_ok_def alive_def fun_eq_iff)

text \<open>A step of the loop skips only chains that are not wanted.\<close>

lemma jump_subtree_spec:
  assumes inv: "plan_inv p" "\<not> plan_done p" and i: "i < length (layers p)"
    and d: "\<not> alive p (candidates (layers p ! i) ! lindex (layers p ! i))"
  shows "plan_inv (jump_subtree p i) \<and> todo (jump_subtree p i) = todo p \<and>
    (\<not> plan_done (jump_subtree p i) \<longrightarrow>
       length (rest_of (layers (jump_subtree p i))) < length (rest_of (layers p)))"
proof -
  let ?pre = "take (i + 1) (layers p)" and ?suf = "drop (i + 1) (layers p)"
  have ir: "list_all in_range (?pre @ ?suf)" using inv by (simp add: plan_inv_def)
  then have ir': "list_all in_range ?pre" "list_all in_range ?suf" unfolding list_all_append by blast+
  note br = bump_rest [OF ir]
  have j: "jump_subtree p i = p\<lparr>layers := fst (bump ?pre) @ map zeroed ?suf, plan_done := snd (bump ?pre)\<rparr>"
    using inv(2) by (simp add: jump_subtree_def Let_def bump_rev_bump)
  have mem: "candidates (layers p ! i) ! lindex (layers p ! i) \<in> set (at_index ?pre)"
    using i by (simp add: at_index_def take_Suc_conv_app_nth)
  then have skip: "\<not> wanted p (at_index ?pre @ ds)" for ds
    using d by (auto simp: wanted_def list_all_iff)
  have fs: "filter (wanted p) (map (append (at_index ?pre)) xs) = []" for xs
    using skip by (induction xs) auto
  have t: "todo (jump_subtree p i) = todo p"
    using br inv(2) fs by (simp add: todo_def j)
  have ne: "rest_of ?suf \<noteq> []" using bump_rest [of "[]" ?suf] ir'(2)
  proof -
    have "rest_of ls \<noteq> []" for ls by (induction ls) auto
    then show ?thesis .
  qed
  have "layers p \<noteq> []" using i by auto
  then have "fst (bump ?pre) @ map zeroed ?suf \<noteq> []" using bump_same(1) [of ?pre] by auto
  moreover have "list_all (layer_ok p) (fst (bump ?pre) @ map zeroed ?suf)"
  proof -
    have "list_all (layer_ok p) (?pre @ ?suf)" using inv by (simp add: plan_inv_def)
    moreover have "map candidates (fst (bump ?pre) @ map zeroed ?suf) = map candidates (?pre @ ?suf)"
        "map live (fst (bump ?pre) @ map zeroed ?suf) = map live (?pre @ ?suf)"
      by (simp_all only: map_append bump_same(2,3) map_map comp_def) simp_all
    ultimately show ?thesis using list_all_layer_ok_cong by blast
  qed
  moreover have "list_all in_range (fst (bump ?pre) @ map zeroed ?suf)"
    using bump_same(4) [OF ir'(1)] ir'(2) by (auto simp: list_all_iff in_range_zeroed)
  ultimately have "plan_inv (jump_subtree p i)" by (simp add: plan_inv_def j)
  moreover have "\<not> plan_done (jump_subtree p i) \<longrightarrow>
       length (rest_of (layers (jump_subtree p i))) < length (rest_of (layers p))"
    using br ne by (auto simp: j)
  ultimately show ?thesis using t by blast
qed

lemma advance_spec:
  assumes inv: "plan_inv p" "\<not> plan_done p"
  shows "plan_inv (advance p) \<and>
    todo p = (if wanted p (at_index (layers p)) then [at_index (layers p)] else []) @ todo (advance p) \<and>
    (\<not> plan_done (advance p) \<longrightarrow> length (rest_of (layers (advance p))) < length (rest_of (layers p)))"
proof -
  let ?ls = "layers p"
  have ir: "list_all in_range (?ls @ [])" using inv by (simp add: plan_inv_def)
  note br = bump_rest [OF ir, simplified]
  have a: "advance p = p\<lparr>layers := fst (bump ?ls), plan_done := snd (bump ?ls)\<rparr>"
    using inv(2) by (simp add: advance_def Let_def bump_rev_bump)
  have "todo p = (if wanted p (at_index ?ls) then [at_index ?ls] else []) @ todo (advance p)"
    using br inv(2) by (simp add: todo_def a)
  moreover have "list_all (layer_ok p) (fst (bump ?ls))"
    using inv list_all_layer_ok_cong [OF bump_same(2,3) refl] by (simp add: plan_inv_def)
  moreover have "fst (bump ?ls) \<noteq> []" using inv bump_same(1) [of ?ls] by (auto simp: plan_inv_def)
  ultimately show ?thesis
    using br bump_same(4) [of ?ls] ir by (auto simp: a plan_inv_def)
qed

subsection \<open>Refinement\<close>

lemma next_pick_refines:
  assumes "plan_inv p"
  shows "\<exists>p'. next_pick p = Some (case todo p of [] \<Rightarrow> None | cs # _ \<Rightarrow> pick_of cs, p') \<and>
    plan_inv p' \<and> todo p' = tl (todo p)"
  using assms
proof (induction "if plan_done p then 0 else Suc (length (rest_of (layers p)))" arbitrary: p rule: less_induct)
  case less
  show ?case
  proof (cases "plan_done p")
    case True
    then show ?thesis using less.prems by (subst next_pick.simps) (simp add: todo_def)
  next
    case False
    let ?cs = "at_index (layers p)"
    have ir: "list_all in_range (layers p)" using less.prems False by (simp add: plan_inv_def)
    have cur: "current (layers p) = Some ?cs" by (rule current_at_index [OF ir])
    show ?thesis
    proof (cases "position (\<lambda>c. key_mem (cand_key c) (dead p)) ?cs")
      case (Some i)
      note i = position_SomeD [OF Some]
      let ?p = "jump_subtree p i"
      have "i < length (layers p)" using i(1) by (simp add: at_index_def)
      moreover have "\<not> alive p (candidates (layers p ! i) ! lindex (layers p ! i))"
        using i(1,2) by (simp add: at_index_def alive_def)
      ultimately have j: "plan_inv ?p" "todo ?p = todo p"
          "\<not> plan_done ?p \<longrightarrow> length (rest_of (layers ?p)) < length (rest_of (layers p))"
        using jump_subtree_spec [OF less.prems False] by blast+
      have "next_pick p = next_pick ?p"
        using False cur Some by (subst next_pick.simps) simp
      with less.hyps [of ?p] j False show ?thesis by simp
    next
      case None
      then have al: "list_all (alive p) ?cs" by (simp add: position_None list_all_iff alive_def)
      have "?cs \<noteq> []" using less.prems by (simp add: at_index_def plan_inv_def)
      then obtain pick where pk: "pick_of ?cs = Some pick" "key_ids (pick_key pick) = map cand_id ?cs"
        using pick_of_ids by blast
      let ?p = "advance p"
      note a = advance_spec [OF less.prems False]
      show ?thesis
      proof (cases "key_mem (pick_key pick) (seen p)")
        case True
        then have "\<not> wanted p ?cs" using pk(2) by (simp add: wanted_def key_mem_ids)
        moreover have "next_pick p = next_pick ?p"
          using False cur None pk(1) True by (subst next_pick.simps) simp
        ultimately show ?thesis using less.hyps [of ?p] a False by simp
      next
        case unseen: False
        then have "wanted p ?cs" using pk(2) al by (simp add: wanted_def key_mem_ids)
        moreover have "next_pick p = Some (Some pick, ?p)"
          using False cur None pk(1) unseen by (subst next_pick.simps) simp
        ultimately show ?thesis using a pk(1) by simp
      qed
    qed
  qed
qed

lemma exclude_refines:
  "plan_inv p \<Longrightarrow> plan_inv (exclude p key) \<and> todo (exclude p key) = filter (\<lambda>cs. map cand_id cs \<noteq> key_ids key) (todo p)"
proof -
  assume inv: "plan_inv p"
  have "layer_ok (exclude p key) = layer_ok p" by (simp add: exclude_def layer_ok_def alive_def fun_eq_iff)
  moreover have "filter (wanted (exclude p key)) xs = filter (\<lambda>cs. map cand_id cs \<noteq> key_ids key) (filter (wanted p) xs)" for xs
    by (induction xs) (auto simp: exclude_def wanted_def alive_def key_insert_ids)
  ultimately show ?thesis using inv by (simp add: plan_inv_def todo_def exclude_def)
qed

lemma filter_remove_one:
  assumes "distinct (map f xs)" "x \<in> set xs" "P x"
  shows "length (filter (\<lambda>y. P y \<and> f y \<noteq> f x) xs) = length (filter P xs) - 1"
proof -
  have "filter (\<lambda>y. P y \<and> f y \<noteq> f x) xs = remove1 x (filter P xs)"
  proof -
    have "filter (\<lambda>y. P y \<and> f y \<noteq> f x) xs = filter (\<lambda>y. y \<noteq> x) (filter P xs)"
      using assms(1,2) by (auto simp: distinct_map inj_on_def intro!: filter_cong)
    also have "\<dots> = remove1 x (filter P xs)"
      using assms(1) by (subst distinct_remove1_removeAll) (auto simp: distinct_map removeAll_filter_not_eq intro: filter_cong)
    finally show ?thesis .
  qed
  then show ?thesis using assms(2,3) by (simp add: length_remove1)
qed

lemma mark_layer_ok:
  assumes ok: "layer_ok p l" and new: "\<not> key_mem (singleton_key proxy) (dead p)"
    and p': "dead p' = key_insert (singleton_key proxy) (dead p)"
  shows "layer_ok p' (mark_layer (singleton_key proxy) l)"
proof -
  have k: "cand_key c = singleton_key (hop_proxy (cand_hop c))" if "c \<in> set (candidates l)" for c
    using ok that by (auto simp: layer_ok_def list_all_iff)
  have al: "alive p' c \<longleftrightarrow> alive p c \<and> cand_id c \<noteq> node_id proxy" if "c \<in> set (candidates l)" for c
    using k [OF that] p' by (auto simp: alive_def key_mem_ids key_insert_ids singleton_ids cand_id_def)
  have hit: "chain_key_eq (Some (cand_key c)) (Some (singleton_key proxy)) \<longleftrightarrow> cand_id c = node_id proxy"
    if "c \<in> set (candidates l)" for c
    unfolding key_eq_ids using k [OF that] by (simp add: singleton_ids cand_id_def)
  have eq: "filter (alive p') (candidates l) = filter (\<lambda>c. alive p c \<and> cand_id c \<noteq> node_id proxy) (candidates l)"
    using al by (intro filter_cong) auto
  show ?thesis
  proof (cases "\<exists>c \<in> set (candidates l). cand_id c = node_id proxy")
    case True
    then obtain c where c: "c \<in> set (candidates l)" "cand_id c = node_id proxy" by blast
    have "alive p c" using new k [OF c(1)] c(2) by (simp add: alive_def key_mem_ids singleton_ids cand_id_def)
    moreover have "distinct (map cand_id (candidates l))" using ok by (simp add: layer_ok_def)
    ultimately have "length (filter (alive p') (candidates l)) = length (filter (alive p) (candidates l)) - 1"
      using filter_remove_one [of cand_id "candidates l" c "alive p"] c eq by simp
    moreover have "list_ex (\<lambda>c. chain_key_eq (Some (cand_key c)) (Some (singleton_key proxy))) (candidates l)"
      using c hit by (auto simp: list_ex_iff simp del: chain_key_eq.simps)
    ultimately show ?thesis using ok by (simp add: mark_layer_def layer_ok_def del: chain_key_eq.simps)
  next
    case False
    then have "filter (alive p') (candidates l) = filter (alive p) (candidates l)"
      unfolding eq by (intro filter_cong) auto
    moreover have "\<not> list_ex (\<lambda>c. chain_key_eq (Some (cand_key c)) (Some (singleton_key proxy))) (candidates l)"
      using False hit by (auto simp: list_ex_iff simp del: chain_key_eq.simps)
    ultimately show ?thesis using ok by (simp add: mark_layer_def layer_ok_def del: chain_key_eq.simps)
  qed
qed

lemma todo_mark_dead:
  assumes inv: "plan_inv p"
  shows "plan_inv (mark_dead p proxy) \<and>
    todo (mark_dead p proxy) = filter (\<lambda>cs. node_id proxy \<notin> cand_id ` set cs) (todo p)"
proof (cases "key_mem (singleton_key proxy) (dead p)")
  case True
  have "node_id proxy \<notin> cand_id ` set cs" if "cs \<in> set (todo p)" for cs
  proof
    assume "node_id proxy \<in> cand_id ` set cs"
    then obtain c where c: "c \<in> set cs" "cand_id c = node_id proxy" by force
    have ir: "list_all in_range (layers p)" and m: "cs \<in> set (rest_of (layers p))" "list_all (alive p) cs"
      using that inv by (auto simp: todo_def plan_inv_def wanted_def split: if_splits)
    obtain l where l: "l \<in> set (layers p)" "c \<in> set (candidates l)"
      using rest_of_member_layer [OF ir m(1) c(1)] by blast
    then have "cand_key c = singleton_key (hop_proxy (cand_hop c))"
      using inv by (auto simp: plan_inv_def layer_ok_def list_all_iff)
    with c m(2) True show False
      by (auto simp: list_all_iff alive_def key_mem_ids singleton_ids cand_id_def)
  qed
  then have "filter (\<lambda>cs. node_id proxy \<notin> cand_id ` set cs) (todo p) = todo p" by (intro filter_True) blast
  with True inv show ?thesis by (simp add: mark_dead_def)
next
  case new: False
  let ?key = "singleton_key proxy"
  let ?q = "mark_dead p proxy"
  let ?hit = "\<lambda>l. list_ex (\<lambda>c. chain_key_eq (Some (cand_key c)) (Some ?key)) (candidates l)"
  let ?x = "list_ex (\<lambda>l. ?hit l \<and> live (mark_layer ?key l) = 0) (layers p)"
  have q: "?q = p\<lparr>dead := key_insert ?key (dead p), layers := map (mark_layer ?key) (layers p),
      plan_done := plan_done p \<or> ?x\<rparr>"
    using new by (simp add: mark_dead_def Let_def)
  have dq: "dead ?q = key_insert ?key (dead p)" and sq: "seen ?q = seen p" by (simp_all add: q)
  have lok: "list_all (layer_ok ?q) (layers ?q)"
    using inv mark_layer_ok [OF _ new dq] by (auto simp: plan_inv_def list_all_iff q)
  have ml: "candidates (mark_layer ?key l) = candidates l" "lindex (mark_layer ?key l) = lindex l" for l
    by (simp_all add: mark_layer_def)
  have rng: "in_range (mark_layer ?key l) = in_range l" for l by (simp add: in_range_def ml)
  have rest: "rest_of (map (mark_layer ?key) ls) = rest_of ls" for ls
    by (induction ls) (simp_all add: ml comp_def)
  have inv': "plan_inv ?q"
    using inv lok by (simp add: plan_inv_def) (auto simp: q list_all_iff rng)
  have w: "wanted ?q cs \<longleftrightarrow> wanted p cs \<and> node_id proxy \<notin> cand_id ` set cs"
    if "cs \<in> set (rest_of (layers p))" "list_all in_range (layers p)" for cs
  proof -
    note cs = that(1) and ir = that(2)
    have "cand_key c = singleton_key (hop_proxy (cand_hop c))" if c: "c \<in> set cs" for c
    proof -
      obtain l where "l \<in> set (layers p)" "c \<in> set (candidates l)"
        using rest_of_member_layer [OF ir cs c] by blast
      then show ?thesis using inv by (auto simp: plan_inv_def layer_ok_def list_all_iff)
    qed
    then have "alive ?q c \<longleftrightarrow> alive p c \<and> node_id proxy \<noteq> cand_id c" if "c \<in> set cs" for c
      using that by (auto simp: alive_def dq key_mem_ids key_insert_ids singleton_ids cand_id_def)
    then show ?thesis by (auto simp: wanted_def list_all_iff sq image_iff)
  qed
  have "todo ?q = filter (\<lambda>cs. node_id proxy \<notin> cand_id ` set cs) (todo p)"
  proof (cases "plan_done p")
    case True
    then show ?thesis by (simp add: todo_def q)
  next
    case False
    then have ir: "list_all in_range (layers p)" using inv by (simp add: plan_inv_def)
    have f: "filter (wanted ?q) (rest_of (layers p)) =
        filter (\<lambda>cs. node_id proxy \<notin> cand_id ` set cs) (filter (wanted p) (rest_of (layers p)))"
      using w [OF _ ir] by (auto intro!: filter_cong)
    show ?thesis
    proof (cases ?x)
      case True
      then obtain l where l: "l \<in> set (layers p)" "live (mark_layer ?key l) = 0"
        by (auto simp: list_ex_iff simp del: chain_key_eq.simps)
      have "layer_ok ?q (mark_layer ?key l)" using lok l(1) by (auto simp: q list_all_iff)
      then have none: "\<not> alive ?q c" if "c \<in> set (candidates l)" for c
        using that l(2) by (auto simp: layer_ok_def ml filter_empty_conv)
      have "\<not> wanted ?q cs" if "cs \<in> set (rest_of (layers p))" for cs
      proof -
        obtain k where "k < length (layers p)" "layers p ! k = l" using l(1) by (auto simp: in_set_conv_nth)
        then have "cs ! k \<in> set (candidates l)" "cs ! k \<in> set cs"
          using rest_of_members [OF ir that] by (auto simp: list_all2_conv_all_nth)
        then show ?thesis using none by (auto simp: wanted_def list_all_iff)
      qed
      then have "filter (wanted ?q) (rest_of (layers p)) = []" by (simp add: filter_empty_conv)
      then show ?thesis using f False True by (simp add: todo_def) (simp add: q)
    next
      case nx: False
      then have "plan_done ?q = False" "rest_of (layers ?q) = rest_of (layers p)" using False by (simp_all add: q rest)
      then show ?thesis using f False by (simp add: todo_def)
    qed
  qed
  with inv' show ?thesis by blast
qed

text \<open>A new plan is the whole product.\<close>

lemma deduplicate_spec:
  "distinct (map cand_id (deduplicate keys hs)) \<and>
   (\<forall>c \<in> set (deduplicate keys hs). [cand_id c] \<notin> key_ids ` set keys \<and> cand_hop c \<in> set hs \<and>
      cand_key c = singleton_key (hop_proxy (cand_hop c))) \<and>
   (\<forall>h \<in> set hs. [node_id (hop_proxy h)] \<in> key_ids ` set keys \<or>
      node_id (hop_proxy h) \<in> cand_id ` set (deduplicate keys hs))"
proof (induction hs arbitrary: keys)
  case (Cons h hs)
  let ?k = "singleton_key (hop_proxy h)"
  show ?case
  proof (cases "key_mem ?k keys")
    case True
    with Cons [of keys] show ?thesis by (auto simp: Let_def key_mem_ids singleton_ids)
  next
    case False
    let ?r = "deduplicate (key_insert ?k keys) hs"
    have d: "deduplicate keys (h # hs) = \<lparr>cand_hop = h, cand_key = ?k\<rparr> # ?r" using False by (simp add: Let_def)
    have nk: "[node_id (hop_proxy h)] \<notin> key_ids ` set keys" using False by (simp add: key_mem_ids singleton_ids)
    have r1: "distinct (map cand_id ?r)"
      and r2: "\<And>c. c \<in> set ?r \<Longrightarrow> [cand_id c] \<notin> insert [node_id (hop_proxy h)] (key_ids ` set keys) \<and>
        cand_hop c \<in> set hs \<and> cand_key c = singleton_key (hop_proxy (cand_hop c))"
      and r3: "\<And>g. g \<in> set hs \<Longrightarrow> [node_id (hop_proxy g)] \<in> insert [node_id (hop_proxy h)] (key_ids ` set keys) \<or>
        node_id (hop_proxy g) \<in> cand_id ` set ?r"
      using Cons [of "key_insert ?k keys"] by (auto simp: key_insert_ids singleton_ids)
    have ci: "cand_id \<lparr>cand_hop = h, cand_key = ?k\<rparr> = node_id (hop_proxy h)" by (simp add: cand_id_def)
    have "node_id (hop_proxy h) \<notin> cand_id ` set ?r" using r2 by force
    with r1 r2 r3 nk ci show ?thesis unfolding d by auto
  qed
qed simp

lemma fresh_layer_ok:
  "dead p = [] \<Longrightarrow> layer_ok p (mk_layer (deduplicate [] hs))"
  using deduplicate_spec [of "[]" hs]
  by (auto simp: layer_ok_def mk_layer_def list_all_iff alive_def key_mem_def intro!: arg_cong [of _ _ length] filter_True [symmetric])

lemma gate_layers_ok:
  "dead p = [] \<Longrightarrow> l \<in> set (fst (gate_layers st gates now)) \<Longrightarrow> layer_ok p l \<and> lindex l = 0"
proof (induction gates arbitrary: st)
  case (Cons g gates)
  then show ?case
    using fresh_layer_ok [of p "fst (order_hops st (snd g) now)"]
    by (cases g) (auto simp: Let_def case_prod_beta mk_layer_def)
qed simp

lemma rest_of_start:
  assumes "list_all (\<lambda>l. lindex l = 0 \<and> candidates l \<noteq> []) ls"
  shows "rest_of ls = product_lists (map candidates ls)"
proof -
  have "map zeroed ls = ls" using assms by (intro map_idI) (auto simp: list_all_iff)
  moreover have "list_all in_range ls" using assms by (auto simp: list_all_iff in_range_def)
  ultimately show ?thesis using rest_of_zeroed [of ls] by simp
qed

lemma product_lists_Nil: "[] \<in> set xss \<Longrightarrow> product_lists xss = []"
  by (induction xss) (auto simp: concat_eq_Nil_conv)

lemma chain_plan_new_refines:
  assumes "fst (chain_plan_new st gates exits now) = p"
  shows "plan_inv p \<and> todo p = product_lists (map candidates (layers p))"
proof -
  obtain ls st1 where g: "gate_layers st gates now = (ls, st1)" by (cases "gate_layers st gates now")
  obtain hs st2 where e: "exit_hops st1 exits now = (hs, st2)" by (cases "exit_hops st1 exits now")
  let ?ls = "ls @ [mk_layer (deduplicate [] hs)]"
  have p: "p = \<lparr>layers = ?ls, seen = [], dead = [], plan_done = list_ex (\<lambda>l. candidates l = []) ?ls\<rparr>"
    using assms g e by (simp add: chain_plan_new_def)
  have ok: "layer_ok p l \<and> lindex l = 0" if "l \<in> set ?ls" for l
    using that gate_layers_ok [of p l st gates now] fresh_layer_ok [of p hs] g by (auto simp: p mk_layer_def)
  have w: "wanted p = (\<lambda>_. True)" by (simp add: wanted_def alive_def p key_mem_def fun_eq_iff list_all_iff)
  have "list_all in_range ?ls" if "\<not> plan_done p"
    using that ok by (auto simp: p list_all_iff list_ex_iff in_range_def)
  moreover have lp: "layers p = ?ls" by (simp add: p)
  ultimately have "plan_inv p" using ok unfolding plan_inv_def lp by (simp add: list_all_iff)
  moreover have "todo p = product_lists (map candidates (layers p))"
  proof (cases "plan_done p")
    case True
    then have "[] \<in> set (map candidates (layers p))" by (force simp: p list_ex_iff)
    then have "product_lists (map candidates (layers p)) = []" by (rule product_lists_Nil)
    then show ?thesis using True by (simp add: todo_def)
  next
    case False
    then have "list_all (\<lambda>l. lindex l = 0 \<and> candidates l \<noteq> []) ?ls"
      using ok by (auto simp: p list_all_iff list_ex_iff)
    from rest_of_start [OF this] show ?thesis using False w by (simp add: todo_def) (simp add: p)
  qed
  ultimately show ?thesis by blast
qed

subsection \<open>The plan as an interface\<close>

datatype ('n, 'k) plan_op = NextOp | MarkOp 'n | ExcludeOp 'k

text \<open>
  A source of alternatives: an abstraction to a list, whose head \<open>next\<close> delivers, and two ways to
  rule out alternatives.
\<close>

locale alternative_source =
  fixes src_ok :: "'s \<Rightarrow> bool"
    and remaining :: "'s \<Rightarrow> 'a list"
    and deliver :: "'a \<Rightarrow> 'p option"
    and src_next :: "'s \<Rightarrow> ('p option \<times> 's) option"
    and src_mark :: "'s \<Rightarrow> 'n \<Rightarrow> 's" and marked :: "'n \<Rightarrow> 'a \<Rightarrow> bool"
    and src_exclude :: "'s \<Rightarrow> 'k \<Rightarrow> 's" and excluded :: "'k \<Rightarrow> 'a \<Rightarrow> bool"
  assumes next_law: "src_ok s \<Longrightarrow> \<exists>s'. src_next s = Some (case remaining s of [] \<Rightarrow> None | a # _ \<Rightarrow> deliver a, s') \<and>
      src_ok s' \<and> remaining s' = tl (remaining s)"
    and mark_law: "src_ok s \<Longrightarrow> src_ok (src_mark s n) \<and> remaining (src_mark s n) = filter (\<lambda>a. \<not> marked n a) (remaining s)"
    and exclude_law: "src_ok s \<Longrightarrow>
      src_ok (src_exclude s k) \<and> remaining (src_exclude s k) = filter (\<lambda>a. \<not> excluded k a) (remaining s)"
begin

text \<open>What a client sees of a sequence of calls: the results of the calls of \<open>next\<close>.\<close>

fun run_source :: "'s \<Rightarrow> ('n, 'k) plan_op list \<Rightarrow> 'p option list option" where
  "run_source s [] = Some []"
| "run_source s (NextOp # ops) =
     (case src_next s of None \<Rightarrow> None | Some (r, s') \<Rightarrow> map_option (Cons r) (run_source s' ops))"
| "run_source s (MarkOp n # ops) = run_source (src_mark s n) ops"
| "run_source s (ExcludeOp k # ops) = run_source (src_exclude s k) ops"

fun run_list :: "'a list \<Rightarrow> ('n, 'k) plan_op list \<Rightarrow> 'a option list" where
  "run_list xs [] = []"
| "run_list xs (NextOp # ops) = (case xs of [] \<Rightarrow> None | a # _ \<Rightarrow> Some a) # run_list (tl xs) ops"
| "run_list xs (MarkOp n # ops) = run_list (filter (\<lambda>a. \<not> marked n a) xs) ops"
| "run_list xs (ExcludeOp k # ops) = run_list (filter (\<lambda>a. \<not> excluded k a) xs) ops"

lemma run_source_refines:
  "src_ok s \<Longrightarrow> run_source s ops = Some (map (\<lambda>x. Option.bind x deliver) (run_list (remaining s) ops))"
proof (induction ops arbitrary: s)
  case (Cons op ops)
  show ?case
  proof (cases op)
    case NextOp
    obtain s' where s': "src_next s = Some (case remaining s of [] \<Rightarrow> None | a # _ \<Rightarrow> deliver a, s')"
        "src_ok s'" "remaining s' = tl (remaining s)"
      using next_law [OF Cons.prems] by blast
    with Cons.IH [OF s'(2)] NextOp show ?thesis by (simp split: list.splits)
  next
    case (MarkOp n)
    then show ?thesis using mark_law [OF Cons.prems, of n] Cons.IH [of "src_mark s n"] by simp
  next
    case (ExcludeOp k)
    then show ?thesis using exclude_law [OF Cons.prems, of k] Cons.IH [of "src_exclude s k"] by simp
  qed
qed simp

text \<open>Nothing is delivered twice, and everything delivered was there at the start.\<close>

lemma run_list_subset: "Some a \<in> set (run_list xs ops) \<Longrightarrow> a \<in> set xs"
proof (induction ops arbitrary: xs)
  case (Cons op ops)
  show ?case
  proof (cases op)
    case NextOp
    then show ?thesis using Cons.prems Cons.IH [of "tl xs"] by (cases xs) auto
  next
    case (MarkOp n)
    then show ?thesis using Cons.prems Cons.IH [of "filter (\<lambda>a. \<not> marked n a) xs"] by simp
  next
    case (ExcludeOp k)
    then show ?thesis using Cons.prems Cons.IH [of "filter (\<lambda>a. \<not> excluded k a) xs"] by simp
  qed
qed simp

lemma run_list_distinct:
  "distinct (map f xs) \<Longrightarrow> distinct (map f (List.map_filter (\<lambda>x. x) (run_list xs ops)))"
proof (induction ops arbitrary: xs)
  case (Cons op ops)
  show ?case
  proof (cases op)
    case NextOp
    show ?thesis
    proof (cases xs)
      case Nil
      with NextOp Cons.IH [of "[]"] show ?thesis by (simp add: List.map_filter_simps)
    next
      case (Cons x ys)
      have "a \<in> set ys" if "a \<in> set (List.map_filter (\<lambda>x. x) (run_list ys ops))" for a
        using that run_list_subset [of a ys ops] by (auto simp: List.map_filter_def)
      with NextOp Cons Cons.IH [of ys] \<open>distinct (map f xs)\<close> show ?thesis
        by (auto simp: List.map_filter_simps)
    qed
  next
    case (MarkOp n)
    then show ?thesis using Cons.IH [of "filter (\<lambda>a. \<not> marked n a) xs"] Cons.prems by (simp add: distinct_map_filter)
  next
    case (ExcludeOp k)
    then show ?thesis using Cons.IH [of "filter (\<lambda>a. \<not> excluded k a) xs"] Cons.prems by (simp add: distinct_map_filter)
  qed
qed (simp add: List.map_filter_simps)

end

definition chain_marked :: "proxy_config \<Rightarrow> candidate list \<Rightarrow> bool" where
  "chain_marked proxy cs \<longleftrightarrow> node_id proxy \<in> cand_id ` set cs"

definition chain_excluded :: "proxy_config \<Rightarrow> candidate list \<Rightarrow> bool" where
  "chain_excluded key cs \<longleftrightarrow> map cand_id cs = key_ids key"

interpretation plan: alternative_source plan_inv todo pick_of next_pick mark_dead chain_marked exclude chain_excluded
proof
  fix p n k
  assume inv: "plan_inv p"
  show "\<exists>p'. next_pick p = Some (case todo p of [] \<Rightarrow> None | cs # _ \<Rightarrow> pick_of cs, p') \<and>
      plan_inv p' \<and> todo p' = tl (todo p)" by (rule next_pick_refines [OF inv])
  show "plan_inv (mark_dead p n) \<and> todo (mark_dead p n) = filter (\<lambda>cs. \<not> chain_marked n cs) (todo p)"
    using todo_mark_dead [OF inv] by (simp add: chain_marked_def)
  show "plan_inv (exclude p k) \<and> todo (exclude p k) = filter (\<lambda>cs. \<not> chain_excluded k cs) (todo p)"
    using exclude_refines [OF inv] by (simp add: chain_excluded_def)
qed

lemma product_lists_distinct_ids:
  "\<forall>cs \<in> set css. distinct (map f cs) \<Longrightarrow> distinct (map (map f) (product_lists css))"
proof (induction css)
  case (Cons cs css)
  then have IH: "distinct (map (map f) (product_lists css))" by simp
  have "distinct (map f cs)" using Cons.prems by simp
  then show ?case
  proof (induction cs)
    case (Cons c cs)
    have "distinct (map (map f) (map (Cons c) (product_lists css)))"
      using IH by (simp add: distinct_map comp_def inj_on_def)
    with Cons show ?case by (auto simp: comp_def)
  qed simp
qed simp

text \<open>
  C10: the plan enumerates exactly the right chains. For every store of rotators, gate levels and exits,
  every sequence of requests for the next chain, reports of dead nodes and exclusions, run on a new
  plan, terminates without panic and returns what a plain list would: the Cartesian product of the
  layers in order, from which every report removes the chains through that node and every exclusion
  that chain. The shortcuts (skipping whole subtrees, ending early when a layer has no live candidate)
  lose nothing, and no chain identity is returned twice.
\<close>

theorem chain_plan_enumerates_product:
  "let p = fst (chain_plan_new st gates exits now); chains = product_lists (map candidates (layers p))
   in plan.run_source p ops = Some (map (\<lambda>x. Option.bind x pick_of) (plan.run_list chains ops)) \<and>
      distinct (map (map cand_id) (List.map_filter (\<lambda>x. x) (plan.run_list chains ops)))"
proof -
  let ?p = "fst (chain_plan_new st gates exits now)"
  have inv: "plan_inv ?p" and t: "todo ?p = product_lists (map candidates (layers ?p))"
    using chain_plan_new_refines [OF refl] by auto
  have "distinct (map (map cand_id) (todo ?p))"
    unfolding t using inv by (intro product_lists_distinct_ids) (auto simp: plan_inv_def layer_ok_def list_all_iff)
  then show ?thesis
    using plan.run_source_refines [OF inv, of ops] plan.run_list_distinct [of "map cand_id" "todo ?p"] t
    by (simp add: Let_def)
qed

subsection \<open>Attribution of failures\<close>

text \<open>The hops a failure is booked on, and the hop the plan stops using.\<close>

definition blamed :: "hop list \<Rightarrow> chain_stage \<Rightarrow> connect_error \<Rightarrow> hop list" where
  "blamed h stg e =
     (if \<not> counts_against_upstream e then []
      else case stg of
             StageConnect \<Rightarrow> [hd h]
           | StageTarget \<Rightarrow> [last h]
           | StageHop i \<Rightarrow>
               if i + 1 \<ge> length h then h else if is_upstream_down e then [h ! i] else [h ! i, h ! (i + 1)])"

definition convicted :: "hop list \<Rightarrow> chain_stage \<Rightarrow> connect_error \<Rightarrow> hop option" where
  "convicted h stg e =
     (case blamed h stg e of
        [x] \<Rightarrow> (case stg of StageHop i \<Rightarrow> if i + 1 < length h then Some x else None | _ \<Rightarrow> Some x)
      | _ \<Rightarrow> None)"

text \<open>An update of the store that keeps every rotator sound and touches only the slots of the hops \<open>xs\<close>.\<close>

definition booked :: "hashers \<Rightarrow> hop list \<Rightarrow> rotator_store \<Rightarrow> rotator_store \<Rightarrow> bool" where
  "booked hs xs st st' \<longleftrightarrow>
     (\<forall>r. rotator_inv (hs r) (st' r) \<and> proxies (st' r) = proxies (st r) \<and>
        (\<forall>i < length (proxies (st r)).
           (\<forall>x \<in> set xs. hop_rotator x = r \<longrightarrow> node_id (proxies (st r) ! i) \<noteq> node_id (hop_proxy x)) \<longrightarrow>
           slot (st' r) i = slot (st r) i))"

lemma booked_refl: "(\<And>r. rotator_inv (hs r) (st r)) \<Longrightarrow> booked hs [] st st"
  by (simp add: booked_def)

lemma booked_trans: "booked hs xs st st1 \<Longrightarrow> booked hs ys st1 st2 \<Longrightarrow> booked hs (xs @ ys) st st2"
  unfolding booked_def by (simp add: ball_Un)

lemma booked_inv: "booked hs xs st st1 \<Longrightarrow> rotator_inv (hs r) (st1 r)"
  by (simp add: booked_def)

lemma booked_soft_hop:
  assumes "\<And>r. rotator_inv (hs r) (st r)"
  shows "booked hs [x] st (soft_hop hs st x now)"
  using assms rotator_inv_step [OF ro_failure assms] record_other_slot(1) [OF assms]
  by (simp add: booked_def soft_hop_def)

lemma record_error_other_slot:
  assumes "rotator_inv hash r" "i < length (proxies r)" "node_id (proxies r ! i) \<noteq> node_id p"
  shows "slot (snd (record_error hash r p e now)) i = slot r i"
  using record_other_slot [OF assms] by (simp add: record_error_def)

lemma booked_hard_hop:
  assumes "\<And>r. rotator_inv (hs r) (st r)"
  shows "booked hs [x] st (snd (hard_hop hs st x e now))"
  using assms rotator_inv_step [OF ro_error assms] record_error_other_slot [OF assms]
  by (simp add: booked_def hard_hop_def case_prod_beta)

lemma booked_soft_hops:
  "(\<And>r. rotator_inv (hs r) (st r)) \<Longrightarrow> booked hs xs st (foldl (\<lambda>st x. soft_hop hs st x now) st xs)"
proof (induction xs arbitrary: st)
  case (Cons x xs)
  have b: "booked hs [x] st (soft_hop hs st x now)" using booked_soft_hop Cons.prems by blast
  from booked_trans [OF b Cons.IH [OF booked_inv [OF b]]] show ?case by simp
qed (simp add: booked_refl)

lemma chain_record_failure_books:
  assumes "plan_inv p" and "\<And>r. rotator_inv (hs r) (st r)" and "hops pick \<noteq> []"
  shows "\<exists>q p' st'. chain_record_failure hs st p pick stg e now = Some (q, p', st') \<and>
    booked hs (blamed (hops pick) stg e) st st' \<and> plan_inv p' \<and>
    todo p' = (case convicted (hops pick) stg e of
                 None \<Rightarrow> todo p
               | Some x \<Rightarrow> filter (\<lambda>cs. \<not> chain_marked (hop_proxy x) cs) (todo p))"
proof -
  let ?h = "hops pick"
  note refl' = booked_refl [of hs st, OF assms(2)]
  note hard = booked_hard_hop [of hs st, OF assms(2)]
  have mark: "plan_inv (mark_dead p n) \<and> todo (mark_dead p n) = filter (\<lambda>cs. \<not> chain_marked n cs) (todo p)" for n
    by (rule plan.mark_law [OF assms(1)])
  show ?thesis
  proof (cases "counts_against_upstream e")
    case False
    then show ?thesis using refl' assms(1) by (simp add: chain_record_failure_def blamed_def convicted_def)
  next
    case c: True
    show ?thesis
    proof (cases stg)
      case StageConnect
      then show ?thesis using c assms(3) hard [of "?h ! 0" e now] mark
        by (simp add: chain_record_failure_def blamed_def convicted_def case_prod_beta hd_conv_nth Let_def)
    next
      case StageTarget
      then show ?thesis using c assms(3) hard [of "last ?h" e now] mark
        by (simp add: chain_record_failure_def blamed_def convicted_def case_prod_beta Let_def)
    next
      case (StageHop i)
      have two: "booked hs [?h ! i, ?h ! (i + 1)] st (soft_hop hs (soft_hop hs st (?h ! i) now) (?h ! (i + 1)) now)"
        using booked_soft_hops [of hs st "[?h ! i, ?h ! (i + 1)]" now, OF assms(2)] by simp
      show ?thesis
        using StageHop c hard [of "?h ! i" e now] mark [of "hop_proxy (?h ! i)"] assms(1) two
          booked_soft_hops [of hs st ?h now, OF assms(2)]
        by (cases "i + 1 < length ?h"; cases "is_upstream_down e")
          (simp_all add: chain_record_failure_def blamed_def convicted_def case_prod_beta Let_def split: list.splits)
    qed
  qed
qed

text \<open>
  What a failure costs. The hops that are charged, in order, each with whether the error says that it is
  down (a hard charge) or only that a chain through it failed (a soft one).
\<close>

definition charges :: "hop list \<Rightarrow> chain_stage \<Rightarrow> connect_error \<Rightarrow> (hop \<times> bool) list" where
  "charges h stg e =
     (if \<not> counts_against_upstream e then []
      else case stg of
             StageConnect \<Rightarrow> [(hd h, is_upstream_down e)]
           | StageTarget \<Rightarrow> [(last h, is_upstream_down e)]
           | StageHop i \<Rightarrow>
               if i + 1 \<ge> length h then map (\<lambda>x. (x, False)) h
               else if is_upstream_down e then [(h ! i, True)] else [(h ! i, False), (h ! (i + 1), False)])"

text \<open>
  A soft charge lowers the rating of the upstream's slot, when ratings are on; a hard charge also counts a
  failure in its quarantine cell, when quarantine is on.
\<close>

definition charge_slot :: "rating_policy \<Rightarrow> quarantine_policy \<Rightarrow> instant \<Rightarrow> sand \<times> cell \<Rightarrow> hop \<times> bool \<Rightarrow> sand \<times> cell" where
  "charge_slot rp qp now = (\<lambda>(s, c) (_, hard).
     (if rating_enabled rp then observe_failure s now rp else s,
      if hard \<and> quarantine_enabled qp then snd (hard_failure c now qp) else c))"

definition charges_of :: "nat \<Rightarrow> proxy_config \<Rightarrow> (hop \<times> bool) list \<Rightarrow> (hop \<times> bool) list" where
  "charges_of r p = filter (\<lambda>(x, _). hop_rotator x = r \<and> node_id (hop_proxy x) = node_id p)"

text \<open>A rotator without its slots.\<close>

definition other_parts :: "rotator \<Rightarrow> rotator" where
  "other_parts r = r\<lparr>rot_ratings := (rot_ratings r)\<lparr>cells := [], qcells := []\<rparr>\<rparr>"

definition charged :: "instant \<Rightarrow> (hop \<times> bool) list \<Rightarrow> rotator_store \<Rightarrow> rotator_store \<Rightarrow> bool" where
  "charged now cs st st' \<longleftrightarrow>
     (\<forall>r. other_parts (st' r) = other_parts (st r) \<and>
        (\<forall>i < length (proxies (st r)).
           slot (st' r) i =
             foldl (charge_slot (policy (rot_ratings (st r))) (qpolicy (rot_ratings (st r))) now) (slot (st r) i)
               (charges_of r (proxies (st r) ! i) cs)))"

text \<open>The quarantines the hard charges start, as they are reported to the caller.\<close>

definition reported :: "instant \<Rightarrow> (hop \<times> bool) list \<Rightarrow> rotator_store \<Rightarrow> quarantined list" where
  "reported now cs st =
     concat (map (\<lambda>(x, hard).
       let r = st (hop_rotator x); qp = qpolicy (rot_ratings r)
       in case position (\<lambda>p. node_id p = node_id (hop_proxy x)) (proxies r) of
            None \<Rightarrow> []
          | Some i \<Rightarrow>
              if hard \<and> quarantine_enabled qp
              then (case fst (hard_failure (snd (slot r i)) now qp) of
                      Some len \<Rightarrow> [\<lparr>q_proxy = hop_proxy x, q_length = len\<rparr>] | None \<Rightarrow> [])
              else []) cs)"

lemma other_parts_D:
  assumes "other_parts a = other_parts b"
  shows "proxies a = proxies b" "policy (rot_ratings a) = policy (rot_ratings b)"
    "qpolicy (rot_ratings a) = qpolicy (rot_ratings b)"
  using arg_cong [OF assms, of proxies] arg_cong [OF assms, of "\<lambda>r. policy (rot_ratings r)"]
    arg_cong [OF assms, of "\<lambda>r. qpolicy (rot_ratings r)"]
  by (simp_all add: other_parts_def)

lemma charged_refl: "charged now [] st st"
  by (simp add: charged_def charges_of_def)

lemma charged_trans:
  assumes "charged now cs st st1" "charged now ds st1 st2"
  shows "charged now (cs @ ds) st st2"
  unfolding charged_def
proof (intro allI conjI impI)
  fix r
  have o1: "other_parts (st1 r) = other_parts (st r)" and o2: "other_parts (st2 r) = other_parts (st1 r)"
    using assms by (simp_all add: charged_def)
  then show "other_parts (st2 r) = other_parts (st r)" by simp
  fix i assume "i < length (proxies (st r))"
  with assms other_parts_D [OF o1] show "slot (st2 r) i =
      foldl (charge_slot (policy (rot_ratings (st r))) (qpolicy (rot_ratings (st r))) now) (slot (st r) i)
        (charges_of r (proxies (st r) ! i) (cs @ ds))"
    by (simp add: charged_def charges_of_def)
qed

lemma index_of_iff:
  assumes "rotator_inv hash r" "i < length (proxies r)"
  shows "index_of hash r p = Some i \<longleftrightarrow> node_id (proxies r ! i) = node_id p"
proof
  assume n: "node_id (proxies r ! i) = node_id p"
  have d: "distinct (map node_id (proxies r))" and ix: "index_of hash r p = position (same_upstream p) (proxies r)"
    using assms(1) index_of_position by (auto simp: rotator_inv_def slots_inv_def)
  have "index_of hash r p \<noteq> None"
    using n assms(2) by (auto simp: ix position_None same_upstream_iff intro!: bexI [of _ "proxies r ! i"])
  then obtain j where j: "index_of hash r p = Some j" by blast
  with index_of_Some [OF assms(1) j] n assms(2) d show "index_of hash r p = Some i"
    using nth_eq_iff_index_eq [of "map node_id (proxies r)" i j] by simp
qed (use index_of_Some [OF assms(1)] in blast)

lemma slots_length: "rotator_inv hash r \<Longrightarrow> length (cells (rot_ratings r)) = length (proxies r)"
  "rotator_inv hash r \<Longrightarrow> length (qcells (rot_ratings r)) = length (proxies r)"
  by (simp_all add: rotator_inv_def ratings_inv_def ratings_len_def)

text \<open>One charge on a rotator.\<close>

lemma record_failure_charge:
  assumes "rotator_inv hash r" "i < length (proxies r)"
  shows "slot (record_failure hash r (hop_proxy x) now) i =
      (if node_id (hop_proxy x) = node_id (proxies r ! i)
       then charge_slot (policy (rot_ratings r)) (qpolicy (rot_ratings r)) now (slot r i) (x, False) else slot r i)"
  using assms(2) index_of_iff [OF assms, of "hop_proxy x"] slots_length [OF assms(1)]
  by (cases "index_of hash r (hop_proxy x)")
    (auto simp: record_failure_def on_failure_def slot_def charge_slot_def nth_list_update)

lemma record_hard_failure_charge:
  assumes "rotator_inv hash r" "i < length (proxies r)"
  shows "slot (snd (record_hard_failure hash r (hop_proxy x) now)) i =
      (if node_id (hop_proxy x) = node_id (proxies r ! i)
       then charge_slot (policy (rot_ratings r)) (qpolicy (rot_ratings r)) now (slot r i) (x, True) else slot r i)"
  using assms(2) index_of_iff [OF assms, of "hop_proxy x"] slots_length [OF assms(1)]
  by (cases "index_of hash r (hop_proxy x)")
    (auto simp: record_hard_failure_def on_hard_failure_def slot_def charge_slot_def nth_list_update
      Let_def case_prod_beta)

lemma record_other_parts:
  "other_parts (record_failure hash r p now) = other_parts r"
  "other_parts (snd (record_hard_failure hash r p now)) = other_parts r"
  by (simp_all add: record_failure_def on_failure_def record_hard_failure_def on_hard_failure_def other_parts_def
      Let_def case_prod_beta split: option.split)

lemma charged_soft_hop:
  assumes "\<And>r. rotator_inv (hs r) (st r)"
  shows "charged now [(x, False)] st (soft_hop hs st x now)"
  using record_failure_charge [OF assms]
  by (auto simp: charged_def soft_hop_def record_other_parts charges_of_def)

lemma charged_soft_hops:
  assumes "\<And>r. rotator_inv (hs r) (st r)"
  shows "charged now (map (\<lambda>x. (x, False)) xs) st (foldl (\<lambda>st x. soft_hop hs st x now) st xs)"
  using assms
proof (induction xs arbitrary: st)
  case (Cons x xs)
  have "rotator_inv (hs r) (soft_hop hs st x now r)" for r
    using booked_inv [OF booked_soft_hop] Cons.prems by blast
  from charged_trans [OF charged_soft_hop [of hs st, OF Cons.prems] Cons.IH [OF this]] show ?case by simp
qed (simp add: charged_refl)

lemma charged_hard_hop:
  assumes "\<And>r. rotator_inv (hs r) (st r)" "counts_against_upstream e"
  shows "charged now [(x, is_upstream_down e)] st (snd (hard_hop hs st x e now))"
  using record_failure_charge [OF assms(1)] record_hard_failure_charge [OF assms(1)] assms(2)
  by (auto simp: charged_def hard_hop_def record_error_def case_prod_beta record_other_parts charges_of_def)

lemma index_of_node:
  assumes "rotator_inv hash r"
  shows "index_of hash r p = position (\<lambda>q. node_id q = node_id p) (proxies r)"
proof -
  have "same_upstream p = (\<lambda>q. node_id q = node_id p)" by (auto simp: fun_eq_iff same_upstream_iff)
  with assms show ?thesis by (simp add: index_of_position rotator_inv_def)
qed

lemma reported_hard_hop:
  assumes "rotator_inv (hs (hop_rotator x)) (st (hop_rotator x))" "counts_against_upstream e"
  shows "fst (hard_hop hs st x e now) = reported now [(x, is_upstream_down e)] st"
proof -
  let ?r = "st (hop_rotator x)"
  note ix = index_of_node [OF assms(1), of "hop_proxy x"]
  show ?thesis
  proof (cases "position (\<lambda>q. node_id q = node_id (hop_proxy x)) (proxies ?r)")
    case None
    then show ?thesis
      using assms(2) by (simp add: hard_hop_def record_error_def record_hard_failure_def reported_def ix Let_def)
  next
    case (Some i)
    then have "i < length (cells (rot_ratings ?r))"
      using position_SomeD(1) [OF Some] slots_length [OF assms(1)] by simp
    then show ?thesis
      using assms(2) Some
      by (simp add: hard_hop_def record_error_def record_hard_failure_def on_hard_failure_def reported_def ix
          slot_def Let_def case_prod_beta split: option.split)
  qed
qed

lemma reported_soft: "\<forall>(x, hard) \<in> set cs. \<not> hard \<Longrightarrow> reported now cs st = []"
  by (auto simp: reported_def Let_def split: option.splits)

lemma chain_record_failure_charges:
  assumes "\<And>r. rotator_inv (hs r) (st r)" and "hops pick \<noteq> []"
    and "chain_record_failure hs st p pick stg e now = Some (q, p', st')"
  shows "charged now (charges (hops pick) stg e) st st' \<and> q = reported now (charges (hops pick) stg e) st"
proof (cases "counts_against_upstream e")
  case False
  then show ?thesis
    using assms(3) by (auto simp: chain_record_failure_def charges_def charged_refl reported_def)
next
  case c: True
  let ?h = "hops pick"
  have hard: "charged now [(x, is_upstream_down e)] st (snd (hard_hop hs st x e now))"
    "fst (hard_hop hs st x e now) = reported now [(x, is_upstream_down e)] st" for x
    using charged_hard_hop [of hs st, OF assms(1) c] reported_hard_hop [of hs x st, OF assms(1) c] by blast+
  show ?thesis
  proof (cases stg)
    case StageConnect
    then show ?thesis
      using assms(2,3) c hard [of "?h ! 0"]
      by (auto simp: chain_record_failure_def charges_def case_prod_beta Let_def hd_conv_nth)
  next
    case StageTarget
    then show ?thesis
      using assms(2,3) c hard [of "last ?h"]
      by (auto simp: chain_record_failure_def charges_def case_prod_beta Let_def)
  next
    case (StageHop i)
    have two: "charged now [(?h ! i, False), (?h ! (i + 1), False)] st (soft_hop hs (soft_hop hs st (?h ! i) now) (?h ! (i + 1)) now)"
      using charged_soft_hops [of hs st now "[?h ! i, ?h ! (i + 1)]", OF assms(1)] by simp
    show ?thesis
      using StageHop assms(3) c hard [of "?h ! i"] two
        charged_soft_hops [of hs st now ?h, OF assms(1)]
      by (cases "i + 1 < length ?h"; cases "is_upstream_down e")
        (auto simp: chain_record_failure_def charges_def case_prod_beta Let_def reported_soft)
  qed
qed

text \<open>
  C11: a chain failure is charged to the right hops, by the right amount. Recording a failure never panics on
  a pick with hops. An error that is not an upstream's fault charges nobody; a failed connect charges the first
  hop, a failure at the target the last, hard when the error says the upstream is down and softly otherwise; a
  failed handshake of an intermediate hop charges it alone, hard, when it is known to be down, and softly it and
  its successor otherwise; a handshake index past the last hop charges every hop softly. The slot of every
  upstream in every rotator is what exactly its charges make of it, in order: a lower rating, and for a hard
  charge one more failure in the quarantine cell; the slots of all others and the rest of every rotator are as
  before, and every rotator stays sound. The quarantines those charges start, and no others, are reported. The
  plan loses exactly the remaining chains through the one convicted hop, when there is one.
\<close>

theorem chain_failure_attribution:
  assumes "plan_inv p" and "\<And>r. rotator_inv (hs r) (st r)" and "hops pick \<noteq> []"
  shows "\<exists>q p' st'. chain_record_failure hs st p pick stg e now = Some (q, p', st') \<and>
    charged now (charges (hops pick) stg e) st st' \<and> q = reported now (charges (hops pick) stg e) st \<and>
    booked hs (blamed (hops pick) stg e) st st' \<and> plan_inv p' \<and>
    todo p' = (case convicted (hops pick) stg e of
                 None \<Rightarrow> todo p
               | Some x \<Rightarrow> filter (\<lambda>cs. \<not> chain_marked (hop_proxy x) cs) (todo p))"
  using chain_record_failure_books [of p hs st pick stg e now, OF assms]
    chain_record_failure_charges [of hs st pick p stg e now, OF assms(2,3)] by blast

subsection \<open>Witness\<close>

text \<open>Two one-upstream layers over one shared rotator: the exit fails authentication.\<close>

definition demo_pick :: chain_pick where
  "demo_pick = \<lparr>hops = [\<lparr>hop_rotator = 0, hop_proxy = proxy_socks5 (ascii ''a'') 1\<rparr>],
     pick_key = proxy_socks5 (ascii ''a'') 1\<rparr>"

theorem chain_failure_attribution_witness:
  "\<exists>q p' st'. chain_record_failure (\<lambda>_. demo_hash) (\<lambda>_. demo_rotator)
      (fst (chain_plan_new (\<lambda>_. demo_rotator) [] [0] 0)) demo_pick StageTarget (AuthFailed 1) 0 = Some (q, p', st') \<and>
    q = [\<lparr>q_proxy = proxy_socks5 (ascii ''a'') 1, q_length = from_secs 30\<rparr>] \<and>
    trips (snd (slot (st' 0) 0)) = 1 \<and> slot (st' 0) 1 = slot demo_rotator 1"
proof -
  have inv: "rotator_inv demo_hash demo_rotator" using rotator_reachable_inv [OF demo_rotator_reachable] by simp
  have pl: "plan_inv (fst (chain_plan_new (\<lambda>_. demo_rotator) [] [0] 0))"
    using chain_plan_new_refines [OF refl] by blast
  have ne: "hops demo_pick \<noteq> []" by (simp add: demo_pick_def)
  have cs: "charges (hops demo_pick) StageTarget (AuthFailed 1) = [(hd (hops demo_pick), True)]"
    by (simp add: charges_def demo_pick_def)
  obtain q p' st' where r: "chain_record_failure (\<lambda>_. demo_hash) (\<lambda>_. demo_rotator)
      (fst (chain_plan_new (\<lambda>_. demo_rotator) [] [0] 0)) demo_pick StageTarget (AuthFailed 1) 0 = Some (q, p', st')"
    and b: "charged 0 [(hd (hops demo_pick), True)] (\<lambda>_. demo_rotator) st'"
    and q: "q = reported 0 [(hd (hops demo_pick), True)] (\<lambda>_. demo_rotator)"
    using chain_failure_attribution [OF pl, of "\<lambda>_. demo_hash" "\<lambda>_. demo_rotator" demo_pick StageTarget "AuthFailed 1" 0]
      inv ne unfolding cs by blast
  have ps: "length (proxies demo_rotator) = 2" "node_id (proxies demo_rotator ! 0) = node_id (proxy_socks5 (ascii ''a'') 1)"
    "node_id (proxies demo_rotator ! 1) \<noteq> node_id (proxy_socks5 (ascii ''a'') 1)"
    by (simp_all add: demo_rotator_def node_id_def proxy_socks5_def proxy_http_def proxy_new_def)
  have at: "charges_of 0 (proxies demo_rotator ! 0) [(hd (hops demo_pick), True)] = [(hd (hops demo_pick), True)]"
    "charges_of 0 (proxies demo_rotator ! 1) [(hd (hops demo_pick), True)] = []"
    using ps(2,3) by (simp_all add: charges_of_def demo_pick_def)
  have d: "duration_for demo_qpolicy 1 = from_secs 30"
    by (simp add: duration_for_def demo_qpolicy_def default_quarantine_policy_def from_secs_def)
  have h: "hard_failure (snd (slot demo_rotator 0)) 0 (qpolicy (rot_ratings demo_rotator)) =
      (Some (from_secs 30), \<lparr>consecutive = 1, trips = 1, until = Some (from_secs 30), lease_until = None\<rparr>)"
    by (simp add: slot_def demo_rotator_def demo_ratings_def hard_failure_def default_cell_def cell_state_def d
        demo_qpolicy_def [THEN arg_cong, of threshold] saturating_add_u32_def deadline_def instant_checked_add_def
        from_secs_def instant_max_def Let_def)
  have e: "quarantine_enabled (qpolicy (rot_ratings demo_rotator))"
    by (simp add: demo_rotator_def demo_ratings_def demo_qpolicy_def default_quarantine_policy_def quarantine_enabled_def)
  have "slot (st' 0) 0 = charge_slot (policy (rot_ratings demo_rotator)) (qpolicy (rot_ratings demo_rotator)) 0
      (slot demo_rotator 0) (hd (hops demo_pick), True)"
    using b at(1) ps(1) by (auto simp: charged_def)
  then have "trips (snd (slot (st' 0) 0)) = 1" using h e by (simp add: charge_slot_def case_prod_beta)
  moreover have "slot (st' 0) 1 = slot demo_rotator 1" using b at(2) ps(1) by (auto simp: charged_def)
  moreover have "position (\<lambda>p. node_id p = node_id (proxy_socks5 (ascii ''a'') 1)) (proxies demo_rotator) = Some 0"
    using ps(1,2) by (auto simp: position_Some)
  then have "q = [\<lparr>q_proxy = proxy_socks5 (ascii ''a'') 1, q_length = from_secs 30\<rparr>]"
    unfolding q using h e by (simp add: reported_def demo_pick_def Let_def)
  ultimately show ?thesis using r by blast
qed

end
