(* ===== verification/EstablishSpec.thy ===== *)
theory EstablishSpec
  imports Establish ChainPlanSpec
begin

text \<open>
  A request is routed within its budget, tries no route twice, keeps the rotators sound and leaves its
  direct upstreams a try.
\<close>

declare split_paired_All [simp del] split_paired_Ex [simp del]

subsection \<open>Stores\<close>

definition store_ok :: "hashers \<Rightarrow> rotator_store \<Rightarrow> bool" where
  "store_ok hs st \<longleftrightarrow> (\<forall>r. rotator_inv (hs r) (st r))"

lemma store_okD: "store_ok hs st \<Longrightarrow> rotator_inv (hs r) (st r)"
  by (simp add: store_ok_def)

lemma store_ok_step: "store_ok hs st \<Longrightarrow> rotator_step (hs r) (st r) x \<Longrightarrow> store_ok hs (st(r := x))"
  using rotator_inv_step [of "hs r" "st r" x] by (simp add: store_ok_def)

lemma store_ok_order: "store_ok hs st \<Longrightarrow> store_ok hs (snd (order_hops st r now))"
  using store_ok_step [of hs st r "snd (pick_order (st r) now)"] by (simp add: order_hops_def case_prod_beta ro_order)

lemma store_ok_gate_layers: "store_ok hs st \<Longrightarrow> store_ok hs (snd (gate_layers st ls now))"
proof (induction ls arbitrary: st)
  case (Cons l ls)
  then show ?case using store_ok_order [OF Cons.prems, of "snd l" now]
    by (cases l) (simp add: case_prod_beta Let_def)
qed simp

lemma store_ok_exit_hops: "store_ok hs st \<Longrightarrow> store_ok hs (snd (exit_hops st rs now))"
proof (induction rs arbitrary: st)
  case (Cons r rs)
  then show ?case using store_ok_order [OF Cons.prems, of r now] by (simp add: case_prod_beta Let_def)
qed simp

lemma store_ok_plan: "store_ok hs st \<Longrightarrow> store_ok hs (snd (chain_plan_new st gates exits now))"
  using store_ok_exit_hops [OF store_ok_gate_layers] by (simp add: chain_plan_new_def case_prod_beta Let_def)

lemma store_ok_success: "store_ok hs st \<Longrightarrow> store_ok hs (pick_record_success hs st pick now)"
proof -
  have "store_ok hs st \<Longrightarrow> store_ok hs (foldl (\<lambda>st h. st(hop_rotator h := record_success (hs (hop_rotator h)) (st (hop_rotator h)) (hop_proxy h) now)) st xs)" for xs
    by (induction xs arbitrary: st) (auto intro: store_ok_step ro_success)
  then show "store_ok hs st \<Longrightarrow> store_ok hs (pick_record_success hs st pick now)" by (simp add: pick_record_success_def)
qed

lemma chain_failure_ok:
  assumes "plan_inv p" "store_ok hs st" "hops pick \<noteq> []"
  shows "\<exists>q p' st'. chain_record_failure hs st p pick stg e now = Some (q, p', st') \<and> store_ok hs st' \<and> plan_inv p' \<and>
    set (todo p') \<subseteq> set (todo p) \<and> length (todo p') \<le> length (todo p)"
proof -
  obtain q p' st' where r: "chain_record_failure hs st p pick stg e now = Some (q, p', st')"
    "booked hs (blamed (hops pick) stg e) st st'" "plan_inv p'"
    "todo p' = (case convicted (hops pick) stg e of None \<Rightarrow> todo p | Some x \<Rightarrow> filter (\<lambda>cs. \<not> chain_marked (hop_proxy x) cs) (todo p))"
    using chain_record_failure_books [of p hs st pick stg e now] store_okD [OF assms(2)] assms(1,3) by blast
  have "store_ok hs st'" using booked_inv [OF r(2)] by (simp add: store_ok_def)
  then show ?thesis using r(1,3,4) by (auto split: option.splits)
qed

subsection \<open>Routes\<close>

text \<open>The routes that are dialled or queued, by the identity of their nodes.\<close>

definition route_ids :: "routing \<Rightarrow> node_id list list" where
  "route_ids y = map key_ids (ro_dialed y) @ map (\<lambda>c. key_ids (singleton_key (uc_proxy c))) (ro_cands y)"

definition routes_ok :: "routing \<Rightarrow> bool" where
  "routes_ok y \<longleftrightarrow> length (ro_dialed y) = ro_attempts y \<and> distinct (route_ids y) \<and> key_ids ` set (ro_tried y) = set (route_ids y) \<and>
     (\<forall>k \<in> set (ro_dialed y). 2 \<le> length (key_ids k)) \<and> ro_raced y = []"

lemma routes_ok_cong:
  "ro_dialed z = ro_dialed y \<Longrightarrow> ro_attempts z = ro_attempts y \<Longrightarrow> ro_cands z = ro_cands y \<Longrightarrow> ro_tried z = ro_tried y \<Longrightarrow>
    ro_raced z = ro_raced y \<Longrightarrow> routes_ok z = routes_ok y"
  by (simp add: routes_ok_def route_ids_def)

lemma routes_ok_spend:
  assumes "routes_ok y" "\<not> key_mem (pick_key pick) (ro_tried y)" "2 \<le> length (key_ids (pick_key pick))"
  shows "routes_ok (spend pick y)"
  using assms by (auto simp: routes_ok_def spend_def route_ids_def key_insert_ids key_mem_ids)

lemma routes_ok_queue:
  assumes "routes_ok y" "\<not> key_mem (singleton_key (uc_proxy c)) (ro_tried y)"
  shows "routes_ok (y\<lparr>ro_tried := key_insert (singleton_key (uc_proxy c)) (ro_tried y), ro_cands := ro_cands y @ [c]\<rparr>)"
  using assms by (auto simp: routes_ok_def route_ids_def key_insert_ids key_mem_ids)

definition plan_ok :: "routing \<Rightarrow> bool" where
  "plan_ok y \<longleftrightarrow> (case ro_plan y of None \<Rightarrow> True | Some p \<Rightarrow> plan_inv p \<and> (\<forall>cs \<in> set (todo p). 2 \<le> length cs))"

definition routing_ok :: "hashers \<Rightarrow> nat \<Rightarrow> routing \<Rightarrow> bool" where
  "routing_ok hs budget y \<longleftrightarrow> store_ok hs (ro_store y) \<and> routes_ok y \<and> plan_ok y \<and> ro_attempts y \<le> budget"

lemma routing_ok_store: "routing_ok hs budget y \<Longrightarrow> store_ok hs st \<Longrightarrow> routing_ok hs budget (y\<lparr>ro_store := st\<rparr>)"
  using routes_ok_cong [of "y\<lparr>ro_store := st\<rparr>" y] by (simp add: routing_ok_def plan_ok_def)

lemma routing_ok_on_rotator:
  assumes "routing_ok hs budget y" "rotator_step (hs r) (ro_store y r) (f (ro_store y r))"
  shows "routing_ok hs budget (on_rotator r f y)"
  unfolding on_rotator_def by (rule routing_ok_store [OF assms(1)]) (use assms in \<open>simp add: routing_ok_def store_ok_step\<close>)

lemma routing_ok_plan:
  assumes "routing_ok hs budget y" "plan_inv p" "\<And>cs. cs \<in> set (todo p) \<Longrightarrow> 2 \<le> length cs"
  shows "routing_ok hs budget (y\<lparr>ro_plan := Some p\<rparr>)"
  using assms routes_ok_cong [of "y\<lparr>ro_plan := Some p\<rparr>" y] by (simp add: routing_ok_def plan_ok_def)

lemma routing_ok_spend:
  assumes "routing_ok hs budget y" "\<not> key_mem (pick_key pick) (ro_tried y)" "2 \<le> length (key_ids (pick_key pick))" "ro_attempts y < budget"
  shows "routing_ok hs budget (spend pick y)"
  using assms routes_ok_spend by (simp add: routing_ok_def plan_ok_def) (simp add: spend_def)

subsection \<open>Cached routes\<close>

lemma resolve_gates_length: "resolve_gates st ls ns = Some hs \<Longrightarrow> length hs = min (length ls) (length ns)"
  by (induction st ls ns arbitrary: hs rule: resolve_gates.induct) (auto split: if_splits option.splits)

lemma chain_key_ids: "proxy_chain ps = Some c \<Longrightarrow> key_ids c = map node_id ps"
  using proxy_chain_nodes [of ps] by (simp add: key_ids_def)

lemma nodes_gate: "pc_gate p \<noteq> None \<Longrightarrow> 2 \<le> length (nodes p)"
  by (cases "pc_gate p") (auto simp: nodes_def walk_simp [of p], metis One_nat_def Suc_leI length_greater_0_conv list.distinct(1) walk_simp)

lemma resolve_pick:
  assumes "resolve st gates exits p = Some pick" "pc_gate p \<noteq> None"
  shows "hops pick \<noteq> []" "2 \<le> length (key_ids (pick_key pick))"
proof -
  obtain hs e where h: "length (nodes p) = length gates + 1" "resolve_gates st gates (take (length gates) (nodes p)) = Some hs"
    "hops pick = hs @ [e]" "proxy_chain (map hop_proxy (hs @ [e])) = Some (pick_key pick)"
    using assms(1) by (auto simp: resolve_def Let_def Option.bind_eq_Some_conv split: if_splits)
  show "hops pick \<noteq> []" using h(3) by simp
  have "length hs = length gates" using resolve_gates_length [OF h(2)] h(1) by simp
  then show "2 \<le> length (key_ids (pick_key pick))" using chain_key_ids [OF h(4)] h(1) nodes_gate [OF assms(2)] by simp
qed

lemma plan_todo_lengths:
  assumes "cs \<in> set (todo (fst (chain_plan_new st gates exits now)))"
  shows "length cs = length gates + 1"
proof -
  let ?p = "fst (chain_plan_new st gates exits now)"
  have "length (layers ?p) = length gates + 1"
  proof -
    have "length (fst (gate_layers st gates now)) = length gates"
      by (induction gates arbitrary: st) (auto simp: case_prod_beta Let_def)
    then show ?thesis by (simp add: chain_plan_new_def case_prod_beta Let_def)
  qed
  moreover have "cs \<in> set (product_lists (map layer.candidates (layers ?p)))"
    using assms chain_plan_new_refines [of st gates exits now] by simp
  ultimately show ?thesis using in_set_product_lists_length [of cs] by simp
qed

text \<open>A plan without gates has no chain to give when there are no exits either.\<close>

lemma empty_plan: "todo (fst (chain_plan_new st [] [] now)) = []"
  using chain_plan_new_refines [of st "[]" "[]" now] by (simp add: chain_plan_new_def mk_layer_def)

lemma plan_for_failure_ok:
  assumes "routing_ok hs budget y" "gates \<noteq> []" "plan_for_failure gates exits budget now y = (p, y')"
  shows "plan_inv p" "\<And>cs. cs \<in> set (todo p) \<Longrightarrow> 2 \<le> length cs" "store_ok hs (ro_store y')" "y' = y\<lparr>ro_store := ro_store y'\<rparr>"
proof -
  have st: "store_ok hs (ro_store y)" using assms(1) by (simp add: routing_ok_def)
  have "plan_inv p \<and> (\<forall>cs \<in> set (todo p). 2 \<le> length cs) \<and> store_ok hs (ro_store y') \<and> y' = y\<lparr>ro_store := ro_store y'\<rparr>"
  proof (cases "ro_plan y")
    case None
    show ?thesis
    proof (cases "ro_attempts y + ro_reserve y < budget")
      case True
      then have p: "p = fst (chain_plan_new (ro_store y) gates exits now)" "y' = y\<lparr>ro_store := snd (chain_plan_new (ro_store y) gates exits now)\<rparr>"
        using assms(3) None by (auto simp: plan_for_failure_def case_prod_beta)
      have "2 \<le> length cs" if "cs \<in> set (todo p)" for cs
        using plan_todo_lengths [of cs "ro_store y" gates exits now] that assms(2) unfolding p(1) by (cases gates) auto
      then show ?thesis using chain_plan_new_refines [OF p(1) [symmetric]] store_ok_plan [OF st, of gates exits now] by (simp add: p(2))
    next
      case False
      then have p: "p = fst (chain_plan_new (ro_store y) [] [] now)" "y' = y\<lparr>ro_store := snd (chain_plan_new (ro_store y) [] [] now)\<rparr>"
        using assms(3) None by (auto simp: plan_for_failure_def case_prod_beta)
      then show ?thesis using chain_plan_new_refines [OF p(1) [symmetric]] store_ok_plan [OF st, of "[]" "[]" now] empty_plan [of "ro_store y" now]
        by (simp add: p(2))
    qed
  next
    case (Some q)
    then show ?thesis using assms st by (auto simp: plan_for_failure_def routing_ok_def plan_ok_def)
  qed
  then show "plan_inv p" "\<And>cs. cs \<in> set (todo p) \<Longrightarrow> 2 \<le> length cs" "store_ok hs (ro_store y')" "y' = y\<lparr>ro_store := ro_store y'\<rparr>" by auto
qed

lemma cached_chain_ok:
  assumes "routing_ok hs budget y" "gates \<noteq> []" "hops pick \<noteq> []" "2 \<le> length (key_ids (pick_key pick))"
  shows "\<exists>out z. cached_chain hs gates exits budget dials clk target r pick y = Some (out, z) \<and> routing_ok hs budget z \<and> ro_reserve z = ro_reserve y"
proof -
  have st: "store_ok hs (ro_store y)" using assms(1) by (simp add: routing_ok_def)
  have unlinked: "routing_ok hs budget (on_rotator r (\<lambda>x. unlink_proxy x target) x)" if "routing_ok hs budget x" for x
    by (rule routing_ok_on_rotator [OF that]) (rule ro_unlink)
  have res: "ro_reserve (on_rotator r f x) = ro_reserve x" for f x by (simp add: on_rotator_def)
  show ?thesis
  proof (cases "gates_quarantined hs (ro_store y) pick \<or> key_mem (pick_key pick) (ro_tried y) \<or> budget \<le> ro_attempts y")
    case True
    then show ?thesis using assms(1) unlinked [OF assms(1)] by (auto simp: cached_chain_def res)
  next
    case False
    let ?y1 = "spend pick y" let ?now = "clk (ro_attempts ?y1)"
    have y1: "routing_ok hs budget ?y1" "ro_reserve ?y1 = ro_reserve y"
      using routing_ok_spend [OF assms(1) _ assms(4)] False by (auto simp: spend_def)
    show ?thesis
    proof (cases "dials (ro_attempts ?y1) (pick_key pick)")
      case (Inr u)
      have "routing_ok hs budget (?y1\<lparr>ro_store := pick_record_success hs (ro_store ?y1) pick ?now\<rparr>)"
        by (rule routing_ok_store [OF y1(1)]) (use y1(1) in \<open>simp add: routing_ok_def store_ok_success\<close>)
      then show ?thesis using False Inr y1(2) by (simp add: cached_chain_def Let_def)
    next
      case (Inl x)
      obtain p y2 where p: "plan_for_failure gates exits budget ?now ?y1 = (p, y2)" by fastforce
      note po = plan_for_failure_ok [OF y1(1) assms(2) p]
      obtain q p' st' where f: "chain_record_failure hs (ro_store y2) p pick (ce_stage x) (ce_error x) ?now = Some (q, p', st')"
        "store_ok hs st'" "plan_inv p'" "set (todo p') \<subseteq> set (todo p)"
        using chain_failure_ok [OF po(1,3) assms(3)] by blast
      have "routing_ok hs budget y2" using routing_ok_store [OF y1(1) po(3)] po(4) by simp
      from routing_ok_plan [OF routing_ok_store [OF this f(2)] f(3)] po(2) f(4)
      have z: "routing_ok hs budget (y2\<lparr>ro_store := st', ro_plan := Some p'\<rparr>)" by auto
      have "ro_reserve y2 = ro_reserve y" using y1(2) arg_cong [OF po(4), of ro_reserve] by simp
      then show ?thesis using False Inl p f(1) unlinked [OF z] by (simp add: cached_chain_def Let_def res)
    qed
  qed
qed

lemma cached_route_ok:
  assumes "routing_ok hs budget y"
  shows "\<exists>out z. cached_route hs gates exits budget dials clk target r y = Some (out, z) \<and> routing_ok hs budget z \<and> ro_reserve y \<le> ro_reserve z"
proof -
  obtain hit rot where g: "get_linked (hs r) (ro_store y r) target (clk (ro_attempts y)) = (hit, rot)" by fastforce
  let ?y = "y\<lparr>ro_store := (ro_store y)(r := rot)\<rparr>"
  have "rotator_step (hs r) (ro_store y r) rot" using ro_get_linked [of "hs r" "ro_store y r" target "clk (ro_attempts y)"] by (simp add: g)
  then have y: "routing_ok hs budget ?y" using assms by (intro routing_ok_store) (auto simp: routing_ok_def store_ok_step)
  show ?thesis
  proof (cases hit)
    case None
    then show ?thesis using g y by (simp add: cached_route_def Let_def)
  next
    case (Some p)
    show ?thesis
    proof (cases "pc_gate p = None")
      case True
      show ?thesis
      proof (cases "key_mem (singleton_key p) (ro_tried ?y)")
        case True
        then show ?thesis using g y Some \<open>pc_gate p = None\<close> by (simp add: cached_route_def Let_def)
      next
        case False
        let ?c = "\<lparr>uc_rotator = r, uc_proxy = p, uc_cached = True\<rparr>"
        let ?z = "?y\<lparr>ro_tried := key_insert (singleton_key p) (ro_tried ?y), ro_cands := ro_cands ?y @ [?c]\<rparr>"
        have "routes_ok ?z" using routes_ok_queue [of ?y ?c] False y by (simp add: routing_ok_def)
        then have "routing_ok hs budget (?z\<lparr>ro_reserve := max (ro_reserve ?y) (length (ro_cands ?y @ [?c]))\<rparr>)"
          using y routes_ok_cong [of "?z\<lparr>ro_reserve := max (ro_reserve ?y) (length (ro_cands ?y @ [?c]))\<rparr>" ?z]
          by (simp add: routing_ok_def plan_ok_def)
        then show ?thesis using g Some \<open>pc_gate p = None\<close> False by (simp add: cached_route_def Let_def)
      qed
    next
      case gate: False
      show ?thesis
      proof (cases "resolve (ro_store ?y) gates [r] p")
        case None
        have "routing_ok hs budget (on_rotator r (\<lambda>x. unlink_proxy x target) ?y)" by (rule routing_ok_on_rotator [OF y]) (rule ro_unlink)
        then show ?thesis using g Some gate None by (auto simp: cached_route_def Let_def on_rotator_def)
      next
        case (Some pick)
        note rp = resolve_pick [OF Some gate]
        have "length (nodes p) = length gates + 1" using Some by (auto simp: resolve_def Let_def split: if_splits)
        then have "gates \<noteq> []" using nodes_gate [OF gate] by auto
        from cached_chain_ok [OF y this rp] obtain out z where
          "cached_chain hs gates exits budget dials clk target r pick ?y = Some (out, z)" "routing_ok hs budget z" "ro_reserve z = ro_reserve y"
          by fastforce
        then show ?thesis using g \<open>hit = Some p\<close> gate Some by (auto simp: cached_route_def Let_def)
      qed
    qed
  qed
qed

lemma cached_routes_ok:
  "routing_ok hs budget y \<Longrightarrow>
    \<exists>out z. cached_routes hs gates exits budget dials clk target rs y = Some (out, z) \<and> routing_ok hs budget z \<and> ro_reserve y \<le> ro_reserve z"
proof (induction rs arbitrary: y)
  case (Cons r rs)
  obtain out z where z: "cached_route hs gates exits budget dials clk target r y = Some (out, z)" "routing_ok hs budget z" "ro_reserve y \<le> ro_reserve z"
    using cached_route_ok [OF Cons.prems] by blast
  show ?case
  proof (cases out)
    case None
    then show ?thesis using z Cons.IH [OF z(2)] by fastforce
  qed (use z in simp)
qed simp

subsection \<open>Chains\<close>

lemma gate_loop_ok:
  assumes "routing_ok hs budget y" "plan_inv p" "\<And>cs. cs \<in> set (todo p) \<Longrightarrow> 2 \<le> length cs"
  shows "\<exists>out z. gate_loop hs budget dials clk target p y = Some (out, z) \<and> routing_ok hs budget z \<and> ro_reserve z = ro_reserve y \<and>
    ro_cands z = ro_cands y \<and> (\<forall>o'. out = Some o' \<longrightarrow> (\<exists>u. o' = Ok u)) \<and>
    (ro_attempts y < budget \<longrightarrow> 1 \<le> ro_reserve y \<longrightarrow> out = None \<longrightarrow> ro_attempts z < budget)"
  using assms
proof (induction "length (todo p)" arbitrary: p y rule: less_induct)
  case less
  note step = gate_loop.simps [of hs budget dials clk target p y]
  show ?case
  proof (cases "budget \<le> ro_attempts y + ro_reserve y")
    case True
    then have "gate_loop hs budget dials clk target p y = Some (None, y\<lparr>ro_plan := Some p\<rparr>)" by (simp add: step)
    then show ?thesis using routing_ok_plan [OF less.prems] by simp
  next
    case False
    obtain p1 where n: "next_pick p = Some (case todo p of [] \<Rightarrow> None | cs # _ \<Rightarrow> pick_of cs, p1)" "plan_inv p1" "todo p1 = tl (todo p)"
      using next_pick_refines [OF less.prems(2)] by blast
    show ?thesis
    proof (cases "todo p")
      case Nil
      then have "gate_loop hs budget dials clk target p y = Some (None, y\<lparr>ro_plan := Some p1\<rparr>)" using False n by (simp add: step)
      moreover have "routing_ok hs budget (y\<lparr>ro_plan := Some p1\<rparr>)" by (rule routing_ok_plan [OF less.prems(1) n(2)]) (use n(3) Nil in simp)
      ultimately show ?thesis by simp
    next
      case (Cons cs rest)
      have cs: "2 \<le> length cs" using less.prems(3) Cons by simp
      then have "cs \<noteq> []" by auto
      from pick_of_ids [OF this] obtain pick where
        pick: "pick_of cs = Some pick" "hops pick = map cand_hop cs" "key_ids (pick_key pick) = map cand_id cs" by blast
      have np: "next_pick p = Some (Some pick, p1)" using n(1) Cons pick(1) by simp
      have t1: "length (todo p1) < length (todo p)" "\<And>c. c \<in> set (todo p1) \<Longrightarrow> 2 \<le> length c" using n(3) Cons less.prems(3) by auto
      show ?thesis
      proof (cases "key_mem (pick_key pick) (ro_tried y)")
        case True
        then have "gate_loop hs budget dials clk target p y = gate_loop hs budget dials clk target p1 y" using False np by (simp add: step)
        then show ?thesis using less.hyps [OF t1(1) less.prems(1) n(2) t1(2)] by simp
      next
        case fresh: False
        let ?y1 = "spend pick y" let ?now = "clk (ro_attempts ?y1)"
        have y1: "routing_ok hs budget ?y1" using routing_ok_spend [OF less.prems(1) fresh] pick(3) cs False by simp
        have f: "ro_reserve ?y1 = ro_reserve y" "ro_cands ?y1 = ro_cands y" "ro_attempts ?y1 = ro_attempts y + 1" by (simp_all add: spend_def)
        have st: "store_ok hs (ro_store ?y1)" using y1 by (simp add: routing_ok_def)
        show ?thesis
        proof (cases "dials (ro_attempts ?y1) (pick_key pick)")
          case (Inr u)
          let ?z = "?y1\<lparr>ro_store := pick_record_success hs (ro_store ?y1) pick ?now, ro_plan := Some p1\<rparr>"
          have "routing_ok hs budget ?z"
            by (rule routing_ok_plan [OF routing_ok_store [OF y1 store_ok_success [OF st]] n(2) t1(2)])
          then have "routing_ok hs budget (on_rotator (hop_rotator (pick_exit pick)) (\<lambda>x. link_proxy x target (pick_key pick) ?now) ?z)"
            by (rule routing_ok_on_rotator) (rule ro_link)
          then show ?thesis using False np fresh Inr f by (simp add: step Let_def) (simp add: on_rotator_def)
        next
          case (Inl x)
          have "hops pick \<noteq> []" using pick(2) \<open>cs \<noteq> []\<close> by simp
          from chain_failure_ok [OF n(2) st this] obtain q p2 st' where
            c: "chain_record_failure hs (ro_store ?y1) p1 pick (ce_stage x) (ce_error x) ?now = Some (q, p2, st')" "store_ok hs st'" "plan_inv p2"
              "set (todo p2) \<subseteq> set (todo p1)" "length (todo p2) \<le> length (todo p1)" by blast
          have g: "gate_loop hs budget dials clk target p y = gate_loop hs budget dials clk target p2 (?y1\<lparr>ro_store := st'\<rparr>)"
            using False np fresh Inl c(1) by (simp add: step Let_def)
          have "length (todo p2) < length (todo p)" using c(5) t1(1) by simp
          from less.hyps [OF this routing_ok_store [OF y1 c(2)] c(3)] t1(2) c(4) obtain out z where
            z: "gate_loop hs budget dials clk target p2 (?y1\<lparr>ro_store := st'\<rparr>) = Some (out, z)" "routing_ok hs budget z" "ro_reserve z = ro_reserve y"
              "ro_cands z = ro_cands y" "\<forall>o'. out = Some o' \<longrightarrow> (\<exists>u. o' = Ok u)" "ro_attempts y + 1 < budget \<longrightarrow> 1 \<le> ro_reserve y \<longrightarrow> out = None \<longrightarrow> ro_attempts z < budget"
            using f by (auto simp: subset_iff)
          then show ?thesis unfolding g using False by auto
        qed
      qed
    qed
  qed
qed

lemma gate_routes_ok:
  assumes "routing_ok hs budget y"
  shows "\<exists>out z. gate_routes hs gates exits budget dials clk target y = Some (out, z) \<and> routing_ok hs budget z \<and> ro_reserve z = ro_reserve y \<and>
    ro_cands z = ro_cands y \<and> (\<forall>o'. out = Some o' \<longrightarrow> (\<exists>u. o' = Ok u)) \<and>
    (ro_attempts y < budget \<longrightarrow> 1 \<le> ro_reserve y \<longrightarrow> out = None \<longrightarrow> ro_attempts z < budget)"
proof (cases "gates = [] \<or> budget \<le> ro_attempts y + ro_reserve y")
  case True
  then show ?thesis using assms by (simp add: gate_routes_def)
next
  case False
  show ?thesis
  proof (cases "ro_plan y")
    case (Some p)
    then have "plan_inv p" "\<And>cs. cs \<in> set (todo p) \<Longrightarrow> 2 \<le> length cs" using assms by (auto simp: routing_ok_def plan_ok_def)
    from gate_loop_ok [OF assms this] show ?thesis using False Some by (simp add: gate_routes_def)
  next
    case None
    obtain p st where p: "chain_plan_new (ro_store y) gates exits (clk (ro_attempts y)) = (p, st)" by fastforce
    have pi: "plan_inv p" using chain_plan_new_refines [of "ro_store y" gates exits "clk (ro_attempts y)" p] p by simp
    have len: "2 \<le> length cs" if "cs \<in> set (todo p)" for cs
      using plan_todo_lengths [of cs "ro_store y" gates exits "clk (ro_attempts y)"] that p False by (cases gates) auto
    have "store_ok hs st" using store_ok_plan [of hs "ro_store y" gates exits "clk (ro_attempts y)"] assms p by (simp add: routing_ok_def)
    from gate_loop_ok [OF routing_ok_plan [OF routing_ok_store [OF assms this] pi len] pi len] show ?thesis
      using False None p by (simp add: gate_routes_def)
  qed
qed

subsection \<open>Single upstreams\<close>

lemma queue_direct_ok:
  "routing_ok hs budget y \<Longrightarrow> routing_ok hs budget (queue_direct budget r ps y) \<and> ro_attempts (queue_direct budget r ps y) = ro_attempts y \<and>
    (\<exists>xs. ro_cands (queue_direct budget r ps y) = ro_cands y @ xs)"
proof (induction budget r ps y rule: queue_direct.induct)
  case (2 budget r p ps y)
  show ?case
  proof (cases "key_mem (singleton_key p) (ro_tried y) \<or> budget \<le> ro_attempts y + length (ro_cands y)")
    case True
    then show ?thesis using 2(1,3) by auto
  next
    case False
    let ?c = "\<lparr>uc_rotator = r, uc_proxy = p, uc_cached = False\<rparr>"
    let ?y = "y\<lparr>ro_tried := key_insert (singleton_key p) (ro_tried y), ro_cands := ro_cands y @ [?c]\<rparr>"
    have "routing_ok hs budget ?y" using routes_ok_queue [of y ?c] False 2(3) by (simp add: routing_ok_def plan_ok_def)
    from 2(2) [OF _ _ this] False show ?thesis by auto
  qed
qed auto

lemma queue_direct_nonempty:
  assumes "routes_ok y" "ro_cands y = []" "ro_attempts y < budget" "ps \<noteq> []"
  shows "ro_cands (queue_direct budget r ps y) \<noteq> []"
proof -
  obtain p qs where ps: "ps = p # qs" using assms(4) by (cases ps) auto
  let ?c = "\<lparr>uc_rotator = r, uc_proxy = p, uc_cached = False\<rparr>"
  let ?y = "y\<lparr>ro_tried := key_insert (singleton_key p) (ro_tried y), ro_cands := ro_cands y @ [?c]\<rparr>"
  have "[node_id p] \<notin> set (route_ids y)"
  proof
    assume "[node_id p] \<in> set (route_ids y)"
    then obtain k where "k \<in> set (ro_dialed y)" "key_ids k = [node_id p]" using assms(2) by (auto simp: route_ids_def)
    then show False using assms(1) by (auto simp: routes_ok_def)
  qed
  then have "\<not> key_mem (singleton_key p) (ro_tried y)"
    using assms(1) by (simp add: routes_ok_def key_mem_ids singleton_ids)
  then have q: "queue_direct budget r ps y = queue_direct budget r qs ?y" using assms(2,3) ps by simp
  have "\<exists>xs. ro_cands (queue_direct b r' rs z) = ro_cands z @ xs" for b r' rs z
    by (induction b r' rs z rule: queue_direct.induct) auto
  from this [of budget r qs ?y] obtain xs where "ro_cands (queue_direct budget r qs ?y) = ro_cands ?y @ xs" ..
  then show ?thesis unfolding q by simp
qed

lemma pick_order_nonempty: "rotator_inv hash r \<Longrightarrow> fst (pick_order r now) \<noteq> []"
  using rating_selector.order_nonempty [of "rot_ratings r" now]
  by (auto simp: rotator_inv_def pick_order_def case_prod_beta)

lemma direct_routes_ok:
  "routing_ok hs budget y \<Longrightarrow> routing_ok hs budget (direct_routes budget now rs y) \<and> ro_attempts (direct_routes budget now rs y) = ro_attempts y \<and>
    (\<exists>xs. ro_cands (direct_routes budget now rs y) = ro_cands y @ xs)"
proof (induction rs arbitrary: y)
  case (Cons r rs)
  show ?case
  proof (cases "budget \<le> ro_attempts y + length (ro_cands y)")
    case False
    let ?o = "pick_order (ro_store y r) now"
    let ?y = "y\<lparr>ro_store := (ro_store y)(r := snd ?o)\<rparr>"
    have "store_ok hs ((ro_store y)(r := snd ?o))" using Cons.prems store_ok_step [OF _ ro_order] by (auto simp: routing_ok_def intro: store_ok_step ro_order)
    then have "routing_ok hs budget ?y" by (rule routing_ok_store [OF Cons.prems])
    note q = queue_direct_ok [OF this, of r "fst ?o"]
    then have "routing_ok hs budget (queue_direct budget r (fst ?o) ?y)" by blast
    from Cons.IH [OF this] q False show ?thesis by (auto simp: case_prod_beta Let_def)
  qed (use Cons.prems in simp)
qed simp

lemma direct_routes_nonempty:
  assumes "routing_ok hs budget y" "ro_attempts y < budget" "rs \<noteq> []"
  shows "ro_cands (direct_routes budget now rs y) \<noteq> []"
proof (cases "ro_cands y = []")
  case False
  then show ?thesis using direct_routes_ok [OF assms(1), of now rs] by auto
next
  case True
  obtain r qs where rs: "rs = r # qs" using assms(3) by (cases rs) auto
  let ?o = "pick_order (ro_store y r) now"
  let ?y = "y\<lparr>ro_store := (ro_store y)(r := snd ?o)\<rparr>"
  have inv: "rotator_inv (hs r) (ro_store y r)" using assms(1) by (simp add: routing_ok_def store_ok_def)
  have "store_ok hs ((ro_store y)(r := snd ?o))" using assms(1) by (auto simp: routing_ok_def intro: store_ok_step ro_order)
  then have y: "routing_ok hs budget ?y" by (rule routing_ok_store [OF assms(1)])
  have "ro_cands (queue_direct budget r (fst ?o) ?y) \<noteq> []"
    by (rule queue_direct_nonempty) (use y True assms(2) pick_order_nonempty [OF inv] in \<open>auto simp: routing_ok_def\<close>)
  moreover have "routing_ok hs budget (queue_direct budget r (fst ?o) ?y)" using queue_direct_ok [OF y] by blast
  ultimately show ?thesis
    using direct_routes_ok [of hs budget "queue_direct budget r (fst ?o) ?y" now qs] rs True assms(2) by (auto simp: case_prod_beta Let_def)
qed

lemma store_ok_two_steps:
  "store_ok hs st \<Longrightarrow> rotator_step (hs r) (st r) a \<Longrightarrow> rotator_step (hs r) a b \<Longrightarrow> store_ok hs (st(r := b))"
  using store_ok_step [of hs "st(r := a)" r b] store_ok_step [of hs st r a] by simp

lemma report_attempt_ok:
  assumes "store_ok hs st"
  shows "store_ok hs (report_attempt hs target now c rep st)"
proof -
  let ?r = "uc_rotator c" and ?p = "uc_proxy c"
  note one = store_ok_step [OF assms, of ?r] and two = store_ok_two_steps [OF assms, of ?r]
  show ?thesis
  proof (cases "ar_outcome rep")
    case Won
    then show ?thesis using one [OF ro_success] two [OF ro_success ro_link]
      by (simp add: report_attempt_def Let_def)
  next
    case (Failed e)
    then show ?thesis using assms one [OF ro_unlink] one [OF ro_error] two [OF ro_unlink ro_error]
      by (simp add: report_attempt_def record_proxy_failure_def Let_def)
  qed (use assms one [OF ro_success] in \<open>simp_all add: report_attempt_def Let_def\<close>)
qed

lemma reports_ok: "store_ok hs st \<Longrightarrow> store_ok hs (fold (\<lambda>rep. report_attempt hs target now (cs ! ar_index rep) rep) reps st)"
  by (induction reps arbitrary: st) (auto intro: report_attempt_ok)

subsection \<open>A request\<close>

lemma routing_start_ok: "store_ok hs st \<Longrightarrow> routing_ok hs budget (routing_start st exits)"
  by (simp add: routing_ok_def routing_start_def routes_ok_def route_ids_def plan_ok_def)

text \<open>What the end of a request promises.\<close>

definition request_ok :: "hashers \<Rightarrow> nat \<Rightarrow> (establish_error + any_upstream) \<Rightarrow> routing \<Rightarrow> bool" where
  "request_ok hs budget out y \<longleftrightarrow>
     length (ro_dialed y) + length (ro_raced y) \<le> budget \<and>
     distinct (map key_ids (ro_dialed y) @ map (\<lambda>p. [node_id p]) (ro_raced y)) \<and>
     (\<forall>r. rotator_inv (hs r) (ro_store y r)) \<and>
     (\<forall>n t. out = Err (AllAttemptsFailed n t) \<longrightarrow> n = length (ro_dialed y) + length (ro_raced y))"

lemma early_return_ok:
  "routing_ok hs budget y \<Longrightarrow> (\<And>n t. out \<noteq> Err (AllAttemptsFailed n t)) \<Longrightarrow> request_ok hs budget out y"
  by (simp add: request_ok_def routing_ok_def routes_ok_def route_ids_def store_ok_def)

lemma cached_out:
  "cached_routes hs gates exits budget dials clk target rs y = Some (Some out, z) \<Longrightarrow> out \<noteq> Err (AllAttemptsFailed n t)"
proof (induction rs arbitrary: y)
  case (Cons r rs)
  then show ?case
    by (auto simp: cached_route_def cached_chain_def Let_def split: option.splits prod.splits if_splits sum.splits)
qed simp

lemma distinct_take_right:
  assumes "distinct (xs @ ys)"
  shows "distinct (xs @ take n ys)"
  using distinct_take [OF assms, of "length xs + n"] by simp

lemma direct_race_ok:
  assumes "routing_ok hs budget y" "\<And>ps. \<exists>opts. hedge_step\<^sup>*\<^sup>* (hedge_start ps opts) (fst (race ps))"
    and "direct_race hs budget race clk target y = (out, z)"
  shows "request_ok hs budget out z" "ro_raced z = map uc_proxy (take (budget - ro_attempts y) (ro_cands y))"
proof -
  let ?cs = "take (budget - ro_attempts y) (ro_cands y)"
  obtain h u where h: "race (map uc_proxy ?cs) = (h, u)" by fastforce
  have z: "z = y\<lparr>ro_store := fold (\<lambda>rep. report_attempt hs target (clk (ro_attempts y)) (?cs ! ar_index rep) rep) (reports h) (ro_store y),
      ro_cands := ?cs, ro_raced := map uc_proxy ?cs\<rparr>"
    and out: "out = (case h_result h of HedgeError k _ \<Rightarrow> Err (AllAttemptsFailed (ro_attempts y + k) target) | _ \<Rightarrow> Ok u)"
    using assms(3) h by (auto simp: direct_race_def Let_def)
  show raced: "ro_raced z = map uc_proxy ?cs" by (simp add: z)
  obtain opts where "hedge_step\<^sup>*\<^sup>* (hedge_start (map uc_proxy ?cs) opts) h" using assms(2) [of "map uc_proxy ?cs"] h by auto
  from hedge_reachable [OF this] hedge_candidates_steps [OF this]
  have k: "k = length ?cs" if "h_result h = HedgeError k e" for k e using that by (simp add: hedge_inv_def result_inv_def)
  have y: "store_ok hs (ro_store y)" "routes_ok y" "ro_attempts y \<le> budget" using assms(1) by (auto simp: routing_ok_def)
  have d: "length (ro_dialed z) = ro_attempts y" "ro_dialed z = ro_dialed y" using y(2) by (simp_all add: z routes_ok_def)
  have "distinct (map key_ids (ro_dialed y) @ map (\<lambda>c. [node_id (uc_proxy c)]) (ro_cands y))"
    using y(2) by (simp add: routes_ok_def route_ids_def singleton_ids)
  moreover have "map (\<lambda>p. [node_id p]) (ro_raced z) = take (budget - ro_attempts y) (map (\<lambda>c. [node_id (uc_proxy c)]) (ro_cands y))"
    unfolding raced by (simp add: take_map comp_def)
  ultimately have "distinct (map key_ids (ro_dialed z) @ map (\<lambda>p. [node_id p]) (ro_raced z))"
    unfolding d(2) using distinct_take_right by metis
  moreover have "\<forall>r. rotator_inv (hs r) (ro_store z r)" using reports_ok [OF y(1)] by (simp add: z store_ok_def)
  moreover have "n = length (ro_dialed z) + length (ro_raced z)" if "out = Err (AllAttemptsFailed n t)" for n t
    using that k d(1) raced by (auto simp: out split: hedge_result.splits)
  moreover have "length (ro_dialed z) + length (ro_raced z) \<le> budget" using d(1) y(3) raced by simp
  ultimately show "request_ok hs budget out z" by (simp add: request_ok_def)
qed

lemma plan_for_failure_attempts: "ro_attempts (snd (plan_for_failure gates exits budget now y)) = ro_attempts y"
  by (simp add: plan_for_failure_def case_prod_beta Let_def split: option.split)

lemma cached_route_attempts:
  assumes "cached_route hs gates exits budget dials clk target r y = Some (out, z)"
  shows "ro_attempts z \<le> ro_attempts y + 1"
proof -
  have "ro_attempts z' \<le> ro_attempts y' + 1" if "cached_chain hs gates exits budget dials clk target r pick y' = Some (out, z')" for pick y' z'
    using that plan_for_failure_attempts [of gates exits budget "clk (ro_attempts (spend pick y'))" "spend pick y'"]
    by (auto simp: cached_chain_def Let_def on_rotator_def spend_def split: option.splits prod.splits if_splits sum.splits)
  from this [of _ "y\<lparr>ro_store := (ro_store y)(r := snd (get_linked (hs r) (ro_store y r) target (clk (ro_attempts y))))\<rparr>" z] assms
  show ?thesis by (auto simp: cached_route_def Let_def on_rotator_def case_prod_beta split: option.splits if_splits)
qed

lemma cached_routes_attempts:
  "cached_routes hs gates exits budget dials clk target rs y = Some (out, z) \<Longrightarrow> ro_attempts z \<le> ro_attempts y + length rs"
proof (induction rs arbitrary: y)
  case (Cons r rs)
  then obtain o' y1 where r: "cached_route hs gates exits budget dials clk target r y = Some (o', y1)"
    by (auto split: option.splits)
  show ?case using Cons r cached_route_attempts [OF r] by (cases o') fastforce+
qed simp

lemma store_ok_claims: "store_ok hs st \<Longrightarrow> store_ok hs (snd (spawn_chain_probes ls now st))"
proof (induction ls arbitrary: st)
  case (Cons l ls)
  have "store_ok hs (st(snd l := snd (take_probes (st (snd l)) now)))" by (rule store_ok_step [OF Cons.prems]) (rule ro_probes)
  from Cons.IH [OF this] show ?case by (cases l) (simp add: case_prod_beta Let_def fun_upd_def)
qed simp

text \<open>How a request ends, in the terms of its phases.\<close>

lemma establish_cases:
  assumes "store_ok hs st" "\<And>ps. \<exists>opts. hedge_step\<^sup>*\<^sup>* (hedge_start ps opts) (fst (race ps))" "\<not> banned target"
  shows "\<exists>out y. establish_connection hs banned gates exits budget dials race clk target st = Some (out, y) \<and> request_ok hs budget out y \<and>
    (\<forall>n t. out = Err (AllAttemptsFailed n t) \<longrightarrow> exits \<noteq> [] \<longrightarrow> length exits < budget \<longrightarrow> ro_raced y \<noteq> [])"
proof -
  let ?st = "snd (spawn_chain_probes (tl gates) (clk 0) st)"
  have st: "store_ok hs ?st" by (rule store_ok_claims [OF assms(1)])
  let ?s = "routing_start ?st exits" let ?est = "establish_connection hs banned gates exits budget dials race clk target st"
  obtain o1 y1 where c: "cached_routes hs gates exits budget dials clk target exits ?s = Some (o1, y1)" "routing_ok hs budget y1" "ro_reserve ?s \<le> ro_reserve y1"
    using cached_routes_ok [OF routing_start_ok [OF st]] by blast
  have spent: "ro_attempts y1 \<le> length exits" using cached_routes_attempts [OF c(1)] by (simp add: routing_start_def)
  show ?thesis
  proof (cases o1)
    case (Some out)
    then show ?thesis using c(1) cached_out [of hs gates exits budget dials clk target exits ?s out y1] early_return_ok [OF c(2), of out] assms(3)
      by (simp add: establish_connection_def)
  next
    case o1: None
    obtain o2 y2 where g: "gate_routes hs gates exits budget dials clk target y1 = Some (o2, y2)" "routing_ok hs budget y2"
      "\<forall>o'. o2 = Some o' \<longrightarrow> (\<exists>u. o' = Ok u)" "ro_attempts y1 < budget \<longrightarrow> 1 \<le> ro_reserve y1 \<longrightarrow> o2 = None \<longrightarrow> ro_attempts y2 < budget"
      using gate_routes_ok [OF c(2), of gates exits dials clk target] by blast
    show ?thesis
    proof (cases o2)
      case (Some out)
      then obtain u where u: "out = Ok u" using g(3) by blast
      have "?est = Some (out, y2)" using c(1) o1 g(1) Some assms(3) by (simp add: establish_connection_def)
      then show ?thesis using early_return_ok [OF g(2), of out] u by simp
    next
      case o2: None
      let ?d = "direct_routes budget (clk (ro_attempts y2)) exits y2"
      note d = direct_routes_ok [OF g(2), of "clk (ro_attempts y2)" exits]
      obtain out z where r: "direct_race hs budget race clk target ?d = (out, z)" by fastforce
      note rr = direct_race_ok [OF _ assms(2) r]
      have e: "?est = Some (out, z)" using c(1) o1 g(1) o2 assms(3) r by (simp add: establish_connection_def)
      have "ro_raced z \<noteq> []" if ex: "exits \<noteq> []" "length exits < budget"
      proof -
        have "\<exists>r \<in> set exits. proxies (?st r) \<noteq> []"
          using ex(1) store_okD [OF st, of "hd exits"] by (intro bexI [of _ "hd exits"]) (auto simp: rotator_inv_def)
        then have "1 \<le> ro_reserve y1" using c(3) by (auto simp: routing_start_def list_ex_iff)
        then have a: "ro_attempts y2 < budget" using g(4) o2 spent ex(2) by simp
        show ?thesis using rr(2) d direct_routes_nonempty [OF g(2) a ex(1)] a by simp
      qed
      then show ?thesis using e rr(1) d by blast
    qed
  qed
qed

text \<open>
  C26: a request is always answered, and within its budget: however the dials and the hedged race go, routing neither
  panics nor loops, the chains it dials and the upstreams it races are together at most \<open>max_connection_attempts\<close>,
  no route, as its list of upstream identities, is tried twice, whether it came from the sticky cache, the chain
  plan or the weighted order, the rotators stay sound, and the count that a failed request reports is the number
  of routes tried. A banned target touches no upstream and changes no rotator.
\<close>

theorem establish_within_budget:
  assumes "\<And>r. rotator_inv (hs r) (st r)" and "\<And>ps. \<exists>opts. hedge_step\<^sup>*\<^sup>* (hedge_start ps opts) (fst (race ps))"
  shows "\<exists>out y. establish_connection hs banned gates exits budget dials race clk target st = Some (out, y) \<and>
    length (ro_dialed y) + length (ro_raced y) \<le> budget \<and>
    distinct (map key_ids (ro_dialed y) @ map (\<lambda>p. [node_id p]) (ro_raced y)) \<and>
    (\<forall>r. rotator_inv (hs r) (ro_store y r)) \<and>
    (\<forall>n t. out = Err (AllAttemptsFailed n t) \<longrightarrow> n = length (ro_dialed y) + length (ro_raced y)) \<and>
    (banned target \<longrightarrow> out = Err BannedTarget \<and> ro_dialed y = [] \<and> ro_raced y = [] \<and> ro_store y = st)"
proof -
  have st: "store_ok hs st" using assms(1) by (simp add: store_ok_def)
  show ?thesis
  proof (cases "banned target")
    case True
    then show ?thesis using assms(1) by (simp add: establish_connection_def routing_start_def)
  next
    case False
    from establish_cases [of hs st race banned target gates exits budget dials clk, OF st assms(2) this] False show ?thesis
      unfolding request_ok_def by blast
  qed
qed

text \<open>
  C27: the chains never eat up the single upstreams: unless the cached routes alone can spend the budget, which takes
  one attempt per exit rotator, a request that is reported as failed on all its attempts has raced at least one
  upstream of an exit rotator, however many chains the gates offer.
\<close>

theorem gates_leave_a_direct_try:
  assumes "\<And>r. rotator_inv (hs r) (st r)" and "\<And>ps. \<exists>opts. hedge_step\<^sup>*\<^sup>* (hedge_start ps opts) (fst (race ps))"
    and "exits \<noteq> []" "length exits < budget"
    and "establish_connection hs banned gates exits budget dials race clk target st = Some (Err (AllAttemptsFailed n t), y)"
  shows "ro_raced y \<noteq> []"
proof -
  have st: "store_ok hs st" using assms(1) by (simp add: store_ok_def)
  have "\<not> banned target" using assms(5) by (auto simp: establish_connection_def)
  from establish_cases [of hs st race banned target gates exits budget dials clk, OF st assms(2) this] assms(3-5) show ?thesis by auto
qed

subsection \<open>Probes\<close>

text \<open>The nodes of a prefix are of different levels, and choosing them touches no rating.\<close>

lemma prefix_nodes_facts:
  "(\<forall>r. slot (snd (prefix_nodes hs gates rank now st) r) i = slot (st r) i \<and> proxies (snd (prefix_nodes hs gates rank now st) r) = proxies (st r)) \<and>
   (store_ok hs st \<longrightarrow> store_ok hs (snd (prefix_nodes hs gates rank now st))) \<and>
   (\<forall>ns. fst (prefix_nodes hs gates rank now st) = Some ns \<longrightarrow> length ns \<le> length gates)"
proof (induction hs gates rank now st rule: prefix_nodes.induct)
  case (2 hs lr r ls rank now st)
  let ?st = "st(r := snd (pick_order (st r) now))"
  have s: "slot (?st r') i = slot (st r') i" "proxies (?st r') = proxies (st r')" for r'
    by (simp_all add: slot_def pick_order_def pick_order_at_def case_prod_beta Let_def)
  have o: "store_ok hs st \<Longrightarrow> store_ok hs ?st" by (rule store_ok_step [OF _ ro_order])
  show ?case
  proof (cases "rank < lr")
    case True
    then have ne: "lr \<noteq> rank" by auto
    show ?thesis
    proof (cases "List.find (\<lambda>p. \<not> rotator_is_quarantined (hs r) (?st r) p) (fst (pick_order (st r) now))")
      case None
      then show ?thesis using True ne s o by (simp add: case_prod_beta Let_def fun_upd_def)
    next
      case (Some p)
      from 2(1) [OF ne True refl prod.collapse refl Some]
      have ih: "\<forall>r'. slot (snd (prefix_nodes hs ls rank now ?st) r') i = slot (?st r') i \<and> proxies (snd (prefix_nodes hs ls rank now ?st) r') = proxies (?st r')"
        "store_ok hs ?st \<longrightarrow> store_ok hs (snd (prefix_nodes hs ls rank now ?st))"
        "\<forall>ns. fst (prefix_nodes hs ls rank now ?st) = Some ns \<longrightarrow> length ns \<le> length ls"
        by (simp_all add: fun_upd_def)
      show ?thesis using True ne Some ih s o by (auto simp: case_prod_beta Let_def)
    qed
  next
    case False
    then show ?thesis using 2(2) by auto
  qed
qed auto

lemma from_secs_pos: "0 < k \<Longrightarrow> 0 < from_secs k"
  by (simp add: from_secs_def)

lemma probe_deadline_mono: "d \<le> e \<Longrightarrow> probe_deadline ct hst d \<le> probe_deadline ct hst e"
  unfolding probe_deadline_def dur_saturating_add_def dur_saturating_mul_def
  by (intro min.mono add_mono mult_le_mono order_refl) auto

lemma probe_budget_less_lease:
  assumes "d \<le> n"
  shows "probe_budget ct hst d < probe_lease ct hst n"
proof -
  let ?a = "probe_deadline ct hst d"
  have m: "?a \<le> probe_deadline ct hst n" "probe_deadline ct hst n \<le> duration_max"
    using probe_deadline_mono [OF assms] by (simp_all add: probe_deadline_def dur_saturating_add_def)
  have "0 < PROBE_LEASE_MARGIN" "0 < from_secs 1" "0 < duration_max"
    by (simp_all add: PROBE_LEASE_MARGIN_def from_secs_def duration_max_def)
  with m show ?thesis unfolding probe_budget_def probe_lease_def dur_saturating_add_def by linarith
qed

lemma healthy_prefix_depth:
  assumes "healthy_prefix hs gates rank now st = (pre, st1)" "pre = Some prefix"
  shows "length (nodes prefix) \<le> length gates"
proof -
  obtain ns where "fst (prefix_nodes hs gates rank now st) = Some ns" "proxy_chain ns = Some prefix"
    using assms by (cases "fst (prefix_nodes hs gates rank now st)") (auto simp: healthy_prefix_def apfst_def map_prod_def case_prod_beta)
  then show ?thesis
    using prefix_nodes_facts [of hs gates rank now st] chain_key_ids [of ns prefix] map_eq_imp_length_eq [of node_id "nodes prefix" node_id ns]
    by (auto simp: key_ids_def)
qed

lemma chain_probe_returns:
  assumes "claimed + probe_lease ct hst (length gates) \<le> instant_max"
  shows "\<exists>st'. chain_probe hs gates rank ct hst claimed start permit run r p st = Some st'"
proof (cases "healthy_prefix hs gates rank start st")
  case (Pair pre st1)
  show ?thesis
  proof (cases pre)
    case (Some prefix)
    have "claimed + probe_budget ct hst (length (nodes prefix)) \<le> instant_max"
      using probe_budget_less_lease [OF healthy_prefix_depth [OF Pair Some], of ct hst] assms by simp
    then show ?thesis using Pair Some assms by (simp add: chain_probe_def instant_checked_add_def)
  qed (use Pair in \<open>simp add: chain_probe_def\<close>)
qed

definition conclusive :: "chain_error + any_upstream \<Rightarrow> bool" where
  "conclusive x \<longleftrightarrow> (case x of Ok _ \<Rightarrow> True | Err e \<Rightarrow> ce_stage e = StageTarget \<and> (\<exists>a b c. ce_error e = ProxyRejected a b c))"

lemma classify_hard: "classify_probe_error stage e = HardFailure \<longleftrightarrow> stage = StageTarget \<and> (\<exists>a b c. e = ProxyRejected a b c)"
  by (auto simp: classify_probe_error_def split: chain_stage.splits connect_error.splits)

lemma probe_settle_facts:
  assumes "store_ok hs st"
  shows "store_ok hs (probe_settle hs r p a now e st)"
    and "i < length (proxies (st r')) \<Longrightarrow> slot (probe_settle hs r p a now e st r') i \<noteq> slot (st r') i \<Longrightarrow>
      r' = r \<and> node_id (proxies (st r) ! i) = node_id p \<and> now < e \<and> (\<exists>x. a = Some x \<and> conclusive x)"
proof -
  note inv = store_okD [OF assms, of r]
  have "store_ok hs (st(r := record_success (hs r) (st r) p now))" "store_ok hs (st(r := snd (record_hard_failure (hs r) (st r) p now)))"
    by (rule store_ok_step [OF assms], rule ro_success) (rule store_ok_step [OF assms], rule ro_hard_failure)
  then show "store_ok hs (probe_settle hs r p a now e st)"
    using assms by (auto simp: probe_settle_def probe_outcome_def split: option.splits sum.splits)
  show "r' = r \<and> node_id (proxies (st r) ! i) = node_id p \<and> now < e \<and> (\<exists>x. a = Some x \<and> conclusive x)"
    if "i < length (proxies (st r'))" "slot (probe_settle hs r p a now e st r') i \<noteq> slot (st r') i"
  proof -
    have "r' = r \<and> now < e \<and> (\<exists>x. a = Some x \<and> conclusive x)"
      using that(2) by (auto simp: probe_settle_def probe_outcome_def conclusive_def classify_hard split: option.splits sum.splits if_splits)
    moreover have "node_id (proxies (st r) ! i) = node_id p"
    proof (rule ccontr)
      assume "node_id (proxies (st r) ! i) \<noteq> node_id p"
      then have "slot (probe_settle hs r p a now e st r) i = slot (st r) i"
        using record_other_slot [OF inv, of i p now] that(1) \<open>r' = r \<and> _\<close>
        by (auto simp: probe_settle_def probe_outcome_def split: option.splits sum.splits)
      then show False using that(2) \<open>r' = r \<and> _\<close> by simp
    qed
    ultimately show ?thesis by simp
  qed
qed

text \<open>
  C28: a chain probe is fenced by its lease and judges only on evidence. Its own deadline comes before the end of its
  lease, whatever the timeouts, also where their sums saturate; and the rating and the quarantine of an upstream
  change only for the probed upstream, in its own rotator, when the result came before the end of the lease and
  either the tunnel to it was opened or the last node of the prefix reports that it refused. A failed or missing
  prefix, a full pool, a timeout and a late result change no rating at all.
\<close>

theorem probe_is_fenced_and_fair:
  assumes "\<And>r. rotator_inv (hs r) (st r)" "chain_probe hs gates rank ct hst claimed start permit run r p st = Some st'"
  shows "(\<forall>r'. rotator_inv (hs r') (st' r')) \<and>
    (\<forall>prefix st1. healthy_prefix hs gates rank start st = (Some prefix, st1) \<longrightarrow>
       claimed + probe_budget ct hst (length (nodes prefix)) < claimed + probe_lease ct hst (length gates)) \<and>
    (\<forall>r' i. i < length (proxies (st r')) \<longrightarrow> slot (st' r') i \<noteq> slot (st r') i \<longrightarrow>
       r' = r \<and> node_id (proxies (st r) ! i) = node_id p \<and> permit \<and>
       (\<exists>prefix st1 attempt now. healthy_prefix hs gates rank start st = (Some prefix, st1) \<and>
          run prefix (claimed + probe_budget ct hst (length (nodes prefix))) = (Some attempt, now) \<and>
          now < claimed + probe_lease ct hst (length gates) \<and>
          (case attempt of Ok _ \<Rightarrow> True | Err x \<Rightarrow> ce_stage x = StageTarget \<and> (\<exists>a b c. ce_error x = ProxyRejected a b c))))"
proof -
  have ok: "store_ok hs st" using assms(1) by (simp add: store_ok_def)
  obtain pre st1 where h: "healthy_prefix hs gates rank start st = (pre, st1)" by fastforce
  then have st1: "st1 = snd (prefix_nodes hs gates rank start st)"
    by (cases "prefix_nodes hs gates rank start st") (simp add: healthy_prefix_def)
  note facts = prefix_nodes_facts [of hs gates rank start st]
  have s1: "slot (st1 r') i = slot (st r') i" "proxies (st1 r') = proxies (st r')" "store_ok hs st1" for r' i
    using facts ok by (auto simp: st1)
  have fence: "claimed + probe_budget ct hst (length (nodes prefix)) < claimed + probe_lease ct hst (length gates)" if "pre = Some prefix" for prefix
    using probe_budget_less_lease [OF healthy_prefix_depth [OF h]] that by simp
  show ?thesis
  proof (cases pre)
    case None
    then have "st' = st1" using assms(2) h by (simp add: chain_probe_def)
    then show ?thesis using s1 h None by (auto simp: store_ok_def)
  next
    case (Some prefix)
    let ?d = "claimed + probe_budget ct hst (length (nodes prefix))" let ?e = "claimed + probe_lease ct hst (length gates)"
    obtain attempt now where run: "run prefix ?d = (attempt, now)" by fastforce
    have st': "st' = (if permit then probe_settle hs r p attempt now ?e st1 else st1)"
      using assms(2) h Some run by (auto simp: chain_probe_def instant_checked_add_Some Option.bind_eq_Some_conv)
    note settled = probe_settle_facts [OF s1(3), where r = r and p = p and a = attempt and now = now and e = ?e]
    have "\<forall>r'. rotator_inv (hs r') (st' r')" using settled(1) s1(3) by (simp add: st' store_ok_def)
    moreover have "r' = r \<and> node_id (proxies (st r) ! i) = node_id p \<and> permit \<and> now < ?e \<and> (\<exists>x. attempt = Some x \<and> conclusive x)"
      if "i < length (proxies (st r'))" "slot (st' r') i \<noteq> slot (st r') i" for r' i
      using that settled(2) [where i = i and r' = r'] s1(1,2) by (auto simp: st' split: if_splits)
    ultimately show ?thesis using fence [OF Some] h Some run by (auto simp: conclusive_def)
  qed
qed

subsection \<open>Witnesses\<close>

text \<open>A race in which every upstream refuses, one after the other.\<close>

fun lose :: "nat \<Rightarrow> hedge \<Rightarrow> hedge" where
  "lose 0 y = y"
| "lose (Suc n) y =
     lose n (hedge_join (length (attempts y)) (Err (AttemptFailed demo_down))
               (attempt_reached (length (attempts y)) (Some demo_down) (hedge_top 0 y)))"

definition demo_lost :: "proxy_config list \<Rightarrow> hedge" where
  "demo_lost ps =
     (let y = hedge_start ps default_hedge_options in if ps = [] then y else hedge_top 0 (lose (length ps) y))"

lemmas lose_defs = hedge_top_def launch_def pending_len_def attempt_reached_def settle_def hedge_join_def add_report_def Let_def

lemma lose_run:
  assumes "h_result y = Racing" "running y = []" "length (attempts y) + n \<le> length (candidates y)"
  shows "hedge_step\<^sup>*\<^sup>* y (lose n y) \<and> h_result (lose n y) = Racing \<and> running (lose n y) = [] \<and>
    length (attempts (lose n y)) = length (attempts y) + n \<and> candidates (lose n y) = candidates y"
  using assms
proof (induction n arbitrary: y)
  case (Suc n)
  let ?i = "length (attempts y)"
  let ?a = "hedge_top 0 y" let ?b = "attempt_reached ?i (Some demo_down) ?a"
  let ?c = "hedge_join ?i (Err (AttemptFailed demo_down)) ?b"
  have p: "pending_len y \<noteq> 0" using Suc.prems by (simp add: pending_len_def)
  have "hedge_step y ?a" using Suc.prems by (intro hedge_step.top) auto
  moreover have "hedge_step ?a ?b" using Suc.prems p by (intro hedge_step.reached) (auto simp: lose_defs)
  moreover have "hedge_step ?b ?c" using Suc.prems p by (intro hedge_step.join) (auto simp: lose_defs)
  ultimately have "hedge_step\<^sup>*\<^sup>* y ?c" by (meson converse_rtranclp_into_rtranclp rtranclp.rtrancl_refl)
  moreover have c: "h_result ?c = Racing" "running ?c = []" "length (attempts ?c) = length (attempts y) + 1" "candidates ?c = candidates y"
    using Suc.prems p by (auto simp: lose_defs)
  ultimately show ?case using Suc.IH [of ?c] Suc.prems(3) by auto
qed simp

lemma demo_lost_run:
  "hedge_step\<^sup>*\<^sup>* (hedge_start ps default_hedge_options) (demo_lost ps)" "h_result (demo_lost ps) = HedgeError (length ps) (h_last (demo_lost ps))"
proof -
  let ?y = "hedge_start ps default_hedge_options"
  have r: "hedge_step\<^sup>*\<^sup>* ?y (lose (length ps) ?y) \<and> h_result (lose (length ps) ?y) = Racing \<and> running (lose (length ps) ?y) = [] \<and>
      length (attempts (lose (length ps) ?y)) = length ps \<and> candidates (lose (length ps) ?y) = ps" if "ps \<noteq> []"
    using lose_run [of ?y "length ps"] that by (simp add: hedge_start_def)
  then have "hedge_step (lose (length ps) ?y) (hedge_top 0 (lose (length ps) ?y))" if "ps \<noteq> []"
    using that by (intro hedge_step.top) auto
  then show "hedge_step\<^sup>*\<^sup>* ?y (demo_lost ps)" using r by (auto simp: demo_lost_def Let_def)
  show "h_result (demo_lost ps) = HedgeError (length ps) (h_last (demo_lost ps))"
    using r by (auto simp: demo_lost_def Let_def hedge_top_def pending_len_def) (simp_all add: hedge_start_def)
qed

lemma demo_store_inv: "rotator_inv demo_hash demo_rotator"
  using rotator_reachable_inv [OF demo_rotator_reachable] by simp

lemma demo_request:
  "\<exists>n t y. establish_connection (\<lambda>_. demo_hash) (\<lambda>_. False) [] [0] 2 (\<lambda>_ _. Err e) (\<lambda>ps. (demo_lost ps, u)) (\<lambda>_. 0) (ascii ''t'') (\<lambda>_. demo_rotator)
     = Some (Err (AllAttemptsFailed n t), y)"
proof -
  have "fst (get_linked demo_hash demo_rotator (ascii ''t'') 0) = None"
    by (simp add: get_linked_def demo_rotator_def sticky_get_def sticky_new_def case_prod_beta Let_def)
  then show ?thesis
    by (simp add: establish_connection_def cached_route_def gate_routes_def direct_race_def Let_def case_prod_beta demo_lost_run(2)
        routing_start_def)
qed

definition demo_upstream :: any_upstream where
  "demo_upstream = PlainUpstream (from_tcp, \<lparr>incoming = [], ending = Eof, outgoing = []\<rparr>)"

definition demo_dials :: dialer where
  "demo_dials n c = Err \<lparr>ce_stage = StageTarget, ce_error = demo_down\<rparr>"

lemma demo_races: "\<exists>opts. hedge_step\<^sup>*\<^sup>* (hedge_start ps opts) (fst (demo_lost ps, demo_upstream))"
  using demo_lost_run(1) [of ps] by auto

theorem establish_within_budget_witness:
  "\<exists>out y. establish_connection (\<lambda>_. demo_hash) (\<lambda>_. False) [] [0] 2 demo_dials (\<lambda>ps. (demo_lost ps, demo_upstream)) (\<lambda>_. 0)
       (ascii ''t'') (\<lambda>_. demo_rotator) = Some (out, y) \<and> length (ro_dialed y) + length (ro_raced y) \<le> 2"
  using establish_within_budget [where hs = "\<lambda>_. demo_hash" and st = "\<lambda>_. demo_rotator" and race = "\<lambda>ps. (demo_lost ps, demo_upstream)"
      and banned = "\<lambda>_. False" and gates = "[]" and exits = "[0]" and budget = 2 and dials = demo_dials and clk = "\<lambda>_. 0" and target = "ascii ''t''",
      OF demo_store_inv demo_races] by blast

theorem gates_leave_a_direct_try_witness:
  "\<exists>n t y. establish_connection (\<lambda>_. demo_hash) (\<lambda>_. False) [] [0] 2 demo_dials (\<lambda>ps. (demo_lost ps, demo_upstream)) (\<lambda>_. 0)
       (ascii ''t'') (\<lambda>_. demo_rotator) = Some (Err (AllAttemptsFailed n t), y) \<and> ro_raced y \<noteq> []"
proof -
  obtain n t y where e: "establish_connection (\<lambda>_. demo_hash) (\<lambda>_. False) [] [0] 2 demo_dials (\<lambda>ps. (demo_lost ps, demo_upstream)) (\<lambda>_. 0)
      (ascii ''t'') (\<lambda>_. demo_rotator) = Some (Err (AllAttemptsFailed n t), y)"
    using demo_request [of "\<lparr>ce_stage = StageTarget, ce_error = demo_down\<rparr>" demo_upstream] by (auto simp: demo_dials_def [abs_def])
  from gates_leave_a_direct_try [OF _ _ _ _ e] demo_store_inv demo_races have "ro_raced y \<noteq> []" by auto
  with e show ?thesis by blast
qed

lemma demo_lease: "probe_lease (from_secs 10) (from_secs 10) 2 \<le> instant_max"
  by (simp add: probe_lease_def probe_deadline_def dur_saturating_add_def dur_saturating_mul_def PROBE_LEASE_MARGIN_def from_secs_def
      instant_max_def duration_max_def)

text \<open>The probe of an inner gate whose prefix reports a refusal.\<close>

theorem probe_is_fenced_and_fair_witness:
  "\<exists>st'. chain_probe (\<lambda>_. demo_hash) [(2, 0), (1, 1)] 1 (from_secs 10) (from_secs 10) 0 0 True
       (\<lambda>prefix d. (Some (Err \<lparr>ce_stage = StageTarget, ce_error = ProxyRejected Socks5 None []\<rparr>), 1)) 1 (proxy_socks5 (ascii ''a'') 1) (\<lambda>_. demo_rotator) = Some st' \<and>
     slot (st' 0) 0 = slot demo_rotator 0 \<and> slot (st' 1) 1 = slot demo_rotator 1"
proof -
  let ?run = "\<lambda>(prefix :: proxy_config) (d :: instant). (Some (Err \<lparr>ce_stage = StageTarget, ce_error = ProxyRejected Socks5 None []\<rparr>) :: (chain_error + any_upstream) option, 1 :: instant)"
  let ?p = "chain_probe (\<lambda>_. demo_hash) [(2, 0), (1, 1)] 1 (from_secs 10) (from_secs 10) 0 0 True ?run 1 (proxy_socks5 (ascii ''a'') 1) (\<lambda>_. demo_rotator)"
  have "\<exists>st'. ?p = Some st'" by (rule chain_probe_returns) (use demo_lease in \<open>simp add: numeral_2_eq_2\<close>)
  then obtain st' where e: "?p = Some st'" ..
  have pr: "proxies demo_rotator = [proxy_socks5 (ascii ''a'') 1, proxy_http (ascii ''b'') 2]" by (simp add: demo_rotator_def)
  have len: "length (proxies demo_rotator) = 2" by (simp add: pr)
  have f: "r' = 1 \<and> node_id (proxies demo_rotator ! i) = node_id (proxy_socks5 (ascii ''a'') 1)"
    if "i < 2" "slot (st' r') i \<noteq> slot demo_rotator i" for r' i
    using probe_is_fenced_and_fair [OF demo_store_inv e, THEN conjunct2, THEN conjunct2, rule_format, of i r'] that unfolding len by blast
  show ?thesis using e f [of 0 0] f [of 1 1] by (auto simp: pr node_id_def proxy_socks5_def proxy_http_def proxy_new_def)
qed

end
