(* ===== verification/HandleSpec.thy ===== *)
theory HandleSpec
  imports Handle ServerSpec EstablishSpec
begin

text \<open>
  What the handlers guarantee in every execution: who gets a tunnel, where to and by which way.
\<close>

subsection \<open>Verdicts\<close>

text \<open>The verdicts of \<open>verify_async\<close>.\<close>

fun host_verdicts :: "host_query event list \<Rightarrow> (credentials \<times> bool) list" where
  "host_verdicts [] = []"
| "host_verdicts (Answered (HVerify c) b # tr) = (c, b) # host_verdicts tr"
| "host_verdicts (_ # tr) = host_verdicts tr"

lemma host_verdicts_append [simp]: "host_verdicts (xs @ ys) = host_verdicts xs @ host_verdicts ys"
  by (induction xs rule: host_verdicts.induct) auto

text \<open>The check that the framing sees is the one of \<open>verify_async\<close> for the users of an admitted address, and a
  refusal for the others.\<close>

lemma on_accept_execution:
  "execution (on_accept allow p) tr a \<Longrightarrow>
   \<exists>tr'. execution p tr' a \<and> host_verdicts tr = filter (\<lambda>(c, _). allow c) (verdicts tr') \<and> (\<forall>(c, b) \<in> set (verdicts tr'). b \<longrightarrow> allow c)"
proof (induction p arbitrary: tr)
  case (Ask q k)
  show ?case
  proof (cases q)
    case (Verify c)
    show ?thesis
    proof (cases "allow c")
      case True
      then obtain r tr' where t: "execution (on_accept allow (k r)) tr' a" "tr = Answered (HVerify c) r # tr'" using Ask.prems Verify by auto
      from Ask.IH [OF rangeI t(1)] obtain tr2 where "execution (k r) tr2 a" "host_verdicts tr' = filter (\<lambda>(c, _). allow c) (verdicts tr2)"
        "\<forall>(c, b) \<in> set (verdicts tr2). b \<longrightarrow> allow c" by blast
      then show ?thesis using True t(2) Verify by (intro exI [of _ "Answered q r # tr2"]) auto
    next
      case False
      then have t: "execution (on_accept allow (k False)) tr a" using Ask.prems Verify by simp
      from Ask.IH [OF rangeI t(1)] obtain tr2 where "execution (k False) tr2 a" "host_verdicts tr = filter (\<lambda>(c, _). allow c) (verdicts tr2)"
        "\<forall>(c, b) \<in> set (verdicts tr2). b \<longrightarrow> allow c" by blast
      then show ?thesis using False Verify by (intro exI [of _ "Answered q False # tr2"]) auto
    qed
  next
    case BudgetLeft
    then obtain r tr' where t: "execution (on_accept allow (k r)) tr' a" "tr = Answered HBudget r # tr'" using Ask.prems by auto
    from Ask.IH [OF rangeI t(1)] obtain tr2 where "execution (k r) tr2 a" "host_verdicts tr' = filter (\<lambda>(c, _). allow c) (verdicts tr2)"
      "\<forall>(c, b) \<in> set (verdicts tr2). b \<longrightarrow> allow c" by blast
    then show ?thesis using t(2) BudgetLeft by (intro exI [of _ "Answered q r # tr2"]) auto
  qed
next
  case (WriteAll bs k)
  then obtain r tr' where t: "execution (on_accept allow (k r)) tr' a" "tr = Wrote bs r # tr'" by auto
  from WriteAll.IH [OF rangeI t(1)] obtain tr2 where "execution (k r) tr2 a" "host_verdicts tr' = filter (\<lambda>(c, _). allow c) (verdicts tr2)"
    "\<forall>(c, b) \<in> set (verdicts tr2). b \<longrightarrow> allow c" by blast
  then show ?case using t(2-) by (intro exI [of _ "Wrote bs r # tr2"]) auto
next
  case (Flush k)
  then obtain r tr' where t: "execution (on_accept allow (k r)) tr' a" "tr = Flushed r # tr'" by auto
  from Flush.IH [OF rangeI t(1)] obtain tr2 where "execution (k r) tr2 a" "host_verdicts tr' = filter (\<lambda>(c, _). allow c) (verdicts tr2)"
    "\<forall>(c, b) \<in> set (verdicts tr2). b \<longrightarrow> allow c" by blast
  then show ?case using t(2-) by (intro exI [of _ "Flushed r # tr2"]) auto
next
  case (Read n k)
  then obtain r tr' where t: "execution (on_accept allow (k r)) tr' a" "tr = Got n r # tr'" "\<forall>bs. r = Ok bs \<longrightarrow> length bs \<le> n" by auto
  from Read.IH [OF rangeI t(1)] obtain tr2 where "execution (k r) tr2 a" "host_verdicts tr' = filter (\<lambda>(c, _). allow c) (verdicts tr2)"
    "\<forall>(c, b) \<in> set (verdicts tr2). b \<longrightarrow> allow c" by blast
  then show ?case using t(2-) by (intro exI [of _ "Got n r # tr2"]) auto
next
  case (ReadExact n k)
  then obtain r tr' where t: "execution (on_accept allow (k r)) tr' a" "tr = GotExact n r # tr'" "\<forall>bs. r = Ok bs \<longrightarrow> length bs = n" by auto
  from ReadExact.IH [OF rangeI t(1)] obtain tr2 where "execution (k r) tr2 a" "host_verdicts tr' = filter (\<lambda>(c, _). allow c) (verdicts tr2)"
    "\<forall>(c, b) \<in> set (verdicts tr2). b \<longrightarrow> allow c" by blast
  then show ?case using t(2-) by (intro exI [of _ "GotExact n r # tr2"]) auto
next
  case (Peek n k)
  then obtain r tr' where t: "execution (on_accept allow (k r)) tr' a" "tr = Peeked n r # tr'" "\<forall>bs. r = Ok bs \<longrightarrow> length bs \<le> n" by auto
  from Peek.IH [OF rangeI t(1)] obtain tr2 where "execution (k r) tr2 a" "host_verdicts tr' = filter (\<lambda>(c, _). allow c) (verdicts tr2)"
    "\<forall>(c, b) \<in> set (verdicts tr2). b \<longrightarrow> allow c" by blast
  then show ?case using t(2-) by (intro exI [of _ "Peeked n r # tr2"]) auto
qed auto

subsection \<open>Handlers\<close>

lemma on_race_execution: "execution (on_race p) tr a \<Longrightarrow> host_verdicts tr = [] \<and> (\<exists>tr'. execution p tr' a)"
proof (induction p arbitrary: tr)
  case (Ask q k)
  then obtain r tr' where t: "execution (on_race (k r)) tr' a" "tr = Answered (HRace q) r # tr'" by auto
  from Ask.IH [OF rangeI t(1)] obtain tr2 where "host_verdicts tr' = []" "execution (k r) tr2 a" by blast
  then show ?case using t(2) by (intro conjI exI [of _ "Answered q r # tr2"]) auto
next
  case (WriteAll bs k)
  then obtain r tr' where t: "execution (on_race (k r)) tr' a" "tr = Wrote bs r # tr'" by auto
  from WriteAll.IH [OF rangeI t(1)] obtain tr2 where "host_verdicts tr' = []" "execution (k r) tr2 a" by blast
  then show ?case using t(2-) by (intro conjI exI [of _ "Wrote bs r # tr2"]) auto
next
  case (Flush k)
  then obtain r tr' where t: "execution (on_race (k r)) tr' a" "tr = Flushed r # tr'" by auto
  from Flush.IH [OF rangeI t(1)] obtain tr2 where "host_verdicts tr' = []" "execution (k r) tr2 a" by blast
  then show ?case using t(2-) by (intro conjI exI [of _ "Flushed r # tr2"]) auto
next
  case (Read n k)
  then obtain r tr' where t: "execution (on_race (k r)) tr' a" "tr = Got n r # tr'" "\<forall>bs. r = Ok bs \<longrightarrow> length bs \<le> n" by auto
  from Read.IH [OF rangeI t(1)] obtain tr2 where "host_verdicts tr' = []" "execution (k r) tr2 a" by blast
  then show ?case using t(2-) by (intro conjI exI [of _ "Got n r # tr2"]) auto
next
  case (ReadExact n k)
  then obtain r tr' where t: "execution (on_race (k r)) tr' a" "tr = GotExact n r # tr'" "\<forall>bs. r = Ok bs \<longrightarrow> length bs = n" by auto
  from ReadExact.IH [OF rangeI t(1)] obtain tr2 where "host_verdicts tr' = []" "execution (k r) tr2 a" by blast
  then show ?case using t(2-) by (intro conjI exI [of _ "GotExact n r # tr2"]) auto
next
  case (Peek n k)
  then obtain r tr' where t: "execution (on_race (k r)) tr' a" "tr = Peeked n r # tr'" "\<forall>bs. r = Ok bs \<longrightarrow> length bs \<le> n" by auto
  from Peek.IH [OF rangeI t(1)] obtain tr2 where "host_verdicts tr' = []" "execution (k r) tr2 a" by blast
  then show ?case using t(2-) by (intro conjI exI [of _ "Peeked n r # tr2"]) auto
qed auto

lemma peek_prefix_execution:
  assumes "execution (peek_prefix buf) tr (Ok p)"
  shows "p \<noteq> ServerFirst u bs"
  using assms unfolding peek_prefix_def bind_ok_def
  by (cases rule: execution_bind_cases) (auto split: option.splits)

lemma client_read_execution:
  fixes tr :: "'q event list"
  assumes "execution client_read tr (Ok p)"
  shows "p \<noteq> ServerFirst u bs"
proof -
  obtain r :: "io_error + bytes" and tr' :: "'q event list" where
    r: "execution (case r of Err e \<Rightarrow> Ret (Err e) | Ok bs \<Rightarrow> client_prefix bs) tr' (Ok p)"
    using assms by (auto simp: client_read_def)
  then show ?thesis by (cases r) (auto simp: client_prefix_def split: if_splits dest: peek_prefix_execution)
qed

lemma peek_recovery_execution:
  "execution (peek_recovery pipelined dialled greeting) tr (Ok (ServerFirst u bs)) \<Longrightarrow> dialled = Ok u"
  by (cases dialled; cases greeting)
    (auto simp: peek_recovery_def split: if_splits dest: peek_prefix_execution client_read_execution)

lemma send_reply_execution: "execution (send_reply rq rep) tr a \<Longrightarrow> host_verdicts tr = []"
  by (auto simp: send_reply_def)

lemma refuse_execution: "execution (refuse rq rep res) tr a \<Longrightarrow> a = res \<and> host_verdicts tr = []"
  unfolding refuse_def by (drule execution_bind) (auto dest: send_reply_execution)

lemma start_tunnel_execution:
  "execution (start_tunnel cfg job) tr a \<Longrightarrow> host_verdicts tr = [] \<and> (\<forall>j. a = Ok (Tunnelled j) \<longrightarrow> j = job)"
  by (auto simp: start_tunnel_def split: if_splits)

lemma establish_and_tunnel_execution:
  assumes "execution (establish_and_tunnel cfg rq job) tr a"
  shows "host_verdicts tr = [] \<and> (\<forall>j. a = Ok (Tunnelled j) \<longrightarrow> j = job)"
  using assms unfolding establish_and_tunnel_def
  by (cases rule: execution_bind_cases) (auto dest: send_reply_execution start_tunnel_execution)

text \<open>A job that a handler may hand over for a request.\<close>

definition permitted :: "handle_config \<Rightarrow> auth_state \<Rightarrow> dial_pool \<Rightarrow> dial_direct \<Rightarrow> incoming_request \<Rightarrow> tunnel_job \<Rightarrow> bool" where
  "permitted cfg auth pool direct rq j \<longleftrightarrow>
     tj_user j = rq_username rq \<and>
     (if tj_direct j
      then (\<exists>u. rq_username rq = Some u \<and> is_direct auth u) \<and> tj_target j = rq_target rq \<and>
           establish_direct (hc_banned cfg) direct (tj_target j) = Ok (tj_upstream j)
      else (\<forall>u. rq_username rq = Some u \<longrightarrow> \<not> is_direct auth u) \<and> (\<exists>n. pool n (tj_target j) = Ok (tj_upstream j)))"

lemma recover_from_execution:
  assumes "execution (recover_from cfg pool greeting rq port pipelined) tr a" "\<forall>u. rq_username rq = Some u \<longrightarrow> \<not> is_direct auth u"
  shows "host_verdicts tr = [] \<and> (\<forall>j. a = Ok (Tunnelled j) \<longrightarrow> permitted cfg auth pool direct rq j \<and> \<not> tj_direct j)"
proof -
  let ?peek = "peek_recovery pipelined (pool 0 (rq_target rq)) greeting"
  let ?cont = "\<lambda>p. case p of
       Err e \<Rightarrow> Ret (Err (InIo e))
     | Ok ClientClosed \<Rightarrow> Ret (Ok Dropped)
     | Ok (ServerFirst u banner) \<Rightarrow>
         WriteAll banner (\<lambda>w. case w of Err e \<Rightarrow> Ret (Err (InIo e)) | Ok _ \<Rightarrow>
           start_tunnel cfg \<lparr>tj_direct = False, tj_user = rq_username rq, tj_target = rq_target rq, tj_upstream = u, tj_initial = []\<rparr>)
     | Ok (PeekClient buf) \<Rightarrow>
         (let t = effective_target (rq_target rq) port buf
          in case pool 1 t of
               Err e \<Rightarrow> Ret (Err (NotEstablished e))
             | Ok u \<Rightarrow> start_tunnel cfg \<lparr>tj_direct = False, tj_user = rq_username rq, tj_target = t, tj_upstream = u, tj_initial = buf\<rparr>)"
  have peek: "host_verdicts t = [] \<and> (\<forall>j. a = Ok (Tunnelled j) \<longrightarrow> permitted cfg auth pool direct rq j \<and> \<not> tj_direct j)"
    if "execution (prog_bind (on_race ?peek) ?cont) t a" for t
  proof -
    from execution_bind [OF that] obtain t1 t2 x where x: "execution (on_race ?peek) t1 x" "execution (?cont x) t2 a" "t = t1 @ t2" by blast
    from on_race_execution [OF x(1)] obtain t' where r: "host_verdicts t1 = []" "execution ?peek t' x" by blast
    show ?thesis
    proof (cases x)
      case (Inl e)
      then show ?thesis using x(2,3) r(1) by simp
    next
      case (Inr p)
      show ?thesis
      proof (cases p)
        case (PeekClient buf)
        then show ?thesis using x(2,3) r(1) Inr assms(2)
          by (auto simp: permitted_def Let_def split: sum.split_asm dest!: start_tunnel_execution)
      next
        case ClientClosed
        then show ?thesis using x(2,3) r(1) Inr by simp
      next
        case (ServerFirst u bs)
        then have "pool 0 (rq_target rq) = Ok u" using peek_recovery_execution r(2) Inr by metis
        moreover obtain w t3 where "t2 = Wrote bs w # t3" "execution (case w of Err e \<Rightarrow> Ret (Err (InIo e)) | Ok _ \<Rightarrow>
            start_tunnel cfg \<lparr>tj_direct = False, tj_user = rq_username rq, tj_target = rq_target rq, tj_upstream = u, tj_initial = []\<rparr>) t3 a"
          using x(2) Inr ServerFirst by auto
        ultimately show ?thesis using x(3) r(1) assms(2)
          by (cases w) (auto simp: permitted_def dest!: start_tunnel_execution)
      qed
    qed
  qed
  obtain b tr1 where b: "tr = Answered HBudget b # tr1" "execution (if \<not> b then Ret (Err (InServer Deadline)) else
      prog_bind (send_reply rq Established) (\<lambda>r. case r of Err e \<Rightarrow> Ret (Err (InServer e)) | Ok _ \<Rightarrow> prog_bind (on_race ?peek) ?cont)) tr1 a"
    using assms(1) unfolding recover_from_def Let_def by auto
  show ?thesis
  proof (cases b)
    case True
    then have "execution (prog_bind (send_reply rq Established) (\<lambda>r. case r of Err e \<Rightarrow> Ret (Err (InServer e)) | Ok _ \<Rightarrow> prog_bind (on_race ?peek) ?cont)) tr1 a"
      using b(2) by (simp only: not_True_eq_False if_False)
    from execution_bind [OF this] obtain t1 t2 x where x: "execution (send_reply rq Established) t1 x"
      "execution (case x of Err e \<Rightarrow> Ret (Err (InServer e)) | Ok _ \<Rightarrow> prog_bind (on_race ?peek) ?cont) t2 a" "tr1 = t1 @ t2" by blast
    show ?thesis using x peek send_reply_execution [OF x(1)] b(1) by (cases x) auto
  qed (use b in simp)
qed

lemma handle_request_execution:
  assumes "execution (handle_request cfg auth pool direct (\<lambda>port. recover_from cfg pool greeting rq port w) rq pipeline) tr a"
  shows "host_verdicts tr = [] \<and>
    (\<forall>j. a = Ok (Tunnelled j) \<longrightarrow> permitted cfg auth pool direct rq j \<and> (tj_direct j \<longrightarrow> (HDirectSlot, True) \<in> set (answers tr)))"
proof (cases "case rq_username rq of Some u \<Rightarrow> is_direct auth u | None \<Rightarrow> False")
  case True
  then obtain u where u: "rq_username rq = Some u" "is_direct auth u" by (auto split: option.splits)
  have "\<exists>slot tr'. tr = Answered HDirectSlot slot # tr' \<and>
      execution (if \<not> slot then refuse rq Overloaded (Ok Dropped)
        else case establish_direct (hc_banned cfg) direct (rq_target rq) of
               Err e \<Rightarrow> refuse rq (refusal cfg (rq_target rq)) (Err (NotDirect e))
             | Ok v \<Rightarrow> establish_and_tunnel cfg rq
                 \<lparr>tj_direct = True, tj_user = Some u, tj_target = rq_target rq, tj_upstream = v, tj_initial = pipeline\<rparr>) tr' a"
    using assms u by (auto simp: handle_request_def Let_def)
  then obtain slot tr' where tr: "tr = Answered HDirectSlot slot # tr'" "execution (if \<not> slot then refuse rq Overloaded (Ok Dropped)
        else case establish_direct (hc_banned cfg) direct (rq_target rq) of
               Err e \<Rightarrow> refuse rq (refusal cfg (rq_target rq)) (Err (NotDirect e))
             | Ok v \<Rightarrow> establish_and_tunnel cfg rq
                 \<lparr>tj_direct = True, tj_user = Some u, tj_target = rq_target rq, tj_upstream = v, tj_initial = pipeline\<rparr>) tr' a"
    by blast
  show ?thesis
  proof (cases slot)
    case False
    then show ?thesis using tr refuse_execution [of rq Overloaded "Ok Dropped" tr' a] by simp
  next
    case slot: True
    show ?thesis
    proof (cases "establish_direct (hc_banned cfg) direct (rq_target rq)")
      case (Inl e)
      then show ?thesis using tr slot refuse_execution [of rq "refusal cfg (rq_target rq)" "Err (NotDirect e)" tr' a] by simp
    next
      case (Inr v)
      let ?job = "\<lparr>tj_direct = True, tj_user = Some u, tj_target = rq_target rq, tj_upstream = v, tj_initial = pipeline\<rparr>"
      have e: "execution (establish_and_tunnel cfg rq ?job) tr' a" using tr(2) slot Inr by simp
      have "permitted cfg auth pool direct rq ?job" using u Inr by (simp add: permitted_def)
      then show ?thesis using establish_and_tunnel_execution [OF e] tr(1) slot by auto
    qed
  qed
next
  case False
  then have nd: "\<forall>u. rq_username rq = Some u \<longrightarrow> \<not> is_direct auth u" by (auto split: option.splits)
  let ?port = "if hc_recover cfg then ipv4_literal_port (rq_target rq) else None"
  show ?thesis
  proof (cases ?port)
    case (Some port)
    then have "execution (recover_from cfg pool greeting rq port w) tr a"
      using assms False unfolding handle_request_def Let_def by simp
    from recover_from_execution [OF this nd, of direct] show ?thesis by auto
  next
    case None
    have "execution (case pool 0 (rq_target rq) of
         Err e \<Rightarrow> refuse rq (refusal cfg (rq_target rq)) (Err (NotEstablished e))
       | Ok u \<Rightarrow> establish_and_tunnel cfg rq
           \<lparr>tj_direct = False, tj_user = rq_username rq, tj_target = rq_target rq, tj_upstream = u, tj_initial = pipeline\<rparr>) tr a"
      using assms False None unfolding handle_request_def Let_def by simp
    then show ?thesis using nd
      by (cases "pool 0 (rq_target rq)") (auto simp: permitted_def dest!: refuse_execution establish_and_tunnel_execution)
  qed
qed

text \<open>Who a permitted tunnel is for, and where it may go.\<close>

lemma permitted_user:
  assumes "admitted (server_options_new (as_anonymous auth) e) vs rq"
    and "\<forall>(c, b) \<in> set vs. b \<longrightarrow> client_ip_allowed auth (cr_username c) peer"
    and "permitted cfg auth pool direct (rq\<lparr>rq_pipeline := []\<rparr>) j"
  shows "case tj_user j of
      None \<Rightarrow> as_anonymous auth \<and> filter (\<lambda>(c, _). client_ip_allowed auth (cr_username c) peer) vs = [] \<and> \<not> tj_direct j
    | Some u \<Rightarrow>
        (\<exists>c. filter (\<lambda>(c, _). client_ip_allowed auth (cr_username c) peer) vs = [(c, True)] \<and> cr_username c = u) \<and>
        client_ip_allowed auth u peer \<and> (tj_direct j \<longleftrightarrow> is_direct auth u)"
proof (cases "rq_username rq")
  case None
  then have "as_anonymous auth" "vs = []" using assms(1) by (simp_all add: admitted_def server_options_new_def)
  then show ?thesis using None assms(3) by (auto simp: permitted_def split: if_splits)
next
  case (Some u)
  then obtain c where "vs = [(c, True)]" "u = cr_username c" using assms(1) by (auto simp: admitted_def)
  then show ?thesis using Some assms(2,3) by (auto simp: permitted_def split: if_splits)
qed

lemma permitted_way:
  assumes "permitted cfg auth pool direct rq j" "\<And>n t u. pool n t = Ok u \<Longrightarrow> \<not> hc_banned cfg t"
  shows "\<not> hc_banned cfg (tj_target j) \<and>
    (if tj_direct j then \<exists>c. direct (tj_target j) = Some (Ok c) \<and> tj_upstream j = DirectUpstream c
     else \<exists>n. pool n (tj_target j) = Ok (tj_upstream j))"
  using assms by (auto simp: permitted_def establish_direct_def split: if_splits option.splits sum.splits)

text \<open>
  C29: nobody is tunnelled who may not be, or to where they may not go. In every execution of the handler of a
  client that ends in a tunnel, whatever the client sends and the network answers: the global address list admits
  the client; the request is anonymous, which the configuration allows, or \<open>verify_async\<close> has accepted its credentials,
  asked once and only because the user's own address list admits the client; the target the tunnel goes to, also one
  recovered from the first bytes, is not banned; the target is dialled directly exactly for a verified user marked
  so, within the limit of direct tunnels, and through the upstreams for everybody else. And credentials from an
  address that the user may not use are never checked at all.
\<close>

theorem tunnels_are_permitted:
  assumes "execution (handle_client decode cfg auth rule peer pool direct greeting) tr a"
    and "\<And>n t. \<exists>hs gates exits budget dials race clk st y.
      establish_connection hs (hc_banned cfg) gates exits budget dials race clk t st = Some (pool n t, y)"
  shows "(\<forall>c b. (c, b) \<in> set (host_verdicts tr) \<longrightarrow> client_ip_allowed auth (cr_username c) peer) \<and> length (host_verdicts tr) \<le> 1 \<and>
    (\<forall>j. a = Ok (Tunnelled j) \<longrightarrow>
       global_allowed peer rule \<and> \<not> hc_banned cfg (tj_target j) \<and>
       (case tj_user j of
          None \<Rightarrow> as_anonymous auth \<and> host_verdicts tr = [] \<and> \<not> tj_direct j
        | Some u \<Rightarrow>
            (\<exists>c. host_verdicts tr = [(c, True)] \<and> cr_username c = u) \<and> client_ip_allowed auth u peer \<and> (tj_direct j \<longleftrightarrow> is_direct auth u)) \<and>
       (if tj_direct j
        then (HDirectSlot, True) \<in> set (answers tr) \<and> (\<exists>c. direct (tj_target j) = Some (Ok c) \<and> tj_upstream j = DirectUpstream c)
        else \<exists>n. pool n (tj_target j) = Ok (tj_upstream j)))"
proof -
  show ?thesis
  proof (cases "global_allowed peer rule")
    case False
    then show ?thesis using assms(1) by (auto simp: handle_client_def)
  next
    case True
    let ?opts = "server_options_new (as_anonymous auth) (\<not> auth_is_empty auth)"
    let ?allow = "\<lambda>c. client_ip_allowed auth (cr_username c) peer"
    have "execution (prog_bind (on_accept ?allow (accept decode ?opts)) (\<lambda>r. case r of Err e \<Rightarrow> Ret (Err (InServer e)) | Ok rq \<Rightarrow>
        (case rq_protocol rq of
           SrvSocks5 \<Rightarrow> handle_socks5_client cfg auth pool direct greeting rq
         | SrvHttp \<Rightarrow> handle_http_client cfg auth pool direct greeting rq))) tr a"
      using assms(1) True by (simp only: handle_client_def not_True_eq_False if_False)
    from execution_bind [OF this] obtain t1 t2 r where
      r: "execution (on_accept ?allow (accept decode ?opts)) t1 r" "tr = t1 @ t2"
        "execution (case r of Err e \<Rightarrow> Ret (Err (InServer e)) | Ok rq \<Rightarrow>
             (case rq_protocol rq of
                SrvSocks5 \<Rightarrow> handle_socks5_client cfg auth pool direct greeting rq
              | SrvHttp \<Rightarrow> handle_http_client cfg auth pool direct greeting rq)) t2 a" by blast
    from on_accept_execution [OF r(1)] obtain t' where
      t': "execution (accept decode ?opts) t' r" "host_verdicts t1 = filter (\<lambda>(c, _). ?allow c) (verdicts t')" "\<forall>(c, b) \<in> set (verdicts t'). b \<longrightarrow> ?allow c"
      by blast
    note sound = accept_execution [OF t'(1), unfolded sound_outcome_def]
    have v1: "(\<forall>c b. (c, b) \<in> set (host_verdicts t1) \<longrightarrow> ?allow c) \<and> length (host_verdicts t1) \<le> 1"
      using sound t'(2) by (auto intro: order_trans [OF length_filter_le])
    show ?thesis
    proof (cases r)
      case (Inl e)
      then show ?thesis using r v1 by simp
    next
      case (Inr rq)
      obtain w where "execution (handle_request cfg auth pool direct (\<lambda>port. recover_from cfg pool greeting (rq\<lparr>rq_pipeline := []\<rparr>) port w)
          (rq\<lparr>rq_pipeline := []\<rparr>) (rq_pipeline rq)) t2 a"
        using r(3) Inr by (cases "rq_protocol rq") (auto simp: handle_socks5_client_def handle_http_client_def take_pipeline_def recover_and_tunnel_def [abs_def] recover_and_tunnel_http_def)
      note h = handle_request_execution [OF this]
      have adm: "admitted ?opts (verdicts t') rq" using sound Inr by simp
      have hv: "host_verdicts tr = filter (\<lambda>(c, _). ?allow c) (verdicts t')" using h r(2) t'(2) by simp
      have job: "permitted cfg auth pool direct (rq\<lparr>rq_pipeline := []\<rparr>) j" "tj_direct j \<longrightarrow> (HDirectSlot, True) \<in> set (answers tr)"
        if "a = Ok (Tunnelled j)" for j
        using h that r(2) by auto
      have "\<not> hc_banned cfg t" if "pool n t = Ok u" for n t u
        using assms(2) [of t n] that by (auto simp: establish_connection_def split: if_splits)
      note ok = permitted_user [OF adm t'(3) job(1), folded hv] permitted_way [OF job(1) this]
      have "host_verdicts tr = host_verdicts t1" using h r(2) by simp
      then have "(\<forall>c b. (c, b) \<in> set (host_verdicts tr) \<longrightarrow> ?allow c) \<and> length (host_verdicts tr) \<le> 1" using v1 by simp
      then show ?thesis using True ok job(2) by simp
    qed
  qed
qed

subsection \<open>Witness\<close>

text \<open>An anonymous client of a server without users asks for 1.2.3.4:80 and gets its tunnel.\<close>

lemma run_on_accept:
  "run_on ans (on_accept allow p) c =
   run_on (\<lambda>q. case q of Verify k \<Rightarrow> allow k \<and> ans (HVerify k) | BudgetLeft \<Rightarrow> ans HBudget) p c"
proof (induction p arbitrary: c)
  case (Ask q k)
  then show ?case by (cases q) auto
qed (auto split: option.splits)

definition demo_auth :: auth_state where
  "demo_auth = \<lparr>as_users = [], as_entries = Map.empty, as_anonymous = True, as_secret = [], as_cache = Map.empty, claim_lock = None,
     claim_gates = Map.empty\<rparr>"

definition demo_cfg :: handle_config where
  "demo_cfg = \<lparr>hc_banned = (\<lambda>_. False), hc_recover = False, hc_fragment = False\<rparr>"

definition demo_job :: tunnel_job where
  "demo_job = \<lparr>tj_direct = False, tj_user = None, tj_target = rq_target ServerSpec.demo_request, tj_upstream = demo_upstream, tj_initial = []\<rparr>"

lemma demo_pool:
  "\<exists>y. establish_connection (\<lambda>_. demo_hash) (\<lambda>_. False) [] [0] 1 demo_dials
     (\<lambda>ps. ((hedge_start ps default_hedge_options)\<lparr>h_result := Hedged 0\<rparr>, demo_upstream)) (\<lambda>_. 0) t (\<lambda>_. demo_rotator) = Some (Ok demo_upstream, y)"
proof -
  have "fst (get_linked demo_hash demo_rotator t 0) = None"
    by (simp add: get_linked_def demo_rotator_def sticky_get_def sticky_new_def case_prod_beta Let_def)
  then show ?thesis
    by (simp add: establish_connection_def cached_route_def gate_routes_def direct_race_def Let_def case_prod_beta routing_start_def)
qed

lemma demo_handled:
  "run_on (\<lambda>_. True) (handle_client (\<lambda>_. None) demo_cfg demo_auth None None (\<lambda>_ _. Ok demo_upstream) (\<lambda>_. None) (Ok []))
     (demo_conn [[5, 1], [0, 5, 1, 0], [1, 1, 2, 3, 4, 0, 80]]) = (Some (Ok (Tunnelled demo_job)),
       \<lparr>incoming = [], ending = Eof, outgoing = [5, 0] @ reply_bytes SrvSocks5 Established\<rparr>)"
proof -
  have "run_on (\<lambda>_. True) (on_accept (\<lambda>c. client_ip_allowed demo_auth (cr_username c) None) (accept (\<lambda>_. None) (server_options_new True False)))
      (demo_conn [[5, 1], [0, 5, 1, 0], [1, 1, 2, 3, 4, 0, 80]]) = (Some (Ok ServerSpec.demo_request), \<lparr>incoming = [], ending = Eof, outgoing = [5, 0]\<rparr>)"
    unfolding run_on_accept by (simp add: accept_eval ServerSpec.demo_request_def be16_def)
  then show ?thesis unfolding handle_client_def
    by (simp add: run_on_bind global_allowed_def demo_auth_def auth_is_empty_def) (simp add: ServerSpec.demo_request_def demo_cfg_def demo_job_def handle_socks5_client_def take_pipeline_def handle_request_def establish_and_tunnel_def
        send_reply_def start_tunnel_def write_flush_def)
qed

theorem tunnels_are_permitted_witness:
  "\<exists>tr. execution (handle_client (\<lambda>_. None) demo_cfg demo_auth None None (\<lambda>_ _. Ok demo_upstream) (\<lambda>_. None) (Ok [])) tr (Ok (Tunnelled demo_job)) \<and>
     host_verdicts tr = []"
proof -
  obtain tr where e: "execution (handle_client (\<lambda>_. None) demo_cfg demo_auth None None (\<lambda>_ _. Ok demo_upstream) (\<lambda>_. None) (Ok [])) tr (Ok (Tunnelled demo_job))"
    using run_on_execution [OF demo_handled] by blast
  have "\<exists>hs gates exits budget dials race clk st y.
      establish_connection hs (hc_banned demo_cfg) gates exits budget dials race clk t st = Some (Ok demo_upstream, y)" for t
    using demo_pool [of t] by (simp only: demo_cfg_def handle_config.simps) blast
  from tunnels_are_permitted [OF e this] e show ?thesis by (auto simp: demo_job_def)
qed

end
