(* ===== verification/HelloSpec.thy ===== *)
theory HelloSpec
  imports RecoverHost
begin

text \<open>
  What the recovery of host names guarantees: the server name of every well-formed ClientHello is found
  however the hello is cut into records, and the answers are final as soon as they are given.
\<close>

subsection \<open>Encoding a ClientHello\<close>

definition enc8 :: "nat \<Rightarrow> bytes" where "enc8 n = [of_nat n]"
definition enc16 :: "nat \<Rightarrow> bytes" where "enc16 n = [of_nat (n div 256), of_nat (n mod 256)]"
definition enc24 :: "nat \<Rightarrow> bytes" where
  "enc24 n = [of_nat (n div 65536), of_nat (n div 256 mod 256), of_nat (n mod 256)]"

record hello =
  ch_version :: bytes
  ch_random :: bytes
  ch_session :: bytes
  ch_ciphers :: bytes
  ch_compression :: bytes
  ch_before :: "(u16 \<times> bytes) list"
  ch_name :: bytes
  ch_after :: "(u16 \<times> bytes) list"

definition ext_bytes :: "u16 \<times> bytes \<Rightarrow> bytes" where
  "ext_bytes = (\<lambda>(t, b). enc16 (unat t) @ enc16 (length b) @ b)"

definition name_ext :: "bytes \<Rightarrow> u16 \<times> bytes" where
  "name_ext name = (0, enc16 (3 + length name) @ [0] @ enc16 (length name) @ name)"

definition hello_extensions :: "hello \<Rightarrow> bytes" where
  "hello_extensions h = concat (map ext_bytes (ch_before h @ name_ext (ch_name h) # ch_after h))"

definition hello_body :: "hello \<Rightarrow> bytes" where
  "hello_body h = ch_version h @ ch_random h @ enc8 (length (ch_session h)) @ ch_session h @
     enc16 (length (ch_ciphers h)) @ ch_ciphers h @ enc8 (length (ch_compression h)) @ ch_compression h @
     enc16 (length (hello_extensions h)) @ hello_extensions h"

definition hello_message :: "hello \<Rightarrow> bytes" where
  "hello_message h = [1] @ enc24 (length (hello_body h)) @ hello_body h"

definition wf_hello :: "hello \<Rightarrow> bool" where
  "wf_hello h \<longleftrightarrow> length (ch_version h) = 2 \<and> length (ch_random h) = 32 \<and> length (ch_session h) < 256 \<and>
     length (ch_ciphers h) < 65536 \<and> length (ch_compression h) < 256 \<and> length (hello_extensions h) < 65536 \<and>
     list_all (\<lambda>e. fst e \<noteq> 0) (ch_before h) \<and> ch_name h \<noteq> [] \<and> utf8_valid (ch_name h)"

text \<open>A handshake record with major version 3.\<close>

definition handshake_record :: "byte \<times> bytes \<Rightarrow> bytes" where
  "handshake_record = (\<lambda>(minor, pay). [HANDSHAKE, 3, minor] @ enc16 (length pay) @ pay)"

subsection \<open>Decoding it\<close>

lemma enc16_length [simp]: "length (enc16 n) = 2" "length (enc8 n) = 1" "length (enc24 n) = 3"
  by (simp_all add: enc16_def enc8_def enc24_def)

lemma be_enc16: "n < 65536 \<Longrightarrow> be_u16 (enc16 n) = n" "n < 65536 \<Longrightarrow> be_u16 (enc16 n @ x) = n"
  by (simp_all add: be_u16_def enc16_def be16_def unat_of_nat)

lemma be_enc24:
  assumes "n < 16777216"
  shows "be_u24 (enc24 n) = n"
proof -
  have "n div 65536 = n div 256 div 256" by (simp add: div_mult2_eq [of n 256 256, simplified])
  then have "n div 65536 * 65536 + n div 256 mod 256 * 256 + n mod 256 = n"
    using div_mult_mod_eq [of n 256] div_mult_mod_eq [of "n div 256" 256] by linarith
  then show ?thesis using assms by (simp add: be_u24_def enc24_def unat_of_nat)
qed

lemma unat_enc8: "n < 256 \<Longrightarrow> unat (of_nat n :: byte) = n"
  by (simp add: unat_of_nat)

text \<open>Reading what stands after a known prefix.\<close>

lemma get_range_at: "length a = p \<Longrightarrow> q = p + length b \<Longrightarrow> get_range (a @ b @ c) p q = Some b"
  by (simp add: get_range_def)

lemma skip_at: "length a = p \<Longrightarrow> length b = n \<Longrightarrow> skip (a @ b @ c) p n = Some (p + n)"
  by (simp add: skip_def)

lemma skip_vec8_at:
  "length a = p \<Longrightarrow> length b < 256 \<Longrightarrow> skip_vec (a @ enc8 (length b) @ b @ c) p 1 = Some (p + 1 + length b)"
  by (simp add: skip_vec_def get_at_def skip_def enc8_def unat_enc8 nth_append)

lemma skip_vec16_at:
  assumes "length a = p" "length b < 65536"
  shows "skip_vec (a @ enc16 (length b) @ b @ c) p 2 = Some (p + 2 + length b)"
proof -
  have "get_range (a @ enc16 (length b) @ b @ c) p (p + 2) = Some (enc16 (length b))"
    by (rule get_range_at) (use assms in simp_all)
  then show ?thesis using assms by (simp add: skip_vec_def skip_def be_enc16)
qed

lemma parse_server_name_ext_name:
  assumes "name \<noteq> []" "utf8_valid name" "length name < 65530"
  shows "parse_server_name_ext (snd (name_ext name)) = Some (map to_ascii_lowercase name)"
proof -
  let ?list = "[0] @ enc16 (length name) @ name"
  have 1: "get_range (snd (name_ext name)) 0 2 = Some (enc16 (3 + length name))"
    by (simp add: name_ext_def get_range_def)
  have 2: "get_range (snd (name_ext name)) 2 (2 + (3 + length name)) = Some ?list"
    using get_range_at [of "enc16 (3 + length name)" 2 "2 + (3 + length name)" ?list "[]"] by (simp add: name_ext_def)
  have 3: "get_range ?list 3 (3 + length name) = Some name"
    using get_range_at [of "[0] @ enc16 (length name)" 3 "3 + length name" name "[]"] by simp
  have "server_name_loop ?list 0 = Some (map to_ascii_lowercase name)"
    using assms 3 by (subst server_name_loop.simps) (simp add: Let_def be_enc16)
  then show ?thesis using assms 1 2 by (simp only: parse_server_name_ext_def) (simp add: be_enc16)
qed

text \<open>Extensions of other types are skipped.\<close>

lemma extension_loop_step:
  assumes "length pre = e" "length b < 65536"
  shows "extension_loop (pre @ ext_bytes (t, b) @ post) e =
    (if t = 0 then parse_server_name_ext b else extension_loop (pre @ ext_bytes (t, b) @ post) (e + 4 + length b))"
proof -
  let ?x = "pre @ ext_bytes (t, b) @ post"
  have t: "take 2 (drop e ?x) = enc16 (unat t)" "take 2 (drop (e + 2) ?x) = enc16 (length b)"
    using assms(1) by (simp_all add: ext_bytes_def)
  have d: "get_range ?x (e + 4) (e + 4 + length b) = Some b"
    using get_range_at [of "pre @ enc16 (unat t) @ enc16 (length b)" "e + 4" "e + 4 + length b" b post] assms(1)
    by (simp add: ext_bytes_def)
  have n: "e + 4 \<le> length ?x" using assms(1) by (simp add: ext_bytes_def)
  have u: "unat t < 65536" using unsigned_less [of t] by simp
  have "unat t = 0 \<longleftrightarrow> t = 0" by (simp add: unat_eq_0)
  then show ?thesis using n d assms(2) u
    by (subst extension_loop.simps) (simp only: Let_def t be_enc16 if_True option.case)
qed

lemma extension_loop_skips:
  assumes "list_all (\<lambda>e. fst e \<noteq> 0) es" "length pre = e" "length (concat (map ext_bytes es)) < 65536"
  shows "extension_loop (pre @ concat (map ext_bytes es) @ post) e =
    extension_loop (pre @ concat (map ext_bytes es) @ post) (e + length (concat (map ext_bytes es)))"
  using assms
proof (induction es arbitrary: pre e)
  case (Cons x es)
  obtain t b where x: "x = (t, b)" by (cases x)
  have l: "length (ext_bytes x) = 4 + length b" by (simp add: x ext_bytes_def)
  have "extension_loop (pre @ ext_bytes (t, b) @ concat (map ext_bytes es) @ post) e =
      extension_loop (pre @ ext_bytes (t, b) @ concat (map ext_bytes es) @ post) (e + 4 + length b)"
    using extension_loop_step [of pre e b t "concat (map ext_bytes es) @ post"] Cons.prems l x by auto
  moreover have "extension_loop ((pre @ ext_bytes x) @ concat (map ext_bytes es) @ post) (e + 4 + length b) =
      extension_loop ((pre @ ext_bytes x) @ concat (map ext_bytes es) @ post) (e + 4 + length b + length (concat (map ext_bytes es)))"
    by (rule Cons.IH) (use Cons.prems l in auto)
  ultimately show ?case using l x by (simp add: add.assoc)
qed simp

lemma extension_loop_hello:
  assumes "wf_hello h"
  shows "extension_loop (hello_extensions h) 0 = Some (map to_ascii_lowercase (ch_name h))"
proof -
  let ?pre = "concat (map ext_bytes (ch_before h))" and ?post = "concat (map ext_bytes (ch_after h))"
  let ?n = "name_ext (ch_name h)"
  have n: "ext_bytes ?n = ext_bytes (0, snd ?n)" by (simp add: name_ext_def)
  have x: "hello_extensions h = ?pre @ ext_bytes ?n @ ?post" by (simp add: hello_extensions_def)
  have len: "length ?pre + (4 + length (snd ?n)) < 65536" "length (snd ?n) = 5 + length (ch_name h)"
    using assms x by (auto simp: wf_hello_def ext_bytes_def name_ext_def)
  have "extension_loop (hello_extensions h) 0 = extension_loop (hello_extensions h) (length ?pre)"
    using extension_loop_skips [of "ch_before h" "[]" 0 "ext_bytes ?n @ ?post"] assms len x by (simp add: wf_hello_def)
  also have "\<dots> = parse_server_name_ext (snd ?n)"
    using extension_loop_step [of ?pre "length ?pre" "snd ?n" 0 ?post] len x n by simp
  also have "\<dots> = Some (map to_ascii_lowercase (ch_name h))"
    by (rule parse_server_name_ext_name) (use assms len in \<open>auto simp: wf_hello_def\<close>)
  finally show ?thesis .
qed

lemma hello_server_name_body:
  assumes "wf_hello h"
  shows "hello_server_name (hello_body h) = Some (map to_ascii_lowercase (ch_name h))"
proof -
  let ?v = "ch_version h" and ?r = "ch_random h" and ?s = "ch_session h" and ?c = "ch_ciphers h"
  let ?m = "ch_compression h" and ?x = "hello_extensions h"
  let ?t4 = "enc16 (length ?x) @ ?x" let ?t3 = "enc8 (length ?m) @ ?m @ ?t4"
  let ?t2 = "enc16 (length ?c) @ ?c @ ?t3" let ?t1 = "enc8 (length ?s) @ ?s @ ?t2"
  let ?p1 = "34 + 1 + length ?s" let ?p2 = "?p1 + 2 + length ?c" let ?p3 = "?p2 + 1 + length ?m"
  have body: "hello_body h = ?v @ ?r @ ?t1" by (simp add: hello_body_def)
  have len: "length ?v = 2" "length ?r = 32" "length ?s < 256" "length ?c < 65536" "length ?m < 256" "length ?x < 65536"
    using assms by (auto simp: wf_hello_def)
  have 1: "skip (hello_body h) 0 2 = Some 2" "skip (hello_body h) 2 32 = Some 34"
    using len by (simp_all add: body skip_def)
  have 2: "skip_vec (hello_body h) 34 1 = Some ?p1"
    using skip_vec8_at [of "?v @ ?r" 34 ?s ?t2] len by (simp add: body)
  have 3: "skip_vec (hello_body h) ?p1 2 = Some ?p2"
    using skip_vec16_at [of "?v @ ?r @ enc8 (length ?s) @ ?s" ?p1 ?c ?t3] len by (simp add: body)
  have 4: "skip_vec (hello_body h) ?p2 1 = Some ?p3"
    using skip_vec8_at [of "?v @ ?r @ enc8 (length ?s) @ ?s @ enc16 (length ?c) @ ?c" ?p2 ?m ?t4] len by (simp add: body)
  let ?pre = "?v @ ?r @ enc8 (length ?s) @ ?s @ enc16 (length ?c) @ ?c @ enc8 (length ?m) @ ?m"
  have pre: "length ?pre = ?p3" using len by simp
  have 5: "get_range (hello_body h) ?p3 (?p3 + 2) = Some (enc16 (length ?x))"
    using get_range_at [OF pre, of "?p3 + 2" "enc16 (length ?x)" ?x] by (simp add: body)
  have upto: "min (?p3 + 2 + length ?x) (length (hello_body h)) = ?p3 + 2 + length ?x"
    using len by (simp add: body)
  have 6: "get_range (hello_body h) (?p3 + 2) (?p3 + 2 + length ?x) = Some ?x"
    using get_range_at [of "?pre @ enc16 (length ?x)" "?p3 + 2" "?p3 + 2 + length ?x" ?x "[]"] pre by (simp add: body)
  show ?thesis
    by (simp only: hello_server_name_def 1 2 3 4 5 6 upto Option.bind.simps option.map be_enc16(1) [OF len(6)]
        extension_loop_hello [OF assms])
qed

lemma hello_body_length: "wf_hello h \<Longrightarrow> length (hello_body h) < 16777216"
  by (simp add: wf_hello_def hello_body_def)

lemma hello_message_arrived: "wf_hello h \<Longrightarrow> arrived (hello_message h) \<and> clipped (hello_message h) = hello_message h"
  using be_enc24 [OF hello_body_length, of h] by (simp add: arrived_def declared_def clipped_def hello_message_def)

lemma stream_server_name_hello:
  assumes "wf_hello h"
  shows "stream_server_name (hello_message h @ t) = Some (map to_ascii_lowercase (ch_name h))"
proof -
  have a: "arrived (hello_message h)" "clipped (hello_message h) = hello_message h" using hello_message_arrived [OF assms] by auto
  have "drop 4 (hello_message h) = hello_body h" by (simp add: hello_message_def enc24_def)
  then have "stream_server_name (hello_message h) = hello_server_name (hello_body h)"
    using a by (simp add: stream_server_name_def) (simp add: hello_message_def enc24_def)
  then show ?thesis using stream_server_name_arrived [OF a(1)] hello_server_name_body [OF assms] by simp
qed

lemma hs_stream_record:
  assumes "length pay < 65536"
  shows "hs_stream (handshake_record (m, pay) @ d) = pay @ hs_stream d"
proof -
  let ?d = "handshake_record (m, pay) @ d"
  have r: "rec_len ?d = length pay" using be_enc16(1) [OF assms]
    by (simp add: rec_len_def handshake_record_def enc16_def be_u16_def)
  obtain hdr where "?d = hdr @ pay @ d" "length hdr = 5"
    by (rule that [of "[HANDSHAKE, 3, m] @ enc16 (length pay)"]) (simp_all add: handshake_record_def)
  then have "take (length pay) (drop 5 ?d) = pay" "drop (5 + length pay) ?d = d" by simp_all
  then show ?thesis using hs_stream_step [of ?d] r by (simp add: handshake_record_def)
qed

lemma hs_stream_records:
  "list_all (\<lambda>r. length (snd r) < 65536) rs \<Longrightarrow>
    hs_stream (concat (map handshake_record rs) @ d) = concat (map snd rs) @ hs_stream d"
proof (induction rs)
  case (Cons r rs)
  then show ?case using hs_stream_record [of "snd r" "fst r"] by simp
qed simp

lemmas host_eval = parse_http_host_def crlf_line_def starts_with_def ends_with_def is_http1_request_line_def host_loop.simps
  eq_ignore_ascii_case_def trim_ascii_def trim_both_def is_ascii_whitespace_def to_ascii_lowercase_def host_value_of_def
  utf8_valid_ascii_Cons str_trim_def char_slices_ascii is_whitespace_def chars.simps utf8_len_ascii is_ascii_digit_def
  http_host_might_still_appear_def is_ascii_alphabetic_def

subsection \<open>Properties\<close>

text \<open>C13: The reassembled handshake message is the concatenation of the payloads of the leading handshake
  records, cut at the length its header declares, and it is reported complete exactly when that many bytes
  have arrived; a ClientHello is complete when moreover its first byte says so.\<close>

theorem handshake_assembly_is_stream_prefix:
  "assemble_handshake_message data =
     (if 5 \<le> length data \<and> data ! 0 = HANDSHAKE
      then Some \<lparr>ah_message = clipped (hs_stream data), ah_complete = arrived (hs_stream data)\<rparr> else None) \<and>
   (client_hello_is_complete data \<longleftrightarrow>
      5 \<le> length data \<and> data ! 0 = HANDSHAKE \<and> arrived (hs_stream data) \<and> hd (hs_stream data) = 1)"
proof (cases "5 \<le> length data \<and> data ! 0 = HANDSHAKE")
  case True
  then obtain p where p: "handshake_prefix_of data = Some p" "prefix_matches p (hs_stream data) (hs_closed data)"
    using handshake_prefix_of_spec(1) by blast
  then have "message_bytes data (hp_len p) = clipped (hs_stream data)" "hp_complete p = arrived (hs_stream data)"
    using handshake_message_spec [of data] True by (simp_all add: handshake_message_def prefix_matches_def)
  moreover have "hs_stream data \<noteq> []" if "arrived (hs_stream data)" using that by (auto simp: arrived_def)
  ultimately show ?thesis using True p
    by (auto simp: assemble_handshake_message_def client_hello_is_complete_def prefix_matches_def)
next
  case False
  then have "handshake_prefix_of data = None" using handshake_prefix_of_spec(2) by blast
  then show ?thesis using False by (simp only: assemble_handshake_message_def client_hello_is_complete_def) auto
qed

lemma hello_records_sni:
  assumes "wf_hello h" "rs \<noteq> []" "list_all (\<lambda>r. length (snd r) < 65536) rs"
    and "concat (map snd rs) = hello_message h @ rest"
  shows "parse_sni (concat (map handshake_record rs) @ later) = Some (map to_ascii_lowercase (ch_name h)) \<and>
    \<not> sni_might_still_appear (concat (map handshake_record rs) @ later)"
proof -
  let ?d = "concat (map handshake_record rs) @ later"
  obtain m pay rs' where rs: "rs = (m, pay) # rs'" using assms(2) by (cases rs) auto
  have d: "5 \<le> length ?d" "?d ! 0 = HANDSHAKE" "?d ! 1 = 3" by (simp_all add: rs handshake_record_def)
  have s: "hs_stream ?d = hello_message h @ rest @ hs_stream later" using hs_stream_records [OF assms(3)] assms(4) by simp
  have "arrived (hs_stream ?d)" unfolding s using hello_message_arrived [OF assms(1)] arrived_append by blast
  then have "\<not> sni_might_still_appear ?d"
    using d handshake_prefix_of_spec(1) [of ?d]
    by (auto simp: sni_might_still_appear_def client_hello_might_continue_def prefix_matches_def split: if_splits)
  moreover have "parse_sni ?d = Some (map to_ascii_lowercase (ch_name h))"
    using d stream_server_name_hello [OF assms(1)] s by (simp add: parse_sni_stream)
  ultimately show ?thesis by simp
qed

text \<open>C14: The server name of a well-formed ClientHello is recovered, lowercased, however the hello is cut
  into handshake records (even inside its header or the name), whatever other extensions it carries and
  whatever follows it; and the reader is told to stop waiting.\<close>

theorem sni_recovered_from_any_record_split:
  assumes "wf_hello h" "rs \<noteq> []" "list_all (\<lambda>r. length (snd r) < 65536) rs"
    and "concat (map snd rs) = hello_message h @ rest"
  shows "parse_sni (concat (map handshake_record rs) @ later) = Some (map to_ascii_lowercase (ch_name h)) \<and>
    \<not> sni_might_still_appear (concat (map handshake_record rs) @ later)"
  by (rule hello_records_sni [OF assms])

definition demo_hello :: hello where
  "demo_hello = \<lparr>ch_version = [3, 3], ch_random = replicate 32 7, ch_session = [], ch_ciphers = [0x13, 1], ch_compression = [0],
     ch_before = [(0x2B, [2, 3, 4])], ch_name = ascii ''Ab.org'', ch_after = []\<rparr>"

lemma demo_hello_wf: "wf_hello demo_hello"
  by (simp add: wf_hello_def demo_hello_def hello_extensions_def ext_bytes_def name_ext_def utf8_valid_ascii_Cons)

theorem sni_recovered_from_any_record_split_witness:
  "parse_sni (concat (map handshake_record [(1, take 70 (hello_message demo_hello)), (3, drop 70 (hello_message demo_hello))]) @ [0x17])
     = Some (ascii ''ab.org'')"
proof -
  show ?thesis
    using demo_hello_wf sni_recovered_from_any_record_split [of demo_hello
        "[(1, take 70 (hello_message demo_hello)), (3, drop 70 (hello_message demo_hello))]" "[]" "[0x17]"]
    by (simp add: hello_message_def hello_body_def hello_extensions_def demo_hello_def ext_bytes_def name_ext_def to_ascii_lowercase_def)
qed

text \<open>A server name once found, and the absence of one once the reader is told that none can appear any
  more, are final: no later bytes change the answer.\<close>

theorem sni_answer_is_final:
  assumes "parse_sni data \<noteq> None \<or> \<not> sni_might_still_appear data"
  shows "parse_sni (data @ later) = parse_sni data"
  using assms parse_sni_append [of data] parse_sni_final [of data later] by auto

theorem sni_answer_is_final_witness:
  "parse_sni ([0x16, 3, 1, 0, 4, 1, 0, 0, 100, 0x17] @ [3, 3, 0, 1, 0]) = parse_sni [0x16, 3, 1, 0, 4, 1, 0, 0, 100, 0x17]"
  by (rule sni_answer_is_final)
    (simp add: sni_might_still_appear_def client_hello_might_continue_def handshake_prefix_of_def walk_records_def
      walk_from.simps get_range_def get_at_def prefix_end_def record_payload_def be16_def be_u24_def HANDSHAKE_def)

text \<open>The host found in the header of an HTTP request is final once found, and so is the absence of one
  after the end of the header or after a first line that is no HTTP/1 request line.\<close>

theorem http_host_answer_is_final:
  assumes "host_settled data"
  shows "parse_http_host (data @ later) = parse_http_host data"
  by (rule parse_http_host_settled [OF assms])

theorem http_host_answer_is_final_witness:
  "parse_http_host ((ascii ''GET / HTTP/1.1'' @ CRLF @ ascii ''Host: A.org:80'' @ CRLF) @ ascii ''Host: b'') =
     parse_http_host (ascii ''GET / HTTP/1.1'' @ CRLF @ ascii ''Host: A.org:80'' @ CRLF)"
proof (rule http_host_answer_is_final)
  have "parse_http_host (ascii ''GET / HTTP/1.1'' @ CRLF @ ascii ''Host: A.org:80'' @ CRLF) \<noteq> None" by (simp add: host_eval)
  then show "host_settled (ascii ''GET / HTTP/1.1'' @ CRLF @ ascii ''Host: A.org:80'' @ CRLF)" by (simp only: host_settled_def) simp
qed

text \<open>The companion predicate \<open>http_host_might_still_appear\<close> answers that further bytes are irrelevant on
  prefixes that \<open>parse_http_host\<close> still completes: it asks for an alphabetic first byte, which the parser does
  not, and it takes two bare line feeds for the end of the header, which the parser reads on past.\<close>

lemma http_host_appears_after_all:
  "\<not> http_host_might_still_appear (ascii ''1'') \<and>
   parse_http_host (ascii ''1'' @ ascii '' / HTTP/1.1'' @ CRLF @ ascii ''Host: x'' @ CRLF) = Some (ascii ''x'')"
  "\<not> http_host_might_still_appear (ascii ''GET / HTTP/1.1'' @ CRLF @ ascii ''Foo: a'' @ [LF, LF]) \<and>
   parse_http_host ((ascii ''GET / HTTP/1.1'' @ CRLF @ ascii ''Foo: a'' @ [LF, LF]) @ CRLF @ ascii ''Host: x'' @ CRLF) = Some (ascii ''x'')"
  by (simp_all add: host_eval)

end
