(* ===== verification/RecoverySpec.thy ===== *)
theory RecoverySpec
  imports Recovery HelloSpec
begin

text \<open>
  What the first bytes of a tunnel are good for: the name behind an address is found however the network cuts
  the client's hello, nothing of it is lost, and a hello is sent on in one piece of work, so that it is fragmented
  as a whole.
\<close>

subsection \<open>Recovering a name\<close>

text \<open>The client's stream begins with handshake records that carry a ClientHello, and no cut of them looks like the
  header of an HTTP request.\<close>

definition hello_stream :: "hello \<Rightarrow> bytes \<Rightarrow> bool" where
  "hello_stream h d \<longleftrightarrow>
     wf_hello h \<and> length d \<le> PEEK_MAX \<and> (\<forall>n. parse_http_host (take n d) = None) \<and>
     (\<exists>rs rest. rs \<noteq> [] \<and> list_all (\<lambda>r. length (snd r) < 65536) rs \<and> concat (map snd rs) = hello_message h @ rest \<and>
        d = concat (map handshake_record rs))"

lemma hello_stream_sni:
  "hello_stream h d \<Longrightarrow> parse_sni (d @ later) = Some (map to_ascii_lowercase (ch_name h)) \<and> d \<noteq> []"
proof -
  assume h: "hello_stream h d"
  then obtain rs rest where rs: "rs \<noteq> []" "list_all (\<lambda>r. length (snd r) < 65536) rs" "concat (map snd rs) = hello_message h @ rest"
    "d = concat (map handshake_record rs)" by (auto simp: hello_stream_def)
  have "wf_hello h" using h by (simp add: hello_stream_def)
  from hello_records_sni [OF this rs(1-3)] rs(4) have "parse_sni (d @ later) = Some (map to_ascii_lowercase (ch_name h))" by simp
  moreover have "d \<noteq> []" using rs(1,4) by (cases rs) (auto simp: handshake_record_def split: prod.splits)
  ultimately show ?thesis by simp
qed

text \<open>A prefix of the stream that ends the reading names the target.\<close>

lemma decided_prefix_names:
  assumes "hello_stream h d" "d @ later = buf @ x" "prefix_decided buf"
  shows "effective_target target port buf = map to_ascii_lowercase (ch_name h) @ [COLON] @ port"
proof -
  note sni = hello_stream_sni [OF assms(1)]
  have all: "parse_sni (buf @ x) = Some (map to_ascii_lowercase (ch_name h))" using sni assms(2) by metis
  have "parse_sni buf = Some (map to_ascii_lowercase (ch_name h))"
  proof (cases "parse_sni buf")
    case (Some n)
    then show ?thesis using parse_sni_append [OF Some, of x] all by simp
  next
    case None
    show ?thesis
    proof (cases "length d \<le> length buf")
      case True
      then obtain z where "buf = d @ z" using assms(2) by (auto simp: append_eq_append_conv2)
      then show ?thesis using sni [of z] hello_stream_sni [OF assms(1), of z] by simp
    next
      case False
      then have "buf = take (length buf) d" using assms(2) by (metis append_eq_conv_conj nat_le_linear take_all take_append append_Nil2 diff_is_0_eq' take0)
      then have "parse_http_host buf = None" using assms(1) unfolding hello_stream_def by metis
      moreover have "length buf < PEEK_MAX" using False assms(1) by (simp add: hello_stream_def)
      ultimately have "\<not> sni_might_still_appear buf" using assms(3) None by (auto simp: prefix_decided_def)
      then show ?thesis using parse_sni_final [of buf x] all by simp
    qed
  qed
  then show ?thesis by (simp add: effective_target_def)
qed

lemma undecided_stream: "hello_stream h d \<Longrightarrow> d @ later = buf @ x \<Longrightarrow> \<not> prefix_decided buf \<Longrightarrow> x \<noteq> []"
  using hello_stream_sni [of h d later] by (auto simp: prefix_decided_def)

lemma read_recovery_prefix_names:
  assumes "hello_stream h d" "d @ later = buf @ unread c" "buf \<noteq> [] \<or> unread c \<noteq> []"
  shows "\<exists>b c'. run_on ans (read_recovery_prefix buf) c = (Some (Ok (Some b)), c') \<and> b @ unread c' = buf @ unread c \<and>
    effective_target target port b = map to_ascii_lowercase (ch_name h) @ [COLON] @ port"
  using assms(2,3)
proof (induction buf arbitrary: c rule: read_recovery_prefix.induct)
  case (1 buf)
  show ?case
  proof (cases "prefix_decided buf")
    case True
    have "buf \<noteq> []"
    proof
      assume "buf = []"
      then show False using True by (auto simp: prefix_decided_def PEEK_MAX_def parse_sni_stream parse_http_host_def crlf_line_def
          sni_might_still_appear_def http_host_might_still_appear_def)
    qed
    then show ?thesis using True decided_prefix_names [OF assms(1) 1(2) True]
      by (subst read_recovery_prefix.simps) (simp add: some_bytes_def)
  next
    case False
    have room: "0 < min (PEEK_MAX - length buf) 4096" using False by (auto simp: prefix_decided_def)
    obtain m where m: "do_read (min (PEEK_MAX - length buf) 4096) c = Some (Ok (take m (unread c)))" "0 < m" "m \<le> length (unread c)"
      using do_read_data [OF undecided_stream [OF assms(1) 1(2) False] room] by blast
    let ?bs = "take m (unread c)" let ?c = "consume m c"
    have ne: "?bs \<noteq> []" using m by auto
    have split: "d @ later = (buf @ ?bs) @ unread ?c" using 1(2) by simp
    from 1(1) [OF False ne split] ne obtain b c' where
      r: "run_on ans (read_recovery_prefix (buf @ ?bs)) ?c = (Some (Ok (Some b)), c')" "b @ unread c' = (buf @ ?bs) @ unread ?c"
        "effective_target target port b = map to_ascii_lowercase (ch_name h) @ [COLON] @ port" by blast
    have "run_on ans (read_recovery_prefix buf) c = run_on ans (read_recovery_prefix (buf @ ?bs)) ?c"
      using False m ne by (subst read_recovery_prefix.simps) (simp add: got_def min_absorb2)
    then show ?thesis using r split 1(2) by auto
  qed
qed

lemma peek_prefix_names:
  assumes "hello_stream h d" "d @ later = buf @ unread c" "buf \<noteq> [] \<or> unread c \<noteq> []"
  shows "\<exists>b c'. run_on ans (peek_prefix buf) c = (Some (Ok (PeekClient b)), c') \<and> b @ unread c' = buf @ unread c \<and>
    effective_target target port b = map to_ascii_lowercase (ch_name h) @ [COLON] @ port"
  using read_recovery_prefix_names [OF assms, of ans target port] by (fastforce simp: peek_prefix_def bind_ok_def run_on_bind)

lemma client_read_names:
  assumes "hello_stream h d" "d @ later = unread c"
  shows "\<exists>b c'. run_on ans client_read c = (Some (Ok (PeekClient b)), c') \<and> b @ unread c' = unread c \<and>
    effective_target target port b = map to_ascii_lowercase (ch_name h) @ [COLON] @ port"
proof -
  have "unread c \<noteq> []" using hello_stream_sni [OF assms(1)] assms(2) by auto
  from do_read_data [OF this, of 4096] obtain m where m: "do_read 4096 c = Some (Ok (take m (unread c)))" "0 < m" "m \<le> length (unread c)" by auto
  have "d @ later = take m (unread c) @ unread (consume m c)" using assms(2) by simp
  moreover have "take m (unread c) \<noteq> []" using m by auto
  ultimately show ?thesis using peek_prefix_names [OF assms(1), of later "take m (unread c)" "consume m c" ans target port] m
    by (auto simp: client_read_def client_prefix_def got_def min_absorb2)
qed

text \<open>
  C30: the name in a ClientHello is recovered however it is cut and whoever is first. Suppose the client's stream
  starts with a well-formed ClientHello in at most 16 KiB of handshake records, cut into records in any way, and no
  prefix of those records reads as an HTTP request with a \<open>Host\<close> header (\<open>http_host_inside_a_hello\<close> shows what happens
  otherwise). Then, for every cut of the stream into reads, every part of it that is pipelined behind the request, and
  every outcome of the races against the grace period, the dial and the greeting, either the client is connected to
  the server name of its hello and the port it asked for, and the bytes read for it followed by those still unread are
  its stream, or nothing was pipelined, the dialled upstream greeted first and nothing of the client has been read.
\<close>

theorem recovery_finds_the_name:
  assumes "hello_stream h d" "pipelined @ unread c = d @ later"
  shows "(\<exists>buf c'. run_on ans (peek_recovery pipelined dialled greeting) c = (Some (Ok (PeekClient buf)), c') \<and>
       buf @ unread c' = pipelined @ unread c \<and> effective_target target port buf = map to_ascii_lowercase (ch_name h) @ [COLON] @ port) \<or>
    (\<exists>u bs. run_on ans (peek_recovery pipelined dialled greeting) c = (Some (Ok (ServerFirst u bs)), c) \<and>
       pipelined = [] \<and> dialled = Ok u \<and> greeting = Ok bs \<and> bs \<noteq> [])"
proof (cases "pipelined = []")
  case False
  then show ?thesis using peek_prefix_names [OF assms(1), of later pipelined c ans target port] assms(2) by (simp add: peek_recovery_def)
next
  case True
  have s: "d @ later = [] @ unread c" "d @ later = unread c" using assms(2) True by simp_all
  have "unread c \<noteq> []" using s(2) hello_stream_sni [OF assms(1)] by auto
  then have p: "\<exists>b c'. run_on ans (peek_prefix []) c = (Some (Ok (PeekClient b)), c') \<and> b @ unread c' = unread c \<and>
      effective_target target port b = map to_ascii_lowercase (ch_name h) @ [COLON] @ port"
    using peek_prefix_names [OF assms(1) s(1), of ans target port] by simp
  show ?thesis
    using client_read_names [OF assms(1) s(2), of ans target port] p True
    by (simp add: peek_recovery_def split: sum.splits)
qed

text \<open>Where a cut of the hello does look like an HTTP header, what is recovered depends on the segments: the
  reading stops at the \<open>Host\<close> line inside the unfinished record.\<close>

definition tricky_hello :: bytes where
  "tricky_hello = [0x16, 3, 1, 0, 100, 1, 0, 0, 96, 3, 3] @ ascii '' HTTP/1.1'' @ CRLF @ ascii ''Host: b'' @ CRLF"

lemma http_host_inside_a_hello:
  "parse_sni tricky_hello = None \<and> sni_might_still_appear tricky_hello \<and>
   effective_target target (ascii ''443'') tricky_hello = ascii ''b:443''"
proof -
  have s: "parse_sni tricky_hello = None"
    by (simp add: tricky_hello_def parse_sni_def hello_server_name_def handshake_message_def handshake_prefix_of_def walk_records_def walk_from.simps
        get_range_def get_at_def prefix_end_def record_payload_def be16_def be_u24_def HANDSHAKE_def message_bytes_def skip_def)
  have m: "sni_might_still_appear tricky_hello"
    by (simp add: tricky_hello_def sni_might_still_appear_def client_hello_might_continue_def handshake_prefix_of_def walk_records_def
      walk_from.simps get_range_def get_at_def prefix_end_def record_payload_def be16_def be_u24_def HANDSHAKE_def)
  have "parse_http_host tricky_hello = Some (ascii ''b'')" by (simp add: tricky_hello_def host_eval)
  then show ?thesis using s m by (simp add: effective_target_def)
qed

subsection \<open>Holding back the first bytes\<close>

text \<open>What stands on the wire towards the upstream: whole fragments of the client's bytes, flushed one by one, and a
  beginning of the next one.\<close>

definition on_wire :: "fragment_spec \<Rightarrow> (io_error + bool) option \<Rightarrow> preparing \<Rightarrow> bool" where
  "on_wire frag r y \<longleftrightarrow>
     (case segments [] (snd (pr_sender y)) of
        (segs, rest) \<Rightarrow>
          (\<exists>k. segs = take k (fragments (pr_first y) frag)) \<and> (\<exists>more. pr_first y = concat segs @ rest @ more) \<and>
          (r = Some (Ok True) \<longrightarrow> concat segs = pr_first y \<and> rest = []))"

fun up_bytes :: "prepare_event \<Rightarrow> bytes" where
  "up_bytes (FromUpstream (Inr bs) _) = bs"
| "up_bytes _ = []"

definition gave_up :: "prepare_event list \<Rightarrow> bool" where
  "gave_up evs \<longleftrightarrow> FromClient (Ok []) \<in> set evs \<or> (\<exists>w. FromUpstream (Ok []) w \<in> set evs)"

definition held_back :: "fragment_spec \<Rightarrow> prepare_event list \<Rightarrow> preparing \<Rightarrow> bool" where
  "held_back frag evs y \<longleftrightarrow>
     (snd (pr_sender y) \<noteq> [] \<and> fs_enabled frag \<and> is_tls_client_hello (pr_first y) \<longrightarrow>
        client_hello_is_complete (pr_first y) \<or> length (pr_first y) = FIRST_MAX \<or> gave_up evs)"

lemma sent_prefix:
  assumes "sent r fs (segs, rest)"
  shows "(\<exists>k. segs = take k fs) \<and> (\<exists>more. concat fs = concat segs @ rest @ more) \<and> (r = Some (Ok Completed) \<longrightarrow> segs = fs \<and> rest = [])"
proof (cases "r = Some (Ok Completed)")
  case True
  then show ?thesis using assms by (auto simp: sent_def intro: exI [of _ "length fs"])
next
  case False
  then obtain k t where k: "k < length fs" "segs = take k fs" "fs ! k = rest @ t" using assms by (auto simp: sent_def)
  have "concat fs = concat (take k fs) @ concat (drop k fs)" by (metis append_take_drop_id concat_append)
  also have "drop k fs = (rest @ t) # drop (Suc k) fs" using k by (simp flip: Cons_nth_drop_Suc)
  finally show ?thesis using False k(2) by auto
qed

lemma send_first_wire:
  assumes "send_first frag idle y = (r, z)" "snd (pr_sender y) = []"
  shows "on_wire frag r z \<and> pr_first z = pr_first y \<and> pr_relayed z = pr_relayed y"
proof -
  obtain ws where ws: "pr_sender y = (ws, [])" using assms(2) by (cases "pr_sender y") auto
  obtain q ws' log where q: "send_possibly_fragmented (pr_first y) frag idle (ws, []) = (q, ws', log)" by (metis prod.exhaust)
  obtain segs rest where sg: "segments [] log = (segs, rest)" by fastforce
  have "sent q (fragments (pr_first y) frag) (segs, rest)" using send_log [of "pr_first y" frag idle ws] q sg by simp
  note sp = sent_prefix [OF this, unfolded fragments_concat]
  have z: "z = y\<lparr>pr_sender := (ws', log)\<rparr>" "r = Some (Ok True) \<longleftrightarrow> q = Some (Ok Completed)"
    using assms(1) q ws by (auto simp: send_first_def split: option.splits sum.splits send_progress.splits)
  show ?thesis using sp z sg by (auto simp: on_wire_def fragments_concat)
qed

lemma quiet_wire: "snd (pr_sender y) = [] \<Longrightarrow> r \<noteq> Some (Ok True) \<or> pr_first y = [] \<Longrightarrow> on_wire frag r y \<and> held_back frag evs y"
  by (auto simp: on_wire_def held_back_def intro: exI [of _ 0])

lemma flush_first_wire:
  assumes "flush_first frag idle y = (r, z)" "snd (pr_sender y) = []"
    and "pr_first y = [] \<or> \<not> is_tls_client_hello (pr_first y) \<or> client_hello_is_complete (pr_first y) \<or> length (pr_first y) = FIRST_MAX \<or> gave_up evs"
  shows "on_wire frag r z \<and> held_back frag evs z \<and> pr_first z = pr_first y \<and> pr_relayed z = pr_relayed y"
proof (cases "pr_first y = []")
  case True
  then show ?thesis using assms quiet_wire [of y r frag evs] by (auto simp: flush_first_def)
next
  case False
  then have "send_first frag idle y = (r, z)" using assms(1) by (simp add: flush_first_def)
  from send_first_wire [OF this assms(2)] show ?thesis using assms(3) False by (auto simp: held_back_def)
qed

lemma held_back_more: "held_back frag evs y \<Longrightarrow> held_back frag (ev # evs) y"
  by (auto simp: held_back_def gave_up_def)

lemma prepare_loop_wire:
  assumes "prepare_loop frag idle evs y = (r, z)" "snd (pr_sender y) = []" "length (pr_first y) \<le> FIRST_MAX"
  shows "on_wire frag r z \<and> held_back frag evs z \<and> (\<exists>more. pr_first z = pr_first y @ more) \<and>
    (\<exists>more. pr_relayed y @ concat (map up_bytes evs) = pr_relayed z @ more)"
  using assms
proof (induction evs arbitrary: y)
  case Nil
  then show ?case using quiet_wire [of y r frag "[]"] by auto
next
  case (Cons ev evs)
  have stop: ?case if "r \<noteq> Some (Ok True)" "z = y" using that quiet_wire [of y r frag "ev # evs"] Cons.prems(2) by auto
  show ?case
  proof (cases ev)
    case (FromClient x)
    show ?thesis
    proof (cases x)
      case (Inl e)
      then show ?thesis using stop Cons.prems(1) FromClient by auto
    next
      case (Inr bs)
      define n where "n = take (FIRST_MAX - length (pr_first y)) bs"
      let ?y = "y\<lparr>pr_first := pr_first y @ n\<rparr>" let ?ex = "n = [] \<or> length (pr_first ?y) = FIRST_MAX"
      show ?thesis
      proof (cases "first_decided (pr_first ?y) ?ex")
        case True
        have f: "flush_first frag idle ?y = (r, z)" using Cons.prems(1) FromClient Inr True by (simp add: n_def Let_def)
        have "pr_first ?y = [] \<or> \<not> is_tls_client_hello (pr_first ?y) \<or> client_hello_is_complete (pr_first ?y) \<or> length (pr_first ?y) = FIRST_MAX \<or> gave_up (ev # evs)"
        proof -
          have "length (pr_first ?y) = FIRST_MAX \<or> bs = []" if "n = []" using that Cons.prems(3) by (auto simp: n_def)
          then show ?thesis using True
            by (auto simp: first_decided_def is_tls_client_hello_def gave_up_def FromClient Inr split: client_hello_match.splits)
        qed
        from flush_first_wire [OF f _ this] Cons.prems(2) show ?thesis by (auto simp: FromClient Inr)
      next
        case False
        then have "prepare_loop frag idle evs ?y = (r, z)" using Cons.prems(1) FromClient Inr by (simp add: n_def Let_def)
        moreover have "length (pr_first ?y) \<le> FIRST_MAX" using Cons.prems(3) by (simp add: n_def)
        ultimately show ?thesis using Cons.IH [of ?y] Cons.prems(2) held_back_more by (auto simp: FromClient Inr)
      qed
    qed
  next
    case (FromUpstream x w)
    show ?thesis
    proof (cases x)
      case (Inl e)
      then show ?thesis using stop Cons.prems(1) FromUpstream by auto
    next
      case (Inr bs)
      show ?thesis
      proof (cases "bs = []")
        case True
        have "gave_up (ev # evs)" using FromUpstream Inr True by (auto simp: gave_up_def)
        moreover have "flush_first frag idle y = (r, z)" using Cons.prems(1) FromUpstream Inr True by simp
        ultimately show ?thesis using flush_first_wire [of frag idle y r z "ev # evs"] Cons.prems(2) by (auto simp: FromUpstream Inr True)
      next
        case False
        show ?thesis
        proof (cases w)
          case (Inl e)
          then show ?thesis using stop Cons.prems(1) FromUpstream Inr False by auto
        next
          case ok: (Inr u)
          have "prepare_loop frag idle evs (y\<lparr>pr_relayed := pr_relayed y @ bs\<rparr>) = (r, z)" using Cons.prems(1) FromUpstream Inr False ok by simp
          from Cons.IH [OF this] Cons.prems(2,3) show ?thesis using held_back_more by (auto simp: FromUpstream Inr)
        qed
      qed
    qed
  next
    case IdleFired
    show ?thesis
    proof (cases "idle = 0")
      case True
      then have "prepare_loop frag idle evs y = (r, z)" using Cons.prems(1) IdleFired by simp
      from Cons.IH [OF this Cons.prems(2,3)] show ?thesis using held_back_more by (auto simp: IdleFired)
    qed (use stop Cons.prems(1) IdleFired in auto)
  qed
qed

text \<open>What exactly is read and relayed before the first bytes are sent.\<close>

fun client_bytes :: "prepare_event \<Rightarrow> bytes" where
  "client_bytes (FromClient (Inr bs)) = bs"
| "client_bytes _ = []"

lemma flush_first_frame: "flush_first frag idle y = (r, z) \<Longrightarrow> z\<lparr>pr_sender := pr_sender y\<rparr> = y"
  by (auto simp: flush_first_def send_first_def case_prod_beta Let_def split: if_splits)

definition took :: "fragment_spec \<Rightarrow> duration \<Rightarrow> preparing \<Rightarrow> prepare_event list \<Rightarrow> (io_error + bool) option \<Rightarrow> preparing \<Rightarrow> bool" where
  "took frag idle y evs r z \<longleftrightarrow>
     pr_first z = pr_first y @ take (FIRST_MAX - length (pr_first y)) (concat (map client_bytes evs)) \<and>
     pr_relayed z = pr_relayed y @ concat (map up_bytes (case r of Some (Err _) \<Rightarrow> butlast evs | _ \<Rightarrow> evs)) \<and>
     (r = None \<and> pr_sender z = pr_sender y \<or> (\<exists>e. r = Some (Err e)) \<or> r = Some (Ok False) \<or>
      flush_first frag idle (z\<lparr>pr_sender := pr_sender y\<rparr>) = (r, z))"

lemma took_more:
  assumes "took frag idle y' evs r z" "pr_sender y' = pr_sender y"
    and "pr_first y' = pr_first y @ take (FIRST_MAX - length (pr_first y)) (client_bytes ev)"
    and "pr_relayed y' = pr_relayed y @ up_bytes ev"
    and "evs = [] \<Longrightarrow> \<forall>e. r \<noteq> Some (Err e)"
  shows "took frag idle y (ev # evs) r z"
proof -
  have "take (FIRST_MAX - length (pr_first y)) (client_bytes ev) @
      take (FIRST_MAX - length (pr_first y')) (concat (map client_bytes evs)) =
      take (FIRST_MAX - length (pr_first y)) (client_bytes ev @ concat (map client_bytes evs))"
    using assms(3) by (simp add: min_def)
  then show ?thesis
    using assms by (auto simp: took_def split: option.splits sum.splits)
qed

lemma flush_first_took:
  assumes "flush_first frag idle y' = (r, z)" "pr_sender y' = pr_sender y"
    and "pr_first y' = pr_first y @ take (FIRST_MAX - length (pr_first y)) (client_bytes ev)"
    and "pr_relayed y' = pr_relayed y" "up_bytes ev = []"
  shows "took frag idle y [ev] r z"
proof -
  have z: "z\<lparr>pr_sender := pr_sender y'\<rparr> = y'" by (rule flush_first_frame [OF assms(1)])
  then have "pr_first z = pr_first y'" "pr_relayed z = pr_relayed y'"
    using arg_cong [OF z, of pr_first] arg_cong [OF z, of pr_relayed] by simp_all
  moreover have "flush_first frag idle (z\<lparr>pr_sender := pr_sender y\<rparr>) = (r, z)"
    using assms(1,2) z by simp
  ultimately show ?thesis
    using assms(3-) by (auto simp: took_def split: option.splits sum.splits)
qed

lemma prepare_loop_took:
  assumes "prepare_loop frag idle evs y = (r, z)"
  shows "\<exists>n \<le> length evs. prepare_loop frag idle (take n evs) y = (r, z) \<and>
    (\<forall>k < n. fst (prepare_loop frag idle (take k evs) y) = None) \<and>
    (r = None \<and> pr_sender z = pr_sender y \<longrightarrow> n = length evs \<or> flush_first frag idle (z\<lparr>pr_sender := pr_sender y\<rparr>) = (r, z)) \<and>
    took frag idle y (take n evs) r z"
  using assms
proof (induction evs arbitrary: y)
  case Nil
  then show ?case by (auto simp: took_def)
next
  case (Cons ev evs)
  have last_: ?case if "took frag idle y [ev] r z" "prepare_loop frag idle [ev] y = (r, z)"
    "r \<noteq> None \<or> flush_first frag idle (z\<lparr>pr_sender := pr_sender y\<rparr>) = (r, z)"
    using that by (intro exI [of _ 1]) auto
  have on: ?case if step: "\<And>es. prepare_loop frag idle (ev # es) y = prepare_loop frag idle es y'" and "pr_sender y' = pr_sender y"
      "pr_first y' = pr_first y @ take (FIRST_MAX - length (pr_first y)) (client_bytes ev)"
      "pr_relayed y' = pr_relayed y @ up_bytes ev" for y'
  proof -
    obtain n where n: "n \<le> length evs" "prepare_loop frag idle (take n evs) y' = (r, z)"
        "\<forall>k < n. fst (prepare_loop frag idle (take k evs) y') = None"
        "r = None \<and> pr_sender z = pr_sender y' \<longrightarrow> n = length evs \<or> flush_first frag idle (z\<lparr>pr_sender := pr_sender y'\<rparr>) = (r, z)"
        "took frag idle y' (take n evs) r z"
      using Cons.IH [of y'] Cons.prems step by auto
    have "\<forall>e. r \<noteq> Some (Err e)" if "take n evs = []" using n(2) unfolding that by auto
    then have "took frag idle y (take (Suc n) (ev # evs)) r z"
      using took_more [OF n(5) that(2-4)] by simp
    moreover have "\<forall>k < Suc n. fst (prepare_loop frag idle (take k (ev # evs)) y) = None"
      using n(3) step by (auto simp: less_Suc_eq_0_disj)
    ultimately show ?thesis using n(1,2,4) step that(2) by (intro exI [of _ "Suc n"]) auto
  qed
  show ?case
  proof (cases ev)
    case (FromClient x)
    show ?thesis
    proof (cases x)
      case (Inl e)
      then show ?thesis using last_ Cons.prems FromClient by (auto simp: took_def)
    next
      case (Inr bs)
      define n where "n = take (FIRST_MAX - length (pr_first y)) bs"
      let ?y = "y\<lparr>pr_first := pr_first y @ n\<rparr>"
      show ?thesis
      proof (cases "first_decided (pr_first ?y) (n = [] \<or> length (pr_first ?y) = FIRST_MAX)")
        case True
        have l: "prepare_loop frag idle (ev # es) y = flush_first frag idle ?y" for es
          using True by (simp add: FromClient Inr n_def Let_def)
        have f: "flush_first frag idle ?y = (r, z)" using Cons.prems unfolding l .
        moreover have "z\<lparr>pr_sender := pr_sender y\<rparr> = ?y" using flush_first_frame [OF f] by simp
        moreover have "took frag idle y [ev] r z"
          by (rule flush_first_took [OF f]) (simp_all add: FromClient Inr n_def)
        ultimately show ?thesis using last_ l [of "[]"] by metis
      next
        case False
        then show ?thesis by (intro on [of ?y]) (simp_all add: FromClient Inr n_def Let_def)
      qed
    qed
  next
    case (FromUpstream x w)
    show ?thesis
    proof (cases x)
      case (Inl e)
      then show ?thesis using last_ Cons.prems FromUpstream by (auto simp: took_def)
    next
      case (Inr bs)
      show ?thesis
      proof (cases "bs = []")
        case True
        have l: "prepare_loop frag idle (ev # es) y = flush_first frag idle y" for es
          by (simp add: FromUpstream Inr True)
        have f: "flush_first frag idle y = (r, z)" using Cons.prems unfolding l .
        moreover have "z\<lparr>pr_sender := pr_sender y\<rparr> = y" by (rule flush_first_frame [OF f])
        moreover have "took frag idle y [ev] r z"
          by (rule flush_first_took [OF f]) (simp_all add: FromUpstream Inr True)
        ultimately show ?thesis using last_ l [of "[]"] by metis
      next
        case False
        then show ?thesis
        proof (cases w)
          case (Inl e)
          then show ?thesis using last_ Cons.prems FromUpstream Inr False by (auto simp: took_def)
        next
          case (Inr u)
          then show ?thesis using False \<open>x = Inr bs\<close>
            by (intro on [of "y\<lparr>pr_relayed := pr_relayed y @ bs\<rparr>"]) (simp_all add: FromUpstream)
        qed
      qed
    qed
  next
    case IdleFired
    show ?thesis
    proof (cases "idle = 0")
      case True
      then show ?thesis by (intro on [of y]) (simp_all add: IdleFired)
    next
      case False
      then show ?thesis using last_ Cons.prems IdleFired by (auto simp: took_def)
    qed
  qed
qed

lemma prepare_payload_wire:
  assumes "prepare_payload frag idle buf evs ws = (r, y)"
  shows "on_wire frag r y \<and> held_back frag evs y \<and> (\<exists>more. pr_first y = buf @ more) \<and>
    (\<exists>more. concat (map up_bytes evs) = pr_relayed y @ more)"
proof -
  let ?y = "\<lparr>pr_first = buf, pr_relayed = [], pr_sender = (ws, [])\<rparr>"
  note def = assms [unfolded prepare_payload_def Let_def]
  show ?thesis
  proof (cases "buf \<noteq> [] \<and> \<not> unfinished_hello frag buf")
    case True
    then have "send_first frag idle ?y = (r, y)" using def by simp
    from send_first_wire [OF this] True show ?thesis by (auto simp: held_back_def unfinished_hello_def is_tls_client_hello_def)
  next
    case waits: False
    consider (plain) "\<not> fs_enabled frag" | (panic) "fs_enabled frag" "FIRST_MAX < length buf" | (wait) "fs_enabled frag" "length buf \<le> FIRST_MAX"
      by linarith
    then show ?thesis
    proof cases
      case plain
      then have "buf = []" using waits by (auto simp: unfinished_hello_def)
      moreover have "r = Some (Ok True)" "y = ?y" using def waits plain by simp_all
      ultimately show ?thesis using quiet_wire [of ?y r frag evs] by simp
    next
      case panic
      then have "r = None" "y = ?y" using def waits by simp_all
      then show ?thesis using quiet_wire [of ?y r frag evs] by simp
    next
      case wait
      then have "prepare_loop frag idle evs ?y = (r, y)" using def waits by simp
      from prepare_loop_wire [OF this] wait(2) show ?thesis by simp
    qed
  qed
qed

lemma prepare_payload_took:
  assumes "prepare_payload frag idle buf evs ws = (r, y)"
  shows "\<exists>n \<le> length evs. prepare_payload frag idle buf (take n evs) ws = (r, y) \<and>
    (\<forall>k < n. fst (prepare_payload frag idle buf (take k evs) ws) = None) \<and>
    pr_first y = buf @ take (FIRST_MAX - length buf) (concat (map client_bytes (take n evs))) \<and>
    pr_relayed y = concat (map up_bytes (case r of Some (Err _) \<Rightarrow> butlast (take n evs) | _ \<Rightarrow> take n evs)) \<and>
    (r = None \<and> pr_sender y = (ws, []) \<and> (n = length evs \<or> FIRST_MAX < length buf) \<or> (\<exists>e. r = Some (Err e)) \<or> r = Some (Ok False) \<or>
     flush_first frag idle (y\<lparr>pr_sender := (ws, [])\<rparr>) = (r, y))"
proof -
  let ?y = "\<lparr>pr_first = buf, pr_relayed = [], pr_sender = (ws, [])\<rparr>"
  note def = prepare_payload_def [of frag idle buf _ ws, unfolded Let_def]
  have at0: ?thesis if l: "\<And>es. prepare_payload frag idle buf es ws = flush_first frag idle ?y"
  proof -
    have f: "flush_first frag idle ?y = (r, y)" using assms unfolding l .
    have z: "y\<lparr>pr_sender := (ws, [])\<rparr> = ?y" using flush_first_frame [OF f] by simp
    then have "pr_first y = buf" "pr_relayed y = []"
      using arg_cong [OF z, of pr_first] arg_cong [OF z, of pr_relayed] by simp_all
    moreover have "flush_first frag idle (y\<lparr>pr_sender := (ws, [])\<rparr>) = (r, y)" using f unfolding z .
    ultimately show ?thesis using f l by (intro exI [of _ 0]) (simp split: option.split sum.split)
  qed
  consider (now) "buf \<noteq> [] \<and> \<not> unfinished_hello frag buf"
    | (plain) "\<not> (buf \<noteq> [] \<and> \<not> unfinished_hello frag buf)" "\<not> fs_enabled frag"
    | (panic) "\<not> (buf \<noteq> [] \<and> \<not> unfinished_hello frag buf)" "fs_enabled frag" "FIRST_MAX < length buf"
    | (wait) "\<not> (buf \<noteq> [] \<and> \<not> unfinished_hello frag buf)" "fs_enabled frag" "\<not> FIRST_MAX < length buf" by blast
  then show ?thesis
  proof cases
    case now
    then show ?thesis by (intro at0) (simp add: def flush_first_def)
  next
    case plain
    then show ?thesis by (intro at0) (auto simp: prepare_payload_def Let_def flush_first_def unfinished_hello_def)
  next
    case panic
    then have l: "prepare_payload frag idle buf es ws = (None, ?y)" for es by (auto simp: def)
    then have "r = None" "y = ?y" using assms by simp_all
    then show ?thesis
      unfolding l using panic(3) by (intro exI [of _ 0]) simp
  next
    case wait
    then have l: "prepare_payload frag idle buf es ws = prepare_loop frag idle es ?y" for es by (auto simp: def)
    show ?thesis
      unfolding l using prepare_loop_took [OF assms [unfolded l]] by (auto simp: took_def)
  qed
qed

text \<open>
  C31: the first bytes reach the upstream in order, once, and a ClientHello as a whole. Whatever the client, the
  upstream and the timer do, the loop takes its events one by one up to the first that ends it. The bytes it sends
  are those it was given, followed by what the client sent in those events, in order, as far as the buffer has room
  (a read takes no more); the bytes it relays to the client are exactly what the upstream sent in those events. It
  ends with an error, with a stall, or by sending all it holds, and waits for more events otherwise (or panics, on
  an unfinished hello longer than the buffer). On the wire stands a beginning
  of those bytes, all of them when the tunnel goes on, flushed at the boundaries of the fragments of all of them
  together; and with fragmentation enabled nothing of a ClientHello is sent before the hello is complete, unless the
  buffer is full or one of the peers has closed.
\<close>

theorem first_bytes_sent_whole:
  assumes "prepare_payload frag idle buf evs ws = (r, y)"
  shows "on_wire frag r y \<and> held_back frag evs y \<and> (\<exists>more. pr_first y = buf @ more) \<and>
    (\<exists>more. concat (map up_bytes evs) = pr_relayed y @ more) \<and>
    (\<exists>n \<le> length evs. prepare_payload frag idle buf (take n evs) ws = (r, y) \<and>
      (\<forall>k < n. fst (prepare_payload frag idle buf (take k evs) ws) = None) \<and>
      pr_first y = buf @ take (FIRST_MAX - length buf) (concat (map client_bytes (take n evs))) \<and>
      pr_relayed y = concat (map up_bytes (case r of Some (Err _) \<Rightarrow> butlast (take n evs) | _ \<Rightarrow> take n evs)) \<and>
      (r = None \<and> pr_sender y = (ws, []) \<and> (n = length evs \<or> FIRST_MAX < length buf) \<or> (\<exists>e. r = Some (Err e)) \<or> r = Some (Ok False) \<or>
       flush_first frag idle (y\<lparr>pr_sender := (ws, [])\<rparr>) = (r, y)))"
  using prepare_payload_wire [OF assms] prepare_payload_took [OF assms] by blast

subsection \<open>Witnesses\<close>

definition demo_records :: bytes where
  "demo_records = concat (map handshake_record [(1, take 20 (hello_message demo_hello)), (3, drop 20 (hello_message demo_hello))])"

lemma no_cr_no_host: "CR \<notin> set d \<Longrightarrow> parse_http_host d = None"
proof (cases "find_window CRLF d")
  case (Some n)
  assume "CR \<notin> set d"
  then have "CR \<notin> set (take (length CRLF) (drop n d))" by (meson in_set_dropD in_set_takeD)
  moreover have "take (length CRLF) (drop n d) = CRLF" using Some find_window_Some [of CRLF d n] by simp
  ultimately show ?thesis by simp
qed (simp add: parse_http_host_def crlf_line_def)

lemma demo_records_stream: "hello_stream demo_hello demo_records"
  unfolding hello_stream_def
proof (intro conjI)
  let ?rs = "[(1, take 20 (hello_message demo_hello)), (3, drop 20 (hello_message demo_hello))] :: (byte \<times> bytes) list"
  have "CR \<notin> set demo_records"
    by (simp add: demo_records_def handshake_record_def hello_message_def hello_body_def hello_extensions_def demo_hello_def ext_bytes_def name_ext_def
      enc16_def enc24_def enc8_def HANDSHAKE_def)
  then show "\<forall>n. parse_http_host (take n demo_records) = None" using no_cr_no_host by (metis in_set_takeD)
  show "length demo_records \<le> PEEK_MAX"
    by (simp add: demo_records_def handshake_record_def hello_message_def hello_body_def hello_extensions_def demo_hello_def ext_bytes_def name_ext_def
      PEEK_MAX_def)
  show "\<exists>rs rest. rs \<noteq> [] \<and> list_all (\<lambda>r. length (snd r) < 65536) rs \<and> concat (map snd rs) = hello_message demo_hello @ rest \<and>
      demo_records = concat (map handshake_record rs)"
    by (rule exI [of _ ?rs], rule exI [of _ "[]"])
      (simp add: demo_records_def, simp add: hello_message_def hello_body_def hello_extensions_def demo_hello_def ext_bytes_def name_ext_def)
qed (rule demo_hello_wf)

theorem recovery_finds_the_name_witness:
  "\<exists>buf c'. run_on (\<lambda>_. True) (peek_recovery (take 10 demo_records) (Err () :: unit + any_upstream) (Ok []))
       \<lparr>incoming = [take 30 (drop 10 demo_records), drop 40 demo_records, [0x17]], ending = Silent, outgoing = []\<rparr> = (Some (Ok (PeekClient buf)), c') \<and>
     effective_target (ascii ''192.0.2.1:443'') (ascii ''443'') buf = ascii ''ab.org:443''"
proof -
  let ?c = "\<lparr>incoming = [take 30 (drop 10 demo_records), drop 40 demo_records, [0x17]], ending = Silent, outgoing = []\<rparr>"
  have "take 10 demo_records @ unread ?c = demo_records @ [0x17]"
    using append_take_drop_id [of 30 "drop 10 demo_records"] append_take_drop_id [of 10 demo_records]
    by (simp add: unread_def)
  from recovery_finds_the_name [OF demo_records_stream this, of "\<lambda>_. True" "Err ()" "Ok []" "ascii ''192.0.2.1:443''" "ascii ''443''"]
  show ?thesis by (auto simp: demo_hello_def to_ascii_lowercase_def)
qed

definition demo_frag :: fragment_spec where
  "demo_frag = \<lparr>fs_enabled = True, fragment_size = 4, delay_ms = 0\<rparr>"

theorem first_bytes_sent_whole_witness:
  "\<exists>y. prepare_payload demo_frag 5 [71] [] [Window [] (Some (Ok 1)), Window [] (Some (Ok 0))] = (Some (Ok True), y) \<and>
     on_wire demo_frag (Some (Ok True)) y \<and> held_back demo_frag [] y"
proof -
  obtain y where y: "prepare_payload demo_frag 5 [71] [] [Window [] (Some (Ok 1)), Window [] (Some (Ok 0))] = (Some (Ok True), y)"
    by (simp add: prepare_payload_def unfinished_hello_def classify_client_hello_def send_first_def send_possibly_fragmented_def is_tls_client_hello_def
        write_progress_bounded_def write_loop.simps Let_def demo_frag_def)
  with first_bytes_sent_whole [OF y] show ?thesis by blast
qed

end
