(* ===== verification/ProxyLine.thy ===== *)
theory ProxyLine
  imports ProxyConfig
begin

text \<open>\<open>connect/util/parse_proxy_str.rs\<close>: one line of an upstream list as a proxy entry.\<close>

datatype parse_proxy_error = Empty | Comment | BadHostPort | BadGate

definition marker_count :: "bytes \<Rightarrow> nat" where
  "marker_count s = length (takeWhile (\<lambda>b. b = STAR) s)"

definition split_credentials :: "bytes \<Rightarrow> parse_proxy_error + (bytes option \<times> bytes)" where
  "split_credentials s =
     (case split_once AT s of
        Some (creds, rest) \<Rightarrow> if AT \<notin> set rest then Ok (Some creds, rest) else Err BadHostPort
      | None \<Rightarrow> Ok (None, s))"

definition split_user :: "bytes option \<Rightarrow> parse_proxy_error + (bytes option \<times> bytes option)" where
  "split_user creds =
     (case creds of
        Some cr \<Rightarrow> (case split_once COLON cr of
                     Some (u, w) \<Rightarrow> Ok (Some u, Some w)
                   | None \<Rightarrow> Err BadHostPort)
      | None \<Rightarrow> Ok (None, None))"

definition parse_proxy_str :: "bytes \<Rightarrow> proxy_protocol \<Rightarrow> parse_proxy_error + proxy_config" where
  "parse_proxy_str s protocol =
     (if list_all is_whitespace (chars s) then Err Empty
      else if take 1 s = [HASH] then Err Comment
      else
        let k = marker_count s
        in if 255 < k then Err BadGate
           else
             let rest = drop k s; level = of_nat k :: byte
             in if 0 < k \<and> rest = [] then Err BadGate
                else case split_credentials rest of
                  Err e \<Rightarrow> Err e
                | Ok (creds, hp) \<Rightarrow> (case split_user creds of
                    Err e \<Rightarrow> Err e
                  | Ok (u, w) \<Rightarrow> (case host_port_parse hp of
                      None \<Rightarrow> Err BadHostPort
                    | Some a \<Rightarrow>
                        (case proxy_new protocol (hp_host a) (hp_port a) of
                           ProxyConfig pr h p _ _ _ _ g \<Rightarrow> Ok (ProxyConfig pr h p u w level (level > 0) g)))))"

definition from_addr :: "proxy_protocol \<Rightarrow> bytes \<Rightarrow> parse_proxy_error + proxy_config" where
  "from_addr protocol addr = parse_proxy_str addr protocol"

text \<open>The line an entry is written as.\<close>

definition credentials_str :: "proxy_config \<Rightarrow> bytes" where
  "credentials_str c =
     (case (pc_user c, pc_password c) of (Some u, Some w) \<Rightarrow> u @ COLON # w @ [AT] | _ \<Rightarrow> [])"

definition proxy_line :: "proxy_config \<Rightarrow> bytes" where
  "proxy_line c =
     replicate (unat (pc_gate_level c)) STAR @ credentials_str c @ host_port_format (pc_host c) (pc_port c)"

subsection \<open>What an accepted line gives\<close>

lemma canonical_host_strip: "canonical_host h \<Longrightarrow> strip_brackets h = h"
  using parse_ipv6_no_bracket [of h]
  by (cases h) (auto simp: strip_brackets_def canonical_host_def parse_ipv6_Nil)

lemma marker_count_split:
  "s = replicate (marker_count s) STAR @ drop (marker_count s) s" "take 1 (drop (marker_count s) s) \<noteq> [STAR]"
proof -
  have t: "takeWhile (\<lambda>b. b = STAR) s = replicate (marker_count s) STAR"
    by (intro nth_equalityI) (auto simp: marker_count_def dest!: nth_mem set_takeWhileD)
  have d: "drop (marker_count s) s = dropWhile (\<lambda>b. b = STAR) s"
    by (simp add: marker_count_def dropWhile_eq_drop)
  show "s = replicate (marker_count s) STAR @ drop (marker_count s) s"
    using takeWhile_dropWhile_id [of "\<lambda>b. b = STAR" s] t d by simp
  show "take 1 (drop (marker_count s) s) \<noteq> [STAR]"
    unfolding d
  proof
    assume "take 1 (dropWhile (\<lambda>b. b = STAR) s) = [STAR]"
    then have "dropWhile (\<lambda>b. b = STAR) s \<noteq> []" "hd (dropWhile (\<lambda>b. b = STAR) s) = STAR"
      by (metis list.distinct(1) take_Nil, metis hd_take list.sel(1) zero_less_one)
    then show False using hd_dropWhile [of "\<lambda>b. b = STAR" s] by simp
  qed
qed

lemma marker_count_replicate: "take 1 r \<noteq> [STAR] \<Longrightarrow> marker_count (replicate k STAR @ r) = k"
  by (cases r) (simp_all add: marker_count_def takeWhile_append)

text \<open>The pieces of an accepted line, as the parser cuts it.\<close>

definition line_pieces :: "bytes \<Rightarrow> proxy_config \<Rightarrow> bool" where
  "line_pieces s c \<longleftrightarrow>
     (\<exists>k hp. k \<le> 255 \<and> pc_gate_level c = of_nat k \<and> pc_is_gate c = (0 < k) \<and> pc_gate c = None \<and>
        s = replicate k STAR @ credentials_str c @ hp \<and> AT \<notin> set hp \<and>
        host_port_parse hp = Some \<lparr>hp_host = pc_host c, hp_port = pc_port c\<rparr> \<and>
        (case (pc_user c, pc_password c) of
           (Some u, Some w) \<Rightarrow> COLON \<notin> set u \<and> AT \<notin> set u \<and> AT \<notin> set w
         | (None, None) \<Rightarrow> True | _ \<Rightarrow> False) \<and>
        take 1 (credentials_str c @ hp) \<noteq> [STAR] \<and> (0 < k \<or> take 1 (credentials_str c @ hp) \<noteq> [HASH]))"

lemma of_nat_byte_pos: "k \<le> 255 \<Longrightarrow> (0 < (of_nat k :: byte)) = (0 < k)"
  by (auto simp: word_less_nat_alt unat_of_nat)

lemma parse_proxy_str_pieces:
  assumes "parse_proxy_str s pr = Ok c"
  shows "line_pieces s c \<and> pc_protocol c = pr"
proof -
  let ?k = "marker_count s" and ?rest = "drop (marker_count s) s"
  from assms obtain creds hp u w a where
    k: "?k \<le> 255" and cr: "split_credentials ?rest = Ok (creds, hp)" and us: "split_user creds = Ok (u, w)"
    and hp: "host_port_parse hp = Some a" and hash: "take 1 s \<noteq> [HASH]"
    and c: "c = ProxyConfig pr (strip_brackets (hp_host a)) (hp_port a) u w (of_nat ?k) (of_nat ?k > (0 :: byte)) None"
    by (auto simp: parse_proxy_str_def Let_def proxy_new_def split: if_splits sum.splits prod.splits option.splits)
  have h: "strip_brackets (hp_host a) = hp_host a"
    using canonical_host_strip [OF host_port_parse_canonical [OF hp]] .
  have s: "s = replicate ?k STAR @ ?rest" by (rule marker_count_split)
  have nohash: "0 < ?k \<or> take 1 ?rest \<noteq> [HASH]" using hash by (cases "?k = 0") auto
  have "?rest = credentials_str c @ hp \<and> AT \<notin> set hp \<and>
      (case (u, w) of (Some u, Some w) \<Rightarrow> COLON \<notin> set u \<and> AT \<notin> set u \<and> AT \<notin> set w
         | (None, None) \<Rightarrow> True | _ \<Rightarrow> False)"
    using cr us by (auto simp: split_credentials_def split_user_def credentials_str_def c slice_simps
        split: option.splits if_splits)
  then show ?thesis
    unfolding line_pieces_def using s k hp nohash marker_count_split(2) [of s]
    by (intro conjI exI [of _ ?k] exI [of _ hp]) (auto simp: c h of_nat_byte_pos)
qed

subsection \<open>The canonical line\<close>

lemma host_port_parse_host_chars:
  assumes "host_port_parse hp = Some a"
  shows "\<exists>x y. hp = x @ hp_host a @ y \<and> set x \<subseteq> {LBRACKET} \<and> (\<exists>c r. y = c # r \<and> c < 128)"
proof (cases "strip_prefix [LBRACKET] hp")
  case None
  with assms obtain p where "hp = hp_host a @ COLON # p"
    by (auto simp: host_port_parse_def bind_eq_Some_conv rsplit_once_Some split: if_splits)
  then show ?thesis by (intro exI [of _ "[]"] exI [of _ "COLON # p"]) simp
next
  case (Some r)
  with assms obtain p where "hp = [LBRACKET] @ hp_host a @ RBRACKET # p"
    by (auto simp: host_port_parse_def bind_eq_Some_conv split_once_Some strip_prefix_Some split: if_splits)
  then show ?thesis by (intro exI [of _ "[LBRACKET]"] exI [of _ "RBRACKET # p"]) simp
qed

lemma host_port_format_first:
  assumes "host_port_parse hp = Some a"
  shows "take 1 (host_port_format (hp_host a) p) = [LBRACKET] \<or>
         take 1 (host_port_format (hp_host a) p) = take 1 hp"
proof (cases "strip_prefix [LBRACKET] hp")
  case None
  with assms obtain p where "hp = hp_host a @ COLON # p"
    by (auto simp: host_port_parse_def bind_eq_Some_conv rsplit_once_Some split: if_splits)
  moreover have "hp_host a \<noteq> []"
    using canonical_host_nonempty [OF host_port_parse_canonical [OF assms]] .
  ultimately show ?thesis by (cases "hp_host a") (auto simp: host_port_format_def)
next
  case (Some r)
  with assms have "parse_ipv6 (hp_host a) \<noteq> None"
    by (auto simp: host_port_parse_def bind_eq_Some_conv split: if_splits)
  then show ?thesis by (simp add: host_port_format_def)
qed

lemma host_port_format_is_str:
  assumes "is_str h"
  shows "is_str (host_port_format h p)"
  using assms fmt_u16_is_str [of p]
  by (auto simp: host_port_format_def is_str_append utf8_len_ascii Let_def)

lemma host_port_parse_is_str:
  assumes "host_port_parse hp = Some a" "is_str hp"
  shows "is_str (hp_host a)"
proof -
  obtain x c r where hp: "hp = x @ hp_host a @ c # r" "set x \<subseteq> {LBRACKET}" "c < 128"
    using host_port_parse_host_chars [OF assms(1)] by auto
  have "is_str x" using hp(2) by (intro is_str_ascii) (auto simp: list_all_iff)
  then show ?thesis using assms(2) hp is_str_append is_str_split by metis
qed

lemma split_credentials_str:
  assumes "case (pc_user c, pc_password c) of
           (Some u, Some w) \<Rightarrow> COLON \<notin> set u \<and> AT \<notin> set u \<and> AT \<notin> set w
         | (None, None) \<Rightarrow> True | _ \<Rightarrow> False"
    and "AT \<notin> set hp"
  shows "\<exists>cr. split_credentials (credentials_str c @ hp) = Ok (cr, hp) \<and>
    split_user cr = Ok (pc_user c, pc_password c)"
proof (cases "pc_user c")
  case None
  then have "pc_password c = None" using assms(1) by (cases "pc_password c") auto
  then show ?thesis
    using None assms(2) split_once_None [of AT hp] by (simp add: split_credentials_def split_user_def credentials_str_def)
next
  case (Some u)
  then obtain w where w: "pc_password c = Some w" "COLON \<notin> set u" "AT \<notin> set u" "AT \<notin> set w"
    using assms(1) by (cases "pc_password c") auto
  have "split_once AT ((u @ COLON # w) @ AT # hp) = Some (u @ COLON # w, hp)"
    using w by (subst split_once_Some) simp
  moreover have "split_once COLON (u @ COLON # w) = Some (u, w)"
    using w by (subst split_once_Some) simp
  ultimately show ?thesis
    using Some w assms(2) by (simp add: split_credentials_def split_user_def credentials_str_def)
qed

text \<open>The canonical spelling of an entry has a character that is no white space.\<close>

lemma proxy_line_not_blank:
  assumes "is_str (replicate k STAR @ credentials_str c @ hp)"
    and "host_port_parse hp = Some \<lparr>hp_host = pc_host c, hp_port = pc_port c\<rparr>"
    and "proxy_line c = replicate k STAR @ credentials_str c @ host_port_format (pc_host c) (pc_port c)"
  shows "\<not> list_all is_whitespace (chars (proxy_line c))"
proof -
  have st: "is_str (replicate k STAR)" by (intro is_str_ascii) (auto simp: list_all_iff)
  have rest: "is_str (credentials_str c @ hp)" using assms(1) st by (simp add: is_str_append)
  have "is_str (credentials_str c) \<and> is_str hp"
  proof (cases "pc_user c = None \<or> pc_password c = None")
    case True
    then show ?thesis using rest by (auto simp: credentials_str_def split: option.splits)
  next
    case False
    then obtain x where x: "credentials_str c = x @ [AT]" by (auto simp: credentials_str_def)
    then have "is_str x \<and> is_str hp" using rest is_str_split [of x AT hp] by simp
    then show ?thesis using x by (simp add: is_str_append utf8_len_ascii Let_def)
  qed
  moreover from this have "is_str (pc_host c)" using host_port_parse_is_str [OF assms(2)] by simp
  ultimately have "is_str (proxy_line c)"
    using st by (simp add: assms(3) is_str_append host_port_format_is_str)
  moreover have "COLON \<in> set (proxy_line c)" by (simp add: assms(3) host_port_format_def)
  ultimately have "58 \<in> set (chars (proxy_line c))" using is_str_char [of "proxy_line c" COLON] by simp
  moreover have "\<not> is_whitespace 58" by (simp add: is_whitespace_def)
  ultimately show ?thesis by (auto simp: list_all_iff)
qed

text \<open>
  C12: every accepted line of an upstream list has a canonical spelling. Writing the parsed entry as
  gate markers, credentials and canonical host and port gives a line that parses to exactly the
  same entry: no field of an entry depends on how its line was spelled, and nothing of the entry
  (gate level, credentials with colons in the password, IPv6 host) is lost by writing it.
\<close>

theorem proxy_line_canonical:
  assumes "parse_proxy_str s pr = Ok c" "is_str s"
  shows "parse_proxy_str (proxy_line c) pr = Ok c"
proof -
  obtain k hp where k: "k \<le> 255" "pc_gate_level c = of_nat k" "pc_is_gate c = (0 < k)" "pc_gate c = None"
    and s: "s = replicate k STAR @ credentials_str c @ hp" and at: "AT \<notin> set hp"
    and hp: "host_port_parse hp = Some \<lparr>hp_host = pc_host c, hp_port = pc_port c\<rparr>"
    and cr: "case (pc_user c, pc_password c) of
           (Some u, Some w) \<Rightarrow> COLON \<notin> set u \<and> AT \<notin> set u \<and> AT \<notin> set w
         | (None, None) \<Rightarrow> True | _ \<Rightarrow> False"
    and first: "take 1 (credentials_str c @ hp) \<noteq> [STAR]" "0 < k \<or> take 1 (credentials_str c @ hp) \<noteq> [HASH]"
    and pr: "pc_protocol c = pr"
    using parse_proxy_str_pieces [OF assms(1)] unfolding line_pieces_def by blast
  let ?hp = "host_port_format (pc_host c) (pc_port c)"
  let ?rest = "credentials_str c @ ?hp"
  have uk: "unat (of_nat k :: byte) = k" using k(1) by (simp add: unat_of_nat)
  have line: "proxy_line c = replicate k STAR @ ?rest" by (simp add: proxy_line_def k(2) uk)
  have hp_first: "take 1 ?hp = [LBRACKET] \<or> take 1 ?hp = take 1 hp"
    using host_port_format_first [OF hp, of "pc_port c"] by simp
  have ne: "?hp \<noteq> []" by (simp add: host_port_format_def)
  have f: "take 1 ?rest \<noteq> [STAR]" "0 < k \<or> take 1 ?rest \<noteq> [HASH]"
    using first hp_first by (cases "credentials_str c"; auto)+
  have mc: "marker_count (proxy_line c) = k" unfolding line by (rule marker_count_replicate [OF f(1)])
  have hostat: "AT \<notin> set (pc_host c)"
    using host_port_parse_host_chars [OF hp] at by auto
  then have at': "AT \<notin> set ?hp" by (auto simp: host_port_format_def fmt_u16_special)
  have split: "\<exists>cr. split_credentials ?rest = Ok (cr, ?hp) \<and> split_user cr = Ok (pc_user c, pc_password c)"
    using cr at' by (rule split_credentials_str)
  have canon: "canonical_host (pc_host c)" using host_port_parse_canonical [OF hp] by simp
  have hpp: "host_port_parse ?hp = Some \<lparr>hp_host = pc_host c, hp_port = pc_port c\<rparr>"
    by (rule host_port_parse_format [OF canon])
  have ws: "\<not> list_all is_whitespace (chars (proxy_line c))"
    using proxy_line_not_blank [OF _ hp line] assms(2) s by simp
  have hash: "take 1 (proxy_line c) \<noteq> [HASH]" using f(2) by (cases k) (auto simp: line)
  have "?rest \<noteq> []" using ne by simp
  moreover obtain crs where "split_credentials ?rest = Ok (crs, ?hp)" "split_user crs = Ok (pc_user c, pc_password c)"
    using split by blast
  moreover have "drop k (proxy_line c) = ?rest" by (simp add: line)
  ultimately have "parse_proxy_str (proxy_line c) pr =
      Ok (ProxyConfig pr (pc_host c) (pc_port c) (pc_user c) (pc_password c) (of_nat k) (0 < k) None)"
    using ws hash mc k(1) hpp canonical_host_strip [OF canon]
    by (simp add: parse_proxy_str_def Let_def proxy_new_def of_nat_byte_pos)
  then show ?thesis using k pr by (cases c) simp
qed

text \<open>Two gate markers, a password with a colon, a zero-padded port.\<close>

theorem proxy_line_canonical_witness:
  "parse_proxy_str (ascii ''**u:p:w@h:080'') Socks5 =
     Ok (ProxyConfig Socks5 (ascii ''h'') 80 (Some (ascii ''u'')) (Some (ascii ''p:w'')) 2 True None) \<and>
   parse_proxy_str (ascii ''**u:p:w@h:80'') Socks5 =
     Ok (ProxyConfig Socks5 (ascii ''h'') 80 (Some (ascii ''u'')) (Some (ascii ''p:w'')) 2 True None)"
proof -
  let ?c = "ProxyConfig Socks5 (ascii ''h'') 80 (Some (ascii ''u'')) (Some (ascii ''p:w'')) 2 True None"
  have i: "parse_ipv6 (ascii ''h'') = None"
    using parse_ipv6_addr_chars [of "ascii ''h''"]
    by (cases "parse_ipv6 (ascii ''h'')") (auto simp: addr_char_def to_digit_def Let_def)
  have st: "is_str (ascii ''**u:p:w@h:080'')" by (rule is_str_ascii) simp
  have "parse_u16 (ascii ''080'') = Some 80" by (simp add: parse_u16_def parse_uint_def to_digit_def)
  then have p: "parse_proxy_str (ascii ''**u:p:w@h:080'') Socks5 = Ok ?c"
    by (simp add: parse_proxy_str_def marker_count_def split_credentials_def split_user_def host_port_parse_def
        proxy_new_def strip_brackets_def is_whitespace_def utf8_len_ascii Let_def)
  have "replicate 2 STAR = [STAR, STAR]" by (simp add: numeral_2_eq_2)
  then have "proxy_line ?c = ascii ''**u:p:w@h:80''"
    using i by (simp add: proxy_line_def credentials_str_def host_port_format_def fmt_u16_def radix_str_step
        radix_str_digit digit_char_def)
  with p proxy_line_canonical [OF p st] show ?thesis by simp
qed

end
