(* ===== verification/HttpClientSpec.thy ===== *)
theory HttpClientSpec
  imports HttpClient
begin

text \<open>
  Both readers of the CONNECT response are equivalent to a reference that takes one byte at a time, so
  neither consumes a byte behind the head, however the response is cut into segments.
\<close>

subsection \<open>The reference\<close>

fun response_reference :: "response_head \<Rightarrow> bytes \<Rightarrow> ending \<Rightarrow> (connect_error + unit) option \<times> bytes" where
  "response_reference h [] e =
     (case rh_remaining h of
        Err x \<Rightarrow> (Some (Err x), [])
      | Ok _ \<Rightarrow> (case e of Eof \<Rightarrow> Some (Err (Protocol HttpClosedEarly)) | Broken x \<Rightarrow> Some (Err (from_io_error x)) | Silent \<Rightarrow> None, []))"
| "response_reference h (b # s) e =
     (case rh_remaining h of
        Err x \<Rightarrow> (Some (Err x), b # s)
      | Ok _ \<Rightarrow>
          (case rh_advance h [b] of
             Err x \<Rightarrow> (Some (Err x), s)
           | Ok (ready, h') \<Rightarrow> if ready then (Some (Ok ()), s) else response_reference h' s e))"

lemma rh_advance_first:
  assumes "\<not> ends_with (rh_buf h @ [b]) HEAD_END" "bs \<noteq> []"
  shows "\<exists>h1. rh_advance h [b] = Ok (False, h1) \<and> rh_advance h (b # bs) = rh_advance h1 bs \<and>
    rh_buf h1 = rh_buf h @ [b] \<and> rh_total h1 = rh_total h + 1"
  using assms by (simp add: rh_advance_def Let_def split: sum.splits bool.splits)

lemma reference_chunk:
  assumes "bs \<noteq> []" "length bs \<le> RESPONSE_CAP - rh_total h"
    "\<And>q r. q \<noteq> [] \<Longrightarrow> r \<noteq> [] \<Longrightarrow> bs = q @ r \<Longrightarrow> \<not> ends_with (rh_buf h @ q) HEAD_END"
  shows "response_reference h (bs @ s) e =
    (case rh_advance h bs of
       Err x \<Rightarrow> (Some (Err x), s)
     | Ok (ready, h') \<Rightarrow> if ready then (Some (Ok ()), s) else response_reference h' s e)"
  using assms
proof (induction bs arbitrary: h)
  case (Cons b bs)
  have rem: "\<exists>n. rh_remaining h = Ok n" using Cons.prems(2) by (auto simp: rh_remaining_def)
  show ?case
  proof (cases "bs = []")
    case True
    then show ?thesis using rem by (auto split: sum.splits)
  next
    case False
    obtain h1 where h1: "rh_advance h [b] = Ok (False, h1)" "rh_advance h (b # bs) = rh_advance h1 bs"
        "rh_buf h1 = rh_buf h @ [b]" "rh_total h1 = rh_total h + 1"
      using rh_advance_first [of h b bs] Cons.prems(3) [of "[b]" bs] False by auto
    have "response_reference h1 (bs @ s) e =
      (case rh_advance h1 bs of
       Err x \<Rightarrow> (Some (Err x), s)
     | Ok (ready, h') \<Rightarrow> if ready then (Some (Ok ()), s) else response_reference h' s e)"
    proof (rule Cons.IH)
      show "length bs \<le> RESPONSE_CAP - rh_total h1" using Cons.prems(2) h1(4) by simp
      show "\<not> ends_with (rh_buf h1 @ q) HEAD_END" if "q \<noteq> []" "r \<noteq> []" "bs = q @ r" for q r
        using Cons.prems(3) [of "b # q" r] that h1(3) by simp
    qed (use False in simp)
    then show ?thesis using rem h1 by auto
  qed
qed simp

subsection \<open>The readers\<close>

lemma ends_with_append: "length q \<le> length p \<Longrightarrow> ends_with (s @ q) p \<Longrightarrow> ends_with s (take (length p - length q) p)"
  by (auto simp: ends_with_iff append_eq_append_conv2)

lemma want_bytes_exact:
  assumes "length bs \<le> want_bytes buf" "bs = q @ r" "q \<noteq> []" "r \<noteq> []"
  shows "\<not> ends_with (buf @ q) HEAD_END"
proof
  assume e: "ends_with (buf @ q) HEAD_END"
  have l: "length q < want_bytes buf" using assms by (cases r) auto
  have w: "want_bytes buf \<le> 4" by (simp add: want_bytes_def)
  have e': "ends_with buf (take (4 - length q) HEAD_END)" using ends_with_append [OF _ e] l w by (simp add: numeral_eq_Suc)
  have "length q = 1 \<or> length q = 2 \<or> length q = 3" proof -
    have "length q < 4" "0 < length q" using l w assms(3) by auto
    then show ?thesis by arith
  qed
  then show False using e' l by (auto simp: want_bytes_def split: if_splits)
qed

lemma reference_end:
  assumes "unread c = []" "rh_remaining h = Ok n"
  shows "response_reference h (unread c) (ending c) =
    (case ending c of Eof \<Rightarrow> Some (Err (Protocol HttpClosedEarly)) | Broken x \<Rightarrow> Some (Err (from_io_error x)) | Silent \<Rightarrow> None, [])"
  using assms by simp

text \<open>What a run shows: the result, what is left to read, and what was written.\<close>

definition shows_as :: "'a option \<times> conn \<Rightarrow> 'a option \<times> bytes \<Rightarrow> conn \<Rightarrow> bool" where
  "shows_as rc ru c \<longleftrightarrow> fst rc = fst ru \<and> unread (snd rc) = snd ru \<and> outgoing (snd rc) = outgoing c \<and> ending (snd rc) = ending c"

lemma shows_as_consume: "shows_as rc ru (consume n c) \<longleftrightarrow> shows_as rc ru c"
  by (simp add: shows_as_def)

lemma response_loop_reference:
  "shows_as (run_on ans (response_loop h) c) (response_reference h (unread c) (ending c)) c"
proof (induction h arbitrary: c rule: response_loop.induct)
  case (1 h)
  show ?case
  proof (cases "rh_remaining h")
    case (Inl e)
    then show ?thesis by (subst response_loop.simps) (cases "unread c"; simp add: shows_as_def)
  next
    case (Inr left)
    have left: "left = RESPONSE_CAP - rh_total h" "0 < left" using Inr by (auto simp: rh_remaining_def split: if_splits)
    let ?n = "min (want_bytes (rh_buf h)) left"
    have n: "0 < ?n" using left by (simp add: want_bytes_def)
    show ?thesis
    proof (cases "unread c = []")
      case True
      then show ?thesis
        unfolding reference_end [OF True Inr]
        by (subst response_loop.simps) (simp add: Inr do_read_def shows_as_def rh_advance_def got_def split: ending.splits)
    next
      case False
      obtain m where r: "do_read ?n c = Some (Ok (take m (unread c)))" and m: "0 < m" "m \<le> ?n" "m \<le> length (unread c)"
        using do_read_data [OF False n] by auto
      let ?bs = "take m (unread c)"
      have bs: "length ?bs = m" "?bs \<noteq> []" using m by auto
      have ref: "response_reference h (unread c) (ending c) =
          (case rh_advance h ?bs of
             Err x \<Rightarrow> (Some (Err x), drop m (unread c))
           | Ok (ready, h') \<Rightarrow> if ready then (Some (Ok ()), drop m (unread c)) else response_reference h' (drop m (unread c)) (ending c))"
      proof -
        have "response_reference h (?bs @ drop m (unread c)) (ending c) =
          (case rh_advance h ?bs of
             Err x \<Rightarrow> (Some (Err x), drop m (unread c))
           | Ok (ready, h') \<Rightarrow> if ready then (Some (Ok ()), drop m (unread c)) else response_reference h' (drop m (unread c)) (ending c))"
        proof (rule reference_chunk [OF bs(2)])
          show "length ?bs \<le> RESPONSE_CAP - rh_total h" using bs(1) m(2) left(1) by simp
          show "\<not> ends_with (rh_buf h @ q) HEAD_END" if "q \<noteq> []" "r \<noteq> []" "?bs = q @ r" for q r
            by (rule want_bytes_exact [OF _ that(3,1,2)]) (use bs(1) m(2) in simp)
        qed
        then show ?thesis by simp
      qed
      have run: "run_on ans (response_loop h) c =
          run_on ans (case rh_advance h ?bs of Err e \<Rightarrow> Ret (Err e) | Ok (ready, h') \<Rightarrow> if ready then Ret (Ok ()) else response_loop h')
            (consume m c)"
        by (subst response_loop.simps) (simp add: Inr r got_def bs(1) del: length_take)
      show ?thesis
      proof (cases "rh_advance h ?bs")
        case (Inl x)
        then show ?thesis unfolding run ref by (simp add: shows_as_def)
      next
        case (Inr dh)
        obtain d h' where dh: "dh = (d, h')" by (cases dh)
        show ?thesis
        proof (cases d)
          case True
          then show ?thesis unfolding run ref Inr dh by (simp add: shows_as_def)
        next
          case False
          then show ?thesis
            using 1 [OF \<open>rh_remaining h = Ok left\<close>, of ?bs dh d h' "consume m c"] Inr dh
            unfolding run ref Inr dh by (simp add: shows_as_consume)
        qed
      qed
    qed
  qed
qed

text \<open>The bytes the peeking reader takes: up to the end of the head, when it is in sight.\<close>

lemma peeked_prefix:
  fixes buf seen :: bytes
  defines "scan \<equiv> length buf - 3"
  defines "stop \<equiv> (case find_window HEAD_END (drop scan (buf @ seen)) of Some pos \<Rightarrow> scan + pos + 4 | None \<Rightarrow> length buf + length seen)"
  assumes "seen \<noteq> []"
  shows "length buf < stop" "stop \<le> length buf + length seen"
    and "take (stop - length buf) seen = q @ r \<Longrightarrow> q \<noteq> [] \<Longrightarrow> r \<noteq> [] \<Longrightarrow> \<not> ends_with (buf @ q) HEAD_END"
proof -
  have none: "\<not> ends_with (buf @ q) HEAD_END"
    if q: "q \<noteq> []" "seen = q @ x" and before: "\<forall>pos. find_window HEAD_END (drop scan (buf @ seen)) = Some pos \<longrightarrow> length buf + length q < scan + pos + 4"
    for q x
  proof
    assume "ends_with (buf @ q) HEAD_END"
    then obtain y where y: "buf @ q = y @ HEAD_END" by (auto simp: ends_with_iff)
    have len: "length y + 4 = length buf + length q" using arg_cong [OF y, of length] by simp
    have "1 \<le> length q" using q(1) by (cases q) auto
    then have s: "scan \<le> length y" using len by (simp add: scan_def)
    have "buf @ seen = y @ HEAD_END @ x" using y q(2) by simp
    then have "drop scan (buf @ seen) = drop scan y @ HEAD_END @ x" using s by simp
    then have ex: "take (length HEAD_END) (drop (length y - scan) (drop scan (buf @ seen))) = HEAD_END" by simp
    then obtain pos where pos: "find_window HEAD_END (drop scan (buf @ seen)) = Some pos"
      using find_window_None [of HEAD_END "drop scan (buf @ seen)"] by blast
    have "\<not> length y - scan < pos"
      using ex pos find_window_Some [of HEAD_END "drop scan (buf @ seen)" pos] by blast
    moreover have "length buf + length q < scan + pos + 4" using before pos by blast
    ultimately show False using len s by simp
  qed
  show b: "length buf < stop"
  proof (cases "find_window HEAD_END (drop scan (buf @ seen))")
    case (Some pos)
    then show ?thesis by (simp add: stop_def scan_def)
  qed (use assms(3) in \<open>simp add: stop_def\<close>)
  show u: "stop \<le> length buf + length seen"
  proof (cases "find_window HEAD_END (drop scan (buf @ seen))")
    case (Some pos)
    then have "pos + length HEAD_END \<le> length (drop scan (buf @ seen))" using find_window_Some by blast
    then show ?thesis using Some by (simp add: stop_def scan_def)
  qed (simp add: stop_def)
  assume t: "take (stop - length buf) seen = q @ r" "q \<noteq> []" "r \<noteq> []"
  have l: "length q < stop - length buf" using arg_cong [OF t(1), of length] t(3) u by (cases r) auto
  have "seen = q @ r @ drop (stop - length buf) seen" using t(1) append_take_drop_id [of "stop - length buf" seen] by simp
  then show "\<not> ends_with (buf @ q) HEAD_END"
    by (rule none [OF t(2)]) (use l in \<open>auto simp: stop_def\<close>)
qed

lemma response_loop_tcp_reference:
  "shows_as (run_on ans (response_loop_tcp h) c) (response_reference h (unread c) (ending c)) c"
proof (induction h arbitrary: c rule: response_loop_tcp.induct)
  case (1 h)
  show ?case
  proof (cases "rh_remaining h")
    case (Inl e)
    then show ?thesis by (subst response_loop_tcp.simps) (cases "unread c"; simp add: shows_as_def)
  next
    case (Inr left)
    have left: "left = RESPONSE_CAP - rh_total h" "0 < left" using Inr by (auto simp: rh_remaining_def split: if_splits)
    show ?thesis
    proof (cases "unread c = []")
      case True
      have "find_window HEAD_END (drop (length (rh_buf h) - 3) (rh_buf h)) = None"
      proof (rule ccontr)
        assume "\<not> ?thesis"
        then obtain p where "find_window HEAD_END (drop (length (rh_buf h) - 3) (rh_buf h)) = Some p" by auto
        then show False using find_window_Some [of HEAD_END "drop (length (rh_buf h) - 3) (rh_buf h)" p] by auto
      qed
      then show ?thesis
        unfolding reference_end [OF True Inr] using True
        by (subst response_loop_tcp.simps)
          (simp add: Inr do_read_def do_read_exact_def shows_as_def rh_advance_def split: ending.splits)
    next
      case False
      obtain m where r: "do_read left c = Some (Ok (take m (unread c)))" and m: "0 < m" "m \<le> left" "m \<le> length (unread c)"
        using do_read_data [OF False left(2)] by auto
      let ?seen = "take m (unread c)" and ?buf = "rh_buf h"
      let ?stop = "case find_window HEAD_END (drop (length ?buf - 3) (?buf @ ?seen)) of
          Some pos \<Rightarrow> length ?buf - 3 + pos + 4 | None \<Rightarrow> length ?buf + length ?seen"
      define n where "n = ?stop - length ?buf"
      have seen: "?seen \<noteq> []" "length ?seen = m" using m by auto
      note pk = peeked_prefix [OF seen(1), of ?buf]
      have n: "0 < n" "n \<le> m" using pk(1,2) seen(2) unfolding n_def by linarith+
      let ?bs = "take n (unread c)"
      have bs: "?bs = take n ?seen" "length ?bs = n" "?bs \<noteq> []" using n m by auto
      have "response_reference h (?bs @ drop n (unread c)) (ending c) =
          (case rh_advance h ?bs of
             Err x \<Rightarrow> (Some (Err x), drop n (unread c))
           | Ok (ready, h') \<Rightarrow> if ready then (Some (Ok ()), drop n (unread c)) else response_reference h' (drop n (unread c)) (ending c))"
      proof (rule reference_chunk [OF bs(3)])
        show "length ?bs \<le> RESPONSE_CAP - rh_total h" using bs(2) n(2) m(2) left(1) by simp
        show "\<not> ends_with (rh_buf h @ q) HEAD_END" if "q \<noteq> []" "r \<noteq> []" "?bs = q @ r" for q r
          by (rule pk(3) [OF _ that(1,2)]) (use that(3) bs(1) in \<open>simp only: n_def\<close>)
      qed
      then have ref: "response_reference h (unread c) (ending c) =
          (case rh_advance h ?bs of
             Err x \<Rightarrow> (Some (Err x), drop n (unread c))
           | Ok (ready, h') \<Rightarrow> if ready then (Some (Ok ()), drop n (unread c)) else response_reference h' (drop n (unread c)) (ending c))"
        by simp
      have ex: "do_read_exact n c = Some (Ok ?bs)" using n m by (simp add: do_read_exact_def)
      have run: "run_on ans (response_loop_tcp h) c =
          run_on ans (case rh_advance h ?bs of Err e \<Rightarrow> Ret (Err e) | Ok (ready, h') \<Rightarrow> if ready then Ret (Ok ()) else response_loop_tcp h')
            (consume n c)"
      proof -
        have "run_on ans (response_loop_tcp h) c = run_on ans (ReadExact n (\<lambda>r.
                      case r of
                        Err e \<Rightarrow> Ret (Err (from_io_error e))
                      | Ok bs \<Rightarrow>
                          (case rh_advance h bs of
                             Err e \<Rightarrow> Ret (Err e)
                           | Ok (ready, h') \<Rightarrow> if ready then Ret (Ok ()) else response_loop_tcp h'))) c"
          unfolding n_def by (subst response_loop_tcp.simps) (simp add: Inr r Let_def del: length_take drop_append)
        then show ?thesis by (simp add: ex)
      qed
      show ?thesis
      proof (cases "rh_advance h ?bs")
        case (Inl x)
        then show ?thesis unfolding run ref by (simp add: shows_as_def)
      next
        case (Inr dh)
        obtain d h' where dh: "dh = (d, h')" by (cases dh)
        show ?thesis
        proof (cases d)
          case True
          then show ?thesis unfolding run ref Inr dh by (simp add: shows_as_def)
        next
          case False
          have "shows_as (run_on ans (response_loop_tcp h') (consume n c))
              (response_reference h' (unread (consume n c)) (ending (consume n c))) (consume n c)"
            by (rule 1 [OF \<open>rh_remaining h = Ok left\<close> refl refl refl Inr dh [symmetric] False])
          then show ?thesis using False unfolding run ref Inr dh by (simp add: shows_as_consume)
        qed
      qed
    qed
  qed
qed

text \<open>
  C5: the two response readers are equivalent and exact. For every proxy, target and connection, the reader
  for arbitrary streams and the peeking reader for sockets give the same result, leave the same bytes unread
  and wrote the same bytes, and both are the reference that looks at one byte at a time: it stops with the
  byte that completes the final head (or with the 4096th byte, or where the stream ends).
\<close>

theorem http_response_readers_agree:
  "shows_as (run_on ans (response_loop response_head_new) c) (response_reference response_head_new (unread c) (ending c)) c \<and>
   shows_as (run_on ans (response_loop_tcp response_head_new) c) (response_reference response_head_new (unread c) (ending c)) c \<and>
   fst (run_on ans (http_connect_handshake encode target proxy) c) = fst (run_on ans (http_connect_on_tcp encode target proxy) c) \<and>
   unread (snd (run_on ans (http_connect_handshake encode target proxy) c)) =
     unread (snd (run_on ans (http_connect_on_tcp encode target proxy) c)) \<and>
   outgoing (snd (run_on ans (http_connect_handshake encode target proxy) c)) =
     outgoing (snd (run_on ans (http_connect_on_tcp encode target proxy) c))"
proof -
  note a = response_loop_reference [of ans response_head_new] and b = response_loop_tcp_reference [of ans response_head_new]
  show ?thesis
    using a [of c] b [of c] a [of "c\<lparr>outgoing := outgoing c @ connect_request encode target proxy\<rparr>"]
      b [of "c\<lparr>outgoing := outgoing c @ connect_request encode target proxy\<rparr>"]
    by (auto simp: http_connect_handshake_def http_connect_on_tcp_def write_connect_request_def shows_as_def protocol_err_def)
qed

end
