(* ===== verification/ServerStream.thy ===== *)
theory ServerStream
  imports ServerSpec
begin

text \<open>
  The inbound framing does not depend on how the client's bytes are cut into segments: reading the HTTP
  head in chunks of up to 1024 bytes, with the incremental search for its end, is equivalent to parsing
  the whole stream at once, and no byte after the head is lost.
\<close>

text \<open>Two outcomes that a host cannot tell apart: over-read and unread bytes count together.\<close>

fun same_outcome ::
  "(server_error + incoming_request) option \<times> conn \<Rightarrow> (server_error + incoming_request) option \<times> conn \<Rightarrow> bool" where
  "same_outcome (Some (Ok q1), c1) (Some (Ok q2), c2) \<longleftrightarrow>
     q1\<lparr>rq_pipeline := []\<rparr> = q2\<lparr>rq_pipeline := []\<rparr> \<and> rq_pipeline q1 @ unread c1 = rq_pipeline q2 @ unread c2 \<and>
     outgoing c1 = outgoing c2"
| "same_outcome (Some (Err e1), c1) (Some (Err e2), c2) \<longleftrightarrow> e1 = e2 \<and> outgoing c1 = outgoing c2"
| "same_outcome (None, c1) (None, c2) \<longleftrightarrow> outgoing c1 = outgoing c2"
| "same_outcome _ _ \<longleftrightarrow> False"

lemma same_outcome_sym: "same_outcome a b \<Longrightarrow> same_outcome b a"
  by (induction a b rule: same_outcome.induct) auto

lemma same_outcome_trans: "same_outcome a b \<Longrightarrow> same_outcome b c \<Longrightarrow> same_outcome a c"
  by (induction a b rule: same_outcome.induct; cases c rule: prod.exhaust)
    (auto elim!: same_outcome.elims(2))

definition same_stream :: "conn \<Rightarrow> conn \<Rightarrow> bool" where
  "same_stream c1 c2 \<longleftrightarrow> unread c1 = unread c2 \<and> ending c1 = ending c2 \<and> outgoing c1 = outgoing c2"

subsection \<open>Programs that read exactly\<close>

lemma exact_only_run:
  "exact_only p \<Longrightarrow> same_stream c1 c2 \<Longrightarrow>
   fst (run_on host p c1) = fst (run_on host p c2) \<and> same_stream (snd (run_on host p c1)) (snd (run_on host p c2))"
proof (induction p arbitrary: c1 c2)
  case (WriteAll bs k)
  then show ?case by (simp add: same_stream_def)
next
  case (ReadExact n k)
  have d: "do_read_exact n c1 = do_read_exact n c2" using ReadExact.prems(2) by (simp add: same_stream_def do_read_exact_def)
  have l: "unread c1 = unread c2" using ReadExact.prems(2) by (simp add: same_stream_def)
  have c: "same_stream (consume m c1) (consume m c2)" for m using ReadExact.prems(2) by (simp add: same_stream_def)
  show ?case
  proof (cases "do_read_exact n c1")
    case None
    then show ?thesis using d c l by simp
  next
    case (Some r)
    have "exact_only (k r)" using ReadExact.prems(1) by simp
    then show ?thesis using Some d l ReadExact.IH [OF rangeI _ c] by (cases r) simp_all
  qed
qed auto

lemma socks_exact_only: "exact_only (socks opts)"
  by (auto simp: socks_def socks_password_def socks_verify_def socks_request_def socks_target_def auth_fail_def
      read_u8_def read_u16_def Let_def split: option.splits)

subsection \<open>The HTTP head\<close>

lemma http_fail_same:
  "outgoing c1 = outgoing c2 \<Longrightarrow> same_outcome (run_on host (http_fail s e) c1) (run_on host (http_fail s e) c2)"
  by (simp add: http_fail_def)

lemma http_accepted_same:
  "pl1 @ unread c1 = pl2 @ unread c2 \<Longrightarrow> outgoing c1 = outgoing c2 \<Longrightarrow>
   same_outcome (run_on host (http_accepted t u r pl1) c1) (run_on host (http_accepted t u r pl2) c2)"
  by (simp add: http_accepted_def)

lemma http_authenticate_same:
  assumes "pl1 @ unread c1 = pl2 @ unread c2" "outgoing c1 = outgoing c2"
  shows "same_outcome (run_on host (http_authenticate decode opts t hs pl1) c1) (run_on host (http_authenticate decode opts t hs pl2) c2)"
proof (cases "find_auth hs")
  case (AuthValue v)
  then show ?thesis
    using http_fail_same [OF assms(2)] http_accepted_same [OF assms]
    by (cases "basic_credentials decode v") (auto simp: http_authenticate_def Let_def)
qed (use http_fail_same [OF assms(2)] http_accepted_same [OF assms] in \<open>auto simp: http_authenticate_def\<close>)

lemma http_request_same:
  assumes "pl1 @ unread c1 = pl2 @ unread c2" "outgoing c1 = outgoing c2"
  shows "same_outcome (run_on host (http_request decode opts l hs pl1) c1) (run_on host (http_request decode opts l hs pl2) c2)"
proof -
  obtain m t v where p: "request_parts l = (m, t, v)" by (cases "request_parts l")
  show ?thesis
    unfolding http_request_def p prod.case
    using http_fail_same [OF assms(2)] http_authenticate_same [OF assms] by (auto simp del: ascii_simps)
qed

lemma http_head_same:
  assumes "n \<le> length buf" "outgoing c1 = outgoing c2" "unread c1 = x @ unread c2"
  shows "same_outcome (run_on host (http_head decode opts buf n) c1) (run_on host (http_head decode opts (buf @ x) n) c2)"
proof -
  have pl: "drop n buf @ unread c1 = drop n (buf @ x) @ unread c2" using assms by simp
  have t: "take (n - 4) (buf @ x) = take (n - 4) buf" using assms(1) by simp
  show ?thesis
    unfolding http_head_def Let_def t
    using http_fail_same [OF assms(2)] http_request_same [OF pl assms(2)]
    by (auto split: sum.splits strict_violation.splits simp del: drop_append)
qed

text \<open>The parser on the whole stream.\<close>

definition http_whole ::
  "(bytes \<Rightarrow> bytes option) \<Rightarrow> (server_query \<Rightarrow> bool) \<Rightarrow> server_options \<Rightarrow> bytes \<Rightarrow> ending \<Rightarrow> conn \<Rightarrow>
   (server_error + incoming_request) option \<times> conn" where
  "http_whole decode host opts s e c =
     (case find_window HEAD_END s of
        Some pos \<Rightarrow>
          if MAX_HEADER_BYTES < pos + 4 then run_on host (http_fail 431 HeaderTooLarge) c
          else run_on host (http_head decode opts s (pos + 4)) c
      | None \<Rightarrow>
          if MAX_HEADER_BYTES < length s then run_on host (http_fail 431 HeaderTooLarge) c
          else case e of
                 Eof \<Rightarrow> (Some (Err Closed), c)
               | Broken x \<Rightarrow> (Some (Err (SrvIo x)), c)
               | Silent \<Rightarrow> (None, c))"

lemma http_loop_whole:
  "find_window HEAD_END buf = None \<Longrightarrow> length buf \<le> MAX_HEADER_BYTES \<Longrightarrow> c0 = c\<lparr>incoming := []\<rparr> \<Longrightarrow>
   same_outcome (run_on host (http_loop decode opts buf) c)
     (http_whole decode host opts (buf @ unread c) (ending c) c0)"
proof (induction "length (unread c)" arbitrary: buf c rule: less_induct)
  case less
  let ?scan = "length buf - 3"
  have u0: "unread c0 = []" "outgoing c0 = outgoing c" using less.prems(3) by (simp_all add: unread_def)
  show ?case
  proof (cases "unread c = []")
    case True
    then show ?thesis
      using less.prems u0
      by (subst http_loop.simps) (simp add: do_read_def http_whole_def consume_def split: ending.splits)
  next
    case False
    obtain m where r: "do_read 1024 c = Some (Ok (take m (unread c)))" and m: "0 < m" "m \<le> length (unread c)"
      using do_read_data [OF False, of 1024] by auto
    let ?bs = "take m (unread c)" and ?c = "consume m c"
    let ?buf = "buf @ ?bs"
    have bs: "?bs \<noteq> []" "length ?bs = m" using m by auto
    have all: "buf @ unread c = ?buf @ unread ?c" by simp
    have c0: "c0 = ?c\<lparr>incoming := []\<rparr>" using less.prems(3) by (simp add: consume_def)
    have step: "run_on host (http_loop decode opts buf) c =
        run_on host (case find_window HEAD_END (drop ?scan ?buf) of
              Some pos \<Rightarrow>
                if MAX_HEADER_BYTES < ?scan + pos + 4 then http_fail 431 HeaderTooLarge
                else http_head decode opts ?buf (?scan + pos + 4)
            | None \<Rightarrow>
                if MAX_HEADER_BYTES < length ?buf then http_fail 431 HeaderTooLarge
                else http_loop decode opts ?buf) ?c"
      using r bs unfolding http_loop.simps [of decode opts buf] Let_def by (simp add: got_def del: drop_append)
    have scan: "find_window HEAD_END (drop ?scan ?buf) = map_option (\<lambda>i. i - ?scan) (find_window HEAD_END ?buf) \<and>
        (\<forall>i. find_window HEAD_END ?buf = Some i \<longrightarrow> ?scan \<le> i)"
    proof (cases "length buf \<le> 3")
      case True
      then show ?thesis by (simp add: option.map_ident)
    next
      case False
      then show ?thesis by (intro find_window_from) (use less.prems(1) in auto)
    qed
    show ?thesis
    proof (cases "find_window HEAD_END ?buf")
      case (Some i)
      have w: "find_window HEAD_END (buf @ unread c) = Some i"
        unfolding all by (rule find_window_append) (use Some in auto)
      have i: "i + 4 \<le> length ?buf" using Some find_window_Some [of HEAD_END ?buf i] by simp
      have "run_on host (http_loop decode opts buf) c =
          run_on host (if MAX_HEADER_BYTES < i + 4 then http_fail 431 HeaderTooLarge else http_head decode opts ?buf (i + 4)) ?c"
        using step scan Some by simp
      moreover have "same_outcome (run_on host (http_head decode opts ?buf (i + 4)) ?c)
          (run_on host (http_head decode opts (?buf @ unread ?c) (i + 4)) c0)"
        by (rule http_head_same) (use i u0 in auto)
      ultimately show ?thesis
        using w http_fail_same [of ?c c0 host 431 HeaderTooLarge] u0 unfolding all by (simp add: http_whole_def)
    next
      case None
      have st: "run_on host (http_loop decode opts buf) c =
          run_on host (if MAX_HEADER_BYTES < length ?buf then http_fail 431 HeaderTooLarge else http_loop decode opts ?buf) ?c"
        using step scan None by simp
      show ?thesis
      proof (cases "MAX_HEADER_BYTES < length ?buf")
        case False
        then have "same_outcome (run_on host (http_loop decode opts ?buf) ?c)
            (http_whole decode host opts (?buf @ unread ?c) (ending ?c) c0)"
          by (intro less.hyps) (use m None c0 in auto)
        then show ?thesis using st False unfolding all by simp
      next
        case True
        have "i + 4 > MAX_HEADER_BYTES" if "find_window HEAD_END (?buf @ unread ?c) = Some i" for i
        proof (rule ccontr)
          assume "\<not> ?thesis"
          then have "i + length HEAD_END \<le> length ?buf" using True by simp
          from find_window_early [OF _ that this] show False using None by simp
        qed
        then have "http_whole decode host opts (?buf @ unread ?c) (ending c) c0 = run_on host (http_fail 431 HeaderTooLarge) c0"
          using True by (auto simp: http_whole_def split: option.splits)
        then show ?thesis using st True http_fail_same [of ?c c0 host 431 HeaderTooLarge] u0 unfolding all by simp
      qed
    qed
  qed
qed

subsection \<open>Segmentation does not matter\<close>

lemma phase_same:
  "(host BudgetLeft \<Longrightarrow> same_outcome (run_on host p c1) (run_on host p c2)) \<Longrightarrow> outgoing c1 = outgoing c2 \<Longrightarrow>
   same_outcome (run_on host (phase p) c1) (run_on host (phase p) c2)"
  by (simp add: phase_def)

lemma socks_same:
  assumes "same_stream c1 c2"
  shows "same_outcome (run_on host (socks opts) c1) (run_on host (socks opts) c2)"
proof -
  obtain r d1 where 1: "run_on host (socks opts) c1 = (r, d1)" by (cases "run_on host (socks opts) c1")
  obtain r' d2 where 2: "run_on host (socks opts) c2 = (r', d2)" by (cases "run_on host (socks opts) c2")
  have eq: "r = r'" "same_stream d1 d2"
    using exact_only_run [OF socks_exact_only [of opts] assms, of host] 1 2 by auto
  show ?thesis
  proof (cases r)
    case None
    then show ?thesis using 1 2 eq by (simp add: same_stream_def)
  next
    case (Some x)
    then show ?thesis using 1 2 eq by (cases x) (auto simp: same_stream_def)
  qed
qed

lemma dispatch_same:
  assumes "same_stream c1 c2"
  shows "same_outcome (run_on host (dispatch decode opts b) c1) (run_on host (dispatch decode opts b) c2)"
proof -
  have u: "unread c1 = unread c2" "ending c1 = ending c2" "outgoing c1 = outgoing c2" using assms by (simp_all add: same_stream_def)
  have h: "same_outcome (run_on host (http_loop decode opts [b]) c1) (run_on host (http_loop decode opts [b]) c2)"
  proof -
    let ?w = "\<lambda>c. http_whole decode host opts ([b] @ unread c) (ending c) (c\<lparr>incoming := []\<rparr>)"
    have f: "find_window HEAD_END [b] = None" by (simp add: starts_with_def)
    have l: "length [b] \<le> MAX_HEADER_BYTES" by (simp add: MAX_HEADER_BYTES_def)
    have 1: "same_outcome (run_on host (http_loop decode opts [b]) c) (?w c)" for c
      by (rule http_loop_whole [OF f l refl])
    have "c1\<lparr>incoming := []\<rparr> = c2\<lparr>incoming := []\<rparr>" using u(2,3) by (cases c1; cases c2) simp
    then have "?w c1 = ?w c2" unfolding u(1,2) by simp
    with 1 [of c1] have "same_outcome (run_on host (http_loop decode opts [b]) c1) (?w c2)" by simp
    then show ?thesis by (rule same_outcome_trans) (rule same_outcome_sym [OF 1])
  qed
  show ?thesis
    unfolding dispatch_def using phase_same [OF h u(3)] phase_same [OF socks_same [OF assms] u(3)] u(3)
    by (simp del: ascii_simps)
qed

text \<open>
  C4: segmentation does not matter. Two connections that carry the same client bytes with the same ending,
  cut into segments in any two ways, give the same outcome of \<open>accept\<close>: the same error or the same request, the
  same bytes written to the client, and the over-read bytes of the request followed by the bytes left
  on the connection are the same, so nothing after the head is lost or repeated.
\<close>

theorem accept_ignores_segmentation:
  assumes "concat (incoming c1) = concat (incoming c2)" "ending c1 = ending c2" "outgoing c1 = outgoing c2"
  shows "same_outcome (run_on host (accept decode opts) c1) (run_on host (accept decode opts) c2)"
proof -
  have s: "same_stream c1 c2" using assms by (simp add: same_stream_def unread_def)
  show ?thesis
  proof (cases "unread c1 = []")
    case True
    then show ?thesis using s
      by (simp add: accept_dispatch same_stream_def do_read_def split: ending.splits)
  next
    case False
    have one: "do_read 1 c = Some (Ok [hd (unread c)])" if ne: "unread c \<noteq> []" for c
    proof -
      obtain m where m: "do_read 1 c = Some (Ok (take m (unread c)))" "0 < m" "m \<le> 1" using do_read_data [OF ne, of 1] by auto
      then have "m = 1" by simp
      with m(1) ne show ?thesis by (cases "unread c") auto
    qed
    have "same_stream (consume 1 c1) (consume 1 c2)" using s by (simp add: same_stream_def)
    from dispatch_same [OF this, of host decode opts "hd (unread c1)"]
    have "same_outcome (run_on host (dispatch decode opts (hd (unread c1))) (consume 1 c1))
        (run_on host (dispatch decode opts (hd (unread c2))) (consume 1 c2))"
      using s by (simp add: same_stream_def)
    with False s one [of c1] one [of c2] show ?thesis
      by (simp add: accept_dispatch got_def same_stream_def)
  qed
qed

text \<open>The same bytes in one segment.\<close>

theorem accept_ignores_segmentation_witness:
  "same_outcome (Some (Ok demo_request), \<lparr>incoming = [], ending = Eof, outgoing = [5, 0]\<rparr>)
     (run_on (\<lambda>_. True) (accept (\<lambda>_. None) (server_options_new True False)) (demo_conn [[5, 1, 0, 5, 1, 0, 1, 1, 2, 3, 4, 0, 80]]))"
proof -
  let ?c1 = "demo_conn [[5, 1], [0, 5, 1, 0], [1, 1, 2, 3, 4, 0, 80]]" and ?c2 = "demo_conn [[5, 1, 0, 5, 1, 0, 1, 1, 2, 3, 4, 0, 80]]"
  have "concat (incoming ?c1) = concat (incoming ?c2)" "ending ?c1 = ending ?c2" "outgoing ?c1 = outgoing ?c2"
    by (simp_all add: demo_conn_def)
  from accept_ignores_segmentation [OF this, of "\<lambda>_. True" "\<lambda>_. None" "server_options_new True False"]
  show ?thesis by (simp only: demo_accept)
qed

end
