(* ===== verification/Net.thy ===== *)
theory Net
  imports Wire
begin

text \<open>
  Two programs on the two ends of a reliable byte stream. A configuration is the two programs and the bytes
  in flight each way. An end reads what has arrived; a partial read may return any non-empty part of it.
\<close>

type_synonym ('q, 'a, 'p, 'b) net = "('q, 'a) prog \<times> ('p, 'b) prog \<times> bytes \<times> bytes"

text \<open>A step of one end, on the bytes that have arrived for it and the bytes it has sent.\<close>

inductive side_step :: "('q \<Rightarrow> bool) \<Rightarrow> ('q, 'a) prog \<times> bytes \<times> bytes \<Rightarrow> ('q, 'a) prog \<times> bytes \<times> bytes \<Rightarrow> bool"
  for ans where
  ss_write: "side_step ans (WriteAll bs k, i, out) (k (Ok ()), i, out @ bs)"
| ss_flush: "side_step ans (Flush k, i, out) (k (Ok ()), i, out)"
| ss_read: "0 < m \<Longrightarrow> m \<le> n \<Longrightarrow> m \<le> length i \<Longrightarrow>
    side_step ans (Read n k, i, out) (k (Ok (take m i)), drop m i, out)"
| ss_exact: "n \<le> length i \<Longrightarrow> side_step ans (ReadExact n k, i, out) (k (Ok (take n i)), drop n i, out)"
| ss_peek: "0 < m \<Longrightarrow> m \<le> n \<Longrightarrow> m \<le> length i \<Longrightarrow> side_step ans (Peek n k, i, out) (k (Ok (take m i)), i, out)"
| ss_ask: "side_step ans (Ask q k, i, out) (k (ans q), i, out)"

inductive_simps side_step_simps [simp]:
  "side_step ans (Ret a, i, out) s"
  "side_step ans (WriteAll bs k, i, out) s"
  "side_step ans (Flush k, i, out) s"
  "side_step ans (Read n k, i, out) s"
  "side_step ans (ReadExact n k, i, out) s"
  "side_step ans (Peek n k, i, out) s"
  "side_step ans (Ask q k, i, out) s"

inductive net_step :: "('q \<Rightarrow> bool) \<Rightarrow> ('p \<Rightarrow> bool) \<Rightarrow> ('q, 'a, 'p, 'b) net \<Rightarrow> ('q, 'a, 'p, 'b) net \<Rightarrow> bool"
  for ansl ansr where
  net_left: "side_step ansl (l, down, up) (l', down', up') \<Longrightarrow> net_step ansl ansr (l, r, up, down) (l', r, up', down')"
| net_right: "side_step ansr (r, up, down) (r', up', down') \<Longrightarrow> net_step ansl ansr (l, r, up, down) (l, r', up', down')"

inductive_cases net_stepE: "net_step ansl ansr (l, r, up, down) s"

text \<open>A step does not depend on bytes that arrive behind those it reads, nor on what was sent before.\<close>

lemma side_step_frame:
  assumes "side_step ans (p, i, out) (p', i', out')"
  shows "\<exists>bs. out' = out @ bs \<and> (\<forall>j o2. side_step ans (p, i @ j, o2) (p', i' @ j, o2 @ bs))"
  using assms
proof (cases rule: side_step.cases)
  case (ss_read m n k)
  then show ?thesis by (auto intro!: exI [of _ m])
next
  case (ss_peek m n k)
  then show ?thesis by (auto intro!: exI [of _ m])
qed auto

lemma side_step_exact_only:
  "exact_only p \<Longrightarrow> side_step ans (p, i, out) (p', i', out') \<Longrightarrow> exact_only p'"
  by (erule side_step.cases) auto

lemma side_step_det:
  "exact_only p \<Longrightarrow> side_step ans (p, i, out) s \<Longrightarrow> side_step ans (p, i, out) t \<Longrightarrow> s = t"
  by (cases p) auto

text \<open>The two ends commute.\<close>

lemma net_commute:
  assumes "side_step ansl (l, down, up) (l', down1, up1)" "side_step ansr (r, up, down) (r', up2, down2)"
  shows "\<exists>c. net_step ansl ansr (l', r, up1, down1) c \<and> net_step ansl ansr (l, r', up2, down2) c"
proof -
  obtain bs where l: "up1 = up @ bs" "\<forall>j o2. side_step ansl (l, down @ j, o2) (l', down1 @ j, o2 @ bs)"
    using side_step_frame [OF assms(1)] by blast
  obtain cs where r: "down2 = down @ cs" "\<forall>j o2. side_step ansr (r, up @ j, o2) (r', up2 @ j, o2 @ cs)"
    using side_step_frame [OF assms(2)] by blast
  have "net_step ansl ansr (l', r, up1, down1) (l', r', up2 @ bs, down1 @ cs)" using l(1) r(2) by (auto intro: net_right)
  moreover have "net_step ansl ansr (l, r', up2, down2) (l', r', up2 @ bs, down1 @ cs)" using r(1) l(2) by (auto intro: net_left)
  ultimately show ?thesis by blast
qed

text \<open>Moves of one end.\<close>

lemma left_write: "(net_step a b)\<^sup>*\<^sup>* (write_flush conv bs k, r, up, down) (k, r, up @ bs, down)"
proof -
  have "net_step a b (write_flush conv bs k, r, up, down) (Flush (\<lambda>r. case r of Err e \<Rightarrow> Ret (Err (conv e)) | Ok _ \<Rightarrow> k), r, up @ bs, down)"
    unfolding write_flush_def by (rule net_left) simp
  moreover have "net_step a b (Flush (\<lambda>r. case r of Err e \<Rightarrow> Ret (Err (conv e)) | Ok _ \<Rightarrow> k), r, up @ bs, down) (k, r, up @ bs, down)"
    by (rule net_left) simp
  ultimately show ?thesis by (rule rtranclp.rtrancl_into_rtrancl [OF r_into_rtranclp])
qed

lemma right_write: "(net_step a b)\<^sup>*\<^sup>* (l, write_flush conv bs k, up, down) (l, k, up, down @ bs)"
proof -
  have "net_step a b (l, write_flush conv bs k, up, down) (l, Flush (\<lambda>r. case r of Err e \<Rightarrow> Ret (Err (conv e)) | Ok _ \<Rightarrow> k), up, down @ bs)"
    unfolding write_flush_def by (rule net_right) simp
  moreover have "net_step a b (l, Flush (\<lambda>r. case r of Err e \<Rightarrow> Ret (Err (conv e)) | Ok _ \<Rightarrow> k), up, down @ bs) (l, k, up, down @ bs)"
    by (rule net_right) simp
  ultimately show ?thesis by (rule rtranclp.rtrancl_into_rtrancl [OF r_into_rtranclp])
qed

lemma left_read:
  assumes "length bs = n"
  shows "(net_step a b)\<^sup>*\<^sup>* (read_exact conv n f, r, up, bs @ down) (f bs, r, up, down)"
proof -
  have "net_step a b (read_exact conv n f, r, up, bs @ down) (f bs, r, up, down)"
    unfolding read_exact_def by (rule net_left) (use assms in simp)
  then show ?thesis by (rule r_into_rtranclp)
qed

lemma right_read:
  assumes "length bs = n"
  shows "(net_step a b)\<^sup>*\<^sup>* (l, read_exact conv n f, bs @ up, down) (l, f bs, up, down)"
proof -
  have "net_step a b (l, read_exact conv n f, bs @ up, down) (l, f bs, up, down)"
    unfolding read_exact_def by (rule net_right) (use assms in simp)
  then show ?thesis by (rule r_into_rtranclp)
qed

lemma right_ask: "(net_step a b)\<^sup>*\<^sup>* (l, Ask q f, up, down) (l, f (b q), up, down)"
proof -
  have "net_step a b (l, Ask q f, up, down) (l, f (b q), up, down)" by (rule net_right) simp
  then show ?thesis by (rule r_into_rtranclp)
qed

lemma net_final: "\<not> net_step ansl ansr (Ret a, Ret b, up, down) s"
  by (auto elim: net_stepE)

subsection \<open>Schedules\<close>

text \<open>
  A system whose steps commute, on the configurations that can occur: if one schedule ends, every other
  schedule can only end in the same configuration, and always can be continued to it.
\<close>

locale commuting_system =
  fixes sys_step :: "'s \<Rightarrow> 's \<Rightarrow> bool"
    and good :: "'s \<Rightarrow> bool"
  assumes good_step: "good s \<Longrightarrow> sys_step s t \<Longrightarrow> good t"
    and diamond: "good s \<Longrightarrow> sys_step s a \<Longrightarrow> sys_step s b \<Longrightarrow> a = b \<or> (\<exists>c. sys_step a c \<and> sys_step b c)"
begin

lemma one_step_closer:
  "sys_step\<^sup>*\<^sup>* s f \<Longrightarrow> good s \<Longrightarrow> (\<And>x. \<not> sys_step f x) \<Longrightarrow> sys_step s t \<Longrightarrow> sys_step\<^sup>*\<^sup>* t f"
proof (induction arbitrary: t rule: converse_rtranclp_induct)
  case (step s a)
  from diamond [OF step.prems(1) step.hyps(1) step.prems(3)] show ?case
  proof
    assume "a = t"
    then show ?thesis using step.hyps(2) by simp
  next
    assume "\<exists>c. sys_step a c \<and> sys_step t c"
    then obtain c where c: "sys_step a c" "sys_step t c" by blast
    have "sys_step\<^sup>*\<^sup>* c f" using step.IH [OF good_step [OF step.prems(1) step.hyps(1)] step.prems(2) c(1)] .
    with c(2) show ?thesis by (rule converse_rtranclp_into_rtranclp)
  qed
qed blast

lemma every_schedule:
  assumes "sys_step\<^sup>*\<^sup>* s f" "\<And>x. \<not> sys_step f x" "good s" "sys_step\<^sup>*\<^sup>* s t"
  shows "sys_step\<^sup>*\<^sup>* t f"
  using assms(4,1,3)
proof (induction rule: converse_rtranclp_induct)
  case (step s a)
  then show ?case using one_step_closer [OF _ _ assms(2)] good_step by blast
qed

end

end
