(* ===== verification/Socks5Interop.thy ===== *)
theory Socks5Interop
  imports Socks5Client ServerStream Net
begin

text \<open>
  The client handshake of \<open>connect/util/handshake_over_stream.rs\<close> against the inbound server of
  \<open>server/mod.rs\<close>, over a byte stream, under every schedule of the two.
\<close>

text \<open>The host that accepts a request and answers it.\<close>

definition serve ::
  "(bytes \<Rightarrow> bytes option) \<Rightarrow> server_options \<Rightarrow> reply \<Rightarrow> (server_query, server_error + incoming_request) prog" where
  "serve decode opts rep =
     bind_ok (accept decode opts) (\<lambda>rq. bind_ok (send_reply rq rep) (\<lambda>_. Ret (Ok rq)))"

definition answer :: "reply \<Rightarrow> incoming_request \<Rightarrow> (server_query, server_error + incoming_request) prog" where
  "answer rep rq = bind_ok (send_reply rq rep) (\<lambda>_. Ret (Ok rq))"

subsection \<open>Every schedule\<close>

definition serve_read ::
  "(bytes \<Rightarrow> bytes option) \<Rightarrow> server_options \<Rightarrow> reply \<Rightarrow> (server_query, server_error + incoming_request) prog" where
  "serve_read decode opts rep =
     Read 1 (\<lambda>x. case x of
       Err e \<Rightarrow> Ret (Err (SrvIo e))
     | Ok bs \<Rightarrow> if bs = [] then Ret (Err Closed) else bind_ok (dispatch decode opts (bs ! 0)) (answer rep))"

lemma serve_unfold:
  "serve decode opts rep = Ask BudgetLeft (\<lambda>b. if b then serve_read decode opts rep else Ret (Err Deadline))"
  by (auto simp: serve_def accept_dispatch serve_read_def answer_def [abs_def] fun_eq_iff split: sum.splits)

lemma answer_exact_only: "exact_only (answer rep rq)"
  by (simp add: answer_def send_reply_def)

lemma socks_branch: "dispatch decode opts 5 = phase (socks opts)"
  by (simp add: dispatch_def)

lemma serve_socks_exact_only: "exact_only (bind_ok (dispatch decode opts 5) (answer rep))"
  by (rule exact_only_bind_ok) (simp_all add: socks_branch phase_def socks_exact_only answer_exact_only)

text \<open>The bytes before the server has seen the first one start with the SOCKS version.\<close>

definition opens_socks :: "('q, 'a) prog \<Rightarrow> bytes \<Rightarrow> bool" where
  "opens_socks l up \<longleftrightarrow> (case up of b # _ \<Rightarrow> b = 5 | [] \<Rightarrow> \<exists>bs k. l = WriteAll (5 # bs) k)"

definition socks_net ::
  "(bytes \<Rightarrow> bytes option) \<Rightarrow> server_options \<Rightarrow> reply \<Rightarrow>
   (unit, connect_error + unit, server_query, server_error + incoming_request) net \<Rightarrow> bool" where
  "socks_net decode opts rep s \<longleftrightarrow>
     (case s of (l, r, up, down) \<Rightarrow>
        exact_only l \<and>
        (exact_only r \<or> ((r = serve decode opts rep \<or> r = serve_read decode opts rep) \<and> opens_socks l up)))"

lemma opens_socks_left:
  assumes "opens_socks l up" "side_step ans (l, down, up) (l', down', up')"
  shows "opens_socks l' up'"
proof (cases up)
  case Nil
  then show ?thesis using assms by (auto simp: opens_socks_def)
next
  case (Cons b bs)
  then show ?thesis using assms side_step_frame [OF assms(2)] by (auto simp: opens_socks_def)
qed

lemma serve_read_step:
  assumes "opens_socks l up" "side_step host (serve_read decode opts rep, up, down) s"
  shows "s = (bind_ok (dispatch decode opts 5) (answer rep), tl up, down)"
proof -
  from assms(2) obtain m where m: "0 < m" "m \<le> 1" "m \<le> length up"
    and s: "s = (if take m up = [] then Ret (Err Closed) else bind_ok (dispatch decode opts (take m up ! 0)) (answer rep), drop m up, down)"
    by (auto simp: serve_read_def)
  then show ?thesis using assms(1) by (cases up) (auto simp: opens_socks_def le_Suc_eq)
qed

lemma socks_net_right:
  assumes "socks_net decode opts rep (l, r, up, down)" "host BudgetLeft" "side_step host (r, up, down) (r', up', down')"
  shows "socks_net decode opts rep (l, r', up', down')"
proof (cases "exact_only r")
  case True
  then show ?thesis using assms side_step_exact_only [OF True assms(3)] by (simp add: socks_net_def)
next
  case False
  then have o: "opens_socks l up" and r: "r = serve decode opts rep \<or> r = serve_read decode opts rep" and l: "exact_only l"
    using assms(1) by (auto simp: socks_net_def)
  from r show ?thesis
  proof
    assume "r = serve decode opts rep"
    then show ?thesis using assms(2,3) o l by (simp add: serve_unfold socks_net_def)
  next
    assume "r = serve_read decode opts rep"
    with serve_read_step [OF o, of host decode opts rep down "(r', up', down')"] assms(3) l serve_socks_exact_only
    show ?thesis by (simp add: socks_net_def)
  qed
qed

lemma socks_net_right_det:
  assumes "socks_net decode opts rep (l, r, up, down)" "host BudgetLeft"
    "side_step host (r, up, down) s" "side_step host (r, up, down) t"
  shows "s = t"
proof (cases "exact_only r")
  case True
  then show ?thesis using side_step_det assms(3,4) by blast
next
  case False
  then have o: "opens_socks l up" and r: "r = serve decode opts rep \<or> r = serve_read decode opts rep"
    using assms(1) by (auto simp: socks_net_def)
  from r show ?thesis
  proof
    assume "r = serve decode opts rep"
    then show ?thesis using assms(3,4) by (simp add: serve_unfold)
  next
    assume "r = serve_read decode opts rep"
    then show ?thesis using serve_read_step [OF o] assms(3,4) by metis
  qed
qed

text \<open>The host whose budget lasts; its verdicts are the parameter.\<close>

definition patient :: "(credentials \<Rightarrow> bool) \<Rightarrow> server_query \<Rightarrow> bool" where
  "patient verify q = (case q of BudgetLeft \<Rightarrow> True | Verify c \<Rightarrow> verify c)"

interpretation socks5_schedules:
  commuting_system "net_step (\<lambda>_. True) (patient verify)" "socks_net decode opts rep" for verify decode opts rep
proof
  have p: "patient verify BudgetLeft" by (simp add: patient_def)
  fix s t a b
  assume g: "socks_net decode opts rep s"
  obtain l r up down where s: "s = (l, r, up, down)" by (cases s)
  show "socks_net decode opts rep t" if "net_step (\<lambda>_. True) (patient verify) s t"
    using that unfolding s
  proof (elim net_stepE)
    fix l' down' up'
    assume t: "t = (l', r, up', down')" and st: "side_step (\<lambda>_. True) (l, down, up) (l', down', up')"
    show ?thesis
      using g side_step_exact_only [OF _ st] opens_socks_left [OF _ st] by (auto simp: s t socks_net_def)
  next
    fix r' down' up'
    assume t: "t = (l, r', up', down')" and st: "side_step (patient verify) (r, up, down) (r', up', down')"
    show ?thesis using socks_net_right [OF _ p st] g by (simp add: s t)
  qed
  assume a: "net_step (\<lambda>_. True) (patient verify) s a" and b: "net_step (\<lambda>_. True) (patient verify) s b"
  have l: "exact_only l" using g by (simp add: s socks_net_def)
  have comm: "\<exists>c. net_step (\<lambda>_. True) (patient verify) (l1, r, up1, down1) c \<and> net_step (\<lambda>_. True) (patient verify) (l, r2, up2, down2) c"
    if "side_step (\<lambda>_. True) (l, down, up) (l1, down1, up1)" "side_step (patient verify) (r, up, down) (r2, up2, down2)"
    for l1 r2 up1 down1 up2 down2
    by (rule net_commute [OF that])
  from a b show "a = b \<or> (\<exists>c. net_step (\<lambda>_. True) (patient verify) a c \<and> net_step (\<lambda>_. True) (patient verify) b c)"
    unfolding s
  proof (elim net_stepE)
    fix l1 d1 u1 l2 d2 u2
    assume "a = (l1, r, u1, d1)" "b = (l2, r, u2, d2)" "side_step (\<lambda>_. True) (l, down, up) (l1, d1, u1)"
      "side_step (\<lambda>_. True) (l, down, up) (l2, d2, u2)"
    then show ?thesis using side_step_det [OF l] by blast
  next
    fix r1 d1 u1 r2 d2 u2
    assume "a = (l, r1, u1, d1)" "b = (l, r2, u2, d2)" "side_step (patient verify) (r, up, down) (r1, u1, d1)"
      "side_step (patient verify) (r, up, down) (r2, u2, d2)"
    then show ?thesis using socks_net_right_det [of decode opts rep l r up down "patient verify"] g p s by blast
  next
    fix l1 d1 u1 r2 d2 u2
    assume "a = (l1, r, u1, d1)" "b = (l, r2, u2, d2)" "side_step (\<lambda>_. True) (l, down, up) (l1, d1, u1)"
      "side_step (patient verify) (r, up, down) (r2, u2, d2)"
    then show ?thesis using comm by blast
  next
    fix r1 d1 u1 l2 d2 u2
    assume "a = (l, r1, u1, d1)" "b = (l2, r, u2, d2)" "side_step (patient verify) (r, up, down) (r1, u1, d1)"
      "side_step (\<lambda>_. True) (l, down, up) (l2, d2, u2)"
    then show ?thesis using comm by blast
  qed
qed

end
