(* ===== verification/Socks5Exchange.thy ===== *)
theory Socks5Exchange
  imports Socks5Interop
begin

text \<open>The SOCKS5 exchange between client and server, step by step, and its end under every schedule.\<close>

subsection \<open>Encodings\<close>

lemma pair_bytes_u16_be: "pair_bytes (concat (map u16_be gs)) = gs"
  by (induction gs) (simp_all add: u16_be_def be16_split)

lemma length_u16_be [simp]: "length (u16_be p) = 2"
  by (simp add: u16_be_def)

lemma length_concat_u16_be: "length (concat (map u16_be gs)) = 2 * length gs"
  by (induction gs) simp_all

lemma be16_u16_be: "be16 (u16_be p ! 0) (u16_be p ! 1) = p"
  by (simp add: u16_be_def be16_split)

lemma unat_of_nat_byte: "n \<le> 255 \<Longrightarrow> unat (of_nat n :: byte) = n"
  by (simp add: unat_of_nat)

text \<open>The hosts that can be requested, and their spelling on the server's side.\<close>

definition requestable :: "bytes \<Rightarrow> u16 \<Rightarrow> bool" where
  "requestable host port \<longleftrightarrow>
     port \<noteq> 0 \<and>
     (parse_ipv4 host \<noteq> None \<or> parse_ipv6 host \<noteq> None \<or>
      utf8_valid host \<and> length host \<le> 255 \<and> \<not> invalid_domain host (host @ [COLON] @ fmt_u16 port))"

definition seen_target :: "bytes \<Rightarrow> u16 \<Rightarrow> bytes" where
  "seen_target host port =
     (case parse_ipv4 host of
        Some ip \<Rightarrow> fmt_ipv4 ip
      | None \<Rightarrow> (case parse_ipv6 host of Some gs \<Rightarrow> [LBRACKET] @ fmt_ipv6 gs @ [RBRACKET] | None \<Rightarrow> host)) @
     [COLON] @ fmt_u16 port"

definition acceptable :: "server_options \<Rightarrow> (credentials \<Rightarrow> bool) \<Rightarrow> (bytes \<times> bytes) option \<Rightarrow> bool" where
  "acceptable opts verify auth =
     (case auth of
        None \<Rightarrow> so_anonymous opts
      | Some (u, w) \<Rightarrow>
          so_password opts \<and> u \<noteq> [] \<and> length u \<le> 255 \<and> w \<noteq> [] \<and> length w \<le> 255 \<and> utf8_valid u \<and> utf8_valid w \<and>
          verify (credentials_new u w))"

definition seen_request :: "server_options \<Rightarrow> bytes \<Rightarrow> u16 \<Rightarrow> (bytes \<times> bytes) option \<Rightarrow> incoming_request" where
  "seen_request opts host port auth =
     \<lparr>rq_protocol = SrvSocks5, rq_target = seen_target host port, rq_username = map_option fst auth,
      rq_username_raw = None,
      rq_credentials = (if so_retain_credentials opts then map_option (\<lambda>(u, w). credentials_new u w) auth else None),
      rq_pipeline = []\<rparr>"

fun rep_code :: "reply \<Rightarrow> byte" where
  "rep_code Established = 0"
| "rep_code Forbidden = 2"
| "rep_code UpstreamUnavailable = 4"
| "rep_code RefusedReply = 5"
| "rep_code NetworkUnreachable = 3"
| "rep_code TimedOutReply = 6"
| "rep_code GeneralFailure = 1"
| "rep_code Overloaded = 1"

lemma reply_bytes_rep_code: "reply_bytes SrvSocks5 rep = socks_reply (rep_code rep)"
  by (cases rep) simp_all

definition client_result :: "reply \<Rightarrow> connect_error + unit" where
  "client_result rep =
     (if rep = Established then Ok () else Err (ProxyRejected Socks5 (Some (ucast (rep_code rep))) []))"

lemma rep_code_zero: "rep_code rep = 0 \<longleftrightarrow> rep = Established"
  by (cases rep) simp_all

subsection \<open>The steps\<close>

lemma requestable_nonempty: "requestable host port \<Longrightarrow> host \<noteq> []"
  using parse_ipv6_Nil parse_ipv4_length [of "[]"]
  by (auto simp: requestable_def invalid_domain_def parse_ipv4_def read_ipv4_addr_def numeral_eq_Suc read_separator_def
      read_number_def)

text \<open>The server reads the address the client sent.\<close>

lemma right_target:
  assumes "requestable host port" "socks5_address host = Ok (atyp, addr)"
  shows "(net_step a b)\<^sup>*\<^sup>* (l, bind_ok (socks_target atyp k) g, addr @ u16_be port, down)
     (l, bind_ok (k (seen_target host port)) g, [], down)"
proof -
  note [trans] = rtranclp_trans
  have port: "(net_step a b)\<^sup>*\<^sup>* (l, bind_ok (read_u16 SrvIo f) g, u16_be port, down) (l, bind_ok (f port) g, [], down)" for f
    using right_read [of "u16_be port" 2 a b l SrvIo "\<lambda>bs. bind_ok (f (be16 (bs ! 0) (bs ! 1))) g" "[]" down]
    by (simp add: read_u16_def be16_u16_be del: One_nat_def)
  show ?thesis
  proof (cases "parse_ipv4 host")
    case (Some ip)
    then have x: "atyp = 1" "addr = ip" "length ip = 4" using assms(2) parse_ipv4_length by (auto simp: socks5_address_def)
    have "(net_step a b)\<^sup>*\<^sup>* (l, bind_ok (socks_target atyp k) g, addr @ u16_be port, down)
        (l, bind_ok (read_u16 SrvIo (\<lambda>port. k (fmt_ipv4 ip @ [COLON] @ fmt_u16 port))) g, u16_be port, down)"
      using right_read [OF x(3), of a b l SrvIo "\<lambda>ip. bind_ok (read_u16 SrvIo (\<lambda>port. k (fmt_ipv4 ip @ [COLON] @ fmt_u16 port))) g"]
      by (simp add: socks_target_def x)
    also note port
    finally show ?thesis using Some by (simp add: seen_target_def)
  next
    case n4: None
    show ?thesis
    proof (cases "parse_ipv6 host")
      case (Some gs)
      then have x: "atyp = 4" "addr = concat (map u16_be gs)" "length (concat (map u16_be gs)) = 16"
        using assms(2) n4 parse_ipv6_length [OF Some] by (auto simp: socks5_address_def length_concat_u16_be)
      have "(net_step a b)\<^sup>*\<^sup>* (l, bind_ok (socks_target atyp k) g, addr @ u16_be port, down)
          (l, bind_ok (read_u16 SrvIo (\<lambda>port. k ([LBRACKET] @ fmt_ipv6 gs @ [RBRACKET, COLON] @ fmt_u16 port))) g, u16_be port, down)"
        using right_read [OF x(3), of a b l SrvIo
            "\<lambda>ip. bind_ok (read_u16 SrvIo (\<lambda>port. k ([LBRACKET] @ fmt_ipv6 (pair_bytes ip) @ [RBRACKET, COLON] @ fmt_u16 port))) g"]
        by (simp add: socks_target_def x pair_bytes_u16_be)
      also note port
      finally show ?thesis using Some n4 by (simp add: seen_target_def)
    next
      case n6: None
      then have d: "utf8_valid host" "length host \<le> 255" "\<not> invalid_domain host (host @ [COLON] @ fmt_u16 port)"
        using assms(1) n4 by (auto simp: requestable_def)
      have x: "atyp = 3" "addr = of_nat (length host) # host"
        using assms(2) n4 n6 d by (auto simp: socks5_address_def split: if_splits)
      let ?p = "\<lambda>domain port. if \<not> utf8_valid domain then Ret (Err (SrvProtocol (TextUtf8 domain)))
          else let target = domain @ [COLON] @ fmt_u16 port
               in if invalid_domain domain target
                  then write_flush SrvIo (socks_reply 4)
                         (Ret (Err (SrvProtocol (TextDebug (ascii ''Invalid DOMAINNAME in CONNECT request: '') domain))))
                  else k target"
      have t: "socks_target 3 k = read_u8 SrvIo (\<lambda>len. read_exact SrvIo (unat len) (\<lambda>domain. read_u16 SrvIo (?p domain)))"
        unfolding socks_target_def by simp
      have "(net_step a b)\<^sup>*\<^sup>* (l, bind_ok (socks_target atyp k) g, addr @ u16_be port, down)
          (l, read_exact SrvIo (unat (of_nat (length host) :: byte)) (\<lambda>domain. bind_ok (read_u16 SrvIo (?p domain)) g),
           host @ u16_be port, down)"
        unfolding x t read_u8_def
        using right_read [of "[of_nat (length host)]" 1 a b l SrvIo
            "\<lambda>bs. read_exact SrvIo (unat (bs ! 0)) (\<lambda>domain. bind_ok (read_u16 SrvIo (?p domain)) g)"]
        by (simp del: One_nat_def ascii_simps)
      also have "(net_step a b)\<^sup>*\<^sup>* \<dots> (l, bind_ok (read_u16 SrvIo (?p host)) g, u16_be port, down)"
        using d(2) by (intro right_read) (simp add: unat_of_nat_byte)
      also note port
      finally show ?thesis using n4 n6 d by (simp add: seen_target_def Let_def)
    qed
  qed
qed

text \<open>Request and reply.\<close>

text \<open>What the client leaves unread of the reply: nothing, or the bound address of a refusal.\<close>

definition unread_reply :: "reply \<Rightarrow> bytes" where
  "unread_reply rep = (if rep = Established then [] else replicate 6 0)"

lemma connect_exchange:
  assumes "requestable host port" "rq = seen_request opts host port auth"
    "u = rq_username rq" "ret = rq_credentials rq"
  shows "(net_step a b)\<^sup>*\<^sup>* (socks5_connect host port, bind_ok (socks_request u None ret) (answer rep), [], [])
     (Ret (client_result rep), Ret (Ok rq), [], unread_reply rep)"
proof -
  note [trans] = rtranclp_trans
  obtain atyp addr where a: "socks5_address host = Ok (atyp, addr)"
    using assms(1) by (cases "parse_ipv4 host"; cases "parse_ipv6 host") (auto simp: requestable_def socks5_address_def)
  let ?f = "\<lambda>h. if h ! 0 \<noteq> 5 then protocol_err (Socks5BadVersion (h ! 0))
       else if h ! 1 \<noteq> 0 then Ret (Err (ProxyRejected Socks5 (Some (ucast (h ! 1))) []))
       else if h ! 2 \<noteq> 0 then protocol_err (Socks5BadReserved (h ! 2)) else read_bound_address (h ! 3)"
  let ?wait = "read_exact from_io_error 4 ?f"
  let ?req = "[5, 1, 0, atyp]"
  have "(net_step a b)\<^sup>*\<^sup>* (socks5_connect host port, bind_ok (socks_request u None ret) (answer rep), [], [])
      (?wait, bind_ok (socks_request u None ret) (answer rep), [] @ (?req @ addr @ u16_be port), [])"
    unfolding socks5_connect_def a by (simp only: sum.case prod.case) (rule left_write)
  also have "(net_step a b)\<^sup>*\<^sup>* \<dots>
      (?wait, bind_ok (socks_target atyp (\<lambda>target.
              Ret (Ok \<lparr>rq_protocol = SrvSocks5, rq_target = target, rq_username = u, rq_username_raw = None,
                       rq_credentials = ret, rq_pipeline = []\<rparr>))) (answer rep), addr @ u16_be port, [])"
  proof -
    let ?g = "\<lambda>header.
       if header ! 0 \<noteq> 5 then Ret (Err (SrvProtocol (Text (ascii ''Invalid version in CONNECT request''))))
       else if header ! 1 \<noteq> 1
       then write_flush SrvIo (socks_reply 7)
              (Ret (Err (SrvProtocol (Text (ascii ''Only CONNECT commands are supported'')))))
       else socks_target (header ! 3) (\<lambda>target.
              Ret (Ok \<lparr>rq_protocol = SrvSocks5, rq_target = target, rq_username = u,
                       rq_username_raw = None, rq_credentials = ret, rq_pipeline = []\<rparr>))"
    have e: "bind_ok (socks_request u None ret) (answer rep) = read_exact SrvIo 4 (\<lambda>h. bind_ok (?g h) (answer rep))"
      by (simp only: socks_request_def bind_ok_simps)
    have g: "?g ?req = socks_target atyp (\<lambda>target.
              Ret (Ok \<lparr>rq_protocol = SrvSocks5, rq_target = target, rq_username = u, rq_username_raw = None,
                       rq_credentials = ret, rq_pipeline = []\<rparr>))" by simp
    have "(net_step a b)\<^sup>*\<^sup>* (?wait, read_exact SrvIo 4 (\<lambda>h. bind_ok (?g h) (answer rep)), ?req @ (addr @ u16_be port), [])
        (?wait, bind_ok (?g ?req) (answer rep), addr @ u16_be port, [])"
      by (rule right_read) simp
    then show ?thesis unfolding e g append_Nil .
  qed
  also have "(net_step a b)\<^sup>*\<^sup>* \<dots> (?wait, answer rep rq, [], [])"
    using right_target [OF assms(1) a, of a b ?wait "\<lambda>target.
              Ret (Ok \<lparr>rq_protocol = SrvSocks5, rq_target = target, rq_username = u, rq_username_raw = None,
                       rq_credentials = ret, rq_pipeline = []\<rparr>)" "answer rep" "[]"]
    by (simp add: assms(2-4) seen_request_def)
  also have "(net_step a b)\<^sup>*\<^sup>* \<dots> (?wait, Ret (Ok rq), [], [] @ socks_reply (rep_code rep))"
    using right_write [of a b ?wait SrvIo "reply_bytes SrvSocks5 rep" "Ret (Ok rq)" "[]" "[]"]
    by (simp add: answer_def send_reply_def assms(2) seen_request_def reply_bytes_rep_code)
  also have "(net_step a b)\<^sup>*\<^sup>* \<dots> (?f [5, rep_code rep, 0, 1], Ret (Ok rq), [], replicate 6 0)"
    using left_read [of "[5, rep_code rep, 0, 1]" 4 a b from_io_error ?f "Ret (Ok rq)" "[]" "replicate 6 0"]
    by (simp add: socks_reply_def numeral_eq_Suc)
  finally have main: "(net_step a b)\<^sup>*\<^sup>* (socks5_connect host port, bind_ok (socks_request u None ret) (answer rep), [], [])
      (?f [5, rep_code rep, 0, 1], Ret (Ok rq), [], replicate 6 0)" .
  show ?thesis
  proof (cases "rep = Established")
    case True
    have "(net_step a b)\<^sup>*\<^sup>* (read_exact from_io_error 6 (\<lambda>_. Ret (Ok ())), Ret (Ok rq), [], replicate 6 0 @ [])
        (Ret (Ok ()), Ret (Ok rq), [], [])"
      by (rule left_read) simp
    with main show ?thesis
      using True by (auto simp: read_bound_address_def client_result_def unread_reply_def intro: rtranclp_trans)
  next
    case False
    then have "?f [5, rep_code rep, 0, 1] = Ret (client_result rep)"
      using rep_code_zero [of rep] by (simp add: client_result_def)
    with main False show ?thesis by (simp add: unread_reply_def)
  qed
qed

text \<open>Detection and method selection.\<close>

lemma method_exchange:
  assumes "m = 2 \<and> so_password opts \<and> p = socks_password opts \<or>
      m = 0 \<and> so_anonymous opts \<and> p = socks_request None None None"
  shows "(net_step a (patient verify))\<^sup>*\<^sup>* (write_flush from_io_error [5, 1, m] (read_exact from_io_error 2 f), serve decode opts rep, [], [])
     (f [5, m], bind_ok p (answer rep), [], [])"
proof -
  note [trans] = rtranclp_trans
  let ?b = "patient verify" and ?w = "read_exact from_io_error 2 f"
  let ?s = "\<lambda>methods.
       if so_password opts \<and> 2 \<in> set methods then write_flush SrvIo [5, 2] (socks_password opts)
       else if so_anonymous opts \<and> 0 \<in> set methods then write_flush SrvIo [5, 0] (socks_request None None None)
       else write_flush SrvIo [5, 255]
              (Ret (Err (SrvAuthentication (Text (no_method_text opts (length methods))))))"
  have "(net_step a ?b)\<^sup>*\<^sup>* (write_flush from_io_error [5, 1, m] ?w, serve decode opts rep, [], [])
      (?w, serve decode opts rep, [] @ [5, 1, m], [])" by (rule left_write)
  also have "(net_step a ?b)\<^sup>*\<^sup>* \<dots> (?w, serve_read decode opts rep, [5, 1, m], [])"
    using right_ask [of a ?b ?w BudgetLeft "\<lambda>b. if b then serve_read decode opts rep else Ret (Err Deadline)" "[5, 1, m]" "[]"]
    by (simp add: serve_unfold patient_def)
  also have "(net_step a ?b)\<^sup>*\<^sup>* \<dots> (?w, bind_ok (dispatch decode opts 5) (answer rep), [1, m], [])"
  proof (rule r_into_rtranclp, rule net_right)
    show "side_step ?b (serve_read decode opts rep, [5, 1, m], []) (bind_ok (dispatch decode opts 5) (answer rep), [1, m], [])"
      unfolding serve_read_def by (auto intro!: exI [of _ 1])
  qed
  also have "(net_step a ?b)\<^sup>*\<^sup>* \<dots> (?w, bind_ok (socks opts) (answer rep), [1, m], [])"
    using right_ask [of a ?b ?w BudgetLeft "\<lambda>b. bind_ok (if b then socks opts else Ret (Err Deadline)) (answer rep)" "[1, m]" "[]"]
    by (simp add: socks_branch phase_def patient_def)
  also have "(net_step a ?b)\<^sup>*\<^sup>* \<dots> (?w, read_exact SrvIo 1 (\<lambda>ms. bind_ok (?s ms) (answer rep)), [m], [])"
    using right_read [of "[1]" 1 a ?b ?w SrvIo "\<lambda>n. read_exact SrvIo (unat (n ! 0)) (\<lambda>ms. bind_ok (?s ms) (answer rep))" "[m]" "[]"]
    by (simp add: socks_def read_u8_def)
  also have "(net_step a ?b)\<^sup>*\<^sup>* \<dots> (?w, bind_ok (?s [m]) (answer rep), [], [])"
    using right_read [of "[m]" 1 a ?b ?w SrvIo "\<lambda>ms. bind_ok (?s ms) (answer rep)" "[]" "[]"] by simp
  also have "?s [m] = write_flush SrvIo [5, m] p" using assms by auto
  also have "(net_step a ?b)\<^sup>*\<^sup>* (?w, bind_ok (write_flush SrvIo [5, m] p) (answer rep), [], []) (?w, bind_ok p (answer rep), [], [] @ [5, m])"
    unfolding bind_ok_simps by (rule right_write)
  also have "(net_step a ?b)\<^sup>*\<^sup>* \<dots> (f [5, m], bind_ok p (answer rep), [], [])"
    using left_read [of "[5, m]" 2 a ?b from_io_error f "bind_ok p (answer rep)" "[]" "[]"] by simp
  finally show ?thesis .
qed

text \<open>The username/password subnegotiation.\<close>

lemma password_exchange:
  assumes "acceptable opts verify (Some (u, w))" "ret = (if so_retain_credentials opts then Some (credentials_new u w) else None)"
  shows "(net_step a (patient verify))\<^sup>*\<^sup>* (socks5_subnegotiate u w k, bind_ok (socks_password opts) (answer rep), [], [])
     (k, bind_ok (socks_request (Some u) None ret) (answer rep), [], [])"
proof -
  note [trans] = rtranclp_trans
  have c: "u \<noteq> []" "length u \<le> 255" "w \<noteq> []" "length w \<le> 255" "utf8_valid u" "utf8_valid w" "verify (credentials_new u w)"
    using assms(1) by (auto simp: acceptable_def)
  let ?b = "patient verify"
  let ?f = "\<lambda>r. if r ! 0 \<noteq> 1 then protocol_err (Socks5BadAuthVersion (r ! 0))
                else if r ! 1 \<noteq> 0 then Ret (Err (AuthFailed (r ! 1))) else k"
  let ?w = "read_exact from_io_error 2 ?f"
  let ?lu = "of_nat (length u) :: byte" and ?lw = "of_nat (length w) :: byte"
  let ?p2 = "\<lambda>user. read_u8 SrvIo (\<lambda>plen.
         if plen = 0
         then auth_fail ''Zero-length password in auth subnegotiation (RFC 1929 requires 1-255 bytes)''
         else read_exact SrvIo (unat plen) (\<lambda>password. socks_verify opts user password))"
  let ?p1 = "\<lambda>header. if header ! 0 \<noteq> 1
       then Ret (Err (SrvAuthentication (Text (ascii ''Invalid auth subnegotiation version: '' @ hex2 (unat (header ! 0))))))
       else if header ! 1 = 0
       then auth_fail ''Zero-length username in auth subnegotiation (RFC 1929 requires 1-255 bytes)''
       else read_exact SrvIo (unat (header ! 1)) ?p2"
  have nz: "?lu \<noteq> 0" "?lw \<noteq> 0" using c unat_of_nat_byte [of "length u"] unat_of_nat_byte [of "length w"] by auto
  let ?up = "[1, ?lu] @ u @ [?lw] @ w"
  have "(net_step a ?b)\<^sup>*\<^sup>* (socks5_subnegotiate u w k, bind_ok (socks_password opts) (answer rep), [], [])
      (?w, bind_ok (socks_password opts) (answer rep), [] @ ?up, [])"
    using c(2,4) by (simp only: socks5_subnegotiate_def if_False) (simp, rule left_write [where up = "[]", simplified])
  also have "(net_step a ?b)\<^sup>*\<^sup>* \<dots> (?w, bind_ok (read_exact SrvIo (unat ?lu) ?p2) (answer rep), u @ [?lw] @ w, [])"
  proof -
    have p1: "?p1 [1, ?lu] = read_exact SrvIo (unat ?lu) ?p2" using nz by simp
    have "(net_step a ?b)\<^sup>*\<^sup>* (?w, read_exact SrvIo 2 (\<lambda>h. bind_ok (?p1 h) (answer rep)), [1, ?lu] @ (u @ [?lw] @ w), [])
        (?w, bind_ok (?p1 [1, ?lu]) (answer rep), u @ [?lw] @ w, [])"
      by (rule right_read) simp
    then show ?thesis unfolding p1 socks_password_def bind_ok_simps append_Nil append_assoc .
  qed
  also have "(net_step a ?b)\<^sup>*\<^sup>* (?w, bind_ok (read_exact SrvIo (unat ?lu) ?p2) (answer rep), u @ [?lw] @ w, [])
      (?w, bind_ok (?p2 u) (answer rep), [?lw] @ w, [])"
    unfolding bind_ok_simps using c(2) by (intro right_read) (simp add: unat_of_nat_byte)
  also have "(net_step a ?b)\<^sup>*\<^sup>* \<dots> (?w, bind_ok (read_exact SrvIo (unat ?lw) (\<lambda>password. socks_verify opts u password)) (answer rep), w, [])"
    using right_read [of "[?lw]" 1 a ?b ?w SrvIo "\<lambda>bs. bind_ok (if bs ! 0 = 0
         then auth_fail ''Zero-length password in auth subnegotiation (RFC 1929 requires 1-255 bytes)''
         else read_exact SrvIo (unat (bs ! 0)) (\<lambda>password. socks_verify opts u password)) (answer rep)" w "[]"] nz(2)
    by (simp add: read_u8_def)
  also have "(net_step a ?b)\<^sup>*\<^sup>* \<dots> (?w, bind_ok (socks_verify opts u w) (answer rep), [], [])"
    unfolding bind_ok_simps using c(4) right_read [of w "unat ?lw" a ?b ?w SrvIo "\<lambda>pw. bind_ok (socks_verify opts u pw) (answer rep)" "[]" "[]"]
    by (simp add: unat_of_nat_byte)
  also have "(net_step a ?b)\<^sup>*\<^sup>* \<dots> (?w, bind_ok (write_flush SrvIo [1, 0] (socks_request (Some u) None ret)) (answer rep), [], [])"
  proof -
    have d: "decode_field (so_raw_credentials opts) u = Some (u, None)" "decode_field (so_raw_credentials opts) w = Some (w, None)"
      using c by (simp_all add: decode_field_def)
    have n: "credentials_with_raw u w None None = credentials_new u w" by (simp add: credentials_with_raw_def credentials_new_def)
    let ?q = "\<lambda>verdict. bind_ok (if \<not> verdict
                then write_flush SrvIo AUTH_FAILURE (Ret (Err (auth_text ''SOCKS5 username/password authentication failed'')))
                else write_flush SrvIo [1, 0] (socks_request (Some u) None ret)) (answer rep)"
    have e: "bind_ok (socks_verify opts u w) (answer rep) = Ask (Verify (credentials_new u w)) ?q"
      unfolding socks_verify_def d option.case prod.case Let_def n credentials_duplicate assms(2) bind_ok_simps ..
    show ?thesis
      unfolding e using right_ask [of a ?b ?w "Verify (credentials_new u w)" ?q "[]" "[]"] c(7) by (simp add: patient_def)
  qed
  also have "(net_step a ?b)\<^sup>*\<^sup>* \<dots> (?w, bind_ok (socks_request (Some u) None ret) (answer rep), [], [] @ [1, 0])"
    unfolding bind_ok_simps by (rule right_write)
  also have "(net_step a ?b)\<^sup>*\<^sup>* \<dots> (k, bind_ok (socks_request (Some u) None ret) (answer rep), [], [])"
    using left_read [of "[1, 0]" 2 a ?b from_io_error ?f "bind_ok (socks_request (Some u) None ret) (answer rep)" "[]" "[]"] by simp
  finally show ?thesis .
qed

lemma socks5_exchange:
  assumes "requestable host port" "acceptable opts verify auth"
  shows "(net_step (\<lambda>_. True) (patient verify))\<^sup>*\<^sup>* (socks5_handshake host port auth, serve decode opts rep, [], [])
     (Ret (client_result rep), Ret (Ok (seen_request opts host port auth)), [], unread_reply rep)"
proof -
  have h: "socks5_handshake host port auth = socks5_negotiate auth (socks5_connect host port)"
    using requestable_nonempty [OF assms(1)] assms(1) by (simp add: socks5_handshake_def requestable_def)
  show ?thesis
  proof (cases auth)
    case None
    let ?f = "\<lambda>r. if r ! 0 \<noteq> 5 then protocol_err (Socks5BadVersion (r ! 0))
            else if r ! 1 \<noteq> 0 then Ret (Err (MethodUnsupported (r ! 1) False)) else socks5_connect host port"
    have m: "(net_step (\<lambda>_. True) (patient verify))\<^sup>*\<^sup>* (socks5_negotiate auth (socks5_connect host port), serve decode opts rep, [], [])
        (socks5_connect host port, bind_ok (socks_request None None None) (answer rep), [], [])"
      unfolding socks5_negotiate_def None option.case
      using method_exchange [of 0 opts "socks_request None None None" "\<lambda>_. True" verify ?f decode rep] assms(2)
      by (simp add: None acceptable_def)
    have "rq_username (seen_request opts host port auth) = None" "rq_credentials (seen_request opts host port auth) = None"
      by (simp_all add: seen_request_def None)
    then have c: "(net_step (\<lambda>_. True) (patient verify))\<^sup>*\<^sup>* (socks5_connect host port, bind_ok (socks_request None None None) (answer rep), [], [])
        (Ret (client_result rep), Ret (Ok (seen_request opts host port auth)), [], unread_reply rep)"
      using connect_exchange [OF assms(1) refl, of None opts auth None] by metis
    show ?thesis unfolding h by (rule rtranclp_trans [OF m c])
  next
    case (Some uw)
    obtain u w where uw: "uw = (u, w)" by (cases uw)
    have m: "(net_step (\<lambda>_. True) (patient verify))\<^sup>*\<^sup>* (socks5_negotiate auth (socks5_connect host port), serve decode opts rep, [], [])
        (socks5_subnegotiate u w (socks5_connect host port), bind_ok (socks_password opts) (answer rep), [], [])"
    proof -
      let ?f = "\<lambda>r. if r ! 0 \<noteq> 5 then protocol_err (Socks5BadVersion (r ! 0))
            else if r ! 1 \<noteq> 2 then Ret (Err (MethodUnsupported (r ! 1) True))
            else socks5_subnegotiate u w (socks5_connect host port)"
      show ?thesis
        unfolding socks5_negotiate_def Some uw option.case prod.case
        using method_exchange [of 2 opts "socks_password opts" "\<lambda>_. True" verify ?f decode rep] assms(2)
        by (simp add: Some uw acceptable_def)
    qed
    let ?ret = "if so_retain_credentials opts then Some (credentials_new u w) else None"
    have p: "(net_step (\<lambda>_. True) (patient verify))\<^sup>*\<^sup>* (socks5_subnegotiate u w (socks5_connect host port), bind_ok (socks_password opts) (answer rep), [], [])
        (socks5_connect host port, bind_ok (socks_request (Some u) None ?ret) (answer rep), [], [])"
      by (rule password_exchange) (use assms(2) Some uw in auto)
    have r: "rq_username (seen_request opts host port auth) = Some u" "rq_credentials (seen_request opts host port auth) = ?ret"
      by (simp_all add: seen_request_def Some uw)
    have c: "(net_step (\<lambda>_. True) (patient verify))\<^sup>*\<^sup>* (socks5_connect host port, bind_ok (socks_request (Some u) None ?ret) (answer rep), [], [])
        (Ret (client_result rep), Ret (Ok (seen_request opts host port auth)), [], unread_reply rep)"
      using connect_exchange [OF assms(1) refl, of "Some u" opts auth ?ret] r by metis
    show ?thesis unfolding h by (rule rtranclp_trans [OF m rtranclp_trans [OF p c]])
  qed
qed

subsection \<open>Every schedule ends the same way\<close>

lemma client_exact_only:
  assumes "host \<noteq> []" "port \<noteq> 0"
  shows "exact_only (socks5_handshake host port auth) \<and> opens_socks (socks5_handshake host port auth) []"
  using assms
  by (auto simp: socks5_handshake_def socks5_negotiate_def socks5_subnegotiate_def socks5_connect_def read_bound_address_def
      protocol_err_def opens_socks_def write_flush_def split: option.splits sum.splits)

lemma socks_net_start:
  assumes "requestable host port"
  shows "socks_net decode opts rep (socks5_handshake host port auth, serve decode opts rep, [], [])"
  using client_exact_only [of host port auth] requestable_nonempty [OF assms] assms
  by (simp add: socks_net_def requestable_def)

text \<open>
  C2: the library's client and server agree. For every requestable host and port (an IPv4 or IPv6 literal in
  any spelling, or a valid domain), every authentication the server accepts and every reply the host chooses,
  the SOCKS5 handshake and the accepting server, running concurrently over a byte stream, cannot get stuck:
  whatever steps they have taken, in any order, they can be continued to the one final state. In it the
  client has the result of that reply (success exactly for \<open>Established\<close>), the server has the request with
  the target the client named and the verified identity, and the server has read every byte the client sent.
  Of the reply the client has read everything on success, so that the tunnel starts clean; on a refusal it
  leaves exactly the six bytes of the bound address unread.
\<close>

theorem socks5_client_meets_server:
  assumes "requestable host port" "acceptable opts verify auth"
    and "(net_step (\<lambda>_. True) (patient verify))\<^sup>*\<^sup>* (socks5_handshake host port auth, serve decode opts rep, [], []) s"
  shows "(net_step (\<lambda>_. True) (patient verify))\<^sup>*\<^sup>* s
      (Ret (client_result rep), Ret (Ok (seen_request opts host port auth)), [],
       if rep = Established then [] else replicate 6 0)"
  using socks5_schedules.every_schedule [OF socks5_exchange [OF assms(1,2)] net_final socks_net_start [OF assms(1)] assms(3)]
  unfolding unread_reply_def .

subsection \<open>Witnesses\<close>

lemma demo_domain: "requestable (ascii ''example.org'') 443"
proof -
  have v: "utf8_valid (ascii ''example.org'')" using utf8_valid_ascii [of "ascii ''example.org''" "[]"] by simp
  have s: "strip_prefix [LBRACKET] (ascii ''example.org'' @ COLON # fmt_u16 443) = None" by simp
  have r: "rsplit_once COLON (ascii ''example.org'' @ COLON # fmt_u16 443) = Some (ascii ''example.org'', fmt_u16 443)"
    unfolding rsplit_once_Some by (simp add: fmt_u16_special)
  have "host_port_parse (ascii ''example.org'' @ [COLON] @ fmt_u16 443) \<noteq> None"
    unfolding host_port_parse_def append.simps s option.case r by simp
  then have "\<not> invalid_domain (ascii ''example.org'') (ascii ''example.org'' @ [COLON] @ fmt_u16 443)"
    by (simp add: invalid_domain_def byte_is_control_def is_ascii_whitespace_def)
  then show ?thesis using v by (simp add: requestable_def)
qed

text \<open>A user with a password asks for a domain; the schedule has not started.\<close>

theorem socks5_client_meets_server_witness:
  "(net_step (\<lambda>_. True) (patient (\<lambda>c. cr_password c = ascii ''pw'')))\<^sup>*\<^sup>*
     (socks5_handshake (ascii ''example.org'') 443 (Some (ascii ''u'', ascii ''pw'')),
      serve (\<lambda>_. None) (server_options_new False True) Established, [], [])
     (Ret (Ok ()), Ret (Ok (seen_request (server_options_new False True) (ascii ''example.org'') 443 (Some (ascii ''u'', ascii ''pw'')))), [], [])"
proof -
  have "acceptable (server_options_new False True) (\<lambda>c. cr_password c = ascii ''pw'') (Some (ascii ''u'', ascii ''pw''))"
    by (simp add: acceptable_def server_options_new_def credentials_new_def utf8_valid_ascii_Cons)
  from socks5_client_meets_server [OF demo_domain this rtranclp.rtrancl_refl, of "\<lambda>_. None" Established]
  show ?thesis by (simp add: client_result_def)
qed

end
