(* ===== verification/HttpInterop.thy ===== *)
theory HttpInterop
  imports HttpClientSpec Socks5Exchange
begin

text \<open>
  The HTTP CONNECT client of \<open>connect/proxy_connect/connect_http_proxy.rs\<close> against the inbound server of
  \<open>server/mod.rs\<close>: the request the client writes is the one the server accepts, and the reply the server writes
  is the one the client reads, whatever the segmentation and whatever payload follows.
\<close>

subsection \<open>Heads\<close>

definition joined :: "bytes list \<Rightarrow> bytes" where
  "joined ls = concat (map (\<lambda>l. l @ CRLF) ls)"

lemma joined_simps [simp]: "joined [] = []" "joined (l # ls) = l @ CRLF @ joined ls"
  by (simp_all add: joined_def)

definition plain_line :: "bytes \<Rightarrow> bool" where
  "plain_line l \<longleftrightarrow> l \<noteq> [] \<and> 13 \<notin> set l"

lemma find_window_skip:
  "p \<noteq> [] \<Longrightarrow> hd p \<notin> set l \<Longrightarrow> find_window p (l @ s) = map_option ((+) (length l)) (find_window p s)"
proof (induction l)
  case (Cons b l)
  then have "\<not> starts_with (b # l @ s) p" by (cases p) (auto simp: starts_with_def)
  then show ?case using Cons by (simp add: option.map_comp comp_def)
next
  case Nil
  have "(+) (0 :: nat) = (\<lambda>x. x)" by (simp add: fun_eq_iff)
  then show ?case by (simp add: option.map_ident)
qed

lemma find_head_end:
  assumes "list_all plain_line ls" "ls \<noteq> []"
  shows "find_window HEAD_END (joined ls @ CRLF @ s) = Some (length (joined ls) - 2)"
  using assms
proof (induction ls)
  case (Cons l ls)
  have l: "13 \<notin> set l" using Cons.prems(1) by (simp add: plain_line_def)
  have skip: "find_window HEAD_END (l @ x) = map_option ((+) (length l)) (find_window HEAD_END x)" for x
    by (rule find_window_skip) (use l in auto)
  show ?case
  proof (cases ls)
    case Nil
    have "find_window HEAD_END (CRLF @ CRLF @ s) = Some 0" by (simp add: starts_with_def)
    then show ?thesis using skip [of "CRLF @ CRLF @ s"] Nil by simp
  next
    case (Cons l2 ls2)
    then obtain b bs where l2: "l2 = b # bs" "b \<noteq> 13" using Cons.prems(1) by (cases l2) (auto simp: plain_line_def)
    have IH: "find_window HEAD_END (joined ls @ CRLF @ s) = Some (length (joined ls) - 2)"
      using Cons.IH Cons.prems(1) Cons by simp
    have "find_window HEAD_END (CRLF @ joined ls @ CRLF @ s) = map_option ((+) 2) (find_window HEAD_END (joined ls @ CRLF @ s))"
      using l2 Cons by (simp add: starts_with_def option.map_comp comp_def)
    then show ?thesis using skip [of "CRLF @ joined ls @ CRLF @ s"] IH Cons by simp
  qed
qed simp

lemma byte_lines_joined:
  assumes "list_all plain_line ls" "ls \<noteq> []"
  shows "byte_lines (take (length (joined ls) - 2) (joined ls)) = ls"
  using assms
proof (induction ls)
  case (Cons l ls)
  have l: "13 \<notin> set l" "l \<noteq> []" using Cons.prems(1) by (simp_all add: plain_line_def)
  have skip: "find_window CRLF (l @ x) = map_option ((+) (length l)) (find_window CRLF x)" for x
    by (rule find_window_skip) (use l in auto)
  show ?case
  proof (cases ls)
    case Nil
    have "find_window CRLF l = None" using skip [of "[]"] by simp
    then show ?thesis using l Nil byte_lines.simps [of l] by simp
  next
    case (Cons l2 ls2)
    have ge: "2 \<le> length (joined ls)" using Cons by simp
    have t: "take (length (joined (l # ls)) - 2) (joined (l # ls)) = l @ CRLF @ take (length (joined ls) - 2) (joined ls)"
    proof -
      obtain k where "length (joined ls) = Suc (Suc k)" using ge by (metis Suc_le_D numeral_2_eq_2 Suc_le_mono)
      then show ?thesis by simp
    qed
    have f: "find_window CRLF (l @ CRLF @ x) = Some (length l)" for x using skip [of "CRLF @ x"] by (simp add: starts_with_def)
    have "byte_lines (l @ CRLF @ take (length (joined ls) - 2) (joined ls)) = l # byte_lines (take (length (joined ls) - 2) (joined ls))"
      using l byte_lines.simps [of "l @ CRLF @ take (length (joined ls) - 2) (joined ls)"] f by simp
    then show ?thesis using Cons.IH Cons.prems(1) Cons t by simp
  qed
qed simp

text \<open>The server on a head of plain lines.\<close>

lemma accept_head:
  assumes "list_all plain_line (l # ls)" "unread c = joined (l # ls) @ CRLF @ payload" "is_ascii_alphabetic (hd l)"
    "length (joined (l # ls) @ CRLF) \<le> MAX_HEADER_BYTES" "utf8_valid l" "\<not> so_strict_http opts"
  shows "same_outcome (run_on (patient verify) (accept decode opts) c)
     (run_on (patient verify) (http_request decode opts l ls payload) (c\<lparr>incoming := []\<rparr>))"
proof -
  let ?s = "joined (l # ls) @ CRLF @ payload" and ?h = "patient verify" and ?c = "consume 1 c"
  obtain b x where l: "l = b # x" using assms(1) by (cases l) (auto simp: plain_line_def)
  have ne: "unread c \<noteq> []" and hd: "unread c = b # tl (unread c)" using assms(2) l by simp_all
  have al: "is_ascii_alphabetic b" "b \<noteq> 5" using assms(3) l by (auto simp: is_ascii_alphabetic_def)
  obtain m where m: "do_read 1 c = Some (Ok (take m (unread c)))" "0 < m" "m \<le> 1" using do_read_data [OF ne, of 1] by auto
  then have one: "do_read 1 c = Some (Ok [b])" using hd by (cases "unread c") (auto simp: le_Suc_eq)
  have run: "run_on ?h (accept decode opts) c = run_on ?h (http_loop decode opts [b]) ?c"
    using one al by (simp add: accept_dispatch dispatch_def phase_def patient_def got_def)
  have w: "find_window HEAD_END ?s = Some (length (joined (l # ls)) - 2)" by (rule find_head_end [OF assms(1)]) simp
  have whole: "same_outcome (run_on ?h (http_loop decode opts [b]) ?c)
      (http_whole decode ?h opts ([b] @ unread ?c) (ending ?c) (?c\<lparr>incoming := []\<rparr>))"
    by (rule http_loop_whole) (simp_all add: starts_with_def MAX_HEADER_BYTES_def)
  have u: "[b] @ unread ?c = ?s" using assms(2) l by simp
  have c0: "?c\<lparr>incoming := []\<rparr> = c\<lparr>incoming := []\<rparr>" by (simp add: consume_def)
  let ?n = "length (joined (l # ls)) - 2 + 4"
  have n: "?n = length (joined (l # ls) @ CRLF)" by simp
  have "http_whole decode ?h opts ?s (ending ?c) (c\<lparr>incoming := []\<rparr>) = run_on ?h (http_head decode opts ?s ?n) (c\<lparr>incoming := []\<rparr>)"
    using assms(4) unfolding http_whole_def w n [symmetric] by simp
  also have "http_head decode opts ?s ?n = http_request decode opts l ls payload"
  proof -
    have t: "take (?n - 4) ?s = take (length (joined (l # ls)) - 2) (joined (l # ls))"
      by (simp del: joined_simps)
    have d: "drop ?n ?s = payload" unfolding n by (simp del: joined_simps)
    show ?thesis
      unfolding http_head_def Let_def t d byte_lines_joined [OF assms(1) list.distinct(2)] using assms(5,6) by simp
  qed
  finally show ?thesis using whole unfolding run u c0 by simp
qed

subsection \<open>The request\<close>

text \<open>What the client and the server rely on of the base64 codec.\<close>

definition base64_char :: "byte \<Rightarrow> bool" where
  "base64_char b \<longleftrightarrow> is_ascii_alphanumeric b \<or> b \<in> {43, 47, 61}"

definition codec_ok :: "(bytes \<Rightarrow> bytes) \<Rightarrow> (bytes \<Rightarrow> bytes option) \<Rightarrow> bool" where
  "codec_ok encode decode \<longleftrightarrow>
     (\<forall>x. decode (encode x) = Some x \<and> list_all base64_char (encode x)) \<and> decode [] = Some []"

lemma base64_char_plain: "base64_char b \<Longrightarrow> b < 128 \<and> b \<noteq> 13 \<and> \<not> is_ascii_whitespace b \<and> \<not> is_whitespace (unat b)"
  by (auto simp: base64_char_def is_ascii_alphanumeric_def is_ascii_alphabetic_def is_ascii_digit_def is_ascii_whitespace_def
      is_whitespace_def word_le_nat_alt word_less_nat_alt)

lemma str_trim_id: "list_all base64_char s \<Longrightarrow> str_trim s = s"
  using base64_char_plain by (intro str_trim_plain) (auto simp: list_all_iff)

lemma trim_ascii_ends:
  assumes "s \<noteq> []" "\<not> is_ascii_whitespace (hd s)" "\<not> is_ascii_whitespace (last s)"
  shows "trim_ascii (SPACE # s) = s"
proof -
  have a: "dropWhile is_ascii_whitespace (SPACE # s) = s" using assms(1,2) by (cases s) (auto simp: is_ascii_whitespace_def)
  have "dropWhile is_ascii_whitespace (rev s) = rev s" using assms(1,3) by (cases s rule: rev_cases) auto
  then show ?thesis by (simp only: trim_ascii_def trim_both_def a rev_rev_ident)
qed

definition auth_line :: "(bytes \<Rightarrow> bytes) \<Rightarrow> bytes \<times> bytes \<Rightarrow> bytes" where
  "auth_line encode uw = ascii ''Proxy-Authorization: Basic '' @ encode (fst uw @ [COLON] @ snd uw)"

definition request_lines :: "(bytes \<Rightarrow> bytes) \<Rightarrow> bytes \<Rightarrow> proxy_config \<Rightarrow> bytes list" where
  "request_lines encode target proxy =
     [ascii ''CONNECT '' @ target @ ascii '' HTTP/1.1'', ascii ''Host: '' @ target] @
     (case socks5_auth proxy of None \<Rightarrow> [] | Some uw \<Rightarrow> [auth_line encode uw])"

lemma connect_request_lines: "connect_request encode target proxy = joined (request_lines encode target proxy) @ CRLF"
  by (auto simp: connect_request_def request_lines_def auth_line_def socks5_auth_def simp del: ascii_simps split: option.splits)

lemma request_lines_plain:
  assumes "13 \<notin> set target" "codec_ok encode decode"
  shows "list_all plain_line (request_lines encode target proxy)"
proof -
  have "13 \<notin> set (encode x)" for x using assms(2) base64_char_plain by (auto simp: codec_ok_def list_all_iff)
  then show ?thesis using assms(1) by (auto simp: request_lines_def auth_line_def plain_line_def split: option.splits)
qed

lemma find_auth_host: "find_auth ((ascii ''Host: '' @ t) # ls) = find_auth ls"
  by (simp add: trim_ascii_def trim_both_def is_ascii_whitespace_def eq_ignore_ascii_case_def to_ascii_lowercase_def)

lemma find_auth_line:
  assumes "codec_ok encode decode"
  shows "find_auth [auth_line encode (u, w)] = AuthValue (ascii ''Basic '' @ encode (u @ [COLON] @ w))"
proof -
  let ?e = "encode (u @ [COLON] @ w)"
  have dec: "decode ?e = Some (u @ [COLON] @ w)" and alph: "list_all base64_char ?e" and emp: "decode [] = Some []"
    using assms by (auto simp: codec_ok_def)
  have ne: "?e \<noteq> []" using dec emp by (cases "?e = []") auto
  have e: "list_all (\<lambda>b. b < 128) ?e" "\<not> is_ascii_whitespace (last ?e)"
    using alph ne base64_char_plain by (auto simp: list_all_iff)
  have v: "utf8_valid (ascii ''Basic '' @ ?e)" using utf8_valid_ascii [of "ascii ''Basic '' @ ?e" "[]"] e(1) by simp
  have t: "trim_ascii (SPACE # ascii ''Basic '' @ ?e) = ascii ''Basic '' @ ?e"
    by (rule trim_ascii_ends) (use ne e(2) in \<open>auto simp: is_ascii_whitespace_def\<close>)
  have l: "auth_line encode (u, w) = ascii ''Proxy-Authorization'' @ COLON # SPACE # ascii ''Basic '' @ ?e"
    by (simp add: auth_line_def)
  have p: "position ((=) COLON) (auth_line encode (u, w)) = Some 19" unfolding l by simp
  have tk: "take 19 (auth_line encode (u, w)) = ascii ''Proxy-Authorization''" unfolding l by simp
  have dr: "drop (19 + 1) (auth_line encode (u, w)) = SPACE # ascii ''Basic '' @ ?e" unfolding l by simp
  have nm: "eq_ignore_ascii_case (trim_ascii (ascii ''Proxy-Authorization'')) (ascii ''proxy-authorization'')"
    by (simp add: trim_ascii_def trim_both_def is_ascii_whitespace_def eq_ignore_ascii_case_def to_ascii_lowercase_def)
  have "auth_line encode (u, w) \<noteq> []" unfolding l by simp
  then show ?thesis using nm v by (simp only: find_auth.simps p option.case tk dr t if_False simp_thms if_True Let_def)
qed

lemma basic_credentials_encoded:
  assumes "codec_ok encode decode" "COLON \<notin> set u" "utf8_valid u" "utf8_valid w"
  shows "basic_credentials decode (ascii ''Basic '' @ encode (u @ [COLON] @ w)) = Ok (u, w)"
proof -
  let ?e = "encode (u @ [COLON] @ w)"
  have dec: "decode ?e = Some (u @ [COLON] @ w)" and alph: "list_all base64_char ?e" using assms(1) by (auto simp: codec_ok_def)
  have sp: "splitn2 SPACE (ascii ''Basic '' @ ?e) = (ascii ''Basic'', Some ?e)" by (simp add: splitn2_def)
  have v: "utf8_valid (u @ [COLON] @ w)" using assms(3,4) by (simp add: utf8_valid_append utf8_valid_ascii_Cons)
  have so: "split_once COLON (u @ [COLON] @ w) = Some (u, w)" using assms(2) by (simp add: split_once_Some)
  have bs: "eq_ignore_ascii_case (ascii ''Basic'') (ascii ''Basic'')" by (simp add: eq_ignore_ascii_case_def)
  show ?thesis
    unfolding basic_credentials_def Let_def sp prod.case option.map option.case str_trim_id [OF alph] dec using bs v so by simp
qed

text \<open>Targets a CONNECT request can name, and credentials it can carry.\<close>

definition nameable :: "bytes \<Rightarrow> bool" where
  "nameable target \<longleftrightarrow>
     utf8_valid target \<and> \<not> list_ex (\<lambda>b. byte_is_control b \<or> is_ascii_whitespace b) target \<and> host_port_parse target \<noteq> None"

definition http_acceptable :: "server_options \<Rightarrow> (credentials \<Rightarrow> bool) \<Rightarrow> (bytes \<times> bytes) option \<Rightarrow> bool" where
  "http_acceptable opts verify auth =
     (case auth of
        None \<Rightarrow> so_anonymous opts
      | Some (u, w) \<Rightarrow> so_password opts \<and> COLON \<notin> set u \<and> utf8_valid u \<and> utf8_valid w \<and> verify (credentials_new u w))"

definition http_seen :: "server_options \<Rightarrow> bytes \<Rightarrow> (bytes \<times> bytes) option \<Rightarrow> bytes \<Rightarrow> incoming_request" where
  "http_seen opts target auth payload =
     \<lparr>rq_protocol = SrvHttp, rq_target = target, rq_username = map_option fst auth, rq_username_raw = None,
      rq_credentials = (if so_retain_credentials opts then map_option (\<lambda>(u, w). credentials_new u w) auth else None),
      rq_pipeline = payload\<rparr>"

lemma nameable_plain:
  assumes "nameable target"
  shows "target \<noteq> []" "SPACE \<notin> set target" "13 \<notin> set target"
proof -
  show "target \<noteq> []"
    using assms by (auto simp: nameable_def host_port_parse_def)
  show "SPACE \<notin> set target" "13 \<notin> set target"
    using assms by (auto simp: nameable_def list_ex_iff is_ascii_whitespace_def)
qed

lemma request_line_parts:
  assumes "nameable target"
  shows "request_parts (ascii ''CONNECT '' @ target @ ascii '' HTTP/1.1'') = (ascii ''CONNECT'', target, ascii ''HTTP/1.1'')"
proof -
  have "split_once SPACE (target @ ascii '' HTTP/1.1'') = Some (target, ascii ''HTTP/1.1'')"
    using nameable_plain [OF assms] by (simp add: split_once_Some)
  then show ?thesis by (simp add: request_parts_def splitn2_def)
qed

lemma http_request_client:
  assumes "nameable target" "codec_ok encode decode" "http_acceptable opts verify (socks5_auth proxy)"
  shows "run_on (patient verify) (http_request decode opts (hd (request_lines encode target proxy)) (tl (request_lines encode target proxy)) payload) c =
    (Some (Ok (http_seen opts target (socks5_auth proxy) payload)), c)"
proof -
  let ?hs = "tl (request_lines encode target proxy)"
  have l: "hd (request_lines encode target proxy) = ascii ''CONNECT '' @ target @ ascii '' HTTP/1.1''"
    by (simp add: request_lines_def)
  have "http_request decode opts (hd (request_lines encode target proxy)) ?hs payload = http_authenticate decode opts target ?hs payload"
    unfolding l http_request_def request_line_parts [OF assms(1)] prod.case
    using assms(1) nameable_plain(1) [OF assms(1)] by (auto simp: nameable_def starts_with_def)
  also have "run_on (patient verify) \<dots> c = (Some (Ok (http_seen opts target (socks5_auth proxy) payload)), c)"
  proof (cases "socks5_auth proxy")
    case None
    have "find_auth ?hs = NoAuth" using find_auth_host [of target "[]"] by (simp add: request_lines_def None del: ascii_simps)
    then show ?thesis using assms(3) None by (simp add: http_authenticate_def http_accepted_def http_seen_def http_acceptable_def)
  next
    case (Some uw)
    obtain u w where uw: "uw = (u, w)" by (cases uw)
    have ok: "so_password opts" "COLON \<notin> set u" "utf8_valid u" "utf8_valid w" "verify (credentials_new u w)"
      using assms(3) Some uw by (auto simp: http_acceptable_def)
    have "find_auth ?hs = AuthValue (ascii ''Basic '' @ encode (u @ [COLON] @ w))"
      using find_auth_host [of target "[auth_line encode (u, w)]"] find_auth_line [OF assms(2)]
      by (simp add: request_lines_def Some uw del: ascii_simps find_auth.simps)
    then show ?thesis
      using basic_credentials_encoded [OF assms(2) ok(2-4)] ok Some uw
      by (simp add: http_authenticate_def http_accepted_def http_seen_def patient_def Let_def del: ascii_simps)
  qed
  finally show ?thesis .
qed

subsection \<open>The reply\<close>

lemma reference_head:
  assumes "list_all plain_line ls" "ls \<noteq> []" "length (joined ls @ CRLF) \<le> RESPONSE_CAP"
  shows "response_reference response_head_new (joined ls @ CRLF @ s) e =
    (case classify_head (joined ls @ CRLF) of
       Err x \<Rightarrow> (Some (Err x), s)
     | Ok True \<Rightarrow> (Some (Ok ()), s)
     | Ok False \<Rightarrow> response_reference \<lparr>rh_buf = [], rh_total = length (joined ls @ CRLF)\<rparr> s e)"
proof -
  let ?h = "joined ls @ CRLF"
  have ge: "2 \<le> length (joined ls)" using assms(2) by (cases ls) auto
  have f: "find_window HEAD_END ?h = Some (length (joined ls) - 2)" using find_head_end [OF assms(1,2), of "[]"] by simp
  have pre: "\<not> ends_with (rh_buf response_head_new @ q) HEAD_END" if "q \<noteq> []" "r \<noteq> []" "?h = q @ r" for q r
  proof
    assume "ends_with (rh_buf response_head_new @ q) HEAD_END"
    then obtain y where y: "q = y @ HEAD_END" by (auto simp: ends_with_iff response_head_new_def)
    then have "take (length HEAD_END) (drop (length y) ?h) = HEAD_END" using that(3) by simp
    moreover have "length y < length (joined ls) - 2"
      using arg_cong [OF that(3), of length] y that(2) ge by (cases r) auto
    ultimately show False using f find_window_Some [of HEAD_END ?h] by blast
  qed
  have w: "ends_with ?h HEAD_END"
  proof -
    have "take (length HEAD_END) (drop (length (joined ls) - 2) ?h) = HEAD_END"
      using f find_window_Some [of HEAD_END ?h] by blast
    moreover have "length (drop (length (joined ls) - 2) ?h) = 4" using ge by simp
    ultimately show ?thesis using ge by (simp add: ends_with_def numeral_2_eq_2)
  qed
  have "response_reference response_head_new (?h @ s) e =
    (case rh_advance response_head_new ?h of
       Err x \<Rightarrow> (Some (Err x), s)
     | Ok (ready, h') \<Rightarrow> if ready then (Some (Ok ()), s) else response_reference h' s e)"
    by (rule reference_chunk) (use assms(3) pre in \<open>auto simp: response_head_new_def\<close>)
  then show ?thesis
    using w by (simp add: rh_advance_def response_head_new_def Let_def split: sum.splits bool.splits)
qed

fun http_status_line :: "reply \<Rightarrow> string" where
  "http_status_line Established = ''HTTP/1.1 200 Connection Established''"
| "http_status_line Forbidden = ''HTTP/1.1 403 Forbidden''"
| "http_status_line TimedOutReply = ''HTTP/1.1 504 Gateway Timeout''"
| "http_status_line Overloaded = ''HTTP/1.1 503 Service Unavailable''"
| "http_status_line _ = ''HTTP/1.1 502 Bad Gateway''"

fun http_code :: "reply \<Rightarrow> u16" where
  "http_code Established = 200"
| "http_code Forbidden = 403"
| "http_code TimedOutReply = 504"
| "http_code Overloaded = 503"
| "http_code _ = 502"

definition http_client_result :: "reply \<Rightarrow> connect_error + unit" where
  "http_client_result rep =
     (if rep = Established then Ok () else Err (ProxyRejected Http (Some (http_code rep)) (ascii (http_status_line rep))))"

definition reply_lines :: "reply \<Rightarrow> bytes list" where
  "reply_lines rep =
     (if rep = Established then [ascii (http_status_line rep)]
      else [ascii (http_status_line rep), ascii ''Connection: close'', ascii ''Content-Length: 0''])"

lemma reply_bytes_lines: "reply_bytes SrvHttp rep = joined (reply_lines rep) @ CRLF"
  by (cases rep) (simp_all add: reply_lines_def http_error_def http_error_opt_def error_head_def crlf_lines_def)

lemma reply_lines_plain: "list_all plain_line (reply_lines rep)" "reply_lines rep \<noteq> []"
    "length (joined (reply_lines rep) @ CRLF) \<le> RESPONSE_CAP"
  by (cases rep; simp add: reply_lines_def plain_line_def RESPONSE_CAP_def)+

lemma reply_first_line: "takeWhile (\<lambda>b. b \<noteq> 13) (joined (reply_lines rep) @ CRLF) = ascii (http_status_line rep)"
  by (cases rep) (simp_all add: reply_lines_def)

lemma status_line_facts:
  "valid_status_line (ascii (http_status_line rep))"
  "ascii (http_status_line rep) ! 9 = 50 \<longleftrightarrow> rep = Established"
  "ascii (http_status_line rep) ! 9 \<noteq> 49"
  "status_code (ascii (http_status_line rep)) = Some (http_code rep)"
  by (cases rep; simp add: valid_status_line_def starts_with_def is_ascii_digit_def status_code_def)+

lemma status_line_utf8: "utf8_valid (ascii (http_status_line rep))"
  by (cases rep) (simp_all add: utf8_valid_ascii_Cons)

lemma classify_reply:
  "classify_head (joined (reply_lines rep) @ CRLF) =
     (if rep = Established then Ok True
      else Err (ProxyRejected Http (Some (http_code rep)) (ascii (http_status_line rep))))"
  unfolding classify_head_def Let_def reply_first_line using status_line_facts [of rep]
  by (simp add: utf8_lossy_valid [OF status_line_utf8])

lemma response_loop_reply:
  assumes "unread d = reply_bytes SrvHttp rep @ s"
  shows "\<exists>d'. run_on ans (response_loop response_head_new) d = (Some (http_client_result rep), d') \<and> unread d' = s"
proof -
  have "response_reference response_head_new (unread d) (ending d) = (Some (http_client_result rep), s)"
    using reference_head [OF reply_lines_plain, of rep s "ending d"] classify_reply [of rep]
    by (auto simp: assms reply_bytes_lines http_client_result_def)
  with response_loop_reference [of ans response_head_new d] show ?thesis
    by (cases "run_on ans (response_loop response_head_new) d") (auto simp: shows_as_def)
qed

text \<open>
  C3: the library's HTTP client and server agree. Given a codec whose decoder inverts its encoder, for every
  target and credentials a request can carry, the head the client writes, followed by any payload and cut
  into any segments, is accepted by a server that allows these credentials: the request names the same target
  and user, and its over-read bytes together with the unread ones are exactly the payload. For every reply of
  the host, followed by any payload in any segments, the client's result is the one of that reply (success
  exactly for \<open>Established\<close>) and the payload is left unread.
\<close>

theorem http_client_meets_server:
  assumes "codec_ok encode decode" "nameable target" "http_acceptable opts verify (socks5_auth proxy)"
    and "\<not> so_strict_http opts" "length (connect_request encode target proxy) \<le> MAX_HEADER_BYTES"
    and "unread c = connect_request encode target proxy @ payload"
    and "unread d = reply_bytes SrvHttp rep @ later"
  shows "outgoing (snd (run_on ans (http_connect_handshake encode target proxy) d)) =
      outgoing d @ connect_request encode target proxy \<and>
    (\<exists>rq c'. run_on (patient verify) (accept decode opts) c = (Some (Ok rq), c') \<and>
      rq\<lparr>rq_pipeline := []\<rparr> = http_seen opts target (socks5_auth proxy) [] \<and> rq_pipeline rq @ unread c' = payload \<and>
      outgoing c' = outgoing c) \<and>
    (\<exists>d'. run_on ans (http_connect_handshake encode target proxy) d = (Some (http_client_result rep), d') \<and> unread d' = later)"
proof -
  let ?ls = "request_lines encode target proxy"
  have ls: "?ls = hd ?ls # tl ?ls" by (simp add: request_lines_def)
  have plain: "list_all plain_line (hd ?ls # tl ?ls)"
    using request_lines_plain [OF nameable_plain(3) [OF assms(2)] assms(1)] ls by simp
  have hd: "hd ?ls = ascii ''CONNECT '' @ target @ ascii '' HTTP/1.1''" by (simp add: request_lines_def)
  have v: "utf8_valid (hd ?ls)"
    unfolding hd using assms(2) utf8_valid_ascii [of "ascii ''CONNECT ''"]
    by (simp add: nameable_def utf8_valid_append utf8_valid_ascii_Cons)
  have al: "is_ascii_alphabetic (hd (hd ?ls))" unfolding hd by (simp add: is_ascii_alphabetic_def)
  have so: "same_outcome (run_on (patient verify) (accept decode opts) c)
     (run_on (patient verify) (http_request decode opts (hd ?ls) (tl ?ls) payload) (c\<lparr>incoming := []\<rparr>))"
    by (rule accept_head [OF plain _ al _ v assms(4)])
      (use assms(5,6) ls in \<open>simp_all only: connect_request_lines append_assoc\<close>)
  then have "\<exists>rq c'. run_on (patient verify) (accept decode opts) c = (Some (Ok rq), c') \<and>
      rq\<lparr>rq_pipeline := []\<rparr> = http_seen opts target (socks5_auth proxy) [] \<and> rq_pipeline rq @ unread c' = payload \<and>
      outgoing c' = outgoing c"
    unfolding http_request_client [OF assms(2,1,3)]
    by (cases "run_on (patient verify) (accept decode opts) c" rule: prod.exhaust)
      (auto elim!: same_outcome.elims(2) simp: http_seen_def unread_def)
  moreover have "\<not> list_ex (\<lambda>b. byte_is_control b \<or> is_ascii_whitespace b) target" using assms(2) by (simp add: nameable_def)
  then have w: "run_on ans (http_connect_handshake encode target proxy) d =
      run_on ans (response_loop response_head_new) (d\<lparr>outgoing := outgoing d @ connect_request encode target proxy\<rparr>)"
    by (simp add: http_connect_handshake_def write_connect_request_def)
  moreover obtain d' where "run_on ans (response_loop response_head_new) (d\<lparr>outgoing := outgoing d @ connect_request encode target proxy\<rparr>) =
      (Some (http_client_result rep), d')" "unread d' = later"
    using response_loop_reply [of "d\<lparr>outgoing := outgoing d @ connect_request encode target proxy\<rparr>" rep later ans] assms(7) by auto
  moreover have "outgoing d' = outgoing d @ connect_request encode target proxy"
    using response_loop_reference [of ans response_head_new "d\<lparr>outgoing := outgoing d @ connect_request encode target proxy\<rparr>"]
      calculation(3) by (simp add: shows_as_def)
  ultimately show ?thesis by simp
qed

subsection \<open>Witness\<close>

text \<open>A codec with the required laws: two letters per byte.\<close>

definition letter :: "nat \<Rightarrow> byte" where
  "letter n = of_nat (65 + n)"

definition pair_encode :: "bytes \<Rightarrow> bytes" where
  "pair_encode s = concat (map (\<lambda>b. [letter (unat b div 16), letter (unat b mod 16)]) s)"

fun pair_decode :: "bytes \<Rightarrow> bytes option" where
  "pair_decode [] = Some []"
| "pair_decode [b] = None"
| "pair_decode (a # b # s) = map_option (Cons (of_nat ((unat a - 65) * 16 + (unat b - 65)))) (pair_decode s)"

lemma unat_letter: "n < 16 \<Longrightarrow> unat (letter n) = 65 + n"
  by (simp add: letter_def unat_of_nat del: of_nat_add)

lemma pair_codec_ok: "codec_ok pair_encode pair_decode"
proof -
  have d: "unat b div 16 < 16" for b :: byte using unsigned_less [of b, where ?'a = nat] by simp
  have "pair_decode (pair_encode s) = Some s" for s
    by (induction s) (simp_all add: pair_encode_def unat_letter d)
  moreover have "base64_char (letter n)" if "n < 16" for n
    using unat_letter [OF that] that
    by (simp add: base64_char_def is_ascii_alphanumeric_def is_ascii_alphabetic_def word_le_nat_alt)
  then have "list_all base64_char (pair_encode s)" for s
    by (induction s) (simp_all add: pair_encode_def d)
  ultimately show ?thesis by (simp add: codec_ok_def)
qed

lemma demo_nameable: "nameable (ascii ''example.org:443'')"
proof -
  have "host_port_parse (ascii ''example.org:443'') \<noteq> None"
    by (simp add: host_port_parse_def parse_u16_def parse_uint_def to_digit_def)
  then show ?thesis
    by (simp add: nameable_def utf8_valid_ascii_Cons byte_is_control_def is_ascii_whitespace_def)
qed

definition demo_proxy :: proxy_config where
  "demo_proxy = with_auth (proxy_http (ascii ''p'') 8080) (ascii ''u'') (ascii ''pw'')"

text \<open>The head in two segments with one byte of payload; the host forbids the target.\<close>

theorem http_client_meets_server_witness:
  "\<exists>rq c'. run_on (patient (\<lambda>c. cr_password c = ascii ''pw'')) (accept pair_decode (server_options_new False True))
       (demo_conn [[67], tl (connect_request pair_encode (ascii ''example.org:443'') demo_proxy), [7]]) = (Some (Ok rq), c') \<and>
     rq_target rq = ascii ''example.org:443'' \<and> rq_username rq = Some (ascii ''u'') \<and> rq_pipeline rq @ unread c' = [7]"
proof -
  let ?t = "ascii ''example.org:443''" and ?v = "\<lambda>c. cr_password c = ascii ''pw''" and ?o = "server_options_new False True"
  have auth: "socks5_auth demo_proxy = Some (ascii ''u'', ascii ''pw'')"
    by (simp add: socks5_auth_def demo_proxy_def proxy_http_def proxy_new_def)
  have acc: "http_acceptable ?o ?v (socks5_auth demo_proxy)"
    unfolding auth by (simp add: http_acceptable_def server_options_new_def credentials_new_def utf8_valid_ascii_Cons)
  have len: "length (connect_request pair_encode ?t demo_proxy) \<le> MAX_HEADER_BYTES"
    by (simp add: connect_request_def demo_proxy_def proxy_http_def proxy_new_def pair_encode_def MAX_HEADER_BYTES_def)
  have strict: "\<not> so_strict_http ?o" by (simp add: server_options_new_def)
  let ?c = "demo_conn [[67], tl (connect_request pair_encode ?t demo_proxy), [7]]" and ?d = "demo_conn [reply_bytes SrvHttp Forbidden]"
  have c: "unread ?c = connect_request pair_encode ?t demo_proxy @ [7]"
    by (simp add: demo_conn_def unread_def connect_request_def)
  have d: "unread ?d = reply_bytes SrvHttp Forbidden @ []" by (simp add: demo_conn_def unread_def)
  obtain rq c' where "run_on (patient ?v) (accept pair_decode ?o) ?c = (Some (Ok rq), c')"
      "rq\<lparr>rq_pipeline := []\<rparr> = http_seen ?o ?t (socks5_auth demo_proxy) []" "rq_pipeline rq @ unread c' = [7]"
    using http_client_meets_server [OF pair_codec_ok demo_nameable acc strict len c d] by blast
  moreover from this(2) have "rq_target rq = ?t \<and> rq_username rq = Some (ascii ''u'')"
    by (cases rq) (simp add: http_seen_def auth)
  ultimately show ?thesis by blast
qed

end
