(* ===== verification/AuthSpec.thy ===== *)
theory AuthSpec
  imports Auth
begin

text \<open>
  What authentication guarantees under every interleaving of concurrent calls and of edits of the users file:
  an invariant of the steps, by rule induction.
\<close>

subsection \<open>Invariant\<close>

text \<open>What Argon2 promises: a computed hash is accepted with its password, and is not the placeholder.\<close>

definition hasher_ok :: "(bytes \<Rightarrow> bytes \<Rightarrow> bool) \<Rightarrow> (bytes \<Rightarrow> bytes \<Rightarrow> bytes option) \<Rightarrow> bool" where
  "hasher_ok argon2_verify compute_hash \<longleftrightarrow>
     (\<forall>salt pw h. compute_hash salt pw = Some h \<longrightarrow> argon2_verify h pw \<and> h \<noteq> INIT_HASH)"

definition hash_at :: "auth_state \<Rightarrow> nat \<Rightarrow> bytes" where
  "hash_at s idx = u_hash (as_users s ! idx)"

definition enabled_at :: "auth_state \<Rightarrow> bytes \<Rightarrow> nat \<Rightarrow> bool" where
  "enabled_at s name idx \<longleftrightarrow> (\<exists>e. as_entries s name = Some e \<and> ue_enabled e \<and> ue_index e = idx)"

text \<open>A cache entry stands for a password that the committed hash of the account accepts.\<close>

definition vouched ::
  "(bytes \<Rightarrow> bytes \<Rightarrow> bytes) \<Rightarrow> (bytes \<Rightarrow> bytes \<Rightarrow> bool) \<Rightarrow> auth_state \<Rightarrow> bytes \<Rightarrow> bytes \<Rightarrow> bool" where
  "vouched mac argon2_verify s name v \<longleftrightarrow>
     (\<exists>idx pw. enabled_at s name idx \<and> v = compute_cache_hmac mac (as_secret s) name pw \<and>
        hash_at s idx \<noteq> INIT_HASH \<and> argon2_verify (hash_at s idx) pw)"

definition work_ok :: "(bytes \<Rightarrow> bytes \<Rightarrow> bytes) \<Rightarrow> (bytes \<Rightarrow> bytes \<Rightarrow> bytes option) \<Rightarrow> auth_state \<Rightarrow> bytes \<Rightarrow> bytes \<Rightarrow> claim_work \<Rightarrow> bool" where
  "work_ok mac compute_hash s name pw w \<longleftrightarrow>
     enabled_at s name (cw_index w) \<and> cw_name w = name \<and> cw_hmac w = compute_cache_hmac mac (as_secret s) name pw \<and>
     (\<exists>salt. compute_hash salt pw = Some (cw_hash w))"

fun call_ok ::
  "(bytes \<Rightarrow> bytes \<Rightarrow> bytes) \<Rightarrow> (bytes \<Rightarrow> bytes \<Rightarrow> bool) \<Rightarrow> (bytes \<Rightarrow> bytes \<Rightarrow> bytes option) \<Rightarrow> auth_state \<Rightarrow> nat \<Rightarrow> bytes \<Rightarrow> bytes \<Rightarrow> verify_phase \<Rightarrow> bool" where
  "call_ok mac V C s i name pw Begin = True"
| "call_ok mac V C s i name pw Queued = True"
| "call_ok mac V C s i name pw (Checking h) = (\<exists>idx. enabled_at s name idx \<and> hash_at s idx = h \<and> h \<noteq> INIT_HASH)"
| "call_ok mac V C s i name pw Hashing = (\<exists>idx. enabled_at s name idx)"
| "call_ok mac V C s i name pw (AtGate w) = work_ok mac C s name pw w"
| "call_ok mac V C s i name pw (Gated w) = work_ok mac C s name pw w"
| "call_ok mac V C s i name pw (Committing w) = work_ok mac C s name pw w"
| "call_ok mac V C s i name pw (Locked w) = (work_ok mac C s name pw w \<and> claim_lock s = Some i)"
| "call_ok mac V C s i name pw (Rechecked w) =
     (work_ok mac C s name pw w \<and> claim_lock s = Some i \<and> hash_at s (cw_index w) = INIT_HASH)"
| "call_ok mac V C s i name pw (Persisting w fallback) =
     (work_ok mac C s name pw w \<and> claim_lock s = Some i \<and> hash_at s (cw_index w) = INIT_HASH)"
| "call_ok mac V C s i name pw (Publishing w r) =
     (work_ok mac C s name pw w \<and> claim_lock s = Some i \<and> hash_at s (cw_index w) = INIT_HASH \<and>
      (case r of DiskHashChanged h \<Rightarrow> h \<noteq> INIT_HASH | _ \<Rightarrow> True))"
| "call_ok mac V C s i name pw (Published w) =
     (work_ok mac C s name pw w \<and> claim_lock s = Some i \<and> hash_at s (cw_index w) = cw_hash w)"
| "call_ok mac V C s i name pw (Finished ok) = (if ok then vouched mac V s name (compute_cache_hmac mac (as_secret s) name pw) else True)"

definition state_ok :: "(bytes \<Rightarrow> bytes \<Rightarrow> bytes) \<Rightarrow> (bytes \<Rightarrow> bytes \<Rightarrow> bool) \<Rightarrow> auth_state \<Rightarrow> bool" where
  "state_ok mac V s \<longleftrightarrow>
     (\<forall>n e. as_entries s n = Some e \<longrightarrow> ue_index e < length (as_users s)) \<and>
     (\<forall>n v. as_cache s n = Some v \<longrightarrow> vouched mac V s n v)"

definition auth_inv ::
  "(bytes \<Rightarrow> bytes \<Rightarrow> bytes) \<Rightarrow> (bytes \<Rightarrow> bytes \<Rightarrow> bool) \<Rightarrow> (bytes \<Rightarrow> bytes \<Rightarrow> bytes option) \<Rightarrow> system \<Rightarrow> bool" where
  "auth_inv mac V C y \<longleftrightarrow> state_ok mac V (sys_auth y) \<and>
     (\<forall>i. call_ok mac V C (sys_auth y) i (vc_name (sys_calls y i)) (vc_password (sys_calls y i)) (vc_phase (sys_calls y i)))"

text \<open>How the state may change: committed hashes stay, and nothing moves under another call's lock.\<close>

definition extends :: "auth_state \<Rightarrow> auth_state \<Rightarrow> bool" where
  "extends s t \<longleftrightarrow> as_entries t = as_entries s \<and> as_secret t = as_secret s \<and> length (as_users t) = length (as_users s) \<and>
     (\<forall>idx < length (as_users s). hash_at s idx \<noteq> INIT_HASH \<longrightarrow> hash_at t idx = hash_at s idx)"

definition spares :: "nat \<Rightarrow> auth_state \<Rightarrow> auth_state \<Rightarrow> bool" where
  "spares i s t \<longleftrightarrow> (\<forall>j. j \<noteq> i \<longrightarrow> claim_lock s = Some j \<longrightarrow> claim_lock t = Some j \<and> as_users t = as_users s)"

lemma extends_refl [simp]: "extends s s"
  by (simp add: extends_def)

lemma extends_trans: "extends s t \<Longrightarrow> extends t u \<Longrightarrow> extends s u"
  by (auto simp: extends_def)

lemma spares_refl [simp]: "spares i s s"
  by (simp add: spares_def)

lemma enabled_at_extends: "extends s t \<Longrightarrow> enabled_at t name idx = enabled_at s name idx"
  by (simp add: extends_def enabled_at_def)

lemma enabled_at_bound: "state_ok mac V s \<Longrightarrow> enabled_at s name idx \<Longrightarrow> idx < length (as_users s)"
  by (auto simp: state_ok_def enabled_at_def)

lemma committed_extends:
  "extends s t \<Longrightarrow> state_ok mac V s \<Longrightarrow> enabled_at s name idx \<Longrightarrow> hash_at s idx \<noteq> INIT_HASH \<Longrightarrow> hash_at t idx = hash_at s idx"
  using enabled_at_bound by (auto simp: extends_def)

lemma vouched_extends: "extends s t \<Longrightarrow> state_ok mac V s \<Longrightarrow> vouched mac V s name v \<Longrightarrow> vouched mac V t name v"
proof -
  assume a: "extends s t" "state_ok mac V s" "vouched mac V s name v"
  then obtain idx pw where v: "enabled_at s name idx" "v = compute_cache_hmac mac (as_secret s) name pw"
      "hash_at s idx \<noteq> INIT_HASH" "V (hash_at s idx) pw" by (auto simp: vouched_def)
  moreover have "hash_at t idx = hash_at s idx" by (rule committed_extends [OF a(1,2) v(1,3)])
  moreover have "as_secret t = as_secret s" using a(1) by (simp add: extends_def)
  ultimately show ?thesis using enabled_at_extends [OF a(1)] unfolding vouched_def by metis
qed

lemma work_ok_extends: "extends s t \<Longrightarrow> work_ok mac C t name pw w = work_ok mac C s name pw w"
  using enabled_at_extends by (auto simp: work_ok_def extends_def)

lemma call_ok_other:
  assumes "call_ok mac V C s j name pw p" "state_ok mac V s" "extends s t" "spares i s t" "j \<noteq> i"
  shows "call_ok mac V C t j name pw p"
proof -
  have lock: "claim_lock s = Some j \<Longrightarrow> claim_lock t = Some j \<and> as_users t = as_users s"
    using assms(4,5) by (simp add: spares_def)
  have secret: "as_secret t = as_secret s" using assms(3) by (simp add: extends_def)
  show ?thesis
  proof (cases p)
    case (Checking h)
    then show ?thesis using assms(1) committed_extends [OF assms(3,2)] enabled_at_extends [OF assms(3)] by auto
  next
    case (Finished ok)
    then show ?thesis using assms(1) vouched_extends [OF assms(3,2)] secret by auto
  qed (use assms(1) lock work_ok_extends [OF assms(3)] enabled_at_extends [OF assms(3)] in \<open>auto simp: hash_at_def\<close>)
qed

lemma goto_inv:
  assumes "auth_inv mac V C y" "extends (sys_auth y) s" "spares i (sys_auth y) s"
    and "\<And>n v. as_cache s n = Some v \<Longrightarrow> as_cache (sys_auth y) n = Some v \<or> vouched mac V s n v"
    and "call_ok mac V C s i (vc_name (sys_calls y i)) (vc_password (sys_calls y i)) p"
  shows "auth_inv mac V C (goto i p s y)"
proof -
  have ok: "state_ok mac V (sys_auth y)"
      "\<And>j. call_ok mac V C (sys_auth y) j (vc_name (sys_calls y j)) (vc_password (sys_calls y j)) (vc_phase (sys_calls y j))"
    using assms(1) by (auto simp: auth_inv_def)
  have "vouched mac V s n v" if "as_cache s n = Some v" for n v
    using assms(4) [OF that] ok(1) vouched_extends [OF assms(2) ok(1)] by (auto simp: state_ok_def)
  then have "state_ok mac V s" using ok(1) assms(2) by (auto simp: state_ok_def extends_def)
  moreover have "call_ok mac V C s j (vc_name (sys_calls (goto i p s y) j)) (vc_password (sys_calls (goto i p s y) j))
      (vc_phase (sys_calls (goto i p s y) j))" for j
    using assms(5) call_ok_other [OF ok(2) ok(1) assms(2,3)] by (cases "j = i") (auto simp: goto_def)
  ultimately show ?thesis by (simp add: auth_inv_def goto_def)
qed

subsection \<open>Every step keeps it\<close>

lemma extends_same: "as_entries t = as_entries s \<Longrightarrow> as_secret t = as_secret s \<Longrightarrow> as_users t = as_users s \<Longrightarrow> extends s t"
  by (simp add: extends_def hash_at_def)

lemma hash_at_set_hash:
  "hash_at (set_hash idx h s) j = (if j = idx \<and> idx < length (as_users s) then h else hash_at s j)"
  by (cases "idx < length (as_users s)") (auto simp: hash_at_def set_hash_def nth_list_update list_update_beyond)

lemma set_hash_fields [simp]:
  "as_entries (set_hash idx h s) = as_entries s" "as_secret (set_hash idx h s) = as_secret s"
  "as_cache (set_hash idx h s) = as_cache s" "claim_lock (set_hash idx h s) = claim_lock s"
  "length (as_users (set_hash idx h s)) = length (as_users s)"
  by (simp_all add: set_hash_def)

lemma unlock_fields [simp]:
  "as_entries (unlock n s) = as_entries s" "as_secret (unlock n s) = as_secret s" "as_cache (unlock n s) = as_cache s"
  "as_users (unlock n s) = as_users s" "claim_lock (unlock n s) = None" "hash_at (unlock n s) j = hash_at s j"
  by (simp_all add: unlock_def hash_at_def)

lemma set_hash_extends: "hash_at s idx = INIT_HASH \<Longrightarrow> extends s (set_hash idx h s)"
  by (auto simp: extends_def hash_at_set_hash)

lemma enabled_at_fields: "as_entries t = as_entries s \<Longrightarrow> enabled_at t = enabled_at s"
  by (rule ext)+ (simp add: enabled_at_def)

lemma claimed_hash_at: "claimed_hash_if_any s idx = (if hash_at s idx = INIT_HASH then None else Some (hash_at s idx))"
  by (simp add: claimed_hash_if_any_def hash_at_def)

lemma inv_call:
  assumes "auth_inv mac V C y" "vc_phase (sys_calls y i) = p"
  shows "call_ok mac V C (sys_auth y) i (vc_name (sys_calls y i)) (vc_password (sys_calls y i)) p" "state_ok mac V (sys_auth y)"
  using assms by (auto simp: auth_inv_def)

text \<open>Steps that only move the call on.\<close>

lemma goto_same_inv:
  "auth_inv mac V C y \<Longrightarrow> call_ok mac V C (sys_auth y) i (vc_name (sys_calls y i)) (vc_password (sys_calls y i)) p \<Longrightarrow>
    auth_inv mac V C (goto i p (sys_auth y) y)"
  by (rule goto_inv) auto

lemma verify_enter_ok:
  "state_ok mac V s \<Longrightarrow> call_ok mac V C s i name pw (verify_enter s name (compute_cache_hmac mac (as_secret s) name pw))"
  by (auto simp: verify_enter_def cache_matches_def state_ok_def)

lemma verify_prepare_ok:
  "state_ok mac V s \<Longrightarrow> call_ok mac V C s i name pw (verify_prepare s name (compute_cache_hmac mac (as_secret s) name pw))"
  by (auto simp: verify_prepare_def cache_matches_def state_ok_def enabled_at_def hash_at_def Let_def split: option.splits)

lemma prepare_claim_ok:
  assumes "enabled_at s name idx"
  shows "call_ok mac V C s i name pw (prepare_claim (C salt) s name pw (compute_cache_hmac mac (as_secret s) name pw))"
proof -
  obtain e where e: "as_entries s name = Some e" "ue_enabled e" "ue_index e = idx" using assms by (auto simp: enabled_at_def)
  show ?thesis using assms e
    by (auto simp: prepare_claim_def claimed_hash_at work_ok_def enabled_at_def split: option.splits)
qed

lemma check_inv:
  assumes "auth_inv mac V C y" "vc_phase (sys_calls y i) = Checking h"
    and "verify_against_committed V (sys_auth y) (vc_name (sys_calls y i)) h (vc_password (sys_calls y i)) (candidate_of mac y i) = (ok, s)"
  shows "auth_inv mac V C (goto i (Finished ok) s y) \<and> extends (sys_auth y) s"
proof (cases "V h (vc_password (sys_calls y i))")
  case True
  let ?s = "sys_auth y" and ?n = "vc_name (sys_calls y i)"
  have s: "ok = True" "s = ?s\<lparr>as_cache := (as_cache ?s)(?n \<mapsto> candidate_of mac y i)\<rparr>"
    using assms(3) True by (auto simp: verify_against_committed_def)
  have v: "vouched mac V ?s ?n (candidate_of mac y i)"
    using inv_call(1) [OF assms(1,2)] True by (auto simp: vouched_def candidate_of_def)
  have x: "extends ?s s" by (rule extends_same) (simp_all add: s)
  then have vs: "vouched mac V s ?n (candidate_of mac y i)" using vouched_extends v inv_call(2) [OF assms(1,2)] by blast
  have "auth_inv mac V C (goto i (Finished ok) s y)"
  proof (rule goto_inv [OF assms(1) x])
    show "spares i ?s s" by (simp add: spares_def s)
    show "call_ok mac V C s i ?n (vc_password (sys_calls y i)) (Finished ok)" using vs by (simp add: candidate_of_def s)
  qed (use vs in \<open>auto simp: s split: if_splits\<close>)
  with x show ?thesis by blast
next
  case False
  then show ?thesis using assms(3) goto_same_inv [OF assms(1)] by (auto simp: verify_against_committed_def)
qed

lemma publish_inv:
  assumes "auth_inv mac V C y" "hasher_ok V C" "vc_phase (sys_calls y i) = Publishing w r"
    and "commit_publish (sys_auth y) w r = (p, s)"
  shows "auth_inv mac V C (goto i p s y) \<and> extends (sys_auth y) s"
proof -
  let ?s = "sys_auth y" and ?n = "vc_name (sys_calls y i)" and ?pw = "vc_password (sys_calls y i)"
  have c: "work_ok mac C ?s ?n ?pw w" "claim_lock ?s = Some i" "hash_at ?s (cw_index w) = INIT_HASH"
      "\<And>h. r = DiskHashChanged h \<Longrightarrow> h \<noteq> INIT_HASH" and ok: "state_ok mac V ?s"
    using inv_call [OF assms(1,3)] by auto
  have idx: "cw_index w < length (as_users ?s)" "enabled_at ?s ?n (cw_index w)"
    using c(1) enabled_at_bound [OF ok] by (auto simp: work_ok_def)
  have x: "extends ?s s"
    using assms(4) set_hash_extends [OF c(3)] by (auto simp: commit_publish_def extends_def hash_at_def split: claim_persist.splits)
  have "call_ok mac V C s i ?n ?pw p"
  proof (cases r)
    case Written
    then have "s = set_hash (cw_index w) (cw_hash w) ?s" "p = Published w" using assms(4) by (auto simp: commit_publish_def)
    then show ?thesis using c(1,2) idx work_ok_extends [OF x] by (simp add: hash_at_set_hash)
  next
    case (DiskHashChanged h)
    then have "s = unlock (cw_name w) (set_hash (cw_index w) h ?s)" "p = Checking h" using assms(4) by (auto simp: commit_publish_def)
    then show ?thesis using c(4) [OF DiskHashChanged] idx enabled_at_extends [OF x] by (auto simp: hash_at_set_hash intro!: exI [of _ "cw_index w"])
  next
    case (PersistFailed f)
    then show ?thesis using assms(4) by (auto simp: commit_publish_def)
  qed
  moreover have "spares i ?s s" using c(2) by (simp add: spares_def)
  moreover have "as_cache s = as_cache ?s" using assms(4) by (auto simp: commit_publish_def split: claim_persist.splits)
  ultimately have "auth_inv mac V C (goto i p s y)" by (intro goto_inv [OF assms(1) x]) auto
  with x show ?thesis by blast
qed

lemma cache_inv:
  assumes "auth_inv mac V C y" "hasher_ok V C" "vc_phase (sys_calls y i) = Published w" "commit_cache (sys_auth y) w = (p, s)"
  shows "auth_inv mac V C (goto i p s y) \<and> extends (sys_auth y) s"
proof -
  let ?s = "sys_auth y" and ?n = "vc_name (sys_calls y i)" and ?pw = "vc_password (sys_calls y i)"
  have c: "work_ok mac C ?s ?n ?pw w" "claim_lock ?s = Some i" "hash_at ?s (cw_index w) = cw_hash w" and ok: "state_ok mac V ?s"
    using inv_call [OF assms(1,3)] by auto
  have s: "p = Finished True" "s = unlock (cw_name w) (?s\<lparr>as_cache := (as_cache ?s)(cw_name w \<mapsto> cw_hmac w)\<rparr>)"
    using assms(4) by (auto simp: commit_cache_def)
  have v: "vouched mac V ?s ?n (cw_hmac w)" "cw_name w = ?n" "cw_hmac w = compute_cache_hmac mac (as_secret ?s) ?n ?pw"
    using c(1,3) assms(2) unfolding vouched_def work_ok_def hasher_ok_def by metis+
  have x: "extends ?s s" by (rule extends_same) (simp_all add: s)
  have vs: "vouched mac V s ?n (cw_hmac w)" by (rule vouched_extends [OF x ok v(1)])
  have "auth_inv mac V C (goto i p s y)"
  proof (rule goto_inv [OF assms(1) x])
    show "spares i ?s s" using c(2) by (simp add: spares_def)
    show "call_ok mac V C s i ?n ?pw p" using vs v(3) by (simp add: s)
  qed (use vs v(2) in \<open>auto simp: s split: if_splits\<close>)
  with x show ?thesis by blast
qed

lemma recheck_inv:
  assumes "auth_inv mac V C y" "vc_phase (sys_calls y i) = Locked w" "commit_recheck (sys_auth y) w = (p, s)"
  shows "auth_inv mac V C (goto i p s y) \<and> extends (sys_auth y) s"
proof -
  let ?s = "sys_auth y" and ?n = "vc_name (sys_calls y i)" and ?pw = "vc_password (sys_calls y i)"
  have c: "work_ok mac C ?s ?n ?pw w" "claim_lock ?s = Some i" using inv_call(1) [OF assms(1,2)] by auto
  have x: "extends ?s s"
    by (rule extends_same) (use assms(3) in \<open>auto simp: commit_recheck_def split: option.splits\<close>)
  have h: "hash_at s = hash_at ?s" "as_cache s = as_cache ?s" using assms(3) by (auto simp: commit_recheck_def split: option.splits)
  have "call_ok mac V C s i ?n ?pw p"
  proof (cases "hash_at ?s (cw_index w) = INIT_HASH")
    case True
    then have "p = Rechecked w" "s = ?s" using assms(3) by (simp_all add: commit_recheck_def claimed_hash_at)
    then show ?thesis using c True by simp
  next
    case False
    then have "p = Checking (hash_at ?s (cw_index w))" using assms(3) by (simp add: commit_recheck_def claimed_hash_at)
    then show ?thesis using c(1) False h(1) enabled_at_extends [OF x] by (auto simp: work_ok_def)
  qed
  moreover have "spares i ?s s" using c(2) by (simp add: spares_def)
  ultimately have "auth_inv mac V C (goto i p s y)" using h(2) by (intro goto_inv [OF assms(1) x]) auto
  with x show ?thesis by blast
qed

text \<open>Steps that change only the gates or take the free lock.\<close>

lemma goto_gates_inv:
  assumes "auth_inv mac V C y" "call_ok mac V C (sys_auth y) i (vc_name (sys_calls y i)) (vc_password (sys_calls y i)) p"
    "\<And>w. p \<noteq> Published w"
  shows "auth_inv mac V C (goto i p ((sys_auth y)\<lparr>claim_gates := g\<rparr>) y) \<and> extends (sys_auth y) ((sys_auth y)\<lparr>claim_gates := g\<rparr>)"
proof -
  let ?t = "(sys_auth y)\<lparr>claim_gates := g\<rparr>"
  have x: "extends (sys_auth y) ?t" by (rule extends_same) simp_all
  have e: "enabled_at ?t = enabled_at (sys_auth y)" by (rule enabled_at_fields) simp
  have "call_ok mac V C ?t i (vc_name (sys_calls y i)) (vc_password (sys_calls y i)) p"
    using assms(2) by (cases p) (auto simp: work_ok_def vouched_def hash_at_def e split: if_splits)
  then have "auth_inv mac V C (goto i p ?t y)"
    by (intro goto_inv [OF assms(1) x]) (auto simp: spares_def)
  with x show ?thesis by blast
qed

lemma persist_claim_changed: "persist_claim io disk name h fb = (DiskHashChanged g, disk') \<Longrightarrow> g \<noteq> INIT_HASH"
  by (auto simp: persist_claim_def write_atomic_def split: if_splits option.splits prod.splits bool.splits write_result.splits)

lemma auth_inv_disk: "auth_inv mac V C (y\<lparr>sys_disk := d\<rparr>) = auth_inv mac V C y"
  by (simp add: auth_inv_def)

lemma sys_auth_goto [simp]: "sys_auth (goto i p s y) = s"
  by (simp add: goto_def)

lemma auth_step_inv:
  "auth_step mac V C y z \<Longrightarrow> hasher_ok V C \<Longrightarrow> auth_inv mac V C y \<Longrightarrow> auth_inv mac V C z \<and> extends (sys_auth y) (sys_auth z)"
proof (induction rule: auth_step.induct)
  case (enter y i)
  then show ?case using goto_same_inv [OF enter(3)] verify_enter_ok [OF inv_call(2) [OF enter(3,1)]] by (simp add: candidate_of_def)
next
  case (prepare y i)
  then show ?case using goto_same_inv [OF prepare(3)] verify_prepare_ok [OF inv_call(2) [OF prepare(3,1)]] by (simp add: candidate_of_def)
next
  case (check y i h ok s)
  then show ?case using check_inv [OF check(4,1,2)] by simp
next
  case (hash y i salt)
  then obtain idx where "enabled_at (sys_auth y) (vc_name (sys_calls y i)) idx" using inv_call(1) by fastforce
  then show ?case using goto_same_inv [OF hash(3)] prepare_claim_ok by (simp add: candidate_of_def)
next
  case (gate y i w)
  then show ?case using goto_gates_inv [of mac V C y i "Gated w"] inv_call(1) [of mac V C y i] by simp
next
  case (gated_committed y i w h)
  then show ?case using goto_gates_inv [of mac V C y i "Checking h"] inv_call(1) [of mac V C y i]
    by (auto simp: claimed_hash_at work_ok_def split: if_splits)
next
  case (gated_open y i w)
  then show ?case using goto_same_inv [of mac V C y i "Committing w"] inv_call(1) [of mac V C y i] by simp
next
  case (lock y i w)
  let ?t = "(sys_auth y)\<lparr>claim_lock := Some i\<rparr>"
  have x: "extends (sys_auth y) ?t" by (rule extends_same) simp_all
  have "call_ok mac V C ?t i (vc_name (sys_calls y i)) (vc_password (sys_calls y i)) (Locked w)"
    using inv_call(1) [OF lock(4,1)] work_ok_extends [OF x] by simp
  then have "auth_inv mac V C (goto i (Locked w) ?t y)" using lock by (intro goto_inv [OF lock(4) x]) (auto simp: spares_def)
  then show ?case using x by simp
next
  case (recheck y i w p s)
  then show ?case using recheck_inv [OF recheck(4,1,2)] by simp
next
  case (snapshot y i w)
  then show ?case using goto_same_inv [OF snapshot(3)] inv_call(1) [OF snapshot(3,1)] by (simp add: commit_snapshot_def)
next
  case (persist y i w fallback io r disk)
  then have "auth_inv mac V C (goto i (Publishing w r) (sys_auth (y\<lparr>sys_disk := disk\<rparr>)) (y\<lparr>sys_disk := disk\<rparr>))"
    using inv_call(1) [OF persist(4,1)] persist_claim_changed [of io "sys_disk y" "cw_name w" "cw_hash w" fallback]
    by (intro goto_same_inv) (auto simp: auth_inv_disk split: claim_persist.splits)
  then show ?case by simp
next
  case (publish y i w r p s)
  then show ?case using publish_inv [OF publish(4,3,1,2)] by simp
next
  case (cache y i w p s)
  then show ?case using cache_inv [OF cache(4,3,1,2)] by simp
next
  case (cancel_gated y i w)
  then show ?case using goto_gates_inv [of mac V C y i "Finished False"] by simp
next
  case (edit y disk)
  then show ?case by (simp add: auth_inv_disk)
qed

lemma auth_steps_inv:
  assumes "(auth_step mac V C)\<^sup>*\<^sup>* y z" "hasher_ok V C" "auth_inv mac V C y"
  shows "auth_inv mac V C z \<and> extends (sys_auth y) (sys_auth z)"
  using assms(1)
proof (induction rule: rtranclp_induct)
  case (step z w)
  then show ?case using auth_step_inv [OF step(2) assms(2)] extends_trans by blast
qed (use assms(3) in simp)

lemma build_entries_bound:
  "build_entries k us es = Ok es' \<Longrightarrow> (\<And>n e. es n = Some e \<Longrightarrow> ue_index e < k) \<Longrightarrow> es' n = Some e \<Longrightarrow> ue_index e < k + length us"
proof (induction k us es arbitrary: es' rule: build_entries.induct)
  case (2 k u us es)
  then obtain a where a: "(case u_allowed u of None \<Rightarrow> Ok None | Some spec \<Rightarrow> map_sum id Some (compile_allowed_clients spec)) = Ok a"
    by (auto split: sum.splits)
  let ?es = "case es (u_name u) of Some _ \<Rightarrow> es | None \<Rightarrow> es(u_name u \<mapsto>
      \<lparr>ue_index = k, ue_enabled = u_enabled u, ue_direct = u_direct u, ue_allowed = a\<rparr>)"
  have b: "ue_index e < k + 1" if "?es n = Some e" for n e
    using that 2(3) [of n e] by (auto split: option.splits if_splits)
  have "build_entries (k + 1) us ?es = Ok es'" using 2(2) a by simp
  then have "ue_index e < k + 1 + length us" by (rule 2(1) [OF a, of es']) (use b 2(4) in blast)+
  then show ?case by simp
qed auto

lemma auth_build_inv:
  assumes "auth_build anon secret us = Ok (sys_auth y)" "\<And>i. vc_phase (sys_calls y i) = Begin"
  shows "auth_inv mac V C y"
proof -
  obtain es where es: "build_entries 0 us Map.empty = Ok es" "as_entries (sys_auth y) = es" "as_users (sys_auth y) = us"
      "as_cache (sys_auth y) = Map.empty"
    using assms(1) by (cases "build_entries 0 us Map.empty") (auto simp: auth_build_def dest!: sym [of _ "sys_auth y"])
  have "ue_index e < length us" if "es n = Some e" for n e
    using build_entries_bound [OF es(1) _ that] by simp
  then show ?thesis using es(2-4) assms(2) by (simp add: auth_inv_def state_ok_def)
qed

subsection \<open>Only offered passwords matter\<close>

text \<open>A run asks Argon2 only about the passwords of its calls, so it is a run of every oracle that agrees on them.\<close>

lemma passwords_stay: "auth_step mac V C y z \<Longrightarrow> vc_password (sys_calls z i) = vc_password (sys_calls y i)"
  by (cases rule: auth_step.cases) (auto simp: goto_def)

lemma offered_step:
  "auth_step mac V C y z \<Longrightarrow> (\<And>i. vc_password (sys_calls y i) \<in> P) \<Longrightarrow>
    auth_step mac (\<lambda>h pw. pw \<in> P \<and> V h pw) (\<lambda>salt pw. if pw \<in> P then C salt pw else None) y z"
proof (induction rule: auth_step.induct)
  case (check y i h ok s)
  then show ?case by (intro auth_step.check) (auto simp: verify_against_committed_def)
next
  case (hash y i salt)
  let ?C = "\<lambda>salt pw. if pw \<in> P then C salt pw else None"
  have "prepare_claim (?C salt) (sys_auth y) (vc_name (sys_calls y i)) (vc_password (sys_calls y i)) (candidate_of mac y i) =
      prepare_claim (C salt) (sys_auth y) (vc_name (sys_calls y i)) (vc_password (sys_calls y i)) (candidate_of mac y i)"
    using hash(2) [of i] by (simp add: prepare_claim_def)
  with auth_step.hash [OF hash(1), of mac _ ?C salt] show ?case by simp
qed (auto intro: auth_step.intros)

lemma offered_steps:
  assumes "(auth_step mac V C)\<^sup>*\<^sup>* y z" "\<And>i. vc_password (sys_calls y i) \<in> P"
  shows "(auth_step mac (\<lambda>h pw. pw \<in> P \<and> V h pw) (\<lambda>salt pw. if pw \<in> P then C salt pw else None))\<^sup>*\<^sup>* y z \<and>
    (\<forall>i. vc_password (sys_calls z i) = vc_password (sys_calls y i))"
  using assms(1)
proof (induction rule: rtranclp_induct)
  case (step z w)
  then have "\<And>i. vc_password (sys_calls z i) \<in> P" using assms(2) by simp
  from offered_step [OF step(2) this] passwords_stay [OF step(2)] step(3) show ?case
    using rtranclp.rtrancl_into_rtrancl by (metis (no_types, lifting))
qed simp

lemma hasher_ok_offered:
  "hasher_ok V C \<Longrightarrow> hasher_ok (\<lambda>h pw. pw \<in> P \<and> V h pw) (\<lambda>salt pw. if pw \<in> P then C salt pw else None)"
  by (simp add: hasher_ok_def)

lemma login_offered:
  assumes "hasher_ok V C" "auth_build anon secret us = Ok (sys_auth y0)" "\<And>i. vc_phase (sys_calls y0 i) = Begin"
    and "(auth_step mac V C)\<^sup>*\<^sup>* y0 y" "vc_phase (sys_calls y i) = Finished True"
  shows "\<exists>idx j. enabled_at (sys_auth y) (vc_name (sys_calls y i)) idx \<and> hash_at (sys_auth y) idx \<noteq> INIT_HASH \<and>
    candidate_of mac y i = compute_cache_hmac mac (as_secret (sys_auth y)) (vc_name (sys_calls y i)) (vc_password (sys_calls y j)) \<and>
    V (hash_at (sys_auth y) idx) (vc_password (sys_calls y j))"
proof -
  let ?P = "range (\<lambda>j. vc_password (sys_calls y0 j))"
  let ?V = "\<lambda>h pw. pw \<in> ?P \<and> V h pw" and ?C = "\<lambda>salt pw. if pw \<in> ?P then C salt pw else None"
  have run: "(auth_step mac ?V ?C)\<^sup>*\<^sup>* y0 y" and same: "vc_password (sys_calls y j) = vc_password (sys_calls y0 j)" for j
    using offered_steps [OF assms(4), of ?P] by auto
  have "auth_inv mac ?V ?C y"
    using auth_steps_inv [OF run hasher_ok_offered [OF assms(1)] auth_build_inv [OF assms(2,3)]] by blast
  from inv_call(1) [OF this assms(5)] same show ?thesis by (auto simp: vouched_def candidate_of_def)
qed

subsection \<open>Properties\<close>

text \<open>C17: Under every interleaving of concurrent logins, claims and edits of the users file, a login succeeds
  only for an enabled user of a claimed account, and only with a password that the account's committed hash
  accepts, unless the HMAC collides: a wrong password is let in only when its tag, over the user's name and the
  password, equals that of a different password that another call offered and that the committed hash accepts.
  The cache never lets in anybody else. A committed hash never changes again, so the first claim of an account
  wins.\<close>

theorem login_needs_the_committed_password:
  assumes "hasher_ok argon2_verify compute_hash"
    and "auth_build anon secret us = Ok (sys_auth y0)" "\<forall>i. vc_phase (sys_calls y0 i) = Begin"
    and "(auth_step mac argon2_verify compute_hash)\<^sup>*\<^sup>* y0 y" "(auth_step mac argon2_verify compute_hash)\<^sup>*\<^sup>* y z"
  shows "(vc_phase (sys_calls y i) = Finished True \<longrightarrow>
      (let s = sys_auth y; name = vc_name (sys_calls y i); pw = vc_password (sys_calls y i)
       in \<exists>idx. enabled_at s name idx \<and> hash_at s idx \<noteq> INIT_HASH \<and>
            (argon2_verify (hash_at s idx) pw \<or>
             (\<exists>j. let pw' = vc_password (sys_calls y j)
                  in pw' \<noteq> pw \<and> mac (as_secret s) (name @ [0] @ pw') = mac (as_secret s) (name @ [0] @ pw) \<and>
                     argon2_verify (hash_at s idx) pw')))) \<and>
    (vc_phase (sys_calls y i) = Finished True \<longrightarrow>
      vouched mac argon2_verify (sys_auth y) (vc_name (sys_calls y i)) (candidate_of mac y i)) \<and>
    (idx < length (as_users (sys_auth y)) \<longrightarrow> hash_at (sys_auth y) idx \<noteq> INIT_HASH \<longrightarrow>
      hash_at (sys_auth z) idx = hash_at (sys_auth y) idx)"
proof -
  have "auth_inv mac argon2_verify compute_hash y0" using auth_build_inv [OF assms(2)] assms(3) by blast
  then have y: "auth_inv mac argon2_verify compute_hash y" using auth_steps_inv [OF assms(4,1)] by blast
  have x: "extends (sys_auth y) (sys_auth z)" using auth_steps_inv [OF assms(5,1) y] by blast
  have "call_ok mac argon2_verify compute_hash (sys_auth y) i (vc_name (sys_calls y i)) (vc_password (sys_calls y i)) (vc_phase (sys_calls y i))"
    using y by (auto simp: auth_inv_def)
  moreover have begin_: "vc_phase (sys_calls y0 k) = Begin" for k using assms(3) by blast
  note login = login_offered [OF assms(1,2) begin_ assms(4), of i, unfolded candidate_of_def compute_cache_hmac_def]
  have "vc_phase (sys_calls y i) = Finished True \<longrightarrow>
      (let s = sys_auth y; name = vc_name (sys_calls y i); pw = vc_password (sys_calls y i)
       in \<exists>idx. enabled_at s name idx \<and> hash_at s idx \<noteq> INIT_HASH \<and>
            (argon2_verify (hash_at s idx) pw \<or>
             (\<exists>j. let pw' = vc_password (sys_calls y j)
                  in pw' \<noteq> pw \<and> mac (as_secret s) (name @ [0] @ pw') = mac (as_secret s) (name @ [0] @ pw) \<and>
                     argon2_verify (hash_at s idx) pw')))"
    unfolding Let_def using login by metis
  ultimately show ?thesis using x by (auto simp: candidate_of_def extends_def)
qed

definition demo_user :: user where
  "demo_user = \<lparr>u_name = [97], u_hash = INIT_HASH, u_enabled = True, u_direct = False, u_allowed = None\<rparr>"

definition demo_hash :: "bytes \<Rightarrow> bytes \<Rightarrow> bytes option" where
  "demo_hash salt pw = Some (36 # salt @ pw)"

definition demo_verify :: "bytes \<Rightarrow> bytes \<Rightarrow> bool" where
  "demo_verify h pw \<longleftrightarrow> h \<noteq> INIT_HASH \<and> drop (length h - length pw) h = pw"

definition demo_auth :: "bytes \<Rightarrow> auth_state" where
  "demo_auth h = \<lparr>as_users = [demo_user\<lparr>u_hash := h\<rparr>],
     as_entries = [[97] \<mapsto> \<lparr>ue_index = 0, ue_enabled = True, ue_direct = False, ue_allowed = None\<rparr>],
     as_anonymous = False, as_secret = [1], as_cache = Map.empty, claim_lock = None, claim_gates = Map.empty\<rparr>"

definition demo_system :: "bytes \<Rightarrow> system" where
  "demo_system h = \<lparr>sys_auth = demo_auth h, sys_disk = Some [demo_user],
     sys_calls = (\<lambda>_. \<lparr>vc_name = [97], vc_password = [98], vc_phase = Begin\<rparr>)\<rparr>"

lemmas demo_defs = demo_system_def demo_auth_def demo_user_def demo_hash_def demo_verify_def INIT_HASH_def

lemma demo_hasher: "hasher_ok demo_verify demo_hash"
  by (auto simp: hasher_ok_def demo_defs)

text \<open>A login with the committed hash: three steps of one call.\<close>

definition demo_logged_in :: system where
  "demo_logged_in = goto 0 (Finished True) ((demo_auth [36, 98])\<lparr>as_cache := [[97] \<mapsto> [1, 97, 0, 98]]\<rparr>)
     (goto 0 (Checking [36, 98]) (demo_auth [36, 98]) (goto 0 Queued (demo_auth [36, 98]) (demo_system [36, 98])))"

lemma demo_run: "(auth_step append demo_verify demo_hash)\<^sup>*\<^sup>* (demo_system [36, 98]) demo_logged_in"
proof -
  let ?s = "demo_auth [36, 98]" and ?S = "auth_step append demo_verify demo_hash"
  let ?y0 = "demo_system [36, 98]" let ?y1 = "goto 0 Queued ?s ?y0" let ?y2 = "goto 0 (Checking [36, 98]) ?s ?y1"
  have 1: "?S ?y0 ?y1"
    using auth_step.enter [of ?y0 0 append demo_verify demo_hash]
    by (simp add: verify_enter_def cache_matches_def demo_defs)
  have 2: "?S ?y1 ?y2"
    using auth_step.prepare [of ?y1 0 append demo_verify demo_hash]
    by (simp add: verify_prepare_def cache_matches_def demo_defs goto_def)
  have 3: "?S ?y2 demo_logged_in" unfolding demo_logged_in_def
    by (rule auth_step.check [of _ _ "[36, 98]"])
      (simp_all add: verify_against_committed_def candidate_of_def compute_cache_hmac_def demo_defs goto_def)
  have "?S\<^sup>*\<^sup>* ?y0 ?y1" using 1 by (rule r_into_rtranclp)
  then have "?S\<^sup>*\<^sup>* ?y0 ?y2" using 2 by (rule rtranclp.rtrancl_into_rtrancl)
  then show ?thesis using 3 by (rule rtranclp.rtrancl_into_rtrancl)
qed

text \<open>With a tag that determines what it is computed from, Argon2 accepts the password of the login.\<close>

theorem login_needs_the_committed_password_witness:
  "vc_phase (sys_calls demo_logged_in 0) = Finished True \<and>
   demo_verify (hash_at (sys_auth demo_logged_in) 0) (vc_password (sys_calls demo_logged_in 0)) \<and>
   vouched append demo_verify (sys_auth demo_logged_in) (vc_name (sys_calls demo_logged_in 0)) (candidate_of append demo_logged_in 0)"
proof -
  have b: "auth_build False [1] [demo_user\<lparr>u_hash := [36, 98]\<rparr>] = Ok (sys_auth (demo_system [36, 98]))"
    by (simp add: auth_build_def demo_defs)
  have p: "\<forall>i. vc_phase (sys_calls (demo_system [36, 98]) i) = Begin" by (simp add: demo_system_def)
  have f: "vc_phase (sys_calls demo_logged_in 0) = Finished True" by (simp add: demo_logged_in_def goto_def)
  note t = login_needs_the_committed_password [OF demo_hasher b p demo_run rtranclp.rtrancl_refl, of 0]
  then obtain idx where "enabled_at (sys_auth demo_logged_in) (vc_name (sys_calls demo_logged_in 0)) idx"
      "demo_verify (hash_at (sys_auth demo_logged_in) idx) (vc_password (sys_calls demo_logged_in 0))"
    using f by (auto simp: Let_def)
  moreover from this(1) have "idx = 0" by (simp add: enabled_at_def demo_logged_in_def goto_def demo_defs split: if_splits)
  ultimately show ?thesis using t f by blast
qed

text \<open>The file may hold the new hash although the claim is reported as failed: a write that fails after the
  replacement has taken effect is taken for one that wrote nothing.\<close>

lemma failed_claim_may_be_on_disk:
  "persist_claim \<lparr>io_lock = True, io_read = True, io_write = WriteUndetermined\<rparr> (Some [demo_user]) [97] [36] None =
     (PersistFailed WriteError, Some [demo_user\<lparr>u_hash := [36]\<rparr>])"
  by (simp add: persist_claim_def write_atomic_def demo_user_def)

end
