(* ===== verification/PoolSpec.thy ===== *)
theory PoolSpec
  imports Pool
begin

text \<open>
  The accounting of the pool: permits are neither lost nor made, so the cap bounds the sockets to each
  upstream, and each endpoint has one refill task.
\<close>

declare split_paired_All [simp del] split_paired_Ex [simp del]

subsection \<open>The ledger\<close>

definition gen_permits :: "generation \<Rightarrow> permit multiset" where
  "gen_permits g = mset (map pw_permit (g_queue g)) + (case g_phase g of Connecting p \<Rightarrow> {#p#} | _ \<Rightarrow> {#})"

definition pool_permits :: "proxy_pool \<Rightarrow> permit multiset" where
  "pool_permits s = sum_list (map gen_permits (gens s))"

definition all_permits :: "pool_sys \<Rightarrow> permit multiset" where
  "all_permits y = pool_permits (ps_pool y) + ps_dialing y + \<Sum>\<^sub># (image_mset (\<lambda>u. mset (stream_permits u)) (ps_conns y))"

text \<open>The free permits of a semaphore and the ones in use make up the cap.\<close>

definition balanced :: "proxy_pool \<Rightarrow> permit multiset \<Rightarrow> bool" where
  "balanced s M \<longleftrightarrow> (\<forall>g < length (sems s). sems s ! g + count M g = max_per_upstream s) \<and> (\<forall>p \<in># M. p < length (sems s))"

lemma balanced_sems: "sems t = sems s \<Longrightarrow> max_per_upstream t = max_per_upstream s \<Longrightarrow> balanced t M = balanced s M"
  by (simp add: balanced_def)

lemma balanced_release: "balanced s (add_mset p M) \<Longrightarrow> balanced (release p s) M"
  by (auto simp: balanced_def release_def nth_list_update)

lemma balanced_releases: "balanced s (mset ps + M) \<Longrightarrow> balanced (fold release ps s) M"
  by (induction ps arbitrary: s) (auto intro: balanced_release)

lemma try_acquire_Some:
  assumes "try_acquire g s = (Some p, t)" "g < length (sems s)" "balanced s M"
  shows "p = g" "balanced t (add_mset p M)"
  using assms by (auto simp: try_acquire_def balanced_def nth_list_update split: if_splits)

lemma try_acquire_None: "try_acquire g s = (None, t) \<Longrightarrow> t = s \<and> sems s ! g = 0"
  by (auto simp: try_acquire_def split: if_splits)

text \<open>What does not concern the semaphores.\<close>

lemma release_fields [simp]:
  "gens (release p s) = gens s" "pools (release p s) = pools s" "upstream_caps (release p s) = upstream_caps s"
  "refill_tasks (release p s) = refill_tasks s" "max_per_upstream (release p s) = max_per_upstream s"
  "pp_config (release p s) = pp_config s" "length (sems (release p s)) = length (sems s)"
  by (simp_all add: release_def)

lemma releases_fields [simp]:
  "gens (fold release ps s) = gens s" "pools (fold release ps s) = pools s" "upstream_caps (fold release ps s) = upstream_caps s"
  "refill_tasks (fold release ps s) = refill_tasks s" "max_per_upstream (fold release ps s) = max_per_upstream s"
  "pp_config (fold release ps s) = pp_config s" "length (sems (fold release ps s)) = length (sems s)"
  by (induction ps arbitrary: s) simp_all

lemma set_gen_fields [simp]:
  "pools (set_gen i g s) = pools s" "upstream_caps (set_gen i g s) = upstream_caps s" "refill_tasks (set_gen i g s) = refill_tasks s"
  "max_per_upstream (set_gen i g s) = max_per_upstream s" "pp_config (set_gen i g s) = pp_config s" "sems (set_gen i g s) = sems s"
  "gens (set_gen i g s) = (gens s)[i := g]"
  by (simp_all add: set_gen_def)

lemma balanced_set_gen [simp]: "balanced (set_gen i g s) M = balanced s M"
  by (simp add: balanced_def)

lemma pool_permits_cong: "gens t = gens s \<Longrightarrow> pool_permits t = pool_permits s"
  by (simp add: pool_permits_def)

lemma sum_update:
  "i < length xs \<Longrightarrow> sum_list (map f (xs[i := x])) + f (xs ! i) = sum_list (map f xs) + (f x :: permit multiset)"
  by (induction xs arbitrary: i) (auto split: nat.splits simp: ac_simps)

lemma permits_set_gen:
  "i < length (gens s) \<Longrightarrow> pool_permits (set_gen i g s) + gen_permits (gens s ! i) = pool_permits s + gen_permits g"
  using sum_update [of i "gens s" gen_permits g] by (simp add: pool_permits_def)

lemma permits_set_gen_same:
  "i < length (gens s) \<Longrightarrow> gen_permits g = gen_permits (gens s ! i) \<Longrightarrow> pool_permits (set_gen i g s) = pool_permits s"
  using permits_set_gen [of i s g] by simp

lemma permits_set_gen_less:
  "i < length (gens s) \<Longrightarrow> gen_permits (gens s ! i) = gen_permits g + N \<Longrightarrow> pool_permits s = pool_permits (set_gen i g s) + N"
  using permits_set_gen [of i s g] by (simp add: ac_simps)

lemma permits_set_gen_more:
  "i < length (gens s) \<Longrightarrow> gen_permits g = gen_permits (gens s ! i) + N \<Longrightarrow> pool_permits (set_gen i g s) = pool_permits s + N"
  using permits_set_gen [of i s g] by (simp add: ac_simps)

subsection \<open>Structure\<close>

definition gen_ok :: "proxy_pool \<Rightarrow> nat \<Rightarrow> generation \<Rightarrow> bool" where
  "gen_ok s i g \<longleftrightarrow> g_sem g < length (sems s) \<and> length (g_queue g) \<le> g_target g \<and> g_target g \<le> max_per_upstream s \<and>
     list_all (\<lambda>pw. pw_permit pw = g_sem g) (g_queue g) \<and>
     (\<forall>p. g_phase g = Connecting p \<longrightarrow> p = g_sem g) \<and>
     (\<not> g_aborted g \<longrightarrow> pools s (g_key g) = Some i)"

definition pool_ok :: "proxy_pool \<Rightarrow> bool" where
  "pool_ok s \<longleftrightarrow>
     (\<forall>k g. upstream_caps s k = Some g \<longrightarrow> g < length (sems s)) \<and>
     (\<forall>k i. pools s k = Some i \<longrightarrow> i < length (gens s) \<and> g_key (gens s ! i) = k \<and> \<not> g_aborted (gens s ! i) \<and>
        upstream_caps s k = Some (g_sem (gens s ! i))) \<and>
     refill_tasks s = pools s \<and>
     (\<forall>i < length (gens s). gen_ok s i (gens s ! i))"

lemma pool_okD:
  assumes "pool_ok s"
  shows "upstream_caps s k = Some g \<Longrightarrow> g < length (sems s)"
    and "pools s k = Some i \<Longrightarrow> i < length (gens s) \<and> g_key (gens s ! i) = k \<and> \<not> g_aborted (gens s ! i) \<and>
        upstream_caps s k = Some (g_sem (gens s ! i))"
    and "refill_tasks s = pools s"
    and "i < length (gens s) \<Longrightarrow> gen_ok s i (gens s ! i)"
  using assms unfolding pool_ok_def by blast+

text \<open>Changes that keep the structure: semaphores of the same number, and a generation that keeps its place.\<close>

lemma pool_ok_sems:
  "pool_ok s \<Longrightarrow> length (sems t) = length (sems s) \<Longrightarrow> gens t = gens s \<Longrightarrow> pools t = pools s \<Longrightarrow> upstream_caps t = upstream_caps s \<Longrightarrow>
    refill_tasks t = refill_tasks s \<Longrightarrow> max_per_upstream t = max_per_upstream s \<Longrightarrow> pool_ok t"
  by (simp add: pool_ok_def gen_ok_def)

lemma pool_ok_set_gen:
  assumes "pool_ok s" "i < length (gens s)" "gen_ok s i g" "g_key g = g_key (gens s ! i)" "g_sem g = g_sem (gens s ! i)"
    "g_aborted g = g_aborted (gens s ! i)"
  shows "pool_ok (set_gen i g s)"
  using assms unfolding pool_ok_def by (auto simp: nth_list_update gen_ok_def)

text \<open>Both together, with the permits that are not in the pool.\<close>

definition pool_inv :: "proxy_pool \<Rightarrow> permit multiset \<Rightarrow> bool" where
  "pool_inv s R \<longleftrightarrow> pool_ok s \<and> balanced s (pool_permits s + R)"

lemma pool_inv_release: "pool_inv s (add_mset p R) \<Longrightarrow> pool_inv (release p s) R"
  unfolding pool_inv_def using balanced_release [of s p "pool_permits s + R"]
  by (auto intro: pool_ok_sems simp: pool_permits_def)

lemma pool_inv_releases: "pool_inv s (mset ps + R) \<Longrightarrow> pool_inv (fold release ps s) R"
  by (induction ps arbitrary: s) (auto intro: pool_inv_release)

lemma pool_inv_acquire:
  assumes "try_acquire g s = (Some p, t)" "g < length (sems s)" "pool_inv s R"
  shows "p = g" "pool_inv t (add_mset p R)"
proof -
  have "gens t = gens s" using assms(1) by (auto simp: try_acquire_def split: if_splits)
  moreover have "pool_ok t" using assms(1,3) by (auto simp: try_acquire_def pool_inv_def intro: pool_ok_sems split: if_splits)
  ultimately show "p = g" "pool_inv t (add_mset p R)"
    using try_acquire_Some [OF assms(1,2), of "pool_permits s + R"] assms(3) by (auto simp: pool_inv_def pool_permits_def)
qed

lemma pool_inv_semaphore:
  assumes "upstream_semaphore key s = (g, t)" "pool_inv s R"
  shows "pool_inv t R \<and> g < length (sems t) \<and> upstream_caps t key = Some g \<and> gens t = gens s \<and> pools t = pools s"
proof (cases "upstream_caps s key")
  case None
  then have t: "g = length (sems s)" "t = s\<lparr>sems := sems s @ [max_per_upstream s], upstream_caps := (upstream_caps s)(key \<mapsto> length (sems s))\<rparr>"
    using assms(1) by (auto simp: upstream_semaphore_def)
  have ok: "pool_ok s" and b: "balanced s (pool_permits s + R)" using assms(2) by (auto simp: pool_inv_def)
  have "pools s key = None" using pool_okD(2) [OF ok, of key] None by (cases "pools s key") auto
  then have "pool_ok t" using ok None unfolding pool_ok_def t by (auto simp: gen_ok_def less_SucI) 
  moreover have "balanced t (pool_permits s + R)"
    using b unfolding balanced_def t by (auto simp: nth_append less_Suc_eq count_eq_zero_iff)
  ultimately show ?thesis
    by (simp add: pool_inv_def t pool_permits_def)
qed (use assms pool_okD(1) in \<open>auto simp: upstream_semaphore_def pool_inv_def\<close>)

subsection \<open>Every operation keeps the books\<close>

lemma set_gen_inv:
  assumes "pool_inv s R" "i < length (gens s)" "gen_ok s i g" "g_key g = g_key (gens s ! i)" "g_sem g = g_sem (gens s ! i)"
    "g_aborted g = g_aborted (gens s ! i)" "gen_permits g + R' = gen_permits (gens s ! i) + R"
  shows "pool_inv (set_gen i g s) R'"
proof -
  have "pool_permits (set_gen i g s) + R' + gen_permits (gens s ! i) = pool_permits s + (gen_permits g + R')"
    using permits_set_gen [OF assms(2), of g] by (simp add: ac_simps)
  also have "\<dots> = pool_permits s + R + gen_permits (gens s ! i)" using assms(7) by (simp add: ac_simps)
  finally have "pool_permits (set_gen i g s) + R' = pool_permits s + R" by simp
  then show ?thesis using assms(1) pool_ok_set_gen [OF _ assms(2-6)] by (simp add: pool_inv_def)
qed

lemma inv_gen: "pool_inv s R \<Longrightarrow> i < length (gens s) \<Longrightarrow> gen_ok s i (gens s ! i)"
  using pool_okD(4) by (auto simp: pool_inv_def)

lemma inv_pools: "pool_inv s R \<Longrightarrow> pools s k = Some i \<Longrightarrow> i < length (gens s)"
  using pool_okD(2) by (auto simp: pool_inv_def)

lemma pop_spare_inv:
  assumes "pool_inv s R" "i < length (gens s)" "pop_spare i s = (r, t)"
  shows "pool_inv t (case r of None \<Rightarrow> R | Some pw \<Rightarrow> add_mset (pw_permit pw) R)"
    and "length (gens t) = length (gens s)" "pp_config t = pp_config s" "pools t = pools s"
proof -
  have ok: "gen_ok s i (gens s ! i)" by (rule inv_gen [OF assms(1,2)])
  show "pool_inv t (case r of None \<Rightarrow> R | Some pw \<Rightarrow> add_mset (pw_permit pw) R)"
  proof (cases "g_queue (gens s ! i)")
    case Nil
    then have t: "r = None" "t = set_gen i ((gens s ! i)\<lparr>g_notified := True\<rparr>) s" using assms(3) by (auto simp: pop_spare_def)
    have "pool_inv t R" unfolding t by (rule set_gen_inv [OF assms(1,2)]) (use ok in \<open>auto simp: gen_ok_def gen_permits_def\<close>)
    then show ?thesis by (simp add: t)
  next
    case (Cons pw rest)
    then have t: "r = Some pw" "t = set_gen i ((gens s ! i)\<lparr>g_queue := rest, g_notified := True\<rparr>) s"
      using assms(3) by (auto simp: pop_spare_def Let_def)
    have "pool_inv t (add_mset (pw_permit pw) R)" unfolding t
      by (rule set_gen_inv [OF assms(1,2)]) (use ok Cons in \<open>auto simp: gen_ok_def gen_permits_def\<close>)
    then show ?thesis by (simp add: t)
  qed
qed (use assms(3) in \<open>auto simp: pop_spare_def Let_def split: list.splits\<close>)

lemma checkout_loop_inv:
  assumes "pool_inv s R" "i < length (gens s)" "checkout_loop n i now dead s = (r, t)"
  shows "pool_inv t (case r of None \<Rightarrow> R | Some pw \<Rightarrow> add_mset (pw_permit pw) R)"
  using assms
proof (induction n i now dead s rule: checkout_loop.induct)
  case (1 i now dead s)
  then show ?case using pop_spare_inv(1) [of s R i r t] by simp
next
  case (2 n i now dead s)
  obtain q u where q: "pop_spare i s = (q, u)" by (cases "pop_spare i s")
  note p = pop_spare_inv [OF 2(2,3) q]
  show ?case
  proof (cases q)
    case None
    then show ?thesis using 2(4) q p(1) by simp
  next
    case (Some pw)
    show ?thesis
    proof (cases "usable u now dead pw")
      case True
      then show ?thesis using 2(4) q p(1) Some by simp
    next
      case False
      have "pool_inv (release (pw_permit pw) u) R" using p(1) Some by (simp add: pool_inv_release)
      then show ?thesis using 2(1) [OF q [symmetric] Some False] 2(3,4) q p(2) Some False by simp
    qed
  qed
qed

lemma checkout_prewarmed_inv:
  assumes "pool_inv s R" "checkout_prewarmed now dead proxy s = (r, t)"
  shows "pool_inv t (case r of None \<Rightarrow> R | Some pw \<Rightarrow> add_mset (pw_permit pw) R)"
proof (cases "cfg_enabled (pp_config s) \<and> pools s (key_of proxy) \<noteq> None")
  case True
  then obtain i where i: "pools s (key_of proxy) = Some i" by auto
  then have "checkout_loop (length (g_queue (gens s ! i))) i now dead s = (r, t)"
    using assms(2) True by (simp add: checkout_prewarmed_def)
  then show ?thesis by (rule checkout_loop_inv [OF assms(1) inv_pools [OF assms(1) i]])
next
  case False
  then show ?thesis using assms by (auto simp: checkout_prewarmed_def split: if_splits)
qed

lemma reserve_permit_inv:
  assumes "pool_inv s R" "reserve_permit proxy s = (r, t)"
  shows "pool_inv t (case r of Inl e \<Rightarrow> R | Inr p \<Rightarrow> add_mset p R)"
proof -
  obtain g s1 where g: "upstream_semaphore (key_of proxy) s = (g, s1)" by (cases "upstream_semaphore (key_of proxy) s")
  note s1 = pool_inv_semaphore [OF g assms(1)]
  obtain a s2 where a: "try_acquire g s1 = (a, s2)" by (cases "try_acquire g s1")
  show ?thesis
  proof (cases a)
    case (Some p)
    have "pool_inv s2 (add_mset p R)" by (rule pool_inv_acquire(2) [OF a [unfolded Some]]) (use s1 in auto)
    then show ?thesis using assms(2) g a Some by (auto simp: reserve_permit_def)
  next
    case None
    then have s2: "s2 = s1" using try_acquire_None a by blast
    obtain b s3 where b: "(case pools s2 (key_of proxy) of None \<Rightarrow> (None, s2)
        | Some i \<Rightarrow> if g_queue (gens s2 ! i) = [] then (None, s2) else pop_spare i s2) = (b, s3)" by fastforce
    have s3: "pool_inv s3 (case b of None \<Rightarrow> R | Some pw \<Rightarrow> add_mset (pw_permit pw) R)" "b = None \<Longrightarrow> s3 = s2"
    proof -
      show "pool_inv s3 (case b of None \<Rightarrow> R | Some pw \<Rightarrow> add_mset (pw_permit pw) R)"
        using b s1 s2 pop_spare_inv(1) [of s2 R _ b s3] inv_pools [of s2 R "key_of proxy"] by (auto split: option.splits if_splits)
      show "b = None \<Longrightarrow> s3 = s2"
        using b by (auto simp: pop_spare_def Let_def split: option.splits if_splits list.splits)
    qed
    show ?thesis
    proof (cases b)
      case (Some pw)
      then show ?thesis using assms(2) g a None b s3(1) by (auto simp: reserve_permit_def)
    next
      case bn: None
      then have "try_acquire g s3 = (None, s3)" using s3(2) s2 a None try_acquire_None [of g s1 s2] by simp
      then show ?thesis using assms(2) g a None b bn s3(1) by (auto simp: reserve_permit_def)
    qed
  qed
qed

lemma acquire_start_inv:
  assumes "pool_inv s R" "acquire_start now dead proxy s = (r, t)"
  shows "pool_inv t (case r of Acquired u \<Rightarrow> mset (stream_permits u) + R | AcquireFailed e \<Rightarrow> R | Dialing p \<Rightarrow> add_mset p R)"
proof -
  obtain c s1 where c: "checkout_prewarmed now dead proxy s = (c, s1)" by (cases "checkout_prewarmed now dead proxy s")
  note i1 = checkout_prewarmed_inv [OF assms(1) c]
  show ?thesis
  proof (cases c)
    case (Some pw)
    then show ?thesis using assms(2) c i1 by (auto simp: acquire_start_def with_permit_def stream_permits_def)
  next
    case None
    obtain q s2 where q: "reserve_permit proxy s1 = (q, s2)" by (cases "reserve_permit proxy s1")
    then show ?thesis using assms(2) c i1 None reserve_permit_inv [of s1 R proxy q s2]
      by (cases q) (auto simp: acquire_start_def)
  qed
qed

lemma forget_inv:
  assumes "pool_inv s R"
  shows "pool_inv (forget proxy s) R"
proof -
  let ?k = "key_of proxy"
  have ok: "pool_ok s" using assms by (simp add: pool_inv_def)
  let ?s1 = "s\<lparr>pools := (pools s)(?k := None), upstream_caps := (upstream_caps s)(?k := None)\<rparr>"
  have live: "\<not> g_aborted (gens s ! j) \<longrightarrow> pools s (g_key (gens s ! j)) = Some j" if "j < length (gens s)" for j
    using pool_okD(4) [OF ok that] by (simp add: gen_ok_def)
  show ?thesis
  proof (cases "pools s ?k")
    case None
    then have "forget proxy s = ?s1" using pool_okD(3) [OF ok] by (simp add: forget_def Let_def)
    moreover have "pool_ok ?s1" using ok None unfolding pool_ok_def by (auto simp: gen_ok_def fun_upd_idem)
    ultimately show ?thesis using assms by (simp add: pool_inv_def pool_permits_def balanced_def)
  next
    case (Some i)
    let ?t = "?s1\<lparr>refill_tasks := (refill_tasks s)(?k := None), gens := (gens s)[i := (gens s ! i)\<lparr>g_aborted := True\<rparr>]\<rparr>"
    have i: "i < length (gens s)" "g_key (gens s ! i) = ?k" using pool_okD(2) [OF ok Some] by auto
    have t: "forget proxy s = ?t" using Some pool_okD(3) [OF ok] by (simp add: forget_def Let_def abort_gen_def set_gen_def)
    have g: "gen_ok ?t j (gens ?t ! j)" if "j < length (gens s)" for j
      using pool_okD(4) [OF ok that] i live [OF that] Some that
      by (auto simp: gen_ok_def nth_list_update)
    have p: "j < length (gens ?t) \<and> g_key (gens ?t ! j) = k \<and> \<not> g_aborted (gens ?t ! j) \<and> upstream_caps ?t k = Some (g_sem (gens ?t ! j))"
      if "pools ?t k = Some j" for k j
    proof -
      have "k \<noteq> ?k" "pools s k = Some j" using that by (auto split: if_splits)
      then show ?thesis using pool_okD(2) [OF ok, of k j] i by (auto simp: nth_list_update)
    qed
    have "pool_ok ?t" unfolding pool_ok_def using pool_okD(1,3) [OF ok] g p by auto
    moreover have "pool_permits ?t = pool_permits s"
      using permits_set_gen_same [OF i(1), of "(gens s ! i)\<lparr>g_aborted := True\<rparr>"]
      by (simp add: pool_permits_def gen_permits_def)
    ultimately show ?thesis using assms unfolding t by (simp add: pool_inv_def balanced_def)
  qed
qed

lemma spawn_refill_for_inv:
  assumes "pool_inv s R" "1 \<le> max_per_upstream s"
  shows "pool_inv (spawn_refill_for proxy s) R"
proof (cases "cfg_enabled (pp_config s) \<and> pools s (key_of proxy) = None")
  case True
  let ?k = "key_of proxy" and ?i = "length (gens s)"
  let ?target = "min (max (spare_per_proxy (pp_config s)) 1) (max_per_upstream s)"
  obtain g s2 where g: "upstream_semaphore ?k s = (g, s2)" by (cases "upstream_semaphore ?k s")
  have g1: "upstream_semaphore ?k (s\<lparr>pools := (pools s)(?k \<mapsto> ?i)\<rparr>) = (g, s2\<lparr>pools := (pools s)(?k \<mapsto> ?i)\<rparr>)"
    using g by (auto simp: upstream_semaphore_def split: option.splits)
  note s2 = pool_inv_semaphore [OF g assms(1)]
  have ok: "pool_ok s2" using s2 by (simp add: pool_inv_def)
  have max: "max_per_upstream s2 = max_per_upstream s" using g by (auto simp: upstream_semaphore_def split: option.splits)
  let ?gen = "\<lparr>g_key = ?k, g_queue = [], g_target = ?target, g_notified = False, g_sem = g, g_backoff = 100000000, g_phase = Topping, g_aborted = False\<rparr>"
  let ?t = "s2\<lparr>pools := (pools s)(?k \<mapsto> ?i), gens := gens s @ [?gen], refill_tasks := (pools s)(?k \<mapsto> ?i)\<rparr>"
  have t: "spawn_refill_for proxy s = ?t"
    using True g1 s2 pool_okD(3) [OF ok] by (simp add: spawn_refill_for_def Let_def)
  have live: "gen_ok ?t j (gens ?t ! j)" if "j < length (gens ?t)" for j
  proof (cases "j < length (gens s)")
    case True
    then show ?thesis using pool_okD(4) [OF ok, of j] s2 \<open>cfg_enabled (pp_config s) \<and> pools s ?k = None\<close>
      by (auto simp: gen_ok_def nth_append)
  next
    case False
    then have "j = ?i" using that by simp
    then show ?thesis using s2 max assms(2) by (simp add: gen_ok_def)
  qed
  have p: "j < length (gens ?t) \<and> g_key (gens ?t ! j) = k \<and> \<not> g_aborted (gens ?t ! j) \<and> upstream_caps ?t k = Some (g_sem (gens ?t ! j))"
    if "pools ?t k = Some j" for k j
    using that pool_okD(2) [OF ok, of k j] s2 by (cases "k = ?k") (auto simp: nth_append)
  have "pool_ok ?t" unfolding pool_ok_def using pool_okD(1) [OF ok] live p by auto
  moreover have "pool_permits ?t = pool_permits s2" using s2 by (simp add: pool_permits_def gen_permits_def)
  ultimately show ?thesis using s2 unfolding t by (simp add: pool_inv_def balanced_def)
next
  case False
  then have "spawn_refill_for proxy s = s" by (auto simp: spawn_refill_for_def Let_def split: option.splits)
  then show ?thesis using assms(1) by simp
qed

subsection \<open>The refill task\<close>

lemma try_acquire_fields: "try_acquire g s = (r, t) \<Longrightarrow> gens t = gens s \<and> max_per_upstream t = max_per_upstream s \<and> length (sems t) = length (sems s) \<and> pools t = pools s"
  by (auto simp: try_acquire_def split: if_splits)

lemma gen_ok_cong:
  "length (sems t) = length (sems s) \<Longrightarrow> max_per_upstream t = max_per_upstream s \<Longrightarrow> pools t = pools s \<Longrightarrow> gen_ok t i g = gen_ok s i g"
  by (simp add: gen_ok_def)

lemma refill_top_inv:
  assumes "pool_inv s R" "i < length (gens s)" "g_phase (gens s ! i) = Topping"
  shows "pool_inv (refill_top i s) R"
proof -
  let ?g = "gens s ! i"
  have ok: "gen_ok s i ?g" by (rule inv_gen [OF assms(1,2)])
  show ?thesis
  proof (cases "length (g_queue ?g) < g_target ?g")
    case True
    obtain a t where a: "try_acquire (g_sem ?g) s = (a, t)" by (cases "try_acquire (g_sem ?g) s")
    note f = try_acquire_fields [OF a]
    show ?thesis
    proof (cases a)
      case (Some p)
      have "g_sem ?g < length (sems s)" using ok by (simp add: gen_ok_def)
      note t = pool_inv_acquire [OF a [unfolded Some] this assms(1)]
      have "pool_inv (set_gen i (?g\<lparr>g_phase := Connecting p\<rparr>) t) R"
        by (rule set_gen_inv [OF t(2)]) (use f ok assms t(1) in \<open>auto simp: gen_ok_def gen_permits_def\<close>)
      then show ?thesis using True a Some by (simp add: refill_top_def)
    next
      case None
      then have "t = s" using try_acquire_None a by blast
      moreover have "pool_inv (set_gen i (?g\<lparr>g_phase := Sleeping, g_backoff := next_backoff (g_backoff ?g)\<rparr>) s) R"
        by (rule set_gen_inv [OF assms(1,2)]) (use ok assms in \<open>auto simp: gen_ok_def gen_permits_def\<close>)
      ultimately show ?thesis using True a None by (simp add: refill_top_def Let_def)
    qed
  next
    case False
    have "pool_inv (set_gen i (?g\<lparr>g_phase := Waiting\<rparr>) s) R"
      by (rule set_gen_inv [OF assms(1,2)]) (use ok assms in \<open>auto simp: gen_ok_def gen_permits_def\<close>)
    then show ?thesis using False by (simp add: refill_top_def)
  qed
qed

lemma refill_connected_inv:
  assumes "pool_inv s R" "i < length (gens s)" "g_phase (gens s ! i) = Connecting p"
  shows "pool_inv (refill_connected i p r s) R"
proof -
  let ?g = "gens s ! i"
  have ok: "gen_ok s i ?g" by (rule inv_gen [OF assms(1,2)])
  have keep: "pool_inv (set_gen i (?g\<lparr>g_queue := g_queue ?g @ [\<lparr>pw_socket = k, created_at = now, pw_permit = p\<rparr>],
                                   g_backoff := 100000000, g_phase := Topping\<rparr>) s) R"
    if "length (g_queue ?g) < g_target ?g" for k now
    by (rule set_gen_inv [OF assms(1,2)]) (use ok assms that in \<open>auto simp: gen_ok_def gen_permits_def\<close>)
  have give: "pool_inv (release p (set_gen i (?g\<lparr>g_backoff := b, g_phase := q\<rparr>) s)) R"
    if "\<forall>x. q \<noteq> Connecting x" for b q
    by (rule pool_inv_release, rule set_gen_inv [OF assms(1,2)])
       (use ok assms that in \<open>auto simp: gen_ok_def gen_permits_def split: refill_phase.splits\<close>)
  have swap: "?g\<lparr>g_phase := q, g_backoff := b\<rparr> = ?g\<lparr>g_backoff := b, g_phase := q\<rparr>" for q b by simp
  show ?thesis using keep give
    by (auto simp: refill_connected_def Let_def swap split: option.splits)
qed

lemma refill_phase_inv:
  assumes "pool_inv s R" "i < length (gens s)" "g_phase (gens s ! i) = Sleeping \<or> g_phase (gens s ! i) = Waiting"
  shows "pool_inv (refill_wake i s) R" "pool_inv (refill_notified i s) R"
proof -
  have ok: "gen_ok s i (gens s ! i)" by (rule inv_gen [OF assms(1,2)])
  show "pool_inv (refill_wake i s) R" unfolding refill_wake_def
    by (rule set_gen_inv [OF assms(1,2)]) (use ok assms in \<open>auto simp: gen_ok_def gen_permits_def\<close>)
  show "pool_inv (refill_notified i s) R" unfolding refill_notified_def
    by (rule set_gen_inv [OF assms(1,2)]) (use ok assms in \<open>auto simp: gen_ok_def gen_permits_def\<close>)
qed

lemma mset_filter_split: "mset (map f (filter P xs)) + mset (map f (filter (\<lambda>x. \<not> P x) xs)) = mset (map f xs)"
  by (induction xs) auto

lemma refill_recycle_inv:
  assumes "pool_inv s R" "i < length (gens s)" "g_phase (gens s ! i) = Waiting"
  shows "pool_inv (refill_recycle i now s) R"
proof -
  let ?g = "gens s ! i" and ?keep = "\<lambda>pw. saturating_duration_since now (created_at pw) \<le> max_age s"
  have ok: "gen_ok s i ?g" by (rule inv_gen [OF assms(1,2)])
  have "length (filter ?keep (g_queue ?g)) \<le> g_target ?g"
    using ok le_trans [OF length_filter_le [of ?keep "g_queue ?g"]] by (simp add: gen_ok_def)
  then have gok: "gen_ok s i (?g\<lparr>g_queue := filter ?keep (g_queue ?g), g_phase := Topping\<rparr>)"
    using ok by (auto simp: gen_ok_def list_all_iff)
  show ?thesis unfolding refill_recycle_def Let_def
    by (rule pool_inv_releases, rule set_gen_inv [OF assms(1,2) gok])
       (use assms(3) mset_filter_split [of pw_permit ?keep "g_queue ?g"] in \<open>simp_all add: gen_permits_def ac_simps\<close>)
qed

lemma refill_stop_inv:
  assumes "pool_inv s R" "i < length (gens s)"
  shows "pool_inv (refill_stop i s) R"
proof -
  have ok: "gen_ok s i (gens s ! i)" by (rule inv_gen [OF assms])
  show ?thesis unfolding refill_stop_def Let_def
    by (rule pool_inv_releases, rule set_gen_inv [OF assms])
       (use ok in \<open>auto simp: gen_ok_def gen_permits_def ac_simps split: refill_phase.splits\<close>)
qed

subsection \<open>The cap is a constant\<close>

lemma pop_spare_max [simp]: "max_per_upstream (snd (pop_spare i s)) = max_per_upstream s"
  by (simp add: pop_spare_def Let_def split: list.splits)

lemma checkout_loop_max [simp]: "max_per_upstream (snd (checkout_loop n i now dead s)) = max_per_upstream s"
proof (induction n i now dead s rule: checkout_loop.induct)
  case (2 n i now dead s)
  then show ?case using pop_spare_max [of i s] by (cases "pop_spare i s") (auto split: option.splits)
qed simp

lemma checkout_prewarmed_max [simp]: "max_per_upstream (snd (checkout_prewarmed now dead proxy s)) = max_per_upstream s"
  by (simp add: checkout_prewarmed_def split: option.splits)

lemma upstream_semaphore_max [simp]: "max_per_upstream (snd (upstream_semaphore k s)) = max_per_upstream s"
  by (simp add: upstream_semaphore_def split: option.splits)

lemma try_acquire_max [simp]: "max_per_upstream (snd (try_acquire g s)) = max_per_upstream s"
  by (simp add: try_acquire_def)

lemma reserve_permit_max [simp]: "max_per_upstream (snd (reserve_permit proxy s)) = max_per_upstream s"
proof -
  obtain g s1 where 1: "upstream_semaphore (key_of proxy) s = (g, s1)" by (cases "upstream_semaphore (key_of proxy) s")
  obtain a s2 where 2: "try_acquire g s1 = (a, s2)" by (cases "try_acquire g s1")
  obtain b s3 where 3: "(case pools s2 (key_of proxy) of None \<Rightarrow> (None, s2)
      | Some i \<Rightarrow> if g_queue (gens s2 ! i) = [] then (None, s2) else pop_spare i s2) = (b, s3)" by fastforce
  obtain c s4 where 4: "try_acquire g s3 = (c, s4)" by (cases "try_acquire g s3")
  have "max_per_upstream s3 = max_per_upstream s2"
    using 3 by (auto split: option.splits if_splits) (metis pop_spare_max snd_conv)
  then have "max_per_upstream s1 = max_per_upstream s" "max_per_upstream s2 = max_per_upstream s"
      "max_per_upstream s3 = max_per_upstream s" "max_per_upstream s4 = max_per_upstream s"
    using upstream_semaphore_max [of "key_of proxy" s] try_acquire_max [of g s1] try_acquire_max [of g s3]
    unfolding 1 2 4 by simp_all
  then show ?thesis by (simp add: reserve_permit_def 1 2 3 4 split: option.splits)
qed

lemma acquire_start_max [simp]: "max_per_upstream (snd (acquire_start now dead proxy s)) = max_per_upstream s"
proof -
  obtain c s1 where 1: "checkout_prewarmed now dead proxy s = (c, s1)" by (cases "checkout_prewarmed now dead proxy s")
  obtain q s2 where 2: "reserve_permit proxy s1 = (q, s2)" by (cases "reserve_permit proxy s1")
  show ?thesis using checkout_prewarmed_max [of now dead proxy s] reserve_permit_max [of proxy s1] 1 2
    by (simp add: acquire_start_def split: option.splits sum.splits)
qed

lemma checkout_max [simp]: "max_per_upstream (snd (checkout now dead proxy s)) = max_per_upstream s"
  by (simp add: checkout_def)

lemma checkout_unguarded_max [simp]: "max_per_upstream (snd (checkout_unguarded now dead proxy s)) = max_per_upstream s"
  using checkout_prewarmed_max [of now dead proxy s]
  by (cases "checkout_prewarmed now dead proxy s") (auto simp: checkout_unguarded_def split: option.splits)

lemma task_max [simp]:
  "max_per_upstream (forget proxy s) = max_per_upstream s"
  "max_per_upstream (spawn_refill_for proxy s) = max_per_upstream s"
  "max_per_upstream (refill_top i s) = max_per_upstream s"
  "max_per_upstream (refill_connected i p r s) = max_per_upstream s"
  "max_per_upstream (refill_wake i s) = max_per_upstream s"
  "max_per_upstream (refill_notified i s) = max_per_upstream s"
  "max_per_upstream (refill_recycle i now s) = max_per_upstream s"
  "max_per_upstream (refill_stop i s) = max_per_upstream s"
  "max_per_upstream (drop_stream u s) = max_per_upstream s"
          apply (simp add: forget_def Let_def abort_gen_def split: option.splits)
         apply (simp add: spawn_refill_for_def Let_def abort_gen_def upstream_semaphore_def split: option.splits)
        apply (simp add: refill_top_def Let_def try_acquire_def)
       apply (simp add: refill_connected_def Let_def split: option.splits prod.splits)
      apply (simp_all add: refill_wake_def refill_notified_def refill_recycle_def refill_stop_def Let_def drop_stream_def)
  done

subsection \<open>The pool among its users\<close>

text \<open>The permits held outside the pool.\<close>

definition held :: "pool_sys \<Rightarrow> permit multiset" where
  "held y = ps_dialing y + \<Sum>\<^sub># (image_mset (\<lambda>u. mset (stream_permits u)) (ps_conns y))"

definition sys_inv :: "nat \<Rightarrow> pool_sys \<Rightarrow> bool" where
  "sys_inv c y \<longleftrightarrow> pool_inv (ps_pool y) (held y) \<and> max_per_upstream (ps_pool y) = c"

lemma attach_permits: "mset (stream_permits (attach_permit p u)) = add_mset p (mset (stream_permits u))"
  by (simp add: stream_permits_def attach_permit_def)

lemma checkout_inv:
  assumes "pool_inv s R" "checkout now dead proxy s = (r, t)"
  shows "pool_inv t (case r of None \<Rightarrow> R | Some u \<Rightarrow> mset (stream_permits u) + R)"
proof -
  obtain c where c: "checkout_prewarmed now dead proxy s = (c, t)" "r = map_option (\<lambda>pw. with_permit (pw_permit pw)) c"
    using assms(2) by (cases "checkout_prewarmed now dead proxy s") (auto simp: checkout_def)
  then show ?thesis using checkout_prewarmed_inv [OF assms(1) c(1)]
    by (cases c) (simp_all add: with_permit_def stream_permits_def)
qed

lemma checkout_unguarded_inv:
  assumes "pool_inv s R" "checkout_unguarded now dead proxy s = (r, t)"
  shows "pool_inv t R"
proof -
  obtain c u where c: "checkout_prewarmed now dead proxy s = (c, u)" by (cases "checkout_prewarmed now dead proxy s")
  then show ?thesis using assms(2) checkout_prewarmed_inv [OF assms(1) c]
    by (cases c) (auto simp: checkout_unguarded_def intro: pool_inv_release)
qed

lemma pool_step_inv:
  assumes "pool_step y z" "pool_inv (ps_pool y) (held y)" "1 \<le> max_per_upstream (ps_pool y)"
  shows "pool_inv (ps_pool z) (held z)"
  using assms(1)
proof cases
  case (acquire_spare now dead proxy u s)
  then show ?thesis using acquire_start_inv [OF assms(2) acquire_spare(2)] by (simp add: held_def ac_simps)
next
  case (acquire_dial now dead proxy p s)
  then show ?thesis using acquire_start_inv [OF assms(2) acquire_dial(2)] by (simp add: held_def)
next
  case (acquire_fail now dead proxy e s)
  then show ?thesis using acquire_start_inv [OF assms(2) acquire_fail(2)] by (simp add: held_def)
next
  case (dialed p D u s)
  then show ?thesis using assms(2) by (auto simp: held_def acquire_finish_def with_permit_def stream_permits_def)
next
  case (dial_failed p D e e' s)
  then show ?thesis using assms(2) by (auto simp: held_def acquire_finish_def intro!: pool_inv_release)
next
  case (checked_out now dead proxy u s)
  then show ?thesis using checkout_inv [OF assms(2) checked_out(2)] by (simp add: held_def ac_simps)
next
  case (not_checked_out now dead proxy s)
  then show ?thesis using checkout_inv [OF assms(2) not_checked_out(2)] by (simp add: held_def)
next
  case (unguarded now dead proxy r s)
  then show ?thesis using checkout_unguarded_inv [OF assms(2) unguarded(2)] by (simp add: held_def)
next
  case (attach u U proxy p s)
  then show ?thesis using reserve_permit_inv [OF assms(2) attach(3)] by (simp add: held_def attach_permits)
next
  case (no_attach proxy e s)
  then show ?thesis using reserve_permit_inv [OF assms(2) no_attach(2)] by (simp add: held_def)
next
  case (drop u U)
  have "held y = mset (stream_permits u) + held z" using drop by (simp add: held_def ac_simps)
  then show ?thesis using assms(2) drop(1) pool_inv_releases [of "ps_pool y" "stream_permits u" "held z"]
    by (simp add: drop_stream_def)
qed (use assms(2,3) in \<open>simp_all add: on_pool_def held_def phase_of_def forget_inv spawn_refill_for_inv
      refill_top_inv refill_connected_inv refill_phase_inv refill_recycle_inv refill_stop_inv\<close>)

lemma pool_step_max:
  assumes "pool_step y z"
  shows "max_per_upstream (ps_pool z) = max_per_upstream (ps_pool y)"
  using assms
proof cases
  case (acquire_spare now dead proxy u s)
  then show ?thesis using acquire_start_max [of now dead proxy "ps_pool y"] by simp
next
  case (acquire_dial now dead proxy p s)
  then show ?thesis using acquire_start_max [of now dead proxy "ps_pool y"] by simp
next
  case (acquire_fail now dead proxy e s)
  then show ?thesis using acquire_start_max [of now dead proxy "ps_pool y"] by simp
next
  case (checked_out now dead proxy u s)
  then show ?thesis using checkout_max [of now dead proxy "ps_pool y"] by simp
next
  case (not_checked_out now dead proxy s)
  then show ?thesis using checkout_max [of now dead proxy "ps_pool y"] by simp
next
  case (unguarded now dead proxy r s)
  then show ?thesis using checkout_unguarded_max [of now dead proxy "ps_pool y"] by simp
next
  case (attach u U proxy p s)
  then show ?thesis using reserve_permit_max [of proxy "ps_pool y"] by simp
next
  case (no_attach proxy e s)
  then show ?thesis using reserve_permit_max [of proxy "ps_pool y"] by simp
qed (auto simp: on_pool_def acquire_finish_def)

subsection \<open>Reachable pools\<close>

definition pool_start :: "pool_config \<Rightarrow> nat \<Rightarrow> pool_sys" where
  "pool_start config max_per = \<lparr>ps_pool = pool_new config max_per, ps_dialing = {#}, ps_conns = {#}\<rparr>"

lemma reachable_inv:
  assumes "pool_step\<^sup>*\<^sup>* (pool_start config max_per) y"
  shows "pool_inv (ps_pool y) (held y)" "max_per_upstream (ps_pool y) = max max_per 1"
  using assms
proof (induction rule: rtranclp_induct)
  case base
  {
    case 1
    then show ?case
      by (simp add: pool_start_def pool_new_def pool_inv_def pool_ok_def balanced_def held_def pool_permits_def)
  next
    case 2
    then show ?case by (simp add: pool_start_def pool_new_def)
  }
next
  case (step y z)
  {
    case 1
    then show ?case using pool_step_inv [OF step(2)] step(3,4) by simp
  next
    case 2
    then show ?case using pool_step_max [OF step(2)] step(4) by simp
  }
qed

lemma reachable_balance:
  assumes "pool_step\<^sup>*\<^sup>* (pool_start config max_per) y" "g < length (sems (ps_pool y))"
  shows "sems (ps_pool y) ! g + count (all_permits y) g = max max_per 1"
  using reachable_inv [OF assms(1)] assms(2)
  by (simp add: pool_inv_def balanced_def all_permits_def held_def add.assoc)

text \<open>C19: however users of the pool and its refill tasks interleave, for the cap an endpoint is registered with,
  the free slots and the slots held by queued spares, by refill connects, by dials under way and by the nodes
  of live connections add up to the configured limit (at least one): no slot is lost, and never more sockets
  than the limit are counted against it.\<close>

theorem upstream_cap_is_exact:
  assumes "pool_step\<^sup>*\<^sup>* (pool_start config max_per) y" "upstream_caps (ps_pool y) key = Some g"
  shows "sems (ps_pool y) ! g + count (all_permits y) g = max max_per 1"
  using reachable_balance [OF assms(1)] reachable_inv(1) [OF assms(1)] pool_okD(1) [OF _ assms(2)]
  by (simp add: pool_inv_def)

text \<open>C9: Of all the generations of spares ever created, each endpoint has at most one that is not aborted; it
  is the one registered for the endpoint, fills up under the endpoint's own cap, and its queue never holds more spares
  than its target, nor than the cap.\<close>

theorem one_refill_task_per_endpoint:
  assumes "pool_step\<^sup>*\<^sup>* (pool_start config max_per) y"
    and "i < length (gens (ps_pool y))" "\<not> g_aborted (gens (ps_pool y) ! i)"
    and "j < length (gens (ps_pool y))" "\<not> g_aborted (gens (ps_pool y) ! j)"
    and "g_key (gens (ps_pool y) ! i) = g_key (gens (ps_pool y) ! j)"
  shows "i = j \<and> refill_tasks (ps_pool y) (g_key (gens (ps_pool y) ! i)) = Some i \<and>
    upstream_caps (ps_pool y) (g_key (gens (ps_pool y) ! i)) = Some (g_sem (gens (ps_pool y) ! i)) \<and>
    length (g_queue (gens (ps_pool y) ! i)) \<le> g_target (gens (ps_pool y) ! i) \<and> g_target (gens (ps_pool y) ! i) \<le> max max_per 1"
proof -
  note r = reachable_inv [OF assms(1)]
  have ok: "pool_ok (ps_pool y)" using r by (simp add: pool_inv_def)
  have i: "gen_ok (ps_pool y) i (gens (ps_pool y) ! i)" and j: "gen_ok (ps_pool y) j (gens (ps_pool y) ! j)"
    using pool_okD(4) [OF ok] assms by auto
  have p: "pools (ps_pool y) (g_key (gens (ps_pool y) ! i)) = Some i" using i assms(3) by (simp add: gen_ok_def)
  moreover have "pools (ps_pool y) (g_key (gens (ps_pool y) ! i)) = Some j" using j assms(5,6) by (simp add: gen_ok_def)
  moreover have "upstream_caps (ps_pool y) (g_key (gens (ps_pool y) ! i)) = Some (g_sem (gens (ps_pool y) ! i))"
    using pool_okD(2) [OF ok p] by blast
  moreover have "refill_tasks (ps_pool y) = pools (ps_pool y)" by (rule pool_okD(3) [OF ok])
  ultimately show ?thesis using i unfolding gen_ok_def r(2) by auto
qed

subsection \<open>What is handed out\<close>

lemma usable_cong: "pp_config t = pp_config s \<Longrightarrow> usable t now dead = usable s now dead"
  by (simp add: usable_def max_age_def fun_eq_iff)

lemma checkout_loop_find:
  assumes "i < length (gens s)" "length (g_queue (gens s ! i)) \<le> n"
  shows "fst (checkout_loop n i now dead s) = List.find (usable s now dead) (g_queue (gens s ! i))"
  using assms
proof (induction n i now dead s rule: checkout_loop.induct)
  case (2 n i now dead s)
  show ?case
  proof (cases "g_queue (gens s ! i)")
    case (Cons pw rest)
    let ?s1 = "set_gen i ((gens s ! i)\<lparr>g_queue := rest, g_notified := True\<rparr>) s"
    have p: "pop_spare i s = (Some pw, ?s1)" using Cons by (simp add: pop_spare_def Let_def)
    have u: "usable ?s1 now dead = usable s now dead" "usable (release (pw_permit pw) ?s1) now dead = usable s now dead"
      by (rule usable_cong, simp)+
    show ?thesis
    proof (cases "usable s now dead pw")
      case False
      then have "fst (checkout_loop n i now dead (release (pw_permit pw) ?s1)) = List.find (usable s now dead) rest"
        using 2(1) [OF p [symmetric] refl, unfolded u(1), OF False] 2(2,3) Cons u(2) by simp
      then show ?thesis using p Cons u False by simp
    qed (use p Cons u in simp)
  qed (simp add: pop_spare_def)
qed (simp add: pop_spare_def)

text \<open>Taking a spare gives the oldest one of the endpoint's queue that has not outlived the session age and
  that the probe does not find closed, broken or with pending data, and none when the pool is off, the endpoint
  has no queue, or no spare qualifies.\<close>

theorem checkout_gives_first_usable_spare:
  assumes "pool_step\<^sup>*\<^sup>* (pool_start config max_per) y"
  shows "fst (checkout_prewarmed now dead proxy (ps_pool y)) =
     (if cfg_enabled (pp_config (ps_pool y))
      then Option.bind (pools (ps_pool y) (key_of proxy))
             (\<lambda>i. List.find (usable (ps_pool y) now dead) (g_queue (gens (ps_pool y) ! i)))
      else None)"
proof -
  have "i < length (gens (ps_pool y))" if "pools (ps_pool y) (key_of proxy) = Some i" for i
    using inv_pools [OF reachable_inv(1) [OF assms] that] .
  then show ?thesis using checkout_loop_find
    by (simp add: checkout_prewarmed_def split: option.splits)
qed

text \<open>C20: a permit is refused only to an endpoint whose slots are all taken and that has no idle spare left whose
  slot could be taken over; the refusal names the endpoint.\<close>

theorem refused_only_at_capacity:
  assumes "pool_step\<^sup>*\<^sup>* (pool_start config max_per) y"
    and "reserve_permit proxy (ps_pool y) = (Err e, s)"
  shows "e = AtCapacity (AtCapacityOf (pc_host proxy) (pc_port proxy)) \<and>
    (\<exists>g. upstream_caps (ps_pool y) (key_of proxy) = Some g \<and> count (all_permits y) g = max max_per 1) \<and>
    (\<forall>i. pools (ps_pool y) (key_of proxy) = Some i \<longrightarrow> g_queue (gens (ps_pool y) ! i) = [])"
proof -
  let ?s = "ps_pool y"
  note r = reachable_inv [OF assms(1)]
  obtain g s1 where g: "upstream_semaphore (key_of proxy) ?s = (g, s1)" by (cases "upstream_semaphore (key_of proxy) ?s")
  obtain a s2 where a: "try_acquire g s1 = (a, s2)" by (cases "try_acquire g s1")
  have an: "a = None" using assms(2) g a by (auto simp: reserve_permit_def split: option.splits)
  then have s2: "s2 = s1" "sems s1 ! g = 0" using try_acquire_None a by blast+
  have some: "upstream_caps ?s (key_of proxy) = Some g" "s1 = ?s"
    using g s2 r(2) by (auto simp: upstream_semaphore_def split: option.splits)
  have q: "g_queue (gens ?s ! i) = []" if "pools ?s (key_of proxy) = Some i" for i
  proof (rule ccontr)
    assume "g_queue (gens ?s ! i) \<noteq> []"
    moreover obtain pw t where "pop_spare i ?s = (Some pw, t)"
      using \<open>g_queue (gens ?s ! i) \<noteq> []\<close> by (cases "g_queue (gens ?s ! i)") (simp_all add: pop_spare_def Let_def)
    ultimately show False using assms(2) g a an s2(1) some(2) that by (simp add: reserve_permit_def)
  qed
  then have "e = AtCapacity (AtCapacityOf (pc_host proxy) (pc_port proxy))"
    using assms(2) g a an s2(1) some(2) by (cases "pools ?s (key_of proxy)") (simp_all add: reserve_permit_def)
  moreover have "count (all_permits y) g = max max_per 1"
    using reachable_balance [OF assms(1)] pool_okD(1) [OF _ some(1)] r(1) s2(2) some(2) by (fastforce simp: pool_inv_def)
  ultimately show ?thesis using q some(1) by blast
qed

subsection \<open>Two runs\<close>

definition demo_upstream :: proxy_config where
  "demo_upstream = ProxyConfig Socks5 [112] 1080 None None 0 False None"

lemma demo_key [simp]: "key_of demo_upstream = ([112], 1080)"
  by (simp add: demo_upstream_def key_of_def)

text \<open>A dial takes the one slot of an upstream.\<close>

definition demo_dialing :: pool_sys where
  "demo_dialing = \<lparr>ps_pool = (pool_new default_pool_config 1)\<lparr>sems := [0], upstream_caps := [([112], 1080) \<mapsto> 0]\<rparr>,
     ps_dialing = {#0#}, ps_conns = {#}\<rparr>"

lemma demo_dials: "pool_step\<^sup>*\<^sup>* (pool_start default_pool_config 1) demo_dialing"
proof -
  have "acquire_start 0 (\<lambda>_. False) demo_upstream (ps_pool (pool_start default_pool_config 1)) = (Dialing 0, ps_pool demo_dialing)"
    by (simp add: acquire_start_def checkout_prewarmed_def reserve_permit_def upstream_semaphore_def try_acquire_def
        pool_start_def pool_new_def default_pool_config_def demo_dialing_def)
  from pool_step.acquire_dial [OF this] show ?thesis
    by (intro r_into_rtranclp) (simp add: pool_start_def demo_dialing_def)
qed

theorem upstream_cap_is_exact_witness:
  "upstream_caps (ps_pool demo_dialing) ([112], 1080) = Some 0 \<and>
   sems (ps_pool demo_dialing) ! 0 + count (all_permits demo_dialing) 0 = 1"
proof -
  have "upstream_caps (ps_pool demo_dialing) ([112], 1080) = Some 0" by (simp add: demo_dialing_def)
  then show ?thesis using upstream_cap_is_exact [OF demo_dials] by simp
qed

theorem refused_only_at_capacity_witness:
  "fst (reserve_permit demo_upstream (ps_pool demo_dialing)) = Err (AtCapacity (AtCapacityOf [112] 1080)) \<and>
   (\<exists>g. upstream_caps (ps_pool demo_dialing) (key_of demo_upstream) = Some g \<and> count (all_permits demo_dialing) g = 1)"
proof -
  have r: "reserve_permit demo_upstream (ps_pool demo_dialing) = (Err (AtCapacity (AtCapacityOf [112] 1080)), ps_pool demo_dialing)"
    by (simp add: reserve_permit_def upstream_semaphore_def try_acquire_def pool_new_def demo_dialing_def)
       (simp add: demo_upstream_def)
  from refused_only_at_capacity [OF demo_dials this] have "\<exists>g. upstream_caps (ps_pool demo_dialing) (key_of demo_upstream) = Some g \<and>
      count (all_permits demo_dialing) g = 1" by (simp del: demo_key)
  then show ?thesis using r by (simp del: demo_key)
qed

text \<open>A refill task has queued a spare.\<close>

definition demo_pool_config :: pool_config where
  "demo_pool_config = \<lparr>cfg_enabled = True, spare_per_proxy = 1, max_session_age_sec = 30\<rparr>"

definition demo_spare :: pre_warmed where
  "demo_spare = \<lparr>pw_socket = 7, created_at = 5, pw_permit = 0\<rparr>"

definition demo_warm :: pool_sys where
  "demo_warm = on_pool (refill_connected 0 0 (Some (7, 5))) (on_pool (refill_top 0)
     (on_pool (spawn_refill_for demo_upstream) (pool_start demo_pool_config 2)))"

lemmas demo_warm_defs = on_pool_def pool_start_def pool_new_def demo_pool_config_def spawn_refill_for_def
  upstream_semaphore_def refill_top_def refill_connected_def try_acquire_def set_gen_def phase_of_def

lemma demo_warms: "pool_step\<^sup>*\<^sup>* (pool_start demo_pool_config 2) demo_warm"
proof -
  let ?y0 = "pool_start demo_pool_config 2"
  let ?y1 = "on_pool (spawn_refill_for demo_upstream) ?y0" let ?y2 = "on_pool (refill_top 0) ?y1"
  have 1: "pool_step ?y0 ?y1" by (rule pool_step.spawned)
  have 2: "pool_step ?y1 ?y2" by (rule pool_step.top) (simp_all add: demo_warm_defs)
  have 3: "pool_step ?y2 demo_warm" unfolding demo_warm_def by (rule pool_step.connected) (simp_all add: demo_warm_defs)
  have "pool_step\<^sup>*\<^sup>* ?y0 ?y1" using 1 by (rule r_into_rtranclp)
  then have "pool_step\<^sup>*\<^sup>* ?y0 ?y2" using 2 by (rule rtranclp.rtrancl_into_rtrancl)
  then show ?thesis using 3 by (rule rtranclp.rtrancl_into_rtrancl)
qed

theorem one_refill_task_per_endpoint_witness:
  "\<not> g_aborted (gens (ps_pool demo_warm) ! 0) \<and> refill_tasks (ps_pool demo_warm) ([112], 1080) = Some 0 \<and>
   length (g_queue (gens (ps_pool demo_warm) ! 0)) \<le> 1"
proof -
  have d: "0 < length (gens (ps_pool demo_warm))" "\<not> g_aborted (gens (ps_pool demo_warm) ! 0)"
    "g_key (gens (ps_pool demo_warm) ! 0) = ([112], 1080)" "g_target (gens (ps_pool demo_warm) ! 0) = 1"
    by (simp_all add: demo_warm_def demo_warm_defs)
  show ?thesis using one_refill_task_per_endpoint [OF demo_warms d(1,2,1,2) refl] d(2,3,4) by simp
qed

theorem checkout_gives_first_usable_spare_witness:
  "fst (checkout_prewarmed 6 (\<lambda>_. False) demo_upstream (ps_pool demo_warm)) = Some demo_spare"
  by (subst checkout_gives_first_usable_spare [OF demo_warms])
     (simp add: demo_warm_def demo_warm_defs demo_spare_def usable_def max_age_def from_secs_def saturating_duration_since_def)

end
