(* ===== verification/DialSpec.thy ===== *)
theory DialSpec
  imports Dial PoolSpec ChainPlanSpec HttpInterop
begin

text \<open>
  Dialling reports the step that failed, hands over the tunnel with the payload untouched, and neither loses
  nor makes slots of the pool.
\<close>

declare split_paired_All [simp del] split_paired_Ex [simp del]

subsection \<open>Stages\<close>

lemma stage_round_trip:
  assumes "\<And>n. s = StageHop n \<Longrightarrow> n + 2 < 2 ^ 64"
  shows "stage_decode (stage_encode s) = s"
proof (cases s)
  case (StageHop n)
  let ?w = "of_nat n + 1 :: usize"
  have n: "n + 2 < 2 ^ 64" using assms StageHop by simp
  have u: "unat ?w = n + 1" using n by (simp add: unat_word_ariths unat_of_nat)
  have m: "unat (- 1 :: usize) = 2 ^ 64 - 1" by transfer (simp add: take_bit_minus_one_eq_mask mask_eq_exp_minus_1)
  have "?w \<noteq> 0" using u by (metis Suc_eq_plus1 nat.simps(3) unat_0)
  moreover have "?w \<noteq> - 1"
  proof
    assume "?w = - 1"
    then have "n + 1 = 2 ^ 64 - 1" using u m by metis
    then show False using n by simp
  qed
  moreover have "unat (?w - 1) = n" using n by (simp add: unat_of_nat)
  ultimately show ?thesis using StageHop by (simp add: stage_encode_def stage_decode_def)
qed (simp_all add: stage_encode_def stage_decode_def)

lemma hop_stage_round_trip: "i < length ns \<Longrightarrow> length ns < 2 ^ 64 \<Longrightarrow> stage_decode (stage_encode (hop_stage ns i)) = hop_stage ns i"
  by (rule stage_round_trip) (auto simp: hop_stage_def split: if_splits)

subsection \<open>The hops that were made\<close>

text \<open>Hops from \<open>i\<close> on that succeeded, up to \<open>j\<close>.\<close>

inductive hops_made ::
  "(bytes \<Rightarrow> bytes) \<Rightarrow> tls_connector option \<Rightarrow> duration \<Rightarrow> proxy_config list \<Rightarrow> bytes \<Rightarrow> nat \<Rightarrow> link \<Rightarrow> nat \<Rightarrow> link \<Rightarrow> bool"
  for encode tls hs ns target where
  made_none: "hops_made encode tls hs ns target i l i l"
| made_hop: "i < length ns \<Longrightarrow> chain_hop encode tls hs (ns ! i) (hop_target ns target i) l = Ok l' \<Longrightarrow>
    hops_made encode tls hs ns target (i + 1) l' j l'' \<Longrightarrow> hops_made encode tls hs ns target i l j l''"

text \<open>How the hops end: all of them made, one failed, or cut off at one.\<close>

definition hops_outcome ::
  "(bytes \<Rightarrow> bytes) \<Rightarrow> tls_connector option \<Rightarrow> duration \<Rightarrow> proxy_config list \<Rightarrow> bytes \<Rightarrow> nat option \<Rightarrow> nat \<Rightarrow> link \<Rightarrow>
   (chain_error + link) option \<Rightarrow> usize \<Rightarrow> bool" where
  "hops_outcome encode tls hs ns target fires i l r prog \<longleftrightarrow>
     (case r of
        Some (Ok l') \<Rightarrow> hops_made encode tls hs ns target i l (length ns) l'
      | Some (Err x) \<Rightarrow> \<exists>j l'. j < length ns \<and> hops_made encode tls hs ns target i l j l' \<and>
          chain_hop encode tls hs (ns ! j) (hop_target ns target j) l' = Err (ce_error x) \<and> ce_stage x = hop_stage ns j
      | None \<Rightarrow> \<exists>j l'. fires = Some j \<and> j < length ns \<and> hops_made encode tls hs ns target i l j l' \<and>
          prog = stage_encode (hop_stage ns j))"

lemma run_chain_hops_outcome:
  "i \<le> length ns \<Longrightarrow> run_chain_hops encode tls hs ns target fires i prog l = (r, prog') \<Longrightarrow>
    hops_outcome encode tls hs ns target fires i l r prog'"
proof (induction encode tls hs ns target fires i prog l rule: run_chain_hops.induct)
  case (1 encode tls hs ns target fires i prog l)
  note run = 1(3) [unfolded run_chain_hops.simps [of encode tls hs ns target fires i prog l], unfolded Let_def]
  show ?case
  proof (cases "length ns \<le> i")
    case True
    then show ?thesis using run 1(2) by (auto simp: hops_outcome_def intro: made_none)
  next
    case i: False
    show ?thesis
    proof (cases "fires = Some i")
      case True
      then have "r = None" "prog' = stage_encode (hop_stage ns i)" using run i by auto
      then show ?thesis unfolding hops_outcome_def using True i by (auto intro: made_none)
    next
      case f: False
      show ?thesis
      proof (cases "chain_hop encode tls hs (ns ! i) (hop_target ns target i) l")
        case (Inl e)
        then have "r = Some (Err \<lparr>ce_stage = hop_stage ns i, ce_error = e\<rparr>)" using run i f by simp
        then show ?thesis using Inl i by (auto simp: hops_outcome_def intro!: exI [of _ i] made_none)
      next
        case (Inr l')
        have "hops_outcome encode tls hs ns target fires (i + 1) l' r prog'"
          using 1(1) [OF i refl refl f Inr] run i f Inr by simp
        then show ?thesis using made_hop [of i ns encode tls hs target l l'] i Inr
          unfolding hops_outcome_def by (auto split: option.splits sum.splits) blast+
      qed
    qed
  qed
qed

lemma run_chain_hops_uncut: "fst (run_chain_hops encode tls hs ns target None i prog l) \<noteq> None"
proof (induction encode tls hs ns target "None :: nat option" i prog l rule: run_chain_hops.induct)
  case (1 encode tls hs ns target i prog l)
  then show ?case by (subst run_chain_hops.simps) (simp add: Let_def split: sum.splits)
qed

text \<open>What a result of dialling through gates may be.\<close>

definition chain_report ::
  "(bytes \<Rightarrow> bytes) \<Rightarrow> network \<Rightarrow> tls_connector option \<Rightarrow> dial_options \<Rightarrow> proxy_config \<Rightarrow> bytes \<Rightarrow> chain_error + any_upstream \<Rightarrow> bool" where
  "chain_report encode net tls opts proxy target r \<longleftrightarrow>
     (let ns = nodes proxy; hs = handshake_timeout opts
      in case r of
           Ok u \<Rightarrow> \<exists>c l. tcp_dial net (ns ! 0) (connect_timeout opts) = Ok c \<and> u = GateUpstream l \<and>
             hops_made encode tls hs ns target 0 (from_tcp, c) (length ns) l
         | Err x \<Rightarrow>
             let late = (\<exists>t. total_timeout opts = Some t \<and> ce_error x = Timeout TotalStage TotalTimeout (upstream_endpoint proxy) t)
             in (ce_stage x = StageConnect \<and> (check_tls ns tls = Err (ce_error x) \<or>
                   check_tls ns tls = Ok () \<and> (tcp_dial net (ns ! 0) (connect_timeout opts) = Err (ce_error x) \<or> late))) \<or>
                (\<exists>c j l. tcp_dial net (ns ! 0) (connect_timeout opts) = Ok c \<and> j < length ns \<and> ce_stage x = hop_stage ns j \<and>
                   hops_made encode tls hs ns target 0 (from_tcp, c) j l \<and>
                   (chain_hop encode tls hs (ns ! j) (hop_target ns target j) l = Err (ce_error x) \<or> late)))"

text \<open>The hops of a chain whose first connection was made.\<close>

lemma hops_report:
  assumes "total_timeout opts = None \<longrightarrow> f = None" "tcp_dial net (nodes proxy ! 0) (connect_timeout opts) = Ok c"
    and "length (nodes proxy) < 2 ^ 64"
    and run: "run_chain_hops encode tls (handshake_timeout opts) (nodes proxy) target f 0 (stage_encode StageConnect) (from_tcp, c) = (q, prog)"
  shows "\<exists>a. (case map_option (map_sum id GateUpstream) q of Some a \<Rightarrow> Some a
       | None \<Rightarrow> (case total_timeout opts of None \<Rightarrow> None | Some t \<Rightarrow> Some (Err (total_timeout_error proxy prog t)))) = Some a \<and>
     chain_report encode net tls opts proxy target a"
proof (cases q)
  case None
  note out = run_chain_hops_outcome [OF _ run, simplified, unfolded hops_outcome_def]
  have "total_timeout opts \<noteq> None"
    using assms(1) run None run_chain_hops_uncut [of encode tls "handshake_timeout opts" "nodes proxy" target 0 "stage_encode StageConnect" "(from_tcp, c)"]
    by auto
  then obtain t where t: "total_timeout opts = Some t" by blast
  obtain j l where j: "j < length (nodes proxy)" "hops_made encode tls (handshake_timeout opts) (nodes proxy) target 0 (from_tcp, c) j l"
      "prog = stage_encode (hop_stage (nodes proxy) j)"
    using out None by auto
  have "stage_decode prog = hop_stage (nodes proxy) j" using j hop_stage_round_trip assms(3) by simp
  then show ?thesis using None t assms(2) j(1,2) by (auto simp: chain_report_def Let_def total_timeout_error_def)
next
  case (Some a)
  note out = run_chain_hops_outcome [OF _ run, simplified, unfolded hops_outcome_def]
  show ?thesis using Some out assms(2) by (cases a) (auto simp: chain_report_def Let_def)
qed

text \<open>
  C21: dialling through gates always returns, and says what happened. A tunnel comes back after every node of
  the chain has made its hop. An error names the step: the preflight or the TCP connect, or the first hop
  that was not made, all hops before it having been made; the error is the one of that step, or the expiry
  of the total budget while that step was under way.
\<close>

theorem dial_chain_reports_the_step:
  assumes "pc_gate proxy \<noteq> None" "length (nodes proxy) < 2 ^ 64"
  shows "\<exists>r. dial_chain encode net tls fires proxy host port opts = Some r \<and>
    chain_report encode net tls opts proxy (host_port_format (target_host host) port) r"
proof -
  define ns where "ns = nodes proxy"
  define hs where "hs = handshake_timeout opts"
  define target where "target = host_port_format (target_host host) port"
  let ?f = "if total_timeout opts = None then None else fires"
  obtain r prog where inner: "chain_inner encode net tls proxy host port opts ?f = (r, prog)" by fastforce
  have dial: "dial_chain encode net tls fires proxy host port opts =
      (case r of Some a \<Rightarrow> Some a | None \<Rightarrow> (case total_timeout opts of None \<Rightarrow> None | Some t \<Rightarrow> Some (Err (total_timeout_error proxy prog t))))"
    using inner by (cases "total_timeout opts") (auto simp: dial_chain_def with_total_timeout_def split: option.splits)
  have z: "stage_decode (stage_encode StageConnect) = StageConnect" by (rule stage_round_trip) simp
  note report = chain_report_def Let_def ns_def [symmetric] hs_def [symmetric] target_def [symmetric]
  show ?thesis
  proof (cases "check_tls ns tls")
    case (Inl e)
    then have "r = Some (Err \<lparr>ce_stage = StageConnect, ce_error = e\<rparr>)" using inner assms by (auto simp: chain_inner_def ns_def)
    then show ?thesis unfolding dial using Inl by (simp add: report)
  next
    case ok: (Inr a)
    show ?thesis
    proof (cases "?f = Some 0")
      case True
      then obtain t where t: "total_timeout opts = Some t" by (auto split: if_splits)
      have "r = None" "prog = stage_encode StageConnect" using inner assms ok True by (auto simp: chain_inner_def ns_def)
      then show ?thesis unfolding dial using ok t z by (simp add: report total_timeout_error_def)
    next
      case f: False
      show ?thesis
      proof (cases "tcp_dial net (ns ! 0) (connect_timeout opts)")
        case (Inl e)
        then have "r = Some (Err \<lparr>ce_stage = StageConnect, ce_error = e\<rparr>)"
          using inner assms ok f by (auto simp: chain_inner_def ns_def)
        then show ?thesis unfolding dial using Inl ok by (simp add: report)
      next
        case (Inr c)
        obtain q where run: "run_chain_hops encode tls hs ns target (after_connect ?f) 0 (stage_encode StageConnect) (from_tcp, c) = (q, prog)"
          and r: "r = map_option (map_sum id GateUpstream) q"
          using inner assms ok f Inr
          by (cases "run_chain_hops encode tls hs ns target (after_connect ?f) 0 (stage_encode StageConnect) (from_tcp, c)")
            (auto simp: chain_inner_def ns_def hs_def target_def)
        have "total_timeout opts = None \<longrightarrow> after_connect ?f = None" by (simp add: after_connect_def)
        from hops_report [OF this Inr [unfolded ns_def] assms(2) run [unfolded ns_def hs_def]] show ?thesis
          unfolding dial r by (simp add: target_def)
      qed
    qed
  qed
qed

text \<open>A missing TLS connector, found before any socket is opened, is booked on the outermost node.\<close>

lemma preflight_convicts_first_hop: "check_tls ns tls = Err e \<Longrightarrow> h \<noteq> [] \<Longrightarrow> convicted h StageConnect e = Some (hd h)"
  by (auto simp: check_tls_def convicted_def blamed_def split: option.splits)

subsection \<open>A chain of proxies that answer\<close>

text \<open>What a node is sent to open a tunnel, and the answer of a node that opens it.\<close>

definition hop_request :: "(bytes \<Rightarrow> bytes) \<Rightarrow> proxy_config \<Rightarrow> bytes \<Rightarrow> bytes" where
  "hop_request encode node target =
     (if pc_protocol node = Socks5 then
        (case host_port_parse target of
           None \<Rightarrow> []
         | Some hp \<Rightarrow>
             (case socks5_auth node of
                None \<Rightarrow> [5, 1, 0]
              | Some (u, w) \<Rightarrow> [5, 1, 2] @ [1, of_nat (length u)] @ u @ [of_nat (length w)] @ w) @
             (case socks5_address (hp_host hp) of Err _ \<Rightarrow> [] | Ok (atyp, addr) \<Rightarrow> [5, 1, 0, atyp] @ addr @ u16_be (hp_port hp)))
      else connect_request encode target node)"

definition hop_answer :: "proxy_config \<Rightarrow> bytes" where
  "hop_answer node =
     (if pc_protocol node = Socks5
      then (case socks5_auth node of None \<Rightarrow> [5, 0] | Some _ \<Rightarrow> [5, 2, 1, 0]) @ reply_bytes SrvSocks5 Established
      else reply_bytes SrvHttp Established)"

text \<open>A target and credentials that fit the protocol of the node.\<close>

definition askable :: "proxy_config \<Rightarrow> bytes \<Rightarrow> bool" where
  "askable node target \<longleftrightarrow>
     (case pc_protocol node of
        Socks5 \<Rightarrow>
          (case host_port_parse target of
             None \<Rightarrow> False
           | Some hp \<Rightarrow> hp_host hp \<noteq> [] \<and> hp_port hp \<noteq> 0 \<and> length (hp_host hp) \<le> 255 \<and>
               (case socks5_auth node of None \<Rightarrow> True | Some (u, w) \<Rightarrow> length u \<le> 255 \<and> length w \<le> 255))
      | Http \<Rightarrow> \<not> list_ex (\<lambda>b. byte_is_control b \<or> is_ascii_whitespace b) target
      | Https \<Rightarrow> False)"

text \<open>A program run on an answer: it succeeds, wrote a request and left the rest.\<close>

definition answered :: "client_prog \<Rightarrow> bytes \<Rightarrow> bytes \<Rightarrow> bool" where
  "answered p req ans \<longleftrightarrow>
     (\<forall>c rest. unread c = ans @ rest \<longrightarrow>
        (\<exists>c'. run_on (\<lambda>_. True) p c = (Some (Ok ()), c') \<and> unread c' = rest \<and> outgoing c' = outgoing c @ req))"

lemma answeredD: "answered p req ans \<Longrightarrow> unread c = ans @ rest \<Longrightarrow>
    \<exists>c'. run_on (\<lambda>_. True) p c = (Some (Ok ()), c') \<and> unread c' = rest \<and> outgoing c' = outgoing c @ req"
  by (auto simp: answered_def)

lemma answered_ret: "answered (Ret (Ok ())) [] []"
  by (simp add: answered_def)

lemma answered_write: "answered k req ans \<Longrightarrow> answered (write_flush conv bs k) (bs @ req) ans"
proof -
  assume k: "answered k req ans"
  show ?thesis unfolding answered_def
  proof (intro allI impI)
    fix c rest assume "unread c = ans @ rest"
    then have "unread (c\<lparr>outgoing := outgoing c @ bs\<rparr>) = ans @ rest" by simp
    from answeredD [OF k this] show "\<exists>c'. run_on (\<lambda>_. True) (write_flush conv bs k) c = (Some (Ok ()), c') \<and> unread c' = rest \<and>
        outgoing c' = outgoing c @ bs @ req" by simp
  qed
qed

lemma answered_read:
  assumes "length bs = n" "answered (k bs) req ans"
  shows "answered (read_exact conv n k) req (bs @ ans)"
  unfolding answered_def
proof (intro allI impI)
  fix c rest assume c: "unread c = (bs @ ans) @ rest"
  have r: "run_on (\<lambda>_. True) (read_exact conv n k) c = run_on (\<lambda>_. True) (k bs) (consume n c)"
    by (rule run_read_exact [of c bs "ans @ rest"]) (use c assms(1) in auto)
  have "unread (consume n c) = ans @ rest" using c assms(1) by simp
  from answeredD [OF assms(2) this] show "\<exists>c'. run_on (\<lambda>_. True) (read_exact conv n k) c = (Some (Ok ()), c') \<and> unread c' = rest \<and>
      outgoing c' = outgoing c @ req" unfolding r by simp
qed

lemma answered_socks5_connect:
  assumes "length host \<le> 255"
  shows "\<exists>atyp addr. socks5_address host = Ok (atyp, addr) \<and>
    answered (socks5_connect host port) ([5, 1, 0, atyp] @ addr @ u16_be port) [5, 0, 0, 1, 0, 0, 0, 0, 0, 0]"
proof -
  obtain atyp addr where a: "socks5_address host = Ok (atyp, addr)" using assms that
    by (cases "parse_ipv4 host"; cases "parse_ipv6 host") (simp_all add: socks5_address_def)
  have "answered (read_bound_address 1) [] [0, 0, 0, 0, 0, 0]"
    unfolding read_bound_address_def using answered_read [of "[0, 0, 0, 0, 0, 0]" 6 "\<lambda>_. Ret (Ok ())" "[]" "[]"] answered_ret by simp
  then have "answered (read_exact from_io_error 4 (\<lambda>h.
               if h ! 0 \<noteq> 5 then protocol_err (Socks5BadVersion (h ! 0))
               else if h ! 1 \<noteq> 0 then Ret (Err (ProxyRejected Socks5 (Some (ucast (h ! 1))) []))
               else if h ! 2 \<noteq> 0 then protocol_err (Socks5BadReserved (h ! 2))
               else read_bound_address (h ! 3))) [] ([5, 0, 0, 1] @ [0, 0, 0, 0, 0, 0])"
    by (intro answered_read) simp_all
  from answered_write [OF this, of from_io_error "[5, 1, 0, atyp] @ addr @ u16_be port"]
  show ?thesis using a by (auto simp: socks5_connect_def)
qed

lemma answered_socks5:
  assumes "askable node target" "pc_protocol node = Socks5"
  shows "answered (handshake_over_stream target (socks5_auth node)) (hop_request encode node target) (hop_answer node)"
proof -
  obtain hp where hp: "host_port_parse target = Some hp" "hp_host hp \<noteq> []" "hp_port hp \<noteq> 0" "length (hp_host hp) \<le> 255"
    and cr: "case socks5_auth node of None \<Rightarrow> True | Some (u, w) \<Rightarrow> length u \<le> 255 \<and> length w \<le> 255"
    using assms by (auto simp: askable_def split: option.splits)
  obtain atyp addr where a: "socks5_address (hp_host hp) = Ok (atyp, addr)"
    and c: "answered (socks5_connect (hp_host hp) (hp_port hp)) ([5, 1, 0, atyp] @ addr @ u16_be (hp_port hp)) [5, 0, 0, 1, 0, 0, 0, 0, 0, 0]"
    using answered_socks5_connect [OF hp(4)] by blast
  have rep: "reply_bytes SrvSocks5 Established = [5, 0, 0, 1, 0, 0, 0, 0, 0, 0]"
    by (simp add: socks_reply_def)
  have "answered (socks5_negotiate (socks5_auth node) (socks5_connect (hp_host hp) (hp_port hp))) (hop_request encode node target) (hop_answer node)"
  proof (cases "socks5_auth node")
    case None
    have "answered (read_exact from_io_error 2 (\<lambda>r.
            if r ! 0 \<noteq> 5 then protocol_err (Socks5BadVersion (r ! 0))
            else if r ! 1 \<noteq> 0 then Ret (Err (MethodUnsupported (r ! 1) False))
            else socks5_connect (hp_host hp) (hp_port hp)))
        ([5, 1, 0, atyp] @ addr @ u16_be (hp_port hp)) ([5, 0] @ [5, 0, 0, 1, 0, 0, 0, 0, 0, 0])"
      by (rule answered_read) (use c in simp_all)
    from answered_write [OF this, of from_io_error "[5, 1, 0]"] show ?thesis
      using None assms(2) hp(1) a rep by (simp add: socks5_negotiate_def hop_request_def hop_answer_def)
  next
    case (Some uw)
    obtain u w where uw: "uw = (u, w)" by (cases uw)
    have len: "length u \<le> 255" "length w \<le> 255" using cr Some uw by auto
    have "answered (read_exact from_io_error 2 (\<lambda>r.
                if r ! 0 \<noteq> 1 then protocol_err (Socks5BadAuthVersion (r ! 0))
                else if r ! 1 \<noteq> 0 then Ret (Err (AuthFailed (r ! 1)))
                else socks5_connect (hp_host hp) (hp_port hp)))
        ([5, 1, 0, atyp] @ addr @ u16_be (hp_port hp)) ([1, 0] @ [5, 0, 0, 1, 0, 0, 0, 0, 0, 0])"
      by (rule answered_read) (use c in simp_all)
    from answered_write [OF this, of from_io_error "[1, of_nat (length u)] @ u @ [of_nat (length w)] @ w"]
    have sub: "answered (socks5_subnegotiate u w (socks5_connect (hp_host hp) (hp_port hp)))
        (([1, of_nat (length u)] @ u @ [of_nat (length w)] @ w) @ [5, 1, 0, atyp] @ addr @ u16_be (hp_port hp))
        ([1, 0] @ [5, 0, 0, 1, 0, 0, 0, 0, 0, 0])"
      using len by (simp add: socks5_subnegotiate_def)
    have "answered (read_exact from_io_error 2 (\<lambda>r.
            if r ! 0 \<noteq> 5 then protocol_err (Socks5BadVersion (r ! 0))
            else if r ! 1 \<noteq> 2 then Ret (Err (MethodUnsupported (r ! 1) True))
            else socks5_subnegotiate u w (socks5_connect (hp_host hp) (hp_port hp))))
        (([1, of_nat (length u)] @ u @ [of_nat (length w)] @ w) @ [5, 1, 0, atyp] @ addr @ u16_be (hp_port hp))
        ([5, 2] @ [1, 0] @ [5, 0, 0, 1, 0, 0, 0, 0, 0, 0])"
      by (rule answered_read) (use sub in simp_all)
    from answered_write [OF this, of from_io_error "[5, 1, 2]"] show ?thesis
      using Some uw assms(2) hp(1) a rep by (simp add: socks5_negotiate_def hop_request_def hop_answer_def)
  qed
  then show ?thesis using hp by (simp add: handshake_over_stream_def socks5_handshake_def)
qed

lemma answered_http:
  assumes "askable node target" "pc_protocol node = Http"
  shows "answered (http_connect_handshake encode target node) (hop_request encode node target) (hop_answer node)"
  unfolding answered_def
proof (intro allI impI)
  fix c rest assume c: "unread c = hop_answer node @ rest"
  let ?d = "c\<lparr>outgoing := outgoing c @ connect_request encode target node\<rparr>"
  have t: "\<not> list_ex (\<lambda>b. byte_is_control b \<or> is_ascii_whitespace b) target" using assms by (simp add: askable_def)
  have run: "run_on (\<lambda>_. True) (http_connect_handshake encode target node) c = run_on (\<lambda>_. True) (response_loop response_head_new) ?d"
    using t by (simp add: http_connect_handshake_def write_connect_request_def)
  have "unread ?d = reply_bytes SrvHttp Established @ rest" using c assms(2) by (simp add: hop_answer_def)
  then obtain d' where d: "run_on (\<lambda>_. True) (response_loop response_head_new) ?d = (Some (Ok ()), d')" "unread d' = rest"
    using response_loop_reply [of ?d Established rest "\<lambda>_. True"] by (auto simp: http_client_result_def)
  moreover have "outgoing d' = outgoing ?d"
    using response_loop_reference [of "\<lambda>_. True" response_head_new ?d] d(1) by (simp add: shows_as_def)
  ultimately show "\<exists>c'. run_on (\<lambda>_. True) (http_connect_handshake encode target node) c = (Some (Ok ()), c') \<and> unread c' = rest \<and>
      outgoing c' = outgoing c @ hop_request encode node target"
    unfolding run using assms(2) by (simp add: hop_request_def)
qed

lemma hop_answered:
  assumes "askable node target" "unread (snd l) = hop_answer node @ rest"
  shows "\<exists>c. chain_hop encode tls hs node target l = Ok (fst l, c) \<and> unread c = rest \<and>
    outgoing c = outgoing (snd l) @ hop_request encode node target"
proof (cases "pc_protocol node")
  case Socks5
  from answeredD [OF answered_socks5 [OF assms(1) Socks5] assms(2), of encode] show ?thesis
    using Socks5 by (auto simp: chain_hop_def in_budget_def)
next
  case Http
  from answeredD [OF answered_http [OF assms(1) Http] assms(2), of encode] show ?thesis
    using Http by (auto simp: chain_hop_def in_budget_def)
next
  case Https
  then show ?thesis using assms(1) by (simp add: askable_def)
qed

lemma hops_answered:
  assumes "\<And>j. j < length ns \<Longrightarrow> askable (ns ! j) (hop_target ns target j)"
  shows "i \<le> length ns \<Longrightarrow> unread (snd l) = concat (map hop_answer (drop i ns)) @ payload \<Longrightarrow>
    \<exists>c prog'. run_chain_hops encode tls hs ns target None i prog l = (Some (Ok (fst l, c)), prog') \<and> unread c = payload \<and>
      outgoing c = outgoing (snd l) @ concat (map (\<lambda>j. hop_request encode (ns ! j) (hop_target ns target j)) [i..<length ns])"
proof (induction "length ns - i" arbitrary: i prog l)
  case 0
  then show ?case by (cases l) (subst run_chain_hops.simps, simp)
next
  case (Suc n)
  have i: "i < length ns" using Suc(2) by simp
  have "unread (snd l) = hop_answer (ns ! i) @ concat (map hop_answer (drop (i + 1) ns)) @ payload"
    using Suc.prems(2) Cons_nth_drop_Suc [OF i] by (metis Suc_eq_plus1 append.assoc concat.simps(2) list.simps(9))
  from hop_answered [OF assms [OF i] this] obtain c where c: "chain_hop encode tls hs (ns ! i) (hop_target ns target i) l = Ok (fst l, c)"
    "unread c = concat (map hop_answer (drop (i + 1) ns)) @ payload" "outgoing c = outgoing (snd l) @ hop_request encode (ns ! i) (hop_target ns target i)"
    by blast
  have "n = length ns - (i + 1)" "i + 1 \<le> length ns" using Suc(2) i by auto
  from Suc(1) [OF this, of "(fst l, c)" "stage_encode (hop_stage ns i)"] c(2)
  obtain d prog' where d: "run_chain_hops encode tls hs ns target None (i + 1) (stage_encode (hop_stage ns i)) (fst l, c) = (Some (Ok (fst l, d)), prog')"
    "unread d = payload" "outgoing d = outgoing c @ concat (map (\<lambda>j. hop_request encode (ns ! j) (hop_target ns target j)) [i + 1..<length ns])"
    by auto
  show ?case
    using i d c(3) by (subst run_chain_hops.simps) (simp add: Let_def c(1) upt_conv_Cons)
qed

text \<open>
  C22: a chain of SOCKS5 and HTTP proxies whose answers open the tunnels is dialled through, whatever the
  segmentation: what goes over the one socket is, in order, the request of each node, which names the
  address of the next node and at last the target, and the bytes behind the answers are left to the user of the
  tunnel.
\<close>

theorem dial_chain_over_opens_the_tunnel:
  assumes "\<And>j. j < length (nodes proxy) \<Longrightarrow>
      askable (nodes proxy ! j) (hop_target (nodes proxy) (host_port_format (target_host host) port) j)"
    and "unread c = concat (map hop_answer (nodes proxy)) @ payload" "total_timeout opts = None"
  shows "\<exists>c'. dial_chain_over encode tls fires c proxy host port opts = Some (Ok (GateUpstream (from_tcp, c'))) \<and> unread c' = payload \<and>
    outgoing c' = outgoing c @ concat (map (\<lambda>j. hop_request encode (nodes proxy ! j)
      (hop_target (nodes proxy) (host_port_format (target_host host) port) j)) [0..<length (nodes proxy)])"
proof -
  let ?ns = "nodes proxy" and ?t = "host_port_format (target_host host) port"
  have "pc_protocol n \<noteq> Https" if n: "n \<in> set ?ns" for n
  proof -
    obtain j where "j < length ?ns" "?ns ! j = n" using n by (auto simp: in_set_conv_nth)
    then show ?thesis using assms(1) [of j] by (auto simp: askable_def)
  qed
  then have "List.find (\<lambda>n. pc_protocol n = Https) ?ns = None" by (auto simp: find_None_iff)
  then have tls: "check_tls ?ns tls = Ok ()" by (simp add: check_tls_def)
  obtain d prog where d: "run_chain_hops encode tls (handshake_timeout opts) ?ns ?t None 0 (stage_encode StageConnect) (from_tcp, c) =
      (Some (Ok (from_tcp, d)), prog)" "unread d = payload"
    "outgoing d = outgoing c @ concat (map (\<lambda>j. hop_request encode (?ns ! j) (hop_target ?ns ?t j)) [0..<length ?ns])"
    using hops_answered [of ?ns ?t 0 "(from_tcp, c)" payload encode tls "handshake_timeout opts" "stage_encode StageConnect"] assms(1,2) by auto
  then show ?thesis using assms(3) tls by (simp add: dial_chain_over_def with_total_timeout_def over_inner_def)
qed

subsection \<open>The slots of a pooled chain\<close>

lemma drop_stream_inv: "pool_inv s (mset (stream_permits u) + R) \<Longrightarrow> pool_inv (drop_stream u s) R"
  by (simp add: drop_stream_def pool_inv_releases)

definition acquiring_permits :: "acquiring \<Rightarrow> permit multiset" where
  "acquiring_permits a = (case a of Acquired u \<Rightarrow> mset (stream_permits u) | AcquireFailed _ \<Rightarrow> {#} | Dialing p \<Rightarrow> {#p#})"

lemma acquire_start_slot:
  assumes "acquire_start now is_dead proxy s = (a, t)"
  shows "case a of Acquired u \<Rightarrow> length (stream_permits u) = 1 | _ \<Rightarrow> True"
  using assms
  by (auto simp: acquire_start_def with_permit_def stream_permits_def split: prod.splits option.splits sum.splits)

lemma reserve_inner_inv:
  assumes "pool_inv s (mset (stream_permits u) + R)" "reserve_inner i ns u s = (r, t)"
  shows "case r of
      Err x \<Rightarrow> pool_inv t R \<and> (\<exists>j < length ns. ce_stage x = StageHop (i + j - 1) \<and> (\<exists>s1 s2. reserve_permit (ns ! j) s1 = (Err (ce_error x), s2)))
    | Ok v \<Rightarrow> pool_inv t (mset (stream_permits v) + R) \<and> length (stream_permits v) = length (stream_permits u) + length ns"
  using assms
proof (induction ns arbitrary: i u s)
  case (Cons n ns)
  obtain q s1 where q: "reserve_permit n s = (q, s1)" by (cases "reserve_permit n s")
  note s1 = reserve_permit_inv [OF Cons.prems(1) q]
  show ?case
  proof (cases q)
    case (Inl e)
    then have "r = Err \<lparr>ce_stage = StageHop (i - 1), ce_error = e\<rparr>" "t = drop_stream u s1" using Cons.prems(2) q by auto
    moreover have "\<exists>s1 s2. reserve_permit n s1 = (Err e, s2)" using q Inl by blast
    moreover have "pool_inv (drop_stream u s1) R" using s1 Inl by (simp add: drop_stream_inv)
    ultimately show ?thesis by (simp add: exI [of _ 0])
  next
    case (Inr p)
    then have rest: "reserve_inner (i + 1) ns (attach_permit p u) s1 = (r, t)" using Cons.prems(2) q by simp
    have "pool_inv s1 (mset (stream_permits (attach_permit p u)) + R)" using s1 Inr by (simp add: attach_permits)
    note ih = Cons.IH [OF this rest]
    show ?thesis
    proof (cases r)
      case (Inl x)
      with ih obtain j where j: "j < length ns" "ce_stage x = StageHop (i + 1 + j - 1)"
        "\<exists>s1 s2. reserve_permit (ns ! j) s1 = (Err (ce_error x), s2)" by auto
      have "pool_inv t R" using ih Inl by simp
      moreover have "\<exists>k < length (n # ns). ce_stage x = StageHop (i + k - 1) \<and>
          (\<exists>s1 s2. reserve_permit ((n # ns) ! k) s1 = (Err (ce_error x), s2))"
        using j by (intro exI [of _ "Suc j"]) simp
      ultimately show ?thesis using Inl by simp
    next
      case (Inr v)
      then show ?thesis using ih by (simp add: attach_permit_def stream_permits_def)
    qed
  qed
qed auto

definition upstream_link :: "any_upstream \<Rightarrow> link" where
  "upstream_link a = (case a of PlainUpstream l \<Rightarrow> l | TlsUpstream l \<Rightarrow> l | DirectUpstream c \<Rightarrow> (from_tcp, c) | GateUpstream l \<Rightarrow> l)"

text \<open>Handshakes do not touch the slots of the connection.\<close>

lemma in_budget_keeps: "in_budget p late l = Ok l' \<Longrightarrow> fst l' = fst l"
  by (auto simp: in_budget_def split: prod.splits option.splits sum.splits)

lemma https_keeps: "https_on_stream encode connector target proxy hs l = Ok l' \<Longrightarrow> fst l' = fst l"
  by (auto simp: https_on_stream_def dest!: in_budget_keeps split: if_splits option.splits sum.splits)

lemma chain_hop_keeps: "chain_hop encode tls hs node target l = Ok l' \<Longrightarrow> fst l' = fst l"
  by (auto simp: chain_hop_def dest!: in_budget_keeps https_keeps split: proxy_protocol.splits option.splits)

lemma hops_made_keeps: "hops_made encode tls hs ns target i l j l' \<Longrightarrow> fst l' = fst l"
  by (induction rule: hops_made.induct) (auto dest: chain_hop_keeps)

lemma connect_proxy_on_keeps: "connect_proxy_on encode tls target proxy hs l = Ok a \<Longrightarrow> fst (upstream_link a) = fst l"
  by (auto simp: connect_proxy_on_def upstream_link_def map_sum_Ok dest!: in_budget_keeps https_keeps
      split: sum.splits proxy_protocol.splits option.splits)

lemma connect_chain_start_inv:
  assumes "pool_inv s R" "connect_chain_start now is_dead tls chain target s = (r, t)"
  shows "pool_inv t (case r of Err _ \<Rightarrow> R | Ok a \<Rightarrow> acquiring_permits a + R)"
proof -
  obtain a s1 where a: "acquire_start now is_dead (nodes chain ! 0) s = (a, s1)" by (cases "acquire_start now is_dead (nodes chain ! 0) s")
  show ?thesis using assms(2) acquire_start_inv [OF assms(1) a] assms(1) a
    by (auto simp: connect_chain_start_def acquiring_permits_def split: option.splits sum.splits acquiring.splits)
qed

lemma nodes_nonempty: "nodes c \<noteq> []"
  by (simp add: nodes_def walk_simp [of c])

lemma connect_chain_reserve_inv:
  assumes "pool_inv s (acquiring_permits a + R)" "case a of Acquired u \<Rightarrow> length (stream_permits u) = 1 | _ \<Rightarrow> True"
    and "connect_chain_reserve failure a chain s = (r, t)"
  shows "case r of Err _ \<Rightarrow> pool_inv t R
    | Ok u \<Rightarrow> pool_inv t (mset (stream_permits u) + R) \<and> length (stream_permits u) = length (nodes chain)"
proof -
  obtain q s1 where q: "(case a of Acquired u \<Rightarrow> (Ok u, s) | AcquireFailed e \<Rightarrow> (Err e, s) | Dialing p \<Rightarrow> acquire_finish failure p s) = (q, s1)"
    by fastforce
  have s1: "case q of Err _ \<Rightarrow> pool_inv s1 R | Ok u \<Rightarrow> pool_inv s1 (mset (stream_permits u) + R) \<and> length (stream_permits u) = 1"
    using q assms(1,2)
    by (auto simp: acquiring_permits_def acquire_finish_def with_permit_def stream_permits_def pool_inv_release
        split: acquiring.splits option.splits)
  have len: "length (nodes chain) = 1 + length (tl (nodes chain))" using nodes_nonempty [of chain] by (cases "nodes chain") auto
  show ?thesis
  proof (cases q)
    case (Inl e)
    then show ?thesis using assms(3) q s1 by (auto simp: connect_chain_reserve_def)
  next
    case (Inr u)
    show ?thesis
    proof (cases "length (nodes chain) = 1")
      case True
      then show ?thesis using assms(3) q s1 Inr by (auto simp: connect_chain_reserve_def)
    next
      case False
      then have "reserve_inner 1 (tl (nodes chain)) u s1 = (r, t)" using assms(3) q Inr by (auto simp: connect_chain_reserve_def)
      from reserve_inner_inv [OF _ this, of R] s1 Inr len show ?thesis by (auto split: sum.splits)
    qed
  qed
qed

lemma connect_chain_finish_inv:
  assumes "pool_inv s (mset (stream_permits u) + R)" "connect_chain_finish encode tls chain target hs (u, c) s = (r, t)"
  shows "case r of Err _ \<Rightarrow> pool_inv t R | Ok a \<Rightarrow> t = s \<and> fst (upstream_link a) = u"
proof (cases "length (nodes chain) = 1")
  case True
  then show ?thesis using assms drop_stream_inv [OF assms(1)] connect_proxy_on_keeps [of encode tls target "nodes chain ! 0" hs "(u, c)"]
    by (auto simp: connect_chain_finish_def split: sum.splits)
next
  case False
  show ?thesis
  proof (cases "host_port_parse target")
    case None
    then show ?thesis using assms(2) False drop_stream_inv [OF assms(1)] by (auto simp: connect_chain_finish_def)
  next
    case (Some hp)
    obtain q prog where q: "run_chain_hops encode tls hs (nodes chain) (host_port_format (hp_host hp) (hp_port hp)) None 0 (stage_encode StageConnect) (u, c) =
        (q, prog)" by fastforce
    note o = run_chain_hops_outcome [OF _ q, simplified, unfolded hops_outcome_def]
    have "fst l = u" if "q = Some (Ok l)" for l using o that hops_made_keeps by fastforce
    then show ?thesis using assms(2) False Some q drop_stream_inv [OF assms(1)]
      by (auto simp: connect_chain_finish_def upstream_link_def split: option.splits sum.splits)
  qed
qed

text \<open>
  C23: a pooled chain neither loses nor makes slots, whatever happens to the pool between its three parts.
  Where it fails, everything it held has been given back; once its slots are reserved, the connection holds one
  for every node of the chain, and the tunnel that is returned holds the same ones.
\<close>

theorem connect_chain_balances_slots:
  assumes "pool_inv s R" "connect_chain_start now is_dead tls chain target s = (start, s1)"
  shows "case start of
      Err _ \<Rightarrow> pool_inv s1 R
    | Ok a \<Rightarrow> pool_inv s1 (acquiring_permits a + R) \<and>
        (\<forall>s2 R2 failure. pool_inv s2 (acquiring_permits a + R2) \<longrightarrow>
          (case connect_chain_reserve failure a chain s2 of
             (Err _, s3) \<Rightarrow> pool_inv s3 R2
           | (Ok u, s3) \<Rightarrow> pool_inv s3 (mset (stream_permits u) + R2) \<and> length (stream_permits u) = length (nodes chain) \<and>
               (\<forall>s4 R4 c. pool_inv s4 (mset (stream_permits u) + R4) \<longrightarrow>
                 (case connect_chain_finish encode tls chain target hs (u, c) s4 of
                    (Err _, s5) \<Rightarrow> pool_inv s5 R4
                  | (Ok up, s5) \<Rightarrow> s5 = s4 \<and> fst (upstream_link up) = u))))"
proof (cases start)
  case (Inl e)
  then show ?thesis using connect_chain_start_inv [OF assms] by simp
next
  case (Inr a)
  have one: "case a of Acquired u \<Rightarrow> length (stream_permits u) = 1 | _ \<Rightarrow> True"
    using assms(2) Inr acquire_start_slot [of now is_dead "nodes chain ! 0" s]
    by (auto simp: connect_chain_start_def split: option.splits sum.splits prod.splits acquiring.splits)
  have fin: "case connect_chain_finish encode tls chain target hs (u, c) s4 of (Err _, s5) \<Rightarrow> pool_inv s5 R4 | (Ok up, s5) \<Rightarrow> s5 = s4 \<and> fst (upstream_link up) = u"
    if "pool_inv s4 (mset (stream_permits u) + R4)" for u c s4 R4
    using connect_chain_finish_inv [OF that, of encode tls chain target hs c]
    by (cases "connect_chain_finish encode tls chain target hs (u, c) s4") (auto split: sum.splits)
  have res: "case connect_chain_reserve failure a chain s2 of (Err _, s3) \<Rightarrow> pool_inv s3 R2
      | (Ok u, s3) \<Rightarrow> pool_inv s3 (mset (stream_permits u) + R2) \<and> length (stream_permits u) = length (nodes chain)"
    if "pool_inv s2 (acquiring_permits a + R2)" for s2 R2 failure
    using connect_chain_reserve_inv [OF that one, of failure chain]
    by (cases "connect_chain_reserve failure a chain s2") (auto split: sum.splits)
  show ?thesis using connect_chain_start_inv [OF assms] res fin Inr
    by (fastforce split: sum.splits prod.splits)
qed

subsection \<open>Witnesses\<close>

definition demo_chain :: proxy_config where
  "demo_chain = ProxyConfig Http [98] 80 None None 0 False (Some (ProxyConfig Socks5 [97] 81 None None 1 True None))"

lemma demo_chain_nodes: "nodes demo_chain = [ProxyConfig Socks5 [97] 81 None None 1 True None, demo_chain]"
  by (simp add: nodes_def demo_chain_def)

theorem dial_chain_reports_the_step_witness:
  "\<exists>r. dial_chain (\<lambda>s. s) (\<lambda>_ _. None) None (Some 3) demo_chain [99] 443 default_dial_options = Some r \<and>
     chain_report (\<lambda>s. s) (\<lambda>_ _. None) None default_dial_options demo_chain (host_port_format (target_host [99]) 443) r"
  by (rule dial_chain_reports_the_step) (simp_all add: demo_chain_nodes, simp add: demo_chain_def)

lemma demo_chain_http: "pc_protocol demo_chain = Http"
  by (simp add: demo_chain_def)

lemma demo_askable: "askable (nodes demo_chain ! 0) (host_port_format [98] 80)" "askable (nodes demo_chain ! 1) (host_port_format [99] 443)"
proof -
  have "canonical_host [98]" by (simp add: canonical_host_def)
  from host_port_parse_format [OF this] show "askable (nodes demo_chain ! 0) (host_port_format [98] 80)"
    by (simp add: demo_chain_nodes askable_def socks5_auth_def)
  have "fmt_u16 443 = [52, 52, 51]" by (simp add: fmt_u16_def radix_str_step radix_str_digit digit_char_def)
  then have "\<not> list_ex (\<lambda>b. byte_is_control b \<or> is_ascii_whitespace b) (host_port_format [99] 443)"
    by (cases "parse_ipv6 [99] = None") (simp_all add: host_port_format_def byte_is_control_def is_ascii_whitespace_def)
  then show "askable (nodes demo_chain ! 1) (host_port_format [99] 443)"
    using demo_chain_http by (simp add: demo_chain_nodes askable_def)
qed

theorem dial_chain_over_opens_the_tunnel_witness:
  "\<exists>c'. dial_chain_over (\<lambda>s. s) None None (demo_conn [hop_answer (nodes demo_chain ! 0), hop_answer (nodes demo_chain ! 1) @ [7]])
     demo_chain [99] 443 default_dial_options = Some (Ok (GateUpstream (from_tcp, c'))) \<and> unread c' = [7]"
proof -
  let ?c = "demo_conn [hop_answer (nodes demo_chain ! 0), hop_answer (nodes demo_chain ! 1) @ [7]]"
  have t: "target_host [99] = [99]" by (simp add: target_host_def)
  have a: "askable (nodes demo_chain ! j) (hop_target (nodes demo_chain) (host_port_format (target_host [99]) 443) j)"
    if "j < length (nodes demo_chain)" for j
  proof -
    have "j = 0 \<or> j = 1" using that by (auto simp: demo_chain_nodes)
    moreover have "hop_target (nodes demo_chain) (host_port_format [99] 443) 0 = host_port_format [98] 80"
      by (simp add: hop_target_def demo_chain_nodes) (simp add: demo_chain_def)
    moreover have "hop_target (nodes demo_chain) (host_port_format [99] 443) 1 = host_port_format [99] 443"
      by (simp add: hop_target_def demo_chain_nodes)
    ultimately show ?thesis using demo_askable t by auto
  qed
  have u: "unread ?c = concat (map hop_answer (nodes demo_chain)) @ [7]" by (simp add: demo_conn_def unread_def demo_chain_nodes)
  have o: "total_timeout default_dial_options = None" by (simp add: default_dial_options_def)
  from dial_chain_over_opens_the_tunnel [OF a u o] show ?thesis by blast
qed

theorem connect_chain_balances_slots_witness:
  "\<exists>s1. connect_chain_start 0 (\<lambda>_. False) None demo_chain (ascii ''a:1'') (ps_pool (pool_start default_pool_config 1)) = (Ok (Dialing 0), s1) \<and>
     pool_inv s1 {#0#}"
proof -
  have "pool_inv (ps_pool (pool_start default_pool_config 1)) (held (pool_start default_pool_config 1))"
    by (rule reachable_inv(1) [OF rtranclp.rtrancl_refl])
  then have i: "pool_inv (ps_pool (pool_start default_pool_config 1)) {#}" by (simp add: held_def pool_start_def)
  have "host_port_parse (ascii ''a:1'') \<noteq> None"
    by (simp add: host_port_parse_def parse_u16_def parse_uint_def to_digit_def)
  moreover have "check_tls (nodes demo_chain) None = Ok ()" by (simp add: check_tls_def demo_chain_nodes demo_chain_http)
  ultimately obtain s1 where r: "connect_chain_start 0 (\<lambda>_. False) None demo_chain (ascii ''a:1'') (ps_pool (pool_start default_pool_config 1)) =
      (Ok (Dialing 0), s1)"
    by (auto simp: connect_chain_start_def acquire_start_def checkout_prewarmed_def reserve_permit_def upstream_semaphore_def
        try_acquire_def pool_start_def pool_new_def default_pool_config_def)
  from connect_chain_balances_slots [OF i r] r show ?thesis by (auto simp: acquiring_permits_def)
qed

end
