(* ===== verification/Cli.thy ===== *)
theory Cli
  imports Auth
begin

text \<open>
  The user commands, \<open>cli/run_user_command.rs\<close>: a command is planned on the users it finds and applied to the
  users that are on disk when it holds the lock (theory \<open>UsersFile\<close>). What is typed is an argument: the two
  answers to the password prompts and the answer to the confirmation, \<open>None\<close> when reading fails, and whether the
  input is a terminal. The last section says what each operation means on the table of users by name.
\<close>

datatype user_action =
    AddUser bytes | AddInitUser bytes | SetPasswordOf bytes | RemoveUser bytes bool | ListUsers
  | EnableUser bytes | DisableUser bytes | DirectUser bytes | PoolUser bytes

datatype user_op =
    Add user | AddInit user | SetPassword bytes bytes | Remove bytes | SetEnabled bytes bool | SetDirect bytes bool

datatype cli_error =
    AlreadyExists bytes | NotFound bytes | EmptyName | NameTooLong | NameHasColon | EmptyPassword | PasswordTooLong
  | PasswordMismatch | ConsoleError | HashError | LockError | ReadError | FileVanished | CommitFailed

record console =
  co_terminal :: bool
  co_password :: "bytes option"
  co_again :: "bytes option"
  co_answer :: "bytes option"

subsection \<open>Planning a command\<close>

definition validate_name :: "bytes \<Rightarrow> cli_error + unit" where
  "validate_name name =
     (if name = [] then Err EmptyName
      else if 255 < length name then Err NameTooLong
      else if COLON \<in> set name then Err NameHasColon
      else Ok ())"

definition validate_password :: "bytes \<Rightarrow> cli_error + unit" where
  "validate_password p = (if p = [] then Err EmptyPassword else if 255 < length p then Err PasswordTooLong else Ok ())"

definition read_new_password :: "console \<Rightarrow> cli_error + bytes" where
  "read_new_password c =
     (case co_password c of
        None \<Rightarrow> Err ConsoleError
      | Some p \<Rightarrow>
          (case validate_password p of
             Err e \<Rightarrow> Err e
           | Ok _ \<Rightarrow>
               if \<not> co_terminal c then Ok p
               else (case co_again c of
                       None \<Rightarrow> Err ConsoleError
                     | Some q \<Rightarrow> if p \<noteq> q then Err PasswordMismatch else Ok p)))"

text \<open>A password is read, then hashed; hashing can fail.\<close>

definition new_hash :: "(bytes \<Rightarrow> bytes option) \<Rightarrow> console \<Rightarrow> cli_error + bytes" where
  "new_hash compute_hash c =
     (case read_new_password c of
        Err e \<Rightarrow> Err e
      | Ok p \<Rightarrow> (case compute_hash p of None \<Rightarrow> Err HashError | Some h \<Rightarrow> Ok h))"

definition find_user :: "user list \<Rightarrow> bytes \<Rightarrow> cli_error + user" where
  "find_user us name = (case List.find (\<lambda>u. u_name u = name) us of Some u \<Rightarrow> Ok u | None \<Rightarrow> Err (NotFound name))"

definition user_position :: "user list \<Rightarrow> bytes \<Rightarrow> cli_error + nat" where
  "user_position us name = (case position (\<lambda>u. u_name u = name) us of Some i \<Rightarrow> Ok i | None \<Rightarrow> Err (NotFound name))"

definition build_added_user :: "bytes \<Rightarrow> bytes \<Rightarrow> user" where
  "build_added_user name hash = \<lparr>u_name = name, u_hash = hash, u_enabled = True, u_direct = False, u_allowed = None\<rparr>"

definition check_new :: "user list \<Rightarrow> bytes \<Rightarrow> cli_error + unit" where
  "check_new us name =
     (case validate_name name of
        Err e \<Rightarrow> Err e
      | Ok _ \<Rightarrow> if list_ex (\<lambda>u. u_name u = name) us then Err (AlreadyExists name) else Ok ())"

definition add_user :: "(bytes \<Rightarrow> bytes option) \<Rightarrow> console \<Rightarrow> user list \<Rightarrow> bytes \<Rightarrow> cli_error + user_op" where
  "add_user compute_hash c us name =
     (case check_new us name of
        Err e \<Rightarrow> Err e
      | Ok _ \<Rightarrow> map_sum id (\<lambda>h. Add (build_added_user name h)) (new_hash compute_hash c))"

definition add_init_user :: "user list \<Rightarrow> bytes \<Rightarrow> cli_error + user_op" where
  "add_init_user us name = map_sum id (\<lambda>_. AddInit (build_added_user name INIT_HASH)) (check_new us name)"

definition set_password :: "(bytes \<Rightarrow> bytes option) \<Rightarrow> console \<Rightarrow> user list \<Rightarrow> bytes \<Rightarrow> cli_error + user_op" where
  "set_password compute_hash c us name =
     (case find_user us name of
        Err e \<Rightarrow> Err e
      | Ok _ \<Rightarrow> map_sum id (\<lambda>h. SetPassword name h) (new_hash compute_hash c))"

definition confirm :: "console \<Rightarrow> cli_error + bool" where
  "confirm c =
     (case co_answer c of
        None \<Rightarrow> Err ConsoleError
      | Some a \<Rightarrow> Ok (str_trim a \<in> {ascii ''y'', ascii ''Y'', ascii ''yes'', ascii ''Yes''}))"

definition remove_user :: "console \<Rightarrow> user list \<Rightarrow> bytes \<Rightarrow> bool \<Rightarrow> cli_error + user_op option" where
  "remove_user c us name skip_confirm =
     (case find_user us name of
        Err e \<Rightarrow> Err e
      | Ok _ \<Rightarrow>
          if \<not> skip_confirm \<and> co_terminal c
          then map_sum id (\<lambda>confirmed. if confirmed then Some (Remove name) else None) (confirm c)
          else Ok (Some (Remove name)))"

definition set_enabled :: "user list \<Rightarrow> bytes \<Rightarrow> bool \<Rightarrow> cli_error + user_op" where
  "set_enabled us name b = map_sum id (\<lambda>_. SetEnabled name b) (find_user us name)"

definition set_direct :: "user list \<Rightarrow> bytes \<Rightarrow> bool \<Rightarrow> cli_error + user_op" where
  "set_direct us name b = map_sum id (\<lambda>_. SetDirect name b) (find_user us name)"

text \<open>The operation of a command, \<open>None\<close> when it is done without one.\<close>

definition plan_command :: "(bytes \<Rightarrow> bytes option) \<Rightarrow> console \<Rightarrow> user_action \<Rightarrow> user list \<Rightarrow> cli_error + user_op option" where
  "plan_command compute_hash c action us =
     (case action of
        AddUser name \<Rightarrow> map_sum id Some (add_user compute_hash c us name)
      | AddInitUser name \<Rightarrow> map_sum id Some (add_init_user us name)
      | SetPasswordOf name \<Rightarrow> map_sum id Some (set_password compute_hash c us name)
      | RemoveUser name yes \<Rightarrow> remove_user c us name yes
      | ListUsers \<Rightarrow> Ok None
      | EnableUser name \<Rightarrow> map_sum id Some (set_enabled us name True)
      | DisableUser name \<Rightarrow> map_sum id Some (set_enabled us name False)
      | DirectUser name \<Rightarrow> map_sum id Some (set_direct us name True)
      | PoolUser name \<Rightarrow> map_sum id Some (set_direct us name False))"

subsection \<open>Applying an operation\<close>

definition update_user :: "user list \<Rightarrow> bytes \<Rightarrow> (user \<Rightarrow> user) \<Rightarrow> cli_error + user list" where
  "update_user us name f = map_sum id (\<lambda>i. us[i := f (us ! i)]) (user_position us name)"

definition insert_user :: "user list \<Rightarrow> user \<Rightarrow> cli_error + user list" where
  "insert_user us u = (if list_ex (\<lambda>v. u_name v = u_name u) us then Err (AlreadyExists (u_name u)) else Ok (us @ [u]))"

fun apply_op :: "user_op \<Rightarrow> user list \<Rightarrow> cli_error + user list" where
  "apply_op (Add u) us = insert_user us u"
| "apply_op (AddInit u) us = insert_user us u"
| "apply_op (SetPassword name h) us = update_user us name (\<lambda>u. u\<lparr>u_hash := h\<rparr>)"
| "apply_op (Remove name) us = map_sum id (\<lambda>i. take i us @ drop (i + 1) us) (user_position us name)"
| "apply_op (SetEnabled name b) us = update_user us name (\<lambda>u. u\<lparr>u_enabled := b\<rparr>)"
| "apply_op (SetDirect name b) us = update_user us name (\<lambda>u. u\<lparr>u_direct := b\<rparr>)"

subsection \<open>What an operation means\<close>

text \<open>The table of users by name.\<close>

definition table :: "user list \<Rightarrow> bytes \<Rightarrow> user option" where
  "table us name = List.find (\<lambda>u. u_name u = name) us"

text \<open>An operation on the table: \<open>None\<close> when it is refused.\<close>

fun table_op :: "user_op \<Rightarrow> (bytes \<Rightarrow> user option) \<Rightarrow> (bytes \<Rightarrow> user option) option" where
  "table_op (Add u) t = (if t (u_name u) = None then Some (t(u_name u \<mapsto> u)) else None)"
| "table_op (AddInit u) t = (if t (u_name u) = None then Some (t(u_name u \<mapsto> u)) else None)"
| "table_op (SetPassword name h) t = map_option (\<lambda>u. t(name \<mapsto> u\<lparr>u_hash := h\<rparr>)) (t name)"
| "table_op (Remove name) t = map_option (\<lambda>_. t(name := None)) (t name)"
| "table_op (SetEnabled name b) t = map_option (\<lambda>u. t(name \<mapsto> u\<lparr>u_enabled := b\<rparr>)) (t name)"
| "table_op (SetDirect name b) t = map_option (\<lambda>u. t(name \<mapsto> u\<lparr>u_direct := b\<rparr>)) (t name)"

text \<open>The first user of a name, by position and by lookup.\<close>

lemma table_position:
  "position (\<lambda>u. u_name u = name) us = None \<Longrightarrow> table us name = None"
  "position (\<lambda>u. u_name u = name) us = Some i \<Longrightarrow> table us name = Some (us ! i)"
  by (induction us arbitrary: i) (auto simp: table_def split: if_splits)

lemma table_update:
  assumes "position (\<lambda>u. u_name u = name) us = Some i" "\<And>u. u_name (f u) = u_name u"
  shows "table (us[i := f (us ! i)]) = (table us)(name \<mapsto> f (us ! i))"
  using assms(1)
proof (induction us arbitrary: i)
  case (Cons v us)
  then show ?case using assms(2) by (cases i) (auto simp: table_def fun_eq_iff split: if_splits)
qed simp

lemma table_remove:
  assumes "position (\<lambda>u. u_name u = name) us = Some i" "distinct (map u_name us)"
  shows "table (take i us @ drop (i + 1) us) = (table us)(name := None)"
  using assms
proof (induction us arbitrary: i)
  case (Cons v us)
  show ?case
  proof (cases "u_name v = name")
    case True
    then have "i = 0" "List.find (\<lambda>u. u_name u = name) us = None" using Cons.prems by (auto simp: find_None_iff) (metis image_eqI)
    then show ?thesis using True by (auto simp: table_def fun_eq_iff)
  next
    case False
    then obtain j where "i = Suc j" "position (\<lambda>u. u_name u = name) us = Some j" using Cons.prems(1) by auto
    then show ?thesis using Cons.IH [of j] Cons.prems(2) False by (auto simp: table_def fun_eq_iff)
  qed
qed simp

lemma distinct_remove:
  assumes "distinct xs"
  shows "distinct (take i xs @ drop (i + 1) xs)"
proof -
  have "distinct (take i xs @ drop i xs)" using assms by simp
  moreover have "drop (i + 1) xs = tl (drop i xs)" by (simp add: drop_Suc tl_drop)
  ultimately show ?thesis by (cases "drop i xs") auto
qed

lemma update_keeps_names:
  assumes "position (\<lambda>u. u_name u = name) us = Some i" "\<And>u. u_name (f u) = u_name u"
  shows "map u_name (us[i := f (us ! i)]) = map u_name us"
  using position_SomeD(1) [OF assms(1)] assms(2) by (simp add: map_update) (metis list_update_id nth_map)

text \<open>The three ways an operation changes the list.\<close>

lemma table_append: "table (us @ vs) name = (case table us name of None \<Rightarrow> table vs name | Some u \<Rightarrow> Some u)"
  by (induction us) (auto simp: table_def)

lemma insert_user_refines:
  "case insert_user us u of
     Ok us' \<Rightarrow> table us (u_name u) = None \<and> table us' = (table us)(u_name u \<mapsto> u) \<and>
                 (distinct (map u_name us) \<longrightarrow> distinct (map u_name us'))
   | Err _ \<Rightarrow> table us (u_name u) \<noteq> None"
  proof (cases "table us (u_name u)")
  case None
  then have "\<not> list_ex (\<lambda>v. u_name v = u_name u) us" by (auto simp: table_def find_None_iff list_ex_iff)
  then show ?thesis
    using None by (auto simp: insert_user_def table_append fun_eq_iff list_ex_iff split: option.splits) (auto simp: table_def)
next
  case (Some v)
  then have "list_ex (\<lambda>v. u_name v = u_name u) us" by (auto simp: table_def find_Some_iff list_ex_iff)
  then show ?thesis using Some by (simp add: insert_user_def)
qed

lemma update_user_refines:
  assumes "\<And>u. u_name (f u) = u_name u"
  shows "case update_user us name f of
     Ok us' \<Rightarrow> (\<exists>u. table us name = Some u \<and> table us' = (table us)(name \<mapsto> f u)) \<and> map u_name us' = map u_name us
   | Err _ \<Rightarrow> table us name = None"
proof (cases "position (\<lambda>u. u_name u = name) us")
  case (Some i)
  then show ?thesis
    using table_position(2) [OF Some] table_update [of name us i f, OF Some assms] update_keeps_names [of name us i f, OF Some assms]
    by (simp add: update_user_def user_position_def)
qed (simp add: update_user_def user_position_def table_position(1))

lemma remove_refines:
  assumes "distinct (map u_name us)"
  shows "case apply_op (Remove name) us of
     Ok us' \<Rightarrow> table us name \<noteq> None \<and> table us' = (table us)(name := None) \<and> distinct (map u_name us')
   | Err _ \<Rightarrow> table us name = None"
proof (cases "position (\<lambda>u. u_name u = name) us")
  case (Some i)
  then show ?thesis
    using table_position(2) [OF Some] table_remove [OF Some assms] distinct_remove [OF assms, of i]
    by (simp add: user_position_def take_map drop_map)
qed (simp add: user_position_def table_position(1))

lemma apply_op_refines:
  assumes "distinct (map u_name us)"
  shows "case apply_op op us of
     Ok us' \<Rightarrow> table_op op (table us) = Some (table us') \<and> distinct (map u_name us')
   | Err _ \<Rightarrow> table_op op (table us) = None"
proof (cases op)
  case (Add u)
  then show ?thesis using insert_user_refines [of us u] assms by (auto split: sum.splits)
next
  case (AddInit u)
  then show ?thesis using insert_user_refines [of us u] assms by (auto split: sum.splits)
next
  case (SetPassword name h)
  then show ?thesis using update_user_refines [of "\<lambda>u. u\<lparr>u_hash := h\<rparr>" us name] assms by (auto split: sum.splits)
next
  case (Remove name)
  then show ?thesis using remove_refines [OF assms, of name] by (auto split: sum.splits)
next
  case (SetEnabled name b)
  then show ?thesis using update_user_refines [of "\<lambda>u. u\<lparr>u_enabled := b\<rparr>" us name] assms by (auto split: sum.splits)
next
  case (SetDirect name b)
  then show ?thesis using update_user_refines [of "\<lambda>u. u\<lparr>u_direct := b\<rparr>" us name] assms by (auto split: sum.splits)
qed

subsection \<open>From the command line to the table\<close>

fun action_name :: "user_action \<Rightarrow> bytes option" where
  "action_name (AddUser name) = Some name"
| "action_name (AddInitUser name) = Some name"
| "action_name (SetPasswordOf name) = Some name"
| "action_name (RemoveUser name _) = Some name"
| "action_name ListUsers = None"
| "action_name (EnableUser name) = Some name"
| "action_name (DisableUser name) = Some name"
| "action_name (DirectUser name) = Some name"
| "action_name (PoolUser name) = Some name"

text \<open>A hash that a valid password was given for.\<close>

definition hashed :: "(bytes \<Rightarrow> bytes option) \<Rightarrow> bytes \<Rightarrow> bool" where
  "hashed compute_hash h \<longleftrightarrow> (\<exists>p. p \<noteq> [] \<and> length p \<le> 255 \<and> compute_hash p = Some h)"

text \<open>The operation of a planned command.\<close>

fun planned :: "(bytes \<Rightarrow> bytes option) \<Rightarrow> user_action \<Rightarrow> user_op \<Rightarrow> bool" where
  "planned compute_hash (AddUser name) op \<longleftrightarrow>
     validate_name name = Ok () \<and> (\<exists>h. op = Add (build_added_user name h) \<and> hashed compute_hash h)"
| "planned compute_hash (AddInitUser name) op \<longleftrightarrow>
     validate_name name = Ok () \<and> op = AddInit (build_added_user name INIT_HASH)"
| "planned compute_hash (SetPasswordOf name) op \<longleftrightarrow> (\<exists>h. op = SetPassword name h \<and> hashed compute_hash h)"
| "planned compute_hash (RemoveUser name _) op \<longleftrightarrow> op = Remove name"
| "planned compute_hash ListUsers op \<longleftrightarrow> False"
| "planned compute_hash (EnableUser name) op \<longleftrightarrow> op = SetEnabled name True"
| "planned compute_hash (DisableUser name) op \<longleftrightarrow> op = SetEnabled name False"
| "planned compute_hash (DirectUser name) op \<longleftrightarrow> op = SetDirect name True"
| "planned compute_hash (PoolUser name) op \<longleftrightarrow> op = SetDirect name False"

lemma new_hash_hashed: "new_hash compute_hash c = Ok h \<Longrightarrow> hashed compute_hash h"
  by (auto simp: new_hash_def read_new_password_def validate_password_def hashed_def
      split: sum.splits option.splits if_splits)

lemma plan_command_planned:
  assumes "plan_command compute_hash c action us = Ok (Some op)"
  shows "planned compute_hash action op"
  using assms
  by (cases action)
    (auto simp: plan_command_def add_user_def add_init_user_def set_password_def remove_user_def set_enabled_def
      set_direct_def check_new_def map_sum_Ok dest: new_hash_hashed split: sum.splits option.splits if_splits)

text \<open>C35: A user command, planned on the users it found and applied to the users that are on disk later, does to the
  table of users exactly what its operation says (or is refused exactly when the table refuses it), keeps the
  names distinct, touches no user but the one it names, and stores no hash that was not there before other than the
  placeholder of a user it adds or the hash of a password of 1 to 255 bytes.\<close>

theorem user_command_refines_table:
  assumes "plan_command compute_hash c action us0 = Ok (Some op)" "distinct (map u_name us)"
  shows "case apply_op op us of
     Ok us' \<Rightarrow>
       table_op op (table us) = Some (table us') \<and> distinct (map u_name us') \<and>
       (\<forall>n. Some n \<noteq> action_name action \<longrightarrow> table us' n = table us n) \<and>
       (\<forall>n u. table us' n = Some u \<longrightarrow>
          (\<exists>v. table us n = Some v \<and> u_hash v = u_hash u) \<or>
          action = AddInitUser n \<and> u_hash u = INIT_HASH \<or> hashed compute_hash (u_hash u))
   | Err _ \<Rightarrow> table_op op (table us) = None"
proof -
  have p: "planned compute_hash action op" using plan_command_planned [OF assms(1)] .
  have changed: "(\<forall>n. Some n \<noteq> action_name action \<longrightarrow> t n = table us n) \<and>
      (\<forall>n u. t n = Some u \<longrightarrow> (\<exists>v. table us n = Some v \<and> u_hash v = u_hash u) \<or>
          action = AddInitUser n \<and> u_hash u = INIT_HASH \<or> hashed compute_hash (u_hash u))"
    if "table_op op (table us) = Some t" for t
    using that p by (cases action) (auto simp: build_added_user_def split: if_splits)
  show ?thesis using apply_op_refines [OF assms(2), of op] changed by (auto split: sum.splits)
qed

definition demo_console :: console where
  "demo_console = \<lparr>co_terminal = True, co_password = Some [1], co_again = Some [1], co_answer = None\<rparr>"

theorem user_command_refines_table_witness:
  "let h = \<lambda>p. Some (9 # p); u = build_added_user [65] [9, 1]; v = build_added_user [66] INIT_HASH
   in plan_command h demo_console (AddUser [65]) [] = Ok (Some (Add u)) \<and> distinct (map u_name [v]) \<and>
      apply_op (Add u) [v] = Ok [v, u] \<and> table_op (Add u) (table [v]) = Some (table [v, u])"
proof -
  define h where "h = (\<lambda>p :: bytes. Some (9 # p))"
  define u where "u = build_added_user [65] [9, 1]"
  define v where "v = build_added_user [66] INIT_HASH"
  have p: "plan_command h demo_console (AddUser [65]) [] = Ok (Some (Add u))" by (simp add: h_def u_def) code_simp
  have d: "distinct (map u_name [v])" by simp
  have a: "apply_op (Add u) [v] = Ok [v, u]" by (simp add: u_def v_def) code_simp
  show ?thesis using user_command_refines_table [OF p d] p d a by (simp add: h_def u_def v_def)
qed

end
