(* ===== verification/UsersFile.thy ===== *)
theory UsersFile
  imports Cli
begin

text \<open>
  The users file under concurrent writers: \<open>config/users/users_file\<close> (the lock and the atomic replacement), the
  first load in \<open>config/load_or_init.rs\<close>, the commit of a user command and the claim of a running server
  (\<open>persist_claim\<close>). The processes interleave at every access to the shared files; the lock belongs to the
  operating system and is released when its holder dies, and a process that dies while it writes leaves its
  temporary file behind. The result: whatever the interleaving and whoever is killed, the file is what the
  successful changes give when they are made one after the other.
\<close>

text \<open>What a process does to the file: a command, the claim of a server (with the list it writes when it saw no
  file) or the creation of an empty file.\<close>

datatype file_op = Command user_op | Claim bytes bytes "user list option" | Create

definition apply_claim :: "bytes \<Rightarrow> bytes \<Rightarrow> user list option \<Rightarrow> users_file \<Rightarrow> cli_error + user list" where
  "apply_claim name h fallback disk =
     (case disk of
        None \<Rightarrow> (case fallback of None \<Rightarrow> Err FileVanished | Some us \<Rightarrow> Ok us)
      | Some us \<Rightarrow>
          (case position (\<lambda>u. u_name u = name) us of
             None \<Rightarrow> Err (NotFound name)
           | Some i \<Rightarrow>
               if u_hash (us ! i) \<noteq> INIT_HASH then Err (AlreadyExists name) else Ok (us[i := (us ! i)\<lparr>u_hash := h\<rparr>])))"

fun apply_file_op :: "file_op \<Rightarrow> users_file \<Rightarrow> cli_error + user list" where
  "apply_file_op (Command op) None = Err ReadError"
| "apply_file_op (Command op) (Some us) = apply_op op us"
| "apply_file_op (Claim name h fallback) disk = apply_claim name h fallback disk"
| "apply_file_op Create None = Ok []"
| "apply_file_op Create (Some _) = Err CommitFailed"

subsection \<open>Processes and the files they share\<close>

datatype writer =
    Loading console user_action
  | InitWaiting console user_action
  | InitHolding console user_action
  | InitWriting console user_action
  | InitReleasing console user_action "cli_error + user list"
  | Waiting file_op
  | Holding file_op
  | Fresh file_op users_file
  | Writing file_op "user list"
  | Releasing file_op "cli_error + unit"
  | Exited "file_op option" "cli_error + unit"
  | Killed "file_op option"

text \<open>The users file, its temporary file, the holder of the lock, the processes and the history of replacements.\<close>

record users_world =
  uw_disk :: users_file
  uw_tmp :: bool
  uw_holder :: "nat option"
  uw_procs :: "nat \<Rightarrow> writer"
  uw_log :: "(nat \<times> file_op) list"

definition at :: "nat \<Rightarrow> writer \<Rightarrow> users_world \<Rightarrow> users_world" where
  "at i p y = y\<lparr>uw_procs := (uw_procs y)(i := p)\<rparr>"

text \<open>One attempt of \<open>acquire\<close> (\<open>None\<close> while another process holds the lock), and the release on drop.\<close>

definition try_lock :: "nat \<Rightarrow> users_world \<Rightarrow> users_world option" where
  "try_lock i y = (case uw_holder y of None \<Rightarrow> Some (y\<lparr>uw_holder := Some i\<rparr>) | Some _ \<Rightarrow> None)"

definition drop_lock :: "users_world \<Rightarrow> users_world" where
  "drop_lock y = y\<lparr>uw_holder := None\<rparr>"

text \<open>The parts of \<open>write_atomic\<close>: the temporary file must be new, a failed write removes it again (which may fail
  too), and the commit puts it in the place of the users file.\<close>

definition create_tmp :: "users_world \<Rightarrow> users_world option" where
  "create_tmp y = (if uw_tmp y then None else Some (y\<lparr>uw_tmp := True\<rparr>))"

definition discard_tmp :: "bool \<Rightarrow> users_world \<Rightarrow> users_world" where
  "discard_tmp removed y = y\<lparr>uw_tmp := \<not> removed\<rparr>"

definition commit_tmp :: "nat \<Rightarrow> file_op \<Rightarrow> user list \<Rightarrow> users_world \<Rightarrow> users_world" where
  "commit_tmp i f us y = y\<lparr>uw_disk := Some us, uw_tmp := False, uw_log := uw_log y @ [(i, f)]\<rparr>"

text \<open>A command goes on with the users it loaded.\<close>

definition after_load :: "(bytes \<Rightarrow> bytes option) \<Rightarrow> console \<Rightarrow> user_action \<Rightarrow> cli_error + user list \<Rightarrow> writer" where
  "after_load compute_hash c action r =
     (case r of
        Err e \<Rightarrow> Exited None (Err e)
      | Ok us \<Rightarrow>
          (case plan_command compute_hash c action us of
             Err e \<Rightarrow> Exited None (Err e)
           | Ok None \<Rightarrow> Exited None (Ok ())
           | Ok (Some op) \<Rightarrow> Waiting (Command op)))"

fun op_of :: "writer \<Rightarrow> file_op option" where
  "op_of (Waiting f) = Some f"
| "op_of (Holding f) = Some f"
| "op_of (Fresh f _) = Some f"
| "op_of (Writing f _) = Some f"
| "op_of (Releasing f _) = Some f"
| "op_of (Exited f _) = f"
| "op_of (Killed f) = f"
| "op_of _ = None"

fun ended :: "writer \<Rightarrow> bool" where
  "ended (Exited _ _) \<longleftrightarrow> True"
| "ended (Killed _) \<longleftrightarrow> True"
| "ended _ \<longleftrightarrow> False"

text \<open>The death of a process gives the lock back and leaves the temporary file.\<close>

definition die :: "nat \<Rightarrow> users_world \<Rightarrow> users_world" where
  "die i y = at i (Killed (op_of (uw_procs y i))) (if uw_holder y = Some i then drop_lock y else y)"

inductive users_step :: "(bytes \<Rightarrow> bytes option) \<Rightarrow> users_world \<Rightarrow> users_world \<Rightarrow> bool" for compute_hash where
  load_found: "uw_procs y i = Loading c a \<Longrightarrow> uw_disk y = Some us \<Longrightarrow> r = Ok us \<or> r = Err ReadError \<Longrightarrow>
    users_step compute_hash y (at i (after_load compute_hash c a r) y)"
| load_missing: "uw_procs y i = Loading c a \<Longrightarrow> uw_disk y = None \<Longrightarrow> users_step compute_hash y (at i (InitWaiting c a) y)"
| init_acquire: "uw_procs y i = InitWaiting c a \<Longrightarrow> try_lock i y = Some z \<Longrightarrow>
    users_step compute_hash y (at i (InitHolding c a) z)"
| init_timeout: "uw_procs y i = InitWaiting c a \<Longrightarrow> users_step compute_hash y (at i (Exited None (Err LockError)) y)"
| init_found: "uw_procs y i = InitHolding c a \<Longrightarrow> uw_disk y = Some us \<Longrightarrow> r = Ok us \<or> r = Err ReadError \<Longrightarrow>
    users_step compute_hash y (at i (InitReleasing c a r) y)"
| init_create: "uw_procs y i = InitHolding c a \<Longrightarrow> uw_disk y = None \<Longrightarrow> create_tmp y = Some z \<Longrightarrow>
    users_step compute_hash y (at i (InitWriting c a) z)"
| init_refused: "uw_procs y i = InitHolding c a \<Longrightarrow> uw_disk y = None \<Longrightarrow>
    users_step compute_hash y (at i (InitReleasing c a (Err CommitFailed)) y)"
| init_failed: "uw_procs y i = InitWriting c a \<Longrightarrow>
    users_step compute_hash y (at i (InitReleasing c a (Err CommitFailed)) (discard_tmp b y))"
| init_commit: "uw_procs y i = InitWriting c a \<Longrightarrow> r = Ok [] \<or> r = Err CommitFailed \<Longrightarrow>
    users_step compute_hash y (at i (InitReleasing c a r) (commit_tmp i Create [] y))"
| init_release: "uw_procs y i = InitReleasing c a r \<Longrightarrow>
    users_step compute_hash y (at i (after_load compute_hash c a r) (drop_lock y))"
| lock_acquire: "uw_procs y i = Waiting f \<Longrightarrow> try_lock i y = Some z \<Longrightarrow> users_step compute_hash y (at i (Holding f) z)"
| lock_timeout: "uw_procs y i = Waiting f \<Longrightarrow> users_step compute_hash y (at i (Exited (Some f) (Err LockError)) y)"
| read_fresh: "uw_procs y i = Holding f \<Longrightarrow> users_step compute_hash y (at i (Fresh f (uw_disk y)) y)"
| read_error: "uw_procs y i = Holding f \<Longrightarrow> users_step compute_hash y (at i (Releasing f (Err ReadError)) y)"
| refuse_op: "uw_procs y i = Fresh f d \<Longrightarrow> apply_file_op f d = Err e \<Longrightarrow>
    users_step compute_hash y (at i (Releasing f (Err e)) y)"
| write_create: "uw_procs y i = Fresh f d \<Longrightarrow> apply_file_op f d = Ok us \<Longrightarrow> create_tmp y = Some z \<Longrightarrow>
    users_step compute_hash y (at i (Writing f us) z)"
| write_refused: "uw_procs y i = Fresh f d \<Longrightarrow> apply_file_op f d = Ok us \<Longrightarrow>
    users_step compute_hash y (at i (Releasing f (Err CommitFailed)) y)"
| write_failed: "uw_procs y i = Writing f us \<Longrightarrow>
    users_step compute_hash y (at i (Releasing f (Err CommitFailed)) (discard_tmp b y))"
| commit: "uw_procs y i = Writing f us \<Longrightarrow> r = Ok () \<or> r = Err CommitFailed \<Longrightarrow>
    users_step compute_hash y (at i (Releasing f r) (commit_tmp i f us y))"
| release: "uw_procs y i = Releasing f r \<Longrightarrow> users_step compute_hash y (at i (Exited (Some f) r) (drop_lock y))"
| kill: "\<not> ended (uw_procs y i) \<Longrightarrow> users_step compute_hash y (die i y)"

subsection \<open>One change after the other\<close>

text \<open>The changes of a history, made in order.\<close>

fun replay :: "users_file \<Rightarrow> (nat \<times> file_op) list \<Rightarrow> users_file option" where
  "replay d [] = Some d"
| "replay d ((_, f) # fs) = (case apply_file_op f d of Ok us \<Rightarrow> replay (Some us) fs | Err _ \<Rightarrow> None)"

lemma replay_snoc:
  "replay d (fs @ [(i, f)]) =
     (case replay d fs of None \<Rightarrow> None | Some e \<Rightarrow> (case apply_file_op f e of Ok us \<Rightarrow> Some (Some us) | Err _ \<Rightarrow> None))"
  by (induction d fs rule: replay.induct) (auto split: sum.splits)

definition named_once :: "users_file \<Rightarrow> bool" where
  "named_once d \<longleftrightarrow> (case d of None \<Rightarrow> True | Some us \<Rightarrow> distinct (map u_name us))"

text \<open>The changes that processes ask for; the creation of the empty file is not one of them.\<close>

fun proper_op :: "file_op \<Rightarrow> bool" where
  "proper_op (Command _) \<longleftrightarrow> True"
| "proper_op (Claim _ _ fallback) \<longleftrightarrow> named_once fallback"
| "proper_op Create \<longleftrightarrow> False"

definition changes :: "(nat \<times> file_op) list \<Rightarrow> (nat \<times> file_op) list" where
  "changes log = filter (\<lambda>(i, f). f \<noteq> Create) log"

lemma changes_snoc [simp]: "changes (log @ [(i, f)]) = (if f = Create then changes log else changes log @ [(i, f)])"
  by (simp add: changes_def)

lemma apply_file_op_names:
  assumes "apply_file_op f d = Ok us" "named_once d" "f = Create \<or> proper_op f"
  shows "named_once (Some us)"
proof (cases f)
  case (Command op)
  then obtain vs where "d = Some vs" "apply_op op vs = Ok us" using assms(1) by (cases d) auto
  then show ?thesis using apply_op_refines [of vs op] assms(2) by (simp add: named_once_def)
next
  case (Claim name h fallback)
  show ?thesis
  proof (cases d)
    case None
    then show ?thesis using Claim assms by (auto simp: apply_claim_def split: option.splits)
  next
    case (Some vs)
    then obtain i where i: "position (\<lambda>u. u_name u = name) vs = Some i" "us = vs[i := (vs ! i)\<lparr>u_hash := h\<rparr>]"
      using Claim assms(1) by (auto simp: apply_claim_def split: option.splits if_splits)
    then show ?thesis using update_keeps_names [OF i(1), of "\<lambda>u. u\<lparr>u_hash := h\<rparr>"] assms(2) Some by (simp add: named_once_def)
  qed
next
  case Create
  then show ?thesis using assms(1) by (cases d) (auto simp: named_once_def)
qed

fun holds :: "writer \<Rightarrow> bool" where
  "holds (InitHolding _ _) \<longleftrightarrow> True"
| "holds (InitWriting _ _) \<longleftrightarrow> True"
| "holds (InitReleasing _ _ _) \<longleftrightarrow> True"
| "holds (Holding _) \<longleftrightarrow> True"
| "holds (Fresh _ _) \<longleftrightarrow> True"
| "holds (Writing _ _) \<longleftrightarrow> True"
| "holds (Releasing _ _) \<longleftrightarrow> True"
| "holds _ \<longleftrightarrow> False"

text \<open>What a process that holds the lock knows of the file.\<close>

fun knows :: "writer \<Rightarrow> users_file \<Rightarrow> bool" where
  "knows (Fresh _ d) disk \<longleftrightarrow> d = disk"
| "knows (Writing f us) disk \<longleftrightarrow> apply_file_op f disk = Ok us"
| "knows (InitWriting _ _) disk \<longleftrightarrow> disk = None"
| "knows _ disk \<longleftrightarrow> True"

text \<open>What the history says about a process.\<close>

fun booked_as :: "writer \<Rightarrow> nat \<Rightarrow> (nat \<times> file_op) list \<Rightarrow> bool" where
  "booked_as (Releasing f (Inr _)) i log \<longleftrightarrow> (i, f) \<in> set log"
| "booked_as (Exited (Some f) (Inr _)) i log \<longleftrightarrow> (i, f) \<in> set log"
| "booked_as (Releasing _ (Inl e)) i log \<longleftrightarrow> e = CommitFailed \<or> i \<notin> fst ` set log"
| "booked_as (Exited _ (Inl e)) i log \<longleftrightarrow> e = CommitFailed \<or> i \<notin> fst ` set log"
| "booked_as (Killed _) i log \<longleftrightarrow> True"
| "booked_as _ i log \<longleftrightarrow> i \<notin> fst ` set log"

definition proc_ok :: "users_file \<Rightarrow> (nat \<times> file_op) list \<Rightarrow> nat \<Rightarrow> writer \<Rightarrow> bool" where
  "proc_ok disk log i p \<longleftrightarrow> knows p disk \<and> booked_as p i (changes log) \<and> (\<forall>f. op_of p = Some f \<longrightarrow> proper_op f)"

definition users_inv :: "users_file \<Rightarrow> users_world \<Rightarrow> bool" where
  "users_inv d y \<longleftrightarrow>
     (\<forall>i. uw_holder y = Some i \<longleftrightarrow> holds (uw_procs y i)) \<and>
     (\<forall>i. proc_ok (uw_disk y) (uw_log y) i (uw_procs y i)) \<and>
     replay d (uw_log y) = Some (uw_disk y) \<and> named_once (uw_disk y) \<and> distinct (map fst (changes (uw_log y)))"

text \<open>A process that does not hold the lock knows nothing of the file, and what others change is not its own.\<close>

lemma proc_ok_other:
  assumes "proc_ok d log j p" "\<not> holds p" "i \<noteq> j"
  shows "proc_ok e (log @ [(i, f)]) j p"
proof -
  have "knows p e" using assms(2) by (cases p) auto
  moreover have "booked_as p j (changes (log @ [(i, f)]))"
    using assms(1, 3) by (cases "(p, j, changes log)" rule: booked_as.cases) (auto simp: proc_ok_def)
  ultimately show ?thesis using assms(1) by (simp add: proc_ok_def)
qed

text \<open>A step of one process that leaves the file alone, and a commit.\<close>

lemma users_inv_quiet:
  assumes "users_inv d y" "uw_disk z = uw_disk y" "uw_log z = uw_log y" "uw_procs z = uw_procs y"
    and "proc_ok (uw_disk y) (uw_log y) i p"
    and "uw_holder z = uw_holder y \<and> holds p = holds (uw_procs y i) \<or>
         uw_holder y = None \<and> uw_holder z = Some i \<and> holds p \<or>
         holds (uw_procs y i) \<and> uw_holder z = None \<and> \<not> holds p"
  shows "users_inv d (at i p z)"
proof -
  have held: "uw_holder y = Some j \<longleftrightarrow> holds (uw_procs y j)" for j using assms(1) by (simp add: users_inv_def)
  have "uw_holder z = Some j \<longleftrightarrow> (if j = i then holds p else holds (uw_procs y j))" for j
    using assms(6) held [of i] held [of j] by auto
  then show ?thesis using assms(1-5) unfolding users_inv_def at_def by auto
qed

lemma users_inv_commit:
  assumes inv: "users_inv d y" and i: "holds (uw_procs y i)" and f: "apply_file_op f (uw_disk y) = Ok us"
    and p: "holds p" "knows p (Some us)" "booked_as p i (changes (uw_log y @ [(i, f)]))" "\<forall>g. op_of p = Some g \<longrightarrow> proper_op g"
    and new: "f = Create \<or> proper_op f \<and> i \<notin> fst ` set (changes (uw_log y))"
  shows "users_inv d (at i p (commit_tmp i f us y))"
proof -
  have others: "\<not> holds (uw_procs y j)" if "j \<noteq> i" for j using inv i that by (simp add: users_inv_def) (metis option.inject)
  have "proc_ok (Some us) (uw_log y @ [(i, f)]) j (uw_procs y j)" if "j \<noteq> i" for j
    using proc_ok_other [of "uw_disk y" "uw_log y" j "uw_procs y j" i "Some us" f] others [OF that] inv that
    by (simp add: users_inv_def)
  moreover have "named_once (Some us)" using apply_file_op_names [OF f] inv new by (auto simp: users_inv_def)
  ultimately show ?thesis
    using inv i f p new others unfolding users_inv_def at_def commit_tmp_def
    by (auto simp: replay_snoc proc_ok_def)
qed

lemma after_load_ok:
  "\<not> holds (after_load compute_hash c a r)"
  "i \<notin> fst ` set (changes log) \<Longrightarrow> proc_ok d log i (after_load compute_hash c a r)"
  by (auto simp: after_load_def proc_ok_def split: sum.splits option.splits)

lemmas world_defs = try_lock_def drop_lock_def create_tmp_def discard_tmp_def

lemma users_inv_step:
  assumes "users_step compute_hash y z" "users_inv d y"
  shows "users_inv d z"
proof -
  have ok: "uw_procs y i = p \<Longrightarrow> proc_ok (uw_disk y) (uw_log y) i p" for i p
    using assms(2) by (auto simp: users_inv_def)
  note quiet = users_inv_quiet [OF assms(2)] and steps = proc_ok_def world_defs
  show ?thesis
    using assms(1)
  proof cases
    case (kill i)
    moreover have "uw_holder y = Some i \<longleftrightarrow> holds (uw_procs y i)" using assms(2) by (simp add: users_inv_def)
    ultimately show ?thesis using ok [OF refl, of i] by (auto intro!: quiet simp: steps die_def)
  next
    case (release i f r)
    then show ?thesis using ok [OF release(2)] by (cases r) (auto intro!: quiet simp: steps)
  next
    case (init_commit i c a r)
    then show ?thesis using ok [OF init_commit(2)] by (auto intro!: users_inv_commit [OF assms(2)] simp: steps)
  next
    case (commit i f us r)
    then show ?thesis using ok [OF commit(2)] by (auto intro!: users_inv_commit [OF assms(2)] simp: steps)
  next
    case (load_found i c a us r)
    then show ?thesis
      using ok [OF load_found(2), unfolded proc_ok_def] by (auto intro!: quiet simp: after_load_ok)
  next
    case (init_release i c a r)
    then show ?thesis
      using ok [OF init_release(2), unfolded proc_ok_def] by (auto intro!: quiet simp: after_load_ok world_defs)
  qed (frule ok, (auto intro!: quiet simp: steps split: option.splits if_splits)[1])+
qed

lemma users_inv_run:
  assumes "(users_step compute_hash)\<^sup>*\<^sup>* y z" "users_inv d y"
  shows "users_inv d z"
  using assms by (induction rule: rtranclp_induct) (auto intro: users_inv_step)

text \<open>Before anything happens: no history, no holder, every process about to load or to persist a claim.\<close>

fun starting :: "writer \<Rightarrow> bool" where
  "starting (Loading _ _) \<longleftrightarrow> True"
| "starting (Waiting (Claim _ _ fallback)) \<longleftrightarrow> named_once fallback"
| "starting _ \<longleftrightarrow> False"

definition users_start :: "users_world \<Rightarrow> bool" where
  "users_start y \<longleftrightarrow> uw_holder y = None \<and> uw_log y = [] \<and> named_once (uw_disk y) \<and> (\<forall>i. starting (uw_procs y i))"

lemma users_start_inv:
  assumes "users_start y"
  shows "users_inv (uw_disk y) y"
proof -
  have "\<not> holds p \<and> knows p d \<and> booked_as p i [] \<and> (\<forall>f. op_of p = Some f \<longrightarrow> proper_op f)" if "starting p" for p d i
    using that by (cases p rule: starting.cases) auto
  then show ?thesis using assms by (auto simp: users_start_def users_inv_def proc_ok_def changes_def)
qed

text \<open>C34: Whatever the interleaving of user commands and claims and whichever processes are killed at whatever point,
  the users file is what the successful changes give when they are made one after the other: no change is lost and
  none is overwritten by an older snapshot. Names stay distinct, no process changes the file twice, a process that
  reports success has made its change, and one that reports an error other than a failed commit has not.\<close>

theorem users_file_serializable:
  assumes "users_start y" "(users_step compute_hash)\<^sup>*\<^sup>* y z"
  shows "replay (uw_disk y) (uw_log z) = Some (uw_disk z) \<and> named_once (uw_disk z) \<and>
    distinct (map fst (changes (uw_log z))) \<and>
    (\<forall>i f. uw_procs z i = Exited (Some f) (Ok ()) \<longrightarrow> (i, f) \<in> set (uw_log z)) \<and>
    (\<forall>i f e. uw_procs z i = Exited f (Err e) \<and> e \<noteq> CommitFailed \<longrightarrow> i \<notin> fst ` set (changes (uw_log z)))"
proof -
  have inv: "users_inv (uw_disk y) z" using users_inv_run [OF assms(2) users_start_inv [OF assms(1)]] .
  have ok: "booked_as (uw_procs z i) i (changes (uw_log z))" for i using inv by (simp add: users_inv_def proc_ok_def)
  have "(i, f) \<in> set (uw_log z)" if "uw_procs z i = Exited (Some f) (Ok ())" for i f
    using ok [of i] that by (simp add: changes_def)
  moreover have "i \<notin> fst ` set (changes (uw_log z))" if "uw_procs z i = Exited f (Err e)" "e \<noteq> CommitFailed" for i f e
    using ok [of i] that by (cases f) simp_all
  ultimately show ?thesis using inv unfolding users_inv_def by blast
qed

text \<open>Two processes that add the same user: the first commits while the second still waits for the lock with a plan
  made on the empty list.\<close>

definition demo_user :: user where
  "demo_user = build_added_user [65] [9, 1]"

definition demo_world :: users_world where
  "demo_world = \<lparr>uw_disk = Some [], uw_tmp = False, uw_holder = None,
     uw_procs = (\<lambda>_. Loading demo_console (AddUser [65])), uw_log = []\<rparr>"

definition demo_world_later :: "writer \<Rightarrow> bool \<Rightarrow> nat option \<Rightarrow> users_file \<Rightarrow> (nat \<times> file_op) list \<Rightarrow> users_world" where
  "demo_world_later p t h d l = \<lparr>uw_disk = d, uw_tmp = t, uw_holder = h,
     uw_procs = (uw_procs demo_world)(1 := Waiting (Command (Add demo_user)), 0 := p), uw_log = l\<rparr>"

lemma demo_plan:
  "after_load (\<lambda>p. Some (9 # p)) demo_console (AddUser [65]) (Ok []) = Waiting (Command (Add demo_user))"
  unfolding demo_user_def by code_simp

lemma demo_users_run:
  "(users_step (\<lambda>p. Some (9 # p)))\<^sup>*\<^sup>* demo_world
     (demo_world_later (Exited (Some (Command (Add demo_user))) (Ok ())) False None (Some [demo_user]) [(0, Command (Add demo_user))])"
    (is "?R\<^sup>*\<^sup>* _ ?z")
proof -
  let ?f = "Command (Add demo_user)"
  let ?w = "\<lambda>p h. demo_world_later p False h (Some []) []"
  have one: "?R demo_world (at 1 (Waiting ?f) demo_world)"
    using users_step.load_found [of demo_world 1 demo_console "AddUser [65]" "[]" "Ok []" "\<lambda>p. Some (9 # p)"]
    by (simp add: demo_plan demo_world_def)
  have two: "?R (at 1 (Waiting ?f) demo_world) (?w (Waiting ?f) None)"
    using users_step.load_found [of "at 1 (Waiting ?f) demo_world" 0 demo_console "AddUser [65]" "[]" "Ok []" "\<lambda>p. Some (9 # p)"]
    by (simp add: demo_plan demo_world_def demo_world_later_def at_def)
  have three: "?R (?w (Waiting ?f) None) (?w (Holding ?f) (Some 0))"
    using users_step.lock_acquire [of "?w (Waiting ?f) None" 0 ?f "(?w (Waiting ?f) None)\<lparr>uw_holder := Some 0\<rparr>"]
    by (simp add: demo_world_later_def at_def try_lock_def)
  have four: "?R (?w (Holding ?f) (Some 0)) (?w (Fresh ?f (Some [])) (Some 0))"
    using users_step.read_fresh [of "?w (Holding ?f) (Some 0)" 0 ?f] by (simp add: demo_world_later_def at_def)
  have five: "?R (?w (Fresh ?f (Some [])) (Some 0)) (demo_world_later (Writing ?f [demo_user]) True (Some 0) (Some []) [])"
    using users_step.write_create [of "?w (Fresh ?f (Some [])) (Some 0)" 0 ?f "Some []" "[demo_user]"
        "(?w (Fresh ?f (Some [])) (Some 0))\<lparr>uw_tmp := True\<rparr>"]
    by (simp add: demo_world_later_def at_def create_tmp_def insert_user_def)
  have six: "?R (demo_world_later (Writing ?f [demo_user]) True (Some 0) (Some []) [])
      (demo_world_later (Releasing ?f (Ok ())) False (Some 0) (Some [demo_user]) [(0, ?f)])"
    using users_step.commit [of "demo_world_later (Writing ?f [demo_user]) True (Some 0) (Some []) []" 0 ?f "[demo_user]" "Ok ()"]
    by (simp add: demo_world_later_def at_def commit_tmp_def)
  have seven: "?R (demo_world_later (Releasing ?f (Ok ())) False (Some 0) (Some [demo_user]) [(0, ?f)]) ?z"
    using users_step.release [of "demo_world_later (Releasing ?f (Ok ())) False (Some 0) (Some [demo_user]) [(0, ?f)]" 0 ?f "Ok ()"]
    by (simp add: demo_world_later_def at_def drop_lock_def)
  show ?thesis
    using one two three four five six seven by (meson converse_rtranclp_into_rtranclp rtranclp.rtrancl_refl)
qed

theorem users_file_serializable_witness:
  "let f = Command (Add demo_user); z = demo_world_later (Exited (Some f) (Ok ())) False None (Some [demo_user]) [(0, f)]
   in users_start demo_world \<and> (users_step (\<lambda>p. Some (9 # p)))\<^sup>*\<^sup>* demo_world z \<and>
      replay (Some []) [(0, f)] = Some (Some [demo_user])"
proof -
  have s: "users_start demo_world" by (simp add: users_start_def demo_world_def named_once_def)
  show ?thesis
    using users_file_serializable [OF s demo_users_run] s demo_users_run by (simp add: demo_world_later_def) (simp add: demo_world_def)
qed

text \<open>A claim as \<open>persist_claim\<close> of the server makes it is the change booked here.\<close>

lemma persist_claim_applies:
  "persist_claim \<lparr>io_lock = True, io_read = True, io_write = w\<rparr> disk name h fallback =
     (case apply_file_op (Claim name h fallback) disk of
        Err FileVanished \<Rightarrow> (PersistFailed FileGone, disk)
      | Err (NotFound _) \<Rightarrow> (PersistFailed UserRemoved, disk)
      | Err _ \<Rightarrow> (DiskHashChanged (u_hash (the (table (the disk) name))), disk)
      | Ok us \<Rightarrow>
          (case write_atomic \<lparr>io_lock = True, io_read = True, io_write = w\<rparr> disk us of
             (True, disk') \<Rightarrow> (Written, disk') | (False, disk') \<Rightarrow> (PersistFailed WriteError, disk')))"
  by (auto simp: persist_claim_def apply_claim_def dest: table_position split: option.splits)

text \<open>A temporary file that a dead process left behind keeps every later change out: it may be the only copy of
  what that process wrote, and nothing but its removal by hand lets the file change again.\<close>

fun busy :: "writer \<Rightarrow> bool" where
  "busy (Writing _ _) \<longleftrightarrow> True"
| "busy (InitWriting _ _) \<longleftrightarrow> True"
| "busy _ \<longleftrightarrow> False"

lemma stale_temp_step:
  assumes "users_step compute_hash y z" "uw_tmp y" "\<forall>i. \<not> busy (uw_procs y i)"
  shows "uw_tmp z \<and> (\<forall>i. \<not> busy (uw_procs z i)) \<and> uw_disk z = uw_disk y"
proof -
  have nb: "uw_procs y i \<noteq> Writing f us" "uw_procs y i \<noteq> InitWriting c a" for i f us c a using assms(3) by (metis busy.simps(1, 2))+
  show ?thesis
    using assms(1)
    by cases (use assms(2,3) nb in \<open>auto simp: at_def try_lock_def drop_lock_def create_tmp_def die_def after_load_def
        split: option.splits sum.splits if_splits\<close>)
qed

lemma stale_temp_blocks_changes:
  assumes "(users_step compute_hash)\<^sup>*\<^sup>* y z" "uw_tmp y" "\<forall>i. \<not> busy (uw_procs y i)"
  shows "uw_disk z = uw_disk y"
proof -
  have "uw_tmp z \<and> (\<forall>i. \<not> busy (uw_procs z i)) \<and> uw_disk z = uw_disk y"
    using assms by (induction rule: rtranclp_induct) (auto dest: stale_temp_step)
  then show ?thesis by simp
qed

end
