(* ===== verification/AtomicFile.thy ===== *)
theory AtomicFile
  imports UsersFile Clock
begin

text \<open>
  The replacement of a file (\<open>write_atomic\<close> in \<open>config/users/users_file/mod.rs\<close> with the commit of
  \<open>platform_unix.rs\<close> and \<open>platform_windows.rs\<close>) and the wait for the lock (\<open>lock.rs\<close>). A run is the list of
  the states of the directory that it passes through, because the process can be killed in each of them; what the
  system calls answer is an argument.
\<close>

text \<open>A file with its bytes and its mode (on Windows: the list of who may open it), the file to be replaced and its
  temporary neighbour.\<close>

record stored_file =
  f_bytes :: bytes
  f_mode :: u32

record directory =
  d_file :: "stored_file option"
  d_tmp :: "stored_file option"

datatype write_error =
    SerializeError | StatError | CreateError | ChmodError | WriteFailure | FlushError
  | RenameError | SyncError | ReplaceStuck | ReplaceRefused

datatype platform = Unix | Windows

text \<open>The answers of the system. \<open>fs_written\<close>: nothing when \<open>write_all\<close> writes everything, otherwise the bytes it
  wrote before its error. \<open>fs_replace\<close>: what \<open>ReplaceFileW\<close> says of an existing target; after the documented partial
  failures 1176 and 1177 the target may be gone.\<close>

datatype replace_answer = Replaced | Unmoved bool | NotReplaced

record fs_answers =
  fs_stat :: bool
  fs_create :: bool
  fs_chmod :: bool
  fs_written :: "nat option"
  fs_flush :: bool
  fs_remove :: bool
  fs_rename :: bool
  fs_dirsync :: bool
  fs_replace :: replace_answer

text \<open>\<open>0600\<close>, and the descriptor that admits the owner only.\<close>

definition PRIVATE_MODE :: u32 where
  "PRIVATE_MODE = 384"

type_synonym run = "(write_error + unit) \<times> directory list"

text \<open>The next call starts where the run stands; an error ends the run.\<close>

definition and_then :: "run \<Rightarrow> (directory \<Rightarrow> run) \<Rightarrow> run" where
  "and_then r f = (case r of
     (Ok _, ds) \<Rightarrow> (case f (last ds) of (x, es) \<Rightarrow> (x, ds @ es))
   | (Err e, ds) \<Rightarrow> (Err e, ds))"

definition reply_of :: "bool \<Rightarrow> write_error \<Rightarrow> write_error + unit" where
  "reply_of b e = (if b then Ok () else Err e)"

definition existing_target_mode :: "fs_answers \<Rightarrow> directory \<Rightarrow> write_error + u32 option" where
  "existing_target_mode io d = (if fs_stat io then Ok (map_option f_mode (d_file d)) else Err StatError)"

definition create_private_tmp :: "fs_answers \<Rightarrow> directory \<Rightarrow> run" where
  "create_private_tmp io d =
     (if fs_create io \<and> d_tmp d = None
      then (Ok (), [d\<lparr>d_tmp := Some \<lparr>f_bytes = [], f_mode = PRIVATE_MODE\<rparr>\<rparr>])
      else (Err CreateError, [d]))"

definition on_tmp :: "(stored_file \<Rightarrow> stored_file) \<Rightarrow> directory \<Rightarrow> directory" where
  "on_tmp f d = d\<lparr>d_tmp := map_option f (d_tmp d)\<rparr>"

definition chmod_tmp :: "fs_answers \<Rightarrow> u32 option \<Rightarrow> directory \<Rightarrow> run" where
  "chmod_tmp io mode d = (case mode of
     None \<Rightarrow> (Ok (), [d])
   | Some m \<Rightarrow> if fs_chmod io then (Ok (), [on_tmp (f_mode_update (\<lambda>_. m)) d]) else (Err ChmodError, [d]))"

text \<open>\<open>write_all\<close> passes through every prefix of the text, up to its error.\<close>

definition write_tmp :: "fs_answers \<Rightarrow> bytes \<Rightarrow> directory \<Rightarrow> run" where
  "write_tmp io t d =
     (case fs_written io of
        None \<Rightarrow> (Ok (), map (\<lambda>n. on_tmp (f_bytes_update (\<lambda>_. take n t)) d) [0..<Suc (length t)])
      | Some k \<Rightarrow> (Err WriteFailure, map (\<lambda>n. on_tmp (f_bytes_update (\<lambda>_. take n t)) d) [0..<Suc k]))"

definition flush_tmp :: "fs_answers \<Rightarrow> directory \<Rightarrow> run" where
  "flush_tmp io d = (reply_of (fs_flush io) FlushError, [d])"

definition remove_tmp :: "fs_answers \<Rightarrow> directory \<Rightarrow> directory" where
  "remove_tmp io d = (if fs_remove io then d\<lparr>d_tmp := None\<rparr> else d)"

definition fill_tmp :: "fs_answers \<Rightarrow> u32 option \<Rightarrow> bytes \<Rightarrow> directory \<Rightarrow> run" where
  "fill_tmp io mode t d =
     (case and_then (and_then (chmod_tmp io mode d) (write_tmp io t)) (flush_tmp io) of
        (Ok u, ds) \<Rightarrow> (Ok u, ds)
      | (Err e, ds) \<Rightarrow> (Err e, ds @ [remove_tmp io (last ds)]))"

definition renamed :: "directory \<Rightarrow> directory" where
  "renamed d = \<lparr>d_file = d_tmp d, d_tmp = None\<rparr>"

definition commit_unix :: "fs_answers \<Rightarrow> directory \<Rightarrow> run" where
  "commit_unix io d =
     (if fs_rename io then (reply_of (fs_dirsync io) SyncError, [renamed d])
      else (Err RenameError, [remove_tmp io d]))"

text \<open>\<open>ReplaceFileW\<close> keeps the descriptor of the file it replaces.\<close>

definition replaced :: "stored_file \<Rightarrow> directory \<Rightarrow> directory" where
  "replaced old d = \<lparr>d_file = map_option (f_mode_update (\<lambda>_. f_mode old)) (d_tmp d), d_tmp = None\<rparr>"

definition commit_windows :: "fs_answers \<Rightarrow> directory \<Rightarrow> run" where
  "commit_windows io d =
     (case d_file d of
        None \<Rightarrow> if fs_rename io then (Ok (), [renamed d]) else (Err RenameError, [d])
      | Some old \<Rightarrow>
          (case fs_replace io of
             Replaced \<Rightarrow> (Ok (), [replaced old d])
           | Unmoved gone \<Rightarrow> (Err ReplaceStuck, [if gone then d\<lparr>d_file := None\<rparr> else d])
           | NotReplaced \<Rightarrow> (Err ReplaceRefused, [remove_tmp io d])))"

definition write_atomic_file :: "platform \<Rightarrow> fs_answers \<Rightarrow> bytes option \<Rightarrow> directory \<Rightarrow> run" where
  "write_atomic_file pf io content d =
     (case content of
        None \<Rightarrow> (Err SerializeError, [d])
      | Some t \<Rightarrow>
          (case (if pf = Unix then existing_target_mode io d else Ok None) of
             Err e \<Rightarrow> (Err e, [d])
           | Ok mode \<Rightarrow>
               and_then (and_then (create_private_tmp io d) (fill_tmp io mode t))
                 (if pf = Unix then commit_unix io else commit_windows io)))"

subsection \<open>What a run does to the directory\<close>

text \<open>In every state of a run the target is the old file or the whole new one, or it is gone while the whole new one
  stands beside it; a temporary file made by the run can be read by nobody who could not read the target.\<close>

definition new_file :: "bytes \<Rightarrow> directory \<Rightarrow> stored_file" where
  "new_file t d = \<lparr>f_bytes = t, f_mode = (case d_file d of None \<Rightarrow> PRIVATE_MODE | Some old \<Rightarrow> f_mode old)\<rparr>"

definition modes_of :: "directory \<Rightarrow> u32 set" where
  "modes_of d = insert PRIVATE_MODE (f_mode ` set_option (d_file d))"

text \<open>Before the commit: the target is untouched, and the temporary file is absent or private.\<close>

definition pending :: "directory \<Rightarrow> directory \<Rightarrow> bool" where
  "pending d e \<longleftrightarrow> d_file e = d_file d \<and> f_mode ` set_option (d_tmp e) \<subseteq> modes_of d"

text \<open>When it is written: the temporary file holds everything, with the mode that the platform gives it.\<close>

definition written :: "platform \<Rightarrow> bytes \<Rightarrow> directory \<Rightarrow> directory \<Rightarrow> bool" where
  "written pf t d e \<longleftrightarrow> d_file e = d_file d \<and>
     d_tmp e = Some (if pf = Unix then new_file t d else \<lparr>f_bytes = t, f_mode = PRIVATE_MODE\<rparr>)"

lemma written_pending: "written pf t d e \<Longrightarrow> pending d e"
  by (auto simp: written_def pending_def modes_of_def new_file_def split: if_splits option.splits)

lemma remove_tmp_pending: "pending d e \<Longrightarrow> pending d (remove_tmp io e)"
  by (simp add: remove_tmp_def pending_def)

lemma fill_tmp_runs:
  assumes d: "d_tmp d = None" and e: "e = d\<lparr>d_tmp := Some \<lparr>f_bytes = [], f_mode = PRIVATE_MODE\<rparr>\<rparr>"
    and m: "mode = (if pf = Unix then map_option f_mode (d_file d) else None)" and r: "fill_tmp io mode t e = (r, es)"
  shows "es \<noteq> [] \<and> (\<forall>x\<in>set es. pending d x) \<and> (r = Ok () \<longrightarrow> written pf t d (last es)) \<and>
    (\<forall>x. r = Err x \<longrightarrow> x \<in> {ChmodError, WriteFailure, FlushError})"
proof -
  have chm: "chmod_tmp io mode e = (Err ChmodError, [e]) \<or>
      chmod_tmp io mode e = (Ok (), [d\<lparr>d_tmp := Some \<lparr>f_bytes = [], f_mode = f_mode (if pf = Unix then new_file t d else \<lparr>f_bytes = t, f_mode = PRIVATE_MODE\<rparr>)\<rparr>\<rparr>])"
    using e m by (cases d; cases "d_file d") (auto simp: chmod_tmp_def on_tmp_def new_file_def)
  have p: "pending d (d\<lparr>d_tmp := Some \<lparr>f_bytes = b, f_mode = f_mode (if pf = Unix then new_file t d else \<lparr>f_bytes = t, f_mode = PRIVATE_MODE\<rparr>)\<rparr>\<rparr>)" for b
    by (auto simp: pending_def modes_of_def new_file_def split: option.splits)
  have pe: "pending d e" using e by (simp add: pending_def modes_of_def)
  show ?thesis
    using chm
  proof
    assume "chmod_tmp io mode e = (Err ChmodError, [e])"
    then show ?thesis using r pe by (auto simp: fill_tmp_def and_then_def remove_tmp_pending)
  next
    assume c: "chmod_tmp io mode e = (Ok (), [d\<lparr>d_tmp := Some \<lparr>f_bytes = [], f_mode = f_mode (if pf = Unix then new_file t d else \<lparr>f_bytes = t, f_mode = PRIVATE_MODE\<rparr>)\<rparr>\<rparr>])"
    show ?thesis
      using r p
      by (cases "fs_written io"; cases "fs_flush io")
        (auto simp: fill_tmp_def and_then_def c write_tmp_def flush_tmp_def reply_of_def on_tmp_def remove_tmp_pending
          written_def new_file_def pe)
  qed
qed

definition untorn :: "platform \<Rightarrow> bytes \<Rightarrow> directory \<Rightarrow> directory \<Rightarrow> bool" where
  "untorn pf t d x \<longleftrightarrow>
     d_file x = d_file d \<or> d_file x = Some (new_file t d) \<or>
     pf = Windows \<and> d_file x = None \<and> map_option f_bytes (d_tmp x) = Some t"

lemma pending_untorn: "pending d x \<Longrightarrow> untorn pf t d x"
  by (simp add: pending_def untorn_def)

lemma commit_runs:
  assumes w: "written pf t d e" and r: "(if pf = Unix then commit_unix io else commit_windows io) e = (r, es)"
  shows "\<exists>x. es = [x] \<and> untorn pf t d x \<and> f_mode ` set_option (d_tmp x) \<subseteq> modes_of d \<and>
    (r = Ok () \<longrightarrow> x = \<lparr>d_file = Some (new_file t d), d_tmp = None\<rparr>) \<and>
    (\<forall>e. r = Err e \<longrightarrow> e = SyncError \<and> d_file x = Some (new_file t d) \<or> e = ReplaceStuck \<or> d_file x = d_file d) \<and>
    (fs_rename io \<and> fs_dirsync io \<and> fs_replace io = Replaced \<longrightarrow> r = Ok ())"
proof (cases pf)
  case Unix
  then show ?thesis
    using w r remove_tmp_pending [OF written_pending [OF w], of io]
    by (auto simp: commit_unix_def renamed_def written_def reply_of_def pending_def untorn_def split: if_splits)
next
  case Windows
  show ?thesis
  proof (cases "d_file d")
    case None
    then show ?thesis
      using w r Windows written_pending [OF w]
      by (auto simp: commit_windows_def renamed_def written_def new_file_def pending_def untorn_def split: if_splits)
  next
    case (Some old)
    then show ?thesis
      using w r Windows written_pending [OF w] remove_tmp_pending [OF written_pending [OF w], of io]
      by (cases "fs_replace io")
        (auto simp: commit_windows_def replaced_def written_def new_file_def pending_def untorn_def modes_of_def split: if_splits)
  qed
qed

lemma fill_tmp_succeeds:
  "fs_chmod io \<Longrightarrow> fs_written io = None \<Longrightarrow> fs_flush io \<Longrightarrow> fst (fill_tmp io mode t e) = Ok ()"
  by (simp add: fill_tmp_def and_then_def chmod_tmp_def write_tmp_def flush_tmp_def reply_of_def split: option.splits)

text \<open>A run that stops before the commit.\<close>

lemma pending_run:
  assumes "\<forall>x\<in>set es. pending d x" "es \<noteq> []"
  shows "(\<forall>x\<in>set es. untorn pf t d x \<and> f_mode ` set_option (d_tmp x) \<subseteq> modes_of d) \<and> d_file (last es) = d_file d"
  using assms last_in_set [OF assms(2)] by (simp add: pending_untorn) (simp add: pending_def)

text \<open>A run stops before the commit, with an error and the target as it was, or it commits.\<close>

lemma write_atomic_stages:
  assumes "write_atomic_file pf io (Some t) d = (r, es)"
  shows "es = [d] \<and> (r = Err StatError \<and> \<not> fs_stat io \<or> r = Err CreateError \<and> (d_tmp d \<noteq> None \<or> \<not> fs_create io)) \<or>
    d_tmp d = None \<and> es \<noteq> [] \<and> (\<forall>x\<in>set es. pending d x) \<and>
      (\<exists>e\<in>{ChmodError, WriteFailure, FlushError}. r = Err e \<and> \<not> (fs_chmod io \<and> fs_written io = None \<and> fs_flush io)) \<or>
    d_tmp d = None \<and> (\<exists>fs e x. es = fs @ [x] \<and> fs \<noteq> [] \<and> (\<forall>x\<in>set fs. pending d x) \<and> written pf t d e \<and>
      (if pf = Unix then commit_unix io else commit_windows io) e = (r, [x]))"
proof -
  let ?mode = "if pf = Unix then map_option f_mode (d_file d) else None"
  let ?e = "d\<lparr>d_tmp := Some \<lparr>f_bytes = [], f_mode = PRIVATE_MODE\<rparr>\<rparr>"
  have unfolded: "(r, es) = (if pf = Unix \<and> \<not> fs_stat io then (Err StatError, [d])
      else and_then (and_then (create_private_tmp io d) (fill_tmp io ?mode t)) (if pf = Unix then commit_unix io else commit_windows io))"
    using assms by (auto simp: write_atomic_file_def existing_target_mode_def)
  show ?thesis
  proof (cases "(pf = Unix \<longrightarrow> fs_stat io) \<and> fs_create io \<and> d_tmp d = None")
    case False
    then show ?thesis using unfolded by (auto simp: create_private_tmp_def and_then_def split: if_splits)
  next
    case True
    obtain q fs where f: "fill_tmp io ?mode t ?e = (q, fs)" by fastforce
    have fill: "fs \<noteq> []" "\<forall>x\<in>set fs. pending d x" "q = Ok () \<Longrightarrow> written pf t d (last fs)"
        "\<And>x. q = Err x \<Longrightarrow> x \<in> {ChmodError, WriteFailure, FlushError}"
      using fill_tmp_runs [OF _ refl refl f] True by simp_all
    have pe: "pending d ?e" by (simp add: pending_def modes_of_def)
    show ?thesis
    proof (cases q)
      case (Inl x)
      then have "r = Err x" "es = ?e # fs" using unfolded True f by (auto simp: create_private_tmp_def and_then_def)
      then show ?thesis
        using fill(2) fill(4) [OF Inl] Inl True pe fill_tmp_succeeds [of io ?mode t ?e] f by auto
    next
      case (Inr u)
      let ?p = "(if pf = Unix then commit_unix io else commit_windows io) (last fs)"
      have c: "?p = (r, snd ?p)" "es = (?e # fs) @ snd ?p"
        using unfolded True f Inr fill(1) by (auto simp: create_private_tmp_def and_then_def split: prod.splits)
      moreover obtain x where "snd ?p = [x]" using commit_runs [OF fill(3) c(1)] Inr by auto
      ultimately show ?thesis using True pe fill(2) fill(3) Inr
        by (intro disjI2 conjI exI [of _ "?e # fs"] exI [of _ "last fs"] exI [of _ x]) auto
    qed
  qed
qed

text \<open>C39: The replacement of a file never tears it. In every state in which the process can die, the target is the
  old file or the whole new one with the old one's mode (on Windows it may be gone during a partial failure, and then
  the whole new text stands in the temporary file), and the temporary file is readable by nobody who could not read
  the target. A temporary file that was there before is never touched. Success means that the new file is in place,
  an error other than the two undetermined ones that the old one is, and without an error of the system the call
  succeeds.\<close>

theorem write_atomic_never_tears:
  assumes "write_atomic_file pf io (Some t) d = (r, es)"
  shows "(\<forall>x\<in>set es. untorn pf t d x) \<and>
    (d_tmp d = None \<longrightarrow> (\<forall>x\<in>set es. f_mode ` set_option (d_tmp x) \<subseteq> modes_of d)) \<and>
    (d_tmp d \<noteq> None \<longrightarrow> es = [d] \<and> r \<noteq> Ok ()) \<and>
    (r = Ok () \<longrightarrow> last es = \<lparr>d_file = Some (new_file t d), d_tmp = None\<rparr>) \<and>
    (\<forall>e. r = Err e \<longrightarrow> e = SyncError \<and> d_file (last es) = Some (new_file t d) \<or> e = ReplaceStuck \<or> d_file (last es) = d_file d) \<and>
    (d_tmp d = None \<and> fs_stat io \<and> fs_create io \<and> fs_chmod io \<and> fs_written io = None \<and> fs_flush io \<and>
      fs_rename io \<and> fs_dirsync io \<and> fs_replace io = Replaced \<longrightarrow> r = Ok ())"
  using write_atomic_stages [OF assms]
proof (elim disjE conjE exE bexE)
  fix fs e x
  assume "d_tmp d = None" "es = fs @ [x]" "fs \<noteq> []" "\<forall>x\<in>set fs. pending d x" "written pf t d e"
    and c: "(if pf = Unix then commit_unix io else commit_windows io) e = (r, [x])"
  then show ?thesis using commit_runs [OF \<open>written pf t d e\<close> c] pending_run [of fs d pf t] by auto
next
  fix e
  assume "d_tmp d = None" "es \<noteq> []" "\<forall>x\<in>set es. pending d x" "e \<in> {ChmodError, WriteFailure, FlushError}" "r = Err e"
    "\<not> (fs_chmod io \<and> fs_written io = None \<and> fs_flush io)"
  then show ?thesis using pending_run [of es d pf t] by auto
qed (auto simp: untorn_def modes_of_def)

definition demo_answers :: "fs_answers" where
  "demo_answers = \<lparr>fs_stat = True, fs_create = True, fs_chmod = True, fs_written = None, fs_flush = True,
     fs_remove = True, fs_rename = True, fs_dirsync = True, fs_replace = Replaced\<rparr>"

theorem write_atomic_never_tears_witness:
  "let d = \<lparr>d_file = Some \<lparr>f_bytes = [1], f_mode = 416\<rparr>, d_tmp = None\<rparr>; w = write_atomic_file Unix demo_answers (Some [2, 3]) d in
   fst w = Ok () \<and> length (snd w) = 7 \<and> last (snd w) = \<lparr>d_file = Some \<lparr>f_bytes = [2, 3], f_mode = 416\<rparr>, d_tmp = None\<rparr>"
proof -
  let ?d = "\<lparr>d_file = Some \<lparr>f_bytes = [1], f_mode = 416\<rparr>, d_tmp = None\<rparr>"
  let ?w = "write_atomic_file Unix demo_answers (Some [2, 3]) ?d"
  have "length (snd ?w) = 7" unfolding demo_answers_def by code_simp
  then show ?thesis
    using write_atomic_never_tears [of Unix demo_answers "[2, 3]" ?d "fst ?w" "snd ?w"]
    by (simp add: demo_answers_def new_file_def Let_def)
qed

text \<open>The users file as the other theories see it: its text decoded. The outcome that they take as given is the one of
  this run: written, failed with the old file, or failed with the new one in place.\<close>

definition decoded :: "(bytes \<Rightarrow> user list) \<Rightarrow> directory \<Rightarrow> users_file" where
  "decoded dec d = map_option (dec \<circ> f_bytes) (d_file d)"

lemma write_atomic_refines:
  assumes run: "write_atomic_file Unix io (Some (enc us)) d = (r, es)" and dec: "dec (enc us) = us"
  shows "write_atomic \<lparr>io_lock = l, io_read = b, io_write =
           (case r of Ok _ \<Rightarrow> WriteOk | Err e \<Rightarrow> if e = SyncError then WriteUndetermined else WriteFailed)\<rparr> (decoded dec d) us =
         (r = Ok (), decoded dec (last es))"
  using write_atomic_stages [OF run]
proof (elim disjE conjE exE bexE)
  fix fs e x
  assume a: "d_tmp d = None" "es = fs @ [x]" "written Unix (enc us) d e"
    and c: "(if Unix = Unix then commit_unix io else commit_windows io) e = (r, [x])"
  then show ?thesis
    using dec by (auto simp: commit_unix_def renamed_def written_def new_file_def remove_tmp_def decoded_def write_atomic_def reply_of_def
      split: if_splits)
next
  fix e
  assume "es \<noteq> []" "\<forall>x\<in>set es. pending d x" "e \<in> {ChmodError, WriteFailure, FlushError}" "r = Err e"
  then show ?thesis using pending_run [of es d Unix "enc us"] by (auto simp: decoded_def write_atomic_def)
qed (auto simp: decoded_def write_atomic_def)

text \<open>On Windows a first write whose rename fails leaves its temporary file, and every later write is refused.\<close>

lemma windows_failed_first_write_blocks:
  assumes "write_atomic_file Windows io (Some t) \<lparr>d_file = None, d_tmp = None\<rparr> = (Err RenameError, es)"
  shows "d_tmp (last es) \<noteq> None \<and> fst (write_atomic_file Windows io' (Some t') (last es)) = Err CreateError"
  using write_atomic_stages [OF assms]
proof (elim disjE conjE exE bexE)
  fix fs e x
  assume "es = fs @ [x]" "written Windows t \<lparr>d_file = None, d_tmp = None\<rparr> e"
    and "(if Windows = Unix then commit_unix io else commit_windows io) e = (Err RenameError, [x])"
  then show ?thesis
    by (auto simp: commit_windows_def written_def write_atomic_file_def create_private_tmp_def and_then_def split: if_splits)
qed auto

subsection \<open>Waiting for the lock\<close>

text \<open>One attempt on the sentinel is answered with the lock, with its being held by another process, or with another
  error. The loop tries, and sleeps for \<open>LOCK_POLL\<close> or somewhat longer, until an attempt after the deadline; an
  attempt does not block and takes no time of its own.\<close>

datatype lock_answer = Granted | Busy | LockBroken

datatype lock_error = OpenFailed | LockTimeout | LockFailure

definition LOCK_TIMEOUT :: duration where
  "LOCK_TIMEOUT = from_secs 10"

definition LOCK_POLL :: duration where
  "LOCK_POLL = 10 * 1000000"

function lock_loop :: "(instant \<Rightarrow> lock_answer) \<Rightarrow> (instant \<Rightarrow> duration) \<Rightarrow> instant \<Rightarrow> instant \<Rightarrow> instant \<times> (lock_error + unit)" where
  "lock_loop answer late deadline now =
     (case answer now of
        Granted \<Rightarrow> (now, Ok ())
      | LockBroken \<Rightarrow> (now, Err LockFailure)
      | Busy \<Rightarrow> if deadline \<le> now then (now, Err LockTimeout) else lock_loop answer late deadline (now + LOCK_POLL + late now))"
  by pat_completeness auto
termination
  by (relation "measure (\<lambda>(_, _, deadline, now). deadline - now)") (auto simp: LOCK_POLL_def)

declare lock_loop.simps [simp del]

definition acquire_with_timeout ::
  "bool \<Rightarrow> (instant \<Rightarrow> lock_answer) \<Rightarrow> (instant \<Rightarrow> duration) \<Rightarrow> duration \<Rightarrow> instant \<Rightarrow> instant \<times> (lock_error + unit)" where
  "acquire_with_timeout opened answer late timeout now =
     (if opened then lock_loop answer late (now + timeout) now else (now, Err OpenFailed))"

text \<open>The loop ends at an attempt that was answered so, at the latest one sleep after the deadline, and it gives up
  only when the lock was still held at the deadline.\<close>

lemma lock_loop_outcome:
  assumes "lock_loop answer late deadline now = (stop, r)" "\<forall>t. late t \<le> slack"
  shows "now \<le> stop \<and> stop \<le> max now (deadline + LOCK_POLL + slack) \<and>
    (r = Ok () \<longleftrightarrow> answer stop = Granted) \<and> (r = Err LockTimeout \<longleftrightarrow> answer stop = Busy) \<and>
    (r = Err LockFailure \<longleftrightarrow> answer stop = LockBroken) \<and> (r = Err LockTimeout \<longrightarrow> deadline \<le> stop)"
  using assms
proof (induction answer late deadline now rule: lock_loop.induct)
  case (1 answer late deadline now)
  show ?case
  proof (cases "answer now = Busy \<and> now < deadline")
    case True
    then have "lock_loop answer late deadline (now + LOCK_POLL + late now) = (stop, r)"
      using 1(2) by (simp add: lock_loop.simps [of answer late deadline now])
    then show ?thesis
      using 1(1) [of] True 1(3) spec [OF 1(3), of now] by fastforce
  next
    case False
    then show ?thesis
      using 1(2) by (auto simp: lock_loop.simps [of answer late deadline now] split: lock_answer.splits if_splits)
  qed
qed

end
