(* ===== verification/Config.thy ===== *)
theory Config
  imports Auth Pool Sand TlsFragment
begin

text \<open>
  The configuration of the server binary: the records of \<open>config/main\<close>, \<open>config/proxy_list\<close> and
  \<open>logger/log_config.rs\<close> with their defaults, and \<open>config/load_or_init.rs\<close>, which reads the files, creates the
  missing ones and migrates the layout of older versions once. Reading and writing a file (ktav, serde) are
  arguments: what is found at each look, whether the lock is taken and whether the write succeeds.
\<close>

record network_config =
  nc_connect_timeout_sec :: nat
  nc_handshake_timeout_sec :: nat
  nc_tunnel_max_lifetime_sec :: nat
  nc_tcp_keepalive_sec :: nat
  nc_client_protocol_timeout_sec :: nat
  nc_max_concurrent_clients :: nat
  nc_max_upstream_attempts :: nat
  nc_max_per_upstream :: nat
  nc_tunnel_idle_timeout_sec :: nat
  nc_max_concurrent_direct :: nat
  nc_sand_half_life_sec :: f64
  nc_sand_fail_penalty :: f64
  nc_sand_max :: f64
  nc_sand_min_weight :: f64
  nc_sand_success_factor :: f64
  nc_quarantine_threshold :: u32
  nc_quarantine_initial_sec :: nat
  nc_quarantine_max_sec :: nat
  nc_hedge_delay_ms :: nat
  nc_health_save_sec :: nat
  nc_recover_host_from_payload :: bool

definition default_network_config :: network_config where
  "default_network_config =
     \<lparr>nc_connect_timeout_sec = 10, nc_handshake_timeout_sec = 10, nc_tunnel_max_lifetime_sec = 1800,
      nc_tcp_keepalive_sec = 60, nc_client_protocol_timeout_sec = 30, nc_max_concurrent_clients = 1024,
      nc_max_upstream_attempts = 10, nc_max_per_upstream = 8, nc_tunnel_idle_timeout_sec = 30,
      nc_max_concurrent_direct = 256, nc_sand_half_life_sec = Fin 30, nc_sand_fail_penalty = Fin 1,
      nc_sand_max = Fin 8, nc_sand_min_weight = Fin (5 / 100), nc_sand_success_factor = Fin (1 / 2),
      nc_quarantine_threshold = 3, nc_quarantine_initial_sec = 30, nc_quarantine_max_sec = 600,
      nc_hedge_delay_ms = 2000, nc_health_save_sec = 30, nc_recover_host_from_payload = True\<rparr>"

record log_config =
  lc_lifecycle :: bool
  lc_cache_attempts :: bool
  lc_cache_hits :: bool
  lc_cache_writes :: bool
  lc_proxy_failures :: bool
  lc_banned_targets :: bool
  lc_connection_errors :: bool
  lc_client_disconnects :: bool
  lc_attempts :: bool
  lc_tunnels :: bool

definition default_log_config :: log_config where
  "default_log_config =
     \<lparr>lc_lifecycle = True, lc_cache_attempts = False, lc_cache_hits = False, lc_cache_writes = False,
      lc_proxy_failures = True, lc_banned_targets = True, lc_connection_errors = True,
      lc_client_disconnects = False, lc_attempts = False, lc_tunnels = False\<rparr>"

definition default_tls_fragment :: fragment_spec where
  "default_tls_fragment = \<lparr>fs_enabled = False, fragment_size = 40, delay_ms = 0\<rparr>"

record file_log_config =
  fl_enabled :: bool
  fl_path :: bytes
  fl_also_console :: bool

definition default_file_log :: file_log_config where
  "default_file_log = \<lparr>fl_enabled = False, fl_path = ascii ''resocks5.log'', fl_also_console = True\<rparr>"

record main_config =
  mc_port :: u16
  mc_listen_host :: bytes
  mc_banned_patterns :: "bytes list"
  mc_allow_anonymous :: bool
  mc_log :: log_config
  mc_pool :: pool_config
  mc_tls_fragment :: fragment_spec
  mc_network :: network_config
  mc_file_log :: file_log_config
  mc_allowed_clients :: bytes

record proxy_list_config =
  pl_socks5_v4 :: "bytes list"
  pl_socks5_v6 :: "bytes list"
  pl_http_v4 :: "bytes list"
  pl_http_v6 :: "bytes list"
  pl_https_v4 :: "bytes list"
  pl_https_v6 :: "bytes list"

definition default_proxy_list :: proxy_list_config where
  "default_proxy_list =
     \<lparr>pl_socks5_v4 = [], pl_socks5_v6 = [], pl_http_v4 = [], pl_http_v6 = [], pl_https_v4 = [], pl_https_v6 = []\<rparr>"

record configs =
  cf_main :: main_config
  cf_proxy_list :: proxy_list_config
  cf_users :: "user list"

definition default_main :: "u16 \<Rightarrow> bytes list \<Rightarrow> main_config" where
  "default_main port banned =
     \<lparr>mc_port = port, mc_listen_host = ascii ''127.0.0.1'', mc_banned_patterns = banned, mc_allow_anonymous = True,
      mc_log = default_log_config, mc_pool = default_pool_config, mc_tls_fragment = default_tls_fragment,
      mc_network = default_network_config, mc_file_log = default_file_log, mc_allowed_clients = [STAR]\<rparr>"

subsection \<open>Loading\<close>

datatype 'a found = Missing | Unreadable | Readable 'a

datatype load_error = ReadConfig | LockConfig | MigrateConfig | WriteConfig

text \<open>One file: the first look, the lock, the look under the lock, the new content, the write. The second component
  is what the call put on disk.\<close>

record 'a file_io =
  fi_first :: "'a found"
  fi_locked :: bool
  fi_second :: "'a found"
  fi_written :: bool

definition load_or_create :: "'a file_io \<Rightarrow> load_error + 'a \<Rightarrow> (load_error + 'a) \<times> 'a option" where
  "load_or_create io fresh =
     (case fi_first io of
        Readable c \<Rightarrow> (Ok c, None)
      | Unreadable \<Rightarrow> (Err ReadConfig, None)
      | Missing \<Rightarrow>
          if \<not> fi_locked io then (Err LockConfig, None)
          else (case fi_second io of
                  Readable c \<Rightarrow> (Ok c, None)
                | Unreadable \<Rightarrow> (Err ReadConfig, None)
                | Missing \<Rightarrow>
                    (case fresh of
                       Err e \<Rightarrow> (Err e, None)
                     | Ok c \<Rightarrow> if fi_written io then (Ok c, Some c) else (Err WriteConfig, None))))"

text \<open>The main file: the old file gives its port and its patterns.\<close>

definition load_or_init_main_at :: "(u16 \<times> bytes list) found \<Rightarrow> main_config file_io \<Rightarrow> (load_error + main_config) \<times> main_config option" where
  "load_or_init_main_at old io =
     load_or_create io
       (case old of
          Missing \<Rightarrow> Ok (default_main 20082 [])
        | Unreadable \<Rightarrow> Err MigrateConfig
        | Readable (port, banned) \<Rightarrow> Ok (default_main port banned))"

text \<open>\<open>str::lines\<close>.\<close>

definition strip_cr :: "bytes \<Rightarrow> bytes" where
  "strip_cr l = (if l \<noteq> [] \<and> last l = CR then butlast l else l)"

definition str_lines :: "bytes \<Rightarrow> bytes list" where
  "str_lines s = (let ls = split_all LF s in map strip_cr (butlast ls) @ (if last ls = [] then [] else [last ls]))"

definition read_proxy_lines :: "bytes \<Rightarrow> bytes list" where
  "read_proxy_lines text = filter (\<lambda>line. line \<noteq> [] \<and> hd line \<noteq> HASH) (map str_trim (str_lines text))"

definition migrate_list :: "bytes found \<Rightarrow> load_error + bytes list" where
  "migrate_list old = (case old of Missing \<Rightarrow> Ok [] | Unreadable \<Rightarrow> Err ReadConfig | Readable text \<Rightarrow> Ok (read_proxy_lines text))"

definition load_or_init_proxy_list_at ::
  "bytes found \<Rightarrow> bytes found \<Rightarrow> proxy_list_config file_io \<Rightarrow> (load_error + proxy_list_config) \<times> proxy_list_config option" where
  "load_or_init_proxy_list_at v4 v6 io =
     load_or_create io
       (case migrate_list v4 of
          Err e \<Rightarrow> Err e
        | Ok l4 \<Rightarrow>
            (case migrate_list v6 of
               Err e \<Rightarrow> Err e
             | Ok l6 \<Rightarrow> Ok (default_proxy_list\<lparr>pl_socks5_v4 := l4, pl_socks5_v6 := l6\<rparr>)))"

definition load_or_init_users_at :: "user list file_io \<Rightarrow> (load_error + user list) \<times> user list option" where
  "load_or_init_users_at io = load_or_create io (Ok [])"

definition load_or_init ::
  "(u16 \<times> bytes list) found \<Rightarrow> main_config file_io \<Rightarrow> bytes found \<Rightarrow> bytes found \<Rightarrow> proxy_list_config file_io \<Rightarrow>
   user list file_io \<Rightarrow> load_error + configs" where
  "load_or_init old io_m v4 v6 io_p io_u =
     (case fst (load_or_init_main_at old io_m) of
        Err e \<Rightarrow> Err e
      | Ok m \<Rightarrow>
          (case fst (load_or_init_proxy_list_at v4 v6 io_p) of
             Err e \<Rightarrow> Err e
           | Ok p \<Rightarrow> map_sum id (\<lambda>u. \<lparr>cf_main = m, cf_proxy_list = p, cf_users = u\<rparr>) (fst (load_or_init_users_at io_u))))"

text \<open>What a start creates is what the next start reads: a second call on the file gives the same configuration.\<close>

lemma load_or_create_idempotent:
  assumes "load_or_create io fresh = (Ok c, Some c')"
  shows "c' = c" "fst (load_or_create \<lparr>fi_first = Readable c', fi_locked = l, fi_second = s, fi_written = w\<rparr> fresh') = Ok c"
  using assms by (auto simp: load_or_create_def split: found.splits if_splits sum.splits)

end
