(* ===== verification/Startup.thy ===== *)
theory Startup
  imports Config ProxyLine Establish
begin

text \<open>
  Starting the server, \<open>server/bootstrap/startup.rs\<close>: the proxy lists are parsed, the entries sorted into the exits
  of each family and the ranked gate levels, one rotator is built for each group, and a configuration without
  any route is refused. The rotators are numbered in the order they are built; \<open>hs\<close>, \<open>seeds\<close> and \<open>clk\<close> give the
  hasher, the seed and the instant of each. The compilation of the banned patterns (crate \<open>regex\<close>) is an argument,
  and so are the secret of the authentication state and the outcomes of the reachability checks.
\<close>

subsection \<open>Parsing the lists\<close>

definition skipped_line_message :: "bytes \<Rightarrow> nat \<Rightarrow> bytes" where
  "skipped_line_message list_name line_no =
     ascii ''warning: '' @ list_name @ ascii ''['' @ radix_str 10 line_no @
     ascii '']: failed to parse proxy entry '' @ [0xE2, 0x80, 0x94] @ ascii '' line skipped (entry redacted)''"

fun parse_lines :: "nat \<Rightarrow> bytes list \<Rightarrow> proxy_protocol \<Rightarrow> proxy_config list \<times> nat list" where
  "parse_lines idx [] proto = ([], [])"
| "parse_lines idx (line # rest) proto =
     (let (parsed, failed) = parse_lines (idx + 1) rest proto
      in if take 1 line = [HASH] then (parsed, failed)
         else case parse_proxy_str line proto of
                Ok c \<Rightarrow> (c # parsed, failed)
              | Err _ \<Rightarrow> (parsed, (idx + 1) # failed))"

definition parse_proxy_list_checked :: "bytes list \<Rightarrow> proxy_protocol \<Rightarrow> proxy_config list \<times> nat list" where
  "parse_proxy_list_checked lines proto = parse_lines 0 lines proto"

text \<open>The parsed entries and the warnings that are printed.\<close>

definition parse_proxy_list :: "bytes \<Rightarrow> bytes list \<Rightarrow> proxy_protocol \<Rightarrow> proxy_config list \<times> bytes list" where
  "parse_proxy_list list_name lines proto =
     (let (parsed, failed) = parse_proxy_list_checked lines proto
      in (parsed, map (skipped_line_message list_name) failed))"

definition all_v6 :: "proxy_list_config \<Rightarrow> proxy_config list" where
  "all_v6 pl =
     fst (parse_proxy_list (ascii ''socks5_v6'') (pl_socks5_v6 pl) Socks5) @
     fst (parse_proxy_list (ascii ''http_v6'') (pl_http_v6 pl) Http) @
     fst (parse_proxy_list (ascii ''https_v6'') (pl_https_v6 pl) Https)"

definition all_v4 :: "proxy_list_config \<Rightarrow> proxy_config list" where
  "all_v4 pl =
     fst (parse_proxy_list (ascii ''socks5_v4'') (pl_socks5_v4 pl) Socks5) @
     fst (parse_proxy_list (ascii ''http_v4'') (pl_http_v4 pl) Http) @
     fst (parse_proxy_list (ascii ''https_v4'') (pl_https_v4 pl) Https)"

subsection \<open>Groups\<close>

definition partition_proxy_groups ::
  "proxy_config list \<Rightarrow> proxy_config list \<Rightarrow> proxy_config list \<times> proxy_config list \<times> proxy_config list" where
  "partition_proxy_groups v6 v4 =
     (filter (\<lambda>p. \<not> pc_is_gate p) v6, filter (\<lambda>p. \<not> pc_is_gate p) v4, filter pc_is_gate v6 @ filter pc_is_gate v4)"

text \<open>The entries of a \<open>BTreeMap\<close>, in the order of the keys.\<close>

fun level_push :: "byte \<Rightarrow> proxy_config \<Rightarrow> (byte \<times> proxy_config list) list \<Rightarrow> (byte \<times> proxy_config list) list" where
  "level_push rank g [] = [(rank, [g])]"
| "level_push rank g ((r, gs) # ls) =
     (if rank = r then (r, gs @ [g]) # ls
      else if rank < r then (rank, [g]) # (r, gs) # ls
      else (r, gs) # level_push rank g ls)"

definition group_gate_levels :: "proxy_config list \<Rightarrow> (byte \<times> proxy_config list) list" where
  "group_gate_levels gates = foldl (\<lambda>levels g. level_push (pc_gate_level g) g levels) [] gates"

subsection \<open>Policies\<close>

definition startup_rating_policy :: "network_config \<Rightarrow> rating_policy" where
  "startup_rating_policy n =
     \<lparr>half_life_sec = nc_sand_half_life_sec n, fail_penalty = nc_sand_fail_penalty n, sand_max = nc_sand_max n,
      min_weight = nc_sand_min_weight n, success_factor = nc_sand_success_factor n\<rparr>"

definition startup_quarantine_policy :: "network_config \<Rightarrow> nat \<Rightarrow> quarantine_policy" where
  "startup_quarantine_policy n levels =
     \<lparr>threshold = nc_quarantine_threshold n, initial = from_secs (nc_quarantine_initial_sec n),
      max_len = from_secs (nc_quarantine_max_sec n),
      probe_lease = Establish.probe_lease (from_secs (nc_connect_timeout_sec n)) (from_secs (nc_handshake_timeout_sec n)) levels\<rparr>"

subsection \<open>Rotators\<close>

datatype startup_error =
    GlobalFilter allowed_error | UserFilter allowed_error | BadPattern | BadPolicy rotator_error | NoUpstreams

fun build_rotators ::
  "hashers \<Rightarrow> (nat \<Rightarrow> u64) \<Rightarrow> (nat \<Rightarrow> instant) \<Rightarrow> rating_policy \<Rightarrow> quarantine_policy \<Rightarrow> nat \<Rightarrow> proxy_config list list \<Rightarrow>
   startup_error + rotator list" where
  "build_rotators hs seeds clk rp qp k [] = Ok []"
| "build_rotators hs seeds clk rp qp k (g # gs) =
     (case rotator_try_with_quarantine (hs k) g rp qp DEFAULT_STICKY_CACHE_MAX_ENTRIES DEFAULT_STICKY_CACHE_TTL (clk k) (seeds k) of
        Err e \<Rightarrow> Err (BadPolicy e)
      | Ok r \<Rightarrow> map_sum id (Cons r) (build_rotators hs seeds clk rp qp (k + 1) gs))"

definition has_usable_route :: "bool \<Rightarrow> bool \<Rightarrow> bool" where
  "has_usable_route has_v4 has_v6 \<longleftrightarrow> has_v4 \<or> has_v6"

definition should_bail_no_upstreams :: "bool \<Rightarrow> user list \<Rightarrow> bool" where
  "should_bail_no_upstreams no_usable_route us =
     (if \<not> no_usable_route then False else \<not> list_ex (\<lambda>u. u_enabled u \<and> u_direct u) us)"

definition validate_allowed_clients :: "bytes \<Rightarrow> main_config \<Rightarrow> user list \<Rightarrow> startup_error + (allowed_clients \<times> auth_state)" where
  "validate_allowed_clients secret m us =
     (case compile_allowed_clients (mc_allowed_clients m) of
        Err e \<Rightarrow> Err (GlobalFilter e)
      | Ok a \<Rightarrow>
          (case auth_build (mc_allow_anonymous m) secret us of
             Err e \<Rightarrow> Err (UserFilter e)
           | Ok s \<Rightarrow> Ok (a, s)))"

text \<open>What the running server works with. The exits are in the order v6, v4.\<close>

record started =
  sv_allowed :: allowed_clients
  sv_auth :: auth_state
  sv_rotators :: "rotator list"
  sv_v6 :: "nat option"
  sv_v4 :: "nat option"
  sv_gates :: gate_levels
  sv_pool :: proxy_pool
  sv_tls :: bool

definition exits_of :: "started \<Rightarrow> nat list" where
  "exits_of s = List.map_filter id [sv_v6 s, sv_v4 s]"

definition number_groups ::
  "proxy_config list \<Rightarrow> (byte \<times> proxy_config list) list \<Rightarrow> proxy_config list \<Rightarrow> nat option \<times> (byte \<times> nat) list \<times> nat option" where
  "number_groups v6 gates v4 =
     (let base = (if v6 = [] then 0 else 1)
      in (if v6 = [] then None else Some 0,
          zip (map fst gates) [base ..< base + length gates],
          if v4 = [] then None else Some (base + length gates)))"

definition startup ::
  "hashers \<Rightarrow> (nat \<Rightarrow> u64) \<Rightarrow> (nat \<Rightarrow> instant) \<Rightarrow> bytes \<Rightarrow> (bytes list \<Rightarrow> bool) \<Rightarrow> configs \<Rightarrow> startup_error + started" where
  "startup hs seeds clk secret patterns_compile cfg =
     (let m = cf_main cfg; us = cf_users cfg; pl = cf_proxy_list cfg; net = mc_network m in
      case validate_allowed_clients secret m us of
        Err e \<Rightarrow> Err e
      | Ok (allowed, auth) \<Rightarrow>
          if \<not> patterns_compile (mc_banned_patterns m) then Err BadPattern
          else
            let (v6, v4, gate_proxies) = partition_proxy_groups (all_v6 pl) (all_v4 pl);
                gates = group_gate_levels gate_proxies;
                qp = startup_quarantine_policy net (length gates);
                (i6, ranks, i4) = number_groups v6 gates v4
            in case build_rotators hs seeds clk (startup_rating_policy net) qp 0
                      ((if v6 = [] then [] else [v6]) @ map snd gates @ (if v4 = [] then [] else [v4])) of
                 Err e \<Rightarrow> Err e
               | Ok rs \<Rightarrow>
                   if should_bail_no_upstreams (\<not> has_usable_route (i4 \<noteq> None) (i6 \<noteq> None)) us then Err NoUpstreams
                   else Ok \<lparr>sv_allowed = allowed, sv_auth = auth, sv_rotators = rs, sv_v6 = i6, sv_v4 = i4,
                            sv_gates = gate_levels_new ranks, sv_pool = pool_new (mc_pool m) (nc_max_per_upstream net),
                            sv_tls = (pl_https_v4 pl \<noteq> [] \<or> pl_https_v6 pl \<noteq> [])\<rparr>)"

subsection \<open>After the rotators\<close>

text \<open>The rotators that are dialled without a hop before them: the outermost gate level and the exits.\<close>

definition directly_dialed_rotators :: "gate_levels \<Rightarrow> nat list \<Rightarrow> nat list" where
  "directly_dialed_rotators gates exits = map snd (take 1 gates) @ exits"

definition refill_at_start :: "started \<Rightarrow> proxy_pool" where
  "refill_at_start s =
     (if cfg_enabled (pp_config (sv_pool s))
      then fold spawn_refill_for
             (concat (map (\<lambda>k. proxies (sv_rotators s ! k)) (directly_dialed_rotators (sv_gates s) (exits_of s)))) (sv_pool s)
      else sv_pool s)"

definition quarantine_unreachable_at_start ::
  "hashers \<Rightarrow> (proxy_config \<Rightarrow> bool) \<Rightarrow> (nat \<Rightarrow> proxy_config list \<Rightarrow> (proxy_config \<times> check_result \<times> instant) list) \<Rightarrow>
   started \<Rightarrow> probe_event list \<times> rotator list" where
  "quarantine_unreachable_at_start hs reserve checks s =
     (let ids = directly_dialed_rotators (sv_gates s) (exits_of s);
          probe = (\<lambda>k. probe_all_with (hs k) (sv_rotators s ! k) reserve (checks k))
      in (concat (map (fst \<circ> probe) ids),
          map (\<lambda>k. if k \<in> set ids then snd (probe k) else sv_rotators s ! k) [0 ..< length (sv_rotators s)]))"

text \<open>Settings that are ignored: lines whose text after the indentation starts with \<open>cb_\<close> and has a colon.\<close>

definition str_trim_start :: "bytes \<Rightarrow> bytes" where
  "str_trim_start s = concat (dropWhile (\<lambda>c. list_ex is_whitespace (chars c)) (char_slices s))"

definition obsolete_cb_keys :: "bytes \<Rightarrow> bytes list" where
  "obsolete_cb_keys text =
     List.map_filter (\<lambda>line.
       let rest = str_trim_start line
       in if take 3 rest = ascii ''cb_''
          then map_option (\<lambda>(name, _). ascii ''cb_'' @ str_trim name) (split_once COLON (drop 3 rest))
          else None) (str_lines text)"

end
