(* ===== verification/Health.thy ===== *)
theory Health
  imports Startup
begin

text \<open>
  Upstream health that survives a restart, \<open>server/health/mod.rs\<close>: the snapshot of every rotator under the name of
  its group, the file, putting the quarantines back at a start, and the saver, the only writer of the file. The
  file format (ktav), the lock of the file and the outcome of each write are arguments; wall clock times are
  whole seconds, and \<open>clk\<close> gives the instant at which each rotator is written to.
\<close>

record health_entry =
  he_upstream :: bytes
  he_gate :: byte
  he_group :: bytes
  he_state :: bytes
  he_remaining_sec :: nat
  he_trips :: u32
  he_failures :: u32

record health_file =
  hf_saved_at :: nat
  hf_upstreams :: "health_entry list"

record health_group =
  hg_name :: bytes
  hg_rotator :: nat

record restored =
  re_quarantined :: nat
  re_probation :: nat

definition STATE_ALIVE :: bytes where "STATE_ALIVE = ascii ''alive''"
definition STATE_QUARANTINED :: bytes where "STATE_QUARANTINED = ascii ''quarantined''"
definition STATE_PROBATION :: bytes where "STATE_PROBATION = ascii ''probation''"

definition restored_total :: "restored \<Rightarrow> nat" where
  "restored_total r = re_quarantined r + re_probation r"

subsection \<open>The groups of a server\<close>

text \<open>The gate levels from the outermost inwards, then v6 and v4.\<close>

definition health_groups :: "started \<Rightarrow> health_group list" where
  "health_groups s =
     map (\<lambda>(rank, k). \<lparr>hg_name = ascii ''gate'' @ radix_str 10 (unat rank), hg_rotator = k\<rparr>) (sv_gates s) @
     List.map_filter (\<lambda>(name, r). map_option (\<lambda>k. \<lparr>hg_name = name, hg_rotator = k\<rparr>) r)
       [(ascii ''v6'', sv_v6 s), (ascii ''v4'', sv_v4 s)]"

subsection \<open>Snapshot\<close>

fun protocol_name :: "proxy_protocol \<Rightarrow> bytes" where
  "protocol_name Socks5 = ascii ''socks5''"
| "protocol_name Http = ascii ''http''"
| "protocol_name Https = ascii ''https''"

definition upstream_label :: "proxy_config \<Rightarrow> bytes" where
  "upstream_label p =
     protocol_name (pc_protocol p) @ ascii ''://'' @
     (case pc_user p of Some user \<Rightarrow> user @ [AT] | None \<Rightarrow> []) @ pc_host p @ [COLON] @ fmt_u16 (pc_port p)"

fun state_name :: "upstream_state \<Rightarrow> bytes" where
  "state_name UsQuarantined = STATE_QUARANTINED"
| "state_name UsProbation = STATE_PROBATION"
| "state_name UsAlive = STATE_ALIVE"

definition health_entry_of :: "bytes \<Rightarrow> upstream_health \<Rightarrow> health_entry" where
  "health_entry_of name e =
     \<lparr>he_upstream = upstream_label (uh_proxy e), he_gate = pc_gate_level (uh_proxy e), he_group = name,
      he_state = state_name (h_state (uh_health e)), he_remaining_sec = as_secs (h_remaining (uh_health e)),
      he_trips = h_trips (uh_health e), he_failures = h_consecutive (uh_health e)\<rparr>"

definition health_snapshot :: "rotator_store \<Rightarrow> health_group list \<Rightarrow> instant \<Rightarrow> nat \<Rightarrow> health_file" where
  "health_snapshot st gs now unix =
     \<lparr>hf_saved_at = unix,
      hf_upstreams = concat (map (\<lambda>g. map (health_entry_of (hg_name g)) (rotator_health (st (hg_rotator g)) now)) gs)\<rparr>"

text \<open>What makes two pictures differ.\<close>

definition signature :: "health_file \<Rightarrow> (bytes \<times> bytes \<times> byte \<times> bytes \<times> u32 \<times> u32) list" where
  "signature f = map (\<lambda>e. (he_upstream e, he_group e, he_gate e, he_state e, he_trips e, he_failures e)) (hf_upstreams f)"

subsection \<open>Restoring\<close>

definition entry_key :: "health_entry \<Rightarrow> bytes \<times> byte \<times> bytes" where
  "entry_key e = (he_upstream e, he_gate e, he_group e)"

text \<open>Of the entries with one key the last counts.\<close>

definition saved_entry :: "health_file \<Rightarrow> bytes \<times> byte \<times> bytes \<Rightarrow> health_entry option" where
  "saved_entry f key = List.find (\<lambda>e. entry_key e = key) (rev (hf_upstreams f))"

definition entry_health :: "duration \<Rightarrow> health_entry \<Rightarrow> health option" where
  "entry_health idle e =
     (let left = from_secs (he_remaining_sec e) - idle
      in if he_state e = STATE_QUARANTINED \<and> left \<noteq> 0
         then Some \<lparr>h_state = UsQuarantined, h_remaining = left, h_trips = he_trips e, h_consecutive = he_failures e\<rparr>
         else if he_state e = STATE_QUARANTINED \<or> he_state e = STATE_PROBATION
         then Some \<lparr>h_state = UsProbation, h_remaining = 0, h_trips = he_trips e, h_consecutive = he_failures e\<rparr>
         else None)"

definition saved_health :: "health_file \<Rightarrow> duration \<Rightarrow> bytes \<Rightarrow> proxy_config \<Rightarrow> health option" where
  "saved_health f idle name p =
     (case (case saved_entry f (upstream_label p, pc_gate_level p, name) of
              Some e \<Rightarrow> Some e
            | None \<Rightarrow> saved_entry f (upstream_label p, pc_gate_level p, [])) of
        None \<Rightarrow> None
      | Some e \<Rightarrow> entry_health idle e)"

definition health_entries :: "health_file \<Rightarrow> duration \<Rightarrow> bytes \<Rightarrow> proxy_config list \<Rightarrow> upstream_health list" where
  "health_entries f idle name ps =
     List.map_filter (\<lambda>p. map_option (\<lambda>h. \<lparr>uh_proxy = p, uh_health = h\<rparr>) (saved_health f idle name p)) ps"

fun restore_groups ::
  "hashers \<Rightarrow> health_file \<Rightarrow> duration \<Rightarrow> (nat \<Rightarrow> instant) \<Rightarrow> health_group list \<Rightarrow> restored \<times> rotator_store \<Rightarrow> restored \<times> rotator_store" where
  "restore_groups hs f idle clk [] (n, st) = (n, st)"
| "restore_groups hs f idle clk (g # gs) (n, st) =
     (let k = hg_rotator g;
          es = health_entries f idle (hg_name g) (proxies (st k));
          rot = snd (rotator_restore_health (hs k) (st k) es (clk k));
          down = filter (\<lambda>e. rotator_is_quarantined (hs k) rot (uh_proxy e)) es
      in restore_groups hs f idle clk gs
           (\<lparr>re_quarantined = re_quarantined n + length (filter (\<lambda>e. h_state (uh_health e) = UsQuarantined) down),
             re_probation = re_probation n + length (filter (\<lambda>e. h_state (uh_health e) \<noteq> UsQuarantined) down)\<rparr>,
            st(k := rot)))"

definition health_restore ::
  "hashers \<Rightarrow> health_group list \<Rightarrow> health_file \<Rightarrow> (nat \<Rightarrow> instant) \<Rightarrow> nat \<Rightarrow> rotator_store \<Rightarrow> restored \<times> rotator_store" where
  "health_restore hs gs f clk unix st =
     restore_groups hs f (from_secs (unix - hf_saved_at f)) clk gs (\<lparr>re_quarantined = 0, re_probation = 0\<rparr>, st)"

record resumed =
  rd_saved :: "health_file option"
  rd_restored :: restored
  rd_warning :: bool

text \<open>A missing file is a first start, an unreadable one is reported and ignored.\<close>

definition resume ::
  "hashers \<Rightarrow> health_group list \<Rightarrow> health_file found \<Rightarrow> (nat \<Rightarrow> instant) \<Rightarrow> nat \<Rightarrow> rotator_store \<Rightarrow> resumed \<times> rotator_store" where
  "resume hs gs file clk unix st =
     (case file of
        Readable f \<Rightarrow>
          (let (n, st') = health_restore hs gs f clk unix st
           in (\<lparr>rd_saved = Some f, rd_restored = n, rd_warning = False\<rparr>, st'))
      | Missing \<Rightarrow> (\<lparr>rd_saved = None, rd_restored = \<lparr>re_quarantined = 0, re_probation = 0\<rparr>, rd_warning = False\<rparr>, st)
      | Unreadable \<Rightarrow> (\<lparr>rd_saved = None, rd_restored = \<lparr>re_quarantined = 0, re_probation = 0\<rparr>, rd_warning = True\<rparr>, st))"

subsection \<open>The saver\<close>

text \<open>The file, the baseline, whether the last write failed, and the number of failures reported. Without the lock of
  the file there is no task, and nothing is ever written.\<close>

record saver =
  sr_file :: "health_file found"
  sr_task :: bool
  sr_last :: "health_file option"
  sr_failing :: bool
  sr_reports :: nat

definition saver_start ::
  "hashers \<Rightarrow> health_group list \<Rightarrow> health_file found \<Rightarrow> bool \<Rightarrow> (nat \<Rightarrow> instant) \<Rightarrow> instant \<Rightarrow> nat \<Rightarrow> rotator_store \<Rightarrow>
   saver \<times> bool \<times> rotator_store" where
  "saver_start hs gs file locked clk now unix st =
     (let (r, st') = resume hs gs file clk unix st;
          was_found = (rd_saved r \<noteq> None);
          initial = (if was_found then Some (health_snapshot st' gs now unix) else None)
      in (\<lparr>sr_file = file, sr_task = locked, sr_last = initial, sr_failing = False, sr_reports = (if locked then 0 else 1)\<rparr>,
          was_found, st'))"

text \<open>A write that fails may have taken place all the same.\<close>

definition save_offloaded :: "write_result \<Rightarrow> health_file \<Rightarrow> saver \<Rightarrow> bool \<times> saver" where
  "save_offloaded w picture s =
     (case w of
        WriteOk \<Rightarrow> (True, s\<lparr>sr_file := Readable picture\<rparr>)
      | WriteFailed \<Rightarrow> (False, s)
      | WriteUndetermined \<Rightarrow> (False, s\<lparr>sr_file := Readable picture\<rparr>))"

definition saver_round :: "health_file \<Rightarrow> write_result \<Rightarrow> saver \<Rightarrow> saver" where
  "saver_round picture w s =
     (if case sr_last s of Some l \<Rightarrow> signature l = signature picture | None \<Rightarrow> False then s
      else case save_offloaded w picture s of
             (True, s) \<Rightarrow> s\<lparr>sr_failing := False, sr_last := Some picture\<rparr>
           | (False, s) \<Rightarrow> s\<lparr>sr_failing := True, sr_reports := (if sr_failing s then sr_reports s else sr_reports s + 1)\<rparr>)"

fun run_saver :: "(health_file \<times> write_result) list \<Rightarrow> saver \<Rightarrow> saver" where
  "run_saver [] s = s"
| "run_saver ((picture, w) # rs) s = run_saver rs (saver_round picture w s)"

text \<open>Shutdown: the loop ends within its budget or is given up; then one last write, which may outlast its budget.\<close>

definition save_final :: "health_file \<Rightarrow> bool \<Rightarrow> write_result \<Rightarrow> saver \<Rightarrow> saver" where
  "save_final picture timed_out w s =
     (case save_offloaded w picture s of
        (ok, s) \<Rightarrow> if ok \<and> \<not> timed_out then s else s\<lparr>sr_reports := sr_reports s + 1\<rparr>)"

definition saver_finish :: "bool \<Rightarrow> health_file \<Rightarrow> bool \<Rightarrow> write_result \<Rightarrow> saver \<Rightarrow> saver" where
  "saver_finish loop_ended picture timed_out w s =
     (if \<not> sr_task s then s
      else if \<not> loop_ended then s\<lparr>sr_reports := sr_reports s + 1\<rparr>
      else save_final picture timed_out w s)"

text \<open>The whole life of the saver.\<close>

definition saver_session ::
  "(health_file \<times> write_result) list \<Rightarrow> bool \<Rightarrow> health_file \<Rightarrow> bool \<Rightarrow> write_result \<Rightarrow> saver \<Rightarrow> saver" where
  "saver_session rounds loop_ended picture timed_out w s =
     saver_finish loop_ended picture timed_out w (if sr_task s then run_saver rounds s else s)"

end
