(* ===== verification/StartupSpec.thy ===== *)
theory StartupSpec
  imports Startup
begin

text \<open>
  What a started server has: the groups of the proxy lists are complete and disjoint, every rotator is well formed,
  the gate levels are ranked, and a start is refused for exactly the reasons the code gives.
\<close>

subsection \<open>Lists\<close>

lemma parse_lines_parsed:
  "set (fst (parse_lines i ls proto)) = {c. \<exists>l \<in> set ls. take 1 l \<noteq> [HASH] \<and> parse_proxy_str l proto = Ok c}"
  by (induction i ls proto rule: parse_lines.induct) (auto simp: Let_def case_prod_beta split: sum.splits)

lemma parse_proxy_str_gate:
  assumes "parse_proxy_str s proto = Ok c"
  shows "pc_is_gate c \<longleftrightarrow> 0 < pc_gate_level c"
  using assms by (auto simp: parse_proxy_str_def Let_def split: if_splits sum.splits option.splits prod.splits proxy_config.splits)

text \<open>The entries of the lists, each with its protocol: what a family is made of.\<close>

definition entries :: "(bytes list \<times> proxy_protocol) list \<Rightarrow> proxy_config set" where
  "entries lss = {c. \<exists>(ls, proto) \<in> set lss. \<exists>l \<in> set ls. take 1 l \<noteq> [HASH] \<and> parse_proxy_str l proto = Ok c}"

definition lists_v6 :: "proxy_list_config \<Rightarrow> (bytes list \<times> proxy_protocol) list" where
  "lists_v6 pl = [(pl_socks5_v6 pl, Socks5), (pl_http_v6 pl, Http), (pl_https_v6 pl, Https)]"

definition lists_v4 :: "proxy_list_config \<Rightarrow> (bytes list \<times> proxy_protocol) list" where
  "lists_v4 pl = [(pl_socks5_v4 pl, Socks5), (pl_http_v4 pl, Http), (pl_https_v4 pl, Https)]"

lemma entries_append: "entries (a @ b) = entries a \<union> entries b"
  by (auto simp: entries_def)

lemma set_all:
  "set (all_v6 pl) = entries (lists_v6 pl)" "set (all_v4 pl) = entries (lists_v4 pl)"
  by (auto simp: all_v6_def all_v4_def entries_def lists_v6_def lists_v4_def parse_proxy_list_def
      parse_proxy_list_checked_def case_prod_beta Let_def parse_lines_parsed)

subsection \<open>Gate levels\<close>

definition levels_inv :: "proxy_config list \<Rightarrow> (byte \<times> proxy_config list) list \<Rightarrow> bool" where
  "levels_inv gs ls \<longleftrightarrow>
     sorted_wrt (<) (map fst ls) \<and> fst ` set ls = pc_gate_level ` set gs \<and>
     (\<forall>(r, ps) \<in> set ls. ps = filter (\<lambda>g. pc_gate_level g = r) gs)"

lemma set_level_push: "fst ` set (level_push r g ls) = insert r (fst ` set ls)"
  by (induction r g ls rule: level_push.induct) auto

lemma level_push_sorted: "sorted_wrt (<) (map fst ls) \<Longrightarrow> sorted_wrt (<) (map fst (level_push r g ls))"
proof (induction r g ls rule: level_push.induct)
  case (2 rank g r gs ls)
  have "r < x" if "r < rank" "x \<in> set (map fst (level_push rank g ls))" for x
    using that set_level_push [of rank g ls] 2(2) by auto
  then show ?case using 2 by (auto simp: not_less_iff_gr_or_eq)
qed simp

lemma level_push_lookup:
  assumes "sorted_wrt (<) (map fst ls)" "(r, ps) \<in> set (level_push rank g ls)"
  shows "if r = rank then ((\<forall>qs. (rank, qs) \<notin> set ls) \<and> ps = [g]) \<or> (\<exists>qs. (rank, qs) \<in> set ls \<and> ps = qs @ [g]) else (r, ps) \<in> set ls"
  using assms
proof (induction rank g ls rule: level_push.induct)
  case (2 rank g r' gs ls)
  consider "rank = r'" | "rank < r'" | "r' < rank" by (rule linorder_less_linear [THEN disjE]) auto
  then show ?case
  proof cases
    case 1
    then show ?thesis using "2.prems" by (auto split: if_splits)
  next
    case 2
    then have "\<forall>qs. (rank, qs) \<notin> set ((r', gs) # ls)" using "2.prems"(1) by force
    then show ?thesis using 2 "2.prems" by (auto split: if_splits)
  next
    case 3
    then have "(r, ps) = (r', gs) \<or> (r, ps) \<in> set (level_push rank g ls)" "sorted_wrt (<) (map fst ls)"
      using "2.prems" by (auto split: if_splits)
    moreover have "rank \<noteq> r'" "\<not> rank < r'" using 3 by auto
    ultimately show ?thesis using "2.IH" by (auto split: if_splits)
  qed
qed auto

lemma levels_inv_push:
  assumes "levels_inv gs ls"
  shows "levels_inv (gs @ [g]) (level_push (pc_gate_level g) g ls)"
proof -
  have s: "sorted_wrt (<) (map fst ls)" and k: "fst ` set ls = pc_gate_level ` set gs"
    and f: "\<And>r ps. (r, ps) \<in> set ls \<Longrightarrow> ps = filter (\<lambda>g. pc_gate_level g = r) gs"
    using assms by (auto simp: levels_inv_def)
  have none: "filter (\<lambda>h. pc_gate_level h = pc_gate_level g) gs = []" if "\<forall>qs. (pc_gate_level g, qs) \<notin> set ls"
  proof -
    have "pc_gate_level g \<notin> fst ` set ls" using that by auto
    then show ?thesis unfolding k by (auto simp: filter_empty_conv) (metis image_eqI)
  qed
  have "ps = filter (\<lambda>g. pc_gate_level g = r) (gs @ [g])" if "(r, ps) \<in> set (level_push (pc_gate_level g) g ls)" for r ps
  proof (cases "r = pc_gate_level g")
    case True
    then show ?thesis using level_push_lookup [OF s that] none f by auto
  next
    case False
    then show ?thesis using level_push_lookup [OF s that] f [of r ps] by simp
  qed
  then show ?thesis
    using level_push_sorted [OF s] set_level_push [of "pc_gate_level g" g ls] k by (auto simp: levels_inv_def)
qed

lemma group_gate_levels_inv: "levels_inv gs (group_gate_levels gs)"
proof (induction gs rule: rev_induct)
  case (snoc g gs)
  then show ?case using levels_inv_push [of gs "group_gate_levels gs" g] by (simp add: group_gate_levels_def)
qed (simp add: group_gate_levels_def levels_inv_def)

text \<open>Every level has an entry, of its own rank.\<close>

lemma group_gate_levels_level:
  assumes "(r, ps) \<in> set (group_gate_levels gs)"
  shows "ps = filter (\<lambda>g. pc_gate_level g = r) gs" "ps \<noteq> []"
proof -
  show ps: "ps = filter (\<lambda>g. pc_gate_level g = r) gs" using group_gate_levels_inv [of gs] assms by (auto simp: levels_inv_def)
  have "r \<in> fst ` set (group_gate_levels gs)" using assms by force
  then have "r \<in> pc_gate_level ` set gs" using group_gate_levels_inv [of gs] by (simp add: levels_inv_def)
  then show "ps \<noteq> []" using ps by (auto simp: filter_empty_conv)
qed

lemma group_gate_levels_entries: "(\<Union>(r, ps) \<in> set (group_gate_levels gs). set ps) = set gs"
proof -
  have "\<exists>ps. (pc_gate_level g, ps) \<in> set (group_gate_levels gs)" if "g \<in> set gs" for g
  proof -
    have "pc_gate_level g \<in> fst ` set (group_gate_levels gs)" using group_gate_levels_inv [of gs] that by (simp add: levels_inv_def)
    then show ?thesis by auto
  qed
  moreover have "set ps \<subseteq> set gs" if "(r, ps) \<in> set (group_gate_levels gs)" for r ps
    using group_gate_levels_level(1) [OF that] by auto
  moreover have "g \<in> set ps" if "g \<in> set gs" "(pc_gate_level g, ps) \<in> set (group_gate_levels gs)" for g ps
    using group_gate_levels_level(1) [OF that(2)] that(1) by auto
  ultimately show ?thesis by fast
qed

subsection \<open>Rotators\<close>

abbreviation "fresh_rotator h g rp qp t seed \<equiv>
  rotator_try_with_quarantine h g rp qp DEFAULT_STICKY_CACHE_MAX_ENTRIES DEFAULT_STICKY_CACHE_TTL t seed"

lemma build_rotators_Ok:
  assumes "build_rotators hs seeds clk rp qp k gs = Ok rs"
  shows "length rs = length gs" "j < length gs \<Longrightarrow> fresh_rotator (hs (k + j)) (gs ! j) rp qp (clk (k + j)) (seeds (k + j)) = Ok (rs ! j)"
proof -
  have "length rs = length gs \<and>
      (\<forall>j < length gs. fresh_rotator (hs (k + j)) (gs ! j) rp qp (clk (k + j)) (seeds (k + j)) = Ok (rs ! j))"
    using assms
  proof (induction gs arbitrary: k rs)
    case (Cons g gs)
    then obtain r rs' where r: "fresh_rotator (hs k) g rp qp (clk k) (seeds k) = Ok r"
      "build_rotators hs seeds clk rp qp (k + 1) gs = Ok rs'" "rs = r # rs'"
      by (auto split: sum.splits simp: map_sum_Ok)
    then show ?case using Cons.IH [OF r(2)] by (auto simp: less_Suc_eq_0_disj)
  qed simp
  then show "length rs = length gs"
    "j < length gs \<Longrightarrow> fresh_rotator (hs (k + j)) (gs ! j) rp qp (clk (k + j)) (seeds (k + j)) = Ok (rs ! j)" by simp_all
qed

lemma fresh_rotator_Ok_iff:
  "(\<exists>r. rotator_try_with_quarantine h g rp qp maxe life t seed = Ok r) \<longleftrightarrow>
   g \<noteq> [] \<and> validate_rating rp = Ok () \<and> validate_quarantine qp = Ok ()"
  by (auto simp: rotator_try_with_quarantine_def try_with_quarantine_def Let_def case_prod_beta split: sum.splits)

lemma build_rotators_Ok_iff:
  assumes "[] \<notin> set gs"
  shows "(\<exists>rs. build_rotators hs seeds clk rp qp k gs = Ok rs) \<longleftrightarrow>
    gs = [] \<or> validate_rating rp = Ok () \<and> validate_quarantine qp = Ok ()"
  using assms
proof (induction gs arbitrary: k)
  case (Cons g gs)
  have "(\<exists>rs. build_rotators hs seeds clk rp qp k (g # gs) = Ok rs) \<longleftrightarrow>
      (\<exists>r. fresh_rotator (hs k) g rp qp (clk k) (seeds k) = Ok r) \<and> (\<exists>rs. build_rotators hs seeds clk rp qp (k + 1) gs = Ok rs)"
    by (auto split: sum.splits simp: map_sum_Ok)
  then show ?case using Cons by (auto simp: fresh_rotator_Ok_iff)
qed simp

text \<open>A rotator keeps one entry of each identity.\<close>

lemma first_occurrences_ids:
  "node_id ` set (first_occurrences u ps) = node_id ` set (u @ ps)" "set (first_occurrences u ps) \<subseteq> set (u @ ps)"
proof (induction ps arbitrary: u)
  case (Cons p ps)
  {
    case 1
    show ?case using Cons(1) [of u] Cons(1) [of "u @ [p]"] by (auto simp: first_occurrences_Cons)
  next
    case 2
    show ?case using Cons(2) [of u] Cons(2) [of "u @ [p]"] by (auto simp: first_occurrences_Cons)
  }
qed (simp_all add: first_occurrences_def)

subsection \<open>A start\<close>

definition plain6 :: "proxy_list_config \<Rightarrow> proxy_config list" where
  "plain6 pl = filter (\<lambda>p. \<not> pc_is_gate p) (all_v6 pl)"

definition plain4 :: "proxy_list_config \<Rightarrow> proxy_config list" where
  "plain4 pl = filter (\<lambda>p. \<not> pc_is_gate p) (all_v4 pl)"

definition gate_groups :: "proxy_list_config \<Rightarrow> (byte \<times> proxy_config list) list" where
  "gate_groups pl = group_gate_levels (filter pc_is_gate (all_v6 pl) @ filter pc_is_gate (all_v4 pl))"

definition groups :: "proxy_list_config \<Rightarrow> proxy_config list list" where
  "groups pl = (if plain6 pl = [] then [] else [plain6 pl]) @ map snd (gate_groups pl) @ (if plain4 pl = [] then [] else [plain4 pl])"

lemma groups_nonempty: "[] \<notin> set (groups pl)"
  by (auto simp: groups_def gate_groups_def) (blast dest: group_gate_levels_level(2))

lemma startup_cases:
  "startup hs seeds clk secret pc cfg =
     (let m = cf_main cfg; us = cf_users cfg; pl = cf_proxy_list cfg; net = mc_network m in
      case validate_allowed_clients secret m us of
        Err e \<Rightarrow> Err e
      | Ok (allowed, auth) \<Rightarrow>
          if \<not> pc (mc_banned_patterns m) then Err BadPattern
          else case build_rotators hs seeds clk (startup_rating_policy net) (startup_quarantine_policy net (length (gate_groups pl))) 0 (groups pl) of
                 Err e \<Rightarrow> Err e
               | Ok rs \<Rightarrow>
                   if plain6 pl = [] \<and> plain4 pl = [] \<and> \<not> list_ex (\<lambda>u. u_enabled u \<and> u_direct u) us then Err NoUpstreams
                   else (case number_groups (plain6 pl) (gate_groups pl) (plain4 pl) of (i6, ranks, i4) \<Rightarrow>
                     Ok \<lparr>sv_allowed = allowed, sv_auth = auth, sv_rotators = rs, sv_v6 = i6, sv_v4 = i4,
                            sv_gates = gate_levels_new ranks, sv_pool = pool_new (mc_pool m) (nc_max_per_upstream net),
                            sv_tls = (pl_https_v4 pl \<noteq> [] \<or> pl_https_v6 pl \<noteq> [])\<rparr>))"
  by (auto simp: startup_def partition_proxy_groups_def plain6_def plain4_def gate_groups_def groups_def Let_def
      number_groups_def should_bail_no_upstreams_def has_usable_route_def split: sum.splits)

lemma startup_Ok:
  assumes "startup hs seeds clk secret pc cfg = Ok s"
  shows "build_rotators hs seeds clk (startup_rating_policy (mc_network (cf_main cfg)))
           (startup_quarantine_policy (mc_network (cf_main cfg)) (length (gate_groups (cf_proxy_list cfg)))) 0
           (groups (cf_proxy_list cfg)) = Ok (sv_rotators s)"
    and "\<exists>ranks. number_groups (plain6 (cf_proxy_list cfg)) (gate_groups (cf_proxy_list cfg)) (plain4 (cf_proxy_list cfg)) =
           (sv_v6 s, ranks, sv_v4 s) \<and> sv_gates s = gate_levels_new ranks"
    and "plain6 (cf_proxy_list cfg) = [] \<and> plain4 (cf_proxy_list cfg) = [] \<Longrightarrow> list_ex (\<lambda>u. u_enabled u \<and> u_direct u) (cf_users cfg)"
  using assms by (auto simp: startup_cases Let_def split: sum.splits prod.splits if_splits)

text \<open>A start succeeds exactly when the filters and the patterns compile, the policies are valid as far as they are
  used, and there is a plain upstream or an enabled direct user.\<close>

lemma startup_Ok_iff:
  "(\<exists>s. startup hs seeds clk secret pc cfg = Ok s) \<longleftrightarrow>
   (let m = cf_main cfg; us = cf_users cfg; pl = cf_proxy_list cfg; net = mc_network m
    in (\<exists>a. compile_allowed_clients (mc_allowed_clients m) = Ok a) \<and>
       (\<exists>s. auth_build (mc_allow_anonymous m) secret us = Ok s) \<and> pc (mc_banned_patterns m) \<and>
       (groups pl = [] \<or> validate_rating (startup_rating_policy net) = Ok () \<and>
          validate_quarantine (startup_quarantine_policy net (length (gate_groups pl))) = Ok ()) \<and>
       (plain6 pl \<noteq> [] \<or> plain4 pl \<noteq> [] \<or> (\<exists>u \<in> set us. u_enabled u \<and> u_direct u)))"
  using build_rotators_Ok_iff [OF groups_nonempty, of hs seeds clk "startup_rating_policy (mc_network (cf_main cfg))"
      "startup_quarantine_policy (mc_network (cf_main cfg)) (length (gate_groups (cf_proxy_list cfg)))" 0 "cf_proxy_list cfg"]
  by (auto simp: startup_cases Let_def validate_allowed_clients_def list_ex_iff split: sum.splits prod.splits)

text \<open>The numbers are the positions of the groups, each used once.\<close>

lemma number_groups_position:
  assumes "number_groups v6 gates v4 = (i6, ranks, i4)"
    and "gl = (if v6 = [] then [] else [v6]) @ map snd gates @ (if v4 = [] then [] else [v4])"
  shows "i6 = (if v6 = [] then None else Some 0)" "v6 \<noteq> [] \<Longrightarrow> gl ! 0 = v6"
    and "i4 = (if v4 = [] then None else Some (length gl - 1))" "v4 \<noteq> [] \<Longrightarrow> gl ! (length gl - 1) = v4"
    and "map fst ranks = map fst gates"
    and "(rank, k) \<in> set ranks \<Longrightarrow> k < length gl \<and> (rank, gl ! k) \<in> set gates"
    and "List.map_filter id [i6] @ map snd ranks @ List.map_filter id [i4] = [0 ..< length gl]"
proof -
  let ?b = "if v6 = [] then 0 else 1 :: nat"
  have r: "ranks = zip (map fst gates) [?b ..< ?b + length gates]"
    using assms(1) by (auto simp: number_groups_def Let_def)
  show "i6 = (if v6 = [] then None else Some 0)" "v6 \<noteq> [] \<Longrightarrow> gl ! 0 = v6"
    using assms by (auto simp: number_groups_def Let_def)
  show i4: "i4 = (if v4 = [] then None else Some (length gl - 1))" "v4 \<noteq> [] \<Longrightarrow> gl ! (length gl - 1) = v4"
    using assms by (auto simp: number_groups_def Let_def nth_append)
  show "map fst ranks = map fst gates" by (simp add: r)
  show "k < length gl \<and> (rank, gl ! k) \<in> set gates" if k: "(rank, k) \<in> set ranks"
  proof -
    obtain j where j: "j < length gates" "rank = fst (gates ! j)" "k = ?b + j"
      using k unfolding r by (auto simp: in_set_conv_nth simp del: upt_Suc split: if_splits)
    then have "gl ! k = snd (gates ! j)" "k < length gl" by (auto simp: assms(2) nth_append)
    then show ?thesis using j(1,2) nth_mem [OF j(1)] by simp
  qed
  show "List.map_filter id [i6] @ map snd ranks @ List.map_filter id [i4] = [0 ..< length gl]"
    using assms(1) upt_add_eq_append [of 0 1 "length gates"]
    by (auto simp: assms(2) number_groups_def Let_def List.map_filter_def upt_conv_Cons)
qed

lemma gate_levels_new_ranked:
  assumes "distinct (map fst ranks)"
  shows "sorted_wrt (\<lambda>a b. fst b < fst a) (gate_levels_new ranks)" "mset (gate_levels_new ranks) = mset ranks"
proof -
  let ?k = "\<lambda>(rank :: byte, _ :: nat). 255 - unat rank"
  show m: "mset (gate_levels_new ranks) = mset ranks" by (simp add: gate_levels_new_def)
  have d: "distinct (map fst (gate_levels_new ranks))"
    using m assms by (metis mset_eq_imp_distinct_iff mset_map)
  have "sorted (map ?k (gate_levels_new ranks))" by (simp add: gate_levels_new_def)
  from sorted_nth_mono [OF this] have *: "?k (gate_levels_new ranks ! i) \<le> ?k (gate_levels_new ranks ! j)"
    if "i < j" "j < length (gate_levels_new ranks)" for i j
    using that by fastforce
  show "sorted_wrt (\<lambda>a b. fst b < fst a) (gate_levels_new ranks)"
    unfolding sorted_wrt_iff_nth_less
  proof (intro allI impI)
    fix i j assume ij: "i < j" "j < length (gate_levels_new ranks)"
    let ?a = "fst (gate_levels_new ranks ! i)" and ?b = "fst (gate_levels_new ranks ! j)"
    have ne: "?a \<noteq> ?b" using d ij by (auto simp: distinct_conv_nth)
    have "unat ?a \<le> 255" "unat ?b \<le> 255" using unsigned_less [of ?a, where 'a = nat] unsigned_less [of ?b, where 'a = nat] by simp_all
    moreover have "255 - unat ?a \<le> 255 - unat ?b" using * [OF ij] by (simp add: case_prod_beta)
    ultimately have "unat ?b \<le> unat ?a" by linarith
    then show "?b < ?a" using ne by (auto simp: word_less_nat_alt word_unat_eq_iff)
  qed
qed

text \<open>The identities a rotator holds.\<close>

definition ids :: "rotator \<Rightarrow> node_id set" where
  "ids r = node_id ` set (proxies r)"

lemma startup_rotator:
  assumes "startup hs seeds clk secret pc cfg = Ok s" "k < length (sv_rotators s)"
  shows "rotator_inv (hs k) (sv_rotators s ! k)"
    and "k < length (groups (cf_proxy_list cfg))" "ids (sv_rotators s ! k) = node_id ` set (groups (cf_proxy_list cfg) ! k)"
proof -
  note b = startup_Ok(1) [OF assms(1)]
  show k: "k < length (groups (cf_proxy_list cfg))" using build_rotators_Ok(1) [OF b] assms(2) by simp
  note r = rotator_inv_start [OF build_rotators_Ok(2) [OF b k, simplified]]
  then show "rotator_inv (hs k) (sv_rotators s ! k)" by simp
  show "ids (sv_rotators s ! k) = node_id ` set (groups (cf_proxy_list cfg) ! k)"
    using r first_occurrences_ids(1) [of "[]" "groups (cf_proxy_list cfg) ! k"] by (simp add: ids_def)
qed

lemma plain_entries:
  "set (plain6 pl) = {c \<in> entries (lists_v6 pl). pc_gate_level c = 0}" "set (plain4 pl) = {c \<in> entries (lists_v4 pl). pc_gate_level c = 0}"
proof -
  have "pc_is_gate c \<longleftrightarrow> pc_gate_level c \<noteq> 0" if "c \<in> entries ls" for c ls
    using that parse_proxy_str_gate by (auto simp: entries_def word_gt_0)
  then show "set (plain6 pl) = {c \<in> entries (lists_v6 pl). pc_gate_level c = 0}"
    "set (plain4 pl) = {c \<in> entries (lists_v4 pl). pc_gate_level c = 0}"
    by (auto simp: plain6_def plain4_def set_all)
qed

lemma gate_groups_entries:
  "fst ` set (gate_groups pl) = pc_gate_level ` {c \<in> entries (lists_v6 pl @ lists_v4 pl). pc_gate_level c \<noteq> 0}"
  "(r, ps) \<in> set (gate_groups pl) \<Longrightarrow> set ps = {c \<in> entries (lists_v6 pl @ lists_v4 pl). pc_gate_level c = r} \<and> r \<noteq> 0"
proof -
  let ?gs = "filter pc_is_gate (all_v6 pl) @ filter pc_is_gate (all_v4 pl)"
  have e: "pc_is_gate c \<longleftrightarrow> pc_gate_level c \<noteq> 0" if "c \<in> entries ls" for c ls
    using that parse_proxy_str_gate by (auto simp: entries_def word_gt_0)
  have gs: "set ?gs = {c \<in> entries (lists_v6 pl @ lists_v4 pl). pc_gate_level c \<noteq> 0}" using e by (auto simp: set_all entries_append)
  show f: "fst ` set (gate_groups pl) = pc_gate_level ` {c \<in> entries (lists_v6 pl @ lists_v4 pl). pc_gate_level c \<noteq> 0}"
    using group_gate_levels_inv [of ?gs] unfolding levels_inv_def gate_groups_def gs by simp
  assume r: "(r, ps) \<in> set (gate_groups pl)"
  then have "r \<in> fst ` set (gate_groups pl)" by force
  then have "r \<noteq> 0" unfolding f by auto
  moreover have "ps = filter (\<lambda>g. pc_gate_level g = r) ?gs" 
    using group_gate_levels_level(1) [of r ps ?gs] r by (simp add: gate_groups_def)
  then have "set ps = {g \<in> set ?gs. pc_gate_level g = r}" by auto
  ultimately show "set ps = {c \<in> entries (lists_v6 pl @ lists_v4 pl). pc_gate_level c = r} \<and> r \<noteq> 0" unfolding gs by auto
qed

lemma startup_numbering:
  assumes "startup hs seeds clk secret patterns_compile cfg = Ok s"
  shows "sorted_wrt (\<lambda>a b. fst b < fst a) (sv_gates s)"
    and "mset (exits_of s @ map snd (sv_gates s)) = mset [0 ..< length (sv_rotators s)]"
    and "distinct (exits_of s @ map snd (sv_gates s))"
proof -
  let ?pl = "cf_proxy_list cfg"
  obtain ranks where n: "number_groups (plain6 ?pl) (gate_groups ?pl) (plain4 ?pl) = (sv_v6 s, ranks, sv_v4 s)"
    and g: "sv_gates s = gate_levels_new ranks"
    using startup_Ok(2) [OF assms] by auto
  note pos = number_groups_position [OF n groups_def [of ?pl]]
  have d: "distinct (map fst ranks)"
    using group_gate_levels_inv unfolding pos(5) gate_groups_def levels_inv_def by (metis strict_sorted_iff)
  note ranked = gate_levels_new_ranked [OF d]
  show "sorted_wrt (\<lambda>a b. fst b < fst a) (sv_gates s)" using ranked(1) by (simp add: g)
  have "mset (exits_of s @ map snd (sv_gates s)) = mset [0 ..< length (groups ?pl)]"
    using arg_cong [OF ranked(2), of "image_mset snd"] unfolding pos(7) [symmetric] g exits_of_def
    by (simp add: List.map_filter_def)
  also have "length (groups ?pl) = length (sv_rotators s)" using build_rotators_Ok(1) [OF startup_Ok(1) [OF assms]] by simp
  finally show m: "mset (exits_of s @ map snd (sv_gates s)) = mset [0 ..< length (sv_rotators s)]" .
  show "distinct (exits_of s @ map snd (sv_gates s))" using m by (metis mset_eq_imp_distinct_iff distinct_upt)
qed

text \<open>C33: A started server is well formed and complete. Every rotator satisfies its invariant and has one role: an exit of
  its family or one gate level; the levels are ranked from the outermost inwards; a gate level holds the identities
  of exactly the listed entries of its rank, of both families, and every rank of the lists has its level; an exit
  holds the identities of exactly the plain entries of its family, and is missing only when there are none; and
  without any exit there is an enabled direct user.\<close>

theorem started_server_well_formed:
  assumes "startup hs seeds clk secret patterns_compile cfg = Ok s"
  shows "(\<forall>k < length (sv_rotators s). rotator_inv (hs k) (sv_rotators s ! k)) \<and>
    distinct (exits_of s @ map snd (sv_gates s)) \<and>
    set (exits_of s @ map snd (sv_gates s)) = {..< length (sv_rotators s)} \<and>
    sorted_wrt (\<lambda>a b. fst b < fst a) (sv_gates s) \<and>
    fst ` set (sv_gates s) =
      pc_gate_level ` {c \<in> entries (lists_v6 (cf_proxy_list cfg) @ lists_v4 (cf_proxy_list cfg)). pc_gate_level c \<noteq> 0} \<and>
    (\<forall>(rank, k) \<in> set (sv_gates s). rank \<noteq> 0 \<and> ids (sv_rotators s ! k) =
       node_id ` {c \<in> entries (lists_v6 (cf_proxy_list cfg) @ lists_v4 (cf_proxy_list cfg)). pc_gate_level c = rank}) \<and>
    (case sv_v6 s of
       None \<Rightarrow> {c \<in> entries (lists_v6 (cf_proxy_list cfg)). pc_gate_level c = 0} = {}
     | Some k \<Rightarrow> ids (sv_rotators s ! k) = node_id ` {c \<in> entries (lists_v6 (cf_proxy_list cfg)). pc_gate_level c = 0}) \<and>
    (case sv_v4 s of
       None \<Rightarrow> {c \<in> entries (lists_v4 (cf_proxy_list cfg)). pc_gate_level c = 0} = {}
     | Some k \<Rightarrow> ids (sv_rotators s ! k) = node_id ` {c \<in> entries (lists_v4 (cf_proxy_list cfg)). pc_gate_level c = 0}) \<and>
    (exits_of s = [] \<longrightarrow> (\<exists>u \<in> set (cf_users cfg). u_enabled u \<and> u_direct u))"
proof -
  let ?pl = "cf_proxy_list cfg"
  obtain ranks where n: "number_groups (plain6 ?pl) (gate_groups ?pl) (plain4 ?pl) = (sv_v6 s, ranks, sv_v4 s)"
    and g: "sv_gates s = gate_levels_new ranks"
    using startup_Ok(2) [OF assms] by auto
  note pos = number_groups_position [OF n groups_def [of ?pl]]
  have len: "length (groups ?pl) = length (sv_rotators s)" using build_rotators_Ok(1) [OF startup_Ok(1) [OF assms]] by simp
  have d: "distinct (map fst ranks)"
    using group_gate_levels_inv unfolding pos(5) gate_groups_def levels_inv_def by (metis strict_sorted_iff)
  note ranked = gate_levels_new_ranked [OF d]
  have sg: "set (sv_gates s) = set ranks" using ranked(2) unfolding g by (metis set_mset_mset)
  have gate: "rank \<noteq> 0 \<and> ids (sv_rotators s ! k) = node_id ` {c \<in> entries (lists_v6 ?pl @ lists_v4 ?pl). pc_gate_level c = rank}"
    if "(rank, k) \<in> set (sv_gates s)" for rank k
    using pos(6) [of rank k] gate_groups_entries(2) [of rank "groups ?pl ! k" ?pl] startup_rotator(3) [OF assms, of k] that len
    by (auto simp: sg)
  have exits: "case i of None \<Rightarrow> {c \<in> entries ls. pc_gate_level c = 0} = {}
      | Some k \<Rightarrow> ids (sv_rotators s ! k) = node_id ` {c \<in> entries ls. pc_gate_level c = 0}"
    if "set pls = {c \<in> entries ls. pc_gate_level c = 0}" "i = (if pls = [] then None else Some k)"
      "pls \<noteq> [] \<Longrightarrow> groups ?pl ! k = pls \<and> k < length (groups ?pl)" for i k pls ls
    using that startup_rotator(3) [OF assms, of k] len by (auto split: option.splits if_splits)
  have ne: "0 < length (groups ?pl)" if "plain6 ?pl \<noteq> [] \<or> plain4 ?pl \<noteq> []" using that by (auto simp: groups_def)
  have v6: "case sv_v6 s of None \<Rightarrow> {c \<in> entries (lists_v6 ?pl). pc_gate_level c = 0} = {}
      | Some k \<Rightarrow> ids (sv_rotators s ! k) = node_id ` {c \<in> entries (lists_v6 ?pl). pc_gate_level c = 0}"
    using exits [OF plain_entries(1) pos(1)] pos(2) ne by blast
  have v4: "case sv_v4 s of None \<Rightarrow> {c \<in> entries (lists_v4 ?pl). pc_gate_level c = 0} = {}
      | Some k \<Rightarrow> ids (sv_rotators s ! k) = node_id ` {c \<in> entries (lists_v4 ?pl). pc_gate_level c = 0}"
    by (rule exits [OF plain_entries(2) pos(3)]) (use pos(4) ne in auto)
  have direct: "\<exists>u \<in> set (cf_users cfg). u_enabled u \<and> u_direct u" if "exits_of s = []"
    using that startup_Ok(3) [OF assms] pos(1,3) by (auto simp: exits_of_def List.map_filter_def list_ex_iff split: if_splits)
  have fsts: "fst ` set (sv_gates s) = pc_gate_level ` {c \<in> entries (lists_v6 ?pl @ lists_v4 ?pl). pc_gate_level c \<noteq> 0}"
    unfolding sg gate_groups_entries(1) [symmetric] set_map [symmetric] pos(5) ..
  have "set (exits_of s @ map snd (sv_gates s)) = {..< length (sv_rotators s)}"
    using arg_cong [OF startup_numbering(2) [OF assms], of set_mset] by (simp add: lessThan_atLeast0)
  then show ?thesis
    using startup_rotator(1) [OF assms] startup_numbering(1,3) [OF assms] gate v6 v4 direct fsts by blast
qed

subsection \<open>The configuration of a fresh install\<close>

lemma default_policies_valid:
  "validate_rating (startup_rating_policy default_network_config) = Ok ()"
  "validate_quarantine (startup_quarantine_policy default_network_config n) = Ok ()"
proof -
  have "startup_rating_policy default_network_config = default_rating_policy"
    by (simp add: startup_rating_policy_def default_network_config_def default_rating_policy_def)
  then show "validate_rating (startup_rating_policy default_network_config) = Ok ()" using validate_default_rating by simp
  show "validate_quarantine (startup_quarantine_policy default_network_config n) = Ok ()"
    by (simp add: validate_quarantine_def quarantine_enabled_def startup_quarantine_policy_def default_network_config_def
        Establish.probe_lease_def PROBE_LEASE_MARGIN_def dur_saturating_add_def duration_max_def from_secs_def)
qed

lemma default_filter_compiles: "compile_allowed_clients [STAR] = Ok \<lparr>allow_all = True, ac_rules = []\<rparr>"
proof -
  have "str_trim [STAR] = [STAR]" by (rule str_trim_plain) (simp add: is_whitespace_def)
  then show ?thesis by (simp add: compile_allowed_clients_def split_all_plain)
qed

text \<open>The configuration that a fresh install writes is accepted as it is: whatever port and patterns it is given, a
  start with it succeeds as soon as one plain upstream of the lists parses or an enabled user is direct, and is refused
  for the lack of upstreams, and for nothing else, when neither is there (gates alone are no route).\<close>

lemma default_configuration_outcome:
  assumes "cf_main cfg = default_main port banned" "patterns_compile banned" "auth_build True secret (cf_users cfg) = Ok auth"
  shows "if (\<exists>c \<in> entries (lists_v6 (cf_proxy_list cfg) @ lists_v4 (cf_proxy_list cfg)). pc_gate_level c = 0) \<or>
             (\<exists>u \<in> set (cf_users cfg). u_enabled u \<and> u_direct u)
         then \<exists>s. startup hs seeds clk secret patterns_compile cfg = Ok s
         else startup hs seeds clk secret patterns_compile cfg = Err NoUpstreams"
proof -
  let ?pl = "cf_proxy_list cfg"
  have net: "mc_network (cf_main cfg) = default_network_config" "mc_allow_anonymous (cf_main cfg)"
    "mc_allowed_clients (cf_main cfg) = [STAR]" "mc_banned_patterns (cf_main cfg) = banned"
    by (simp_all add: assms(1) default_main_def)
  obtain rs where rs: "build_rotators hs seeds clk (startup_rating_policy default_network_config)
      (startup_quarantine_policy default_network_config (length (gate_groups ?pl))) 0 (groups ?pl) = Ok rs"
    using build_rotators_Ok_iff [OF groups_nonempty, of hs seeds clk "startup_rating_policy default_network_config"]
      default_policies_valid by metis
  have "plain6 ?pl = [] \<and> plain4 ?pl = [] \<longleftrightarrow>
      \<not> (\<exists>c \<in> entries (lists_v6 ?pl @ lists_v4 ?pl). pc_gate_level c = 0)"
    unfolding set_empty [symmetric] plain_entries entries_append by auto
  then show ?thesis
    by (auto simp: startup_cases Let_def net validate_allowed_clients_def default_filter_compiles assms(2,3) rs list_ex_iff
        split: prod.splits)
qed

definition demo_cfg :: "bytes list \<Rightarrow> configs" where
  "demo_cfg lines =
     \<lparr>cf_main = default_main 20082 [], cf_proxy_list = default_proxy_list\<lparr>pl_socks5_v4 := lines\<rparr>, cf_users = []\<rparr>"

lemma demo_line: "\<exists>c. parse_proxy_str (ascii ''a:1'') Socks5 = Ok c \<and> pc_gate_level c = 0"
proof -
  have "parse_proxy_str (ascii ''a:1'') Socks5 = Ok (ProxyConfig Socks5 (ascii ''a'') 1 None None 0 False None)"
    by (simp add: parse_proxy_str_def marker_count_def split_credentials_def split_user_def host_port_parse_def
        parse_u16_def parse_uint_def to_digit_def proxy_new_def strip_brackets_def is_whitespace_def utf8_len_ascii Let_def)
  then show ?thesis by auto
qed

lemma demo_gate: "\<exists>c. parse_proxy_str (ascii ''*a:1'') Socks5 = Ok c \<and> pc_gate_level c = 1"
proof -
  have "parse_proxy_str (ascii ''*a:1'') Socks5 = Ok (ProxyConfig Socks5 (ascii ''a'') 1 None None 1 True None)"
    by (simp add: parse_proxy_str_def marker_count_def split_credentials_def split_user_def host_port_parse_def
        parse_u16_def parse_uint_def to_digit_def proxy_new_def strip_brackets_def is_whitespace_def utf8_len_ascii Let_def)
  then show ?thesis by auto
qed

lemma demo_entries:
  "entries (lists_v6 (cf_proxy_list (demo_cfg ls)) @ lists_v4 (cf_proxy_list (demo_cfg ls))) =
     {c. \<exists>l \<in> set ls. take 1 l \<noteq> [HASH] \<and> parse_proxy_str l Socks5 = Ok c}"
  by (auto simp: entries_def lists_v6_def lists_v4_def demo_cfg_def default_proxy_list_def)

lemma demo_auth: "\<exists>a. auth_build True secret (cf_users (demo_cfg ls)) = Ok a"
  by (simp add: auth_build_def demo_cfg_def)

lemma demo_starts:
  "(\<exists>s. startup (\<lambda>_ _. 0) (\<lambda>_. 1) (\<lambda>_. 0) [] (\<lambda>_. True) (demo_cfg [ascii ''a:1'']) = Ok s) \<and>
   startup (\<lambda>_ _. 0) (\<lambda>_. 1) (\<lambda>_. 0) [] (\<lambda>_. True) (demo_cfg [ascii ''*a:1'']) = Err NoUpstreams"
proof -
  have h: "take 1 (ascii ''a:1'') \<noteq> [HASH]" "take 1 (ascii ''*a:1'') \<noteq> [HASH]" by code_simp+
  have t: "if \<exists>c \<in> {c. \<exists>l \<in> set ls. take 1 l \<noteq> [HASH] \<and> parse_proxy_str l Socks5 = Ok c}. pc_gate_level c = 0
           then \<exists>s. startup (\<lambda>_ _. 0) (\<lambda>_. 1) (\<lambda>_. 0) [] (\<lambda>_. True) (demo_cfg ls) = Ok s
           else startup (\<lambda>_ _. 0) (\<lambda>_. 1) (\<lambda>_. 0) [] (\<lambda>_. True) (demo_cfg ls) = Err NoUpstreams" for ls
  proof -
    obtain a where a: "auth_build True [] (cf_users (demo_cfg ls)) = Ok a" using demo_auth by blast
    have "cf_main (demo_cfg ls) = default_main 20082 []" "cf_users (demo_cfg ls) = []" by (simp_all add: demo_cfg_def)
    then show ?thesis
      using default_configuration_outcome [of "demo_cfg ls" 20082 "[]" "\<lambda>_. True" "[]" a "\<lambda>_ _. 0" "\<lambda>_. 1" "\<lambda>_. 0"] a
      unfolding demo_entries by simp
  qed
  show ?thesis using t [of "[ascii ''a:1'']"] t [of "[ascii ''*a:1'']"] demo_line demo_gate h by (auto split: if_splits)
qed

theorem started_server_well_formed_witness:
  "\<exists>s. startup (\<lambda>_ _. 0) (\<lambda>_. 1) (\<lambda>_. 0) [] (\<lambda>_. True) (demo_cfg [ascii ''a:1'', ascii ''*a:1'']) = Ok s \<and>
     sv_v4 s \<noteq> None \<and> fst ` set (sv_gates s) \<noteq> {}"
proof -
  let ?cfg = "demo_cfg [ascii ''a:1'', ascii ''*a:1'']"
  have h: "take 1 (ascii ''a:1'') \<noteq> [HASH]" "take 1 (ascii ''*a:1'') \<noteq> [HASH]" by code_simp+
  obtain a where "auth_build True [] (cf_users ?cfg) = Ok a" using demo_auth by blast
  moreover have "\<exists>c \<in> entries (lists_v6 (cf_proxy_list ?cfg) @ lists_v4 (cf_proxy_list ?cfg)). pc_gate_level c = 0"
    unfolding demo_entries using demo_line h by auto
  ultimately obtain s where s: "startup (\<lambda>_ _. 0) (\<lambda>_. 1) (\<lambda>_. 0) [] (\<lambda>_. True) ?cfg = Ok s"
    using default_configuration_outcome [of ?cfg 20082 "[]" "\<lambda>_. True" "[]" a "\<lambda>_ _. 0" "\<lambda>_. 1" "\<lambda>_. 0"]
    by (auto simp: demo_cfg_def)
  have "{c \<in> entries (lists_v4 (cf_proxy_list ?cfg)). pc_gate_level c = 0} \<noteq> {}"
    using demo_line h by (auto simp: entries_def lists_v4_def demo_cfg_def)
  moreover have "{c \<in> entries (lists_v6 (cf_proxy_list ?cfg) @ lists_v4 (cf_proxy_list ?cfg)). pc_gate_level c \<noteq> 0} \<noteq> {}"
    unfolding demo_entries using demo_gate h by auto
  ultimately show ?thesis using started_server_well_formed [OF s] s by (auto split: option.splits)
qed

end
