(* ===== verification/HealthSpec.thy ===== *)
theory HealthSpec
  imports Health StartupSpec
begin

text \<open>
  What survives a restart: the quarantines of every group, with the time that is left of them, and the trip counts
  and failure streaks of the upstreams that were down; and what the saver guarantees of the file while the server runs.
\<close>

subsection \<open>One rotator\<close>

lemma index_of_slot:
  assumes "rotator_inv hash r" "k < length (proxies r)"
  shows "index_of hash r (proxies r ! k) = Some k"
proof -
  have d: "distinct (map node_id (proxies r))" using assms(1) by (simp add: rotator_inv_def slots_inv_def)
  have "position (same_upstream (proxies r ! k)) (proxies r) = Some k"
    unfolding position_Some same_upstream_iff
    using assms(2) d nth_eq_iff_index_eq [of "map node_id (proxies r)"] by auto
  then show ?thesis using assms(1) index_of_position by (simp add: rotator_inv_def)
qed

lemma restore_one:
  assumes "rotator_inv hash r" "quarantine_enabled (qpolicy (rot_ratings r))" "k < length (proxies r)"
  shows "rotator_restore_health hash r (\<lparr>uh_proxy = proxies r ! k, uh_health = h\<rparr> # es) now =
    (let r1 = r\<lparr>rot_ratings := (rot_ratings r)\<lparr>qcells := (qcells (rot_ratings r))[k :=
           restored_cell (qpolicy (rot_ratings r)) h now (qcells (rot_ratings r) ! k)]\<rparr>\<rparr>;
         (n, r2) = rotator_restore_health hash r1 es now
     in (if h_state h = UsAlive then n else Suc n, r2))"
proof -
  have len: "k < length (qcells (rot_ratings r))"
    using assms(1,3) by (simp add: rotator_inv_def ratings_inv_def ratings_len_def)
  have "fst (restore_health_at (rot_ratings r) k h now) \<longleftrightarrow> h_state h \<noteq> UsAlive"
    using assms(2) len by (simp add: restore_health_at_def)
  then show ?thesis
    using restore_health_at_enabled [OF assms(2) len, of h now]
    by (simp add: index_of_slot [OF assms(1,3)] Let_def case_prod_beta)
qed

text \<open>Restoring changes each slot by its own record.\<close>

definition slot_entries :: "rotator \<Rightarrow> (proxy_config \<Rightarrow> health option) \<Rightarrow> nat list \<Rightarrow> upstream_health list" where
  "slot_entries r f ks =
     List.map_filter (\<lambda>p. map_option (\<lambda>h. \<lparr>uh_proxy = p, uh_health = h\<rparr>) (f p)) (map ((!) (proxies r)) ks)"

lemma slot_entries_Cons:
  "slot_entries r f (k # ks) =
     (case f (proxies r ! k) of None \<Rightarrow> [] | Some h \<Rightarrow> [\<lparr>uh_proxy = proxies r ! k, uh_health = h\<rparr>]) @ slot_entries r f ks"
  by (simp add: slot_entries_def List.map_filter_simps split: option.splits)

definition put_cell :: "rotator \<Rightarrow> nat \<Rightarrow> cell \<Rightarrow> rotator" where
  "put_cell r k c = r\<lparr>rot_ratings := (rot_ratings r)\<lparr>qcells := (qcells (rot_ratings r))[k := c]\<rparr>\<rparr>"

lemma put_cell_simps [simp]:
  "proxies (put_cell r k c) = proxies r" "qpolicy (rot_ratings (put_cell r k c)) = qpolicy (rot_ratings r)"
  "qcells (rot_ratings (put_cell r k c)) = (qcells (rot_ratings r))[k := c]"
  "slot_entries (put_cell r k c) f ks = slot_entries r f ks"
  by (simp_all add: put_cell_def slot_entries_def)

lemma restore_slots:
  assumes "rotator_inv hash r" "quarantine_enabled (qpolicy (rot_ratings r))" "distinct ks" "\<forall>k \<in> set ks. k < length (proxies r)"
    and "r' = snd (rotator_restore_health hash r (slot_entries r f ks) now)"
  shows "proxies r' = proxies r" "qpolicy (rot_ratings r') = qpolicy (rot_ratings r)"
    "length (qcells (rot_ratings r')) = length (qcells (rot_ratings r))"
    "j < length (proxies r) \<Longrightarrow> qcells (rot_ratings r') ! j =
       (case (if j \<in> set ks then f (proxies r ! j) else None) of
          None \<Rightarrow> qcells (rot_ratings r) ! j
        | Some h \<Rightarrow> restored_cell (qpolicy (rot_ratings r)) h now (qcells (rot_ratings r) ! j))"
proof -
  have "proxies r' = proxies r \<and> qpolicy (rot_ratings r') = qpolicy (rot_ratings r) \<and>
    length (qcells (rot_ratings r')) = length (qcells (rot_ratings r)) \<and>
    (\<forall>j < length (proxies r). qcells (rot_ratings r') ! j =
       (case (if j \<in> set ks then f (proxies r ! j) else None) of
          None \<Rightarrow> qcells (rot_ratings r) ! j
        | Some h \<Rightarrow> restored_cell (qpolicy (rot_ratings r)) h now (qcells (rot_ratings r) ! j)))"
    using assms
  proof (induction ks arbitrary: r)
    case (Cons k ks)
    have k: "k < length (proxies r)" "k \<notin> set ks" using Cons.prems(3,4) by simp_all
    have len: "k < length (qcells (rot_ratings r))"
      using Cons.prems(1) k by (simp add: rotator_inv_def ratings_inv_def ratings_len_def)
    show ?case
    proof (cases "f (proxies r ! k)")
      case None
      then have "r' = snd (rotator_restore_health hash r (slot_entries r f ks) now)"
        using Cons.prems(5) by (simp add: slot_entries_Cons)
      from Cons.IH [OF Cons.prems(1,2) _ _ this] Cons.prems(3,4) show ?thesis using None by auto
    next
      case (Some h)
      let ?c = "restored_cell (qpolicy (rot_ratings r)) h now (qcells (rot_ratings r) ! k)"
      note one = restore_one [OF Cons.prems(1,2) k(1), of h _ now, folded put_cell_def]
      have r': "r' = snd (rotator_restore_health hash (put_cell r k ?c) (slot_entries (put_cell r k ?c) f ks) now)"
        using Cons.prems(5) Some by (simp add: slot_entries_Cons one Let_def case_prod_beta del: rotator_restore_health.simps)
      have inv: "rotator_inv hash (put_cell r k ?c)"
        using restore_health_inv [OF Cons.prems(1), of "[\<lparr>uh_proxy = proxies r ! k, uh_health = h\<rparr>]" now]
        by (simp add: one Let_def del: rotator_restore_health.simps(2))
      note IH = Cons.IH [OF inv _ _ _ r', unfolded put_cell_simps length_list_update]
      have "(qcells (rot_ratings r))[k := ?c] ! j = (if j = k then ?c else qcells (rot_ratings r) ! j)" for j
        using len by simp
      then show ?thesis using IH Cons.prems(2-4) Some k(2) by (auto cong: option.case_cong split: if_splits)
    qed
  qed (simp add: slot_entries_def List.map_filter_simps)
  then show "proxies r' = proxies r" "qpolicy (rot_ratings r') = qpolicy (rot_ratings r)"
    "length (qcells (rot_ratings r')) = length (qcells (rot_ratings r))"
    "j < length (proxies r) \<Longrightarrow> qcells (rot_ratings r') ! j =
       (case (if j \<in> set ks then f (proxies r ! j) else None) of
          None \<Rightarrow> qcells (rot_ratings r) ! j
        | Some h \<Rightarrow> restored_cell (qpolicy (rot_ratings r)) h now (qcells (rot_ratings r) ! j))"
    by blast+
qed

subsection \<open>One slot\<close>

text \<open>What is left of a quarantine after \<open>idle\<close>, and what a slot must show after the restart.\<close>

definition time_left :: "duration \<Rightarrow> health \<Rightarrow> duration" where
  "time_left idle h = from_secs (as_secs (h_remaining h)) - idle"

definition survives :: "duration \<Rightarrow> health \<Rightarrow> health \<Rightarrow> bool" where
  "survives idle h h' \<longleftrightarrow>
     (if h_state h = UsAlive then h' = \<lparr>h_state = UsAlive, h_remaining = 0, h_trips = 0, h_consecutive = 0\<rparr>
      else h_trips h' = h_trips h \<and> h_consecutive h' = h_consecutive h \<and>
        (if h_state h = UsQuarantined \<and> time_left idle h \<noteq> 0
         then h_state h' = UsQuarantined \<and> h_remaining h' = time_left idle h
         else h_state h' = UsProbation \<and> h_remaining h' = 0))"

lemma state_names: "state_name s = STATE_QUARANTINED \<longleftrightarrow> s = UsQuarantined" "state_name s = STATE_PROBATION \<longleftrightarrow> s = UsProbation"
  by (cases s; simp add: STATE_ALIVE_def STATE_QUARANTINED_def STATE_PROBATION_def)+

lemma entry_health_of:
  "entry_health idle (health_entry_of name \<lparr>uh_proxy = p, uh_health = h\<rparr>) =
     (if h_state h = UsAlive then None
      else if h_state h = UsQuarantined \<and> time_left idle h \<noteq> 0
      then Some \<lparr>h_state = UsQuarantined, h_remaining = time_left idle h, h_trips = h_trips h, h_consecutive = h_consecutive h\<rparr>
      else Some \<lparr>h_state = UsProbation, h_remaining = 0, h_trips = h_trips h, h_consecutive = h_consecutive h\<rparr>)"
  by (cases "h_state h") (auto simp: entry_health_def health_entry_of_def state_names time_left_def simp del: state_name.simps)

lemma as_secs_le: "from_secs (as_secs d) \<le> d"
  by (simp add: from_secs_def as_secs_def)

lemma restored_slot:
  assumes reach: "cell_reachable q (now, c)" and "quarantine_enabled q" "now' + max_len q \<le> instant_max"
    and h: "h = health_of_cell now c"
    and c': "c' = (case entry_health idle (health_entry_of name \<lparr>uh_proxy = p, uh_health = h\<rparr>) of
        None \<Rightarrow> default_cell | Some h1 \<Rightarrow> restored_cell q h1 now' default_cell)"
  shows "survives idle h (health_of_cell now' c')" "is_tripped c' \<longleftrightarrow> h_state h \<noteq> UsAlive"
proof -
  have inv: "cell_inv q c" and tb: "\<And>u. until c = Some u \<Longrightarrow> u \<le> now + max_len q"
    using cell_reachable_inv [OF reach assms(2)] cell_reachable_times [OF reach]
    by (auto simp: times_bounded_def)
  have alive: "h_state h = UsAlive \<longleftrightarrow> until c = None"
    by (auto simp: h health_of_cell_def snapshot_def cell_state_def Let_def split: option.splits if_splits)
  have "survives idle h (health_of_cell now' c') \<and> (is_tripped c' \<longleftrightarrow> h_state h \<noteq> UsAlive)"
  proof (cases "until c")
    case None
    then have "h_state h = UsAlive" by (simp add: alive)
    then show ?thesis
      by (simp add: c' entry_health_of survives_def is_tripped_def health_of_cell_def snapshot_def cell_state_def default_cell_def Let_def)
  next
    case (Some u)
    then have k: "threshold q \<le> consecutive c" "1 \<le> trips c" "u \<le> now + max_len q"
      using inv tb by (auto simp: cell_inv_def)
    have hs: "h_trips h = trips c" "h_consecutive h = consecutive c" "h_remaining h \<le> max_len q"
      using Some k(3) by (auto simp: h health_of_cell_def snapshot_def cell_state_def saturating_duration_since_def Let_def)
    have m: "max (trips c) 1 = trips c" "max (consecutive c) (threshold q) = consecutive c" using k by (simp_all add: max_def)
    have left: "time_left idle h \<le> max_len q" using hs(3) as_secs_le [of "h_remaining h"] by (simp add: time_left_def)
    then have d: "deadline now' (time_left idle h) = now' + time_left idle h" "deadline now' 0 = now'"
      using assms(3) by (auto intro!: deadline_exact simp: deadline_exact [of _ 0, simplified])
    have ne: "h_state h \<noteq> UsAlive" using Some by (simp add: alive)
    show ?thesis
    proof (cases "h_state h = UsQuarantined \<and> time_left idle h \<noteq> 0")
      case True
      then have "c' = \<lparr>consecutive = consecutive c, trips = trips c, until = Some (now' + time_left idle h), lease_until = None\<rparr>"
        using ne left by (simp add: c' entry_health_of restored_cell_def restore_def default_cell_def hs m d Let_def)
      then show ?thesis
        using True ne by (simp add: survives_def is_tripped_def health_of_cell_def snapshot_def cell_state_def hs
            saturating_duration_since_def Let_def)
    next
      case False
      then have "c' = \<lparr>consecutive = consecutive c, trips = trips c, until = Some now', lease_until = None\<rparr>"
        using ne by (auto simp: c' entry_health_of restored_cell_def restore_def default_cell_def hs m d Let_def)
      then show ?thesis
        using False ne by (auto simp: survives_def is_tripped_def health_of_cell_def snapshot_def cell_state_def hs Let_def)
    qed
  qed
  then show "survives idle h (health_of_cell now' c')" "is_tripped c' \<longleftrightarrow> h_state h \<noteq> UsAlive" by simp_all
qed

subsection \<open>One group\<close>

text \<open>A rotator of the run that ends and the one that takes its place: the same upstreams and policy, nothing known yet.\<close>

definition successor :: "(hash_fields \<Rightarrow> u64) \<Rightarrow> instant \<Rightarrow> instant \<Rightarrow> rotator \<Rightarrow> rotator \<Rightarrow> bool" where
  "successor hash now now' r r0 \<longleftrightarrow>
     rotator_inv hash r \<and> ratings_reachable (length (proxies r)) (now, rot_ratings r) \<and>
     quarantine_enabled (qpolicy (rot_ratings r)) \<and> now' + max_len (qpolicy (rot_ratings r)) \<le> instant_max \<and>
     rotator_inv hash r0 \<and> proxies r0 = proxies r \<and> qpolicy (rot_ratings r0) = qpolicy (rot_ratings r) \<and>
     list_all (\<lambda>c. c = default_cell) (qcells (rot_ratings r0))"

text \<open>
  The file names an upstream by its label and gate level. Two accounts of one user name on one endpoint share them, and
  of the records with one label the last counts: that of the last upstream of the group with the label.
\<close>

definition same_label :: "proxy_config \<Rightarrow> proxy_config \<Rightarrow> bool" where
  "same_label p q \<longleftrightarrow> upstream_label p = upstream_label q \<and> pc_gate_level p = pc_gate_level q"

definition bearer :: "rotator \<Rightarrow> nat \<Rightarrow> nat" where
  "bearer r j = last (filter (\<lambda>i. same_label (proxies r ! i) (proxies r ! j)) [0 ..< length (proxies r)])"

definition labels_differ :: "rotator \<Rightarrow> bool" where
  "labels_differ r \<longleftrightarrow> distinct (map (\<lambda>p. (upstream_label p, pc_gate_level p)) (proxies r))"

lemma bearer_bound: "j < length (proxies r) \<Longrightarrow> bearer r j < length (proxies r)"
proof -
  assume j: "j < length (proxies r)"
  let ?is = "filter (\<lambda>i. same_label (proxies r ! i) (proxies r ! j)) [0 ..< length (proxies r)]"
  have "?is \<noteq> []" using j by (auto simp: filter_empty_conv same_label_def)
  then have "last ?is \<in> set ?is" by (rule last_in_set)
  then show ?thesis by (simp add: bearer_def)
qed

lemma bearer_itself:
  assumes "labels_differ r" "j < length (proxies r)"
  shows "bearer r j = j"
proof -
  let ?is = "filter (\<lambda>i. same_label (proxies r ! i) (proxies r ! j)) [0 ..< length (proxies r)]"
  have "i = j" if "i < length (proxies r)" "same_label (proxies r ! i) (proxies r ! j)" for i
    using assms that nth_eq_iff_index_eq [of "map (\<lambda>p. (upstream_label p, pc_gate_level p)) (proxies r)" i j]
    by (simp add: labels_differ_def same_label_def)
  then have "set ?is \<subseteq> {j}" by auto
  moreover have "?is \<noteq> []" using assms(2) by (auto simp: filter_empty_conv same_label_def)
  then have "last ?is \<in> set ?is" by (rule last_in_set)
  ultimately show ?thesis unfolding bearer_def by blast
qed

text \<open>The upstreams that come back down.\<close>

definition borne_down :: "rotator \<Rightarrow> instant \<Rightarrow> nat" where
  "borne_down r now =
     length (filter (\<lambda>j. h_state (health_at (rot_ratings r) now ! bearer r j) \<noteq> UsAlive) [0 ..< length (proxies r)])"

lemma length_map_filter: "length (List.map_filter g xs) = length (filter (\<lambda>x. g x \<noteq> None) xs)"
  by (induction xs) (auto simp: List.map_filter_simps split: option.splits)

lemma set_map_filter: "y \<in> set (List.map_filter g xs) \<longleftrightarrow> (\<exists>x \<in> set xs. g x = Some y)"
  by (induction xs) (auto simp: List.map_filter_simps split: option.splits)

lemma restore_group:
  assumes "successor hash now now' r r0"
    and saved: "\<And>j. j < length (proxies r) \<Longrightarrow> saved_health f idle name (proxies r ! j) =
        entry_health idle (health_entry_of name
          \<lparr>uh_proxy = proxies r ! bearer r j, uh_health = health_at (rot_ratings r) now ! bearer r j\<rparr>)"
    and es: "es = health_entries f idle name (proxies r0)"
    and r1: "r1 = snd (rotator_restore_health hash r0 es now')"
  shows "j < length (proxies r) \<Longrightarrow> survives idle (health_at (rot_ratings r) now ! bearer r j) (health_at (rot_ratings r1) now' ! j)"
    and "length (filter (\<lambda>e. rotator_is_quarantined hash r1 (uh_proxy e)) es) = borne_down r now"
proof -
  let ?q = "qpolicy (rot_ratings r)" and ?h = "\<lambda>j. health_at (rot_ratings r) now ! bearer r j" and ?n = "length (proxies r)"
  have suc: "rotator_inv hash r" "ratings_reachable ?n (now, rot_ratings r)" "quarantine_enabled ?q"
    "now' + max_len ?q \<le> instant_max" "rotator_inv hash r0" "proxies r0 = proxies r" "qpolicy (rot_ratings r0) = ?q"
    "list_all (\<lambda>c. c = default_cell) (qcells (rot_ratings r0))"
    using assms(1) by (simp_all add: successor_def)
  have len: "length (qcells (rot_ratings r)) = ?n" "length (qcells (rot_ratings r0)) = ?n"
    using suc(1,5,6) by (simp_all add: rotator_inv_def ratings_inv_def ratings_len_def)
  have es': "es = slot_entries r0 (saved_health f idle name) [0 ..< ?n]"
    by (simp add: es health_entries_def slot_entries_def suc(6) map_nth)
  have q0: "quarantine_enabled (qpolicy (rot_ratings r0))" using suc(3,7) by simp
  note slots = restore_slots [OF suc(5) q0 distinct_upt _ r1 [unfolded es'], unfolded suc(6,7)]
  have slots: "proxies r1 = proxies r" "length (qcells (rot_ratings r1)) = ?n"
    "j < ?n \<Longrightarrow> qcells (rot_ratings r1) ! j = (case saved_health f idle name (proxies r ! j) of
          None \<Rightarrow> default_cell | Some h \<Rightarrow> restored_cell ?q h now' default_cell)" for j
    using slots suc(8) len by (auto simp: list_all_length split: option.splits)
  have cell: "survives idle (?h j) (health_of_cell now' (qcells (rot_ratings r1) ! j))"
    "is_tripped (qcells (rot_ratings r1) ! j) \<longleftrightarrow> h_state (?h j) \<noteq> UsAlive" if "j < ?n" for j
  proof -
    note b = bearer_bound [OF that]
    have h: "?h j = health_of_cell now (qcells (rot_ratings r) ! bearer r j)" using b len by (simp add: health_at_def)
    note restored_slot [OF ratings_reachable_cell [OF suc(2) b, simplified] suc(3,4) h slots(3) [OF that, unfolded saved [OF that]]]
    then show "survives idle (?h j) (health_of_cell now' (qcells (rot_ratings r1) ! j))"
      "is_tripped (qcells (rot_ratings r1) ! j) \<longleftrightarrow> h_state (?h j) \<noteq> UsAlive" by simp_all
  qed
  show "survives idle (?h j) (health_at (rot_ratings r1) now' ! j)" if "j < ?n"
    using cell(1) [OF that] slots(2) that by (simp add: health_at_def)
  have some: "saved_health f idle name (proxies r ! j) \<noteq> None \<longleftrightarrow> h_state (?h j) \<noteq> UsAlive" if "j < ?n" for j
    by (simp add: saved [OF that] entry_health_of)
  have inv1: "rotator_inv hash r1" unfolding r1 using restore_health_inv [OF suc(5)] by simp
  have "rotator_is_quarantined hash r1 (uh_proxy e)" if "e \<in> set es" for e
  proof -
    obtain j where j: "j < ?n" "uh_proxy e = proxies r ! j" "saved_health f idle name (proxies r ! j) \<noteq> None"
      using \<open>e \<in> set es\<close> unfolding es' slot_entries_def suc(6) by (auto simp: set_map_filter)
    then have "is_tripped (qcells (rot_ratings r1) ! j)" using cell(2) some by simp
    moreover have "index_of hash r1 (uh_proxy e) = Some j" using index_of_slot [OF inv1, of j] j slots(1) by simp
    ultimately show ?thesis by (simp add: rotator_is_quarantined_def is_quarantined_def slots(2) j(1))
  qed
  then have "length (filter (\<lambda>e. rotator_is_quarantined hash r1 (uh_proxy e)) es) = length es" by simp
  also have "length es = length (filter (\<lambda>j. saved_health f idle name (proxies r ! j) \<noteq> None) [0 ..< ?n])"
    unfolding es' slot_entries_def suc(6) length_map_filter filter_map length_map by (simp add: comp_def)
  also have "\<dots> = length (filter (\<lambda>j. h_state (?h j) \<noteq> UsAlive) [0 ..< ?n])"
    using some by (intro arg_cong [of _ _ length] filter_cong) auto
  finally show "length (filter (\<lambda>e. rotator_is_quarantined hash r1 (uh_proxy e)) es) = borne_down r now" unfolding borne_down_def .
qed

subsection \<open>All groups\<close>

lemma restore_groups_each:
  assumes "distinct (map hg_rotator gs)" "restore_groups hs f idle clk gs (n, st) = (n', st')"
  shows "g \<in> set gs \<Longrightarrow> st' (hg_rotator g) = snd (rotator_restore_health (hs (hg_rotator g)) (st (hg_rotator g))
      (health_entries f idle (hg_name g) (proxies (st (hg_rotator g)))) (clk (hg_rotator g)))"
    and "k \<notin> hg_rotator ` set gs \<Longrightarrow> st' k = st k"
    and "restored_total n' = restored_total n + (\<Sum>g \<leftarrow> gs. length (filter (\<lambda>e. rotator_is_quarantined (hs (hg_rotator g)) (st' (hg_rotator g)) (uh_proxy e))
      (health_entries f idle (hg_name g) (proxies (st (hg_rotator g))))))"
proof -
  have "(\<forall>g \<in> set gs. st' (hg_rotator g) = snd (rotator_restore_health (hs (hg_rotator g)) (st (hg_rotator g))
      (health_entries f idle (hg_name g) (proxies (st (hg_rotator g)))) (clk (hg_rotator g)))) \<and>
    (\<forall>k. k \<notin> hg_rotator ` set gs \<longrightarrow> st' k = st k) \<and>
    restored_total n' = restored_total n + (\<Sum>g \<leftarrow> gs. length (filter (\<lambda>e. rotator_is_quarantined (hs (hg_rotator g)) (st' (hg_rotator g)) (uh_proxy e))
      (health_entries f idle (hg_name g) (proxies (st (hg_rotator g))))))"
    using assms
  proof (induction gs arbitrary: n st)
    case (Cons g gs)
    let ?k = "hg_rotator g"
    let ?es = "health_entries f idle (hg_name g) (proxies (st ?k))"
    let ?rot = "snd (rotator_restore_health (hs ?k) (st ?k) ?es (clk ?k))"
    let ?down = "filter (\<lambda>e. rotator_is_quarantined (hs ?k) ?rot (uh_proxy e)) ?es"
    let ?n = "\<lparr>re_quarantined = re_quarantined n + length (filter (\<lambda>e. h_state (uh_health e) = UsQuarantined) ?down),
             re_probation = re_probation n + length (filter (\<lambda>e. h_state (uh_health e) \<noteq> UsQuarantined) ?down)\<rparr>"
    have rec: "restore_groups hs f idle clk gs (?n, st(?k := ?rot)) = (n', st')" using Cons.prems(2) by (simp add: Let_def)
    have k: "?k \<notin> hg_rotator ` set gs" and d: "distinct (map hg_rotator gs)" using Cons.prems(1) by auto
    note IH = Cons.IH [OF d rec]
    have t: "restored_total ?n = restored_total n + length ?down"
      using sum_length_filter_compl [of "\<lambda>e. h_state (uh_health e) = UsQuarantined" ?down] unfolding restored_total_def
      by simp
    have others: "hg_rotator g' \<noteq> ?k" if "g' \<in> set gs" for g' using that k by (metis image_eqI)
    have "st' ?k = ?rot" using IH k by simp
    then show ?case using IH t others by (auto cong: map_cong)
  qed simp
  then show "g \<in> set gs \<Longrightarrow> st' (hg_rotator g) = snd (rotator_restore_health (hs (hg_rotator g)) (st (hg_rotator g))
      (health_entries f idle (hg_name g) (proxies (st (hg_rotator g)))) (clk (hg_rotator g)))"
    "k \<notin> hg_rotator ` set gs \<Longrightarrow> st' k = st k"
    "restored_total n' = restored_total n + (\<Sum>g \<leftarrow> gs. length (filter (\<lambda>e. rotator_is_quarantined (hs (hg_rotator g)) (st' (hg_rotator g)) (uh_proxy e))
      (health_entries f idle (hg_name g) (proxies (st (hg_rotator g))))))" by blast+
qed

lemma find_rev: "List.find P (rev xs) = (if filter P xs = [] then None else Some (last (filter P xs)))"
  by (induction xs rule: rev_induct) auto

lemma filter_one_group:
  assumes "distinct (map hg_name gs)" "g \<in> set gs" "\<And>g'. g' \<in> set gs \<Longrightarrow> \<forall>e \<in> set (E g'). he_group e = hg_name g'"
    and "\<And>e. P e \<Longrightarrow> he_group e = hg_name g"
  shows "filter P (concat (map E gs)) = filter P (E g)"
  using assms(1-3)
proof (induction gs)
  case (Cons g' gs)
  have none: "filter P (E x) = []" if "x \<in> set (g' # gs)" "hg_name x \<noteq> hg_name g" for x
    using Cons.prems(3) [OF that(1)] that(2) assms(4) by (auto simp: filter_empty_conv)
  show ?case
  proof (cases "g = g'")
    case True
    then have "\<And>x. x \<in> set gs \<Longrightarrow> hg_name x \<noteq> hg_name g" using Cons.prems(1) by (auto simp: image_iff)
    then have "filter P (concat (map E gs)) = []" using none by (auto simp: filter_concat filter_empty_conv)
    then show ?thesis using True by simp
  next
    case False
    then have "hg_name g' \<noteq> hg_name g" using Cons.prems(1,2) by (auto simp: image_iff)
    then show ?thesis using False none [of g'] Cons by simp
  qed
qed simp

text \<open>The record found for an upstream is that of its bearer.\<close>

lemma snapshot_saved:
  assumes "distinct (map hg_name gs)" "\<forall>g \<in> set gs. rotator_inv (hs (hg_rotator g)) (st (hg_rotator g))"
    and "g \<in> set gs" "j < length (proxies (st (hg_rotator g)))"
  shows "saved_health (health_snapshot st gs now unix) idle (hg_name g) (proxies (st (hg_rotator g)) ! j) =
    entry_health idle (health_entry_of (hg_name g)
      \<lparr>uh_proxy = proxies (st (hg_rotator g)) ! bearer (st (hg_rotator g)) j,
       uh_health = health_at (rot_ratings (st (hg_rotator g))) now ! bearer (st (hg_rotator g)) j\<rparr>)"
proof -
  let ?r = "st (hg_rotator g)" let ?n = "length (proxies ?r)" let ?p = "proxies ?r ! j"
  let ?key = "(upstream_label ?p, pc_gate_level ?p, hg_name g)"
  let ?E = "\<lambda>g. map (health_entry_of (hg_name g)) (rotator_health (st (hg_rotator g)) now)"
  let ?e = "\<lambda>i. health_entry_of (hg_name g) \<lparr>uh_proxy = proxies ?r ! i, uh_health = health_at (rot_ratings ?r) now ! i\<rparr>"
  have "length (health_at (rot_ratings ?r) now) = ?n"
    using assms(2,3) by (auto simp: health_at_def rotator_inv_def ratings_inv_def ratings_len_def)
  then have E: "?E g = map ?e [0 ..< ?n]"
    by (intro nth_equalityI) (simp_all add: rotator_health_def)
  have "filter (\<lambda>e. entry_key e = ?key) (concat (map ?E gs)) = filter (\<lambda>e. entry_key e = ?key) (?E g)"
    by (rule filter_one_group [OF assms(1,3)]) (auto simp: entry_key_def health_entry_of_def)
  also have "\<dots> = map ?e (filter (\<lambda>i. same_label (proxies ?r ! i) ?p) [0 ..< ?n])"
    unfolding E filter_map by (simp add: comp_def entry_key_def health_entry_of_def same_label_def)
  finally have f: "filter (\<lambda>e. entry_key e = ?key) (concat (map ?E gs)) =
      map ?e (filter (\<lambda>i. same_label (proxies ?r ! i) ?p) [0 ..< ?n])" .
  have "filter (\<lambda>i. same_label (proxies ?r ! i) ?p) [0 ..< ?n] \<noteq> []"
    using assms(4) by (auto simp: filter_empty_conv same_label_def)
  then have "saved_entry (health_snapshot st gs now unix) ?key = Some (?e (bearer ?r j))"
    by (simp add: saved_entry_def find_rev health_snapshot_def f last_map bearer_def)
  then show ?thesis by (simp add: saved_health_def)
qed

text \<open>The groups of a started server are in order: one name and one rotator each.\<close>

lemma radix_str_inj:
  assumes "radix_str 10 (unat (a :: byte)) = radix_str 10 (unat b)"
  shows "a = b"
proof -
  have "parse_uint 255 (radix_str 10 (unat c)) = Some (unat c)" for c :: byte
    by (rule parse_uint_radix) (use unsigned_less [of c, where ?'a = nat] in simp)
  from this [of a] this [of b] have "unat a = unat b" unfolding assms by simp
  then show ?thesis by (simp add: word_unat_eq_iff)
qed

lemma started_groups:
  assumes "startup hs seeds clk secret patterns_compile cfg = Ok s"
  shows "distinct (map hg_name (health_groups s))" "distinct (map hg_rotator (health_groups s))"
    "[] \<notin> hg_name ` set (health_groups s)" "hg_rotator ` set (health_groups s) = {..< length (sv_rotators s)}"
proof -
  have r: "map hg_rotator (health_groups s) = map snd (sv_gates s) @ exits_of s"
    by (cases "sv_v6 s"; cases "sv_v4 s") (simp_all add: health_groups_def exits_of_def List.map_filter_def case_prod_beta comp_def)
  show "distinct (map hg_rotator (health_groups s))" using startup_numbering(3) [OF assms] unfolding r by auto
  have "set (map hg_rotator (health_groups s)) = {..< length (sv_rotators s)}"
    using arg_cong [OF startup_numbering(2) [OF assms], of set_mset] unfolding r by (simp add: lessThan_atLeast0 Un_commute)
  then show "hg_rotator ` set (health_groups s) = {..< length (sv_rotators s)}" by simp
  have n: "map hg_name (health_groups s) = map (\<lambda>(rank, k). ascii ''gate'' @ radix_str 10 (unat rank)) (sv_gates s) @
      (if sv_v6 s = None then [] else [ascii ''v6'']) @ (if sv_v4 s = None then [] else [ascii ''v4''])"
    by (cases "sv_v6 s"; cases "sv_v4 s") (simp_all add: health_groups_def List.map_filter_def case_prod_beta comp_def)
  then show "[] \<notin> hg_name ` set (health_groups s)" unfolding set_map [symmetric] by auto
  have "distinct (map fst (sv_gates s))" using startup_numbering(1) [OF assms]
    by (auto simp: distinct_conv_nth sorted_wrt_iff_nth_less linorder_neq_iff)
  then have "distinct (map (\<lambda>(rank, k). ascii ''gate'' @ radix_str 10 (unat rank)) (sv_gates s))"
    by (auto simp: distinct_map inj_on_def dest!: radix_str_inj) (force dest: radix_str_inj)
  then show "distinct (map hg_name (health_groups s))" unfolding n by auto
qed

text \<open>C36: The health of the upstreams survives a restart, as far as the file holds it. When the picture of all groups is
  saved at one time and put back into the rotators of the next run after the wall clock has moved on, every upstream of
  every group comes back with what its record says, which is its own health when the labels of the group differ, and that
  of the last upstream with its label otherwise: a quarantine goes on with the whole seconds that are left of it, the idle
  time taken off, and is on probation when none are; probation stays; both keep their trip count and failure streak. An
  upstream whose record is alive comes back alive with a clean slate: a failure streak below the threshold is not carried
  over. The count that is reported is the number of upstreams that come back down.\<close>

theorem health_survives_restart:
  assumes "distinct (map hg_name gs)" "distinct (map hg_rotator gs)"
    and "\<forall>g \<in> set gs. successor (hs (hg_rotator g)) now (clk (hg_rotator g)) (st (hg_rotator g)) (st0 (hg_rotator g))"
    and "health_restore hs gs (health_snapshot st gs now saved_at) clk unix st0 = (n, st1)"
  shows "(\<forall>g \<in> set gs. \<forall>j < length (proxies (st (hg_rotator g))).
      survives (from_secs (unix - saved_at)) (health_at (rot_ratings (st (hg_rotator g))) now ! bearer (st (hg_rotator g)) j)
        (health_at (rot_ratings (st1 (hg_rotator g))) (clk (hg_rotator g)) ! j) \<and>
      (labels_differ (st (hg_rotator g)) \<longrightarrow> bearer (st (hg_rotator g)) j = j)) \<and>
    restored_total n = (\<Sum>g \<leftarrow> gs. borne_down (st (hg_rotator g)) now)"
proof -
  let ?f = "health_snapshot st gs now saved_at" and ?idle = "from_secs (unix - saved_at)"
  have r: "restore_groups hs ?f ?idle clk gs (\<lparr>re_quarantined = 0, re_probation = 0\<rparr>, st0) = (n, st1)"
    using assms(4) by (simp add: health_restore_def health_snapshot_def)
  note each = restore_groups_each [OF assms(2) r]
  have one: "(\<forall>j < length (proxies (st (hg_rotator g))). survives ?idle (health_at (rot_ratings (st (hg_rotator g))) now ! bearer (st (hg_rotator g)) j)
        (health_at (rot_ratings (st1 (hg_rotator g))) (clk (hg_rotator g)) ! j)) \<and>
      length (filter (\<lambda>e. rotator_is_quarantined (hs (hg_rotator g)) (st1 (hg_rotator g)) (uh_proxy e))
        (health_entries ?f ?idle (hg_name g) (proxies (st0 (hg_rotator g))))) = borne_down (st (hg_rotator g)) now"
    if g: "g \<in> set gs" for g
  proof -
    let ?k = "hg_rotator g"
    have suc: "successor (hs ?k) now (clk ?k) (st ?k) (st0 ?k)" using assms(3) g by blast
    have "\<forall>g \<in> set gs. rotator_inv (hs (hg_rotator g)) (st (hg_rotator g))"
      using assms(3) by (auto simp: successor_def)
    note saved = snapshot_saved [OF assms(1) this g]
    show ?thesis using restore_group [OF suc saved refl each(1) [OF g]] by blast
  qed
  have "restored_total n = (\<Sum>g \<leftarrow> gs. borne_down (st (hg_rotator g)) now)"
    unfolding each(3) by (simp add: restored_total_def) (intro arg_cong [of _ _ sum_list] map_cong refl, use one in blast)
  then show ?thesis using one bearer_itself by blast
qed

definition demo_groups :: "health_group list" where
  "demo_groups = [\<lparr>hg_name = ascii ''v4'', hg_rotator = 0\<rparr>]"

lemma demo_groups_simps:
  "distinct (map hg_name demo_groups)" "distinct (map hg_rotator demo_groups)"
  "(\<forall>g \<in> set demo_groups. P (hg_rotator g)) \<longleftrightarrow> P 0"
  by (simp_all add: demo_groups_def)

theorem health_survives_restart_witness:
  "\<exists>n st1. health_restore (\<lambda>_. demo_hash) demo_groups (health_snapshot (\<lambda>_. demo_rotator_down) demo_groups 0 7) (\<lambda>_. 0) 9
       (\<lambda>_. demo_rotator) = (n, st1) \<and> restored_total n = 1"
proof -
  have ps: "proxies demo_rotator = [proxy_socks5 (ascii ''a'') 1, proxy_http (ascii ''b'') 2]"
    "proxies demo_rotator_down = proxies demo_rotator" "rot_ratings demo_rotator = demo_ratings" "rot_ratings demo_rotator_down = demo_tripped"
    by (simp_all add: demo_rotator_def demo_rotator_down_eq)
  have q: "qpolicy demo_tripped = demo_qpolicy" "qpolicy demo_ratings = demo_qpolicy"
    by (simp_all add: demo_tripped_def on_hard_failure_def demo_ratings_def Let_def case_prod_beta)
  have m: "0 + max_len demo_qpolicy \<le> instant_max"
    by (simp add: demo_qpolicy_def default_quarantine_policy_def from_secs_def instant_max_def)
  have len: "length (qcells demo_tripped) = 2" using ratings_reachable_inv [OF demo_tripped_reachable] by (simp add: ratings_inv_def)
  have suc: "successor demo_hash 0 0 demo_rotator_down demo_rotator"
    using rotator_reachable_inv [OF demo_rotator_reachable, THEN conjunct1]
      rotator_reachable_inv [OF demo_rotator_down_reachable, THEN conjunct1] demo_tripped_reachable demo_tripped_states(1) m
    by (simp add: successor_def ps q numeral_2_eq_2) (simp add: demo_ratings_def upt_conv_Cons)
  have lab: "labels_differ demo_rotator_down"
    by (simp add: labels_differ_def ps upstream_label_def proxy_socks5_def proxy_http_def proxy_new_def strip_brackets_def)
  have n2: "length (proxies demo_rotator_down) = 2" by (simp add: ps)
  have st: "h_state (health_at demo_tripped 0 ! 0) = UsQuarantined" "h_state (health_at demo_tripped 0 ! 1) = UsAlive"
    using len demo_tripped_states(2,3) by (simp_all add: health_at_def health_of_cell_def snapshot_def Let_def)
  have b: "bearer demo_rotator_down 0 = 0" "bearer demo_rotator_down 1 = 1"
    using bearer_itself [OF lab] n2 by simp_all
  have "filter (\<lambda>j. h_state (health_at (rot_ratings demo_rotator_down) 0 ! bearer demo_rotator_down j) \<noteq> UsAlive) [0, 1] = [0]"
    using st b by (simp add: ps)
  moreover have "[0 ..< length (proxies demo_rotator_down)] = [0, 1]" by (simp add: n2 numeral_2_eq_2)
  ultimately have "borne_down demo_rotator_down 0 = 1" by (simp add: borne_down_def)
  then have k: "(\<Sum>g \<leftarrow> demo_groups. borne_down demo_rotator_down 0) = 1" by (simp add: demo_groups_def)
  obtain n st1 where r: "health_restore (\<lambda>_. demo_hash) demo_groups (health_snapshot (\<lambda>_. demo_rotator_down) demo_groups 0 7) (\<lambda>_. 0) 9
       (\<lambda>_. demo_rotator) = (n, st1)" by fastforce
  have "restored_total n = (\<Sum>g \<leftarrow> demo_groups. borne_down demo_rotator_down 0)"
    by (rule health_survives_restart [OF demo_groups_simps(1,2) _ r, THEN conjunct2]) (use suc in blast)
  then show ?thesis using r k by auto
qed

text \<open>Accounts of one user name on one endpoint, which are different upstreams, share one record of the file: both
  get the one that was written last.\<close>

lemma accounts_share_a_label:
  "upstream_label (with_auth p u w) = upstream_label (with_auth p u w')"
  "pc_gate_level (with_auth p u w) = pc_gate_level (with_auth p u w')"
  "w \<noteq> w' \<Longrightarrow> node_id (with_auth p u w) \<noteq> node_id (with_auth p u w')"
  by (cases p; simp add: upstream_label_def node_id_def)+

lemma accounts_share_a_record:
  "saved_health f idle name (with_auth p u w) = saved_health f idle name (with_auth p u w')"
  by (simp only: saved_health_def accounts_share_a_label(1,2) [of p u w w'])

subsection \<open>The saver\<close>

text \<open>Two pictures are the same when they agree, upstream by upstream, in everything but the countdown; when they were
  taken does not count.\<close>

definition same_picture :: "health_file \<Rightarrow> health_file \<Rightarrow> bool" where
  "same_picture f g \<longleftrightarrow>
     list_all2 (\<lambda>e e'. e\<lparr>he_remaining_sec := 0\<rparr> = e'\<lparr>he_remaining_sec := 0\<rparr>) (hf_upstreams f) (hf_upstreams g)"

lemma signature_eq: "signature f = signature g \<longleftrightarrow> same_picture f g"
proof -
  have "map (\<lambda>e. (he_upstream e, he_group e, he_gate e, he_state e, he_trips e, he_failures e)) es =
      map (\<lambda>e. (he_upstream e, he_group e, he_gate e, he_state e, he_trips e, he_failures e)) es' \<longleftrightarrow>
      list_all2 (\<lambda>e e'. e\<lparr>he_remaining_sec := 0\<rparr> = e'\<lparr>he_remaining_sec := 0\<rparr>) es es'" for es es' :: "health_entry list"
  proof (induction es arbitrary: es')
    case (Cons e es)
    have "e\<lparr>he_remaining_sec := 0\<rparr> = e'\<lparr>he_remaining_sec := 0\<rparr> \<longleftrightarrow>
        (he_upstream e, he_group e, he_gate e, he_state e, he_trips e, he_failures e) =
        (he_upstream e', he_group e', he_gate e', he_state e', he_trips e', he_failures e')" for e' :: health_entry
      by (cases e; cases e'; auto)
    with Cons show ?case by (cases es') auto
  qed auto
  then show ?thesis by (simp add: signature_def same_picture_def)
qed

lemma same_picture_trans: "same_picture f g \<Longrightarrow> same_picture g h \<Longrightarrow> same_picture f h"
  by (simp flip: signature_eq)

lemma same_picture_refl [simp]: "same_picture f f"
  by (simp flip: signature_eq)

text \<open>The file shows a picture; the baseline is on file.\<close>

definition shows_picture :: "saver \<Rightarrow> health_file \<Rightarrow> bool" where
  "shows_picture s picture \<longleftrightarrow> (\<exists>f. sr_file s = Readable f \<and> same_picture f picture)"

definition baseline_on_file :: "saver \<Rightarrow> bool" where
  "baseline_on_file s \<longleftrightarrow> (case sr_last s of None \<Rightarrow> True | Some l \<Rightarrow> shows_picture s l)"

lemma shows_picture_trans: "shows_picture s l \<Longrightarrow> same_picture l picture \<Longrightarrow> shows_picture s picture"
  unfolding shows_picture_def using same_picture_trans by blast

lemma saver_round_keeps:
  assumes "baseline_on_file s" "w \<noteq> WriteUndetermined"
  shows "baseline_on_file (saver_round picture w s)"
    "shows_picture (saver_round picture w s) picture \<or> w = WriteFailed \<and> sr_failing (saver_round picture w s) \<and> sr_file (saver_round picture w s) = sr_file s"
    "sr_task (saver_round picture w s) = sr_task s"
proof -
  let ?skip = "case sr_last s of Some l \<Rightarrow> signature l = signature picture | None \<Rightarrow> False"
  have "baseline_on_file (saver_round picture w s) \<and>
    (shows_picture (saver_round picture w s) picture \<or> w = WriteFailed \<and> sr_failing (saver_round picture w s) \<and> sr_file (saver_round picture w s) = sr_file s) \<and>
    sr_task (saver_round picture w s) = sr_task s"
  proof (cases ?skip)
    case True
    then obtain l where l: "sr_last s = Some l" "same_picture l picture" by (auto simp: signature_eq split: option.splits)
    then have "shows_picture s l" using assms(1) by (simp add: baseline_on_file_def)
    then have "shows_picture s picture" using l(2) by (rule shows_picture_trans)
    with True assms(1) show ?thesis by (simp add: saver_round_def)
  next
    case False
    show ?thesis
    proof (cases w)
      case WriteOk
      with False show ?thesis
        by (simp add: saver_round_def save_offloaded_def baseline_on_file_def shows_picture_def split del: if_split)
    next
      case WriteFailed
      with False assms(1) show ?thesis
        by (simp add: saver_round_def save_offloaded_def baseline_on_file_def shows_picture_def cong: option.case_cong split del: if_split)
    qed (use assms(2) in simp)
  qed
  then show "baseline_on_file (saver_round picture w s)"
    "shows_picture (saver_round picture w s) picture \<or> w = WriteFailed \<and> sr_failing (saver_round picture w s) \<and> sr_file (saver_round picture w s) = sr_file s"
    "sr_task (saver_round picture w s) = sr_task s" by blast+
qed

lemma run_saver_keeps:
  assumes "baseline_on_file s" "\<forall>(_, w) \<in> set rounds. w \<noteq> WriteUndetermined"
  shows "baseline_on_file (run_saver rounds s) \<and> sr_task (run_saver rounds s) = sr_task s"
  using assms
proof (induction rounds s rule: run_saver.induct)
  case (2 picture w rs s)
  then show ?case using saver_round_keeps [of s w picture] by auto
qed simp

lemma run_saver_snoc: "run_saver (rs @ [(picture, w)]) s = saver_round picture w (run_saver rs s)"
  by (induction rs s rule: run_saver.induct) auto

text \<open>C37: The file follows the picture. Suppose that the saver's baseline is on file, or that it has none, as after a start
  without a file, and that no write fails after it has replaced the file. Then after every round the file shows the
  picture of that round, upstream by upstream in all but the countdown, or the write of that round failed, and the saver
  knows it; and a clean shutdown leaves exactly the last picture. An instance without the lock never touches the file.
  (\<open>stale_baseline_is_not_written\<close> and \<open>undetermined_write_hides_a_change\<close> show what happens when the one or the other
  assumption fails.)\<close>

theorem health_file_follows_picture:
  assumes "baseline_on_file s" "\<forall>(_, w) \<in> set (rounds @ [(picture, w)]). w \<noteq> WriteUndetermined"
  shows "(sr_task s \<longrightarrow>
       shows_picture (run_saver (rounds @ [(picture, w)]) s) picture \<or>
       w = WriteFailed \<and> sr_failing (run_saver (rounds @ [(picture, w)]) s)) \<and>
    (sr_task s \<longrightarrow> sr_file (saver_session (rounds @ [(picture, w)]) True final False WriteOk s) = Readable final) \<and>
    (\<not> sr_task s \<longrightarrow> sr_file (saver_session (rounds @ [(picture, w)]) ended final timed_out v s) = sr_file s)"
proof -
  have r: "baseline_on_file (run_saver rounds s)" "sr_task (run_saver rounds s) = sr_task s"
    using run_saver_keeps [OF assms(1), of rounds] assms(2) by auto
  have w: "w \<noteq> WriteUndetermined" using assms(2) by simp
  show ?thesis
    using saver_round_keeps [OF r(1) w, of picture] r(2)
    by (auto simp: run_saver_snoc saver_session_def saver_finish_def save_final_def save_offloaded_def)
qed

text \<open>Two shortcomings. A start that found a file takes the picture after restoring as the baseline; when the file does not
  show that picture (a new upstream, an expired quarantine), no round writes it until something else changes. And a
  write that failed after it replaced the file is not known: when the picture goes back to the baseline, the file keeps
  the picture in between.\<close>

lemma stale_baseline_is_not_written:
  assumes "sr_last s = Some l" "same_picture picture l"
  shows "saver_round picture w s = s"
  using assms by (simp add: saver_round_def flip: signature_eq)

lemma undetermined_write_hides_a_change:
  assumes "sr_last s = Some a" "\<not> same_picture b a"
  shows "sr_file (saver_round a WriteOk (saver_round b WriteUndetermined s)) = Readable b"
  using assms by (auto simp: saver_round_def save_offloaded_def simp flip: signature_eq)

definition demo_saver :: saver where
  "demo_saver = fst (saver_start (\<lambda>_. demo_hash) demo_groups Missing True (\<lambda>_. 0) 0 7 (\<lambda>_. demo_rotator))"

theorem health_file_follows_picture_witness:
  "let p = health_snapshot (\<lambda>_. demo_rotator) demo_groups 0 7; q = health_snapshot (\<lambda>_. demo_rotator_down) demo_groups 0 8
   in baseline_on_file demo_saver \<and> sr_task demo_saver \<and> shows_picture (run_saver [(p, WriteFailed), (q, WriteOk)] demo_saver) q"
proof -
  have s: "baseline_on_file demo_saver" "sr_task demo_saver"
    by (simp_all add: demo_saver_def saver_start_def resume_def baseline_on_file_def)
  show ?thesis
    using health_file_follows_picture [OF s(1), of "[(health_snapshot (\<lambda>_. demo_rotator) demo_groups 0 7, WriteFailed)]"
        "health_snapshot (\<lambda>_. demo_rotator_down) demo_groups 0 8" WriteOk] s by simp
qed

end
