(* ===== verification/RunServer.thy ===== *)
theory RunServer
  imports Handle
begin

text \<open>
  The accept loop and the shutdown of the server, \<open>server/run_server.rs\<close>, with its two limits: every client holds a
  slot from its acceptance to the end of its handler, and a handler that dials directly holds one of the slots for
  direct tunnels. Handlers run beside the loop and end whenever they like, with a result, an error or a panic; what
  a handler does is theory \<open>Handle\<close>. The signals, the clients and the clock are free; only timers fire on time: the
  clock does not pass a deadline that is waited for. The text of the log lines is left out.
\<close>

definition SHUTDOWN_DRAIN_SEC :: nat where
  "SHUTDOWN_DRAIN_SEC = 30"

text \<open>The errors in the chain of causes that come from the system, by their kinds.\<close>

definition is_peer_disconnect :: "io_kind list \<Rightarrow> bool" where
  "is_peer_disconnect chain \<longleftrightarrow> list_ex (\<lambda>k. k \<in> {ConnectionReset, ConnectionAborted, BrokenPipe}) chain"

datatype handler_end = HandlerOk | HandlerErr "io_kind list" | HandlerPanic

datatype server_log = AcceptFailed | RejectedByFilter | CapReached | DirectCapReached | ClientDisconnect | HandlingError | TaskPanicked | ShuttingDown nat

text \<open>A connection task: running, with or without a direct slot, or ended and not yet collected.\<close>

datatype task_state = TaskRunning bool | TaskEnded handler_end

record client_task =
  ct_peer :: "ip_addr option"
  ct_deadline :: instant
  ct_state :: task_state

datatype server_phase = Accepting | Draining instant | Down

record server_loop =
  sl_phase :: server_phase
  sl_resume :: instant
  sl_free :: nat
  sl_direct_free :: nat
  sl_tasks :: "(nat \<times> client_task) list"
  sl_next :: nat
  sl_log :: "server_log list"

record loop_config =
  lo_rule :: "allowed_clients option"
  lo_max_clients :: nat
  lo_max_direct :: nat
  lo_client_timeout :: duration

definition server_bound :: "loop_config \<Rightarrow> server_loop" where
  "server_bound cfg =
     \<lparr>sl_phase = Accepting, sl_resume = 0, sl_free = lo_max_clients cfg, sl_direct_free = lo_max_direct cfg,
      sl_tasks = [], sl_next = 0, sl_log = []\<rparr>"

definition log_line :: "server_log \<Rightarrow> server_loop \<Rightarrow> server_loop" where
  "log_line l s = s\<lparr>sl_log := sl_log s @ [l]\<rparr>"

text \<open>A failed \<open>accept\<close> is logged, and the loop sleeps for 100 ms.\<close>

definition accept_failed :: "instant \<Rightarrow> server_loop \<Rightarrow> server_loop" where
  "accept_failed now s = log_line AcceptFailed (s\<lparr>sl_resume := now + 10 ^ 8\<rparr>)"

text \<open>A client: the filter, the slot, the task.\<close>

definition accept_client :: "loop_config \<Rightarrow> instant \<Rightarrow> ip_addr option \<Rightarrow> server_loop \<Rightarrow> server_loop" where
  "accept_client cfg now peer s =
     (if \<not> global_allowed peer (lo_rule cfg) then log_line RejectedByFilter s
      else if sl_free s = 0 then log_line CapReached s
      else s\<lparr>sl_free := sl_free s - 1, sl_next := sl_next s + 1,
             sl_tasks := (sl_next s, \<lparr>ct_peer = peer, ct_deadline = now + lo_client_timeout cfg, ct_state = TaskRunning False\<rparr>) # sl_tasks s\<rparr>)"

definition set_task :: "nat \<Rightarrow> task_state \<Rightarrow> server_loop \<Rightarrow> server_loop" where
  "set_task i t s = s\<lparr>sl_tasks := map (\<lambda>(j, c). (j, if j = i then c\<lparr>ct_state := t\<rparr> else c)) (sl_tasks s)\<rparr>"

definition task_of :: "server_loop \<Rightarrow> nat \<Rightarrow> task_state option" where
  "task_of s i = map_option ct_state (map_of (sl_tasks s) i)"

text \<open>A handler asks for a direct slot, once; without one it goes on and refuses its client.\<close>

definition take_direct_slot :: "nat \<Rightarrow> server_loop \<Rightarrow> server_loop" where
  "take_direct_slot i s =
     (if sl_direct_free s = 0 then log_line DirectCapReached s
      else set_task i (TaskRunning True) (s\<lparr>sl_direct_free := sl_direct_free s - 1\<rparr>))"

text \<open>A handler ends: its error is logged (a panic is not, at this point), and its slots are free again.\<close>

definition task_ends :: "nat \<Rightarrow> bool \<Rightarrow> handler_end \<Rightarrow> server_loop \<Rightarrow> server_loop" where
  "task_ends i has_direct e s =
     (let s = (case e of
                 HandlerErr chain \<Rightarrow> log_line (if is_peer_disconnect chain then ClientDisconnect else HandlingError) s
               | _ \<Rightarrow> s)
      in set_task i (TaskEnded e)
           (s\<lparr>sl_free := sl_free s + 1, sl_direct_free := sl_direct_free s + (if has_direct then 1 else 0)\<rparr>))"

definition report_finished_task :: "handler_end \<Rightarrow> server_loop \<Rightarrow> server_loop" where
  "report_finished_task e s = (case e of HandlerPanic \<Rightarrow> log_line TaskPanicked s | _ \<Rightarrow> s)"

definition collect_task :: "nat \<Rightarrow> handler_end \<Rightarrow> server_loop \<Rightarrow> server_loop" where
  "collect_task i e s = report_finished_task e (s\<lparr>sl_tasks := filter (\<lambda>(j, _). j \<noteq> i) (sl_tasks s)\<rparr>)"

definition shutdown_signal :: "instant \<Rightarrow> server_loop \<Rightarrow> server_loop" where
  "shutdown_signal now s =
     log_line (ShuttingDown (length (sl_tasks s))) (s\<lparr>sl_phase := Draining (now + from_secs SHUTDOWN_DRAIN_SEC)\<rparr>)"

text \<open>The end: the set of tasks is dropped, and what still runs is cancelled.\<close>

fun is_running :: "task_state \<Rightarrow> bool" where
  "is_running (TaskRunning _) \<longleftrightarrow> True"
| "is_running (TaskEnded _) \<longleftrightarrow> False"

definition running_direct :: "server_loop \<Rightarrow> nat" where
  "running_direct s = length (filter (\<lambda>(_, c). ct_state c = TaskRunning True) (sl_tasks s))"

definition running_tasks :: "server_loop \<Rightarrow> nat" where
  "running_tasks s = length (filter (\<lambda>(_, c). is_running (ct_state c)) (sl_tasks s))"

definition server_down :: "server_loop \<Rightarrow> server_loop" where
  "server_down s =
     s\<lparr>sl_phase := Down, sl_free := sl_free s + running_tasks s, sl_direct_free := sl_direct_free s + running_direct s, sl_tasks := []\<rparr>"

subsection \<open>Steps\<close>

text \<open>Time and the loop; the loop looks at a signal or a client when it is not asleep.\<close>

inductive loop_step :: "loop_config \<Rightarrow> instant \<times> server_loop \<Rightarrow> instant \<times> server_loop \<Rightarrow> bool" for cfg where
  ls_tick: "now \<le> now' \<Longrightarrow> (\<forall>d. sl_phase s = Draining d \<longrightarrow> now' \<le> d) \<Longrightarrow> loop_step cfg (now, s) (now', s)"
| ls_accept_failed: "sl_phase s = Accepting \<Longrightarrow> sl_resume s \<le> now \<Longrightarrow> loop_step cfg (now, s) (now, accept_failed now s)"
| ls_accept: "sl_phase s = Accepting \<Longrightarrow> sl_resume s \<le> now \<Longrightarrow> loop_step cfg (now, s) (now, accept_client cfg now peer s)"
| ls_direct: "task_of s i = Some (TaskRunning False) \<Longrightarrow> loop_step cfg (now, s) (now, take_direct_slot i s)"
| ls_end: "task_of s i = Some (TaskRunning b) \<Longrightarrow> loop_step cfg (now, s) (now, task_ends i b e s)"
| ls_collect: "task_of s i = Some (TaskEnded e) \<Longrightarrow> loop_step cfg (now, s) (now, collect_task i e s)"
| ls_signal: "sl_phase s = Accepting \<Longrightarrow> sl_resume s \<le> now \<Longrightarrow> loop_step cfg (now, s) (now, shutdown_signal now s)"
| ls_drained: "sl_phase s = Draining d \<Longrightarrow> sl_tasks s = [] \<Longrightarrow> loop_step cfg (now, s) (now, server_down s)"
| ls_timeout: "sl_phase s = Draining d \<Longrightarrow> d \<le> now \<Longrightarrow> loop_step cfg (now, s) (now, server_down s)"

subsection \<open>Limits\<close>

lemma count_update:
  assumes "distinct (map fst ts)" "map_of ts i = Some c"
  shows "length (filter (\<lambda>(_, c). P c) (map (\<lambda>(j, c). (j, if j = i then f c else c)) ts)) + (if P c then 1 else 0) =
    length (filter (\<lambda>(_, c). P c) ts) + (if P (f c) then 1 else 0)"
  using assms
proof (induction ts)
  case (Cons x ts)
  obtain j d where x: "x = (j, d)" by (cases x)
  show ?case
  proof (cases "j = i")
    case True
    then have "map (\<lambda>(j, c). (j, if j = i then f c else c)) ts = ts"
      using Cons.prems(1) x by (intro map_idI) (auto simp: image_iff split: prod.splits)
    then show ?thesis using True x Cons.prems(2) by auto
  next
    case False
    then show ?thesis using Cons x by auto
  qed
qed simp

lemma count_remove:
  assumes "distinct (map fst ts)" "map_of ts i = Some c"
  shows "length (filter (\<lambda>(_, c). P c) (filter (\<lambda>(j, _). j \<noteq> i) ts)) + (if P c then 1 else 0) = length (filter (\<lambda>(_, c). P c) ts)"
  using assms
proof (induction ts)
  case (Cons x ts)
  obtain j d where x: "x = (j, d)" by (cases x)
  show ?case
  proof (cases "j = i")
    case True
    then have "filter (\<lambda>(j, _). j \<noteq> i) ts = ts"
      using Cons.prems(1) x by (intro filter_True) (auto simp: image_iff split: prod.splits)
    then show ?thesis using True x Cons.prems(2) by auto
  next
    case False
    then show ?thesis using Cons x by auto
  qed
qed simp

definition tasks_ok :: "loop_config \<Rightarrow> nat \<Rightarrow> (nat \<times> client_task) list \<Rightarrow> bool" where
  "tasks_ok cfg n ts \<longleftrightarrow> (\<forall>(i, c) \<in> set ts. i < n \<and> global_allowed (ct_peer c) (lo_rule cfg))"

definition loop_inv :: "loop_config \<Rightarrow> instant \<times> server_loop \<Rightarrow> bool" where
  "loop_inv cfg = (\<lambda>(now, s).
     sl_free s + running_tasks s = lo_max_clients cfg \<and> sl_direct_free s + running_direct s = lo_max_direct cfg \<and>
     distinct (map fst (sl_tasks s)) \<and> tasks_ok cfg (sl_next s) (sl_tasks s) \<and>
     (\<forall>d. sl_phase s = Draining d \<longrightarrow> now \<le> d) \<and> (sl_phase s = Down \<longrightarrow> sl_tasks s = []))"

lemma log_line_simps [simp]:
  "sl_phase (log_line l s) = sl_phase s" "sl_resume (log_line l s) = sl_resume s" "sl_free (log_line l s) = sl_free s"
  "sl_direct_free (log_line l s) = sl_direct_free s" "sl_tasks (log_line l s) = sl_tasks s" "sl_next (log_line l s) = sl_next s"
  "running_tasks (log_line l s) = running_tasks s" "running_direct (log_line l s) = running_direct s"
  by (simp_all add: log_line_def running_tasks_def running_direct_def)

lemma set_task_simps [simp]:
  "sl_phase (set_task i t s) = sl_phase s" "sl_free (set_task i t s) = sl_free s" "sl_direct_free (set_task i t s) = sl_direct_free s"
  "sl_next (set_task i t s) = sl_next s" "map fst (sl_tasks (set_task i t s)) = map fst (sl_tasks s)"
  "sl_tasks (set_task i t s) = [] \<longleftrightarrow> sl_tasks s = []"
  by (simp_all add: set_task_def comp_def case_prod_beta)

lemma running_set_task:
  assumes "distinct (map fst (sl_tasks s))" "task_of s i = Some u"
  shows "running_tasks (set_task i t s) + (if is_running u then 1 else 0) = running_tasks s + (if is_running t then 1 else 0)"
    "running_direct (set_task i t s) + (if u = TaskRunning True then 1 else 0) = running_direct s + (if t = TaskRunning True then 1 else 0)"
proof -
  obtain c where c: "map_of (sl_tasks s) i = Some c" "ct_state c = u" using assms(2) by (auto simp: task_of_def)
  show "running_tasks (set_task i t s) + (if is_running u then 1 else 0) = running_tasks s + (if is_running t then 1 else 0)"
    "running_direct (set_task i t s) + (if u = TaskRunning True then 1 else 0) = running_direct s + (if t = TaskRunning True then 1 else 0)"
    using count_update [OF assms(1) c(1), of "\<lambda>c. is_running (ct_state c)" "ct_state_update (\<lambda>_. t)"]
      count_update [OF assms(1) c(1), of "\<lambda>c. ct_state c = TaskRunning True" "ct_state_update (\<lambda>_. t)"]
    by (simp_all add: running_tasks_def running_direct_def set_task_def c(2))
qed

lemma tasks_ok_set_task [simp]: "tasks_ok cfg n (sl_tasks (set_task i t s)) = tasks_ok cfg n (sl_tasks s)"
proof -
  have "tasks_ok cfg n (map (\<lambda>(j, c). (j, if j = i then c\<lparr>ct_state := t\<rparr> else c)) ts) = tasks_ok cfg n ts" for ts
    by (induction ts) (auto simp: tasks_ok_def split: if_splits)
  then show ?thesis by (simp add: set_task_def)
qed

lemma loop_inv_step:
  assumes "loop_step cfg x y" "loop_inv cfg x"
  shows "loop_inv cfg y"
  using assms
proof (induction rule: loop_step.induct)
  case (ls_accept s now peer)
  then show ?case
    by (auto simp: loop_inv_def accept_client_def running_tasks_def running_direct_def tasks_ok_def)
next
  case (ls_direct s i now)
  let ?s = "s\<lparr>sl_direct_free := sl_direct_free s - 1\<rparr>"
  have t: "task_of ?s i = Some (TaskRunning False)" "distinct (map fst (sl_tasks ?s))"
    and same: "running_tasks ?s = running_tasks s" "running_direct ?s = running_direct s"
    using ls_direct by (simp_all add: task_of_def loop_inv_def running_tasks_def running_direct_def)
  show ?case
    using ls_direct running_set_task [OF t(2,1), of "TaskRunning True"] same
    by (auto simp: loop_inv_def take_direct_slot_def)
next
  case (ls_end s i b now e)
  let ?l = "case e of HandlerErr chain \<Rightarrow> log_line (if is_peer_disconnect chain then ClientDisconnect else HandlingError) s | _ \<Rightarrow> s"
  define u where "u = ?l\<lparr>sl_free := sl_free ?l + 1, sl_direct_free := sl_direct_free ?l + (if b then 1 else 0)\<rparr>"
  have same: "running_tasks u = running_tasks s" "running_direct u = running_direct s" "sl_tasks u = sl_tasks s"
    "sl_phase u = sl_phase s" "sl_next u = sl_next s" "sl_free u = sl_free s + 1" "sl_direct_free u = sl_direct_free s + (if b then 1 else 0)"
    by (auto simp: u_def running_tasks_def running_direct_def split: handler_end.splits)
  have t: "task_of u i = Some (TaskRunning b)" "distinct (map fst (sl_tasks u))"
    using ls_end same(3) by (simp_all add: task_of_def loop_inv_def)
  have n: "sl_tasks s \<noteq> []" using ls_end by (auto simp: task_of_def)
  have "task_ends i b e s = set_task i (TaskEnded e) u" by (simp add: task_ends_def Let_def u_def)
  then show ?case
    using ls_end(2) running_set_task [OF t(2,1), of "TaskEnded e"] n
    unfolding loop_inv_def by (auto simp: same split: if_splits)
next
  case (ls_collect s i e now)
  obtain c where c: "map_of (sl_tasks s) i = Some c" "ct_state c = TaskEnded e" using ls_collect by (auto simp: task_of_def)
  have d: "distinct (map fst (sl_tasks s))" using ls_collect by (simp add: loop_inv_def)
  have "running_tasks (collect_task i e s) = running_tasks s" "running_direct (collect_task i e s) = running_direct s"
    using count_remove [OF d c(1), of "\<lambda>c. is_running (ct_state c)"] count_remove [OF d c(1), of "\<lambda>c. ct_state c = TaskRunning True"] c(2)
    by (auto simp: collect_task_def report_finished_task_def running_tasks_def running_direct_def split: handler_end.splits)
  moreover have "distinct (map fst (sl_tasks (collect_task i e s)))" "set (sl_tasks (collect_task i e s)) \<subseteq> set (sl_tasks s)"
    "sl_free (collect_task i e s) = sl_free s" "sl_direct_free (collect_task i e s) = sl_direct_free s"
    "sl_next (collect_task i e s) = sl_next s" "sl_phase (collect_task i e s) = sl_phase s"
    using d by (auto simp: collect_task_def report_finished_task_def distinct_map_filter split: handler_end.splits)
  ultimately show ?case using ls_collect unfolding loop_inv_def tasks_ok_def by auto
next
  case (ls_drained s d now)
  then show ?case by (auto simp: loop_inv_def server_down_def running_tasks_def running_direct_def tasks_ok_def)
next
  case (ls_timeout s d now)
  then show ?case by (auto simp: loop_inv_def server_down_def running_tasks_def running_direct_def tasks_ok_def)
qed (auto simp: loop_inv_def accept_failed_def shutdown_signal_def running_tasks_def running_direct_def)

lemma loop_inv_start: "loop_inv cfg (now, server_bound cfg)"
  by (simp add: loop_inv_def server_bound_def running_tasks_def running_direct_def tasks_ok_def)

lemma loop_inv_run:
  assumes "(loop_step cfg)\<^sup>*\<^sup>* x y" "loop_inv cfg x"
  shows "loop_inv cfg y"
  using assms by (induction rule: rtranclp_induct) (auto intro: loop_inv_step)

text \<open>C38: The limits hold in every state of the server, whatever clients, handlers, errors, panics and signals come in
  whatever order: the slots that are free and the clients that are served add up to the limit, and so do the slots for
  direct tunnels; every client that is served is admitted by the global address list; a client is turned away for
  capacity only when the limit is reached; and once the server is down nothing runs and every slot is free again.\<close>

theorem server_limits_hold:
  assumes "(loop_step cfg)\<^sup>*\<^sup>* (t0, server_bound cfg) (now, s)"
  shows "running_tasks s + sl_free s = lo_max_clients cfg \<and> running_direct s + sl_direct_free s = lo_max_direct cfg \<and>
    (\<forall>(i, c) \<in> set (sl_tasks s). global_allowed (ct_peer c) (lo_rule cfg)) \<and>
    (sl_log (accept_client cfg now peer s) = sl_log s @ [CapReached] \<longleftrightarrow>
       global_allowed peer (lo_rule cfg) \<and> running_tasks s = lo_max_clients cfg) \<and>
    (sl_phase s = Down \<longrightarrow> sl_tasks s = [] \<and> sl_free s = lo_max_clients cfg \<and> sl_direct_free s = lo_max_direct cfg)"
proof -
  have inv: "loop_inv cfg (now, s)" using loop_inv_run [OF assms loop_inv_start] .
  then have "sl_phase s = Down \<Longrightarrow> running_tasks s = 0 \<and> running_direct s = 0"
    by (simp add: loop_inv_def running_tasks_def running_direct_def)
  then show ?thesis
    using inv by (auto simp: loop_inv_def tasks_ok_def accept_client_def log_line_def)
qed

subsection \<open>Shutdown\<close>

text \<open>What holds from the signal on, at \<open>t\<close>, with the tasks \<open>ids\<close> of that time.\<close>

definition closing :: "instant \<Rightarrow> nat set \<Rightarrow> instant \<times> server_loop \<Rightarrow> bool" where
  "closing t ids = (\<lambda>(now, s).
     fst ` set (sl_tasks s) \<subseteq> ids \<and>
     (sl_phase s = Down \<or> sl_phase s = Draining (t + from_secs SHUTDOWN_DRAIN_SEC) \<and> now \<le> t + from_secs SHUTDOWN_DRAIN_SEC))"

lemma set_task_ids [simp]: "fst ` set (sl_tasks (set_task i t s)) = fst ` set (sl_tasks s)"
  using set_task_simps(5) [of i t s] by (metis set_map)

lemma closing_step:
  assumes "loop_step cfg x y" "closing t ids x"
  shows "closing t ids y"
  using assms
proof (induction rule: loop_step.induct)
  case (ls_direct s i now)
  then show ?case by (auto simp: closing_def take_direct_slot_def simp del: set_map)
next
  case (ls_end s i b now e)
  have "fst ` set (sl_tasks (task_ends i b e s)) = fst ` set (sl_tasks s)" "sl_phase (task_ends i b e s) = sl_phase s"
    by (cases e; simp add: task_ends_def Let_def)+
  then show ?case using ls_end(2) by (simp add: closing_def)
next
  case (ls_collect s i e now)
  have "fst ` set (sl_tasks (collect_task i e s)) \<subseteq> fst ` set (sl_tasks s)" "sl_phase (collect_task i e s) = sl_phase s"
    by (cases e; auto simp: collect_task_def report_finished_task_def)+
  then show ?case using ls_collect(2) by (auto simp: closing_def)
qed (auto simp: closing_def server_down_def)

lemma closing_run:
  assumes "(loop_step cfg)\<^sup>*\<^sup>* x y" "closing t ids x"
  shows "closing t ids y"
  using assms by (induction rule: rtranclp_induct) (auto intro: closing_step)

text \<open>A signal ends the server within 30 seconds. From the moment the loop takes the signal no client is accepted any
  more; 30 seconds later at the latest the server is down, having waited for the handlers that ended by then and
  cancelled the others; and from every state in between it can still get there, whatever the handlers do. It is down
  at once when all handlers have ended and been collected.\<close>

theorem shutdown_is_bounded:
  assumes "sl_phase s = Accepting" "(loop_step cfg)\<^sup>*\<^sup>* (t, shutdown_signal t s) (now, s')"
  shows "fst ` set (sl_tasks s') \<subseteq> fst ` set (sl_tasks s) \<and>
    (sl_phase s' = Down \<or>
       sl_phase s' = Draining (t + from_secs 30) \<and> now \<le> t + from_secs 30 \<and>
       (\<exists>z. (loop_step cfg)\<^sup>*\<^sup>* (now, s') (t + from_secs 30, z) \<and> sl_phase z = Down) \<and>
       (sl_tasks s' = [] \<longrightarrow> (\<exists>z. loop_step cfg (now, s') (now, z) \<and> sl_phase z = Down)))"
proof -
  have "closing t (fst ` set (sl_tasks s)) (t, shutdown_signal t s)"
    by (simp add: closing_def shutdown_signal_def)
  then have c: "closing t (fst ` set (sl_tasks s)) (now, s')" using closing_run assms(2) by blast
  have "(\<exists>z. (loop_step cfg)\<^sup>*\<^sup>* (now, s') (t + from_secs 30, z) \<and> sl_phase z = Down) \<and>
      (sl_tasks s' = [] \<longrightarrow> (\<exists>z. loop_step cfg (now, s') (now, z) \<and> sl_phase z = Down))"
    if d: "sl_phase s' = Draining (t + from_secs 30)" "now \<le> t + from_secs 30"
  proof -
    have "loop_step cfg (now, s') (t + from_secs 30, s')" by (rule ls_tick) (use d in auto)
    moreover have "loop_step cfg (t + from_secs 30, s') (t + from_secs 30, server_down s')" by (rule ls_timeout [OF d(1)]) simp
    ultimately have "(loop_step cfg)\<^sup>*\<^sup>* (now, s') (t + from_secs 30, server_down s')"
      by (meson converse_rtranclp_into_rtranclp r_into_rtranclp)
    moreover have "sl_tasks s' = [] \<Longrightarrow> loop_step cfg (now, s') (now, server_down s')" by (rule ls_drained [OF d(1)])
    moreover have "sl_phase (server_down s') = Down" by (simp add: server_down_def)
    ultimately show ?thesis by blast
  qed
  then show ?thesis using c by (auto simp: closing_def SHUTDOWN_DRAIN_SEC_def)
qed

definition demo_loop :: loop_config where
  "demo_loop = \<lparr>lo_rule = None, lo_max_clients = 1, lo_max_direct = 1, lo_client_timeout = from_secs 30\<rparr>"

text \<open>One client is served, directly; the next is turned away.\<close>

lemma demo_loop_run:
  "(loop_step demo_loop)\<^sup>*\<^sup>* (0, server_bound demo_loop)
     (0, take_direct_slot 0 (accept_client demo_loop 0 None (server_bound demo_loop)))"
proof -
  have "loop_step demo_loop (0, server_bound demo_loop) (0, accept_client demo_loop 0 None (server_bound demo_loop))"
    by (rule ls_accept) (simp_all add: server_bound_def)
  moreover have "task_of (accept_client demo_loop 0 None (server_bound demo_loop)) 0 = Some (TaskRunning False)"
    by (simp add: accept_client_def global_allowed_def demo_loop_def server_bound_def task_of_def)
  ultimately show ?thesis using ls_direct by (meson converse_rtranclp_into_rtranclp r_into_rtranclp)
qed

theorem server_limits_hold_witness:
  "let s = take_direct_slot 0 (accept_client demo_loop 0 None (server_bound demo_loop))
   in running_tasks s = 1 \<and> running_direct s = 1 \<and> sl_log (accept_client demo_loop 0 None s) = sl_log s @ [CapReached]"
proof -
  let ?s = "take_direct_slot 0 (accept_client demo_loop 0 None (server_bound demo_loop))"
  have "sl_free ?s = 0" "sl_direct_free ?s = 0"
    by (simp_all add: take_direct_slot_def accept_client_def global_allowed_def demo_loop_def server_bound_def)
  then show ?thesis
    using server_limits_hold [OF demo_loop_run, of None] by (simp add: demo_loop_def global_allowed_def)
qed

theorem shutdown_is_bounded_witness:
  "\<exists>z. (loop_step demo_loop)\<^sup>*\<^sup>* (5, shutdown_signal 5 (accept_client demo_loop 0 None (server_bound demo_loop))) (5 + from_secs 30, z) \<and>
     sl_phase z = Down"
proof -
  have "sl_phase (accept_client demo_loop 0 None (server_bound demo_loop)) = Accepting"
    by (simp add: accept_client_def global_allowed_def demo_loop_def server_bound_def)
  from shutdown_is_bounded [where cfg = demo_loop and t = 5, OF this rtranclp.rtrancl_refl] show ?thesis
    by (auto simp: shutdown_signal_def)
qed

end
