(* ===== verification/Logging.thy ===== *)
theory Logging
  imports Config Utf8 IpAddr ProxyConfig
begin

text \<open>
  The log: \<open>logger/log.rs\<close> (the flags, the bounded queue, the escaping of control characters),
  \<open>server/bootstrap/log_drain.rs\<close> (the task that writes the lines), \<open>server/connect/print_cfg.rs\<close> (an upstream
  in a line) and \<open>server/tunnel/tunnel_log.rs\<close> (the counters and lines of a tunnel). A string is its UTF-8 bytes;
  the time of a line and the answers of the file are arguments.
\<close>

datatype elog = Log bytes | Error bytes

text \<open>The methods of \<open>Logger\<close>: each has its flag and its kind of line.\<close>

datatype log_event =
    Lifecycle | CacheAttempt | CacheHit | CacheWrite | ProxyFailure | BannedTarget | ConnectionError
  | ClientDisconnect | Attempt | TunnelClosed

fun flag_of :: "log_config \<Rightarrow> log_event \<Rightarrow> bool" where
  "flag_of c Lifecycle = lc_lifecycle c"
| "flag_of c CacheAttempt = lc_cache_attempts c"
| "flag_of c CacheHit = lc_cache_hits c"
| "flag_of c CacheWrite = lc_cache_writes c"
| "flag_of c ProxyFailure = lc_proxy_failures c"
| "flag_of c BannedTarget = lc_banned_targets c"
| "flag_of c ConnectionError = lc_connection_errors c"
| "flag_of c ClientDisconnect = lc_client_disconnects c"
| "flag_of c Attempt = lc_attempts c"
| "flag_of c TunnelClosed = lc_tunnels c"

fun wrap_of :: "log_event \<Rightarrow> bytes \<Rightarrow> elog" where
  "wrap_of ProxyFailure = Error"
| "wrap_of BannedTarget = Error"
| "wrap_of ConnectionError = Error"
| "wrap_of ClientDisconnect = Error"
| "wrap_of _ = Log"

fun elog_text :: "elog \<Rightarrow> bytes" where
  "elog_text (Log m) = m"
| "elog_text (Error m) = m"

text \<open>\<open>char::is_control\<close>, and \<open>char::escape_default\<close> of a control character.\<close>

definition is_control :: "nat \<Rightarrow> bool" where
  "is_control c \<longleftrightarrow> c < 32 \<or> 127 \<le> c \<and> c < 160"

definition escape_control :: "nat \<Rightarrow> bytes" where
  "escape_control c =
     (if c = 9 then [92, 116] else if c = 13 then [92, 114] else if c = 10 then [92, 110]
      else [92, 117, 123] @ radix_str 16 c @ [125])"

definition escape_slice :: "bytes \<Rightarrow> bytes" where
  "escape_slice s = (if list_ex is_control (chars s) then escape_control (hd (chars s)) else s)"

definition escape_message :: "bytes \<Rightarrow> bytes" where
  "escape_message m = (if list_ex is_control (chars m) then concat (map escape_slice (char_slices m)) else m)"

definition LOG_QUEUE :: nat where
  "LOG_QUEUE = 2048"

text \<open>\<open>try_reserve\<close> fails on a full queue, and the line is dropped.\<close>

definition log_send :: "(bytes \<Rightarrow> elog) \<Rightarrow> bytes \<Rightarrow> elog list \<Rightarrow> elog list" where
  "log_send wrap m q = (if LOG_QUEUE \<le> length q then q else q @ [wrap (escape_message m)])"

definition logger_log :: "log_config \<Rightarrow> log_event \<Rightarrow> bytes \<Rightarrow> elog list \<Rightarrow> elog list" where
  "logger_log c e m q = (if flag_of c e then log_send (wrap_of e) m q else q)"

subsection \<open>The task that writes the lines\<close>

text \<open>The log file: whether it is (still) used and its content; what was handed to the console, with the stream
  of each line; what the task itself reported on the error stream.\<close>

record drain =
  dr_open :: bool
  dr_file :: bytes
  dr_console :: "elog list"
  dr_notes :: "bytes list"

text \<open>How a line went: its time, and nothing when the file took it, otherwise how many of its bytes reached the file
  before which error.\<close>

record line_answer =
  la_time :: bytes
  la_failure :: "(nat \<times> bytes) option"

definition file_write_error_message :: "bytes \<Rightarrow> bytes \<Rightarrow> bytes" where
  "file_write_error_message path err =
     ascii ''file logger: write to '' @ path @ ascii '' failed: '' @ err @ [32, 226, 128, 148, 32] @
     ascii ''falling back to console-only logging for the rest of this run''"

definition open_error_message :: "bytes \<Rightarrow> bytes \<Rightarrow> bytes" where
  "open_error_message path err =
     ascii ''file logger: failed to open '' @ path @ ascii '': '' @ err @ [32, 226, 128, 148, 32] @
     ascii ''continuing in console-only mode''"

text \<open>The file is opened for appending; \<open>content\<close> is what it held.\<close>

definition drain_start :: "file_log_config \<Rightarrow> bytes option \<Rightarrow> bytes \<Rightarrow> drain" where
  "drain_start fl open_error content =
     (case (fl_enabled fl, open_error) of
        (True, None) \<Rightarrow> \<lparr>dr_open = True, dr_file = content, dr_console = [], dr_notes = []\<rparr>
      | (True, Some e) \<Rightarrow> \<lparr>dr_open = False, dr_file = content, dr_console = [], dr_notes = [open_error_message (fl_path fl) e]\<rparr>
      | (False, _) \<Rightarrow> \<lparr>dr_open = False, dr_file = content, dr_console = [], dr_notes = []\<rparr>)"

definition line_text :: "bytes \<Rightarrow> elog \<Rightarrow> bytes" where
  "line_text time m = time @ [COLON, SPACE] @ elog_text m @ [LF]"

fun on_line :: "bytes \<Rightarrow> elog \<Rightarrow> elog" where
  "on_line time (Log m) = Log (line_text time (Log m))"
| "on_line time (Error m) = Error (line_text time (Error m))"

definition file_line :: "file_log_config \<Rightarrow> line_answer \<Rightarrow> bytes \<Rightarrow> drain \<Rightarrow> drain" where
  "file_line fl a line d =
     (if \<not> dr_open d then d
      else case la_failure a of
             None \<Rightarrow> d\<lparr>dr_file := dr_file d @ line\<rparr>
           | Some (k, e) \<Rightarrow>
               d\<lparr>dr_file := dr_file d @ take k line, dr_open := False,
                 dr_notes := dr_notes d @ [file_write_error_message (fl_path fl) e]\<rparr>)"

definition drain_message :: "file_log_config \<Rightarrow> line_answer \<Rightarrow> elog \<Rightarrow> drain \<Rightarrow> drain" where
  "drain_message fl a m d =
     (let d = file_line fl a (line_text (la_time a) m) d
      in if \<not> dr_open d \<or> fl_also_console fl then d\<lparr>dr_console := dr_console d @ [on_line (la_time a) m]\<rparr> else d)"

subsection \<open>An upstream in a line\<close>

fun protocol_variant :: "proxy_protocol \<Rightarrow> bytes" where
  "protocol_variant Socks5 = ascii ''Socks5''"
| "protocol_variant Http = ascii ''Http''"
| "protocol_variant Https = ascii ''Https''"

definition family_label :: "bytes \<Rightarrow> bytes" where
  "family_label host = (if parse_ipv6 host \<noteq> None then ascii ''V6'' else ascii ''V4'')"

definition print_cfg :: "proxy_config \<Rightarrow> bytes" where
  "print_cfg p =
     ascii ''ip '' @ family_label (pc_host p) @ ascii '' - '' @ protocol_variant (pc_protocol p) @ ascii ''://'' @
     pc_host p @ [COLON] @ fmt_u16 (pc_port p)"

text \<open>Neither half of the credentials is in the line.\<close>

lemma print_cfg_hides_credentials:
  "print_cfg (ProxyConfig proto host port u w l g via) = print_cfg (ProxyConfig proto host port u' w' l' g' via')"
  by (simp add: print_cfg_def)

subsection \<open>The lines of a tunnel\<close>

record tunnel_counters =
  ct_sent :: u64
  ct_received :: u64
  ct_upstream_failed :: bool

definition new_counters :: tunnel_counters where
  "new_counters = \<lparr>ct_sent = 0, ct_received = 0, ct_upstream_failed = False\<rparr>"

text \<open>The calls on the upstream stream and what a poll answers: a count for reads and writes.\<close>

datatype io_poll = IoPending | IoReady nat | IoFailed

datatype io_call = ReadCall | WriteCall | FlushCall | ShutdownCall

definition note_poll :: "io_poll \<Rightarrow> tunnel_counters \<Rightarrow> tunnel_counters" where
  "note_poll p c = (if p = IoFailed then c\<lparr>ct_upstream_failed := True\<rparr> else c)"

fun counted_call :: "io_call \<Rightarrow> io_poll \<Rightarrow> tunnel_counters \<Rightarrow> tunnel_counters" where
  "counted_call ReadCall (IoReady n) c = c\<lparr>ct_received := ct_received c + of_nat n\<rparr>"
| "counted_call WriteCall (IoReady n) c = c\<lparr>ct_sent := ct_sent c + of_nat n\<rparr>"
| "counted_call _ p c = note_poll p c"

definition failed_side :: "tunnel_counters \<Rightarrow> bytes" where
  "failed_side c = (if ct_upstream_failed c then ascii ''upstream'' else ascii ''client'')"

record tunnel_label =
  tl_target :: bytes
  tl_client :: "bytes option"

definition fmt_u64 :: "u64 \<Rightarrow> bytes" where
  "fmt_u64 n = radix_str 10 (unat n)"

definition client_tag :: "bytes option \<Rightarrow> bytes" where
  "client_tag client =
     (case client of Some user \<Rightarrow> ascii '' [client='' @ user @ ascii '']'' | None \<Rightarrow> ascii '' [client=anon]'')"

text \<open>The end of a tunnel: the wording of a clean end, or the text of an error; \<open>secs\<close> is the printed duration.\<close>

definition tunnel_end_text :: "bytes + bytes \<Rightarrow> tunnel_counters \<Rightarrow> bytes" where
  "tunnel_end_text result c =
     (case result of Ok e \<Rightarrow> e | Err e \<Rightarrow> ascii ''failed on '' @ failed_side c @ ascii '' side: '' @ e)"

definition tunnel_report ::
  "tunnel_label \<Rightarrow> bytes + bytes \<Rightarrow> tunnel_counters \<Rightarrow> bytes \<Rightarrow> (log_event \<times> bytes) list" where
  "tunnel_report l result c secs =
     (TunnelClosed,
        ascii ''Tunnel '' @ tl_target l @ [SPACE] @ tunnel_end_text result c @ ascii '' after '' @ secs @ ascii ''s: sent '' @
        fmt_u64 (ct_sent c) @ ascii '' B, received '' @ fmt_u64 (ct_received c) @ ascii '' B'' @ client_tag (tl_client l)) #
     (if ct_received c = 0 \<and> 0 < ct_sent c
      then [(ProxyFailure,
        ascii ''Tunnel '' @ tl_target l @ ascii '': upstream sent nothing back (sent '' @ fmt_u64 (ct_sent c) @ ascii '' B, '' @
        tunnel_end_text result c @ ascii '' after '' @ secs @ ascii ''s)'' @ client_tag (tl_client l))]
      else [])"

text \<open>Over the calls of a tunnel the counters are the bytes moved, modulo the width of the counter, and the upstream
  side is blamed exactly when one of its calls failed.\<close>

definition moved :: "io_call \<Rightarrow> (io_call \<times> io_poll) list \<Rightarrow> nat" where
  "moved k cs = sum_list (map (\<lambda>(k', p). case p of IoReady n \<Rightarrow> if k' = k then n else 0 | _ \<Rightarrow> 0) cs)"

lemma counted_calls:
  "fold (\<lambda>(k, p). counted_call k p) cs c =
     \<lparr>ct_sent = ct_sent c + of_nat (moved WriteCall cs), ct_received = ct_received c + of_nat (moved ReadCall cs),
      ct_upstream_failed = (ct_upstream_failed c \<or> IoFailed \<in> snd ` set cs)\<rparr>"
proof (induction cs arbitrary: c)
  case (Cons a cs)
  obtain k p where a: "a = (k, p)" by fastforce
  show ?case unfolding a using Cons [of "counted_call k p c"] by (cases k; cases p) (auto simp: moved_def note_poll_def)
qed (simp add: moved_def)

subsection \<open>A message is one line\<close>

lemma chars_append: "is_str l \<Longrightarrow> chars (l @ r) = chars l @ chars r"
  by (induction l rule: is_str.induct) (auto simp: Let_def)

definition harmless :: "bytes \<Rightarrow> bool" where
  "harmless s \<longleftrightarrow> is_str s \<and> \<not> list_ex is_control (chars s)"

lemma harmless_append: "harmless s \<Longrightarrow> harmless t \<Longrightarrow> harmless (s @ t)"
  by (simp add: harmless_def is_str_append chars_append)

lemma harmless_ascii:
  assumes "\<forall>b\<in>set s. 32 \<le> b \<and> b < 127"
  shows "harmless s"
  using assms
proof (induction s)
  case (Cons b s)
  then have "b < 128" "32 \<le> unat b" "unat b < 127" by (auto simp: word_le_nat_alt word_less_nat_alt)
  then show ?case using Cons by (auto simp: harmless_def utf8_len_ascii is_control_def Let_def)
qed (simp add: harmless_def)

lemma harmless_escape_control: "harmless (escape_control c)"
proof -
  have "set (radix_str 16 c) \<subseteq> digit_char ` {..<16}" using set_radix_str [of 16 c] by simp
  moreover have "32 \<le> digit_char d \<and> digit_char d < 127" if "d < 16" for d
    using unat_digit_char [OF that] that by (auto simp: word_le_nat_alt word_less_nat_alt split: if_splits)
  ultimately have "\<forall>b\<in>set (radix_str 16 c). 32 \<le> b \<and> b < 127" by blast
  then show ?thesis unfolding escape_control_def by (intro harmless_ascii) auto
qed

lemma escape_slices:
  assumes "is_str m"
  shows "harmless (concat (map escape_slice (char_slices m)))"
  using assms
proof (induction m rule: char_slices.induct)
  case (2 b bs)
  let ?n = "utf8_len b - 1" let ?s = "b # take (utf8_len b - 1) bs"
  have ok: "utf8_len b \<noteq> 0" "?n \<le> length bs" "list_all is_cont (take ?n bs)" "is_str (drop ?n bs)"
    using 2(2) by (simp_all add: Let_def)
  then have "is_str ?s" by (simp add: Let_def)
  then have "harmless (escape_slice ?s)" by (cases "list_ex is_control (chars ?s)") (simp_all add: escape_slice_def harmless_escape_control, simp add: harmless_def)
  then show ?case using 2(1) ok(4) by (simp add: harmless_append)
qed (simp add: harmless_def)

lemma escape_message_harmless: "is_str m \<Longrightarrow> harmless (escape_message m)"
  using escape_slices by (simp add: escape_message_def harmless_def)

lemma harmless_no_control:
  assumes "harmless s" "b \<in> set s"
  shows "32 \<le> b \<and> b \<noteq> 127"
proof (rule ccontr)
  assume "\<not> ?thesis"
  then have b: "unat b < 32 \<or> unat b = 127" by (auto simp: not_le word_less_nat_alt)
  then have "b < 128" by (auto simp: word_less_nat_alt)
  then have "unat b \<in> set (chars s)" using is_str_char assms by (simp add: harmless_def)
  then show False using assms(1) b by (auto simp: harmless_def list_ex_iff is_control_def)
qed

subsection \<open>From the events to the file\<close>

text \<open>The queue, the task and, for the statements, the history: the lines that were accepted and those that the task
  took, with their times.\<close>

record log_world =
  lw_queue :: "elog list"
  lw_drain :: drain
  lw_accepted :: "elog list"
  lw_taken :: "(line_answer \<times> elog) list"

datatype log_action = Emit log_event bytes | Drain line_answer

fun log_step :: "log_config \<Rightarrow> file_log_config \<Rightarrow> log_action \<Rightarrow> log_world \<Rightarrow> log_world" where
  "log_step c fl (Emit e m) y =
     (let q = logger_log c e m (lw_queue y)
      in y\<lparr>lw_queue := q, lw_accepted := lw_accepted y @ drop (length (lw_queue y)) q\<rparr>)"
| "log_step c fl (Drain a) y =
     (case lw_queue y of
        [] \<Rightarrow> y
      | m # ms \<Rightarrow> y\<lparr>lw_queue := ms, lw_drain := drain_message fl a m (lw_drain y), lw_taken := lw_taken y @ [(a, m)]\<rparr>)"

definition log_run :: "log_config \<Rightarrow> file_log_config \<Rightarrow> log_action list \<Rightarrow> drain \<Rightarrow> log_world" where
  "log_run c fl acts d = fold (log_step c fl) acts \<lparr>lw_queue = [], lw_drain = d, lw_accepted = [], lw_taken = []\<rparr>"

definition log_lines :: "(line_answer \<times> elog) list \<Rightarrow> bytes list" where
  "log_lines ms = map (\<lambda>(a, m). line_text (la_time a) m) ms"

text \<open>Where the lines are: the file has the first ones, and of the next one at most a part; the console has those that
  the file does not have whole, or all.\<close>

definition lines_stored :: "file_log_config \<Rightarrow> bytes \<Rightarrow> (line_answer \<times> elog) list \<Rightarrow> drain \<Rightarrow> bool" where
  "lines_stored fl content ms d \<longleftrightarrow>
     (\<exists>k part. k \<le> length ms \<and> dr_file d = content @ concat (log_lines (take k ms)) @ part \<and>
        (if dr_open d then k = length ms \<and> part = []
         else part = [] \<or> k < length ms \<and> (\<exists>n. part = take n (log_lines ms ! k))) \<and>
        dr_console d = map (\<lambda>(a, m). on_line (la_time a) m) (if fl_also_console fl then ms else drop k ms))"

fun plain_action :: "log_action \<Rightarrow> bool" where
  "plain_action (Emit e m) \<longleftrightarrow> is_str m"
| "plain_action (Drain a) \<longleftrightarrow> harmless (la_time a)"

definition log_inv :: "file_log_config \<Rightarrow> bytes \<Rightarrow> log_world \<Rightarrow> bool" where
  "log_inv fl content y \<longleftrightarrow>
     length (lw_queue y) \<le> LOG_QUEUE \<and> lw_accepted y = map snd (lw_taken y) @ lw_queue y \<and>
     lines_stored fl content (lw_taken y) (lw_drain y) \<and>
     (\<forall>m\<in>set (lw_accepted y). harmless (elog_text m)) \<and> (\<forall>(a, m)\<in>set (lw_taken y). harmless (la_time a))"

lemma elog_text_wrap [simp]: "elog_text (wrap_of e m) = m"
  by (cases e) simp_all

lemma lines_stored_snoc:
  assumes "lines_stored fl content ms d"
  shows "lines_stored fl content (ms @ [(a, m)]) (drain_message fl a m d)"
proof -
  obtain k part where s: "k \<le> length ms" "dr_file d = content @ concat (log_lines (take k ms)) @ part"
      "if dr_open d then k = length ms \<and> part = [] else part = [] \<or> k < length ms \<and> (\<exists>n. part = take n (log_lines ms ! k))"
      "dr_console d = map (\<lambda>(a, m). on_line (la_time a) m) (if fl_also_console fl then ms else drop k ms)"
    using assms by (auto simp: lines_stored_def)
  let ?line = "line_text (la_time a) m"
  consider "\<not> dr_open d" | "dr_open d" "la_failure a = None" | n e where "dr_open d" "la_failure a = Some (n, e)" by fastforce
  then show ?thesis
  proof cases
    case 1
    then show ?thesis
      using s unfolding lines_stored_def
      by (intro exI [of _ k] exI [of _ part]) (auto simp: drain_message_def file_line_def log_lines_def nth_append)
  next
    case 2
    then show ?thesis
      using s unfolding lines_stored_def
      by (intro exI [of _ "Suc k"] exI [of _ "[]"]) (auto simp: drain_message_def file_line_def log_lines_def)
  next
    case (3 n e)
    then show ?thesis
      using s unfolding lines_stored_def
      by (intro exI [of _ k] exI [of _ "take n ?line"]) (auto simp: drain_message_def file_line_def log_lines_def nth_append)
  qed
qed

lemma log_inv_step:
  assumes "log_inv fl content y" "plain_action x"
  shows "log_inv fl content (log_step c fl x y)"
proof (cases x)
  case (Emit e m)
  then show ?thesis
    using assms escape_message_harmless [of m] by (auto simp: log_inv_def logger_log_def log_send_def Let_def)
next
  case (Drain a)
  show ?thesis
  proof (cases "lw_queue y")
    case (Cons m ms)
    then show ?thesis using assms Drain lines_stored_snoc [of fl content "lw_taken y" "lw_drain y" a m] by (auto simp: log_inv_def)
  qed (use assms Drain in simp)
qed

lemma drain_start_content:
  "dr_file (drain_start fl open_error content) = content" "dr_console (drain_start fl open_error content) = []"
  by (cases "fl_enabled fl"; cases open_error; simp add: drain_start_def)+

lemma log_inv_run:
  assumes "list_all plain_action acts"
  shows "log_inv fl content (log_run c fl acts (drain_start fl open_error content))"
proof -
  have runs: "log_inv fl content (fold (log_step c fl) acts y)" if "log_inv fl content y" for y
    using assms that
  proof (induction acts arbitrary: y)
    case (Cons x acts)
    then show ?case using Cons.IH [of "log_step c fl x y"] log_inv_step [of fl content y x c] by simp
  qed simp
  have "lines_stored fl content [] (drain_start fl open_error content)"
    unfolding lines_stored_def by (intro exI [of _ 0] exI [of _ "[]"]) (simp add: drain_start_content log_lines_def)
  then have "log_inv fl content \<lparr>lw_queue = [], lw_drain = drain_start fl open_error content, lw_accepted = [], lw_taken = []\<rparr>"
    by (simp add: log_inv_def)
  with runs show ?thesis by (simp only: log_run_def)
qed

text \<open>C40: The log is faithful, whatever clients put into its messages. A line that was accepted is never lost, doubled
  or moved: the lines taken from the queue and those still in it are the accepted ones in order. The file holds the
  first of them, one after the other behind what it held before, and after a failed write at most a part of the next;
  the console gets every line that the file has not taken whole. Each line is one line: its only control character is
  the line feed at its end, so no message can forge another. The queue stays within its bound.\<close>

theorem log_lines_are_faithful:
  assumes "list_all plain_action acts"
    and "y = log_run c fl acts (drain_start fl open_error content)"
  shows "lw_accepted y = map snd (lw_taken y) @ lw_queue y \<and> length (lw_queue y) \<le> LOG_QUEUE \<and>
    lines_stored fl content (lw_taken y) (lw_drain y) \<and>
    (\<forall>l\<in>set (log_lines (lw_taken y)). \<exists>s. l = s @ [LF] \<and> (\<forall>b\<in>set s. 32 \<le> b \<and> b \<noteq> 127) \<and> \<not> list_ex is_control (chars s))"
proof -
  have inv: "log_inv fl content y" using log_inv_run [OF assms(1)] assms(2) by simp
  have "harmless (la_time a @ [COLON, SPACE] @ elog_text m)" if "(a, m) \<in> set (lw_taken y)" for a m
  proof -
    have "m \<in> set (lw_accepted y)" using inv that by (force simp: log_inv_def)
    moreover have "harmless [COLON, SPACE]" by (intro harmless_ascii) simp
    ultimately show ?thesis using inv that by (intro harmless_append) (auto simp: log_inv_def)
  qed
  then have "\<exists>s. l = s @ [LF] \<and> harmless s" if "l \<in> set (log_lines (lw_taken y))" for l
    using that by (force simp: log_lines_def line_text_def)
  then have "\<exists>s. l = s @ [LF] \<and> (\<forall>b\<in>set s. 32 \<le> b \<and> b \<noteq> 127) \<and> \<not> list_ex is_control (chars s)"
    if "l \<in> set (log_lines (lw_taken y))" for l
    using that harmless_no_control unfolding harmless_def by blast
  then show ?thesis using inv by (simp add: log_inv_def)
qed

text \<open>A client name with a line feed in a message, then a full disk: two bytes of the second line reach the file.\<close>

definition demo_log_actions :: "log_action list" where
  "demo_log_actions =
     [Emit TunnelClosed [88], Emit ProxyFailure [65, LF, 66], Drain \<lparr>la_time = [49], la_failure = None\<rparr>, Emit Lifecycle [67],
      Drain \<lparr>la_time = [50], la_failure = Some (2, [])\<rparr>]"

definition demo_log_world :: log_world where
  "demo_log_world =
     log_run default_log_config \<lparr>fl_enabled = True, fl_path = [], fl_also_console = False\<rparr> demo_log_actions
       (drain_start \<lparr>fl_enabled = True, fl_path = [], fl_also_console = False\<rparr> None [])"

theorem log_lines_are_faithful_witness:
  "list_all plain_action demo_log_actions \<and> lw_accepted demo_log_world = [Error [65, 92, 110, 66], Log [67]] \<and>
   dr_file (lw_drain demo_log_world) = [49, COLON, SPACE, 65, 92, 110, 66, LF] @ [50, COLON] \<and>
   dr_console (lw_drain demo_log_world) = [Log [50, COLON, SPACE, 67, LF]] \<and> length (lw_queue demo_log_world) \<le> LOG_QUEUE"
proof -
  have s: "list_all plain_action demo_log_actions" by (simp add: demo_log_actions_def harmless_def utf8_len_ascii is_control_def Let_def)
  have "lw_accepted demo_log_world = [Error [65, 92, 110, 66], Log [67]] \<and>
    dr_file (lw_drain demo_log_world) = [49, COLON, SPACE, 65, 92, 110, 66, LF] @ [50, COLON] \<and>
    dr_console (lw_drain demo_log_world) = [Log [50, COLON, SPACE, 67, LF]]"
    by code_simp
  then show ?thesis
    using log_lines_are_faithful [OF s demo_log_world_def] s by blast
qed

end
