(* ===== verification/Spec2Isabelle.thy ===== *)
theory Spec2Isabelle
  imports HandleSpec RecoverySpec ProxyLine HttpInterop AuthSpec DialSpec AtomicFile HealthSpec RunServer Logging
begin

text \<open>
  \<^bold>\<open>A verification of resocks5\<close>

  resocks5 is a SOCKS5 and HTTP forward proxy that dials the targets of its clients through a rotating set of upstream
  proxies, possibly through chains of them. The repository has two crates: the library \<open>crates/resocks5-net\<close>
  (selection of upstreams, dialling, both ends of the two proxy protocols, TLS records) and the server binary
  \<open>crates/resocks5\<close> (configuration, users, clients, routing, start and shutdown). File names below are relative
  to the \<open>src\<close> directory of their crate.

  \<^bold>\<open>How the parts work together.\<close> The binary reads its files and builds one rotator for each group of
  upstreams (\<open>Config\<close>, \<open>Startup\<close>), puts the quarantines of the last run back (\<open>Health\<close>) and enters
  the accept loop (\<open>RunServer\<close>). Each client is served by a handler (\<open>Handle\<close>): the address filter
  (\<open>AllowedClients\<close>), the request of one of the two protocols (\<open>Server\<close>), the check of the user
  (\<open>Auth\<close>), then either a direct connection or the routing of the request (\<open>Establish\<close>). Routing asks the
  rotators (\<open>Rotator\<close>, over \<open>Ratings\<close> and \<open>StickyCache\<close>) and the chain plan (\<open>ChainPlan\<close>) for
  upstreams, races single upstreams (\<open>Hedged\<close>) or dials chains (\<open>Dial\<close>) with sockets of the pool
  (\<open>Pool\<close>), talks to each upstream (\<open>Socks5Client\<close>, \<open>HttpClient\<close>) and books every failure on
  the upstream that caused it (\<open>ConnectError\<close>). The first bytes of the client may be read to learn the name of
  the target and are sent on fragmented (\<open>Recovery\<close>, \<open>RecoverHost\<close>, \<open>TlsFragment\<close>), and the
  tunnel runs until one of its deadlines (\<open>Tunnel\<close>). User commands and the running server change the users file
  at the same time (\<open>Cli\<close>, \<open>UsersFile\<close>, \<open>AtomicFile\<close>); what happens is logged (\<open>Logging\<close>).

  \<^bold>\<open>Reading order.\<close> Every theory opens with the files that it models, its operations come first, in the order
  of the code, and its lemmas behind them; the properties of the larger components are in a theory of their own with
  the suffix \<open>Spec\<close>.

  \<^item> Foundations. \<open>Prelude\<close>: machine integers as words, \<open>Result\<close> as a sum (\<open>Ok\<close>, \<open>Err\<close>),
    slices and iterators. \<open>Clock\<close>: \<open>Duration\<close> and \<open>Instant\<close> as nanoseconds with the checked and
    saturating operations. \<open>F64\<close>: floating point values with infinities and NaN. \<open>Strings\<close>, \<open>Utf8\<close>:
    strings as their bytes. \<open>IpAddr\<close>, \<open>HostPort\<close>: addresses and \<open>host:port\<close>, with round trips.
    \<open>Wire\<close>: asynchronous stream code as programs over stream operations, with their executions under every
    answer of the environment. \<open>Net\<close>: two such programs on the two ends of a connection under every schedule;
    the locale \<open>commuting_system\<close> says when one terminating schedule decides all of them.

  \<^item> Selection, \<open>session/rating\<close>, \<open>session/rotator\<close>, \<open>session/chain\<close>. \<open>Quarantine\<close>: the
    cell as a state machine, and the backoff. \<open>Sand\<close>: the decaying rating. \<open>Select\<close>: the generator and the
    weighted order. \<open>Ratings\<close>: both together, with the locale \<open>selector\<close> as what a client may rely on.
    \<open>StickyCache\<close>: the bounded cache and the locale \<open>target_cache\<close>. \<open>Rotator\<close>: the upstreams of a
    group. \<open>ChainPlan\<close>, \<open>ChainPlanSpec\<close>: the lazy product of gates and exits, refined to the list of all
    chains (locale \<open>alternative_source\<close>), and who is to blame for a failed chain.

  \<^item> Upstreams, \<open>types\<close>, \<open>error\<close>, \<open>connect\<close>, \<open>session/pool\<close>. \<open>ProxyConfig\<close>,
    \<open>ProxyLine\<close>: entries, validation and their notation, with the round trip. \<open>ConnectError\<close>: errors and
    their classification. \<open>Socks5Client\<close>, \<open>HttpClient\<close>, \<open>HttpClientSpec\<close>: the client side of the
    protocols, and two readers of one response that agree. \<open>Pool\<close>, \<open>PoolSpec\<close>: spares, refill tasks and
    the cap as interleaved steps. \<open>Dial\<close>, \<open>DialSpec\<close>: one hop after the other within the budgets.
    \<open>Hedged\<close>: the race.

  \<^item> Clients, \<open>server\<close> of the library. \<open>Inbound\<close>, \<open>StrictHttp\<close>, \<open>Server\<close>: from the first
    byte to a request. \<open>ServerSpec\<close>: who is let in. \<open>ServerStream\<close>: segmentation does not matter.
    \<open>Socks5Interop\<close>, \<open>Socks5Exchange\<close>, \<open>HttpInterop\<close>: the clients of the library meet its server.

  \<^item> First bytes and tunnels. \<open>TlsRecords\<close>, \<open>RecoverHost\<close>, \<open>HelloSpec\<close>: record walking and the name
    in a ClientHello. \<open>TlsFragment\<close>: fragments and bounded sends. \<open>Recovery\<close>, \<open>RecoverySpec\<close>: reading
    ahead without losing a byte. \<open>Tunnel\<close>: the deadlines.

  \<^item> The server binary. \<open>AllowedClients\<close>, \<open>Auth\<close>, \<open>AuthSpec\<close>: filters, logins and claims under
    concurrent calls. \<open>Establish\<close>, \<open>EstablishSpec\<close>: routing and probes. \<open>Handle\<close>, \<open>HandleSpec\<close>:
    who gets a tunnel, where to and by which way. \<open>Cli\<close>: what a user command does to the table of users.
    \<open>UsersFile\<close>: commands, claims and killed processes, refined to one change after the other.
    \<open>AtomicFile\<close>: the system calls of one replacement, and the wait for the lock. \<open>Config\<close>, \<open>Startup\<close>,
    \<open>StartupSpec\<close>: defaults, first start, and what a started server has. \<open>Health\<close>, \<open>HealthSpec\<close>: the
    health file. \<open>RunServer\<close>: limits and shutdown. \<open>Logging\<close>: the lines and where they go.

  \<^bold>\<open>State and concurrency.\<close> A struct is a record, an enum a datatype, a lock-protected operation or a stretch of
  code between two suspension points one function on the state. Where calls, tasks or processes interfere
  (\<open>Auth\<close>, \<open>Pool\<close>, \<open>Hedged\<close>, \<open>UsersFile\<close>, \<open>RunServer\<close>, \<open>Net\<close>) these functions are the
  steps of a relation, and the properties are invariants of all its runs. Where code waits on one stream it is a
  program of \<open>Wire\<close>, and the properties range over all its executions. Shared rotators live in a store under
  numbers. The state passed over by a crash is made explicit where it matters: \<open>AtomicFile\<close> lists every state of
  the directory during a write, \<open>UsersFile\<close> lets a process die between any two steps.

  \<^bold>\<open>Bounds.\<close> Loops over data are structural recursion or have a measure. Reading loops are bounded as in the code
  (the head of an HTTP request or response, 16 KiB of first bytes) and the programs of \<open>Wire\<close> are finite trees.
  \<open>next_pick\<close> and \<open>gate_loop\<close> are partial functions into \<open>option\<close>; \<open>chain_plan_enumerates_product\<close> and
  \<open>establish_within_budget\<close> show that they return. The pool's checkout takes the length of its queue as fuel, for
  every round removes a spare. Waits are lists: the idle windows of a send, the polls of a tunnel, the rounds of the saver;
  the timer of a whole dial is the number of waits that end before it. The backoff loop and the wait for the lock have
  measures, and their bounds are proved.

  \<^bold>\<open>Arguments.\<close> What is not under \<open>src\<close> is an argument, never a definition: the hasher of a map, seeds, the
  clocks, base64, Argon2 and HMAC, regular expressions, the reading and printing of ktav files, the answers of the file
  system, of the lock, of sockets and of rustls, the verdict of a deadline. Laws of them are assumed only where a
  theorem says so: that base64 decoding undoes encoding (\<open>codec_ok\<close>), that a fresh Argon2 hash is no sentinel and accepts
  its password (\<open>hasher_ok\<close>), that the time of a log line has no control character. Such theorems have a witness with a
  concrete function.

  \<^bold>\<open>Not modelled.\<close>
  \<^item> Rounding of \<open>f64\<close> (arithmetic between finite values is exact; no range of the weights is claimed, for rounding can
    take one a last digit below \<open>min_weight\<close>) and \<open>usize\<close> overflow of lengths of data in memory.
  \<^item> The texts of most log lines and errors, the printed tables and documentation of the command line, redacting
    \<open>Debug\<close> output and the zeroizing of secrets: they do not feed back into any state.
  \<^item> Delegating code: \<open>AnyUpstream\<close>, \<open>UpstreamStream\<close> and the other wrappers hand reads, writes and socket
    options on to the stream inside. \<open>tcp_keepalive\<close> and \<open>TCP_NODELAY\<close> are best effort.
  \<^item> The construction of the rustls connectors and their certificate stores, clap, the tokio runtime with its teardown,
    the Win32 and flock bindings, the normalisation of long Windows paths, and \<open>platform_other.rs\<close>, which has no lock.
  \<^item> The permits that bound the number of Argon2 threads, and what other requests do to the rotators while one request is
    routed: each operation of a rotator is shown to keep its invariant, the routing of one request is one run.
\<close>

end
